(* ===== verification/Prelude.thy ===== *)
theory Prelude
  imports Main "HOL-Library.AList"
begin

text \<open>
  What the component theories share.

  \<^item> Python exceptions as values: \<open>py_error\<close>, the result type \<open>py_error + 'a\<close>, its
    sequencing (\<open>bindE\<close>), \<open>assert\<close>/\<open>raise\<close> guards (\<open>guardE\<close>) and the loop of a
    statement that may raise (\<open>foldE\<close>).
  \<^item> Python indexing and slicing with negative indices (\<open>py_index\<close>, \<open>py_slice\<close>).
  \<^item> Python's insertion-ordered dict as an association list (\<open>dict_get\<close>, \<open>dict_set\<close>,
    \<open>dict_pop\<close>), on the library's \<open>AList\<close>.
  \<^item> The integer helpers of \<open>vllm/utils/math_utils.py\<close>.
  \<^item> The collections \<open>result_simps\<close> and \<open>frame_simps\<close> that later theories extend.
\<close>

named_theorems result_simps "inversion and evaluation of results"
named_theorems frame_simps "fields an operation leaves unchanged"

section \<open>Exceptions as values\<close>

datatype py_error =
    AssertionError
  | ValueError
  | RuntimeError
  | IndexError
  | KeyError
  | NotImplementedError
  | OverflowError
  | StopIteration
  | ZeroDivisionError

type_synonym 'a result = "py_error + 'a"

definition bindE :: "'a result \<Rightarrow> ('a \<Rightarrow> 'b result) \<Rightarrow> 'b result" where
  "bindE r f = (case r of Inl e \<Rightarrow> Inl e | Inr x \<Rightarrow> f x)"

definition guardE :: "bool \<Rightarrow> py_error \<Rightarrow> unit result" where
  "guardE b e = (if b then Inr () else Inl e)"

fun foldE :: "('a \<Rightarrow> 's \<Rightarrow> 's result) \<Rightarrow> 'a list \<Rightarrow> 's \<Rightarrow> 's result" where
  "foldE f [] s = Inr s"
| "foldE f (x # xs) s = bindE (f x s) (foldE f xs)"

lemma bindE_Inr [simp, result_simps]: "bindE (Inr x) f = f x"
  by (simp add: bindE_def)

lemma bindE_Inl [simp, result_simps]: "bindE (Inl e) f = Inl e"
  by (simp add: bindE_def)

lemma bindE_eq_Inr [result_simps]: "bindE r f = Inr y \<longleftrightarrow> (\<exists>x. r = Inr x \<and> f x = Inr y)"
  by (cases r) (auto simp: bindE_def)

lemma bindE_eq_InrE [elim]:
  assumes "bindE r f = Inr y"
  obtains x where "r = Inr x" "f x = Inr y"
  using assms by (auto simp: bindE_eq_Inr)

lemma bindE_assoc: "bindE (bindE r f) g = bindE r (\<lambda>x. bindE (f x) g)"
  by (cases r) simp_all

lemma guardE_True [simp, result_simps]: "guardE True e = Inr ()"
  by (simp add: guardE_def)

lemma guardE_False [simp, result_simps]: "guardE False e = Inl e"
  by (simp add: guardE_def)

lemma guardE_eq_Inr [simp, result_simps]: "guardE b e = Inr u \<longleftrightarrow> b"
  by (simp add: guardE_def)

lemma guardE_eq_Inl [simp, result_simps]: "guardE b e = Inl e' \<longleftrightarrow> \<not> b \<and> e = e'"
  by (auto simp: guardE_def)

lemma foldE_append: "foldE f (xs @ ys) s = bindE (foldE f xs s) (foldE f ys)"
proof (induction xs arbitrary: s)
  case Nil
  then show ?case by simp
next
  case (Cons x xs)
  then show ?case by (cases "f x s") simp_all
qed

text \<open>A loop whose body keeps an invariant keeps it; one whose body never raises never raises.\<close>

lemma foldE_invariant:
  assumes "foldE f xs s = Inr t" and "P s"
    and "\<And>x s t. x \<in> set xs \<Longrightarrow> P s \<Longrightarrow> f x s = Inr t \<Longrightarrow> P t"
  shows "P t"
  using assms
proof (induction xs arbitrary: s)
  case Nil
  then show ?case by simp
next
  case (Cons x xs)
  from Cons.prems(1) obtain u where u: "f x s = Inr u" and t: "foldE f xs u = Inr t"
    by auto
  have "P u" using Cons.prems(2,3) u by auto
  with t show ?case by (rule Cons.IH) (use Cons.prems(3) in auto)
qed

lemma foldE_pure: "(\<And>x s. x \<in> set xs \<Longrightarrow> f x s = Inr (g x s)) \<Longrightarrow> foldE f xs s = Inr (fold g xs s)"
  by (induction xs arbitrary: s) simp_all

section \<open>Indexing and slicing\<close>

definition py_index :: "'a list \<Rightarrow> int \<Rightarrow> 'a result" where
  "py_index xs k =
     (let pos = (if k < 0 then int (length xs) + k else k)
      in if pos < 0 \<or> int (length xs) \<le> pos then Inl IndexError else Inr (xs ! nat pos))"

definition py_clip :: "nat \<Rightarrow> int \<Rightarrow> nat" where
  "py_clip n k = nat (if k < 0 then max 0 (k + int n) else min k (int n))"

definition py_slice :: "'a list \<Rightarrow> int \<Rightarrow> int \<Rightarrow> 'a list" where
  "py_slice xs i j =
     (let lo = py_clip (length xs) i; hi = py_clip (length xs) j
      in take (hi - lo) (drop lo xs))"

definition py_from :: "'a list \<Rightarrow> int \<Rightarrow> 'a list" where
  "py_from xs i = drop (py_clip (length xs) i) xs"

lemma py_index_nat [simp]: "i < length xs \<Longrightarrow> py_index xs (int i) = Inr (xs ! i)"
  by (simp add: py_index_def)

lemma py_index_Inr:
  "0 \<le> i \<Longrightarrow> py_index xs i = Inr x \<longleftrightarrow> nat i < length xs \<and> xs ! nat i = x"
  by (auto simp: py_index_def Let_def)

lemma py_slice_nonneg:
  "0 \<le> i \<Longrightarrow> 0 \<le> j \<Longrightarrow> py_slice xs i j = take (nat j - nat i) (drop (nat i) xs)"
  by (auto simp: py_slice_def py_clip_def Let_def min_def nat_le_iff)

lemma py_from_nonneg: "0 \<le> i \<Longrightarrow> py_from xs i = drop (nat i) xs"
  by (auto simp: py_from_def py_clip_def min_def)

lemma set_py_slice: "set (py_slice xs i j) \<subseteq> set xs"
  unfolding py_slice_def Let_def by (meson order_trans set_drop_subset set_take_subset)

lemma set_py_from: "set (py_from xs i) \<subseteq> set xs"
  unfolding py_from_def by (rule set_drop_subset)

section \<open>Dictionaries\<close>

text \<open>
  A dict is an association list in insertion order: storing under a present key keeps its
  position, under a new key appends, as Python does.
\<close>

definition dict_get :: "('k \<times> 'v) list \<Rightarrow> 'k \<Rightarrow> 'v option" where
  "dict_get d k = map_of d k"

definition dict_set :: "'k \<Rightarrow> 'v \<Rightarrow> ('k \<times> 'v) list \<Rightarrow> ('k \<times> 'v) list" where
  "dict_set k v d = AList.update k v d"

definition dict_pop :: "'k \<Rightarrow> ('k \<times> 'v) list \<Rightarrow> ('k \<times> 'v) list" where
  "dict_pop k d = AList.delete k d"

abbreviation dict_keys :: "('k \<times> 'v) list \<Rightarrow> 'k set" where
  "dict_keys d \<equiv> fst ` set d"

definition dict_wf :: "('k \<times> 'v) list \<Rightarrow> bool" where
  "dict_wf d \<longleftrightarrow> distinct (map fst d)"

lemma dict_get_Nil [simp]: "dict_get [] k = None"
  by (simp add: dict_get_def)

lemma dict_get_set [simp]: "dict_get (dict_set k v d) k' = (if k' = k then Some v else dict_get d k')"
  by (simp add: dict_get_def dict_set_def update_conv')

lemma dict_get_pop [simp]: "dict_get (dict_pop k d) k' = (if k' = k then None else dict_get d k')"
  by (simp add: dict_get_def dict_pop_def delete_conv')

lemma dict_wf_Nil [simp, intro]: "dict_wf []"
  by (simp add: dict_wf_def)

lemma dict_wf_set [simp, intro]: "dict_wf d \<Longrightarrow> dict_wf (dict_set k v d)"
  by (simp add: dict_wf_def dict_set_def distinct_update)

lemma dict_wf_pop [simp, intro]: "dict_wf d \<Longrightarrow> dict_wf (dict_pop k d)"
  by (simp add: dict_wf_def dict_pop_def distinct_delete)

lemma dict_get_eq_None [simp]: "dict_get d k = None \<longleftrightarrow> k \<notin> dict_keys d"
  by (simp add: dict_get_def map_of_eq_None_iff)

lemma dict_get_SomeD: "dict_get d k = Some v \<Longrightarrow> (k, v) \<in> set d"
  by (simp add: dict_get_def map_of_SomeD)

lemma dict_get_wf: "dict_wf d \<Longrightarrow> dict_get d k = Some v \<longleftrightarrow> (k, v) \<in> set d"
  by (simp add: dict_get_def dict_wf_def)

text \<open>Sums over a dict.\<close>

lemma sum_dict_set_new:
  "dict_get d k = None \<Longrightarrow> (\<Sum>(h, v) \<leftarrow> dict_set k x d. (f h v :: int)) = (\<Sum>(h, v) \<leftarrow> d. f h v) + f k x"
  by (induction d) (auto simp: dict_set_def dict_get_def split: if_splits)

lemma sum_dict_set_old:
  "dict_get d k = Some y \<Longrightarrow>
   (\<Sum>(h, v) \<leftarrow> dict_set k x d. (f h v :: int)) = (\<Sum>(h, v) \<leftarrow> d. f h v) + f k x - f k y"
  by (induction d) (auto simp: dict_set_def dict_get_def split: if_splits)

lemma dict_pop_absent: "dict_get d k = None \<Longrightarrow> dict_pop k d = d"
  by (induction d) (auto simp: dict_pop_def dict_get_def split: if_splits)

lemma sum_dict_pop:
  assumes "dict_wf d" "dict_get d k = Some y"
  shows "(\<Sum>(h, v) \<leftarrow> dict_pop k d. (f h v :: int)) = (\<Sum>(h, v) \<leftarrow> d. f h v) - f k y"
  using assms
proof (induction d)
  case (Cons a d)
  show ?case
  proof (cases "fst a = k")
    case True
    then have "dict_pop k d = d" using Cons.prems(1) by (intro dict_pop_absent) (auto simp: dict_wf_def dict_get_def map_of_eq_None_iff)
    then show ?thesis using True Cons.prems(2) by (cases a) (auto simp: dict_pop_def dict_get_def)
  next
    case False
    then show ?thesis using Cons by (cases a) (auto simp: dict_pop_def dict_get_def dict_wf_def)
  qed
qed simp

lemma set_dict_set_iff: "dict_wf d \<Longrightarrow> (h, v) \<in> set (dict_set k x d) \<longleftrightarrow> (if h = k then v = x else (h, v) \<in> set d)"
  using dict_get_wf [of "dict_set k x d" h v] dict_get_wf [of d h v] by auto

lemma set_dict_pop_iff: "dict_wf d \<Longrightarrow> (h, v) \<in> set (dict_pop k d) \<longleftrightarrow> h \<noteq> k \<and> (h, v) \<in> set d"
  using dict_get_wf [of "dict_pop k d" h v] dict_get_wf [of d h v] by (cases "h = k") auto

lemma set_dict_set:
  "dict_wf d \<Longrightarrow> set (dict_set k v d) = insert (k, v) {x \<in> set d. fst x \<noteq> k}"
  by (induction d) (force simp: dict_set_def dict_wf_def)+

lemma set_dict_pop: "set (dict_pop k d) = {x \<in> set d. fst x \<noteq> k}"
  by (induction d) (auto simp: dict_pop_def)

lemma dict_set_not_Nil [simp]: "dict_set k v d \<noteq> []"
  by (cases d) (auto simp: dict_set_def)

section \<open>Integer helpers of math_utils.py\<close>

text \<open>
  Python's \<open>//\<close> and \<open>int div\<close> both round towards minus infinity. The divisors are block
  sizes, window sizes and page sizes, which are never 0 in the code's configurations; the
  theorems that divide say so.
\<close>

definition cdiv :: "int \<Rightarrow> int \<Rightarrow> int" where
  "cdiv a b = - (a div (- b))"

definition round_up :: "int \<Rightarrow> int \<Rightarrow> int" where
  "round_up x y = ((x + y - 1) div y) * y"

definition round_down :: "int \<Rightarrow> int \<Rightarrow> int" where
  "round_down x y = (x div y) * y"

lemma int_le_div_iff: "0 < (b::int) \<Longrightarrow> k \<le> a div b \<longleftrightarrow> k * b \<le> a"
proof
  assume b: "0 < b" and "k \<le> a div b"
  then have "k * b \<le> (a div b) * b" by (simp add: mult_right_mono)
  also have "\<dots> \<le> a"
    using b minus_mod_eq_div_mult [of a b] pos_mod_sign [of b a] by linarith
  finally show "k * b \<le> a" .
next
  assume b: "0 < b" and "k * b \<le> a"
  then show "k \<le> a div b"
    using zdiv_mono1 [of "k * b" a b] by simp
qed

lemma cdiv_le_iff: "0 < b \<Longrightarrow> cdiv a b \<le> k \<longleftrightarrow> a \<le> k * b"
  using int_le_div_iff [of b "- k" "- a"] by (auto simp: cdiv_def div_minus_right)

lemma less_cdiv_iff: "0 < b \<Longrightarrow> k < cdiv a b \<longleftrightarrow> k * b < a"
  using cdiv_le_iff [of b a k] by linarith

lemma cdiv_unique: "0 < b \<Longrightarrow> (k - 1) * b < a \<Longrightarrow> a \<le> k * b \<Longrightarrow> cdiv a b = k"
  using cdiv_le_iff [of b a k] less_cdiv_iff [of b "k - 1" a] by linarith

lemma cdiv_upper: "0 < b \<Longrightarrow> a \<le> cdiv a b * b"
  using cdiv_le_iff by blast

lemma cdiv_lower: "0 < b \<Longrightarrow> (cdiv a b - 1) * b < a"
  using less_cdiv_iff [of b "cdiv a b - 1" a] by simp

lemma cdiv_nonneg: "0 < b \<Longrightarrow> 0 \<le> a \<Longrightarrow> 0 \<le> cdiv a b"
  using less_cdiv_iff [of b "-1" a] by linarith

lemma cdiv_mono: "0 < b \<Longrightarrow> a \<le> a' \<Longrightarrow> cdiv a b \<le> cdiv a' b"
  by (meson cdiv_le_iff cdiv_upper order_trans)

lemma cdiv_ge_div: "0 < b \<Longrightarrow> a div b \<le> cdiv a b"
  using less_cdiv_iff [of b "a div b - 1" a] int_le_div_iff [of b "a div b" a]
  by (simp add: algebra_simps)

lemma cdiv_add_mult:
  assumes b: "0 < b" shows "cdiv (a + k * b) b = cdiv a b + k"
proof (rule cdiv_unique [OF b])
  show "(cdiv a b + k - 1) * b < a + k * b"
    using cdiv_lower [OF b, of a] by (simp add: algebra_simps)
  show "a + k * b \<le> (cdiv a b + k) * b"
    using cdiv_upper [OF b, of a] by (simp add: algebra_simps)
qed

lemma round_up_spec:
  assumes y: "0 < y" shows "round_up x y = cdiv x y * y"
proof -
  have "(x + y - 1) div y = cdiv x y"
  proof (rule cdiv_unique [OF y, symmetric])
    show "((x + y - 1) div y - 1) * y < x"
      using int_le_div_iff [OF y, of "(x + y - 1) div y" "x + y - 1"]
      by (simp add: algebra_simps)
    show "x \<le> (x + y - 1) div y * y"
      using int_le_div_iff [OF y, of "(x + y - 1) div y + 1" "x + y - 1"]
      by (simp add: algebra_simps)
  qed
  then show ?thesis by (simp add: round_up_def)
qed

lemma round_down_le: "0 < y \<Longrightarrow> round_down x y \<le> x"
  using int_le_div_iff [of y "x div y" x] by (simp add: round_down_def)

end
