(* ===== verification/Free_Queue.thy ===== *)
theory Free_Queue
  imports Prelude "HOL-Library.Word"
begin

text \<open>
  \<open>KVCacheBlock\<close> and \<open>FreeKVCacheBlockQueue\<close> of \<open>vllm/v1/core/kv_cache_utils.py\<close>.

  The block objects live in a heap indexed by references: \<open>Blk i\<close> is the object
  \<open>blocks[i]\<close> of the pool, \<open>Fake_head\<close> and \<open>Fake_tail\<close> are the two sentinels the queue
  creates. The queue threads a doubly linked list through the \<open>prev_free_block\<close> and
  \<open>next_free_block\<close> fields of the objects themselves, so every operation is a sequence of
  heap updates in the order of the source's assignments.

  \<open>fq_rep s xs\<close> says that the heap holds exactly the list \<open>xs\<close> of free blocks; each
  operation is shown to refine the corresponding list operation and to leave the fields
  that are not links alone. The locale \<open>free_block_queue\<close> is the interface that the
  block pool relies on.
\<close>

section \<open>Block objects\<close>

type_synonym bytes = "8 word list"

datatype blk_ref = Fake_head | Fake_tail | Blk nat

record kv_cache_block =
  block_id :: int
  ref_cnt :: int
  block_hash :: "bytes option"
  prev_free_block :: "blk_ref option"
  next_free_block :: "blk_ref option"
  is_null :: bool

type_synonym heap = "blk_ref \<Rightarrow> kv_cache_block"

text \<open>The dataclass constructor: \<open>KVCacheBlock(block_id=i)\<close>.\<close>

definition new_block :: "int \<Rightarrow> kv_cache_block" where
  "new_block i = \<lparr>block_id = i, ref_cnt = 0, block_hash = None,
                   prev_free_block = None, next_free_block = None, is_null = False\<rparr>"

text \<open>The property setter \<open>block.block_hash = h\<close> asserts that no hash is set yet.\<close>

definition set_block_hash :: "blk_ref \<Rightarrow> bytes \<Rightarrow> heap \<Rightarrow> heap result" where
  "set_block_hash b h m =
     bindE (guardE (block_hash (m b) = None) AssertionError)
       (\<lambda>_. Inr (m(b := (m b)\<lparr>block_hash := Some h\<rparr>)))"

definition reset_hash :: "blk_ref \<Rightarrow> heap \<Rightarrow> heap" where
  "reset_hash b m = m(b := (m b)\<lparr>block_hash := None\<rparr>)"

definition set_prev :: "blk_ref \<Rightarrow> blk_ref option \<Rightarrow> heap \<Rightarrow> heap" where
  "set_prev b v m = m(b := (m b)\<lparr>prev_free_block := v\<rparr>)"

definition set_next :: "blk_ref \<Rightarrow> blk_ref option \<Rightarrow> heap \<Rightarrow> heap" where
  "set_next b v m = m(b := (m b)\<lparr>next_free_block := v\<rparr>)"

section \<open>The queue\<close>

record free_queue =
  mem :: heap
  num_free_blocks :: int

text \<open>The constructor links consecutive blocks, then connects the two fresh sentinels.\<close>

definition fq_link_step :: "blk_ref list \<Rightarrow> nat \<Rightarrow> heap \<Rightarrow> heap" where
  "fq_link_step blocks i m =
     (let m1 = (if 0 < i then set_prev (blocks ! i) (Some (blocks ! (i - 1))) m else m)
      in if i + 1 < length blocks then set_next (blocks ! i) (Some (blocks ! (i + 1))) m1 else m1)"

definition fq_init :: "heap \<Rightarrow> blk_ref list \<Rightarrow> free_queue" where
  "fq_init m blocks =
     (let m1 = fold (fq_link_step blocks) [0..<length blocks] m;
          m2 = m1(Fake_head := new_block (-1), Fake_tail := new_block (-1));
          m3 = (if 0 < length blocks
                then set_next (last blocks) (Some Fake_tail)
                       (set_prev Fake_tail (Some (last blocks))
                         (set_prev (blocks ! 0) (Some Fake_head)
                           (set_next Fake_head (Some (blocks ! 0)) m2)))
                else set_prev Fake_tail (Some Fake_head)
                       (set_next Fake_head (Some Fake_tail) m2))
      in \<lparr>mem = m3, num_free_blocks = int (length blocks)\<rparr>)"

definition popleft :: "free_queue \<Rightarrow> (blk_ref \<times> free_queue) result" where
  "popleft s =
     (case next_free_block (mem s Fake_head) of
        None \<Rightarrow> bindE (guardE (num_free_blocks s = 0) AssertionError) (\<lambda>_. Inl ValueError)
      | Some first \<Rightarrow>
          if first = Fake_tail
          then bindE (guardE (num_free_blocks s = 0) AssertionError) (\<lambda>_. Inl ValueError)
          else (case next_free_block (mem s first) of
                  None \<Rightarrow> Inl RuntimeError
                | Some second \<Rightarrow>
                    let m1 = set_next Fake_head (Some second) (mem s);
                        m2 = set_prev second (Some Fake_head) m1;
                        m3 = set_next first None (set_prev first None m2)
                    in Inr (first, \<lparr>mem = m3, num_free_blocks = num_free_blocks s - 1\<rparr>)))"

fun popleft_n_loop :: "nat \<Rightarrow> heap \<Rightarrow> blk_ref option \<Rightarrow> blk_ref list
    \<Rightarrow> (heap \<times> blk_ref option \<times> blk_ref list) result" where
  "popleft_n_loop 0 m cur ret = Inr (m, cur, ret)"
| "popleft_n_loop (Suc k) m None ret = Inl AssertionError"
| "popleft_n_loop (Suc k) m (Some b) ret =
     popleft_n_loop k (set_next b None (set_prev b None m)) (next_free_block (m b)) (ret @ [b])"

definition popleft_n :: "int \<Rightarrow> free_queue \<Rightarrow> (blk_ref list \<times> free_queue) result" where
  "popleft_n n s =
     (if n = 0 then Inr ([], s)
      else bindE (guardE (n \<le> num_free_blocks s) AssertionError)
        (\<lambda>_. bindE (popleft_n_loop (nat n) (mem s) (next_free_block (mem s Fake_head)) [])
          (\<lambda>(m, cur, ret).
             let m' = (case cur of
                         None \<Rightarrow> m
                       | Some c \<Rightarrow> set_prev c (Some Fake_head) (set_next Fake_head (Some c) m))
             in Inr (ret, \<lparr>mem = m', num_free_blocks = num_free_blocks s - n\<rparr>))))"

definition fq_remove :: "blk_ref \<Rightarrow> free_queue \<Rightarrow> free_queue result" where
  "fq_remove b s =
     (case (prev_free_block (mem s b), next_free_block (mem s b)) of
        (Some p, Some n) \<Rightarrow>
          let m1 = set_next p (Some n) (mem s);
              m2 = set_prev n (Some p) m1;
              m3 = set_next b None (set_prev b None m2)
          in Inr \<lparr>mem = m3, num_free_blocks = num_free_blocks s - 1\<rparr>
      | _ \<Rightarrow> Inl RuntimeError)"

definition fq_append :: "blk_ref \<Rightarrow> free_queue \<Rightarrow> free_queue result" where
  "fq_append b s =
     (case prev_free_block (mem s Fake_tail) of
        None \<Rightarrow> Inl RuntimeError
      | Some l \<Rightarrow>
          let m1 = set_next l (Some b) (mem s);
              m2 = set_prev b (Some l) m1;
              m3 = set_next b (Some Fake_tail) m2;
              m4 = set_prev Fake_tail (Some b) m3
          in Inr \<lparr>mem = m4, num_free_blocks = num_free_blocks s + 1\<rparr>)"

fun append_n_loop :: "blk_ref list \<Rightarrow> blk_ref \<Rightarrow> heap \<Rightarrow> heap \<times> blk_ref" where
  "append_n_loop [] l m = (m, l)"
| "append_n_loop (b # bs) l m =
     append_n_loop bs b (set_next l (Some b) (set_prev b (Some l) m))"

definition append_n :: "blk_ref list \<Rightarrow> free_queue \<Rightarrow> free_queue result" where
  "append_n bs s =
     (if length bs = 0 then Inr s
      else (case prev_free_block (mem s Fake_tail) of
              None \<Rightarrow> Inl AssertionError
            | Some l0 \<Rightarrow>
                let (m1, l) = append_n_loop bs l0 (mem s);
                    m2 = set_prev Fake_tail (Some l) (set_next l (Some Fake_tail) m1)
                in Inr \<lparr>mem = m2, num_free_blocks = num_free_blocks s + int (length bs)\<rparr>))"

text \<open>
  The walk of \<open>get_all_free_blocks\<close> follows \<open>next_free_block\<close> until an object without a
  successor: on a heap with a cycle it does not return, which is the value \<open>None\<close>.
\<close>

partial_function (option) free_walk :: "heap \<Rightarrow> blk_ref \<Rightarrow> blk_ref list \<Rightarrow> blk_ref list option" where
  "free_walk m cur ret =
     (case next_free_block (m cur) of
        None \<Rightarrow> Some ret
      | Some n \<Rightarrow> free_walk m n (ret @ [cur]))"

definition get_all_free_blocks :: "free_queue \<Rightarrow> blk_ref list result option" where
  "get_all_free_blocks s =
     (case next_free_block (mem s Fake_head) of
        None \<Rightarrow> Some (Inl RuntimeError)
      | Some first \<Rightarrow> map_option Inr (free_walk (mem s) first []))"

section \<open>Heap updates and what they leave alone\<close>

lemma next_set_next [simp]: "next_free_block (set_next b v m c) = (if c = b then v else next_free_block (m c))"
  by (simp add: set_next_def)

lemma prev_set_prev [simp]: "prev_free_block (set_prev b v m c) = (if c = b then v else prev_free_block (m c))"
  by (simp add: set_prev_def)

lemma next_set_prev [simp]: "next_free_block (set_prev b v m c) = next_free_block (m c)"
  by (simp add: set_prev_def)

lemma prev_set_next [simp]: "prev_free_block (set_next b v m c) = prev_free_block (m c)"
  by (simp add: set_next_def)

text \<open>The part of an object that is not a link.\<close>

definition payload :: "kv_cache_block \<Rightarrow> int \<times> int \<times> bytes option \<times> bool" where
  "payload b = (block_id b, ref_cnt b, block_hash b, is_null b)"

lemma payload_set_next [simp, frame_simps]: "payload (set_next b v m c) = payload (m c)"
  by (simp add: set_next_def payload_def)

lemma payload_set_prev [simp, frame_simps]: "payload (set_prev b v m c) = payload (m c)"
  by (simp add: set_prev_def payload_def)

lemma payload_eqD:
  assumes "payload b = payload c"
  shows "block_id b = block_id c" "ref_cnt b = ref_cnt c" "block_hash b = block_hash c"
    "is_null b = is_null c"
  using assms by (simp_all add: payload_def)

section \<open>Doubly linked segments\<close>

lemma in_set_tlD: "x \<in> set (tl xs) \<Longrightarrow> x \<in> set xs"
  by (cases xs) auto

fun chain :: "heap \<Rightarrow> blk_ref list \<Rightarrow> bool" where
  "chain m (a # b # r) \<longleftrightarrow>
     next_free_block (m a) = Some b \<and> prev_free_block (m b) = Some a \<and> chain m (b # r)"
| "chain m _ \<longleftrightarrow> True"

lemma chain_split: "chain m (xs @ a # ys) \<longleftrightarrow> chain m (xs @ [a]) \<and> chain m (a # ys)"
proof (induction xs)
  case (Cons x xs)
  then show ?case by (cases xs) auto
qed simp

lemma chain_cong:
  assumes "\<And>x. x \<in> set (butlast xs) \<Longrightarrow> next_free_block (m' x) = next_free_block (m x)"
    and "\<And>x. x \<in> set (tl xs) \<Longrightarrow> prev_free_block (m' x) = prev_free_block (m x)"
  shows "chain m' xs \<longleftrightarrow> chain m xs"
  using assms
proof (induction xs rule: induct_list012)
  case (3 a b r)
  have "chain m' (b # r) = chain m (b # r)"
    by (rule "3.IH"(2)) (use "3.prems" in \<open>auto split: if_splits\<close>)
  then show ?case using "3.prems"(1)[of a] "3.prems"(2)[of b] by simp
qed simp_all

lemma chain_mid:
  "chain m (xs @ a # b # ys) \<longleftrightarrow>
     chain m (xs @ [a]) \<and> next_free_block (m a) = Some b \<and> prev_free_block (m b) = Some a
     \<and> chain m (b # ys)"
  by (subst chain_split) simp

text \<open>A singleton segment at the end, with the link into it.\<close>

lemma chain_snoc2:
  "chain m (xs @ [a, b]) \<longleftrightarrow>
     chain m (xs @ [a]) \<and> next_free_block (m a) = Some b \<and> prev_free_block (m b) = Some a"
  by (simp add: chain_mid)

text \<open>
  \<open>linked m ns\<close>: the heap links exactly the nodes \<open>ns\<close>, in this order; every other link
  field is \<open>None\<close>.
\<close>

definition linked :: "heap \<Rightarrow> blk_ref list \<Rightarrow> bool" where
  "linked m ns \<longleftrightarrow> chain m ns \<and> distinct ns
     \<and> (\<forall>b. b \<notin> set (butlast ns) \<longrightarrow> next_free_block (m b) = None)
     \<and> (\<forall>b. b \<notin> set (tl ns) \<longrightarrow> prev_free_block (m b) = None)"

lemma linkedD:
  assumes "linked m ns"
  shows "chain m ns" "distinct ns"
    "b \<notin> set (butlast ns) \<Longrightarrow> next_free_block (m b) = None"
    "b \<notin> set (tl ns) \<Longrightarrow> prev_free_block (m b) = None"
  using assms by (auto simp: linked_def)

text \<open>Taking the nodes \<open>xs\<close> out of the middle: the links around them are joined, theirs cleared.\<close>

lemma set_tl_append: "xs \<noteq> [] \<Longrightarrow> set (tl (xs @ ys)) = set (tl xs) \<union> set ys"
  by (cases xs) auto

lemma linked_unlink:
  assumes l: "linked m (ps @ p # xs @ n # ns)"
    and nx: "\<And>b. next_free_block (m' b) =
      (if b \<in> set xs then None else if b = p then Some n else next_free_block (m b))"
    and pv: "\<And>b. prev_free_block (m' b) =
      (if b \<in> set xs then None else if b = n then Some p else prev_free_block (m b))"
  shows "linked m' (ps @ p # n # ns)"
proof -
  note d = linkedD [OF l]
  have c: "chain m (ps @ [p])" "chain m (n # ns)"
    using d(1) chain_split [of m ps p "xs @ n # ns"] chain_split [of m "ps @ p # xs" n ns]
    by simp_all
  have "chain m' (ps @ [p]) \<longleftrightarrow> chain m (ps @ [p])"
    by (rule chain_cong) (use d(2) in \<open>auto simp: nx pv dest!: in_set_tlD\<close>)
  moreover have "chain m' (n # ns) \<longleftrightarrow> chain m (n # ns)"
    by (rule chain_cong)
      (use d(2) in \<open>auto simp: nx pv simp del: butlast.simps dest!: in_set_butlastD\<close>)
  moreover have "p \<notin> set xs" "n \<notin> set xs"
    using d(2) by auto
  ultimately have "chain m' (ps @ p # n # ns)"
    using c unfolding chain_mid [of m' ps p n ns] nx pv by simp
  moreover have "\<forall>b. b \<notin> set (butlast (ps @ p # n # ns)) \<longrightarrow> next_free_block (m' b) = None"
    using d(3) by (auto simp: nx butlast_append split: if_splits)
  moreover have "\<forall>b. b \<notin> set (tl (ps @ p # n # ns)) \<longrightarrow> prev_free_block (m' b) = None"
    using d(4) by (cases ps) (auto simp: pv)
  ultimately show ?thesis
    using d(2) by (auto simp: linked_def)
qed

text \<open>\<open>fq_rep s xs\<close>: the queue holds exactly the list \<open>xs\<close>, front first.\<close>

abbreviation framed :: "blk_ref list \<Rightarrow> blk_ref list" where
  "framed xs \<equiv> Fake_head # xs @ [Fake_tail]"

definition fq_rep :: "free_queue \<Rightarrow> blk_ref list \<Rightarrow> bool" where
  "fq_rep s xs \<longleftrightarrow> linked (mem s) (framed xs) \<and> num_free_blocks s = int (length xs)"

lemma fq_rep_distinct: "fq_rep s xs \<Longrightarrow> distinct (framed xs)"
  by (simp add: fq_rep_def linked_def)

lemma fq_rep_num: "fq_rep s xs \<Longrightarrow> num_free_blocks s = int (length xs)"
  by (simp add: fq_rep_def)

lemma fq_rep_link:
  assumes "fq_rep s (xs @ x # ys)"
  shows "prev_free_block (mem s x) = Some (last (Fake_head # xs))"
    "next_free_block (mem s x) = Some (hd (ys @ [Fake_tail]))"
proof -
  have c: "chain (mem s) (Fake_head # xs @ x # ys @ [Fake_tail])"
    using assms by (simp add: fq_rep_def linked_def)
  obtain ps p where p: "Fake_head # xs = ps @ [p]" by (metis append_butlast_last_id list.discI)
  then have "chain (mem s) (ps @ p # x # ys @ [Fake_tail])"
    using c by (metis append.assoc append_Cons append_Nil)
  then show "prev_free_block (mem s x) = Some (last (Fake_head # xs))"
    by (simp add: p chain_mid)
  show "next_free_block (mem s x) = Some (hd (ys @ [Fake_tail]))"
    using c by (cases ys) (simp_all add: chain_mid [of _ "Fake_head # xs", simplified])
qed

lemma fq_rep_head: "fq_rep s xs \<Longrightarrow> next_free_block (mem s Fake_head) = Some (hd (xs @ [Fake_tail]))"
  by (cases xs) (auto simp: fq_rep_def linked_def)

lemma fq_rep_tail: "fq_rep s xs \<Longrightarrow> prev_free_block (mem s Fake_tail) = Some (last (Fake_head # xs))"
  by (cases xs rule: rev_cases) (auto simp: fq_rep_def linked_def chain_mid [of _ "Fake_head # _", simplified])

subsection \<open>popleft\<close>

theorem popleft_nonempty:
  assumes "fq_rep s (x # xs)"
  shows "\<exists>s'. popleft s = Inr (x, s') \<and> fq_rep s' xs \<and> (\<forall>b. payload (mem s' b) = payload (mem s b))"
proof -
  obtain y ys where y: "xs @ [Fake_tail] = y # ys" by (cases xs) auto
  define m where "m = set_next x None (set_prev x None (set_prev y (Some Fake_head)
    (set_next Fake_head (Some y) (mem s))))"
  define s' where "s' = \<lparr>mem = m, num_free_blocks = num_free_blocks s - 1\<rparr>"
  have d: "distinct (Fake_head # x # y # ys)" and xt: "x \<noteq> Fake_tail"
    using fq_rep_distinct [OF assms] y [symmetric] by auto
  have "popleft s = Inr (x, s')"
    using fq_rep_head [OF assms] fq_rep_link(2) [of s "[]" x xs] assms y xt
    by (simp add: popleft_def s'_def m_def Let_def)
  moreover have "linked m ([] @ Fake_head # y # ys)"
    by (rule linked_unlink [where xs = "[x]" and m = "mem s"])
      (use assms y d in \<open>auto simp: fq_rep_def m_def\<close>)
  then have "fq_rep s' xs"
    using y fq_rep_num [OF assms] by (simp add: fq_rep_def s'_def)
  ultimately show ?thesis by (auto simp: s'_def m_def)
qed

theorem popleft_empty: "fq_rep s [] \<Longrightarrow> popleft s = Inl ValueError"
  by (frule fq_rep_head, drule fq_rep_num) (simp add: popleft_def)

subsection \<open>popleft_n\<close>

definition clear_links :: "blk_ref list \<Rightarrow> heap \<Rightarrow> heap" where
  "clear_links cs m = fold (\<lambda>b m. set_next b None (set_prev b None m)) cs m"

lemma next_clear_links [simp]:
  "next_free_block (clear_links cs m b) = (if b \<in> set cs then None else next_free_block (m b))"
  by (induction cs arbitrary: m) (auto simp: clear_links_def)

lemma prev_clear_links [simp]:
  "prev_free_block (clear_links cs m b) = (if b \<in> set cs then None else prev_free_block (m b))"
  by (induction cs arbitrary: m) (auto simp: clear_links_def)

lemma payload_clear_links [simp, frame_simps]: "payload (clear_links cs m b) = payload (m b)"
  by (induction cs arbitrary: m) (simp_all add: clear_links_def)

lemma popleft_n_loop_chain:
  "chain m (cs @ [d]) \<Longrightarrow> distinct cs \<Longrightarrow> d \<notin> set cs \<Longrightarrow>
   popleft_n_loop (length cs) m (Some (hd (cs @ [d]))) ret = Inr (clear_links cs m, Some d, ret @ cs)"
proof (induction cs arbitrary: m ret)
  case Nil
  then show ?case by (simp add: clear_links_def)
next
  case (Cons c cs)
  let ?m = "set_next c None (set_prev c None m)"
  have n: "next_free_block (m c) = Some (hd (cs @ [d]))" and t: "chain m (cs @ [d])"
    using Cons.prems(1) by (cases cs; auto)+
  have "chain ?m (cs @ [d]) \<longleftrightarrow> chain m (cs @ [d])"
    by (rule chain_cong) (use Cons.prems(2,3) in \<open>auto dest!: in_set_butlastD in_set_tlD\<close>)
  with t have "chain ?m (cs @ [d])" by simp
  from Cons.IH [OF this] Cons.prems(2,3) show ?case
    by (simp add: n clear_links_def)
qed

theorem popleft_n_rep:
  assumes "fq_rep s (xs @ ys)"
  shows "\<exists>s'. popleft_n (int (length xs)) s = Inr (xs, s') \<and> fq_rep s' ys
           \<and> (\<forall>b. payload (mem s' b) = payload (mem s b))"
proof (cases "xs = []")
  case True
  with assms show ?thesis by (auto simp: popleft_n_def)
next
  case False
  obtain d ds where d: "ys @ [Fake_tail] = d # ds" by (cases ys) auto
  have dist: "distinct (Fake_head # xs @ d # ds)"
    using fq_rep_distinct [OF assms] d by simp
  have l: "linked (mem s) (Fake_head # xs @ d # ds)"
    using assms d by (simp add: fq_rep_def)
  have cx: "chain (mem s) (xs @ [d])"
    using linkedD(1) [OF l] chain_split [of "mem s" "Fake_head # xs" d ds] False
    by (cases xs) auto
  define m where "m = set_prev d (Some Fake_head) (set_next Fake_head (Some d) (clear_links xs (mem s)))"
  define s' where "s' = \<lparr>mem = m, num_free_blocks = num_free_blocks s - int (length xs)\<rparr>"
  have h: "hd ((xs @ ys) @ [Fake_tail]) = hd (xs @ [d])"
    using False by (cases xs) auto
  have "popleft_n (int (length xs)) s = Inr (xs, s')"
    using False dist popleft_n_loop_chain [OF cx, of "[]"]
    by (simp add: popleft_n_def fq_rep_head [OF assms] h [simplified] fq_rep_num [OF assms] s'_def m_def)
  moreover have "linked m ([] @ Fake_head # d # ds)"
    by (rule linked_unlink [where xs = xs and m = "mem s"]) (use l dist in \<open>auto simp: m_def\<close>)
  then have "fq_rep s' ys"
    using d fq_rep_num [OF assms] by (simp add: fq_rep_def s'_def)
  ultimately show ?thesis by (auto simp: s'_def m_def)
qed

theorem popleft_n_too_many:
  "fq_rep s xs \<Longrightarrow> int (length xs) < n \<Longrightarrow> popleft_n n s = Inl AssertionError"
  by (drule fq_rep_num) (simp add: popleft_n_def)

subsection \<open>remove\<close>

theorem fq_remove_rep:
  assumes "fq_rep s (xs @ x # ys)"
  shows "\<exists>s'. fq_remove x s = Inr s' \<and> fq_rep s' (xs @ ys) \<and> (\<forall>b. payload (mem s' b) = payload (mem s b))"
proof -
  obtain n ns where n: "ys @ [Fake_tail] = n # ns" by (cases ys) auto
  obtain p ps where p: "Fake_head # xs = ps @ [p]" by (metis append_butlast_last_id list.discI)
  have nodes: "framed (xs @ zs @ ys) = ps @ p # zs @ n # ns" for zs
    using arg_cong [OF p, of "\<lambda>l. l @ zs @ ys @ [Fake_tail]"] n by simp
  have l: "linked (mem s) (ps @ p # [x] @ n # ns)"
    using assms nodes [of "[x]"] by (simp add: fq_rep_def)
  define m where "m = set_next x None (set_prev x None (set_prev n (Some p) (set_next p (Some n) (mem s))))"
  define s' where "s' = \<lparr>mem = m, num_free_blocks = num_free_blocks s - 1\<rparr>"
  have "fq_remove x s = Inr s'"
    using fq_rep_link [OF assms] by (simp add: n p fq_remove_def s'_def m_def Let_def)
  moreover have "linked m (ps @ p # n # ns)"
    by (rule linked_unlink [OF l]) (use linkedD(2) [OF l] in \<open>auto simp: m_def\<close>)
  then have "fq_rep s' (xs @ ys)"
    using nodes [of "[]"] fq_rep_num [OF assms] by (simp add: fq_rep_def s'_def)
  ultimately show ?thesis by (auto simp: s'_def m_def)
qed

theorem fq_remove_unlinked:
  assumes "fq_rep s xs" "b \<notin> set xs" shows "fq_remove b s = Inl RuntimeError"
proof (cases "b = Fake_head")
  case True
  then have "prev_free_block (mem s b) = None"
    using assms fq_rep_distinct [OF assms(1)] by (simp add: fq_rep_def linked_def)
  then show ?thesis by (simp add: fq_remove_def)
next
  case False
  then have "next_free_block (mem s b) = None"
    using assms by (simp add: fq_rep_def linked_def butlast_append)
  then show ?thesis by (simp add: fq_remove_def split: option.split)
qed

subsection \<open>append and append_n\<close>

text \<open>Adding the unlinked nodes \<open>bs\<close> before the last node \<open>t\<close>.\<close>

lemma append_n_loop_links:
  assumes "append_n_loop bs l m = (m', l')" and "distinct (l # bs)"
  shows "chain m' (l # bs)" "l' = last (l # bs)"
    "b \<notin> set (butlast (l # bs)) \<Longrightarrow> next_free_block (m' b) = next_free_block (m b)"
    "b \<notin> set bs \<Longrightarrow> prev_free_block (m' b) = prev_free_block (m b)"
    "payload (m' b) = payload (m b)"
proof -
  have "chain m' (l # bs) \<and> l' = last (l # bs)
    \<and> (\<forall>b. b \<notin> set (butlast (l # bs)) \<longrightarrow> next_free_block (m' b) = next_free_block (m b))
    \<and> (\<forall>b. b \<notin> set bs \<longrightarrow> prev_free_block (m' b) = prev_free_block (m b))
    \<and> (\<forall>b. payload (m' b) = payload (m b))"
    using assms
  proof (induction bs arbitrary: l m)
    case (Cons c cs)
    let ?m = "set_next l (Some c) (set_prev c (Some l) m)"
    have "append_n_loop cs c ?m = (m', l')" "distinct (c # cs)"
      using Cons.prems by simp_all
    note IH = Cons.IH [OF this]
    have "l \<notin> set (butlast (c # cs))"
      using Cons.prems(2) in_set_butlastD [of l "c # cs"] by auto
    then have "next_free_block (m' l) = Some c"
      using IH by (metis next_set_next)
    moreover have "prev_free_block (m' c) = Some l"
      using IH Cons.prems(2) by simp
    ultimately show ?case using IH by auto
  qed simp
  then show "chain m' (l # bs)" "l' = last (l # bs)"
    "b \<notin> set (butlast (l # bs)) \<Longrightarrow> next_free_block (m' b) = next_free_block (m b)"
    "b \<notin> set bs \<Longrightarrow> prev_free_block (m' b) = prev_free_block (m b)"
    "payload (m' b) = payload (m b)"
    by auto
qed

theorem append_n_rep:
  assumes "fq_rep s xs" and "distinct (framed (xs @ bs))"
  shows "\<exists>s'. append_n bs s = Inr s' \<and> fq_rep s' (xs @ bs) \<and> (\<forall>b. payload (mem s' b) = payload (mem s b))"
proof (cases "bs = []")
  case True
  with assms show ?thesis by (auto simp: append_n_def)
next
  case False
  obtain ps l where p: "Fake_head # xs = ps @ [l]" by (metis append_butlast_last_id list.discI)
  obtain m1 l' where loop: "append_n_loop bs l (mem s) = (m1, l')" by force
  have nodes: "framed (xs @ zs) = ps @ l # zs @ [Fake_tail]" for zs
    using arg_cong [OF p, of "\<lambda>xs. xs @ zs @ [Fake_tail]"] by simp
  have dist: "distinct (ps @ l # bs @ [Fake_tail])"
    using assms(2) by (simp only: nodes)
  then have "distinct (l # bs)" by simp
  note a = append_n_loop_links [OF loop this]
  have l: "linked (mem s) (ps @ [l, Fake_tail])"
    using assms(1) nodes [of "[]"] unfolding fq_rep_def by (metis append_Cons append_Nil append_Nil2)
  define m where "m = set_prev Fake_tail (Some l') (set_next l' (Some Fake_tail) m1)"
  define s' where "s' = \<lparr>mem = m, num_free_blocks = num_free_blocks s + int (length bs)\<rparr>"
  have "append_n bs s = Inr s'"
    using False fq_rep_tail [OF assms(1)] by (simp add: append_n_def loop p s'_def m_def)
  moreover have "linked m (ps @ l # bs @ [Fake_tail])"
  proof -
    obtain cs where cs: "l # bs = cs @ [l']"
      using a(2) by (metis append_butlast_last_id list.discI)
    have d': "distinct (ps @ cs @ [l', Fake_tail])"
      using dist cs by (metis append.assoc append_Cons append_Nil)
    have nx: "next_free_block (m b) = (if b = l' then Some Fake_tail else if b \<in> set cs
        then next_free_block (m1 b) else next_free_block (mem s b))" for b
      using a(3) [of b] cs by (auto simp: m_def)
    have pv: "prev_free_block (m b) = (if b = Fake_tail then Some l' else if b \<in> set bs
        then prev_free_block (m1 b) else prev_free_block (mem s b))" for b
      using a(4) [of b] by (auto simp: m_def)
    have "chain m (ps @ [l]) \<longleftrightarrow> chain (mem s) (ps @ [l])"
      by (rule chain_cong) (use dist cs a(2) d' in \<open>auto simp: nx pv dest!: in_set_tlD\<close>)
    then have c1: "chain m (ps @ [l])"
      using linkedD(1) [OF l] chain_split [of "mem s" ps l "[Fake_tail]"] by simp
    have bl: "l' \<notin> set (butlast (l # bs))" using cs d' by simp
    have "chain m (l # bs) \<longleftrightarrow> chain m1 (l # bs)"
      by (rule chain_cong) (use dist bl in \<open>auto simp: m_def simp del: butlast.simps\<close>)
    then have "chain m (cs @ [l', Fake_tail])"
      using a(1) d' unfolding chain_snoc2 by (simp add: nx pv flip: cs)
    then have "chain m (l # bs @ [Fake_tail])"
      using cs by (metis append.assoc append_Cons append_Nil)
    with c1 have "chain m (ps @ l # bs @ [Fake_tail])"
      by (subst chain_split) simp
    moreover have "next_free_block (m b) = None" if "b \<notin> set (butlast (ps @ l # bs @ [Fake_tail]))" for b
    proof -
      have "butlast (ps @ (l # bs) @ [Fake_tail]) = ps @ cs @ [l']"
        unfolding cs by (simp add: butlast_append)
      then have "b \<notin> set (ps @ cs @ [l'])" using that by (metis append_Cons)
      moreover from this have "b \<noteq> l" using arg_cong [OF cs, of set] by auto
      ultimately show ?thesis
        using linkedD(3) [OF l, of b] by (simp add: nx butlast_append)
    qed
    moreover have "prev_free_block (m b) = None" if "b \<notin> set (tl (ps @ l # bs @ [Fake_tail]))" for b
      using that linkedD(4) [OF l, of b] by (cases ps) (auto simp: pv)
    ultimately show ?thesis
      using dist by (simp add: linked_def)
  qed
  then have "fq_rep s' (xs @ bs)"
    unfolding fq_rep_def nodes using fq_rep_num [OF assms(1)] by (simp add: s'_def)
  ultimately show ?thesis using a(5) by (auto simp: s'_def m_def)
qed

text \<open>A single \<open>append\<close> is the same sequence of assignments as \<open>append_n\<close> of one block.\<close>

theorem fq_append_rep:
  assumes "fq_rep s xs" and "b \<notin> set (framed xs)"
  shows "\<exists>s'. fq_append b s = Inr s' \<and> fq_rep s' (xs @ [b]) \<and> (\<forall>c. payload (mem s' c) = payload (mem s c))"
proof -
  obtain ps l where p: "Fake_head # xs = ps @ [l]" by (metis append_butlast_last_id list.discI)
  have "l \<noteq> b" "b \<noteq> Fake_tail" using assms(2) arg_cong [OF p, of set] by auto
  then have "fq_append b s = append_n [b] s"
    using fq_rep_tail [OF assms(1)]
    by (simp add: fq_append_def append_n_def Let_def set_prev_def set_next_def fun_upd_twist p)
  moreover have "distinct (framed (xs @ [b]))"
    using assms fq_rep_distinct [OF assms(1)] by auto
  ultimately show ?thesis using append_n_rep [OF assms(1), of "[b]"] by simp
qed

subsection \<open>get_all_free_blocks\<close>

lemma free_walk_chain:
  "chain m (xs @ [t]) \<Longrightarrow> next_free_block (m t) = None \<Longrightarrow>
   free_walk m (hd (xs @ [t])) ret = Some (ret @ xs)"
proof (induction xs arbitrary: ret)
  case Nil
  then show ?case by (simp add: free_walk.simps)
next
  case (Cons x xs)
  then have "next_free_block (m x) = Some (hd (xs @ [t]))" "chain m (xs @ [t])"
    by (cases xs; auto)+
  with Cons show ?case by (simp add: free_walk.simps [of m x])
qed

theorem get_all_free_blocks_rep:
  assumes "fq_rep s xs" shows "get_all_free_blocks s = Some (Inr xs)"
proof -
  have "chain (mem s) (xs @ [Fake_tail])" "next_free_block (mem s Fake_tail) = None"
    using assms by (cases xs; auto simp: fq_rep_def linked_def butlast_append)+
  then show ?thesis
    by (simp add: get_all_free_blocks_def fq_rep_head [OF assms] free_walk_chain)
qed

lemma fq_rep_unique: "fq_rep s xs \<Longrightarrow> fq_rep s ys \<Longrightarrow> xs = ys"
  by (drule get_all_free_blocks_rep)+ simp

subsection \<open>The constructor\<close>

text \<open>After \<open>k\<close> rounds of the linking loop the first \<open>k\<close> blocks have their final links.\<close>

lemma fq_link_loop:
  assumes "distinct bs" and "\<forall>b. next_free_block (m b) = None \<and> prev_free_block (m b) = None"
  shows "k \<le> length bs \<Longrightarrow>
    (\<forall>i < length bs.
       next_free_block (fold (fq_link_step bs) [0..<k] m (bs ! i)) =
         (if i < k \<and> i + 1 < length bs then Some (bs ! (i + 1)) else None)
       \<and> prev_free_block (fold (fq_link_step bs) [0..<k] m (bs ! i)) =
         (if i < k \<and> 0 < i then Some (bs ! (i - 1)) else None))
    \<and> (\<forall>b. b \<notin> set bs \<longrightarrow> fold (fq_link_step bs) [0..<k] m b = m b)
    \<and> (\<forall>b. payload (fold (fq_link_step bs) [0..<k] m b) = payload (m b))"
proof (induction k)
  case 0
  then show ?case using assms(2) by simp
next
  case (Suc k)
  then have k: "k < length bs" by simp
  have eq: "bs ! i = bs ! k \<longleftrightarrow> i = k" if "i < length bs" for i
    using that k assms(1) by (simp add: nth_eq_iff_index_eq)
  have step: "b \<notin> set bs \<Longrightarrow> fq_link_step bs k m' b = m' b"
    "payload (fq_link_step bs k m' b) = payload (m' b)"
    "next_free_block (fq_link_step bs k m' b) =
       (if b = bs ! k \<and> k + 1 < length bs then Some (bs ! (k + 1)) else next_free_block (m' b))"
    "prev_free_block (fq_link_step bs k m' b) =
       (if b = bs ! k \<and> 0 < k then Some (bs ! (k - 1)) else prev_free_block (m' b))" for m' b
  proof -
    assume "b \<notin> set bs"
    then have "b \<noteq> bs ! k" using k nth_mem by blast
    then show "fq_link_step bs k m' b = m' b"
      by (simp add: fq_link_step_def Let_def set_next_def set_prev_def)
  qed (simp_all add: fq_link_step_def Let_def)
  define m' where "m' = fold (fq_link_step bs) [0..<k] m"
  have fold: "fold (fq_link_step bs) [0..<Suc k] m = fq_link_step bs k m'"
    by (simp add: m'_def)
  have IH: "i < length bs \<Longrightarrow> next_free_block (m' (bs ! i)) =
       (if i < k \<and> i + 1 < length bs then Some (bs ! (i + 1)) else None)"
    "i < length bs \<Longrightarrow> prev_free_block (m' (bs ! i)) =
       (if i < k \<and> 0 < i then Some (bs ! (i - 1)) else None)"
    "b \<notin> set bs \<Longrightarrow> m' b = m b" "payload (m' b) = payload (m b)" for i b
    using Suc.IH k unfolding m'_def by simp_all
  show ?case
    unfolding fold step(2) using k by (auto simp: step(1,3,4) eq IH less_Suc_eq)
qed

lemma chain_nth:
  "(\<And>i. i + 1 < length ns \<Longrightarrow> next_free_block (m (ns ! i)) = Some (ns ! (i + 1))
      \<and> prev_free_block (m (ns ! (i + 1))) = Some (ns ! i)) \<Longrightarrow> chain m ns"
proof (induction ns rule: induct_list012)
  case (3 a b r)
  have "chain m (b # r)"
    by (rule "3.IH"(2)) (use "3.prems" [of "Suc _"] in simp)
  with "3.prems" [of 0] show ?case by simp
qed simp_all

theorem fq_init_rep:
  assumes "distinct (framed bs)"
    and "\<forall>b. next_free_block (m b) = None \<and> prev_free_block (m b) = None"
  shows "fq_rep (fq_init m bs) bs"
    and "b \<in> set bs \<Longrightarrow> payload (mem (fq_init m bs) b) = payload (m b)"
proof -
  have "distinct bs" using assms(1) by simp
  note loop = fq_link_loop [OF this assms(2), of "length bs"]
  define m1 where "m1 = fold (fq_link_step bs) [0..<length bs] m"
  define m' where "m' = mem (fq_init m bs)"
  have l: "i < length bs \<Longrightarrow> next_free_block (m1 (bs ! i)) = (if i + 1 < length bs then Some (bs ! (i + 1)) else None)"
    "i < length bs \<Longrightarrow> prev_free_block (m1 (bs ! i)) = (if 0 < i then Some (bs ! (i - 1)) else None)"
    "b \<notin> set bs \<Longrightarrow> m1 b = m b" "payload (m1 b) = payload (m b)" for i b
    using loop [folded m1_def] assms(1) by simp_all
  show "fq_rep (fq_init m bs) bs"
  proof (cases "bs = []")
    case True
    then show ?thesis
      using assms(2) by (auto simp: fq_rep_def fq_init_def linked_def new_block_def)
  next
    case False
    let ?last = "bs ! (length bs - 1)"
    have H: "Fake_head \<notin> set bs" "Fake_tail \<notin> set bs" "distinct bs" using assms(1) by auto
    have nx: "next_free_block (m' b) = (if b = ?last then Some Fake_tail else if b = Fake_head
        then Some (bs ! 0) else if b = Fake_tail then None else next_free_block (m1 b))" for b
      using False H by (auto simp: m'_def fq_init_def Let_def m1_def last_conv_nth new_block_def)
    have pv: "prev_free_block (m' b) = (if b = Fake_tail then Some ?last else if b = bs ! 0
        then Some Fake_head else if b = Fake_head then None else prev_free_block (m1 b))" for b
      using False H by (auto simp: m'_def fq_init_def Let_def m1_def last_conv_nth new_block_def)
    have eq: "i < length bs \<Longrightarrow> j < length bs \<Longrightarrow> bs ! i = bs ! j \<longleftrightarrow> i = j" for i j
      using H(3) by (simp add: nth_eq_iff_index_eq)
    have mem: "i < length bs \<Longrightarrow> bs ! i \<noteq> Fake_head \<and> bs ! i \<noteq> Fake_tail" for i
      using H(1,2) nth_mem by metis
    have "chain m' bs"
    proof (rule chain_nth)
      fix i assume "i + 1 < length bs"
      then show "next_free_block (m' (bs ! i)) = Some (bs ! (i + 1))
          \<and> prev_free_block (m' (bs ! (i + 1))) = Some (bs ! i)"
        using l(1) [of i] l(2) [of "i + 1"] mem [of i] mem [of "i + 1"]
          eq [of i "length bs - 1"] eq [of "i + 1" 0] False \<open>i + 1 < length bs\<close>
        by (auto simp: nx pv)
    qed
    moreover have "next_free_block (m' ?last) = Some Fake_tail" "prev_free_block (m' Fake_tail) = Some ?last"
      by (simp_all add: nx pv)
    moreover obtain cs c where "bs = cs @ [c]" using False by (cases bs rule: rev_cases) auto
    ultimately have "chain m' (bs @ [Fake_tail])"
      by (simp add: chain_snoc2)
    moreover have "next_free_block (m' Fake_head) = Some (bs ! 0)" "prev_free_block (m' (bs ! 0)) = Some Fake_head"
      using mem [of 0] mem [of "length bs - 1"] False by (auto simp: nx pv)
    ultimately have "chain m' (framed bs)"
      using False by (cases bs) auto
    moreover have "next_free_block (m' b) = None" if "b \<notin> set (butlast (framed bs))" for b
      using that False l(3) [of b] assms(2) mem [of "length bs - 1"]
      by (auto simp: nx butlast_append)
    moreover have "prev_free_block (m' b) = None" if "b \<notin> set (tl (framed bs))" for b
      using that False l(3) [of b] assms(2) mem [of 0] by (auto simp: pv)
    ultimately show ?thesis
      using assms(1) by (simp add: fq_rep_def linked_def m'_def fq_init_def Let_def)
  qed
  show "b \<in> set bs \<Longrightarrow> payload (mem (fq_init m bs) b) = payload (m b)"
    using l(4) [of b] assms(1) by (auto simp: fq_init_def Let_def m1_def)
qed

section \<open>The interface of the queue\<close>

text \<open>
  What \<open>BlockPool\<close> relies on: \<open>rep q xs\<close> relates a queue to the list of its blocks, \<open>fresh\<close>
  are the references that may be queued, \<open>same\<close> says that two states agree on everything but
  the links.
\<close>

locale free_block_queue =
  fixes rep :: "'q \<Rightarrow> 'b list \<Rightarrow> bool"
    and size_of :: "'q \<Rightarrow> int"
    and pop_n :: "int \<Rightarrow> 'q \<Rightarrow> ('b list \<times> 'q) result"
    and take_out :: "'b \<Rightarrow> 'q \<Rightarrow> 'q result"
    and put_n :: "'b list \<Rightarrow> 'q \<Rightarrow> 'q result"
    and real :: "'b \<Rightarrow> bool"
    and same :: "'q \<Rightarrow> 'q \<Rightarrow> bool"
  assumes rep_wf: "rep q xs \<Longrightarrow> distinct xs \<and> (\<forall>x \<in> set xs. real x)"
    and rep_size: "rep q xs \<Longrightarrow> size_of q = int (length xs)"
    and rep_pop_n: "rep q (xs @ ys) \<Longrightarrow>
      \<exists>q'. pop_n (int (length xs)) q = Inr (xs, q') \<and> rep q' ys \<and> same q q'"
    and rep_take_out: "rep q (xs @ x # ys) \<Longrightarrow>
      \<exists>q'. take_out x q = Inr q' \<and> rep q' (xs @ ys) \<and> same q q'"
    and rep_put_n: "rep q xs \<Longrightarrow> distinct (xs @ bs) \<Longrightarrow> (\<forall>b \<in> set bs. real b) \<Longrightarrow>
      \<exists>q'. put_n bs q = Inr q' \<and> rep q' (xs @ bs) \<and> same q q'"
    and same_refl: "same q q"
    and same_trans: "same q q' \<Longrightarrow> same q' q'' \<Longrightarrow> same q q''"
begin

lemma pop_n_take:
  assumes "rep q fl" "0 \<le> n" "n \<le> size_of q"
  shows "\<exists>q'. pop_n n q = Inr (take (nat n) fl, q') \<and> rep q' (drop (nat n) fl) \<and> same q q'"
  using rep_pop_n [of q "take (nat n) fl" "drop (nat n) fl"] assms rep_size [OF assms(1)] by simp

lemma take_out_mem:
  assumes "rep q fl" "x \<in> set fl"
  shows "\<exists>q'. take_out x q = Inr q' \<and> rep q' (remove1 x fl) \<and> same q q'"
proof -
  obtain xs ys where s: "fl = xs @ x # ys" "x \<notin> set xs"
    using split_list_first [OF assms(2)] by auto
  then have "remove1 x fl = xs @ ys" by (simp add: remove1_append)
  then show ?thesis using rep_take_out [of q xs x ys] assms(1) s(1) by simp
qed

text \<open>Blocks that are put back leave in the order they were put, after all that were there before.\<close>

lemma put_then_pop:
  assumes "rep q fl" "distinct (fl @ bs)" "\<forall>b \<in> set bs. real b"
  shows "\<exists>q1 q2 q3. put_n bs q = Inr q1 \<and> pop_n (size_of q) q1 = Inr (fl, q2)
           \<and> pop_n (int (length bs)) q2 = Inr (bs, q3) \<and> rep q3 [] \<and> same q q3"
proof -
  obtain q1 where 1: "put_n bs q = Inr q1" "rep q1 (fl @ bs)" "same q q1"
    using rep_put_n [OF assms] by blast
  obtain q2 where 2: "pop_n (int (length fl)) q1 = Inr (fl, q2)" "rep q2 bs" "same q1 q2"
    using rep_pop_n [OF 1(2)] by blast
  obtain q3 where 3: "pop_n (int (length bs)) q2 = Inr (bs, q3)" "rep q3 []" "same q2 q3"
    using rep_pop_n [of q2 bs "[]"] 2(2) by auto
  have "same q q3" using 1(3) 2(3) 3(3) same_trans by blast
  then show ?thesis
    unfolding rep_size [OF assms(1)] using 1(1) 2(1) 3(1,2) by blast
qed

lemma take_out_all:
  assumes "rep q fl" "distinct xs" "set xs \<subseteq> set fl"
  shows "\<exists>q'. foldE take_out xs q = Inr q' \<and> rep q' (filter (\<lambda>b. b \<notin> set xs) fl) \<and> same q q'"
  using assms
proof (induction xs arbitrary: q fl)
  case Nil
  then show ?case by (auto intro: same_refl)
next
  case (Cons x xs)
  obtain q1 where 1: "take_out x q = Inr q1" "rep q1 (remove1 x fl)" "same q q1"
    using take_out_mem [of q fl x] Cons.prems by auto
  have "distinct fl" using rep_wf [OF Cons.prems(1)] by blast
  then have r: "remove1 x fl = filter (\<lambda>b. x \<noteq> b) fl"
    by (simp add: distinct_remove1_removeAll removeAll_filter_not_eq)
  then have sub: "set xs \<subseteq> set (remove1 x fl)" "distinct xs" using Cons.prems(2,3) by auto
  obtain q2 where 2: "foldE take_out xs q1 = Inr q2"
    "rep q2 (filter (\<lambda>b. b \<notin> set xs) (remove1 x fl))" "same q1 q2"
    using Cons.IH [OF 1(2) sub(2,1)] by blast
  have "filter (\<lambda>b. b \<notin> set xs) (remove1 x fl) = filter (\<lambda>b. b \<notin> set (x # xs)) fl"
    unfolding r filter_filter by (rule filter_cong) auto
  then show ?case
    using 1(1) 2(1,2) same_trans [OF 1(3) 2(3)] by auto
qed

end

definition real_blk :: "blk_ref \<Rightarrow> bool" where
  "real_blk b \<longleftrightarrow> b \<noteq> Fake_head \<and> b \<noteq> Fake_tail"

definition same_payload :: "free_queue \<Rightarrow> free_queue \<Rightarrow> bool" where
  "same_payload s s' \<longleftrightarrow> (\<forall>b. payload (mem s' b) = payload (mem s b))"

interpretation fbq: free_block_queue fq_rep num_free_blocks popleft_n fq_remove append_n real_blk same_payload
proof unfold_locales
  fix q xs assume "fq_rep q xs"
  then show "distinct xs \<and> (\<forall>x \<in> set xs. real_blk x)"
    using fq_rep_distinct [of q xs] by (auto simp: real_blk_def)
next
  fix q xs bs assume "fq_rep q xs" "distinct (xs @ bs)" "\<forall>b \<in> set bs. real_blk b"
  moreover from this have "distinct (framed (xs @ bs))"
    using fq_rep_distinct [of q xs] by (auto simp: real_blk_def)
  ultimately show "\<exists>q'. append_n bs q = Inr q' \<and> fq_rep q' (xs @ bs) \<and> same_payload q q'"
    using append_n_rep by (simp add: same_payload_def)
qed (use popleft_n_rep fq_remove_rep in \<open>auto simp: same_payload_def fq_rep_num\<close>)

section \<open>Properties\<close>

definition demo_queue :: free_queue where
  "demo_queue = fq_init (\<lambda>_. new_block 0) [Blk 1, Blk 2, Blk 3]"

lemma demo_queue_rep: "fq_rep demo_queue [Blk 1, Blk 2, Blk 3]"
  unfolding demo_queue_def by (rule fq_init_rep(1)) (simp_all add: new_block_def)

text \<open>
  C28. The linked free list is a first-in first-out queue: blocks that are appended come out
  after every block that was free before, in the order they were appended, and the list is
  empty afterwards. The fields of the block objects other than the links are unchanged.
\<close>

theorem free_queue_fifo:
  assumes "fq_rep q fl" "distinct (fl @ bs)" "\<forall>b \<in> set bs. real_blk b"
  shows "\<exists>q1 q2 q3. append_n bs q = Inr q1 \<and> popleft_n (num_free_blocks q) q1 = Inr (fl, q2)
    \<and> popleft_n (int (length bs)) q2 = Inr (bs, q3) \<and> get_all_free_blocks q3 = Some (Inr [])
    \<and> (\<forall>b. payload (mem q3 b) = payload (mem q b))"
proof -
  from fbq.put_then_pop [OF assms] obtain q1 q2 q3 where
    "append_n bs q = Inr q1" "popleft_n (num_free_blocks q) q1 = Inr (fl, q2)"
    "popleft_n (int (length bs)) q2 = Inr (bs, q3)" "fq_rep q3 []" "same_payload q q3" by blast
  then show ?thesis using get_all_free_blocks_rep [of q3 "[]"] by (auto simp: same_payload_def)
qed

theorem free_queue_fifo_witness:
  "\<exists>q1 q2 q3. append_n [Blk 7, Blk 5] demo_queue = Inr q1
    \<and> popleft_n (num_free_blocks demo_queue) q1 = Inr ([Blk 1, Blk 2, Blk 3], q2)
    \<and> popleft_n 2 q2 = Inr ([Blk 7, Blk 5], q3) \<and> get_all_free_blocks q3 = Some (Inr [])"
  using free_queue_fifo [OF demo_queue_rep, of "[Blk 7, Blk 5]"] by (auto simp: real_blk_def)

text \<open>
  Taking any set of free blocks out of the middle of the list succeeds, and the walk over
  the remaining list returns (it meets no cycle) with exactly the other blocks in their
  previous order.
\<close>

theorem free_queue_remove_order:
  assumes "fq_rep q fl" "distinct xs" "set xs \<subseteq> set fl"
  shows "\<exists>q'. foldE fq_remove xs q = Inr q' \<and> get_all_free_blocks q' = Some (Inr (filter (\<lambda>b. b \<notin> set xs) fl))
    \<and> num_free_blocks q' = num_free_blocks q - int (length xs)"
proof -
  from fbq.take_out_all [OF assms] obtain q' where
    q': "foldE fq_remove xs q = Inr q'" "fq_rep q' (filter (\<lambda>b. b \<notin> set xs) fl)" by blast
  have "distinct fl" using fbq.rep_wf [OF assms(1)] by simp
  then have "length (filter (\<lambda>b. b \<notin> set xs) fl) + length xs = length fl"
    using assms(2,3) by (metis sum_length_filter_compl distinct_filter distinct_card set_filter inf.absorb_iff2 add.commute
        inf.commute Collect_mem_eq Collect_conj_eq filter_cong)
  then show ?thesis
    using q'(1) get_all_free_blocks_rep [OF q'(2)] fq_rep_num [OF q'(2)] fq_rep_num [OF assms(1)] by auto
qed

theorem free_queue_remove_order_witness:
  "\<exists>q'. foldE fq_remove [Blk 2] demo_queue = Inr q' \<and> get_all_free_blocks q' = Some (Inr [Blk 1, Blk 3])
    \<and> num_free_blocks q' = 2"
  using free_queue_remove_order [OF demo_queue_rep, of "[Blk 2]"] fq_rep_num [OF demo_queue_rep] by auto

end
