(* ===== verification/Request_Model.thy ===== *)
theory Request_Model
  imports Free_Queue
begin

text \<open>
  The request object: \<open>vllm/v1/request.py\<close>, the length helper of \<open>vllm/utils/__init__.py\<close>,
  the multimodal placeholder ranges of \<open>vllm/multimodal/inputs.py\<close> and the stop checks of
  \<open>vllm/v1/core/sched/utils.py\<close>.

  Left out of the record: tracing headers, timestamps of events, the count of NaNs and
  KV-transfer parameters (observability and connector payloads that no modelled operation
  reads). \<open>arrival_time\<close> is only compared, so it is an \<open>int\<close>; \<open>obj_id\<close>
  stands for Python's \<open>id(self)\<close>. Strings are compared as Python compares them, code point
  by code point. The block hasher a request carries is a function argument of
  \<open>update_block_hashes\<close>.
\<close>

section \<open>Multimodal inputs\<close>

record placeholder_range =
  pr_offset :: int
  pr_length :: int
  is_embed :: "bool list option"

fun cumsum_from :: "int \<Rightarrow> bool list \<Rightarrow> int list" where
  "cumsum_from a [] = []"
| "cumsum_from a (b # bs) = (let a' = a + (if b then 1 else 0) in a' # cumsum_from a' bs)"

definition embeds_cumsum :: "placeholder_range \<Rightarrow> int list option" where
  "embeds_cumsum p = map_option (cumsum_from 0) (is_embed p)"

definition get_num_embeds :: "placeholder_range \<Rightarrow> int" where
  "get_num_embeds p =
     (case embeds_cumsum p of
        None \<Rightarrow> pr_length p
      | Some cs \<Rightarrow> if cs \<noteq> [] then last cs else 0)"

definition get_embeds_indices_in_range :: "placeholder_range \<Rightarrow> int \<Rightarrow> int \<Rightarrow> (int \<times> int) result" where
  "get_embeds_indices_in_range p start_idx end_idx =
     (case embeds_cumsum p of
        None \<Rightarrow> Inr (start_idx, end_idx)
      | Some cs \<Rightarrow>
          bindE (if 0 < start_idx then py_index cs (start_idx - 1) else Inr 0)
            (\<lambda>s. bindE (if 0 < end_idx then py_index cs (end_idx - 1) else Inr 0)
              (\<lambda>e. Inr (s, e))))"

record mm_feature =
  mm_identifier :: string
  mm_position :: placeholder_range

section \<open>Parameters, status and the request\<close>

record repetition_params =
  max_pattern_size :: int
  min_pattern_size :: int
  min_count :: int

record sampling_params =
  sp_max_tokens :: "int option"
  min_tokens :: int
  eos_token_id :: "int option"
  stop_token_ids :: "int list"
  repetition_detection :: "repetition_params option"
  sp_skip_reading_prefix_cache :: "bool option"
  structured_outputs :: bool

record pooling_params =
  pp_task :: "string option"
  pp_skip_reading_prefix_cache :: "bool option"

datatype request_status =
    WAITING
  | WAITING_FOR_STRUCTURED_OUTPUT_GRAMMAR
  | WAITING_FOR_REMOTE_KVS
  | WAITING_FOR_STREAMING_REQ
  | RUNNING
  | PREEMPTED
  | FINISHED_STOPPED
  | FINISHED_LENGTH_CAPPED
  | FINISHED_ABORTED
  | FINISHED_IGNORED
  | FINISHED_ERROR
  | FINISHED_REPETITION

text \<open>The values \<open>enum.auto()\<close> gives an \<open>IntEnum\<close>: 1, 2, 3 in declaration order.\<close>

fun status_value :: "request_status \<Rightarrow> int" where
  "status_value WAITING = 1"
| "status_value WAITING_FOR_STRUCTURED_OUTPUT_GRAMMAR = 2"
| "status_value WAITING_FOR_REMOTE_KVS = 3"
| "status_value WAITING_FOR_STREAMING_REQ = 4"
| "status_value RUNNING = 5"
| "status_value PREEMPTED = 6"
| "status_value FINISHED_STOPPED = 7"
| "status_value FINISHED_LENGTH_CAPPED = 8"
| "status_value FINISHED_ABORTED = 9"
| "status_value FINISHED_IGNORED = 10"
| "status_value FINISHED_ERROR = 11"
| "status_value FINISHED_REPETITION = 12"

definition is_finished :: "request_status \<Rightarrow> bool" where
  "is_finished s \<longleftrightarrow> status_value PREEMPTED < status_value s"

text \<open>A stop reason is a token id or a string.\<close>

datatype stop_why = Stop_token int | Stop_text string

datatype finish_reason = FR_STOP | FR_LENGTH | FR_ABORT | FR_ERROR | FR_REPETITION

fun get_finished_reason :: "request_status \<Rightarrow> finish_reason option" where
  "get_finished_reason FINISHED_STOPPED = Some FR_STOP"
| "get_finished_reason FINISHED_LENGTH_CAPPED = Some FR_LENGTH"
| "get_finished_reason FINISHED_ABORTED = Some FR_ABORT"
| "get_finished_reason FINISHED_IGNORED = Some FR_LENGTH"
| "get_finished_reason FINISHED_ERROR = Some FR_ERROR"
| "get_finished_reason WAITING_FOR_STREAMING_REQ = Some FR_STOP"
| "get_finished_reason FINISHED_REPETITION = Some FR_REPETITION"
| "get_finished_reason _ = None"

text \<open>The statistics of a request's first prefill (\<open>PrefillStats\<close> of \<open>v1/metrics/stats.py\<close>).\<close>

record prefill_stats =
  pf_prompt :: int
  pf_computed :: int
  pf_cached :: int
  pf_local_cached :: int
  pf_external_cached :: int

definition new_prefill_stats :: prefill_stats where
  "new_prefill_stats = \<lparr>pf_prompt = 0, pf_computed = 0, pf_cached = 0, pf_local_cached = 0, pf_external_cached = 0\<rparr>"

definition prefill_set :: "int \<Rightarrow> int \<Rightarrow> int \<Rightarrow> prefill_stats result" where
  "prefill_set n_prompt n_local n_ext =
     (let cached = n_local + n_ext
      in bindE (guardE (cached \<le> n_prompt) AssertionError) (\<lambda>_.
           Inr \<lparr>pf_prompt = n_prompt, pf_computed = n_prompt - cached, pf_cached = cached,
                pf_local_cached = n_local, pf_external_cached = n_ext\<rparr>))"

text \<open>An update of a streaming session.\<close>

record streaming_update =
  su_mm_features :: "mm_feature list option"
  su_prompt_token_ids :: "int list option"
  su_max_tokens :: int
  su_arrival_time :: int
  su_sampling_params :: "sampling_params option"

record request =
  request_id :: string
  priority :: int
  arrival_time :: int
  obj_id :: nat
  req_sampling_params :: "sampling_params option"
  req_pooling_params :: "pooling_params option"
  lora_request :: "(string \<times> int) option"
  structured_output_request :: bool
  status :: request_status
  stop_reason :: "stop_why option"
  max_tokens :: int
  prompt_token_ids :: "int list option"
  prompt_embeds :: "bytes list option"
  prompt_embeds_hashes :: "((int \<times> int) \<times> bytes) list"
  num_prompt_tokens :: int
  output_token_ids :: "int list"
  all_token_ids :: "int list"
  num_output_placeholders :: int
  discard_latest_async_tokens :: bool
  spec_token_ids :: "int list"
  num_computed_tokens :: int
  cache_salt :: "string option"
  mm_features :: "mm_feature list"
  is_prefill_chunk :: bool
  num_preemptions :: int
  block_hashes :: "bytes list"
  skip_reading_prefix_cache :: bool
  resumable :: bool
  streaming_queue :: "streaming_update option list option"
  client_index :: int
  prefill_stats :: "prefill_stats option"
  reasoning_ended :: "bool option"

definition streaming_update_from_request :: "request \<Rightarrow> streaming_update option" where
  "streaming_update_from_request r =
     (if \<not> resumable r then None
      else Some \<lparr>su_mm_features = Some (mm_features r), su_prompt_token_ids = prompt_token_ids r,
                 su_max_tokens = max_tokens r, su_arrival_time = arrival_time r,
                 su_sampling_params = req_sampling_params r\<rparr>)"

definition take_prefill_stats :: "request \<Rightarrow> prefill_stats option \<times> request" where
  "take_prefill_stats r =
     (case prefill_stats r of None \<Rightarrow> (None, r) | Some st \<Rightarrow> (Some st, r\<lparr>prefill_stats := None\<rparr>))"

definition length_from_prompt_token_ids_or_embeds
  :: "int list option \<Rightarrow> bytes list option \<Rightarrow> int result" where
  "length_from_prompt_token_ids_or_embeds toks embeds =
     (case (toks, embeds) of
        (None, None) \<Rightarrow> Inl ValueError
      | (None, Some es) \<Rightarrow> Inr (int (length es))
      | (Some ts, None) \<Rightarrow> Inr (int (length ts))
      | (Some ts, Some es) \<Rightarrow>
          if length es \<noteq> length ts then Inl ValueError else Inr (int (length ts)))"

definition num_tokens :: "request \<Rightarrow> int" where
  "num_tokens r = int (length (all_token_ids r))"

definition num_tokens_with_spec :: "request \<Rightarrow> int" where
  "num_tokens_with_spec r = int (length (all_token_ids r)) + int (length (spec_token_ids r))"

definition num_output_tokens :: "request \<Rightarrow> int" where
  "num_output_tokens r = int (length (output_token_ids r))"

definition num_encoder_inputs :: "request \<Rightarrow> nat" where
  "num_encoder_inputs r = length (mm_features r)"

definition has_encoder_inputs :: "request \<Rightarrow> bool" where
  "has_encoder_inputs r \<longleftrightarrow> 0 < num_encoder_inputs r"

definition get_skip_reading_prefix_cache
  :: "sampling_params option \<Rightarrow> pooling_params option \<Rightarrow> bool" where
  "get_skip_reading_prefix_cache sp pp =
     (case Option.bind sp sp_skip_reading_prefix_cache of
        Some b \<Rightarrow> b
      | None \<Rightarrow> (case Option.bind pp pp_skip_reading_prefix_cache of
                   Some b \<Rightarrow> b
                 | None \<Rightarrow> False))"

definition get_num_encoder_embeds :: "request \<Rightarrow> nat \<Rightarrow> int result" where
  "get_num_encoder_embeds r input_id =
     bindE (guardE (input_id < length (mm_features r)) AssertionError)
       (\<lambda>_. Inr (get_num_embeds (mm_position (mm_features r ! input_id))))"

text \<open>
  The block hasher is applied to the request after its tokens are set and may record
  per-block prompt-embedding hashes in it, so it returns the request as well. \<open>None\<close> is a
  request without a hasher. A hasher that does not return is the outer \<open>None\<close>.
\<close>

type_synonym block_hasher = "request \<Rightarrow> (bytes list \<times> request) result option"

definition update_block_hashes :: "block_hasher option \<Rightarrow> request \<Rightarrow> request result option" where
  "update_block_hashes hasher r =
     (case hasher of
        None \<Rightarrow> Some (Inr r)
      | Some h \<Rightarrow>
          map_option (\<lambda>res. bindE res
            (\<lambda>(new, r'). Inr (r'\<lparr>block_hashes := block_hashes r' @ new\<rparr>))) (h r))"

definition append_output_token_ids :: "block_hasher option \<Rightarrow> int list \<Rightarrow> request \<Rightarrow> request result option" where
  "append_output_token_ids hasher toks r =
     update_block_hashes hasher
       (r\<lparr>output_token_ids := output_token_ids r @ toks,
          all_token_ids := all_token_ids r @ toks\<rparr>)"

definition new_request ::
  "block_hasher option \<Rightarrow> nat \<Rightarrow> string \<Rightarrow> int list option \<Rightarrow> sampling_params option \<Rightarrow>
   pooling_params option \<Rightarrow> int \<Rightarrow> bytes list option \<Rightarrow> mm_feature list \<Rightarrow>
   (string \<times> int) option \<Rightarrow> string option \<Rightarrow> int \<Rightarrow> bool \<Rightarrow> int \<Rightarrow> bool option \<Rightarrow> request result option" where
  "new_request hasher oid rid toks sp pp arrival embeds mms lora salt prio resum client reasoning =
     (let structured = (case sp of None \<Rightarrow> False | Some p \<Rightarrow> structured_outputs p);
          limits = (if pp \<noteq> None then Inr (WAITING, 1)
                    else case sp of
                      None \<Rightarrow> Inl ValueError
                    | Some p \<Rightarrow>
                        (case sp_max_tokens p of
                           None \<Rightarrow> Inl AssertionError
                         | Some n \<Rightarrow> Inr (if structured then WAITING_FOR_STRUCTURED_OUTPUT_GRAMMAR
                                          else WAITING, n)))
      in case bindE limits (\<lambda>(st, maxt).
                bindE (length_from_prompt_token_ids_or_embeds toks embeds) (\<lambda>n. Inr (st, maxt, n))) of
           Inl e \<Rightarrow> Some (Inl e)
         | Inr (st, maxt, n) \<Rightarrow>
             update_block_hashes hasher
               \<lparr>request_id = rid, priority = prio, arrival_time = arrival, obj_id = oid,
                req_sampling_params = sp, req_pooling_params = pp, lora_request = lora,
                structured_output_request = structured, status = st, stop_reason = None,
                max_tokens = maxt, prompt_token_ids = toks, prompt_embeds = embeds,
                prompt_embeds_hashes = [], num_prompt_tokens = n, output_token_ids = [],
                all_token_ids = (case toks of Some ts \<Rightarrow> ts | None \<Rightarrow> replicate (nat n) 0),
                num_output_placeholders = 0, discard_latest_async_tokens = False,
                spec_token_ids = [], num_computed_tokens = 0, cache_salt = salt,
                mm_features = mms, is_prefill_chunk = False, num_preemptions = 0,
                block_hashes = [],
                skip_reading_prefix_cache = get_skip_reading_prefix_cache sp pp,
                resumable = resum, streaming_queue = None, client_index = client,
                prefill_stats = Some new_prefill_stats,
                reasoning_ended = (if structured then reasoning else None)\<rparr>)"

text \<open>\<open>__lt__\<close>: priority, then arrival time, then request id, then object identity.\<close>

fun str_less :: "string \<Rightarrow> string \<Rightarrow> bool" where
  "str_less _ [] = False"
| "str_less [] (_ # _) = True"
| "str_less (c # cs) (d # ds) =
     (if (of_char c :: nat) = of_char d then str_less cs ds else (of_char c :: nat) < of_char d)"

definition request_less :: "request \<Rightarrow> request \<Rightarrow> bool" where
  "request_less a b =
     (if priority a \<noteq> priority b then priority a < priority b
      else if arrival_time a \<noteq> arrival_time b then arrival_time a < arrival_time b
      else if request_id a \<noteq> request_id b then str_less (request_id a) (request_id b)
      else obj_id a < obj_id b)"

section \<open>Stop conditions (\<open>sched/utils.py\<close>)\<close>

text \<open>
  The two nested loops compare position \<open>-n\<close> with \<open>-(pattern_len * m + n)\<close>; a mismatch
  returns early. An index outside the list raises.
\<close>

fun repeat_inner :: "int list \<Rightarrow> int \<Rightarrow> int \<Rightarrow> int \<Rightarrow> int list \<Rightarrow> bool result" where
  "repeat_inner toks plen n target [] = Inr True"
| "repeat_inner toks plen n target (m # ms) =
     bindE (py_index toks (- (plen * m + n)))
       (\<lambda>t. if t \<noteq> target then Inr False else repeat_inner toks plen n target ms)"

fun repeat_outer :: "int list \<Rightarrow> int \<Rightarrow> int \<Rightarrow> int list \<Rightarrow> bool result" where
  "repeat_outer toks plen cnt [] = Inr True"
| "repeat_outer toks plen cnt (n # ns) =
     bindE (py_index toks (- n))
       (\<lambda>target. bindE (repeat_inner toks plen n target [1..cnt - 1])
         (\<lambda>ok. if ok then repeat_outer toks plen cnt ns else Inr False))"

definition has_repeating_pattern :: "int list \<Rightarrow> int \<Rightarrow> int \<Rightarrow> bool result" where
  "has_repeating_pattern toks plen cnt = repeat_outer toks plen cnt [1..plen]"

fun repetition_loop :: "int list \<Rightarrow> int \<Rightarrow> int list \<Rightarrow> bool result" where
  "repetition_loop toks cnt [] = Inr False"
| "repetition_loop toks cnt (plen # ps) =
     (if int (length toks) < plen * cnt then Inr False
      else bindE (has_repeating_pattern toks plen cnt)
             (\<lambda>b. if b then Inr True else repetition_loop toks cnt ps))"

definition check_sequence_repetition :: "int list \<Rightarrow> repetition_params \<Rightarrow> bool result" where
  "check_sequence_repetition toks p =
     (let mx = max_pattern_size p;
          mn = (if min_pattern_size p \<le> 0 then 1 else min_pattern_size p);
          cnt = min_count p
      in if mx \<le> 0 \<or> cnt < 2 \<or> mx < mn then Inr False
         else repetition_loop toks cnt [mn..mx])"

definition remove_all :: "'a list \<Rightarrow> 'a list \<Rightarrow> 'a list" where
  "remove_all lst items =
     (case remdups items of
        [] \<Rightarrow> lst
      | [x] \<Rightarrow> remove1 x lst
      | _ \<Rightarrow> filter (\<lambda>i. i \<notin> set items) lst)"

definition check_stop :: "request \<Rightarrow> int \<Rightarrow> (bool \<times> request) result" where
  "check_stop r max_model_len =
     bindE (guardE (req_pooling_params r = None) AssertionError) (\<lambda>_.
     case req_sampling_params r of
       None \<Rightarrow> Inl AssertionError
     | Some sp \<Rightarrow>
         if num_output_tokens r < min_tokens sp then Inr (False, r)
         else bindE (py_index (output_token_ids r) (-1)) (\<lambda>last_id.
           if Some last_id = eos_token_id sp then Inr (True, r\<lparr>status := FINISHED_STOPPED\<rparr>)
           else if last_id \<in> set (stop_token_ids sp)
             then Inr (True, r\<lparr>status := FINISHED_STOPPED, stop_reason := Some (Stop_token last_id)\<rparr>)
           else if max_model_len \<le> num_tokens r \<or> max_tokens r \<le> num_output_tokens r
             then Inr (True, r\<lparr>status := FINISHED_LENGTH_CAPPED\<rparr>)
           else case repetition_detection sp of
                  None \<Rightarrow> Inr (False, r)
                | Some rp \<Rightarrow>
                    bindE (check_sequence_repetition (output_token_ids r) rp) (\<lambda>rep.
                      if rep then Inr (True, r\<lparr>status := FINISHED_REPETITION,
                                         stop_reason := Some (Stop_text ''repetition_detected'')\<rparr>)
                      else Inr (False, r))))"

section \<open>What the repetition check decides\<close>

definition repeats_at_end :: "'a list \<Rightarrow> nat \<Rightarrow> nat \<Rightarrow> bool" where
  "repeats_at_end xs l c \<longleftrightarrow> (\<exists>pre pat. length pat = l \<and> xs = pre @ concat (replicate c pat))"

lemma length_concat_replicate: "length (concat (replicate c q)) = c * length q"
  by (induction c) auto

lemma nth_concat_replicate:
  "i < c * length q \<Longrightarrow> concat (replicate c q) ! i = q ! (i mod length q)"
proof (induction c arbitrary: i)
  case (Suc c)
  show ?case
  proof (cases "i < length q")
    case True
    then show ?thesis by (simp add: nth_append)
  next
    case False
    with Suc.prems have "i - length q < c * length q" by simp
    with Suc.IH False show ?thesis by (simp add: nth_append le_mod_geq)
  qed
qed simp

lemma rev_concat_replicate: "rev (concat (replicate c q)) = concat (replicate c (rev q))"
  by (simp add: rev_concat map_replicate)

lemma repeats_at_end_nth:
  assumes c: "0 < c" and len: "l * c \<le> length xs"
  shows "repeats_at_end xs l c \<longleftrightarrow> (\<forall>m < c. \<forall>n < l. rev xs ! (l * m + n) = rev xs ! n)"
proof
  assume "repeats_at_end xs l c"
  then obtain pre pat where p: "length pat = l" "xs = pre @ concat (replicate c pat)"
    by (auto simp: repeats_at_end_def)
  have rx: "rev xs = concat (replicate c (rev pat)) @ rev pre"
    by (simp add: p(2) rev_concat_replicate)
  have "rev xs ! i = rev pat ! (i mod l)" if "i < c * l" for i
    using that p(1) nth_concat_replicate [of i c "rev pat"]
    by (simp add: rx nth_append length_concat_replicate)
  moreover have "l * m + n < c * l" if "m < c" "n < l" for m n
  proof -
    have "l * m + n < l * Suc m" using that by simp
    also have "\<dots> \<le> l * c" using that by (intro mult_le_mono) simp_all
    finally show ?thesis by (simp add: mult.commute)
  qed
  ultimately show "\<forall>m < c. \<forall>n < l. rev xs ! (l * m + n) = rev xs ! n"
    using c by (metis add_0 mod_less mod_mult_self2 mult_0_right mod_add_self1 add.commute mod_mult_self4)
next
  assume h: "\<forall>m < c. \<forall>n < l. rev xs ! (l * m + n) = rev xs ! n"
  let ?q = "take l (rev xs)"
  have ll: "l \<le> length xs"
    using len c by (metis le_trans mult.right_neutral mult_le_mono2 Suc_leI One_nat_def)
  have "take (c * l) (rev xs) = concat (replicate c ?q)"
  proof (rule nth_equalityI)
    show "length (take (c * l) (rev xs)) = length (concat (replicate c ?q))"
      using len ll by (simp add: length_concat_replicate mult.commute)
    fix i assume "i < length (take (c * l) (rev xs))"
    then have i: "i < c * l" by simp
    then have l0: "0 < l" by (cases l) auto
    then have "i div l < c" "i mod l < l"
      using i by (simp_all add: less_mult_imp_div_less)
    then have "rev xs ! i = rev xs ! (i mod l)"
      using h by (metis div_mult_mod_eq mult.commute)
    then show "take (c * l) (rev xs) ! i = concat (replicate c ?q) ! i"
      using i l0 ll nth_concat_replicate [of i c ?q] by simp
  qed
  then have "rev xs = concat (replicate c ?q) @ drop (c * l) (rev xs)"
    by (metis append_take_drop_id)
  then have "xs = rev (drop (c * l) (rev xs)) @ concat (replicate c (rev ?q))"
    by (metis rev_append rev_rev_ident rev_concat_replicate)
  moreover have "length (rev ?q) = l" using ll by simp
  ultimately show "repeats_at_end xs l c"
    unfolding repeats_at_end_def by blast
qed

lemma py_index_neg:
  assumes "0 < k" "nat k \<le> length xs"
  shows "py_index xs (- k) = Inr (rev xs ! (nat k - 1))"
proof -
  have "nat (int (length xs) - k) = length xs - Suc (nat k - 1)" using assms by simp
  then show ?thesis using assms by (simp add: py_index_def Let_def rev_nth)
qed

lemma repeat_inner_correct:
  assumes "\<And>m. m \<in> set ms \<Longrightarrow> 0 < plen * m + n \<and> nat (plen * m + n) \<le> length toks"
  shows "repeat_inner toks plen n t ms = Inr (\<forall>m \<in> set ms. rev toks ! (nat (plen * m + n) - 1) = t)"
  using assms
proof (induction ms)
  case (Cons m ms)
  have "py_index toks (- (plen * m + n)) = Inr (rev toks ! (nat (plen * m + n) - 1))"
    by (rule py_index_neg) (use Cons.prems [of m] in auto)
  with Cons show ?case by simp
qed simp

lemma repeat_outer_correct:
  assumes "\<And>n m. n \<in> set ns \<Longrightarrow> m \<in> set [1..cnt - 1] \<Longrightarrow>
      0 < plen * m + n \<and> nat (plen * m + n) \<le> length toks"
    and "\<And>n. n \<in> set ns \<Longrightarrow> 0 < n \<and> nat n \<le> length toks"
  shows "repeat_outer toks plen cnt ns =
    Inr (\<forall>n \<in> set ns. \<forall>m \<in> set [1..cnt - 1]. rev toks ! (nat (plen * m + n) - 1) = rev toks ! (nat n - 1))"
  using assms
proof (induction ns)
  case (Cons n ns)
  have "py_index toks (- n) = Inr (rev toks ! (nat n - 1))"
    by (rule py_index_neg) (use Cons.prems(2) [of n] in auto)
  moreover have "repeat_inner toks plen n t [1..cnt - 1] =
      Inr (\<forall>m \<in> set [1..cnt - 1]. rev toks ! (nat (plen * m + n) - 1) = t)" for t
    by (rule repeat_inner_correct) (use Cons.prems(1) [of n] in auto)
  ultimately show ?case using Cons by simp
qed simp

lemma has_repeating_pattern_correct:
  assumes "0 < l" "1 < c" "l * c \<le> length toks"
  shows "has_repeating_pattern toks (int l) (int c) = Inr (repeats_at_end toks l c)"
proof -
  have bound: "l * m + n \<le> length toks" if "m < c" "n \<le> l" for m n
  proof -
    have "l * m + n \<le> l * Suc m" using that by simp
    also have "\<dots> \<le> l * c" using that by (intro mult_le_mono) simp_all
    finally show ?thesis using assms(3) by simp
  qed
  have b: "0 < int l * m + n \<and> nat (int l * m + n) \<le> length toks"
    if "n \<in> set [1..int l]" "m \<in> set [1..int c - 1]" for n m
  proof -
    have "int l * m + n = int (l * nat m + nat n)" using that by simp
    moreover have "0 < nat n" "nat m < c" "nat n \<le> l" using that by auto
    moreover from this have "0 < l * nat m + nat n" by simp
    ultimately show ?thesis using bound [of "nat m" "nat n"]
      by (simp only: nat_int of_nat_0_less_iff)
  qed
  have "l \<le> length toks" using bound [of 0 l] assms by simp
  then have "has_repeating_pattern toks (int l) (int c) =
    Inr (\<forall>n \<in> set [1..int l]. \<forall>m \<in> set [1..int c - 1].
          rev toks ! (nat (int l * m + n) - 1) = rev toks ! (nat n - 1))"
    unfolding has_repeating_pattern_def by (intro repeat_outer_correct b) auto
  moreover have "(\<forall>n \<in> set [1..int l]. \<forall>m \<in> set [1..int c - 1].
          rev toks ! (nat (int l * m + n) - 1) = rev toks ! (nat n - 1))
     \<longleftrightarrow> (\<forall>m < c. \<forall>n < l. rev toks ! (l * m + n) = rev toks ! n)" (is "?L \<longleftrightarrow> ?R")
  proof
    assume ?R
    show ?L
    proof (intro ballI)
      fix n m assume nm: "n \<in> set [1..int l]" "m \<in> set [1..int c - 1]"
      have e: "nat (int l * m + n) = l * nat m + nat n"
        using nm by (simp add: nat_add_distrib nat_mult_distrib)
      have "nat m < c" "nat n - 1 < l" using nm by auto
      with \<open>?R\<close> have "rev toks ! (l * nat m + (nat n - 1)) = rev toks ! (nat n - 1)" by blast
      moreover have "l * nat m + nat n - 1 = l * nat m + (nat n - 1)" using nm by auto
      ultimately show "rev toks ! (nat (int l * m + n) - 1) = rev toks ! (nat n - 1)"
        by (simp only: e)
    qed
  next
    assume L: ?L
    show ?R
    proof (intro allI impI)
      fix m n assume mn: "m < c" "n < l"
      have e: "nat (int l * int m + int (Suc n)) - 1 = l * m + n"
        by (metis nat_int add_Suc_right diff_Suc_1 of_nat_add of_nat_mult)
      show "rev toks ! (l * m + n) = rev toks ! n"
      proof (cases "m = 0")
        case False
        have "int (Suc n) \<in> set [1..int l]" "int m \<in> set [1..int c - 1]" using mn False by auto
        then have "rev toks ! (nat (int l * int m + int (Suc n)) - 1) = rev toks ! (nat (int (Suc n)) - 1)"
          using L by blast
        then show ?thesis unfolding e nat_int by simp
      qed simp
    qed
  qed
  ultimately show ?thesis
    using repeats_at_end_nth [of c l toks] assms by simp
qed


lemma repetition_loop_correct:
  assumes "1 < c" "0 < k"
  shows "repetition_loop toks (int c) (map int [k..<k + j]) =
    Inr (\<exists>l. k \<le> l \<and> l < k + j \<and> l * c \<le> length toks \<and> repeats_at_end toks l c)"
  using assms(2)
proof (induction j arbitrary: k)
  case 0
  then show ?case by simp
next
  case (Suc j)
  have up: "map int [k..<k + Suc j] = int k # map int [Suc k..<Suc k + j]"
    by (simp add: upt_conv_Cons del: upt_Suc)
  show ?case
  proof (cases "length toks < k * c")
    case True
    have "\<not> l * c \<le> length toks" if "k \<le> l" for l
      using True mult_le_mono1 [OF that, of c] by linarith
    moreover have "int (length toks) < int k * int c" using True by (metis of_nat_less_iff of_nat_mult)
    ultimately show ?thesis unfolding up by auto
  next
    case False
    moreover have "\<not> int (length toks) < int k * int c" using False by (metis of_nat_less_iff of_nat_mult)
    ultimately have "repetition_loop toks (int c) (map int [k..<k + Suc j]) =
        Inr ((k * c \<le> length toks \<and> repeats_at_end toks k c) \<or>
          (\<exists>l. Suc k \<le> l \<and> l < Suc k + j \<and> l * c \<le> length toks \<and> repeats_at_end toks l c))"
      unfolding up using Suc.IH [of "Suc k"] has_repeating_pattern_correct [of k c toks] Suc.prems assms(1)
      by (simp del: upt_Suc of_nat_Suc add_Suc_shift add_Suc_right)
    moreover have "(\<exists>l. k \<le> l \<and> l < k + Suc j \<and> Q l) \<longleftrightarrow>
        Q k \<or> (\<exists>l. Suc k \<le> l \<and> l < Suc k + j \<and> Q l)" for Q :: "nat \<Rightarrow> bool"
    proof -
      have "k \<le> l \<and> l < k + Suc j \<longleftrightarrow> l = k \<or> (Suc k \<le> l \<and> l < Suc k + j)" for l
        by auto
      then show ?thesis by metis
    qed
    ultimately show ?thesis by (simp only: conj_assoc)
  qed
qed

lemma int_interval_map: "0 \<le> a \<Longrightarrow> [a..b] = map int [nat a..<nat (b + 1)]"
proof (rule nth_equalityI)
  assume a: "0 \<le> a"
  show "length [a..b] = length (map int [nat a..<nat (b + 1)])" using a by simp
  fix i assume "i < length [a..b]"
  then show "[a..b] ! i = map int [nat a..<nat (b + 1)] ! i" using a by simp
qed

theorem check_sequence_repetition_correct:
  "check_sequence_repetition toks p = Inr
     (1 < min_count p \<and>
      (\<exists>l \<ge> 1. min_pattern_size p \<le> int l \<and> int l \<le> max_pattern_size p
         \<and> l * nat (min_count p) \<le> length toks \<and> repeats_at_end toks l (nat (min_count p))))"
proof (cases "1 < min_count p")
  case c: True
  define mn where "mn = (if min_pattern_size p \<le> 0 then 1 else min_pattern_size p)"
  have mn: "0 < mn" "\<And>l. mn \<le> int l \<longleftrightarrow> 1 \<le> l \<and> min_pattern_size p \<le> int l"
    by (auto simp: mn_def)
  show ?thesis
  proof (cases "max_pattern_size p < mn")
    case True
    then show ?thesis
      unfolding check_sequence_repetition_def Let_def mn_def [symmetric] using mn(1) c
      by simp (metis One_nat_def mn(2) leD le_less_trans less_le_trans)
  next
    case False
    let ?k = "nat mn" and ?j = "nat (max_pattern_size p + 1) - nat mn"
    have "[mn..max_pattern_size p] = map int [?k..<?k + ?j]"
      using mn(1) False by (simp add: int_interval_map nat_le_eq_zle)
    moreover have "int (nat (min_count p)) = min_count p" using c by simp
    ultimately have "check_sequence_repetition toks p =
        repetition_loop toks (int (nat (min_count p))) (map int [?k..<?k + ?j])"
      using c mn False by (simp add: check_sequence_repetition_def Let_def mn_def [symmetric])
    also have "\<dots> = Inr (\<exists>l. ?k \<le> l \<and> l < ?k + ?j \<and> l * nat (min_count p) \<le> length toks
        \<and> repeats_at_end toks l (nat (min_count p)))"
      by (rule repetition_loop_correct) (use c mn in auto)
    also have "\<dots> = Inr (\<exists>l \<ge> 1. min_pattern_size p \<le> int l \<and> int l \<le> max_pattern_size p
         \<and> l * nat (min_count p) \<le> length toks \<and> repeats_at_end toks l (nat (min_count p)))"
    proof -
      have "?k \<le> l \<and> l < ?k + ?j \<longleftrightarrow> 1 \<le> l \<and> min_pattern_size p \<le> int l \<and> int l \<le> max_pattern_size p" for l
        using mn(1) mn(2) [of l] False by (auto simp: nat_le_iff nat_le_eq_zle less_diff_conv2)
      then show ?thesis by (metis (no_types, lifting))
    qed
    finally show ?thesis using c by simp
  qed
qed (auto simp: check_sequence_repetition_def Let_def)

section \<open>What \<open>check_stop\<close> decides\<close>

lemma check_stop_unfold:
  assumes "req_pooling_params r = None" "req_sampling_params r = Some sp"
    "min_tokens sp \<le> num_output_tokens r" "output_token_ids r \<noteq> []"
  shows "check_stop r mml =
    (let t = last (output_token_ids r) in
     if Some t = eos_token_id sp then Inr (True, r\<lparr>status := FINISHED_STOPPED\<rparr>)
     else if t \<in> set (stop_token_ids sp)
       then Inr (True, r\<lparr>status := FINISHED_STOPPED, stop_reason := Some (Stop_token t)\<rparr>)
     else if mml \<le> num_tokens r \<or> max_tokens r \<le> num_output_tokens r
       then Inr (True, r\<lparr>status := FINISHED_LENGTH_CAPPED\<rparr>)
     else case repetition_detection sp of
            None \<Rightarrow> Inr (False, r)
          | Some rp \<Rightarrow> bindE (check_sequence_repetition (output_token_ids r) rp) (\<lambda>rep.
              if rep then Inr (True, r\<lparr>status := FINISHED_REPETITION,
                                      stop_reason := Some (Stop_text ''repetition_detected'')\<rparr>)
              else Inr (False, r)))"
proof -
  have "rev (output_token_ids r) ! 0 = last (output_token_ids r)"
    using assms(4) by (simp add: hd_rev flip: hd_conv_nth)
  moreover have "1 \<le> length (output_token_ids r)"
    using assms(4) by (cases "output_token_ids r") auto
  ultimately have "py_index (output_token_ids r) (-1) = Inr (last (output_token_ids r))"
    using py_index_neg [of 1 "output_token_ids r"] by simp
  then show ?thesis
    using assms(1-3) by (simp add: check_stop_def Let_def)
qed

lemma check_stop_result:
  assumes "check_stop r mml = Inr (b, r')"
  shows "if b then is_finished (status r') \<and> get_finished_reason (status r') \<noteq> None else r' = r"
proof -
  from assms obtain sp where sp: "req_sampling_params r = Some sp" "req_pooling_params r = None"
    by (auto simp: check_stop_def split: option.splits)
  show ?thesis
  proof (cases "num_output_tokens r < min_tokens sp")
    case True
    then show ?thesis using assms sp by (simp add: check_stop_def)
  next
    case False
    with assms sp have ne: "output_token_ids r \<noteq> []"
      by (auto simp: check_stop_def py_index_def)
    from assms show ?thesis
      unfolding check_stop_unfold [OF sp(2,1) leI [OF False] ne] Let_def is_finished_def
        check_sequence_repetition_correct bindE_Inr
      by (clarsimp split: if_split_asm option.split_asm)
  qed
qed

lemma check_stop_continue:
  assumes "check_stop r mml = Inr (False, r')"
  obtains sp where "req_sampling_params r = Some sp"
    "num_output_tokens r < min_tokens sp
     \<or> (num_tokens r < mml \<and> num_output_tokens r < max_tokens r
        \<and> Some (last (output_token_ids r)) \<noteq> eos_token_id sp
        \<and> last (output_token_ids r) \<notin> set (stop_token_ids sp))"
proof -
  from assms obtain sp where sp: "req_sampling_params r = Some sp" "req_pooling_params r = None"
    by (auto simp: check_stop_def split: option.splits)
  show ?thesis
  proof (cases "num_output_tokens r < min_tokens sp")
    case True
    with sp that show ?thesis by blast
  next
    case False
    with assms sp have ne: "output_token_ids r \<noteq> []"
      by (auto simp: check_stop_def py_index_def)
    have "num_tokens r < mml \<and> num_output_tokens r < max_tokens r
        \<and> Some (last (output_token_ids r)) \<noteq> eos_token_id sp
        \<and> last (output_token_ids r) \<notin> set (stop_token_ids sp)"
      using assms False unfolding check_stop_unfold [OF sp(2,1) leI [OF False] ne] Let_def
      by (simp split: if_split_asm)
    then show ?thesis by (intro that [OF sp(1)] disjI2)
  qed
qed

lemma check_stop_returns:
  assumes "req_pooling_params r = None" "req_sampling_params r = Some sp" "output_token_ids r \<noteq> []"
  shows "\<exists>b r'. check_stop r mml = Inr (b, r')"
proof (cases "num_output_tokens r < min_tokens sp")
  case True
  then have "check_stop r mml = Inr (False, r)" using assms by (simp add: check_stop_def)
  then show ?thesis by blast
next
  case False
  then show ?thesis
    using check_stop_unfold [OF assms(1,2) _ assms(3), of mml]
    by (auto simp: Let_def check_sequence_repetition_correct split: option.splits)
qed

section \<open>The scheduling order\<close>

lemma str_less_irrefl [simp]: "\<not> str_less s s"
  by (induction s) auto

lemma of_char_nat_eq [simp]: "(of_char c :: nat) = of_char d \<longleftrightarrow> c = d"
  by simp

lemma str_less_trans: "str_less a b \<Longrightarrow> str_less b c \<Longrightarrow> str_less a c"
proof (induction a b arbitrary: c rule: str_less.induct)
  case (2 d ds)
  then show ?case by (cases c) auto
next
  case (3 x xs y ys)
  then show ?case by (cases c) (auto split: if_splits)
qed simp

lemma str_less_total: "a \<noteq> b \<Longrightarrow> str_less a b \<or> str_less b a"
proof (induction a b rule: str_less.induct)
  case (1 a)
  then show ?case by (cases a) auto
next
  case (3 c cs d ds)
  have "c \<noteq> d \<Longrightarrow> (of_char c :: nat) < of_char d \<or> (of_char d :: nat) < of_char c"
    by (metis linorder_neqE_nat of_char_nat_eq)
  with 3 show ?case by (cases "c = d") auto
qed simp

lemma request_less_irrefl [simp]: "\<not> request_less r r"
  by (simp add: request_less_def)

lemma request_less_trans: "request_less a b \<Longrightarrow> request_less b c \<Longrightarrow> request_less a c"
  by (auto simp: request_less_def dest: str_less_trans split: if_splits)

lemma request_less_total: "obj_id a \<noteq> obj_id b \<Longrightarrow> request_less a b \<or> request_less b a"
  using str_less_total [of "request_id a" "request_id b"] by (auto simp: request_less_def)

lemma request_less_asym: "request_less a b \<Longrightarrow> \<not> request_less b a"
  using request_less_trans request_less_irrefl by blast

section \<open>Sample requests\<close>

definition demo_request :: "string \<Rightarrow> int list \<Rightarrow> mm_feature list \<Rightarrow> bytes list \<Rightarrow> request" where
  "demo_request rid toks mms hs =
     \<lparr>request_id = rid, priority = 0, arrival_time = 0, obj_id = 0,
      req_sampling_params = None, req_pooling_params = None, lora_request = None,
      structured_output_request = False, status = WAITING, stop_reason = None,
      max_tokens = 1, prompt_token_ids = Some toks, prompt_embeds = None,
      prompt_embeds_hashes = [], num_prompt_tokens = int (length toks), output_token_ids = [],
      all_token_ids = toks, num_output_placeholders = 0, discard_latest_async_tokens = False,
      spec_token_ids = [], num_computed_tokens = 0, cache_salt = None, mm_features = mms,
      is_prefill_chunk = False, num_preemptions = 0, block_hashes = hs,
      skip_reading_prefix_cache = False, resumable = False, streaming_queue = None,
      client_index = 0, prefill_stats = Some new_prefill_stats, reasoning_ended = None\<rparr>"

definition demo_mm :: "string \<Rightarrow> int \<Rightarrow> int \<Rightarrow> mm_feature" where
  "demo_mm ident offset len =
     \<lparr>mm_identifier = ident, mm_position = \<lparr>pr_offset = offset, pr_length = len, is_embed = None\<rparr>\<rparr>"

section \<open>Properties\<close>

definition stopping :: "request \<Rightarrow> sampling_params \<Rightarrow> int \<Rightarrow> bool" where
  "stopping r sp mml \<longleftrightarrow>
     Some (last (output_token_ids r)) = eos_token_id sp
     \<or> last (output_token_ids r) \<in> set (stop_token_ids sp)
     \<or> mml \<le> num_tokens r \<or> max_tokens r \<le> num_output_tokens r
     \<or> (case repetition_detection sp of
          None \<Rightarrow> False
        | Some rp \<Rightarrow> 1 < min_count rp \<and> (\<exists>l \<ge> 1. min_pattern_size rp \<le> int l \<and> int l \<le> max_pattern_size rp
             \<and> l * nat (min_count rp) \<le> length (output_token_ids r)
             \<and> repeats_at_end (output_token_ids r) l (nat (min_count rp))))"

text \<open>
  \<open>check_stop\<close> never raises on a generating request and decides exactly this: once
  \<open>min_tokens\<close> tokens are generated, the request stops if its last token is the end-of-sequence
  or a stop token, a length limit is reached, or the output ends with a pattern repeated often
  enough. A stopped request has a finished status with a finish reason; any other request is
  unchanged.
\<close>

theorem check_stop_decision:
  assumes "req_pooling_params r = None" "req_sampling_params r = Some sp" "output_token_ids r \<noteq> []"
  shows "\<exists>b r'. check_stop r mml = Inr (b, r')
    \<and> (b \<longleftrightarrow> min_tokens sp \<le> num_output_tokens r \<and> stopping r sp mml)
    \<and> (if b then is_finished (status r') \<and> get_finished_reason (status r') \<noteq> None else r' = r)"
proof -
  from check_stop_returns [OF assms] obtain b r' where 1: "check_stop r mml = Inr (b, r')" by blast
  have "b \<longleftrightarrow> min_tokens sp \<le> num_output_tokens r \<and> stopping r sp mml"
  proof (cases "min_tokens sp \<le> num_output_tokens r")
    case True
    show ?thesis using 1 True unfolding check_stop_unfold [OF assms(1,2) True assms(3)] stopping_def
      by (auto simp: Let_def check_sequence_repetition_correct split: if_splits option.splits)
  next
    case False
    then show ?thesis using 1 assms by (simp add: check_stop_def)
  qed
  then show ?thesis using 1 check_stop_result [OF 1] by blast
qed

definition demo_generating :: request where
  "demo_generating = (demo_request ''g'' [1, 5, 7, 8, 7, 8] [] [])
     \<lparr>req_sampling_params := Some \<lparr>sp_max_tokens = Some 9, min_tokens = 1, eos_token_id = Some 2, stop_token_ids = [],
        repetition_detection = Some \<lparr>max_pattern_size = 2, min_pattern_size = 1, min_count = 2\<rparr>,
        sp_skip_reading_prefix_cache = None, structured_outputs = False\<rparr>,
      status := RUNNING, max_tokens := 9, num_prompt_tokens := 1, output_token_ids := [5, 7, 8, 7, 8]\<rparr>"

theorem check_stop_decision_witness:
  "\<exists>r'. check_stop demo_generating 100 = Inr (True, r') \<and> status r' = FINISHED_REPETITION"
proof -
  let ?sp = "the (req_sampling_params demo_generating)"
  have "output_token_ids demo_generating = [5] @ concat (replicate 2 [7, 8])" by (simp add: demo_generating_def demo_request_def numeral_2_eq_2)
  then have "repeats_at_end (output_token_ids demo_generating) 2 2" unfolding repeats_at_end_def
    by (intro exI [of _ "[5]"] exI [of _ "[7, 8]"]) simp
  then have "stopping demo_generating ?sp 100" "min_tokens ?sp \<le> num_output_tokens demo_generating"
    by (auto simp: stopping_def demo_generating_def demo_request_def num_output_tokens_def intro!: exI [of _ "2 :: nat"])
  moreover obtain b r' where "check_stop demo_generating 100 = Inr (b, r')"
    "b \<longleftrightarrow> min_tokens ?sp \<le> num_output_tokens demo_generating \<and> stopping demo_generating ?sp 100"
    using check_stop_decision [of demo_generating ?sp 100] by (auto simp: demo_generating_def demo_request_def)
  ultimately have b: "check_stop demo_generating 100 = Inr (True, r')" by simp
  then have "status r' = FINISHED_REPETITION"
    by (auto simp: check_stop_def demo_generating_def demo_request_def num_output_tokens_def num_tokens_def py_index_def
        bindE_eq_Inr split: if_splits)
  with b show ?thesis by blast
qed

text \<open>
  \<open>Request.__lt__\<close> is a strict total order on request objects: irreflexive, transitive,
  and two different objects are always ordered one way or the other, whatever their
  priorities, arrival times and ids.
\<close>

theorem request_order_total:
  "\<not> request_less a a \<and> (request_less a b \<and> request_less b c \<longrightarrow> request_less a c)
    \<and> (obj_id a \<noteq> obj_id b \<longrightarrow> request_less a b \<noteq> request_less b a)"
  using request_less_trans [of a b c] request_less_total [of a b] request_less_asym [of a b] by auto

theorem request_order_total_witness:
  "request_less (demo_generating\<lparr>priority := -1\<rparr>) (demo_generating\<lparr>obj_id := 1\<rparr>)
    \<and> \<not> request_less (demo_generating\<lparr>obj_id := 1\<rparr>) (demo_generating\<lparr>priority := -1\<rparr>)"
proof -
  have "request_less (demo_generating\<lparr>priority := -1\<rparr>) (demo_generating\<lparr>obj_id := 1\<rparr>)"
    by (simp add: request_less_def demo_generating_def demo_request_def)
  then show ?thesis
    using request_order_total [of "demo_generating\<lparr>priority := -1\<rparr>" "demo_generating\<lparr>obj_id := 1\<rparr>"]
    by (simp add: demo_generating_def demo_request_def)
qed

end
