(* ===== verification/Block_Hash.thy ===== *)
theory Block_Hash
  imports Request_Model
begin

text \<open>
  Block hashes of \<open>vllm/v1/core/kv_cache_utils.py\<close>: packing a hash with its group id, the
  extra keys of a block, the hash chain a request's hasher computes and the regrouping of
  hashes to a larger block size.

  Parameters for code outside the repository: \<open>H\<close> is the hash function chosen by the
  configuration (sha256 or xxhash of a serialised tuple), \<open>none_hash\<close> the value of
  \<open>NONE_HASH\<close>, and \<open>sha\<close> the digest of a slice of prompt embeddings.
\<close>

section \<open>Packing the group id\<close>

text \<open>Big-endian conversions of Python integers: \<open>int.to_bytes(n, "big", signed=False)\<close>.\<close>

fun be_bytes :: "nat \<Rightarrow> int \<Rightarrow> bytes" where
  "be_bytes 0 k = []"
| "be_bytes (Suc n) k = be_bytes n (k div 256) @ [word_of_int (k mod 256)]"

definition int_to_bytes :: "nat \<Rightarrow> int \<Rightarrow> bytes result" where
  "int_to_bytes n k = (if 0 \<le> k \<and> k < 256 ^ n then Inr (be_bytes n k) else Inl OverflowError)"

definition int_from_bytes :: "bytes \<Rightarrow> int" where
  "int_from_bytes bs = foldl (\<lambda>a b. a * 256 + uint b) 0 bs"

definition make_block_hash_with_group_id :: "bytes \<Rightarrow> int \<Rightarrow> bytes result" where
  "make_block_hash_with_group_id h gid = bindE (int_to_bytes 4 gid) (\<lambda>g. Inr (h @ g))"

definition get_block_hash :: "bytes \<Rightarrow> bytes" where
  "get_block_hash key = py_slice key 0 (-4)"

definition get_group_id :: "bytes \<Rightarrow> int" where
  "get_group_id key = int_from_bytes (py_from key (-4))"

datatype external_block_hash = EH_bytes bytes | EH_int int

text \<open>\<open>use_int\<close> is the environment variable \<open>VLLM_KV_EVENTS_USE_INT_BLOCK_HASHES\<close>.\<close>

definition maybe_convert_block_hash :: "bool \<Rightarrow> bytes \<Rightarrow> external_block_hash" where
  "maybe_convert_block_hash use_int h =
     (if \<not> use_int then EH_bytes h else EH_int (int_from_bytes h mod 2 ^ 64))"

section \<open>Extra keys\<close>

text \<open>The values that can occur in the tuple of extra keys: a string, a pair, bytes.\<close>

datatype extra_key = EK_str string | EK_pair string int | EK_bytes bytes

definition need_extra_keys :: "request \<Rightarrow> bool" where
  "need_extra_keys r \<longleftrightarrow> mm_features r \<noteq> [] \<or> lora_request r \<noteq> None \<or> cache_salt r \<noteq> None"

function mm_keys_loop :: "mm_feature list \<Rightarrow> int \<Rightarrow> int \<Rightarrow> nat \<Rightarrow> extra_key list \<Rightarrow> extra_key list \<times> int" where
  "mm_keys_loop mms start_idx end_idx cur keys =
     (if cur < length mms then
        (let f = mms ! cur; offset = pr_offset (mm_position f); len = pr_length (mm_position f)
         in if offset < end_idx then
              (if offset + len \<le> start_idx then mm_keys_loop mms start_idx end_idx (Suc cur) keys
               else let keys' = keys @ [EK_pair (mm_identifier f) (offset - start_idx)]
                    in if offset + len \<le> end_idx
                       then mm_keys_loop mms start_idx end_idx (Suc cur) keys'
                       else (keys', int cur))
            else (keys, int cur))
      else (keys, int cur))"
  by pat_completeness auto
termination
  by (relation "measure (\<lambda>(mms, _, _, cur, _). length mms - cur)") auto

declare mm_keys_loop.simps [simp del]

definition gen_mm_extra_hash_keys :: "request \<Rightarrow> int \<Rightarrow> int \<Rightarrow> int \<Rightarrow> (extra_key list \<times> int) result" where
  "gen_mm_extra_hash_keys r start_idx end_idx start_mm_idx =
     (let mms = mm_features r
      in if mms = [] then Inr ([], start_mm_idx)
         else let last_pos = mm_position (last mms)
              in if pr_offset last_pos + pr_length last_pos \<le> start_idx then Inr ([], start_mm_idx)
                 else bindE
                   (if start_mm_idx < 0
                    then bindE (guardE (- start_mm_idx \<le> int (length mms)) AssertionError)
                           (\<lambda>_. Inr (int (length mms) + start_mm_idx))
                    else Inr start_mm_idx)
                   (\<lambda>i. Inr (mm_keys_loop mms start_idx end_idx (nat i) [])))"

definition gen_lora_extra_hash_keys :: "request \<Rightarrow> extra_key list" where
  "gen_lora_extra_hash_keys r = (case lora_request r of None \<Rightarrow> [] | Some (name, _) \<Rightarrow> [EK_str name])"

definition gen_prompt_embeds_extra_hash_keys ::
  "(bytes list \<Rightarrow> bytes) \<Rightarrow> request \<Rightarrow> int \<Rightarrow> int \<Rightarrow> extra_key list \<times> request" where
  "gen_prompt_embeds_extra_hash_keys sha r start_idx end_idx =
     (case prompt_embeds r of
        None \<Rightarrow> ([], r)
      | Some es \<Rightarrow>
          (case dict_get (prompt_embeds_hashes r) (start_idx, end_idx) of
             Some h \<Rightarrow> ([EK_bytes h], r)
           | None \<Rightarrow>
               let h = sha (py_slice es start_idx end_idx)
               in ([EK_bytes h],
                   r\<lparr>prompt_embeds_hashes :=
                       dict_set (start_idx, end_idx) h (prompt_embeds_hashes r)\<rparr>)))"

definition generate_block_hash_extra_keys ::
  "(bytes list \<Rightarrow> bytes) \<Rightarrow> request \<Rightarrow> int \<Rightarrow> int \<Rightarrow> int
     \<Rightarrow> (extra_key list option \<times> int \<times> request) result" where
  "generate_block_hash_extra_keys sha r start_idx end_idx start_mm_idx =
     bindE (gen_mm_extra_hash_keys r start_idx end_idx start_mm_idx)
       (\<lambda>(mm_keys, new_idx).
          let lora_keys = gen_lora_extra_hash_keys r;
              salt_keys = (case cache_salt r of
                             None \<Rightarrow> []
                           | Some s \<Rightarrow> if start_idx = 0 \<and> s \<noteq> [] then [EK_str s] else []);
              (embed_keys, r') = gen_prompt_embeds_extra_hash_keys sha r start_idx end_idx;
              keys = lora_keys @ mm_keys @ salt_keys @ embed_keys
          in Inr (if keys = [] then None else Some keys, new_idx, r'))"

section \<open>Hashing blocks\<close>

type_synonym hash_input = "bytes \<times> int list \<times> extra_key list option"

definition hash_block_tokens ::
  "(hash_input \<Rightarrow> bytes) \<Rightarrow> bytes \<Rightarrow> bytes option \<Rightarrow> int list \<Rightarrow> extra_key list option \<Rightarrow> bytes" where
  "hash_block_tokens H none_hash parent toks keys =
     (let p = (case parent of None \<Rightarrow> none_hash | Some b \<Rightarrow> if b = [] then none_hash else b)
      in H (p, toks, keys))"

text \<open>
  The \<open>while True\<close> loop of the request's block hasher. It ends because each round advances by
  the block size; a block size of 0 would not end, so the result is an option.
\<close>

partial_function (option) block_hasher_loop ::
  "(bytes list \<Rightarrow> bytes) \<Rightarrow> (hash_input \<Rightarrow> bytes) \<Rightarrow> bytes \<Rightarrow> int \<Rightarrow> int \<Rightarrow> int \<Rightarrow> bytes option
     \<Rightarrow> bytes list \<Rightarrow> request \<Rightarrow> (bytes list \<times> request) result option" where
  "block_hasher_loop sha H none_hash block_size start_idx mm_idx prev acc r =
     (let end_idx = start_idx + block_size
      in if num_tokens r < end_idx then Some (Inr (acc, r))
         else case generate_block_hash_extra_keys sha r start_idx end_idx mm_idx of
                Inl e \<Rightarrow> Some (Inl e)
              | Inr (keys, mm_idx', r') \<Rightarrow>
                  let h = hash_block_tokens H none_hash prev
                            (py_slice (all_token_ids r') start_idx end_idx) keys
                  in block_hasher_loop sha H none_hash block_size (start_idx + block_size) mm_idx'
                       (Some h) (acc @ [h]) r')"

definition request_block_hasher ::
  "(bytes list \<Rightarrow> bytes) \<Rightarrow> (hash_input \<Rightarrow> bytes) \<Rightarrow> bytes \<Rightarrow> int \<Rightarrow> block_hasher" where
  "request_block_hasher sha H none_hash block_size r =
     (let start_idx = int (length (block_hashes r)) * block_size
      in if num_tokens r < start_idx + block_size then Some (Inr ([], r))
         else let mm_idx = (if 0 < start_idx then -1 else 0);
                  prev = (if block_hashes r \<noteq> [] then Some (last (block_hashes r)) else None)
              in block_hasher_loop sha H none_hash block_size start_idx mm_idx prev [] r)"

section \<open>Regrouping hashes to a larger block size\<close>

record block_hash_list =
  bhl_hashes :: "bytes list"
  scale_factor :: int

definition mk_block_hash_list :: "bytes list \<Rightarrow> int \<Rightarrow> int \<Rightarrow> block_hash_list result" where
  "mk_block_hash_list hs hash_bs target_bs =
     bindE (guardE (target_bs mod hash_bs = 0) AssertionError)
       (\<lambda>_. Inr \<lparr>bhl_hashes = hs, scale_factor = target_bs div hash_bs\<rparr>)"

definition bhl_len :: "block_hash_list \<Rightarrow> int" where
  "bhl_len l = int (length (bhl_hashes l)) div scale_factor l"

definition bhl_value_at :: "block_hash_list \<Rightarrow> int \<Rightarrow> bytes" where
  "bhl_value_at l idx =
     (let base = idx * scale_factor l; fin = base + scale_factor l
      in concat (py_slice (bhl_hashes l) base fin))"

definition bhl_slice :: "block_hash_list \<Rightarrow> int \<Rightarrow> int \<Rightarrow> bytes list" where
  "bhl_slice l start stop =
     (let n = nat (bhl_len l)
      in map (\<lambda>i. bhl_value_at l (int i)) [py_clip n start..<py_clip n stop])"

definition bhl_iter :: "block_hash_list \<Rightarrow> bytes list" where
  "bhl_iter l = map (\<lambda>i. bhl_value_at l (int i)) [0..<nat (bhl_len l)]"

section \<open>Packing and unpacking\<close>

lemma length_be_bytes [simp]: "length (be_bytes n k) = n"
  by (induction n arbitrary: k) simp_all

lemma int_from_bytes_snoc: "int_from_bytes (bs @ [b]) = int_from_bytes bs * 256 + uint b"
  by (simp add: int_from_bytes_def)

lemma int_from_be_bytes: "0 \<le> k \<Longrightarrow> k < 256 ^ n \<Longrightarrow> int_from_bytes (be_bytes n k) = k"
proof (induction n arbitrary: k)
  case (Suc n)
  have "uint (word_of_int (k mod 256) :: 8 word) = k mod 256"
    by (simp add: uint_word_of_int)
  moreover have "k div 256 < 256 ^ n"
    using Suc.prems by (simp add: div_less_iff_less_mult mult.commute)
  ultimately show ?case using Suc by (simp add: int_from_bytes_snoc)
qed (simp add: int_from_bytes_def)

lemma make_block_hash_roundtrip:
  assumes "make_block_hash_with_group_id h gid = Inr key"
  shows "get_block_hash key = h" "get_group_id key = gid" "key = h @ be_bytes 4 gid"
proof -
  from assms have k: "key = h @ be_bytes 4 gid" "0 \<le> gid" "gid < 256 ^ 4"
    by (auto simp: make_block_hash_with_group_id_def int_to_bytes_def split: if_splits)
  then show "key = h @ be_bytes 4 gid" by simp
  have "py_clip (length key) (-4) = length h" using k(1) by (simp add: py_clip_def)
  moreover have "py_clip (length key) 0 = 0" by (simp add: py_clip_def)
  ultimately show "get_block_hash key = h" "get_group_id key = gid"
    using k int_from_be_bytes [OF k(2,3)]
    by (simp_all add: get_block_hash_def get_group_id_def py_slice_def py_from_def)
qed

lemma make_block_hash_total:
  "0 \<le> gid \<Longrightarrow> gid < 2 ^ 32 \<Longrightarrow> \<exists>key. make_block_hash_with_group_id h gid = Inr key"
  by (simp add: make_block_hash_with_group_id_def int_to_bytes_def del: be_bytes.simps)

lemma make_block_hash_inj:
  assumes "make_block_hash_with_group_id h g = Inr key" "make_block_hash_with_group_id h' g' = Inr key"
  shows "h = h' \<and> g = g'"
  using make_block_hash_roundtrip(1,2) [OF assms(1)] make_block_hash_roundtrip(1,2) [OF assms(2)]
  by blast

section \<open>The multimodal keys of a block\<close>

text \<open>Items in prompt order, none overlapping the next.\<close>

definition mm_end :: "mm_feature \<Rightarrow> int" where
  "mm_end f = pr_offset (mm_position f) + pr_length (mm_position f)"

definition mm_sorted :: "mm_feature list \<Rightarrow> bool" where
  "mm_sorted mms \<longleftrightarrow> sorted_wrt (\<lambda>f g. mm_end f \<le> pr_offset (mm_position g)) mms
     \<and> (\<forall>f \<in> set mms. 0 \<le> pr_length (mm_position f))"

definition mm_overlaps :: "int \<Rightarrow> int \<Rightarrow> mm_feature \<Rightarrow> bool" where
  "mm_overlaps s e f \<longleftrightarrow> pr_offset (mm_position f) < e \<and> s < mm_end f"

definition mm_key :: "int \<Rightarrow> mm_feature \<Rightarrow> extra_key" where
  "mm_key s f = EK_pair (mm_identifier f) (pr_offset (mm_position f) - s)"

text \<open>The specification: the items that overlap the block, in order.\<close>

definition mm_block_keys :: "mm_feature list \<Rightarrow> int \<Rightarrow> int \<Rightarrow> extra_key list" where
  "mm_block_keys mms s e = map (mm_key s) (filter (mm_overlaps s e) mms)"

lemma filter_none: "(\<And>x. x \<in> set xs \<Longrightarrow> \<not> P x) \<Longrightarrow> filter P xs = []"
  by simp

lemma mm_sorted_drop: "mm_sorted mms \<Longrightarrow> mm_sorted (drop n mms)"
  by (auto simp: mm_sorted_def dest: in_set_dropD intro: sorted_wrt_drop)

lemma mm_sorted_Cons:
  "mm_sorted (f # fs) \<longleftrightarrow> 0 \<le> pr_length (mm_position f) \<and> mm_sorted fs
     \<and> (\<forall>g \<in> set fs. mm_end f \<le> pr_offset (mm_position g))"
  by (auto simp: mm_sorted_def)

lemma mm_keys_loop_spec:
  assumes "mm_sorted mms" "s \<le> e" "\<forall>f \<in> set (take cur mms). mm_end f \<le> e"
  shows "\<exists>c'. mm_keys_loop mms s e cur keys =
             (keys @ map (mm_key s) (filter (mm_overlaps s e) (drop cur mms)), int c')
           \<and> (\<forall>f \<in> set (take c' mms). mm_end f \<le> e)"
  using assms
proof (induction mms s e cur keys rule: mm_keys_loop.induct)
  case (1 mms s e cur keys)
  note taken = "1.prems"(3)
  show ?case
  proof (cases "cur < length mms")
    case False
    then show ?thesis using taken by (auto simp: mm_keys_loop.simps [of mms s e cur])
  next
    case cur: True
    define f where "f = mms ! cur"
    have d: "drop cur mms = f # drop (Suc cur) mms" and t: "take (Suc cur) mms = take cur mms @ [f]"
      using cur by (simp_all add: f_def Cons_nth_drop_Suc take_Suc_conv_app_nth)
    have sf: "0 \<le> pr_length (mm_position f)"
      "\<And>g. g \<in> set (drop (Suc cur) mms) \<Longrightarrow> mm_end f \<le> pr_offset (mm_position g)"
      using mm_sorted_drop [OF "1.prems"(1), of cur] unfolding d mm_sorted_Cons by auto
    note step = mm_keys_loop.simps [of mms s e cur keys, folded f_def, unfolded Let_def]
    consider (stop) "e \<le> pr_offset (mm_position f)"
      | (passed) "pr_offset (mm_position f) < e" "mm_end f \<le> s"
      | (inside) "pr_offset (mm_position f) < e" "s < mm_end f" "mm_end f \<le> e"
      | (last) "pr_offset (mm_position f) < e" "s < mm_end f" "e < mm_end f"
      by linarith
    then show ?thesis
    proof cases
      case stop
      have "filter (mm_overlaps s e) (drop cur mms) = []"
        unfolding d using stop sf by (intro filter_none) (force simp: mm_overlaps_def mm_end_def)
      then show ?thesis using stop cur taken by (auto simp: step)
    next
      case passed
      have "\<exists>c'. mm_keys_loop mms s e (Suc cur) keys =
             (keys @ map (mm_key s) (filter (mm_overlaps s e) (drop (Suc cur) mms)), int c')
           \<and> (\<forall>f \<in> set (take c' mms). mm_end f \<le> e)"
        using "1.IH"(1) [OF cur f_def refl refl] passed "1.prems" by (simp add: mm_end_def t)
      moreover have "\<not> mm_overlaps s e f" using passed by (simp add: mm_overlaps_def)
      moreover have "mm_keys_loop mms s e cur keys = mm_keys_loop mms s e (Suc cur) keys"
        using passed cur by (subst step) (simp add: mm_end_def)
      ultimately show ?thesis by (simp only: d filter.simps if_False)
    next
      case inside
      have "\<exists>c'. mm_keys_loop mms s e (Suc cur) (keys @ [mm_key s f]) =
             ((keys @ [mm_key s f]) @ map (mm_key s) (filter (mm_overlaps s e) (drop (Suc cur) mms)), int c')
           \<and> (\<forall>f \<in> set (take c' mms). mm_end f \<le> e)"
        using "1.IH"(2) [OF cur f_def refl refl] inside "1.prems"
        by (simp add: mm_end_def mm_key_def [abs_def] f_def [symmetric] t)
      moreover have "mm_overlaps s e f" using inside by (simp add: mm_overlaps_def)
      moreover have "mm_keys_loop mms s e cur keys = mm_keys_loop mms s e (Suc cur) (keys @ [mm_key s f])"
        using inside cur by (subst step) (simp add: mm_end_def mm_key_def)
      ultimately show ?thesis by (simp add: d)
    next
      case last
      have "filter (mm_overlaps s e) (drop (Suc cur) mms) = []"
        using last sf by (intro filter_none) (force simp: mm_overlaps_def)
      moreover have "mm_overlaps s e f" using last by (simp add: mm_overlaps_def)
      moreover have "mm_keys_loop mms s e cur keys = (keys @ [mm_key s f], int cur)"
        using last cur by (subst step) (simp add: mm_end_def mm_key_def)
      ultimately show ?thesis using taken by (auto simp: d)
    qed
  qed
qed

text \<open>
  The running index skips only items that ended before the block, so the loop computes the
  specification; and the index it returns is right for the next block.
\<close>

definition mm_index_ok :: "mm_feature list \<Rightarrow> int \<Rightarrow> int \<Rightarrow> bool" where
  "mm_index_ok mms s i \<longleftrightarrow>
     (0 \<le> i \<and> (\<forall>f \<in> set (take (nat i) mms). mm_end f \<le> s))
     \<or> (i = -1 \<and> (\<forall>f \<in> set (butlast mms). mm_end f \<le> s))"

lemma mm_sorted_last:
  assumes "mm_sorted mms" "f \<in> set mms" shows "mm_end f \<le> mm_end (last mms)"
  using assms
proof (induction mms)
  case (Cons g mms)
  show ?case
  proof (cases "mms = []")
    case True
    then show ?thesis using Cons.prems by simp
  next
    case False
    have srt: "mm_sorted mms" "\<forall>h \<in> set mms. mm_end g \<le> pr_offset (mm_position h)"
      and len: "\<forall>h \<in> set mms. 0 \<le> pr_length (mm_position h)"
      using Cons.prems(1) by (auto simp: mm_sorted_Cons mm_sorted_def)
    have lst: "last mms \<in> set mms" using False by simp
    show ?thesis
    proof (cases "f = g")
      case True
      have "mm_end g \<le> pr_offset (mm_position (last mms))" using srt(2) lst by blast
      moreover have "0 \<le> pr_length (mm_position (last mms))" using len lst by blast
      ultimately show ?thesis using True False by (simp add: mm_end_def)
    next
      case neq: False
      then show ?thesis using Cons.IH [OF srt(1)] Cons.prems(2) False by simp
    qed
  qed
qed simp

lemma mm_keys_from_index:
  assumes "mm_sorted mms" "s \<le> e" "\<forall>f \<in> set (take n mms). mm_end f \<le> s"
  shows "\<exists>c'. mm_keys_loop mms s e n [] = (mm_block_keys mms s e, int c')
           \<and> (\<forall>f \<in> set (take c' mms). mm_end f \<le> e)"
proof -
  have "\<forall>f \<in> set (take n mms). mm_end f \<le> e" using assms(2,3) by force
  note mm_keys_loop_spec [OF assms(1,2) this, of "[]"]
  moreover have "filter (mm_overlaps s e) (take n mms) = []"
    using assms(3) by (intro filter_none) (force simp: mm_overlaps_def)
  then have "filter (mm_overlaps s e) mms = filter (mm_overlaps s e) (drop n mms)"
    by (metis append_Nil append_take_drop_id filter_append)
  ultimately show ?thesis by (simp add: mm_block_keys_def)
qed

lemma gen_mm_keys_spec:
  assumes "mm_sorted (mm_features r)" "s \<le> e" "mm_index_ok (mm_features r) s i"
  shows "\<exists>i'. gen_mm_extra_hash_keys r s e i = Inr (mm_block_keys (mm_features r) s e, i')
           \<and> mm_index_ok (mm_features r) e i'"
proof -
  let ?mms = "mm_features r"
  have later: "mm_index_ok ?mms e i" using assms(2,3) unfolding mm_index_ok_def by force
  show ?thesis
  proof (cases "?mms \<noteq> [] \<and> s < mm_end (last ?mms)")
    case True
    define n where "n = (if i < 0 then length ?mms - 1 else nat i)"
    have n: "\<forall>f \<in> set (take n ?mms). mm_end f \<le> s"
      using assms(3) by (auto simp: mm_index_ok_def n_def butlast_conv_take)
    have "i < 0 \<Longrightarrow> i = -1" using assms(3) by (auto simp: mm_index_ok_def)
    then have "gen_mm_extra_hash_keys r s e i = Inr (mm_keys_loop ?mms s e n [])"
      using True
      by (auto simp: gen_mm_extra_hash_keys_def Let_def mm_end_def n_def nat_diff_distrib Suc_le_eq)
    moreover obtain c where "mm_keys_loop ?mms s e n [] = (mm_block_keys ?mms s e, int c)"
      "\<forall>f \<in> set (take c ?mms). mm_end f \<le> e"
      using mm_keys_from_index [OF assms(1,2) n] by blast
    ultimately show ?thesis by (auto simp: mm_index_ok_def)
  next
    case False
    then have "filter (mm_overlaps s e) ?mms = []"
      using mm_sorted_last [OF assms(1)] by (intro filter_none) (force simp: mm_overlaps_def)
    then show ?thesis
      using False later
      by (auto simp: gen_mm_extra_hash_keys_def Let_def mm_end_def mm_block_keys_def)
  qed
qed

section \<open>The hash chain\<close>

text \<open>
  Reference: the blocks' inputs, each hashed with the hash of the block before it.
\<close>

type_synonym block_input = "int list \<times> extra_key list option"

fun hash_chain :: "(hash_input \<Rightarrow> bytes) \<Rightarrow> bytes \<Rightarrow> bytes option \<Rightarrow> block_input list \<Rightarrow> bytes list" where
  "hash_chain H none_hash prev [] = []"
| "hash_chain H none_hash prev ((toks, keys) # xs) =
     (let h = hash_block_tokens H none_hash prev toks keys in h # hash_chain H none_hash (Some h) xs)"

definition embed_keys_of :: "(bytes list \<Rightarrow> bytes) \<Rightarrow> request \<Rightarrow> int \<Rightarrow> int \<Rightarrow> extra_key list" where
  "embed_keys_of sha r s e =
     (case prompt_embeds r of None \<Rightarrow> [] | Some es \<Rightarrow> [EK_bytes (sha (py_slice es s e))])"

text \<open>Everything that the hash of the block \<open>[s, e)\<close> has to depend on.\<close>

definition block_input :: "(bytes list \<Rightarrow> bytes) \<Rightarrow> request \<Rightarrow> int \<Rightarrow> int \<Rightarrow> block_input" where
  "block_input sha r s e =
     (let keys = gen_lora_extra_hash_keys r @ mm_block_keys (mm_features r) s e
            @ (case cache_salt r of None \<Rightarrow> [] | Some x \<Rightarrow> if s = 0 \<and> x \<noteq> [] then [EK_str x] else [])
            @ embed_keys_of sha r s e
      in (py_slice (all_token_ids r) s e, if keys = [] then None else Some keys))"

definition block_inputs :: "(bytes list \<Rightarrow> bytes) \<Rightarrow> request \<Rightarrow> int \<Rightarrow> nat \<Rightarrow> nat \<Rightarrow> block_input list" where
  "block_inputs sha r bs i j = map (\<lambda>k. block_input sha r (int k * bs) (int (Suc k) * bs)) [i..<j]"

text \<open>The digests remembered for prompt embeddings are the right ones.\<close>

definition embeds_memo_ok :: "(bytes list \<Rightarrow> bytes) \<Rightarrow> request \<Rightarrow> bool" where
  "embeds_memo_ok sha r \<longleftrightarrow>
     (\<forall>es s e h. prompt_embeds r = Some es \<longrightarrow> dict_get (prompt_embeds_hashes r) (s, e) = Some h
        \<longrightarrow> h = sha (py_slice es s e))"

lemma embeds_memo_okD:
  "embeds_memo_ok sha r \<Longrightarrow> prompt_embeds r = Some es \<Longrightarrow>
   dict_get (prompt_embeds_hashes r) (s, e) = Some h \<Longrightarrow> h = sha (py_slice es s e)"
  unfolding embeds_memo_ok_def by blast

lemma gen_prompt_embeds_spec:
  assumes "embeds_memo_ok sha r"
  shows "\<exists>d. gen_prompt_embeds_extra_hash_keys sha r s e =
           (embed_keys_of sha r s e, r\<lparr>prompt_embeds_hashes := d\<rparr>)
         \<and> embeds_memo_ok sha (r\<lparr>prompt_embeds_hashes := d\<rparr>)"
proof (cases "prompt_embeds r")
  case None
  then show ?thesis using assms
    by (intro exI [of _ "prompt_embeds_hashes r"])
       (simp add: gen_prompt_embeds_extra_hash_keys_def embed_keys_of_def)
next
  case (Some es)
  show ?thesis
  proof (cases "dict_get (prompt_embeds_hashes r) (s, e)")
    case None
    then show ?thesis using assms Some
      by (intro exI [of _ "dict_set (s, e) (sha (py_slice es s e)) (prompt_embeds_hashes r)"])
         (auto simp: gen_prompt_embeds_extra_hash_keys_def embed_keys_of_def Let_def embeds_memo_ok_def
           simp del: dict_get_eq_None)
  next
    case h: (Some h)
    then show ?thesis using assms Some embeds_memo_okD [OF assms Some h]
      by (intro exI [of _ "prompt_embeds_hashes r"])
         (simp add: gen_prompt_embeds_extra_hash_keys_def embed_keys_of_def)
  qed
qed

lemma generate_keys_spec:
  assumes "mm_sorted (mm_features r)" "s \<le> e" "mm_index_ok (mm_features r) s i" "embeds_memo_ok sha r"
  shows "\<exists>i' d. generate_block_hash_extra_keys sha r s e i =
             Inr (snd (block_input sha r s e), i', r\<lparr>prompt_embeds_hashes := d\<rparr>)
           \<and> mm_index_ok (mm_features r) e i' \<and> embeds_memo_ok sha (r\<lparr>prompt_embeds_hashes := d\<rparr>)"
proof -
  obtain i' where "gen_mm_extra_hash_keys r s e i = Inr (mm_block_keys (mm_features r) s e, i')"
    "mm_index_ok (mm_features r) e i'"
    using gen_mm_keys_spec [OF assms(1-3)] by blast
  moreover obtain d where "gen_prompt_embeds_extra_hash_keys sha r s e =
           (embed_keys_of sha r s e, r\<lparr>prompt_embeds_hashes := d\<rparr>)"
         "embeds_memo_ok sha (r\<lparr>prompt_embeds_hashes := d\<rparr>)"
    using gen_prompt_embeds_spec [OF assms(4)] by blast
  ultimately show ?thesis
    by (simp add: generate_block_hash_extra_keys_def block_input_def Let_def) blast
qed

lemma block_input_memo [simp]:
  "block_input sha (r\<lparr>prompt_embeds_hashes := d\<rparr>) s e = block_input sha r s e"
  by (simp add: block_input_def embed_keys_of_def gen_lora_extra_hash_keys_def)

lemma block_inputs_memo [simp]:
  "block_inputs sha (r\<lparr>prompt_embeds_hashes := d\<rparr>) bs i j = block_inputs sha r bs i j"
  by (simp add: block_inputs_def)

lemma block_inputs_step: "i < j \<Longrightarrow> block_inputs sha r bs i j =
    block_input sha r (int i * bs) (int (Suc i) * bs) # block_inputs sha r bs (Suc i) j"
  by (simp add: block_inputs_def upt_conv_Cons)

lemma block_inputs_empty: "j \<le> i \<Longrightarrow> block_inputs sha r bs i j = []"
  by (simp add: block_inputs_def)

lemma fst_block_input: "fst (block_input sha r s e) = py_slice (all_token_ids r) s e"
  by (simp add: block_input_def Let_def)

text \<open>The number of full blocks.\<close>

abbreviation full_blocks :: "request \<Rightarrow> int \<Rightarrow> nat" where
  "full_blocks r bs \<equiv> nat (num_tokens r div bs)"

lemma full_blocks_less_iff: "0 < bs \<Longrightarrow> i < full_blocks r bs \<longleftrightarrow> int (Suc i) * bs \<le> num_tokens r"
  using int_le_div_iff [of bs "int (Suc i)" "num_tokens r"] by linarith

text \<open>The hasher's loop returns, and it returns the chain of the remaining full blocks.\<close>

lemma block_hasher_loop_spec:
  assumes bs: "0 < bs" and "mm_sorted (mm_features r)" "embeds_memo_ok sha r"
    "mm_index_ok (mm_features r) (int i * bs) mi"
  shows "\<exists>d. block_hasher_loop sha H nh bs (int i * bs) mi prev acc r =
      Some (Inr (acc @ hash_chain H nh prev (block_inputs sha r bs i (full_blocks r bs)),
                 r\<lparr>prompt_embeds_hashes := d\<rparr>))
    \<and> embeds_memo_ok sha (r\<lparr>prompt_embeds_hashes := d\<rparr>)"
  using assms(2-)
proof (induction "full_blocks r bs - i" arbitrary: i mi prev acc r)
  case 0
  then have "num_tokens r < int i * bs + bs"
    using full_blocks_less_iff [OF bs, of i r] by (simp add: algebra_simps)
  then show ?case using 0
    by (intro exI [of _ "prompt_embeds_hashes r"])
       (simp add: block_hasher_loop.simps block_inputs_empty)
next
  case (Suc n)
  have lt: "i < full_blocks r bs" using Suc.hyps(2) by linarith
  then have go: "\<not> num_tokens r < int i * bs + bs"
    using full_blocks_less_iff [OF bs, of i r] by (simp add: algebra_simps)
  have e: "int i * bs + bs = int (Suc i) * bs" by (simp add: algebra_simps)
  let ?s = "int i * bs" and ?e = "int (Suc i) * bs"
  have "?s \<le> ?e" using bs by simp
  from generate_keys_spec [OF Suc.prems(1) this Suc.prems(3,2)]
  obtain mi' d where g: "generate_block_hash_extra_keys sha r ?s ?e mi =
             Inr (snd (block_input sha r ?s ?e), mi', r\<lparr>prompt_embeds_hashes := d\<rparr>)"
    "mm_index_ok (mm_features r) ?e mi'" "embeds_memo_ok sha (r\<lparr>prompt_embeds_hashes := d\<rparr>)"
    by blast
  let ?r = "r\<lparr>prompt_embeds_hashes := d\<rparr>"
  let ?h = "hash_block_tokens H nh prev (py_slice (all_token_ids r) ?s ?e) (snd (block_input sha r ?s ?e))"
  have nt: "num_tokens ?r = num_tokens r" by (simp add: num_tokens_def)
  have step: "block_hasher_loop sha H nh bs ?s mi prev acc r =
      block_hasher_loop sha H nh bs ?e mi' (Some ?h) (acc @ [?h]) ?r"
    using go g(1) by (subst block_hasher_loop.simps) (simp add: Let_def e)
  have "n = full_blocks ?r bs - Suc i" using Suc.hyps(2) nt by simp
  from Suc.hyps(1) [OF this, of mi' "Some ?h" "acc @ [?h]"] Suc.prems(1) g(2,3)
  obtain d' where
    "block_hasher_loop sha H nh bs ?e mi' (Some ?h) (acc @ [?h]) ?r =
      Some (Inr ((acc @ [?h]) @ hash_chain H nh (Some ?h) (block_inputs sha ?r bs (Suc i) (full_blocks ?r bs)),
                 ?r\<lparr>prompt_embeds_hashes := d'\<rparr>))"
    "embeds_memo_ok sha (?r\<lparr>prompt_embeds_hashes := d'\<rparr>)" by auto
  moreover have "hash_chain H nh prev (block_inputs sha r bs i (full_blocks r bs)) =
      ?h # hash_chain H nh (Some ?h) (block_inputs sha r bs (Suc i) (full_blocks r bs))"
    using fst_block_input [of sha r ?s ?e] unfolding block_inputs_step [OF lt]
    by (cases "block_input sha r ?s ?e") (simp add: Let_def)
  ultimately show ?case unfolding step by (auto simp: nt)
qed

text \<open>
  The hasher continues the chain of the blocks hashed so far, provided the multimodal items of
  the remaining blocks are at most the last one (\<open>start_mm_idx = -1\<close> looks at no other).
\<close>

lemma request_block_hasher_spec:
  assumes bs: "0 < bs" and srt: "mm_sorted (mm_features r)" and memo: "embeds_memo_ok sha r"
    and idx: "block_hashes r = [] \<or>
      mm_index_ok (mm_features r) (int (length (block_hashes r)) * bs) (-1)"
  shows "\<exists>d. request_block_hasher sha H nh bs r =
      Some (Inr (hash_chain H nh (if block_hashes r = [] then None else Some (last (block_hashes r)))
                   (block_inputs sha r bs (length (block_hashes r)) (full_blocks r bs)),
                 r\<lparr>prompt_embeds_hashes := d\<rparr>))
    \<and> embeds_memo_ok sha (r\<lparr>prompt_embeds_hashes := d\<rparr>)"
proof (cases "num_tokens r < int (length (block_hashes r)) * bs + bs")
  case True
  then have "full_blocks r bs \<le> length (block_hashes r)"
    using full_blocks_less_iff [OF bs, of "length (block_hashes r)" r]
    by (simp add: algebra_simps)
  then show ?thesis using True memo
    by (intro exI [of _ "prompt_embeds_hashes r"])
       (simp add: request_block_hasher_def block_inputs_empty)
next
  case False
  let ?i = "length (block_hashes r)"
  have pos: "0 < int ?i * bs \<longleftrightarrow> block_hashes r \<noteq> []"
    using bs by (cases "block_hashes r") auto
  define mi :: int where "mi = (if 0 < int ?i * bs then -1 else 0)"
  have mi: "mm_index_ok (mm_features r) (int ?i * bs) mi"
    using idx pos by (auto simp: mi_def mm_index_ok_def)
  define prev where "prev = (if block_hashes r = [] then None else Some (last (block_hashes r)))"
  have "request_block_hasher sha H nh bs r = block_hasher_loop sha H nh bs (int ?i * bs) mi prev [] r"
    using False by (simp add: request_block_hasher_def Let_def mi_def prev_def)
  then show ?thesis
    using block_hasher_loop_spec [OF bs srt memo mi, of H nh prev "[]"]
    by (simp add: prev_def [symmetric])
qed

section \<open>Equal hashes mean equal prefixes\<close>

lemma length_hash_chain [simp]: "length (hash_chain H nh p xs) = length xs"
  by (induction H nh p xs rule: hash_chain.induct) (simp_all add: Let_def)

lemma hash_chain_take: "take n (hash_chain H nh p xs) = hash_chain H nh p (take n xs)"
proof (induction H nh p xs arbitrary: n rule: hash_chain.induct)
  case (2 H nh prev toks keys xs)
  then show ?case by (cases n) (simp_all add: Let_def)
qed simp









section \<open>Regrouped hashes\<close>

lemma bhl_value_at_nth:
  assumes "0 < scale_factor l" "int i < bhl_len l"
  shows "bhl_value_at l (int i) =
    concat (take (nat (scale_factor l)) (drop (i * nat (scale_factor l)) (bhl_hashes l)))"
proof -
  obtain m where m: "scale_factor l = int m" using assms(1) by (metis zero_less_imp_eq_int)
  have "nat (int i * int m) = i * m" "nat (int i * int m + int m) = i * m + m"
    by (simp_all only: nat_int flip: of_nat_mult of_nat_add)
  then show ?thesis by (simp add: bhl_value_at_def Let_def py_slice_nonneg m)
qed

lemma length_bhl_iter [simp]: "length (bhl_iter l) = nat (bhl_len l)"
  by (simp add: bhl_iter_def)

lemma bhl_slice_iter: "bhl_slice l i j = py_slice (bhl_iter l) i j"
proof -
  define n a b where "n = nat (bhl_len l)" and "a = py_clip n i" and "b = py_clip n j"
  have "b \<le> n" by (auto simp: b_def py_clip_def)
  then have "[a..<b] = take (b - a) (drop a [0..<n])"
    by (cases "a \<le> b") (auto simp: drop_upt)
  then show ?thesis
    by (simp add: bhl_slice_def py_slice_def Let_def bhl_iter_def drop_map take_map
        flip: n_def a_def b_def)
qed

lemma concat_eq_same_length:
  assumes "length xs = length ys" "\<forall>x \<in> set xs. length x = n" "\<forall>y \<in> set ys. length y = n"
    "concat xs = concat ys"
  shows "xs = ys"
  using assms by (induction xs ys rule: list_induct2) auto

text \<open>With digests of one length, equal merged hashes have equal parts.\<close>

lemma bhl_value_inj:
  assumes "scale_factor l = scale_factor l'" "0 < scale_factor l"
    and "int i < bhl_len l" "int j < bhl_len l'"
    and "\<forall>h \<in> set (bhl_hashes l) \<union> set (bhl_hashes l'). length h = n"
    and "bhl_value_at l (int i) = bhl_value_at l' (int j)"
  shows "take (nat (scale_factor l)) (drop (i * nat (scale_factor l)) (bhl_hashes l)) =
         take (nat (scale_factor l)) (drop (j * nat (scale_factor l)) (bhl_hashes l'))"
proof -
  define s where "s = nat (scale_factor l)"
  have s: "scale_factor l = int s" "0 < s" using assms(2) by (simp_all add: s_def)
  have room: "i * s + s \<le> length (bhl_hashes k)" if "int i < bhl_len k" "scale_factor k = int s" for i k
  proof -
    have "int (i + 1) \<le> int (length (bhl_hashes k)) div int s" using that by (simp add: bhl_len_def)
    then have "int (i + 1) * int s \<le> int (length (bhl_hashes k))"
      using int_le_div_iff [of "int s"] s(2) by simp
    then show ?thesis by (simp add: algebra_simps flip: of_nat_mult of_nat_add)
  qed
  have "length (take s (drop (i * s) (bhl_hashes l))) = s"
       "length (take s (drop (j * s) (bhl_hashes l'))) = s"
    using room [of i l] room [of j l'] assms(1,3,4) s by auto
  moreover have "concat (take s (drop (i * s) (bhl_hashes l))) = concat (take s (drop (j * s) (bhl_hashes l')))"
    using assms bhl_value_at_nth [of l i] bhl_value_at_nth [of l' j] by (simp add: s_def)
  ultimately show ?thesis
    unfolding s_def [symmetric] using assms(5)
    by (intro concat_eq_same_length [of _ _ n]) (auto dest: in_set_takeD in_set_dropD)
qed

section \<open>Two concrete requests\<close>

text \<open>
  A prompt of seven tokens whose tokens 4 and 5..6 are two multimodal items; the eighth token,
  generated, completes the second block. The first block's hash is there already.
\<close>

definition late_block_request :: "string \<Rightarrow> bytes \<Rightarrow> request" where
  "late_block_request ident h =
     demo_request ''r'' [1, 2, 3, 4, 9, 9, 9, 5] [demo_mm ident 4 1, demo_mm ''second'' 5 2] [h]"

lemma late_block_hasher:
  "request_block_hasher sha H nh 4 (late_block_request ident h) =
     Some (Inr ([H ((if h = [] then nh else h), [9, 9, 9, 5], Some [EK_pair ''second'' 1])],
                late_block_request ident h))"
  by (simp add: request_block_hasher_def late_block_request_def demo_request_def num_tokens_def Let_def
      demo_mm_def hash_block_tokens_def
      block_hasher_loop.simps [of sha H nh 4 4] block_hasher_loop.simps [of sha H nh 4 8]
      generate_block_hash_extra_keys_def gen_mm_extra_hash_keys_def gen_lora_extra_hash_keys_def
      gen_prompt_embeds_extra_hash_keys_def mm_keys_loop.simps py_slice_def py_clip_def)

lemma late_block_input:
  "snd (block_input sha (late_block_request ident h) 4 8) =
     Some [EK_pair ident 0, EK_pair ''second'' 1]"
  by (simp add: block_input_def late_block_request_def demo_request_def demo_mm_def Let_def
      gen_lora_extra_hash_keys_def embed_keys_of_def mm_block_keys_def mm_overlaps_def mm_key_def mm_end_def)

section \<open>Hashes of a growing request\<close>

lemma hash_chain_append:
  "hash_chain H nh p (xs @ ys) = hash_chain H nh p xs
     @ hash_chain H nh (if xs = [] then p else Some (last (hash_chain H nh p xs))) ys"
proof (induction H nh p xs rule: hash_chain.induct)
  case (2 H nh prev toks keys xs)
  then show ?case by (cases xs) (auto simp: Let_def)
qed simp

lemma block_inputs_append: "i \<le> j \<Longrightarrow> j \<le> k \<Longrightarrow>
    block_inputs sha r bs i k = block_inputs sha r bs i j @ block_inputs sha r bs j k"
  using upt_add_eq_append [of i j "k - j"] by (simp add: block_inputs_def)

lemma py_slice_append:
  "0 \<le> s \<Longrightarrow> 0 \<le> e \<Longrightarrow> e \<le> int (length xs) \<Longrightarrow> py_slice (xs @ ys) s e = py_slice xs s e"
  by (simp add: py_slice_nonneg)

lemma block_inputs_grow:
  assumes "0 < bs" "k \<le> full_blocks r bs"
  shows "block_inputs sha (r\<lparr>output_token_ids := os, all_token_ids := all_token_ids r @ toks\<rparr>) bs 0 k = block_inputs sha r bs 0 k"
proof -
  have "int (Suc i) * bs \<le> int (length (all_token_ids r))" if "i < k" for i
    using full_blocks_less_iff [OF assms(1), of i r] that assms(2) by (simp add: num_tokens_def)
  moreover have "0 \<le> int i * bs" "0 \<le> int (Suc i) * bs" for i using assms(1) by simp_all
  ultimately show ?thesis
    unfolding block_inputs_def
    by (intro map_cong refl) (simp add: block_input_def Let_def py_slice_append embed_keys_of_def gen_lora_extra_hash_keys_def)
qed

text \<open>The hashes of a request are those of all its full blocks.\<close>

definition hashes_current :: "(bytes list \<Rightarrow> bytes) \<Rightarrow> (hash_input \<Rightarrow> bytes) \<Rightarrow> bytes \<Rightarrow> int \<Rightarrow> request \<Rightarrow> bool" where
  "hashes_current sha H nh bs r \<longleftrightarrow>
     block_hashes r = hash_chain H nh None (block_inputs sha r bs 0 (full_blocks r bs))"

lemma update_block_hashes_current:
  assumes bs: "0 < bs" and srt: "mm_sorted (mm_features r)" and memo: "embeds_memo_ok sha r"
    and k: "k \<le> full_blocks r bs" "block_hashes r = hash_chain H nh None (block_inputs sha r bs 0 k)"
    and idx: "k = 0 \<or> mm_index_ok (mm_features r) (int k * bs) (-1)"
  shows "\<exists>r'. update_block_hashes (Some (request_block_hasher sha H nh bs)) r = Some (Inr r')
    \<and> hashes_current sha H nh bs r' \<and> embeds_memo_ok sha r'
    \<and> (\<exists>d hs. r' = r\<lparr>prompt_embeds_hashes := d, block_hashes := hs\<rparr>)"
proof -
  have len: "length (block_hashes r) = k" using k(2) by (simp add: block_inputs_def)
  then have "block_hashes r = [] \<or> mm_index_ok (mm_features r) (int (length (block_hashes r)) * bs) (-1)"
    using idx by auto
  from request_block_hasher_spec [OF bs srt memo this, of H nh] obtain d where d:
    "request_block_hasher sha H nh bs r = Some (Inr (hash_chain H nh (if block_hashes r = [] then None else Some (last (block_hashes r)))
        (block_inputs sha r bs k (full_blocks r bs)), r\<lparr>prompt_embeds_hashes := d\<rparr>))"
    "embeds_memo_ok sha (r\<lparr>prompt_embeds_hashes := d\<rparr>)" by (auto simp: len)
  let ?r' = "r\<lparr>prompt_embeds_hashes := d, block_hashes := hash_chain H nh None (block_inputs sha r bs 0 (full_blocks r bs))\<rparr>"
  have ne: "block_inputs sha r bs 0 k = [] \<longleftrightarrow> block_hashes r = []" using len by (auto simp: block_inputs_def)
  have "hash_chain H nh None (block_inputs sha r bs 0 (full_blocks r bs)) =
      block_hashes r @ hash_chain H nh (if block_hashes r = [] then None else Some (last (block_hashes r)))
        (block_inputs sha r bs k (full_blocks r bs))"
    unfolding block_inputs_append [OF le0 k(1)] hash_chain_append ne k(2) [symmetric] by simp
  then have "update_block_hashes (Some (request_block_hasher sha H nh bs)) r = Some (Inr ?r')"
    using d(1) by (simp add: update_block_hashes_def)
  moreover have "block_inputs sha ?r' bs 0 n = block_inputs sha r bs 0 n" for n
    by (simp add: block_inputs_def block_input_def embed_keys_of_def gen_lora_extra_hash_keys_def)
  moreover have "full_blocks ?r' bs = full_blocks r bs" by (simp add: num_tokens_def)
  ultimately show ?thesis using d(2) by (auto simp: hashes_current_def embeds_memo_ok_def)
qed

section \<open>Properties\<close>

text \<open>
  Packing a group id behind a block hash and unpacking it is the identity for every hash and
  every id of 32 bits; any other id raises \<open>OverflowError\<close> and is not truncated.
\<close>

theorem block_key_roundtrip:
  "if 0 \<le> gid \<and> gid < 2 ^ 32
   then \<exists>key. make_block_hash_with_group_id h gid = Inr key \<and> get_block_hash key = h \<and> get_group_id key = gid
   else make_block_hash_with_group_id h gid = Inl OverflowError"
proof (cases "0 \<le> gid \<and> gid < 2 ^ 32")
  case True
  then obtain key where "make_block_hash_with_group_id h gid = Inr key" using make_block_hash_total by blast
  then show ?thesis using True make_block_hash_roundtrip(1,2) by auto
qed (auto simp: make_block_hash_with_group_id_def int_to_bytes_def)

text \<open>
  C30. When a request grows by generated tokens, hashing only the new full blocks returns, and
  leaves the request with the hashes that hashing the whole sequence from the start gives. (Of
  the multimodal items only the last may reach into blocks not hashed before.)
\<close>

theorem incremental_hashing:
  assumes "0 < bs" "mm_sorted (mm_features r)" "embeds_memo_ok sha r" "hashes_current sha H nh bs r"
    and "\<forall>f \<in> set (butlast (mm_features r)). mm_end f \<le> int (full_blocks r bs) * bs"
  shows "\<exists>r'. append_output_token_ids (Some (request_block_hasher sha H nh bs)) toks r = Some (Inr r')
    \<and> all_token_ids r' = all_token_ids r @ toks \<and> hashes_current sha H nh bs r'"
proof -
  define r1 where "r1 = r\<lparr>output_token_ids := output_token_ids r @ toks, all_token_ids := all_token_ids r @ toks\<rparr>"
  have "num_tokens r \<le> num_tokens r1" by (simp add: num_tokens_def r1_def)
  then have k: "full_blocks r bs \<le> full_blocks r1 bs" using assms(1) by (simp add: nat_mono zdiv_mono1)
  have "block_hashes r1 = hash_chain H nh None (block_inputs sha r1 bs 0 (full_blocks r bs))"
    unfolding r1_def block_inputs_grow [OF assms(1) le_refl] using assms(4) by (simp add: hashes_current_def)
  from update_block_hashes_current [OF assms(1) _ _ k this]
  obtain r' where "update_block_hashes (Some (request_block_hasher sha H nh bs)) r1 = Some (Inr r')"
    "hashes_current sha H nh bs r'" "all_token_ids r' = all_token_ids r1"
    using assms(2,3,5) by (fastforce simp: r1_def mm_index_ok_def embeds_memo_ok_def)
  then show ?thesis by (auto simp: append_output_token_ids_def r1_def)
qed

definition demo_hash :: "hash_input \<Rightarrow> bytes" where
  "demo_hash = (\<lambda>(p, toks, keys). p @ map word_of_int toks)"

theorem incremental_hashing_witness:
  "\<exists>r'. append_output_token_ids (Some (request_block_hasher concat demo_hash [0] 2)) [5, 6]
      (demo_request ''a'' [1, 2, 3] [] [[0, 1, 2]]) = Some (Inr r')
    \<and> all_token_ids r' = [1, 2, 3, 5, 6] \<and> block_hashes r' = [[0, 1, 2], [0, 1, 2, 3, 5]]"
proof -
  let ?r = "demo_request ''a'' [1, 2, 3] [] [[0, 1, 2]]"
  have b: "block_inputs concat r 2 0 n = map (\<lambda>k. block_input concat r (int k * 2) (int (Suc k) * 2)) [0..<n]" for r n
    by (simp add: block_inputs_def)
  have "hashes_current concat demo_hash [0] 2 ?r"
    by (simp add: hashes_current_def b num_tokens_def demo_request_def block_input_def Let_def py_slice_nonneg
        gen_lora_extra_hash_keys_def embed_keys_of_def mm_block_keys_def hash_block_tokens_def demo_hash_def)
  then obtain r' where r': "append_output_token_ids (Some (request_block_hasher concat demo_hash [0] 2)) [5, 6] ?r = Some (Inr r')"
    "all_token_ids r' = [1, 2, 3, 5, 6]" "hashes_current concat demo_hash [0] 2 r'"
    using incremental_hashing [of 2 ?r concat demo_hash "[0]" "[5, 6]"]
    by (auto simp: demo_request_def mm_sorted_def embeds_memo_ok_def)
  have "block_hashes r' = [[0, 1, 2], [0, 1, 2, 3, 5]]"
    using r'(1) by (auto simp: append_output_token_ids_def update_block_hashes_def request_block_hasher_def demo_request_def
        num_tokens_def Let_def block_hasher_loop.simps [of _ _ _ 2 2] block_hasher_loop.simps [of _ _ _ 2 4]
        generate_block_hash_extra_keys_def gen_mm_extra_hash_keys_def gen_lora_extra_hash_keys_def
        gen_prompt_embeds_extra_hash_keys_def py_slice_nonneg hash_block_tokens_def demo_hash_def)
  then show ?thesis using r'(1,2) by blast
qed




text \<open>
  C31. A block completed by generated tokens is keyed by the last multimodal item only: two
  requests that differ in the first of two items of such a block get the same block hash,
  although their block inputs differ. With an injective hash function the cached block of one
  is taken for the other.
\<close>

theorem late_block_collision:
  "map_option (map_sum id fst) (request_block_hasher sha H nh 4 (late_block_request ''cat'' h))
     = map_option (map_sum id fst) (request_block_hasher sha H nh 4 (late_block_request ''dog'' h))
   \<and> block_input sha (late_block_request ''cat'' h) 4 8 \<noteq> block_input sha (late_block_request ''dog'' h) 4 8"
proof -
  have "snd (block_input sha (late_block_request ''cat'' h) 4 8) \<noteq> snd (block_input sha (late_block_request ''dog'' h) 4 8)"
    unfolding late_block_input by simp
  then show ?thesis unfolding late_block_hasher by auto
qed

text \<open>
  Hashes regrouped to a larger block size: slicing the view is slicing the list of its
  values, and two views with hashes of one length agree at a position only if all the hashes
  that make up the two blocks agree.
\<close>

theorem regrouped_hashes:
  assumes "scale_factor l = scale_factor l'" "0 < scale_factor l"
    and "int i < bhl_len l" "int j < bhl_len l'"
    and "\<forall>h \<in> set (bhl_hashes l) \<union> set (bhl_hashes l'). length h = n"
  shows "bhl_slice l a b = py_slice (bhl_iter l) a b
    \<and> (bhl_value_at l (int i) = bhl_value_at l' (int j) \<longleftrightarrow>
         take (nat (scale_factor l)) (drop (i * nat (scale_factor l)) (bhl_hashes l)) =
         take (nat (scale_factor l)) (drop (j * nat (scale_factor l)) (bhl_hashes l')))"
  using bhl_value_inj [OF assms] bhl_slice_iter bhl_value_at_nth [OF assms(2,3)]
    bhl_value_at_nth [of l' j] assms(1,2,4) by auto

theorem regrouped_hashes_witness:
  "bhl_value_at \<lparr>bhl_hashes = [[1], [2], [3], [4]], scale_factor = 2\<rparr> 0
     \<noteq> bhl_value_at \<lparr>bhl_hashes = [[1], [2], [3], [4]], scale_factor = 2\<rparr> 1"
  using regrouped_hashes [of "\<lparr>bhl_hashes = [[1], [2], [3], [4]], scale_factor = 2\<rparr>"
      "\<lparr>bhl_hashes = [[1], [2], [3], [4]], scale_factor = 2\<rparr>" 0 1 1]
  by (simp add: bhl_len_def)

end
