(* ===== verification/Block_Pool.thy ===== *)
theory Block_Pool
  imports Complex_Main Block_Hash
begin

text \<open>
  \<open>vllm/v1/core/block_pool.py\<close>: the map from block hashes to cached blocks
  (\<open>BlockHashToBlockMap\<close>) and the pool that hands out, shares, frees, caches and evicts
  blocks (\<open>BlockPool\<close>).

  The list \<open>self.blocks\<close> is \<open>map Blk [0..<num_gpu_blocks]\<close>; the objects live in the heap
  of the free queue. The metrics collector (observability) is left out. The extra keys that
  events carry are computed with \<open>generate_block_hash_extra_keys\<close>; the digests that call
  remembers in the request are threaded through the loop and then dropped, since they are a
  memo of a pure function (\<open>embeds_memo_ok\<close>). \<open>use_int_hashes\<close> is the environment variable
  that \<open>maybe_convert_block_hash\<close> reads.
\<close>

section \<open>BlockHashToBlockMap\<close>

datatype cached_blocks = One_block blk_ref | Block_dict "(int \<times> blk_ref) list"

type_synonym block_map = "(bytes \<times> cached_blocks) list"

definition get_one_block :: "bytes \<Rightarrow> block_map \<Rightarrow> blk_ref option result" where
  "get_one_block key c =
     (case dict_get c key of
        None \<Rightarrow> Inr None
      | Some (One_block b) \<Rightarrow> Inr (Some b)
      | Some (Block_dict d) \<Rightarrow> (case d of [] \<Rightarrow> Inl StopIteration | (_, b) # _ \<Rightarrow> Inr (Some b)))"

definition bhm_insert :: "heap \<Rightarrow> bytes \<Rightarrow> blk_ref \<Rightarrow> block_map \<Rightarrow> block_map" where
  "bhm_insert m key b c =
     (case dict_get c key of
        None \<Rightarrow> dict_set key (One_block b) c
      | Some (One_block b0) \<Rightarrow>
          dict_set key (Block_dict (dict_set (block_id (m b)) b [(block_id (m b0), b0)])) c
      | Some (Block_dict d) \<Rightarrow> dict_set key (Block_dict (dict_set (block_id (m b)) b d)) c)"

text \<open>A key that is popped and put back moves to the end of the dict.\<close>

definition bhm_pop :: "heap \<Rightarrow> bytes \<Rightarrow> int \<Rightarrow> block_map \<Rightarrow> blk_ref option \<times> block_map" where
  "bhm_pop m key bid c =
     (case dict_get c key of
        None \<Rightarrow> (None, c)
      | Some (One_block b) \<Rightarrow>
          let c' = dict_pop key c
          in if block_id (m b) = bid then (Some b, c') else (None, dict_set key (One_block b) c')
      | Some (Block_dict d) \<Rightarrow>
          let c' = dict_pop key c; d' = dict_pop bid d
          in (dict_get d bid, if 0 < length d' then dict_set key (Block_dict d') c' else c'))"

definition bhm_len :: "block_map \<Rightarrow> int" where
  "bhm_len c = int (length c)"

section \<open>Events and the pool\<close>

datatype kv_event =
    BlockStored "external_block_hash list" "external_block_hash option" "int list" int
      "int option" "string option" "extra_key list option list option" int
  | BlockRemoved "external_block_hash list" int
  | AllBlocksCleared

record block_pool =
  num_gpu_blocks :: int
  enable_caching :: bool
  hash_block_size :: int
  fq :: free_queue
  cached_block_hash_to_block :: block_map
  null_block :: blk_ref
  enable_kv_cache_events :: bool
  use_int_hashes :: bool
  kv_event_queue :: "kv_event list"

abbreviation pmem :: "block_pool \<Rightarrow> heap" where
  "pmem p \<equiv> mem (fq p)"

definition set_pmem :: "heap \<Rightarrow> block_pool \<Rightarrow> block_pool" where
  "set_pmem m p = p\<lparr>fq := (fq p)\<lparr>mem := m\<rparr>\<rparr>"

definition blocks :: "block_pool \<Rightarrow> blk_ref list" where
  "blocks p = map Blk [0..<nat (num_gpu_blocks p)]"

definition add_ref :: "int \<Rightarrow> blk_ref \<Rightarrow> heap \<Rightarrow> heap" where
  "add_ref k b m = m(b := (m b)\<lparr>ref_cnt := ref_cnt (m b) + k\<rparr>)"

definition fresh_heap :: heap where
  "fresh_heap r = (case r of Blk i \<Rightarrow> new_block (int i) | _ \<Rightarrow> new_block (-1))"

definition block_pool_init :: "int \<Rightarrow> bool \<Rightarrow> int \<Rightarrow> bool \<Rightarrow> bool \<Rightarrow> block_pool result" where
  "block_pool_init n caching hbs events use_int =
     bindE (guardE (0 < n) AssertionError) (\<lambda>_.
       bindE (popleft (fq_init fresh_heap (map Blk [0..<nat n]))) (\<lambda>(nb, q).
         Inr \<lparr>num_gpu_blocks = n, enable_caching = caching, hash_block_size = hbs,
              fq = q\<lparr>mem := (mem q)(nb := (mem q nb)\<lparr>is_null := True\<rparr>)\<rparr>,
              cached_block_hash_to_block = [], null_block = nb,
              enable_kv_cache_events = events, use_int_hashes = use_int, kv_event_queue = []\<rparr>))"

definition get_num_free_blocks :: "block_pool \<Rightarrow> int" where
  "get_num_free_blocks p = num_free_blocks (fq p)"

fun get_cached_block_loop :: "block_map \<Rightarrow> bytes \<Rightarrow> int list \<Rightarrow> blk_ref list \<Rightarrow> blk_ref list option result" where
  "get_cached_block_loop c h [] acc = Inr (Some acc)"
| "get_cached_block_loop c h (g # gs) acc =
     bindE (make_block_hash_with_group_id h g) (\<lambda>key.
       bindE (get_one_block key c) (\<lambda>r.
         case r of None \<Rightarrow> Inr None | Some b \<Rightarrow> get_cached_block_loop c h gs (acc @ [b])))"

definition get_cached_block :: "bytes \<Rightarrow> int list \<Rightarrow> block_pool \<Rightarrow> blk_ref list option result" where
  "get_cached_block h gids p = get_cached_block_loop (cached_block_hash_to_block p) h gids []"

text \<open>The hashes of a request at the group's block size: its own list, or the regrouped view.\<close>

datatype hash_seq = HS_list "bytes list" | HS_grouped block_hash_list

definition hash_seq_for :: "int \<Rightarrow> int \<Rightarrow> bytes list \<Rightarrow> hash_seq result" where
  "hash_seq_for block_size hbs hs =
     (if block_size = hbs then Inr (HS_list hs)
      else bindE (guardE (block_size mod hbs = 0) AssertionError) (\<lambda>_.
             bindE (mk_block_hash_list hs hbs block_size) (\<lambda>l. Inr (HS_grouped l))))"

fun hs_from :: "hash_seq \<Rightarrow> int \<Rightarrow> bytes list" where
  "hs_from (HS_list hs) i = py_from hs i"
| "hs_from (HS_grouped l) i = bhl_slice l i (bhl_len l)"

fun hs_at :: "hash_seq \<Rightarrow> int \<Rightarrow> bytes result" where
  "hs_at (HS_list hs) i = py_index hs i"
| "hs_at (HS_grouped l) i = Inr (bhl_value_at l i)"

definition cache_block_step ::
  "int \<Rightarrow> bytes list \<Rightarrow> nat \<times> blk_ref \<Rightarrow> block_pool \<times> external_block_hash list
     \<Rightarrow> (block_pool \<times> external_block_hash list) result" where
  "cache_block_step gid new_block_hashes ib st =
     (let (i, b) = ib; (p, new_hashes) = st
      in if is_null (pmem p b) then Inr (p, new_hashes)
         else bindE (guardE (block_hash (pmem p b) = None) AssertionError) (\<lambda>_.
           bindE (py_index new_block_hashes (int i)) (\<lambda>h.
           bindE (make_block_hash_with_group_id h gid) (\<lambda>key.
           bindE (set_block_hash b key (pmem p)) (\<lambda>m.
             let p' = (set_pmem m p)\<lparr>cached_block_hash_to_block :=
                         bhm_insert m key b (cached_block_hash_to_block p)\<rparr>
             in Inr (p', if enable_kv_cache_events p
                         then new_hashes @ [maybe_convert_block_hash (use_int_hashes p) h]
                         else new_hashes))))))"

text \<open>The extra keys of the cached blocks, for the event.\<close>

definition event_keys_step ::
  "(bytes list \<Rightarrow> bytes) \<Rightarrow> heap \<Rightarrow> blk_ref list \<Rightarrow> int \<Rightarrow> int
     \<Rightarrow> extra_key list option list \<times> int \<times> request
     \<Rightarrow> (extra_key list option list \<times> int \<times> request) result" where
  "event_keys_step sha m blks block_size i st =
     (let (acc, mm_idx, r) = st
      in bindE (py_index blks i) (\<lambda>b.
           if is_null (m b) then Inr st
           else bindE (generate_block_hash_extra_keys sha r (i * block_size) (i * block_size + block_size) mm_idx)
                  (\<lambda>(keys, mm_idx', r'). Inr (acc @ [keys], mm_idx', r'))))"

definition cache_full_blocks ::
  "(bytes list \<Rightarrow> bytes) \<Rightarrow> request \<Rightarrow> blk_ref list \<Rightarrow> int \<Rightarrow> int \<Rightarrow> int \<Rightarrow> int \<Rightarrow> block_pool
     \<Rightarrow> block_pool result" where
  "cache_full_blocks sha r blks num_cached num_full block_size gid p =
     (if num_full \<le> num_cached then Inr p
      else bindE (guardE (num_full \<le> int (length (block_hashes r))) AssertionError) (\<lambda>_.
        bindE (hash_seq_for block_size (hash_block_size p) (block_hashes r)) (\<lambda>hs.
        bindE (foldE (cache_block_step gid (hs_from hs num_cached))
                 (enumerate 0 (py_slice blks num_cached num_full)) (p, [])) (\<lambda>(p1, new_hashes).
          if \<not> enable_kv_cache_events p then Inr p1
          else bindE (if num_cached = 0 then Inr None
                      else bindE (hs_at hs (num_cached - 1))
                             (\<lambda>h. Inr (Some (maybe_convert_block_hash (use_int_hashes p) h)))) (\<lambda>parent.
            bindE (foldE (event_keys_step sha (pmem p1) blks block_size) [num_cached..num_full - 1] ([], 0, r))
              (\<lambda>(keys, _, _).
               Inr (p1\<lparr>kv_event_queue := kv_event_queue p1 @
                 [BlockStored new_hashes parent
                    (py_slice (all_token_ids r) (num_cached * block_size) (num_full * block_size))
                    block_size (map_option snd (lora_request r)) (map_option fst (lora_request r))
                    (if keys = [] then None else Some keys) gid]\<rparr>)))))))"

definition maybe_evict_cached_block :: "blk_ref \<Rightarrow> block_pool \<Rightarrow> bool \<times> block_pool" where
  "maybe_evict_cached_block b p =
     (case block_hash (pmem p b) of
        None \<Rightarrow> (False, p)
      | Some key \<Rightarrow>
          (case bhm_pop (pmem p) key (block_id (pmem p b)) (cached_block_hash_to_block p) of
             (None, c) \<Rightarrow> (False, p\<lparr>cached_block_hash_to_block := c\<rparr>)
           | (Some _, c) \<Rightarrow>
               let p1 = (set_pmem (reset_hash b (pmem p)) p)\<lparr>cached_block_hash_to_block := c\<rparr>
               in (True, if enable_kv_cache_events p
                         then p1\<lparr>kv_event_queue := kv_event_queue p1 @
                                [BlockRemoved [maybe_convert_block_hash (use_int_hashes p) (get_block_hash key)]
                                   (get_group_id key)]\<rparr>
                         else p1)))"

definition alloc_step :: "blk_ref \<Rightarrow> block_pool \<Rightarrow> block_pool result" where
  "alloc_step b p =
     (let p1 = (if enable_caching p then snd (maybe_evict_cached_block b p) else p)
      in bindE (guardE (ref_cnt (pmem p1 b) = 0) AssertionError)
           (\<lambda>_. Inr (set_pmem (add_ref 1 b (pmem p1)) p1)))"

definition get_new_blocks :: "int \<Rightarrow> block_pool \<Rightarrow> (blk_ref list \<times> block_pool) result" where
  "get_new_blocks n p =
     (if get_num_free_blocks p < n then Inl ValueError
      else bindE (popleft_n n (fq p)) (\<lambda>(ret, q).
             bindE (foldE alloc_step ret (p\<lparr>fq := q\<rparr>)) (\<lambda>p'. Inr (ret, p'))))"

definition touch_step :: "blk_ref \<Rightarrow> block_pool \<Rightarrow> block_pool result" where
  "touch_step b p =
     bindE (if ref_cnt (pmem p b) = 0 \<and> \<not> is_null (pmem p b)
            then bindE (fq_remove b (fq p)) (\<lambda>q. Inr (p\<lparr>fq := q\<rparr>))
            else Inr p)
       (\<lambda>p1. Inr (set_pmem (add_ref 1 b (pmem p1)) p1))"

definition touch :: "blk_ref list \<Rightarrow> block_pool \<Rightarrow> block_pool result" where
  "touch bs p = foldE touch_step bs p"

definition free_blocks :: "blk_ref list \<Rightarrow> block_pool \<Rightarrow> block_pool result" where
  "free_blocks bs p =
     (let m = fold (add_ref (-1)) bs (pmem p);
          freed = filter (\<lambda>b. ref_cnt (m b) = 0 \<and> \<not> is_null (m b)) bs
      in bindE (append_n freed ((fq p)\<lparr>mem := m\<rparr>)) (\<lambda>q. Inr (p\<lparr>fq := q\<rparr>)))"

text \<open>The set of ids is the list of its elements in the order of the iteration.\<close>

definition evict_blocks :: "int list \<Rightarrow> block_pool \<Rightarrow> block_pool result" where
  "evict_blocks ids p =
     foldE (\<lambda>i p. bindE (guardE (i < int (length (blocks p))) AssertionError) (\<lambda>_.
       bindE (py_index (blocks p) i) (\<lambda>b. Inr (snd (maybe_evict_cached_block b p))))) ids p"

definition reset_prefix_cache :: "block_pool \<Rightarrow> bool \<times> block_pool" where
  "reset_prefix_cache p =
     (if num_gpu_blocks p - get_num_free_blocks p \<noteq> 1 then (False, p)
      else let p1 = (set_pmem (fold reset_hash (blocks p) (pmem p)) p)\<lparr>cached_block_hash_to_block := []\<rparr>
           in (True, if enable_kv_cache_events p1
                     then p1\<lparr>kv_event_queue := kv_event_queue p1 @ [AllBlocksCleared]\<rparr> else p1))"

text \<open>The float quotient is the exact rational.\<close>

definition get_usage :: "block_pool \<Rightarrow> rat" where
  "get_usage p =
     (let total = num_gpu_blocks p - 1
      in if total = 0 then 0 else 1 - of_int (get_num_free_blocks p) / of_int total)"

definition take_events :: "block_pool \<Rightarrow> kv_event list \<times> block_pool" where
  "take_events p =
     (if \<not> enable_kv_cache_events p then ([], p)
      else (kv_event_queue p, p\<lparr>kv_event_queue := []\<rparr>))"

section \<open>The map as a multimap\<close>

fun refs_of :: "cached_blocks \<Rightarrow> blk_ref set" where
  "refs_of (One_block b) = {b}"
| "refs_of (Block_dict d) = snd ` set d"

definition bhm_refs :: "block_map \<Rightarrow> bytes \<Rightarrow> blk_ref set" where
  "bhm_refs c k = (case dict_get c k of None \<Rightarrow> {} | Some v \<Rightarrow> refs_of v)"

text \<open>\<open>ident\<close> is the block id of an object.\<close>

fun cached_wf :: "(blk_ref \<Rightarrow> int) \<Rightarrow> cached_blocks \<Rightarrow> bool" where
  "cached_wf ident (One_block b) = True"
| "cached_wf ident (Block_dict d) = (d \<noteq> [] \<and> dict_wf d \<and> (\<forall>(i, b) \<in> set d. ident b = i))"

definition bhm_wf :: "(blk_ref \<Rightarrow> int) \<Rightarrow> block_map \<Rightarrow> bool" where
  "bhm_wf ident c \<longleftrightarrow> dict_wf c \<and> (\<forall>k v. dict_get c k = Some v \<longrightarrow> cached_wf ident v)"

lemma bhm_wfD: "bhm_wf ident c \<Longrightarrow> dict_get c k = Some v \<Longrightarrow> cached_wf ident v"
  by (simp add: bhm_wf_def)

lemma snd_dict_set:
  assumes "dict_wf d" "\<forall>(i, b) \<in> set d. ident b = i" "\<forall>b' \<in> snd ` set d. ident b' \<noteq> ident b"
  shows "snd ` set (dict_set (ident b) b d) = insert b (snd ` set d)"
  using assms(2,3) by (force simp: set_dict_set [OF assms(1)])

locale block_index =
  fixes wf :: "'m \<Rightarrow> bool"
    and held :: "'m \<Rightarrow> 'k \<Rightarrow> 'b set"
    and find :: "'k \<Rightarrow> 'm \<Rightarrow> 'b option result"
    and ins :: "'k \<Rightarrow> 'b \<Rightarrow> 'm \<Rightarrow> 'm"
    and del :: "'k \<Rightarrow> int \<Rightarrow> 'm \<Rightarrow> 'b option \<times> 'm"
    and ident :: "'b \<Rightarrow> int"
  assumes find_held: "wf m \<Longrightarrow>
      \<exists>r. find k m = Inr r \<and> (r = None \<longleftrightarrow> held m k = {}) \<and> (\<forall>b. r = Some b \<longrightarrow> b \<in> held m k)"
    and ins_wf: "wf m \<Longrightarrow> (\<forall>b' \<in> held m k. ident b' \<noteq> ident b) \<Longrightarrow> wf (ins k b m)"
    and ins_held: "wf m \<Longrightarrow> (\<forall>b' \<in> held m k. ident b' \<noteq> ident b) \<Longrightarrow>
      held (ins k b m) k' = (if k' = k then insert b (held m k) else held m k')"
    and del_held: "wf m \<Longrightarrow> b \<in> held m k \<Longrightarrow> (\<forall>b' \<in> held m k. ident b' = ident b \<longrightarrow> b' = b) \<Longrightarrow>
      \<exists>m'. del k (ident b) m = (Some b, m') \<and> wf m'
        \<and> (\<forall>k'. held m' k' = (if k' = k then held m k - {b} else held m k'))"
    and del_absent: "wf m \<Longrightarrow> (\<forall>b' \<in> held m k. ident b' \<noteq> i) \<Longrightarrow>
      \<exists>m'. del k i m = (None, m') \<and> wf m' \<and> (\<forall>k'. held m' k' = held m k')"
begin

text \<open>A block found after an insertion, and none after the only one was deleted.\<close>

lemma find_after_ins:
  assumes "wf m" "\<forall>b' \<in> held m k. ident b' \<noteq> ident b"
  shows "\<exists>b'. find k (ins k b m) = Inr (Some b') \<and> b' \<in> insert b (held m k)"
proof -
  obtain r where "find k (ins k b m) = Inr r" "r = None \<longleftrightarrow> held (ins k b m) k = {}"
    "\<forall>b'. r = Some b' \<longrightarrow> b' \<in> held (ins k b m) k"
    using find_held [OF ins_wf [OF assms]] by blast
  then show ?thesis using ins_held [OF assms] by (cases r) auto
qed

lemma del_after_ins:
  assumes "wf m" "\<forall>b' \<in> held m k. ident b' \<noteq> ident b"
  shows "\<exists>m'. del k (ident b) (ins k b m) = (Some b, m') \<and> wf m' \<and> (\<forall>k'. held m' k' = held m k')"
proof -
  have h: "held (ins k b m) k' = (if k' = k then insert b (held m k) else held m k')" for k'
    by (rule ins_held [OF assms])
  have "b \<in> held (ins k b m) k" "\<forall>b' \<in> held (ins k b m) k. ident b' = ident b \<longrightarrow> b' = b"
    using assms(2) by (auto simp: h)
  then obtain m' where "del k (ident b) (ins k b m) = (Some b, m')" "wf m'"
    "\<forall>k'. held m' k' = (if k' = k then held (ins k b m) k - {b} else held (ins k b m) k')"
    using del_held [OF ins_wf [OF assms]] by blast
  moreover have "insert b (held m k) - {b} = held m k" using assms(2) by auto
  ultimately show ?thesis by (auto simp: h)
qed

lemma find_gone:
  assumes "wf m" "held m k = {b}"
  shows "\<exists>m'. del k (ident b) m = (Some b, m') \<and> find k m' = Inr None"
proof -
  obtain m' where "del k (ident b) m = (Some b, m')" "wf m'" "held m' k = {}"
    using del_held [of m b k] assms by auto
  then show ?thesis using find_held [of m' k] by auto
qed

end

lemma bhm_find:
  assumes "bhm_wf ident c"
  shows "\<exists>r. get_one_block k c = Inr r \<and> (r = None \<longleftrightarrow> bhm_refs c k = {})
    \<and> (\<forall>b. r = Some b \<longrightarrow> b \<in> bhm_refs c k)"
proof (cases "dict_get c k")
  case None
  then show ?thesis by (simp add: get_one_block_def bhm_refs_def del: dict_get_eq_None)
next
  case (Some v)
  then show ?thesis using bhm_wfD [OF assms Some]
    by (cases v) (auto simp: get_one_block_def bhm_refs_def split: list.splits)
qed

lemma bhm_insert_spec:
  assumes wf: "bhm_wf (\<lambda>b. block_id (m b)) c" and new: "\<forall>b' \<in> bhm_refs c k. block_id (m b') \<noteq> block_id (m b)"
  shows "\<exists>v. bhm_insert m k b c = dict_set k v c \<and> cached_wf (\<lambda>b. block_id (m b)) v
    \<and> refs_of v = insert b (bhm_refs c k)"
proof (cases "dict_get c k")
  case None
  then show ?thesis
    by (intro exI [of _ "One_block b"]) (simp add: bhm_insert_def bhm_refs_def del: dict_get_eq_None)
next
  case (Some v)
  show ?thesis
  proof (cases v)
    case (One_block b0)
    then have "block_id (m b) \<noteq> block_id (m b0)" using new Some by (simp add: bhm_refs_def)
    then show ?thesis using Some One_block
      by (intro exI [of _ "Block_dict (dict_set (block_id (m b)) b [(block_id (m b0), b0)])"])
         (auto simp: bhm_insert_def bhm_refs_def dict_set_def dict_wf_def)
  next
    case (Block_dict d)
    have d: "dict_wf d" "\<forall>(i, b) \<in> set d. block_id (m b) = i"
      using bhm_wfD [OF wf Some] Block_dict by auto
    have "\<forall>b' \<in> snd ` set d. block_id (m b') \<noteq> block_id (m b)"
      using new Some Block_dict by (simp add: bhm_refs_def)
    note s = snd_dict_set [OF d this]
    show ?thesis using Some Block_dict d s
      by (intro exI [of _ "Block_dict (dict_set (block_id (m b)) b d)"])
         (auto simp: bhm_insert_def bhm_refs_def set_dict_set)
  qed
qed

lemma bhm_set:
  assumes "bhm_wf ident c" "cached_wf ident v"
  shows "bhm_wf ident (dict_set k v c)"
    "bhm_refs (dict_set k v c) k' = (if k' = k then refs_of v else bhm_refs c k')"
  using assms by (auto simp: bhm_wf_def bhm_refs_def)

lemma bhm_del:
  assumes "bhm_wf ident c"
  shows "bhm_wf ident (dict_pop k c)"
    "bhm_refs (dict_pop k c) k' = (if k' = k then {} else bhm_refs c k')"
  using assms unfolding bhm_wf_def bhm_refs_def by (auto split: if_splits simp del: dict_get_eq_None)

lemma bhm_pop_spec:
  fixes m :: heap and k :: bytes and i :: int
  assumes wf: "bhm_wf (\<lambda>b. block_id (m b)) c"
  defines "hit \<equiv> {b \<in> bhm_refs c k. block_id (m b) = i}"
  assumes uniq: "\<exists>b. hit \<subseteq> {b}"
  shows "\<exists>c'. bhm_pop m k i c = (if hit = {} then None else Some (the_elem hit), c')
    \<and> bhm_wf (\<lambda>b. block_id (m b)) c'
    \<and> (\<forall>k'. bhm_refs c' k' = (if k' = k then bhm_refs c k - hit else bhm_refs c k'))"
proof (cases "dict_get c k")
  case None
  then have "bhm_refs c k = {}" by (simp add: bhm_refs_def del: dict_get_eq_None)
  then show ?thesis using wf None by (simp add: bhm_pop_def hit_def del: dict_get_eq_None)
next
  case (Some v)
  let ?id = "\<lambda>b. block_id (m b)"
  note pop = bhm_del [OF wf, of k]
  show ?thesis
  proof (cases v)
    case (One_block b)
    then have r: "bhm_refs c k = {b}" using Some by (simp add: bhm_refs_def)
    show ?thesis
    proof (cases "block_id (m b) = i")
      case True
      then have "hit = {b}" using r by (auto simp: hit_def)
      then show ?thesis using Some One_block True pop r by (simp add: bhm_pop_def Let_def)
    next
      case False
      then have "hit = {}" using r by (auto simp: hit_def)
      then show ?thesis using Some One_block False pop r bhm_set [OF pop(1), of "One_block b" k]
        by (simp add: bhm_pop_def Let_def)
    qed
  next
    case (Block_dict d)
    have d: "d \<noteq> []" "dict_wf d" "\<And>j b. (j, b) \<in> set d \<Longrightarrow> block_id (m b) = j"
      using bhm_wfD [OF wf Some] Block_dict by auto
    have r: "bhm_refs c k = snd ` set d" using Some Block_dict by (simp add: bhm_refs_def)
    have hit: "(if hit = {} then None else Some (the_elem hit)) = dict_get d i"
    proof (cases "dict_get d i")
      case None
      then have "hit = {}" using d(3) by (force simp: hit_def r)
      then show ?thesis using None by (simp del: dict_get_eq_None)
    next
      case (Some b)
      then have "b \<in> hit" using d by (force simp: hit_def r dict_get_wf)
      then have "hit = {b}" using uniq by auto
      then show ?thesis using Some by simp
    qed
    have rest: "snd ` set (dict_pop i d) = bhm_refs c k - hit"
      using d(3) by (force simp: set_dict_pop hit_def r)
    show ?thesis
    proof (cases "dict_pop i d = []")
      case True
      then have "bhm_refs c k - hit = {}" using rest by simp
      then show ?thesis using Some Block_dict pop True hit by (simp add: bhm_pop_def Let_def)
    next
      case False
      have w: "cached_wf ?id (Block_dict (dict_pop i d))"
        using False d by (auto simp: set_dict_pop)
      show ?thesis using Some Block_dict False hit rest pop bhm_set [OF pop(1) w, of k]
        by (simp add: bhm_pop_def Let_def)
    qed
  qed
qed

interpretation bhm: block_index "bhm_wf (\<lambda>b. block_id (m b))" bhm_refs get_one_block "bhm_insert m"
    "bhm_pop m" "\<lambda>b. block_id (m b)" for m
proof unfold_locales
  fix c k b assume c: "bhm_wf (\<lambda>b. block_id (m b)) c" "\<forall>b' \<in> bhm_refs c k. block_id (m b') \<noteq> block_id (m b)"
  from bhm_insert_spec [OF c] show "bhm_wf (\<lambda>b. block_id (m b)) (bhm_insert m k b c)"
    using bhm_set [OF c(1)] by auto
  fix k' from bhm_insert_spec [OF c]
  show "bhm_refs (bhm_insert m k b c) k' = (if k' = k then insert b (bhm_refs c k) else bhm_refs c k')"
    using bhm_set [OF c(1)] by auto
next
  fix c b k assume c: "bhm_wf (\<lambda>b. block_id (m b)) c" "b \<in> bhm_refs c k"
    "\<forall>b' \<in> bhm_refs c k. block_id (m b') = block_id (m b) \<longrightarrow> b' = b"
  have eq: "{b' \<in> bhm_refs c k. block_id (m b') = block_id (m b)} = {b}" using c(2,3) by auto
  show "\<exists>c'. bhm_pop m k (block_id (m b)) c = (Some b, c') \<and> bhm_wf (\<lambda>b. block_id (m b)) c'
      \<and> (\<forall>k'. bhm_refs c' k' = (if k' = k then bhm_refs c k - {b} else bhm_refs c k'))"
    using bhm_pop_spec [OF c(1), of k "block_id (m b)", unfolded eq] by simp
next
  fix c k i assume c: "bhm_wf (\<lambda>b. block_id (m b)) c" "\<forall>b' \<in> bhm_refs c k. block_id (m b') \<noteq> i"
  have eq: "{b' \<in> bhm_refs c k. block_id (m b') = i} = {}" using c(2) by auto
  show "\<exists>c'. bhm_pop m k i c = (None, c') \<and> bhm_wf (\<lambda>b. block_id (m b)) c'
      \<and> (\<forall>k'. bhm_refs c' k' = bhm_refs c k')"
    using bhm_pop_spec [OF c(1), of k i, unfolded eq] by (auto split: if_splits)
qed (rule bhm_find)

section \<open>The invariant of the pool\<close>

abbreviation rc :: "block_pool \<Rightarrow> blk_ref \<Rightarrow> int" where
  "rc p b \<equiv> ref_cnt (pmem p b)"

abbreviation bh :: "block_pool \<Rightarrow> blk_ref \<Rightarrow> bytes option" where
  "bh p b \<equiv> block_hash (pmem p b)"

text \<open>What no operation changes.\<close>

definition same_config :: "block_pool \<Rightarrow> block_pool \<Rightarrow> bool" where
  "same_config p p' \<longleftrightarrow> num_gpu_blocks p' = num_gpu_blocks p \<and> enable_caching p' = enable_caching p
     \<and> hash_block_size p' = hash_block_size p \<and> null_block p' = null_block p
     \<and> enable_kv_cache_events p' = enable_kv_cache_events p \<and> use_int_hashes p' = use_int_hashes p"

lemma same_config_refl [simp]: "same_config p p"
  by (simp add: same_config_def)

lemma same_config_trans: "same_config p q \<Longrightarrow> same_config q r \<Longrightarrow> same_config p r"
  by (simp add: same_config_def)

lemma same_config_blocks: "same_config p p' \<Longrightarrow> blocks p' = blocks p"
  by (simp add: same_config_def blocks_def)

text \<open>Objects keep their ids, only the null block is null.\<close>

definition ids_ok :: "block_pool \<Rightarrow> bool" where
  "ids_ok p \<longleftrightarrow> 0 < num_gpu_blocks p \<and> null_block p = Blk 0
     \<and> (\<forall>i < nat (num_gpu_blocks p). block_id (pmem p (Blk i)) = int i \<and> (is_null (pmem p (Blk i)) \<longleftrightarrow> i = 0))"

text \<open>The map holds exactly the blocks that carry a hash.\<close>

definition cache_ok :: "block_pool \<Rightarrow> bool" where
  "cache_ok p \<longleftrightarrow> bhm_wf (\<lambda>b. block_id (pmem p b)) (cached_block_hash_to_block p)
     \<and> (\<forall>k. bhm_refs (cached_block_hash_to_block p) k = {b \<in> set (blocks p). bh p b = Some k})
     \<and> bh p (Blk 0) = None
     \<and> (\<not> enable_caching p \<longrightarrow> (\<forall>b \<in> set (blocks p). bh p b = None))"

definition pool_core :: "block_pool \<Rightarrow> blk_ref list \<Rightarrow> bool" where
  "pool_core p fl \<longleftrightarrow> fq_rep (fq p) fl \<and> ids_ok p \<and> cache_ok p"

text \<open>
  The queue holds exactly the blocks that nobody uses; \<open>fl\<close> is its order, the eviction order.
\<close>

definition pool_inv :: "block_pool \<Rightarrow> blk_ref list \<Rightarrow> bool" where
  "pool_inv p fl \<longleftrightarrow> pool_core p fl
     \<and> set fl = {b \<in> set (blocks p). rc p b = 0 \<and> b \<noteq> Blk 0}
     \<and> (\<forall>b \<in> set (blocks p). b \<noteq> Blk 0 \<longrightarrow> 0 \<le> rc p b)"

lemma pmem_set_pmem [simp]: "pmem (set_pmem m p) = m"
  by (simp add: set_pmem_def)

lemma fq_set_pmem: "fq (set_pmem m p) = (fq p)\<lparr>mem := m\<rparr>"
  by (simp add: set_pmem_def)

lemma blocks_set_pmem [simp]: "blocks (set_pmem m p) = blocks p"
  by (simp add: set_pmem_def blocks_def)

lemma cached_set_pmem [simp]: "cached_block_hash_to_block (set_pmem m p) = cached_block_hash_to_block p"
  by (simp add: set_pmem_def)

lemma same_config_set_pmem [simp]: "same_config p (set_pmem m p)"
  by (simp add: same_config_def set_pmem_def)

lemma set_blocks: "set (blocks p) = Blk ` {..<nat (num_gpu_blocks p)}"
  by (auto simp: blocks_def)

lemma blocks_real: "b \<in> set (blocks p) \<Longrightarrow> real_blk b"
  by (auto simp: blocks_def real_blk_def)

lemma ids_okD:
  assumes "ids_ok p" "b \<in> set (blocks p)"
  shows "b = Blk (nat (block_id (pmem p b)))" "is_null (pmem p b) \<longleftrightarrow> b = Blk 0"
  using assms by (auto simp: ids_ok_def set_blocks)

lemma ids_ok_inj:
  "ids_ok p \<Longrightarrow> b \<in> set (blocks p) \<Longrightarrow> c \<in> set (blocks p) \<Longrightarrow> block_id (pmem p b) = block_id (pmem p c) \<Longrightarrow> b = c"
  by (metis ids_okD(1))

lemma ids_ok_null: "ids_ok p \<Longrightarrow> Blk 0 \<in> set (blocks p)"
  by (auto simp: ids_ok_def set_blocks)

lemma ids_ok_frame:
  assumes "ids_ok p" "same_config p p'" "\<And>b. block_id (pmem p' b) = block_id (pmem p b)"
    "\<And>b. is_null (pmem p' b) = is_null (pmem p b)"
  shows "ids_ok p'"
  using assms by (simp add: ids_ok_def same_config_def)

lemma fq_rep_frame:
  assumes "fq_rep q xs" "\<And>b. next_free_block (mem q' b) = next_free_block (mem q b)"
    "\<And>b. prev_free_block (mem q' b) = prev_free_block (mem q b)" "num_free_blocks q' = num_free_blocks q"
  shows "fq_rep q' xs"
proof -
  have "chain (mem q') ns \<longleftrightarrow> chain (mem q) ns" for ns by (rule chain_cong) (simp_all add: assms)
  then show ?thesis using assms(1) by (simp add: fq_rep_def linked_def assms)
qed

lemma cache_ok_frame:
  assumes "cache_ok p" "same_config p p'" "\<And>b. block_id (pmem p' b) = block_id (pmem p b)"
    "\<And>b. bh p' b = bh p b" "cached_block_hash_to_block p' = cached_block_hash_to_block p"
  shows "cache_ok p'"
  using assms same_config_blocks [OF assms(2)] by (simp add: cache_ok_def same_config_def)

text \<open>Changing a reference count.\<close>

lemma add_ref_simps [simp]:
  "ref_cnt (add_ref k b m c) = (if c = b then ref_cnt (m c) + k else ref_cnt (m c))"
  "block_hash (add_ref k b m c) = block_hash (m c)"
  "block_id (add_ref k b m c) = block_id (m c)"
  "is_null (add_ref k b m c) = is_null (m c)"
  "next_free_block (add_ref k b m c) = next_free_block (m c)"
  "prev_free_block (add_ref k b m c) = prev_free_block (m c)"
  by (simp_all add: add_ref_def)

lemma reset_hash_simps [simp]:
  "block_hash (reset_hash b m c) = (if c = b then None else block_hash (m c))"
  "ref_cnt (reset_hash b m c) = ref_cnt (m c)"
  "block_id (reset_hash b m c) = block_id (m c)"
  "is_null (reset_hash b m c) = is_null (m c)"
  "next_free_block (reset_hash b m c) = next_free_block (m c)"
  "prev_free_block (reset_hash b m c) = prev_free_block (m c)"
  by (simp_all add: reset_hash_def)

lemma pool_core_add_ref:
  assumes "pool_core p fl" shows "pool_core (set_pmem (add_ref k b (pmem p)) p) fl"
  using assms unfolding pool_core_def
  by (auto simp: fq_set_pmem intro: fq_rep_frame ids_ok_frame cache_ok_frame)

text \<open>Replacing the queue by one that holds the same objects in another order.\<close>

lemma pool_core_fq:
  assumes "pool_core p fl" "fq_rep q fl'" "same_payload (fq p) q"
  shows "pool_core (p\<lparr>fq := q\<rparr>) fl'" "rc (p\<lparr>fq := q\<rparr>) b = rc p b" "bh (p\<lparr>fq := q\<rparr>) b = bh p b"
    "is_null (mem q b) = is_null (pmem p b)"
proof -
  have e: "block_id (mem q b) = block_id (pmem p b)" "ref_cnt (mem q b) = ref_cnt (pmem p b)"
    "block_hash (mem q b) = block_hash (pmem p b)" "is_null (mem q b) = is_null (pmem p b)" for b
    using assms(3) payload_eqD [of "mem q b" "pmem p b"] by (simp_all add: same_payload_def)
  then show "rc (p\<lparr>fq := q\<rparr>) b = rc p b" "bh (p\<lparr>fq := q\<rparr>) b = bh p b"
    "is_null (mem q b) = is_null (pmem p b)" by simp_all
  have "same_config p (p\<lparr>fq := q\<rparr>)" by (simp add: same_config_def)
  then show "pool_core (p\<lparr>fq := q\<rparr>) fl'"
    using assms(1,2) e unfolding pool_core_def
    by (auto intro: ids_ok_frame [of p] cache_ok_frame [of p])
qed

text \<open>Eviction of a block.\<close>

lemma maybe_evict_spec:
  assumes core: "pool_core p fl" and b: "b \<in> set (blocks p)"
  shows "fst (maybe_evict_cached_block b p) \<longleftrightarrow> bh p b \<noteq> None"
    and "pool_core (snd (maybe_evict_cached_block b p)) fl"
    and "same_config p (snd (maybe_evict_cached_block b p))"
    and "rc (snd (maybe_evict_cached_block b p)) c = rc p c"
    and "bh (snd (maybe_evict_cached_block b p)) c = (if c = b then None else bh p c)"
    and "kv_event_queue (snd (maybe_evict_cached_block b p)) = kv_event_queue p @
      (case bh p b of
         Some key \<Rightarrow> if enable_kv_cache_events p
           then [BlockRemoved [maybe_convert_block_hash (use_int_hashes p) (get_block_hash key)] (get_group_id key)]
           else []
       | None \<Rightarrow> [])"
proof -
  let ?p' = "snd (maybe_evict_cached_block b p)"
  have "(fst (maybe_evict_cached_block b p) \<longleftrightarrow> bh p b \<noteq> None) \<and> pool_core ?p' fl \<and> same_config p ?p'
    \<and> (\<forall>c. rc ?p' c = rc p c) \<and> (\<forall>c. bh ?p' c = (if c = b then None else bh p c))
    \<and> kv_event_queue ?p' = kv_event_queue p @ (case bh p b of
         Some key \<Rightarrow> if enable_kv_cache_events p
           then [BlockRemoved [maybe_convert_block_hash (use_int_hashes p) (get_block_hash key)] (get_group_id key)]
           else []
       | None \<Rightarrow> [])"
  proof (cases "bh p b")
    case None
    then show ?thesis using core by (simp add: maybe_evict_cached_block_def)
  next
    case (Some key)
    let ?id = "\<lambda>b. block_id (pmem p b)" and ?c = "cached_block_hash_to_block p"
    have ids: "ids_ok p" and co: "cache_ok p" and fr: "fq_rep (fq p) fl"
      using core by (auto simp: pool_core_def)
    have wf: "bhm_wf ?id ?c" and refs: "\<And>k. bhm_refs ?c k = {b \<in> set (blocks p). bh p b = Some k}"
      using co by (auto simp: cache_ok_def)
    have "b \<in> bhm_refs ?c key" using refs b Some by simp
    then obtain c' where c': "bhm_pop (pmem p) key (?id b) ?c = (Some b, c')" "bhm_wf ?id c'"
      "\<And>k. bhm_refs c' k = (if k = key then bhm_refs ?c key - {b} else bhm_refs ?c k)"
      using bhm.del_held [OF wf] ids_ok_inj [OF ids _ b] refs by blast
    define q where "q = (set_pmem (reset_hash b (pmem p)) p)\<lparr>cached_block_hash_to_block := c'\<rparr>"
    define q' where "q' = (if enable_kv_cache_events p then q\<lparr>kv_event_queue := kv_event_queue q @
        [BlockRemoved [maybe_convert_block_hash (use_int_hashes p) (get_block_hash key)] (get_group_id key)]\<rparr> else q)"
    have ev: "maybe_evict_cached_block b p = (True, q')"
      using Some c'(1) by (simp add: maybe_evict_cached_block_def q_def q'_def Let_def)
    have m: "pmem q' = reset_hash b (pmem p)" "cached_block_hash_to_block q' = c'" "same_config p q'"
      "num_free_blocks (fq q') = num_free_blocks (fq p)"
      by (auto simp: q'_def q_def same_config_def set_pmem_def)
    have "fq_rep (fq q') fl" by (rule fq_rep_frame [OF fr]) (simp_all add: m)
    moreover have "ids_ok q'" by (rule ids_ok_frame [OF ids m(3)]) (simp_all add: m)
    moreover have "cache_ok q'"
      using co c'(2,3) m refs same_config_blocks [OF m(3)] Some b
      by (auto simp: cache_ok_def same_config_def)
    ultimately show ?thesis
      using Some m by (auto simp: ev pool_core_def q'_def q_def set_pmem_def)
  qed
  then show "fst (maybe_evict_cached_block b p) \<longleftrightarrow> bh p b \<noteq> None" "pool_core ?p' fl" "same_config p ?p'"
    "rc ?p' c = rc p c" "bh ?p' c = (if c = b then None else bh p c)"
    "kv_event_queue ?p' = kv_event_queue p @ (case bh p b of
         Some key \<Rightarrow> if enable_kv_cache_events p
           then [BlockRemoved [maybe_convert_block_hash (use_int_hashes p) (get_block_hash key)] (get_group_id key)]
           else []
       | None \<Rightarrow> [])"
    by blast+
qed

lemma alloc_step_spec:
  assumes core: "pool_core p fl" and b: "b \<in> set (blocks p)" "rc p b = 0"
  shows "\<exists>p'. alloc_step b p = Inr p' \<and> pool_core p' fl \<and> same_config p p'
    \<and> (\<forall>c. rc p' c = (if c = b then 1 else rc p c)) \<and> (\<forall>c. bh p' c = (if c = b then None else bh p c))"
proof -
  define p1 where "p1 = (if enable_caching p then snd (maybe_evict_cached_block b p) else p)"
  have none: "bh p b = None" if "\<not> enable_caching p"
    using core b(1) that by (simp add: pool_core_def cache_ok_def)
  note e = maybe_evict_spec [OF core b(1)]
  have p1: "pool_core p1 fl" "same_config p p1" "\<And>c. rc p1 c = rc p c"
    "\<And>c. bh p1 c = (if c = b then None else bh p c)"
    using e core none by (auto simp: p1_def)
  have "alloc_step b p = Inr (set_pmem (add_ref 1 b (pmem p1)) p1)"
    using b(2) by (simp add: alloc_step_def p1_def [symmetric] p1(3))
  moreover have "pool_core (set_pmem (add_ref 1 b (pmem p1)) p1) fl"
    by (rule pool_core_add_ref [OF p1(1)])
  moreover have "same_config p (set_pmem (add_ref 1 b (pmem p1)) p1)"
    using p1(2) same_config_set_pmem same_config_trans by blast
  ultimately show ?thesis using p1(3,4) b(2) by auto
qed

lemma alloc_steps_spec:
  assumes "pool_core p fl" "distinct bs" "\<forall>b \<in> set bs. b \<in> set (blocks p) \<and> rc p b = 0"
  shows "\<exists>p'. foldE alloc_step bs p = Inr p' \<and> pool_core p' fl \<and> same_config p p'
    \<and> (\<forall>c. rc p' c = (if c \<in> set bs then 1 else rc p c))
    \<and> (\<forall>c. bh p' c = (if c \<in> set bs then None else bh p c))"
  using assms
proof (induction bs arbitrary: p)
  case (Cons b bs)
  obtain p1 where 1: "alloc_step b p = Inr p1" "pool_core p1 fl" "same_config p p1"
    "\<And>c. rc p1 c = (if c = b then 1 else rc p c)" "\<And>c. bh p1 c = (if c = b then None else bh p c)"
    using alloc_step_spec [OF Cons.prems(1), of b] Cons.prems(3) by auto
  have "\<forall>c \<in> set bs. c \<in> set (blocks p1) \<and> rc p1 c = 0"
    using Cons.prems(2,3) 1(4) same_config_blocks [OF 1(3)] by auto
  with Cons.IH [OF 1(2)] Cons.prems(2) obtain p2 where
    "foldE alloc_step bs p1 = Inr p2" "pool_core p2 fl" "same_config p1 p2"
    "\<forall>c. rc p2 c = (if c \<in> set bs then 1 else rc p1 c)"
    "\<forall>c. bh p2 c = (if c \<in> set bs then None else bh p1 c)" by auto
  then show ?case using 1 same_config_trans by auto
qed simp

theorem get_new_blocks_spec:
  assumes inv: "pool_inv p fl" and n: "0 \<le> n" "n \<le> int (length fl)"
  shows "\<exists>p'. get_new_blocks n p = Inr (take (nat n) fl, p') \<and> pool_inv p' (drop (nat n) fl) \<and> same_config p p'
    \<and> (\<forall>c. rc p' c = (if c \<in> set (take (nat n) fl) then 1 else rc p c))
    \<and> (\<forall>c. bh p' c = (if c \<in> set (take (nat n) fl) then None else bh p c))"
proof -
  let ?t = "take (nat n) fl" and ?d = "drop (nat n) fl"
  have core: "pool_core p fl" and fl: "set fl = {b \<in> set (blocks p). rc p b = 0 \<and> b \<noteq> Blk 0}"
    using inv by (auto simp: pool_inv_def)
  have rep: "fq_rep (fq p) fl" using core by (simp add: pool_core_def)
  have num: "num_free_blocks (fq p) = int (length fl)" using rep by (rule fq_rep_num)
  obtain q where q: "popleft_n n (fq p) = Inr (?t, q)" "fq_rep q ?d" "same_payload (fq p) q"
    using fbq.pop_n_take [OF rep n(1)] n(2) num by auto
  let ?p = "p\<lparr>fq := q\<rparr>"
  note c = pool_core_fq [OF core q(2,3)]
  have dist: "distinct fl" using fbq.rep_wf [OF rep] by blast
  have tf: "set ?t \<subseteq> set fl" by (rule set_take_subset)
  have cfg: "same_config p ?p" by (simp add: same_config_def)
  have "\<forall>b \<in> set ?t. b \<in> set (blocks ?p) \<and> rc ?p b = 0"
    using tf fl c(2) same_config_blocks [OF cfg] by auto
  from alloc_steps_spec [OF c(1) _ this] dist obtain p' where
    p': "foldE alloc_step ?t ?p = Inr p'" "pool_core p' ?d" "same_config ?p p'"
    "\<And>c. rc p' c = (if c \<in> set ?t then 1 else rc ?p c)"
    "\<And>c. bh p' c = (if c \<in> set ?t then None else bh ?p c)" by auto
  have "get_new_blocks n p = Inr (?t, p')"
    using n q(1) p'(1) by (simp add: get_new_blocks_def get_num_free_blocks_def num)
  moreover have cfg': "same_config p p'" using cfg p'(3) by (rule same_config_trans)
  moreover have rc': "rc p' c = (if c \<in> set ?t then 1 else rc p c)" for c
    using p'(4) c(2) by simp
  moreover have "bh p' c = (if c \<in> set ?t then None else bh p c)" for c
    using p'(5) c(3) by simp
  moreover have "set fl = set ?t \<union> set ?d" "set ?t \<inter> set ?d = {}"
    using dist set_take_disj_set_drop_if_distinct [of fl "nat n" "nat n"]
    by (auto simp flip: set_append)
  then have "pool_inv p' ?d"
    using inv fl p'(2) rc' same_config_blocks [OF cfg'] unfolding pool_inv_def by auto
  ultimately show ?thesis by blast
qed

theorem get_new_blocks_exhausted:
  assumes "pool_inv p fl" "int (length fl) < n" shows "get_new_blocks n p = Inl ValueError"
  using assms fq_rep_num [of "fq p" fl]
  by (simp add: get_new_blocks_def get_num_free_blocks_def pool_inv_def pool_core_def)

section \<open>Sharing and freeing\<close>

lemma pool_invD:
  assumes "pool_inv p fl"
  shows "pool_core p fl" "ids_ok p" "cache_ok p" "fq_rep (fq p) fl" "distinct fl"
    "set fl = {b \<in> set (blocks p). rc p b = 0 \<and> b \<noteq> Blk 0}"
    "\<And>b. b \<in> set (blocks p) \<Longrightarrow> b \<noteq> Blk 0 \<Longrightarrow> 0 \<le> rc p b"
    "num_free_blocks (fq p) = int (length fl)"
  using assms fbq.rep_wf [of "fq p" fl] fq_rep_num [of "fq p" fl]
  by (auto simp: pool_inv_def pool_core_def)

lemma pool_inv_null_free: "pool_inv p fl \<Longrightarrow> Blk 0 \<notin> set fl"
  using pool_invD(6) by blast

lemma touch_step_spec:
  assumes inv: "pool_inv p fl" and b: "b \<in> set (blocks p)"
  shows "\<exists>p'. touch_step b p = Inr p' \<and> pool_inv p' (filter (\<lambda>x. x \<noteq> b) fl) \<and> same_config p p'
    \<and> (\<forall>c. rc p' c = rc p c + (if c = b then 1 else 0)) \<and> (\<forall>c. bh p' c = bh p c)"
proof -
  note d = pool_invD [OF inv]
  have null: "is_null (pmem p b) \<longleftrightarrow> b = Blk 0" by (rule ids_okD(2) [OF d(2) b])
  have "\<exists>q. (if rc p b = 0 \<and> \<not> is_null (pmem p b)
            then bindE (fq_remove b (fq p)) (\<lambda>q. Inr (p\<lparr>fq := q\<rparr>)) else Inr p) = Inr (p\<lparr>fq := q\<rparr>)
          \<and> fq_rep q (filter (\<lambda>x. x \<noteq> b) fl) \<and> same_payload (fq p) q"
  proof (cases "rc p b = 0 \<and> b \<noteq> Blk 0")
    case True
    then have "b \<in> set fl" using d(6) b by simp
    moreover have "remove1 b fl = filter (\<lambda>x. x \<noteq> b) fl"
      using d(5) by (simp add: distinct_remove1_removeAll removeAll_filter_not_eq eq_commute)
    ultimately show ?thesis using fbq.take_out_mem [OF d(4), of b] True null by auto
  next
    case False
    then have "b \<notin> set fl" using d(6) by auto
    then have "filter (\<lambda>x. x \<noteq> b) fl = fl" by (intro filter_True) auto
    then show ?thesis using False null d(4) fbq.same_refl
      by (intro exI [of _ "fq p"]) auto
  qed
  then obtain q where q: "(if rc p b = 0 \<and> \<not> is_null (pmem p b)
            then bindE (fq_remove b (fq p)) (\<lambda>q. Inr (p\<lparr>fq := q\<rparr>)) else Inr p) = Inr (p\<lparr>fq := q\<rparr>)"
    "fq_rep q (filter (\<lambda>x. x \<noteq> b) fl)" "same_payload (fq p) q" by blast
  let ?p = "p\<lparr>fq := q\<rparr>" let ?p' = "set_pmem (add_ref 1 b (pmem ?p)) ?p"
  note c = pool_core_fq [OF d(1) q(2,3)]
  have cfg: "same_config p ?p'" by (simp add: same_config_def set_pmem_def)
  have r: "rc ?p' c = rc p c + (if c = b then 1 else 0)" "bh ?p' c = bh p c" for c
    using c(2,3) by simp_all
  have "pool_inv ?p' (filter (\<lambda>x. x \<noteq> b) fl)"
    using pool_core_add_ref [OF c(1)] d(6,7) r same_config_blocks [OF cfg]
    unfolding pool_inv_def by (auto dest: d(7) [OF b])
  then show ?thesis using q(1) r cfg by (auto simp: touch_step_def)
qed

lemma touch_spec:
  assumes "pool_inv p fl" "set bs \<subseteq> set (blocks p)"
  shows "\<exists>p'. touch bs p = Inr p' \<and> pool_inv p' (filter (\<lambda>x. x \<notin> set bs) fl) \<and> same_config p p'
    \<and> (\<forall>c. rc p' c = rc p c + int (count_list bs c)) \<and> (\<forall>c. bh p' c = bh p c)"
  unfolding touch_def using assms
proof (induction bs arbitrary: p fl)
  case (Cons b bs)
  obtain p1 where 1: "touch_step b p = Inr p1" "pool_inv p1 (filter (\<lambda>x. x \<noteq> b) fl)" "same_config p p1"
    "\<And>c. rc p1 c = rc p c + (if c = b then 1 else 0)" "\<And>c. bh p1 c = bh p c"
    using touch_step_spec [OF Cons.prems(1), of b] Cons.prems(2) by auto
  have "set bs \<subseteq> set (blocks p1)" using Cons.prems(2) same_config_blocks [OF 1(3)] by simp
  from Cons.IH [OF 1(2) this] obtain p2 where 2: "foldE touch_step bs p1 = Inr p2"
    "pool_inv p2 (filter (\<lambda>x. x \<notin> set bs) (filter (\<lambda>x. x \<noteq> b) fl))" "same_config p1 p2"
    "\<And>c. rc p2 c = rc p1 c + int (count_list bs c)" "\<And>c. bh p2 c = bh p1 c" by blast
  have "filter (\<lambda>x. x \<notin> set bs) (filter (\<lambda>x. x \<noteq> b) fl) = filter (\<lambda>x. x \<notin> set (b # bs)) fl"
    by (simp add: conj_commute)
  then show ?case using 1 2 same_config_trans [OF 1(3) 2(3)] by auto
qed simp

lemma fold_add_ref [simp]:
  "ref_cnt (fold (add_ref k) bs m c) = ref_cnt (m c) + k * int (count_list bs c)"
  "block_hash (fold (add_ref k) bs m c) = block_hash (m c)"
  "block_id (fold (add_ref k) bs m c) = block_id (m c)"
  "is_null (fold (add_ref k) bs m c) = is_null (m c)"
  "next_free_block (fold (add_ref k) bs m c) = next_free_block (m c)"
  "prev_free_block (fold (add_ref k) bs m c) = prev_free_block (m c)"
  by (induction bs arbitrary: m) (auto simp: algebra_simps)

lemma pool_core_mem:
  assumes "pool_core p fl"
    "\<And>b. block_hash (m b) = bh p b" "\<And>b. block_id (m b) = block_id (pmem p b)"
    "\<And>b. is_null (m b) = is_null (pmem p b)" "\<And>b. next_free_block (m b) = next_free_block (pmem p b)"
    "\<And>b. prev_free_block (m b) = prev_free_block (pmem p b)"
  shows "pool_core (set_pmem m p) fl"
  using assms unfolding pool_core_def
  by (auto simp: fq_set_pmem intro!: fq_rep_frame [of "fq p"] ids_ok_frame [of p] cache_ok_frame [of p])

text \<open>The blocks of \<open>bs\<close> that are released: those that only this owner held.\<close>

definition released :: "block_pool \<Rightarrow> blk_ref list \<Rightarrow> blk_ref list" where
  "released p bs = filter (\<lambda>b. rc p b = 1 \<and> b \<noteq> Blk 0) bs"

lemma count_list_distinct_nn:
  assumes "distinct (filter (\<lambda>b. b \<noteq> z) bs)" "c \<noteq> z"
  shows "count_list bs c = (if c \<in> set bs then 1 else 0)"
  using assms by (induction bs) (auto simp: count_list_0_iff split: if_splits)

lemma free_blocks_spec:
  assumes inv: "pool_inv p fl" and bs: "set bs \<subseteq> set (blocks p)"
    and dist: "distinct (filter (\<lambda>b. b \<noteq> Blk 0) bs)"
    and held: "\<forall>b \<in> set bs. b \<noteq> Blk 0 \<longrightarrow> 0 < rc p b"
  shows "\<exists>p'. free_blocks bs p = Inr p' \<and> pool_inv p' (fl @ released p bs) \<and> same_config p p'
    \<and> (\<forall>c. rc p' c = rc p c - int (count_list bs c)) \<and> (\<forall>c. bh p' c = bh p c)"
proof -
  note d = pool_invD [OF inv]
  define m where "m = fold (add_ref (-1)) bs (pmem p)"
  have rcm: "ref_cnt (m c) = rc p c - int (count_list bs c)"
    "block_hash (m c) = bh p c" "is_null (m c) = is_null (pmem p c)" for c by (simp_all add: m_def)
  let ?p = "set_pmem m p"
  have core: "pool_core ?p fl" by (rule pool_core_mem [OF d(1)]) (simp_all add: m_def)
  have cnt: "count_list bs c = (if c \<in> set bs then 1 else 0)" if "c \<noteq> Blk 0" for c
    by (rule count_list_distinct_nn [OF dist that])
  have freed: "filter (\<lambda>b. ref_cnt (m b) = 0 \<and> \<not> is_null (m b)) bs = released p bs"
    unfolding released_def
  proof (rule filter_cong [OF refl])
    fix b assume b: "b \<in> set bs"
    then have "is_null (pmem p b) \<longleftrightarrow> b = Blk 0" using ids_okD(2) [OF d(2)] bs by auto
    then show "(ref_cnt (m b) = 0 \<and> \<not> is_null (m b)) = (rc p b = 1 \<and> b \<noteq> Blk 0)"
      using cnt [of b] b by (auto simp: rcm)
  qed
  have rel: "released p bs = filter (\<lambda>b. rc p b = 1) (filter (\<lambda>b. b \<noteq> Blk 0) bs)"
    unfolding released_def filter_filter by (rule filter_cong) auto
  have "distinct (released p bs)" by (subst rel) (rule distinct_filter [OF dist])
  moreover have "set (released p bs) \<inter> set fl = {}" unfolding d(6) released_def by auto
  ultimately have dd: "distinct (fl @ released p bs)" using d(5) by auto
  have real: "\<forall>b \<in> set (released p bs). real_blk b"
    using bs blocks_real [of _ p] by (auto simp: released_def)
  have "fq_rep (fq ?p) fl" using core by (simp add: pool_core_def)
  then obtain q where q: "append_n (released p bs) (fq ?p) = Inr q" "fq_rep q (fl @ released p bs)"
    "same_payload (fq ?p) q"
    using fbq.rep_put_n [OF _ dd real] by metis
  note c = pool_core_fq [OF core q(2,3)]
  let ?p' = "?p\<lparr>fq := q\<rparr>"
  have p': "?p' = p\<lparr>fq := q\<rparr>" by (simp add: set_pmem_def)
  have "free_blocks bs p = Inr ?p'"
    using q(1) by (simp add: free_blocks_def Let_def freed fq_set_pmem p' flip: m_def)
  moreover have cfg: "same_config p ?p'" by (simp add: same_config_def set_pmem_def)
  moreover have r: "rc ?p' c = rc p c - int (count_list bs c)" "bh ?p' c = bh p c" for c
    unfolding c(2,3) by (simp_all add: rcm)
  moreover have "pool_inv ?p' (fl @ released p bs)"
  proof -
    have "b \<in> set (fl @ released p bs) \<longleftrightarrow> b \<in> set (blocks p) \<and> rc ?p' b = 0 \<and> b \<noteq> Blk 0" for b
    proof (cases "b = Blk 0")
      case True
      then show ?thesis using d(6) by (simp add: released_def)
    next
      case False
      then show ?thesis unfolding r cnt [OF False] using d(6) bs held
        by (cases "b \<in> set bs") (auto simp: released_def)
    qed
    moreover have "0 \<le> rc ?p' b" if "b \<in> set (blocks p)" "b \<noteq> Blk 0" for b
      unfolding r cnt [OF that(2)] using d(7) [OF that] held that by (cases "b \<in> set bs") auto
    ultimately show ?thesis
      using c(1) same_config_blocks [OF cfg] unfolding pool_inv_def by auto
  qed
  ultimately show ?thesis by blast
qed

section \<open>Caching full blocks\<close>

fun hs_list :: "hash_seq \<Rightarrow> bytes list" where
  "hs_list (HS_list hs) = hs"
| "hs_list (HS_grouped l) = bhl_iter l"

lemma hs_from_list: "0 \<le> i \<Longrightarrow> hs_from hs i = drop (nat i) (hs_list hs)"
proof (cases hs)
  case (HS_grouped l)
  assume i: "0 \<le> i"
  let ?n = "nat (bhl_len l)"
  have "py_clip ?n (bhl_len l) = ?n" "py_clip ?n i = min (nat i) ?n"
    using i by (auto simp: py_clip_def min_def)
  then show ?thesis using HS_grouped
    by (simp add: bhl_slice_iter py_slice_def Let_def min_def)
qed (simp add: py_from_nonneg)

lemma hs_at_list: "0 \<le> i \<Longrightarrow> i < int (length (hs_list hs)) \<Longrightarrow> hs_at hs i = Inr (hs_list hs ! nat i)"
  by (cases hs) (auto simp: py_index_def bhl_iter_def nth_map split: if_splits)

lemma set_block_hash_simps:
  assumes "set_block_hash b k m = Inr m'"
  shows "block_hash (m' c) = (if c = b then Some k else block_hash (m c))"
    "ref_cnt (m' c) = ref_cnt (m c)" "block_id (m' c) = block_id (m c)" "is_null (m' c) = is_null (m c)"
    "next_free_block (m' c) = next_free_block (m c)" "prev_free_block (m' c) = prev_free_block (m c)"
  using assms by (auto simp: set_block_hash_def bindE_eq_Inr split: if_splits)

text \<open>The heap and map update of one cached block.\<close>

lemma cache_one_core:
  assumes core: "pool_core p fl" and b: "b \<in> set (blocks p)" "b \<noteq> Blk 0" "bh p b = None"
    and en: "enable_caching p"
  shows "\<exists>m. set_block_hash b key (pmem p) = Inr m
    \<and> pool_core ((set_pmem m p)\<lparr>cached_block_hash_to_block :=
        bhm_insert m key b (cached_block_hash_to_block p)\<rparr>) fl"
proof -
  obtain m where m: "set_block_hash b key (pmem p) = Inr m" using b(3) by (simp add: set_block_hash_def)
  note s = set_block_hash_simps [OF m]
  let ?c = "cached_block_hash_to_block p"
  let ?q = "(set_pmem m p)\<lparr>cached_block_hash_to_block := bhm_insert m key b ?c\<rparr>"
  have ids: "ids_ok p" and co: "cache_ok p" and fr: "fq_rep (fq p) fl"
    using core by (auto simp: pool_core_def)
  have cfg: "same_config p ?q" by (simp add: same_config_def set_pmem_def)
  have wf: "bhm_wf (\<lambda>b. block_id (m b)) ?c" and refs: "\<And>k. bhm_refs ?c k = {b \<in> set (blocks p). bh p b = Some k}"
    using co by (auto simp: cache_ok_def s)
  have new: "\<forall>b' \<in> bhm_refs ?c key. block_id (m b') \<noteq> block_id (m b)"
  proof
    fix b' assume "b' \<in> bhm_refs ?c key"
    then have b': "b' \<in> set (blocks p)" "b' \<noteq> b" using b(3) by (auto simp: refs)
    then show "block_id (m b') \<noteq> block_id (m b)" using ids_ok_inj [OF ids b'(1) b(1)] by (auto simp: s)
  qed
  have "fq_rep (fq ?q) fl" by (rule fq_rep_frame [OF fr]) (simp_all add: set_pmem_def s)
  moreover have "ids_ok ?q" by (rule ids_ok_frame [OF ids cfg]) (simp_all add: s set_pmem_def)
  moreover have "cache_ok ?q"
    unfolding cache_ok_def
    using bhm.ins_wf [OF wf new] bhm.ins_held [OF wf new] refs b co en same_config_blocks [OF cfg] cfg
    by (auto simp: s set_pmem_def same_config_def cache_ok_def)
  ultimately show ?thesis using m by (auto simp: pool_core_def)
qed

lemma cache_block_step_spec:
  assumes core: "pool_core p fl" and en: "enable_caching p" and b: "b \<in> set (blocks p)"
    and un: "b \<noteq> Blk 0 \<Longrightarrow> bh p b = None" and i: "i < length hs" and g: "0 \<le> gid" "gid < 2 ^ 32"
  shows "\<exists>p' nh'. cache_block_step gid hs (i, b) (p, nh) = Inr (p', nh') \<and> pool_core p' fl \<and> same_config p p'
    \<and> kv_event_queue p' = kv_event_queue p \<and> (\<forall>c. rc p' c = rc p c)
    \<and> (\<forall>c. bh p' c = (if c = b \<and> b \<noteq> Blk 0 then Some (hs ! i @ be_bytes 4 gid) else bh p c))"
proof (cases "b = Blk 0")
  case True
  then have "is_null (pmem p b)" using core b ids_okD(2) by (auto simp: pool_core_def)
  then show ?thesis using True core by (simp add: cache_block_step_def)
next
  case False
  let ?key = "hs ! i @ be_bytes 4 gid"
  have nn: "\<not> is_null (pmem p b)" using False core b ids_okD(2) by (auto simp: pool_core_def)
  have key: "make_block_hash_with_group_id (hs ! i) gid = Inr ?key"
    using make_block_hash_total [OF g] make_block_hash_roundtrip(3) by blast
  obtain m where m: "set_block_hash b ?key (pmem p) = Inr m"
    "pool_core ((set_pmem m p)\<lparr>cached_block_hash_to_block :=
        bhm_insert m ?key b (cached_block_hash_to_block p)\<rparr>) fl"
    using cache_one_core [OF core b False un en] False by blast
  note s = set_block_hash_simps [OF m(1)]
  have "bh p b = None" using un False by simp
  then show ?thesis using nn key i m False
    by (simp add: cache_block_step_def Let_def s same_config_def set_pmem_def)
qed

lemma cache_block_steps_spec:
  assumes "pool_core p fl" "enable_caching p" "set bs \<subseteq> set (blocks p)"
    "distinct (filter (\<lambda>b. b \<noteq> Blk 0) bs)" "\<forall>b \<in> set bs. b \<noteq> Blk 0 \<longrightarrow> bh p b = None"
    "k + length bs \<le> length hs" "0 \<le> gid" "gid < 2 ^ 32"
  shows "\<exists>p' nh'. foldE (cache_block_step gid hs) (enumerate k bs) (p, nh) = Inr (p', nh')
    \<and> pool_core p' fl \<and> same_config p p' \<and> kv_event_queue p' = kv_event_queue p \<and> (\<forall>c. rc p' c = rc p c)
    \<and> (\<forall>i < length bs. bs ! i \<noteq> Blk 0 \<longrightarrow> bh p' (bs ! i) = Some (hs ! (k + i) @ be_bytes 4 gid))
    \<and> (\<forall>c. c \<notin> set bs \<or> c = Blk 0 \<longrightarrow> bh p' c = bh p c)"
  using assms
proof (induction bs arbitrary: p k nh)
  case (Cons b bs)
  obtain p1 nh1 where 1: "cache_block_step gid hs (k, b) (p, nh) = Inr (p1, nh1)" "pool_core p1 fl"
    "same_config p p1" "kv_event_queue p1 = kv_event_queue p" "\<And>c. rc p1 c = rc p c"
    "\<And>c. bh p1 c = (if c = b \<and> b \<noteq> Blk 0 then Some (hs ! k @ be_bytes 4 gid) else bh p c)"
    using cache_block_step_spec [OF Cons.prems(1,2), of b k hs gid nh] Cons.prems(3-) by auto
  have "enable_caching p1" "set bs \<subseteq> set (blocks p1)" "distinct (filter (\<lambda>b. b \<noteq> Blk 0) bs)"
    "Suc k + length bs \<le> length hs"
    using Cons.prems same_config_blocks [OF 1(3)] 1(3) by (auto simp: same_config_def split: if_splits)
  moreover have "\<forall>c \<in> set bs. c \<noteq> Blk 0 \<longrightarrow> bh p1 c = None"
    using Cons.prems(4,5) 1(6) by (auto split: if_splits)
  ultimately obtain p2 nh2 where 2: "foldE (cache_block_step gid hs) (enumerate (Suc k) bs) (p1, nh1) = Inr (p2, nh2)"
    "pool_core p2 fl" "same_config p1 p2" "kv_event_queue p2 = kv_event_queue p1" "\<forall>c. rc p2 c = rc p1 c"
    "\<forall>i < length bs. bs ! i \<noteq> Blk 0 \<longrightarrow> bh p2 (bs ! i) = Some (hs ! (Suc k + i) @ be_bytes 4 gid)"
    "\<forall>c. c \<notin> set bs \<or> c = Blk 0 \<longrightarrow> bh p2 c = bh p1 c"
    using Cons.IH [OF 1(2)] Cons.prems(7,8) by blast
  have "bh p2 ((b # bs) ! i) = Some (hs ! (k + i) @ be_bytes 4 gid)"
    if "i < length (b # bs)" "(b # bs) ! i \<noteq> Blk 0" for i
  proof (cases i)
    case 0
    then have "b \<notin> set bs" using that Cons.prems(4) by auto
    then show ?thesis using 0 that 2(7) 1(6) by simp
  next
    case (Suc j)
    then show ?thesis using that 2(6) by simp
  qed
  moreover have "bh p2 c = bh p c" if "c \<notin> set (b # bs) \<or> c = Blk 0" for c
    using that 2(7) 1(6) by auto
  ultimately show ?case
    using 1 2 same_config_trans [OF 1(3) 2(3)] by simp
qed simp

text \<open>Extra keys for an event never raise: the running index starts at 0 and stays non-negative.\<close>

lemma mm_keys_loop_index: "0 \<le> snd (mm_keys_loop mms s e cur keys)"
  by (induction mms s e cur keys rule: mm_keys_loop.induct) (subst mm_keys_loop.simps, auto simp: Let_def)

lemma generate_keys_total:
  assumes "0 \<le> i"
  shows "\<exists>keys i' r'. generate_block_hash_extra_keys sha r s e i = Inr (keys, i', r') \<and> 0 \<le> i'"
proof -
  have "\<exists>mk i'. gen_mm_extra_hash_keys r s e i = Inr (mk, i') \<and> 0 \<le> i'"
    using assms mm_keys_loop_index [of "mm_features r" s e "nat i" "[]"]
    by (cases "mm_keys_loop (mm_features r) s e (nat i) []")
       (auto simp: gen_mm_extra_hash_keys_def Let_def)
  then show ?thesis
    by (auto simp: generate_block_hash_extra_keys_def Let_def split: prod.split)
qed

lemma event_keys_total:
  assumes "\<forall>i \<in> set is. 0 \<le> i \<and> i < int (length blks)" "0 \<le> mi"
  shows "\<exists>res. foldE (event_keys_step sha m blks bs) is (acc, mi, r) = Inr res"
  using assms
proof (induction "is" arbitrary: acc mi r)
  case (Cons i js)
  have i: "py_index blks i = Inr (blks ! nat i)" using Cons.prems(1) by (simp add: py_index_def)
  obtain keys mi' r' where g: "generate_block_hash_extra_keys sha r (i * bs) (i * bs + bs) mi = Inr (keys, mi', r')" "0 \<le> mi'"
    using generate_keys_total [OF Cons.prems(2)] by blast
  show ?case
  proof (cases "is_null (m (blks ! nat i))")
    case True
    then show ?thesis using Cons i by (simp add: event_keys_step_def)
  next
    case False
    then show ?thesis using Cons i g by (simp add: event_keys_step_def)
  qed
qed simp

text \<open>Caching the full blocks of a request whose hashes cover them.\<close>

lemma cache_full_blocks_spec:
  assumes inv: "pool_inv p fl" and en: "enable_caching p"
    and n: "0 \<le> nc" "nc < nf" "nf \<le> int (length blks)" "nf \<le> int (length (block_hashes r))"
    and hs: "hash_seq_for bs (hash_block_size p) (block_hashes r) = Inr hs" "nf \<le> int (length (hs_list hs))"
    and new: "new = take (nat nf - nat nc) (drop (nat nc) blks)"
    and blks: "set new \<subseteq> set (blocks p)" "distinct (filter (\<lambda>b. b \<noteq> Blk 0) new)"
      "\<forall>b \<in> set new. b \<noteq> Blk 0 \<longrightarrow> bh p b = None"
    and g: "0 \<le> gid" "gid < 2 ^ 32"
  shows "\<exists>p'. cache_full_blocks sha r blks nc nf bs gid p = Inr p' \<and> pool_inv p' fl \<and> same_config p p'
    \<and> (\<forall>c. rc p' c = rc p c)
    \<and> (\<forall>i < length new. new ! i \<noteq> Blk 0 \<longrightarrow>
          bh p' (new ! i) = Some (hs_list hs ! (nat nc + i) @ be_bytes 4 gid))
    \<and> (\<forall>c. c \<notin> set new \<or> c = Blk 0 \<longrightarrow> bh p' c = bh p c)"
proof -
  note d = pool_invD [OF inv]
  let ?hs = "drop (nat nc) (hs_list hs)"
  have sl: "py_slice blks nc nf = new" using n by (simp add: new py_slice_nonneg)
  have len: "0 + length new \<le> length ?hs" using n hs(2) by (simp add: new)
  from cache_block_steps_spec [OF d(1) en blks len g, of "[]"] obtain p1 nh1 where
    1: "foldE (cache_block_step gid ?hs) (enumerate 0 new) (p, []) = Inr (p1, nh1)"
    "pool_core p1 fl" "same_config p p1" "\<And>c. rc p1 c = rc p c"
    "\<And>i. i < length new \<Longrightarrow> new ! i \<noteq> Blk 0 \<Longrightarrow> bh p1 (new ! i) = Some (?hs ! i @ be_bytes 4 gid)"
    "\<And>c. c \<notin> set new \<or> c = Blk 0 \<Longrightarrow> bh p1 c = bh p c" by auto
  have inv1: "pool_inv p1 fl"
    using 1(2,4) d(6,7) same_config_blocks [OF 1(3)] unfolding pool_inv_def by simp
  obtain keys mi r' where k: "foldE (event_keys_step sha (pmem p1) blks bs) [nc..nf - 1] ([], 0, r) = Inr (keys, mi, r')"
    using event_keys_total [of "[nc..nf - 1]" blks 0 sha "pmem p1" bs "[]" r] n by auto
  obtain parent where par: "(if nc = 0 then Inr None else bindE (hs_at hs (nc - 1))
        (\<lambda>h. Inr (Some (maybe_convert_block_hash (use_int_hashes p) h)))) = Inr parent"
    using hs_at_list [of "nc - 1" hs] n hs(2) by (cases "nc = 0") auto
  define p' where "p' = (if enable_kv_cache_events p then p1\<lparr>kv_event_queue := kv_event_queue p1 @
                 [BlockStored nh1 parent (py_slice (all_token_ids r) (nc * bs) (nf * bs))
                    bs (map_option snd (lora_request r)) (map_option fst (lora_request r))
                    (if keys = [] then None else Some keys) gid]\<rparr> else p1)"
  have "cache_full_blocks sha r blks nc nf bs gid p = Inr p'"
    using n hs(1) 1(1) k par by (simp add: cache_full_blocks_def hs_from_list sl p'_def Let_def)
  moreover have e: "fq p' = fq p1" "cached_block_hash_to_block p' = cached_block_hash_to_block p1" "same_config p1 p'"
    by (simp_all add: p'_def same_config_def)
  moreover have "pool_inv p' fl"
    using inv1 same_config_blocks [OF e(3)] e unfolding pool_inv_def pool_core_def
    by (auto intro: ids_ok_frame [of p1] cache_ok_frame [of p1])
  moreover have "same_config p p'" using 1(3) e(3) by (rule same_config_trans)
  moreover have "?hs ! i = hs_list hs ! (nat nc + i)" for i using n hs(2) by simp
  ultimately show ?thesis using 1(4-6) by (intro exI [of _ p']) auto
qed

section \<open>Eviction by id, reset, construction, usage\<close>

lemma evict_blocks_spec:
  assumes "pool_inv p fl" "\<forall>i \<in> set is. 0 \<le> i \<and> i < num_gpu_blocks p"
  shows "\<exists>p'. evict_blocks is p = Inr p' \<and> pool_inv p' fl \<and> same_config p p' \<and> (\<forall>c. rc p' c = rc p c)
    \<and> (\<forall>c. bh p' c = (if c \<in> (\<lambda>i. Blk (nat i)) ` set is then None else bh p c))"
  unfolding evict_blocks_def using assms
proof (induction "is" arbitrary: p)
  case (Cons i js)
  let ?b = "Blk (nat i)" let ?p1 = "snd (maybe_evict_cached_block ?b p)"
  have i: "0 \<le> i" "i < num_gpu_blocks p" using Cons.prems(2) by auto
  then have b: "?b \<in> set (blocks p)" "py_index (blocks p) i = Inr ?b" "i < int (length (blocks p))"
    by (auto simp: set_blocks py_index_def blocks_def)
  note d = pool_invD [OF Cons.prems(1)]
  note e = maybe_evict_spec [OF d(1) b(1)]
  have inv1: "pool_inv ?p1 fl"
    using e(2,4) d(6,7) same_config_blocks [OF e(3)] unfolding pool_inv_def by simp
  have "\<forall>i \<in> set js. 0 \<le> i \<and> i < num_gpu_blocks ?p1" using Cons.prems(2) e(3) by (simp add: same_config_def)
  from Cons.IH [OF inv1 this] show ?case
    using b e(4,5) same_config_trans [OF e(3)] by (auto split: if_splits)
qed auto

lemma fold_reset_hash [simp]:
  "block_hash (fold reset_hash bs m c) = (if c \<in> set bs then None else block_hash (m c))"
  "ref_cnt (fold reset_hash bs m c) = ref_cnt (m c)"
  "block_id (fold reset_hash bs m c) = block_id (m c)"
  "is_null (fold reset_hash bs m c) = is_null (m c)"
  "next_free_block (fold reset_hash bs m c) = next_free_block (m c)"
  "prev_free_block (fold reset_hash bs m c) = prev_free_block (m c)"
  by (induction bs arbitrary: m) auto

lemma reset_prefix_cache_spec:
  assumes inv: "pool_inv p fl"
  shows "fst (reset_prefix_cache p) \<longleftrightarrow> (\<forall>b \<in> set (blocks p). b \<noteq> Blk 0 \<longrightarrow> rc p b = 0)"
    and "\<not> fst (reset_prefix_cache p) \<Longrightarrow> snd (reset_prefix_cache p) = p"
    and "fst (reset_prefix_cache p) \<Longrightarrow> pool_inv (snd (reset_prefix_cache p)) fl
      \<and> (\<forall>b \<in> set (blocks p). bh (snd (reset_prefix_cache p)) b = None)
      \<and> cached_block_hash_to_block (snd (reset_prefix_cache p)) = []"
proof -
  note d = pool_invD [OF inv]
  let ?U = "{b \<in> set (blocks p). b \<noteq> Blk 0}"
  have card: "card ?U = nat (num_gpu_blocks p) - 1" "finite ?U"
  proof -
    have "?U = set (blocks p) - {Blk 0}" by auto
    moreover have "card (set (blocks p)) = nat (num_gpu_blocks p)"
      by (simp add: set_blocks card_image inj_on_def)
    ultimately show "card ?U = nat (num_gpu_blocks p) - 1" "finite ?U"
      using ids_ok_null [OF d(2)] by simp_all
  qed
  have sub: "set fl \<subseteq> ?U" unfolding d(6) by auto
  have "length fl = card (set fl)" using d(5) by (simp add: distinct_card)
  then have "num_gpu_blocks p - get_num_free_blocks p = 1 \<longleftrightarrow> card (set fl) = card ?U"
    using d(2) by (auto simp: get_num_free_blocks_def d(8) card(1) ids_ok_def)
  also have "\<dots> \<longleftrightarrow> set fl = ?U" using sub card(2) card_subset_eq by metis
  also have "\<dots> \<longleftrightarrow> (\<forall>b \<in> set (blocks p). b \<noteq> Blk 0 \<longrightarrow> rc p b = 0)" unfolding d(6) by auto
  finally have one: "num_gpu_blocks p - get_num_free_blocks p = 1 \<longleftrightarrow> (\<forall>b \<in> set (blocks p). b \<noteq> Blk 0 \<longrightarrow> rc p b = 0)" .
  then show "fst (reset_prefix_cache p) \<longleftrightarrow> (\<forall>b \<in> set (blocks p). b \<noteq> Blk 0 \<longrightarrow> rc p b = 0)"
    by (auto simp: reset_prefix_cache_def Let_def)
  show "\<not> fst (reset_prefix_cache p) \<Longrightarrow> snd (reset_prefix_cache p) = p"
    by (simp add: reset_prefix_cache_def Let_def split: if_splits)
  assume t: "fst (reset_prefix_cache p)"
  let ?p' = "snd (reset_prefix_cache p)"
  have m: "pmem ?p' = fold reset_hash (blocks p) (pmem p)" "cached_block_hash_to_block ?p' = []"
    "same_config p ?p'" "num_free_blocks (fq ?p') = num_free_blocks (fq p)"
    using t by (auto simp: reset_prefix_cache_def Let_def set_pmem_def same_config_def split: if_splits)
  have "fq_rep (fq ?p') fl" by (rule fq_rep_frame [OF d(4)]) (simp_all add: m)
  moreover have "ids_ok ?p'" by (rule ids_ok_frame [OF d(2) m(3)]) (simp_all add: m)
  moreover have "cache_ok ?p'"
    using ids_ok_null [OF d(2)] same_config_blocks [OF m(3)]
    by (auto simp: cache_ok_def m bhm_wf_def bhm_refs_def)
  ultimately show "pool_inv ?p' fl \<and> (\<forall>b \<in> set (blocks p). bh ?p' b = None) \<and> cached_block_hash_to_block ?p' = []"
    using d(6,7) same_config_blocks [OF m(3)] unfolding pool_inv_def pool_core_def by (simp add: m)
qed

lemma block_pool_init_spec:
  assumes "0 < n"
  shows "\<exists>p. block_pool_init n caching hbs events ui = Inr p \<and> pool_inv p (map Blk [1..<nat n])
    \<and> num_gpu_blocks p = n \<and> enable_caching p = caching \<and> hash_block_size p = hbs
    \<and> (\<forall>b \<in> set (blocks p). rc p b = 0 \<and> bh p b = None) \<and> kv_event_queue p = []"
proof -
  let ?bs = "map Blk [0..<nat n]" let ?q0 = "fq_init fresh_heap ?bs"
  have dist: "distinct (framed ?bs)" by (auto simp: distinct_map inj_on_def)
  have nolinks: "\<forall>b. next_free_block (fresh_heap b) = None \<and> prev_free_block (fresh_heap b) = None"
    by (auto simp: fresh_heap_def new_block_def split: blk_ref.splits)
  have bs: "?bs = Blk 0 # map Blk [1..<nat n]" using assms by (simp add: upt_conv_Cons)
  have rep: "fq_rep ?q0 (Blk 0 # map Blk [1..<nat n])" using fq_init_rep(1) [OF dist nolinks] bs by simp
  then obtain q where q: "popleft ?q0 = Inr (Blk 0, q)" "fq_rep q (map Blk [1..<nat n])"
    "\<And>b. payload (mem q b) = payload (mem ?q0 b)"
    using popleft_nonempty by blast
  have pay: "payload (mem q (Blk i)) = (int i, 0, None, False)" if "i < nat n" for i
  proof -
    have "payload (mem ?q0 (Blk i)) = payload (fresh_heap (Blk i))"
      using that by (intro fq_init_rep(2) [OF dist nolinks]) auto
    also have "\<dots> = (int i, 0, None, False)" by (simp add: fresh_heap_def payload_def new_block_def)
    finally show ?thesis by (simp only: q(3))
  qed
  define p where "p = \<lparr>num_gpu_blocks = n, enable_caching = caching, hash_block_size = hbs,
      fq = q\<lparr>mem := (mem q)(Blk 0 := (mem q (Blk 0))\<lparr>is_null := True\<rparr>)\<rparr>,
      cached_block_hash_to_block = [], null_block = Blk 0, enable_kv_cache_events = events,
      use_int_hashes = ui, kv_event_queue = []\<rparr>"
  have "block_pool_init n caching hbs events ui = Inr p"
    using assms q(1) by (simp add: block_pool_init_def p_def)
  moreover have v: "block_id (pmem p (Blk i)) = int i" "rc p (Blk i) = 0" "bh p (Blk i) = None"
    "is_null (pmem p (Blk i)) \<longleftrightarrow> i = 0" if "i < nat n" for i
    using pay [OF that] by (auto simp: p_def payload_def)
  have blk: "set (blocks p) = Blk ` {..<nat n}" by (simp add: set_blocks p_def)
  have "fq_rep (fq p) (map Blk [1..<nat n])" by (rule fq_rep_frame [OF q(2)]) (simp_all add: p_def)
  moreover have f: "cached_block_hash_to_block p = []" "num_gpu_blocks p = n" "enable_caching p = caching"
    "hash_block_size p = hbs" "kv_event_queue p = []" "null_block p = Blk 0" by (simp_all add: p_def)
  moreover have "ids_ok p" using v assms by (simp add: ids_ok_def f)
  moreover have "cache_ok p"
    unfolding cache_ok_def f using v assms blk by (auto simp: bhm_wf_def bhm_refs_def)
  ultimately show ?thesis
    using v blk by (intro exI [of _ p]) (auto simp: pool_inv_def pool_core_def)
qed

text \<open>A hit returns, for every group, a block that carries that hash for the group.\<close>

lemma get_cached_block_loop_spec:
  assumes "cache_ok p" "\<forall>g \<in> set gs. 0 \<le> g \<and> g < 2 ^ 32"
  shows "\<exists>r. get_cached_block_loop (cached_block_hash_to_block p) h gs acc = Inr r
    \<and> (r = None \<longleftrightarrow> (\<exists>g \<in> set gs. \<forall>b \<in> set (blocks p). bh p b \<noteq> Some (h @ be_bytes 4 g)))
    \<and> (\<forall>bs. r = Some bs \<longrightarrow> (\<exists>cs. bs = acc @ cs \<and>
          list_all2 (\<lambda>g b. b \<in> set (blocks p) \<and> bh p b = Some (h @ be_bytes 4 g)) gs cs))"
  using assms(2)
proof (induction gs arbitrary: acc)
  case (Cons g gs)
  have key: "make_block_hash_with_group_id h g = Inr (h @ be_bytes 4 g)"
    using make_block_hash_total [of g h] make_block_hash_roundtrip(3) [of h g] Cons.prems by auto
  obtain r where r: "get_one_block (h @ be_bytes 4 g) (cached_block_hash_to_block p) = Inr r"
    "r = None \<longleftrightarrow> (\<forall>b \<in> set (blocks p). bh p b \<noteq> Some (h @ be_bytes 4 g))"
    "\<And>b. r = Some b \<Longrightarrow> b \<in> set (blocks p) \<and> bh p b = Some (h @ be_bytes 4 g)"
    using bhm.find_held [of "pmem p" "cached_block_hash_to_block p" "h @ be_bytes 4 g"] assms(1)
    by (auto simp: cache_ok_def)
  show ?case
  proof (cases r)
    case None
    then show ?thesis using key r(1,2) by simp
  next
    case (Some b)
    with r have b: "b \<in> set (blocks p)" "bh p b = Some (h @ be_bytes 4 g)" by auto
    obtain r' where r': "get_cached_block_loop (cached_block_hash_to_block p) h gs (acc @ [b]) = Inr r'"
      "r' = None \<longleftrightarrow> (\<exists>g \<in> set gs. \<forall>b \<in> set (blocks p). bh p b \<noteq> Some (h @ be_bytes 4 g))"
      "\<And>bs. r' = Some bs \<Longrightarrow> \<exists>cs. bs = (acc @ [b]) @ cs \<and>
          list_all2 (\<lambda>g b. b \<in> set (blocks p) \<and> bh p b = Some (h @ be_bytes 4 g)) gs cs"
      using Cons.IH [of "acc @ [b]"] Cons.prems by auto
    have "\<exists>cs. bs = acc @ cs \<and>
          list_all2 (\<lambda>g b. b \<in> set (blocks p) \<and> bh p b = Some (h @ be_bytes 4 g)) (g # gs) cs" if "r' = Some bs" for bs
      using r'(3) [OF that] b by (force intro: exI [of _ "b # _"])
    moreover have "get_cached_block_loop (cached_block_hash_to_block p) h (g # gs) acc = Inr r'"
      using key r(1) r'(1) Some by simp
    moreover have "r' = None \<longleftrightarrow> (\<exists>g \<in> set (g # gs). \<forall>b \<in> set (blocks p). bh p b \<noteq> Some (h @ be_bytes 4 g))"
      using r'(2) b by auto
    ultimately show ?thesis by blast
  qed
qed simp

lemma get_cached_block_spec:
  assumes "cache_ok p" "\<forall>g \<in> set gs. 0 \<le> g \<and> g < 2 ^ 32"
  shows "\<exists>r. get_cached_block h gs p = Inr r
    \<and> (r = None \<longleftrightarrow> (\<exists>g \<in> set gs. \<forall>b \<in> set (blocks p). bh p b \<noteq> Some (h @ be_bytes 4 g)))
    \<and> (\<forall>bs. r = Some bs \<longrightarrow>
          list_all2 (\<lambda>g b. b \<in> set (blocks p) \<and> bh p b = Some (h @ be_bytes 4 g)) gs bs)"
  using get_cached_block_loop_spec [OF assms, of h "[]"] by (auto simp: get_cached_block_def)

lemma pool_free_bounds:
  assumes "pool_inv p fl"
  shows "0 \<le> get_num_free_blocks p" "get_num_free_blocks p \<le> num_gpu_blocks p - 1"
proof -
  note d = pool_invD [OF assms]
  have "set fl \<subseteq> set (blocks p) - {Blk 0}" unfolding d(6) by auto
  then have "card (set fl) \<le> card (set (blocks p) - {Blk 0})" by (rule card_mono [rotated]) simp
  moreover have "card (set (blocks p)) = nat (num_gpu_blocks p)"
    by (simp add: set_blocks card_image inj_on_def)
  ultimately have "length fl \<le> nat (num_gpu_blocks p) - 1"
    using d(5) ids_ok_null [OF d(2)] by (simp add: distinct_card)
  then show "0 \<le> get_num_free_blocks p" "get_num_free_blocks p \<le> num_gpu_blocks p - 1"
    using d(2) by (auto simp: get_num_free_blocks_def d(8) ids_ok_def)
qed

lemma get_usage_bounds:
  assumes "pool_inv p fl" shows "0 \<le> get_usage p" "get_usage p \<le> 1"
  using pool_free_bounds [OF assms]
  by (auto simp: get_usage_def Let_def divide_le_eq_1 field_simps)

section \<open>Histories of the pool\<close>

text \<open>Whatever blocks a caller passes, a successful call of \<open>cache_full_blocks\<close> keeps the invariant.\<close>

lemma cache_block_step_pres:
  assumes "pool_core p fl" "enable_caching p" "snd ib \<in> set (blocks p)"
    "cache_block_step gid hs ib (p, nh) = Inr (p', nh')"
  shows "pool_core p' fl \<and> same_config p p' \<and> kv_event_queue p' = kv_event_queue p \<and> (\<forall>c. rc p' c = rc p c)"
proof -
  obtain i b where ib: "ib = (i, b)" by force
  show ?thesis
  proof (cases "is_null (pmem p b)")
    case True
    then show ?thesis using assms by (simp add: cache_block_step_def ib)
  next
    case False
    then obtain h key m where s: "bh p b = None" "set_block_hash b key (pmem p) = Inr m"
      "p' = (set_pmem m p)\<lparr>cached_block_hash_to_block := bhm_insert m key b (cached_block_hash_to_block p)\<rparr>"
      using assms(4) by (auto simp: cache_block_step_def ib Let_def bindE_eq_Inr)
    have "b \<noteq> Blk 0" using False assms(1,3) ids_okD(2) by (auto simp: pool_core_def ib)
    then have "pool_core p' fl"
      using cache_one_core [OF assms(1), of b key] assms(2,3) s by (auto simp: ib)
    then show ?thesis using s(3) set_block_hash_simps(2) [OF s(2)]
      by (simp add: same_config_def set_pmem_def)
  qed
qed

lemma snd_in_enumerate: "ib \<in> set (enumerate k xs) \<Longrightarrow> snd ib \<in> set xs"
  by (cases ib) (auto simp: enumerate_eq_zip dest: set_zip_rightD)

lemma cache_full_blocks_pres:
  assumes inv: "pool_inv p fl" and en: "enable_caching p" and blks: "set blks \<subseteq> set (blocks p)"
    and run: "cache_full_blocks sha r blks nc nf bs gid p = Inr p'"
  shows "pool_inv p' fl \<and> same_config p p' \<and> (\<forall>c. rc p' c = rc p c)"
proof (cases "nf \<le> nc")
  case True
  then show ?thesis using run inv by (simp add: cache_full_blocks_def)
next
  case False
  obtain hs st where 1: "foldE (cache_block_step gid (hs_from hs nc)) (enumerate 0 (py_slice blks nc nf)) (p, []) = Inr st"
    and rest: "(case st of (p1, new_hashes) \<Rightarrow>
          if \<not> enable_kv_cache_events p then Inr p1
          else bindE (if nc = 0 then Inr None
                      else bindE (hs_at hs (nc - 1))
                             (\<lambda>h. Inr (Some (maybe_convert_block_hash (use_int_hashes p) h)))) (\<lambda>parent.
            bindE (foldE (event_keys_step sha (pmem p1) blks bs) [nc..nf - 1] ([], 0, r))
              (\<lambda>(keys, _, _).
               Inr (p1\<lparr>kv_event_queue := kv_event_queue p1 @
                 [BlockStored new_hashes parent
                    (py_slice (all_token_ids r) (nc * bs) (nf * bs))
                    bs (map_option snd (lora_request r)) (map_option fst (lora_request r))
                    (if keys = [] then None else Some keys) gid]\<rparr>)))) = Inr p'"
    using run False unfolding cache_full_blocks_def by (auto elim!: bindE_eq_InrE)
  obtain p1 nh1 where st: "st = (p1, nh1)" by force
  have p': "p' = p1 \<or> (\<exists>ev. p' = p1\<lparr>kv_event_queue := ev\<rparr>)"
    using rest unfolding st by (auto split: if_splits elim!: bindE_eq_InrE)
  note 1 = 1 [unfolded st]
  let ?P = "\<lambda>(q, nh). pool_core q fl \<and> same_config p q \<and> (\<forall>c. rc q c = rc p c)"
  have "?P (p1, nh1)"
  proof (rule foldE_invariant [OF 1])
    show "?P (p, [])" using pool_invD(1) [OF inv] by simp
    fix ib s t assume ib: "ib \<in> set (enumerate 0 (py_slice blks nc nf))" and s: "?P s"
      and st: "cache_block_step gid (hs_from hs nc) ib s = Inr t"
    obtain q nh where q: "s = (q, nh)" by force
    obtain q' nh' where q': "t = (q', nh')" by force
    have "snd ib \<in> set (py_slice blks nc nf)" by (rule snd_in_enumerate [OF ib])
    then have "snd ib \<in> set (blocks q)" using blks set_py_slice [of blks nc nf] s q same_config_blocks by auto
    moreover have "enable_caching q" using en s q by (auto simp: same_config_def)
    ultimately show "?P t"
      using cache_block_step_pres [of q fl ib gid "hs_from hs nc" nh q' nh'] s st q q' same_config_trans by auto
  qed
  then have p1: "pool_core p1 fl" "same_config p p1" "\<And>c. rc p1 c = rc p c" by auto
  have e: "fq p' = fq p1" "cached_block_hash_to_block p' = cached_block_hash_to_block p1" "same_config p1 p'"
    using p' by (auto simp: same_config_def)
  have "pool_core p' fl"
    using p1(1) e unfolding pool_core_def by (auto intro: ids_ok_frame [of p1] cache_ok_frame [of p1])
  moreover have c: "same_config p p'" using p1(2) e(3) by (rule same_config_trans)
  ultimately show ?thesis
    using pool_invD(6,7) [OF inv] p1(3) e(1) same_config_blocks [OF c] unfolding pool_inv_def by simp
qed

text \<open>
  A state is a pool and, for every block, how many references its users hold. The rules are
  the calls the managers make; a user frees only what it holds, each block once per call.
\<close>

type_synonym pool_state = "block_pool \<times> (blk_ref \<Rightarrow> nat)"

inductive pool_step :: "pool_state \<Rightarrow> pool_state \<Rightarrow> bool" where
  new: "\<lbrakk>0 \<le> n; get_new_blocks n p = Inr (bs, p')\<rbrakk> \<Longrightarrow> pool_step (p, h) (p', \<lambda>b. h b + count_list bs b)"
| touch: "\<lbrakk>set bs \<subseteq> set (blocks p); touch bs p = Inr p'\<rbrakk> \<Longrightarrow> pool_step (p, h) (p', \<lambda>b. h b + count_list bs b)"
| free: "\<lbrakk>set bs \<subseteq> set (blocks p); distinct (filter (\<lambda>b. b \<noteq> Blk 0) bs); \<forall>b \<in> set bs. b \<noteq> Blk 0 \<longrightarrow> 0 < h b;
          free_blocks bs p = Inr p'\<rbrakk> \<Longrightarrow> pool_step (p, h) (p', \<lambda>b. h b - count_list bs b)"
| cache: "\<lbrakk>enable_caching p; set blks \<subseteq> set (blocks p); cache_full_blocks sha r blks nc nf bs gid p = Inr p'\<rbrakk>
          \<Longrightarrow> pool_step (p, h) (p', h)"
| evict: "\<lbrakk>\<forall>i \<in> set is. 0 \<le> i; evict_blocks is p = Inr p'\<rbrakk> \<Longrightarrow> pool_step (p, h) (p', h)"
| reset: "reset_prefix_cache p = (ok, p') \<Longrightarrow> pool_step (p, h) (p', h)"
| events: "take_events p = (evs, p') \<Longrightarrow> pool_step (p, h) (p', h)"

inductive pool_reach :: "pool_state \<Rightarrow> bool" where
  init: "block_pool_init n caching hbs events ui = Inr p \<Longrightarrow> pool_reach (p, \<lambda>_. 0)"
| step: "\<lbrakk>pool_reach s; pool_step s t\<rbrakk> \<Longrightarrow> pool_reach t"

inductive_cases pool_stepE: "pool_step (p, h) (p', h')"

definition owned_inv :: "pool_state \<Rightarrow> bool" where
  "owned_inv s \<longleftrightarrow> (\<exists>fl. pool_inv (fst s) fl)
     \<and> (\<forall>b \<in> set (blocks (fst s)). b \<noteq> Blk 0 \<longrightarrow> rc (fst s) b = int (snd s b))"

lemma owned_inv_keep:
  assumes "owned_inv (p, h)" "pool_inv p' fl'" "same_config p p'" "\<And>c. rc p' c = rc p c"
  shows "owned_inv (p', h)"
  using assms same_config_blocks [OF assms(3)] by (auto simp: owned_inv_def)

lemma evict_blocks_in_range:
  assumes "evict_blocks is p = Inr p'" shows "\<forall>i \<in> set is. i < num_gpu_blocks p \<or> num_gpu_blocks p < 0"
proof -
  define f where "f = (\<lambda>i p. bindE (guardE (i < int (length (blocks p))) AssertionError) (\<lambda>_.
       bindE (py_index (blocks p) i) (\<lambda>b. Inr (snd (maybe_evict_cached_block b p)))))"
  have n: "num_gpu_blocks (snd (maybe_evict_cached_block b q)) = num_gpu_blocks q" for b q
    by (auto simp: maybe_evict_cached_block_def Let_def set_pmem_def split: option.splits prod.splits)
  have "foldE f is p = Inr p' \<Longrightarrow> \<forall>i \<in> set is. i < num_gpu_blocks p \<or> num_gpu_blocks p < 0" for p
  proof (induction "is" arbitrary: p)
    case (Cons i js)
    then obtain b where b: "i < int (length (blocks p))" "foldE f js (snd (maybe_evict_cached_block b p)) = Inr p'"
      by (auto simp: f_def bindE_eq_Inr)
    show ?case using Cons.IH [OF b(2)] b(1) n by (auto simp: blocks_def)
  qed simp
  then show ?thesis using assms by (simp add: evict_blocks_def f_def)
qed

lemma pool_step_inv:
  assumes "pool_step s t" "owned_inv s" shows "owned_inv t"
  using assms
proof (cases rule: pool_step.cases)
  case (new n p bs p' h)
  obtain fl where fl: "pool_inv p fl" using assms(2) new by (auto simp: owned_inv_def)
  show ?thesis
  proof (cases "n \<le> int (length fl)")
    case True
    from get_new_blocks_spec [OF fl new(3) this] new(4)
    have s: "bs = take (nat n) fl" "pool_inv p' (drop (nat n) fl)" "same_config p p'"
      "\<And>c. rc p' c = (if c \<in> set bs then 1 else rc p c)" by auto
    have "rc p' b = int (h b + count_list bs b)" if "b \<in> set (blocks p)" "b \<noteq> Blk 0" for b
    proof -
      have "rc p b = 0" if "b \<in> set bs"
        using that s(1) in_set_takeD pool_invD(6) [OF fl] by fastforce
      moreover have "distinct bs" using s(1) pool_invD(5) [OF fl] by simp
      then have "count_list bs b = (if b \<in> set bs then 1 else 0)"
        by (simp add: count_list_distinct_nn [where z = "Blk 0"] that(2))
      moreover have "rc p b = int (h b)" using assms(2) new(1) that by (auto simp: owned_inv_def)
      ultimately show ?thesis using s(4) by simp
    qed
    then show ?thesis using s(2) same_config_blocks [OF s(3)] new(2) by (auto simp: owned_inv_def)
  next
    case False
    then show ?thesis using get_new_blocks_exhausted [OF fl] new(4) by simp
  qed
next
  case (touch bs p p' h)
  obtain fl where fl: "pool_inv p fl" using assms(2) touch by (auto simp: owned_inv_def)
  from touch_spec [OF fl touch(3)] touch(4) have s: "pool_inv p' (filter (\<lambda>x. x \<notin> set bs) fl)" "same_config p p'"
    "\<And>c. rc p' c = rc p c + int (count_list bs c)" by auto
  then show ?thesis using assms(2) touch(1,2) same_config_blocks [OF s(2)] by (auto simp: owned_inv_def)
next
  case (free bs p h p')
  obtain fl where fl: "pool_inv p fl" using assms(2) free by (auto simp: owned_inv_def)
  have o: "rc p b = int (h b)" if "b \<in> set (blocks p)" "b \<noteq> Blk 0" for b
    using assms(2) free(1) that by (auto simp: owned_inv_def)
  have "\<forall>b \<in> set bs. b \<noteq> Blk 0 \<longrightarrow> 0 < rc p b" using o free(3,5) by auto
  from free_blocks_spec [OF fl free(3,4) this] free(6)
  have s: "pool_inv p' (fl @ released p bs)" "same_config p p'" "\<And>c. rc p' c = rc p c - int (count_list bs c)" by auto
  have "rc p' b = int (h b - count_list bs b)" if "b \<in> set (blocks p)" "b \<noteq> Blk 0" for b
    using o [OF that] s(3) free(5) that count_list_distinct_nn [OF free(4) that(2)] by (auto simp: of_nat_diff)
  then show ?thesis using s(1) same_config_blocks [OF s(2)] free(2) by (auto simp: owned_inv_def)
next
  case (cache p blks sha r nc nf bs gid p' h)
  obtain fl where fl: "pool_inv p fl" using assms(2) cache by (auto simp: owned_inv_def)
  show ?thesis using cache_full_blocks_pres [OF fl cache(3-5)] owned_inv_keep assms(2) cache(1,2) by blast
next
  case (evict "is" p p' h)
  obtain fl where fl: "pool_inv p fl" using assms(2) evict by (auto simp: owned_inv_def)
  have "\<forall>i \<in> set is. 0 \<le> i \<and> i < num_gpu_blocks p"
    using evict(3) evict_blocks_in_range [OF evict(4)] pool_invD(2) [OF fl] by (auto simp: ids_ok_def)
  from evict_blocks_spec [OF fl this] evict(4)
  have "pool_inv p' fl" "same_config p p'" "\<And>c. rc p' c = rc p c" by auto
  then show ?thesis using owned_inv_keep assms(2) evict(1,2) by blast
next
  case (reset p ok p' h)
  obtain fl where fl: "pool_inv p fl" using assms(2) reset by (auto simp: owned_inv_def)
  note r = reset_prefix_cache_spec [OF fl]
  have "same_config p p'" "\<And>c. rc p' c = rc p c"
    using reset(3) by (auto simp: reset_prefix_cache_def Let_def set_pmem_def same_config_def split: if_splits)
  moreover have "pool_inv p' fl" using r(2,3) reset(3) fl by (cases ok) auto
  ultimately show ?thesis using owned_inv_keep assms(2) reset(1,2) by blast
next
  case (events p evs p' h)
  obtain fl where fl: "pool_inv p fl" using assms(2) events by (auto simp: owned_inv_def)
  have c: "same_config p p'" "fq p' = fq p" "cached_block_hash_to_block p' = cached_block_hash_to_block p"
    using events(3) by (auto simp: take_events_def same_config_def split: if_splits)
  have "pool_inv p' fl" using fl same_config_blocks [OF c(1)] c unfolding pool_inv_def pool_core_def
    by (auto intro: ids_ok_frame [of p] cache_ok_frame [of p])
  then show ?thesis using owned_inv_keep [OF _ _ c(1)] assms(2) events(1,2) c(2) by simp
qed

lemma pool_reach_inv: "pool_reach s \<Longrightarrow> owned_inv s"
proof (induction rule: pool_reach.induct)
  case (init n caching hbs events ui p)
  then have "0 < n" by (auto simp: block_pool_init_def bindE_eq_Inr)
  from block_pool_init_spec [OF this, of caching hbs events ui] init show ?case by (auto simp: owned_inv_def)
qed (rule pool_step_inv)

section \<open>Properties\<close>

definition demo_pool :: "int \<Rightarrow> block_pool" where
  "demo_pool n = projr (block_pool_init n True 2 False False)"

lemma demo_pool_init:
  assumes "0 < n"
  shows "block_pool_init n True 2 False False = Inr (demo_pool n)" "pool_inv (demo_pool n) (map Blk [1..<nat n])"
    "num_gpu_blocks (demo_pool n) = n" "enable_caching (demo_pool n)" "hash_block_size (demo_pool n) = 2"
    "\<forall>b \<in> set (blocks (demo_pool n)). rc (demo_pool n) b = 0 \<and> bh (demo_pool n) b = None"
  using block_pool_init_spec [OF assms, of True 2 False False] by (auto simp: demo_pool_def)

lemma demo_pool_reach: "0 < n \<Longrightarrow> pool_reach (demo_pool n, \<lambda>_. 0)"
  using demo_pool_init(1) by (rule pool_reach.init)

lemma demo_blocks: "0 < n \<Longrightarrow> set (blocks (demo_pool n)) = Blk ` {..<nat n}"
  by (simp add: set_blocks demo_pool_init(3))

lemma demo_pool_two:
  obtains p where "get_new_blocks 2 (demo_pool 4) = Inr ([Blk 1, Blk 2], p)" "pool_inv p [Blk 3]"
    "same_config (demo_pool 4) p" "pool_reach (p, \<lambda>b. 0 + count_list [Blk 1, Blk 2] b)"
proof -
  have l: "map Blk [1..<nat 4] = [Blk 1, Blk 2, Blk 3]" by (simp add: upt_conv_Cons)
  from get_new_blocks_spec [OF demo_pool_init(2), of 4 2] obtain p where
    p: "get_new_blocks 2 (demo_pool 4) = Inr ([Blk 1, Blk 2], p)" "pool_inv p [Blk 3]" "same_config (demo_pool 4) p"
    unfolding l by (auto simp: numeral_2_eq_2)
  moreover have "pool_reach (p, \<lambda>b. 0 + count_list [Blk 1, Blk 2] b)"
    by (rule pool_reach.step [OF demo_pool_reach [of 4] pool_step.new [OF _ p(1)]]) simp_all
  ultimately show ?thesis by (rule that)
qed

lemma distinct_filter_segment: "distinct (filter P xs) \<Longrightarrow> distinct (filter P (take n (drop m xs)))"
proof -
  have d: "distinct (filter P ys) \<Longrightarrow> distinct (filter P (take k ys)) \<and> distinct (filter P (drop k ys))" for k ys
    by (metis append_take_drop_id distinct_append filter_append)
  show "distinct (filter P xs) \<Longrightarrow> ?thesis" using d by blast
qed

lemma reach_pool_inv:
  assumes "pool_reach (p, h)"
  obtains fl where "pool_inv p fl" "\<forall>b \<in> set (blocks p). b \<noteq> Blk 0 \<longrightarrow> rc p b = int (h b)"
    "get_num_free_blocks p = int (length fl)"
  using pool_reach_inv [OF assms] pool_invD(8) by (auto simp: owned_inv_def get_num_free_blocks_def)

text \<open>
  C9. In every state the block pool can reach by allocating, touching, freeing, caching,
  evicting, resetting and draining events, the reference count of each block other than the
  null block is the number of references its users hold, and the walk over the free list
  returns exactly the blocks that nobody holds, each once.
\<close>

theorem pool_ownership:
  assumes "pool_reach (p, h)"
  shows "\<exists>fl. get_all_free_blocks (fq p) = Some (Inr fl) \<and> distinct fl
    \<and> set fl = {b \<in> set (blocks p). b \<noteq> Blk 0 \<and> h b = 0} \<and> get_num_free_blocks p = int (length fl)
    \<and> (\<forall>b \<in> set (blocks p). b \<noteq> Blk 0 \<longrightarrow> rc p b = int (h b))"
proof -
  obtain fl where fl: "pool_inv p fl" "\<forall>b \<in> set (blocks p). b \<noteq> Blk 0 \<longrightarrow> rc p b = int (h b)"
    "get_num_free_blocks p = int (length fl)" using assms by (rule reach_pool_inv)
  then have "set fl = {b \<in> set (blocks p). b \<noteq> Blk 0 \<and> h b = 0}" unfolding pool_invD(6) [OF fl(1)] by auto
  then show ?thesis using fl pool_invD(5) [OF fl(1)] get_all_free_blocks_rep [OF pool_invD(4) [OF fl(1)]] by blast
qed

theorem pool_ownership_witness:
  "\<exists>p fl. get_new_blocks 2 (demo_pool 4) = Inr ([Blk 1, Blk 2], p) \<and> get_all_free_blocks (fq p) = Some (Inr fl)
    \<and> set fl = {Blk 3} \<and> rc p (Blk 1) = 1"
proof -
  obtain p where p: "get_new_blocks 2 (demo_pool 4) = Inr ([Blk 1, Blk 2], p)" "same_config (demo_pool 4) p"
    "pool_reach (p, \<lambda>b. 0 + count_list [Blk 1, Blk 2] b)" by (rule demo_pool_two)
  from pool_ownership [OF p(3)] obtain fl where
    f: "get_all_free_blocks (fq p) = Some (Inr fl)" "set fl = {b \<in> set (blocks p). b \<noteq> Blk 0 \<and> count_list [Blk 1, Blk 2] b = 0}"
    "\<forall>b \<in> set (blocks p). b \<noteq> Blk 0 \<longrightarrow> rc p b = int (count_list [Blk 1, Blk 2] b)" by auto
  have b: "set (blocks p) = Blk ` {..<4}" unfolding same_config_blocks [OF p(2)] by (simp add: demo_blocks)
  have "Blk i \<in> set fl \<longleftrightarrow> i = 3" for i unfolding f(2) b by auto
  moreover have "x \<in> Blk ` UNIV" if "x \<in> set fl" for x using that unfolding f(2) b by auto
  ultimately have "set fl = {Blk 3}" by blast
  moreover have "rc p (Blk 1) = 1" using bspec [OF f(3), of "Blk 1"] b by simp
  ultimately show ?thesis using f(1) p(1) by blast
qed

text \<open>
  C10. Allocation is exact: a request for at most the number of free blocks succeeds with that
  many different blocks, none of them the null block, held by nobody and without a hash, so no
  cached prefix refers to them any more; a larger request raises \<open>ValueError\<close>.
\<close>

theorem allocation_exact:
  assumes "pool_reach (p, h)" "0 \<le> n"
  shows "if n \<le> get_num_free_blocks p
    then \<exists>bs p'. get_new_blocks n p = Inr (bs, p') \<and> int (length bs) = n \<and> distinct bs
      \<and> set bs \<subseteq> {b \<in> set (blocks p). b \<noteq> Blk 0 \<and> h b = 0} \<and> (\<forall>b \<in> set bs. rc p' b = 1 \<and> bh p' b = None)
      \<and> get_num_free_blocks p' = get_num_free_blocks p - n
    else get_new_blocks n p = Inl ValueError"
proof -
  obtain fl where fl: "pool_inv p fl" "\<forall>b \<in> set (blocks p). b \<noteq> Blk 0 \<longrightarrow> rc p b = int (h b)"
    "get_num_free_blocks p = int (length fl)" using assms(1) by (rule reach_pool_inv)
  show ?thesis
  proof (cases "n \<le> int (length fl)")
    case True
    from get_new_blocks_spec [OF fl(1) assms(2) True] obtain p' where
      p': "get_new_blocks n p = Inr (take (nat n) fl, p')" "pool_inv p' (drop (nat n) fl)"
      "\<forall>c. rc p' c = (if c \<in> set (take (nat n) fl) then 1 else rc p c)"
      "\<forall>c. bh p' c = (if c \<in> set (take (nat n) fl) then None else bh p c)" by blast
    have "set (take (nat n) fl) \<subseteq> {b \<in> set (blocks p). b \<noteq> Blk 0 \<and> h b = 0}"
      using set_take_subset [of "nat n" fl] fl(2) unfolding pool_invD(6) [OF fl(1)] by fastforce
    then show ?thesis
      using True assms(2) p' fl(3) pool_invD(5) [OF fl(1)] pool_invD(8) [OF p'(2)]
      by (auto simp: get_num_free_blocks_def intro!: exI [of _ "take (nat n) fl"] exI [of _ p'])
  next
    case False
    then show ?thesis using get_new_blocks_exhausted [OF fl(1), of n] fl(3) by simp
  qed
qed

theorem allocation_exact_witness:
  "get_new_blocks 4 (demo_pool 4) = Inl ValueError \<and> (\<exists>bs p'. get_new_blocks 3 (demo_pool 4) = Inr (bs, p') \<and> length bs = 3)"
proof -
  have "get_num_free_blocks (demo_pool 4) = 3"
    using pool_invD(8) [OF demo_pool_init(2), of 4] by (simp add: get_num_free_blocks_def)
  then show ?thesis
    using allocation_exact [OF demo_pool_reach, of 4 4] allocation_exact [OF demo_pool_reach, of 4 3] by auto
qed

text \<open>
  A prefix lookup is sound and complete: for any hash and any groups it returns, reports a
  miss exactly when some group has no block with that hash, and otherwise gives one block per
  group that carries exactly this hash packed with the group's id.
\<close>

theorem cache_lookup_exact:
  assumes "pool_reach (p, h)" "\<forall>g \<in> set gs. 0 \<le> g \<and> g < 2 ^ 32"
  shows "\<exists>r. get_cached_block k gs p = Inr r
    \<and> (r = None \<longleftrightarrow> (\<exists>g \<in> set gs. \<forall>b \<in> set (blocks p). bh p b \<noteq> Some (k @ be_bytes 4 g)))
    \<and> (\<forall>bs. r = Some bs \<longrightarrow> list_all2 (\<lambda>g b. b \<in> set (blocks p) \<and> bh p b = Some (k @ be_bytes 4 g)) gs bs)"
proof -
  obtain fl where "pool_inv p fl" using assms(1) by (rule reach_pool_inv)
  then show ?thesis using get_cached_block_spec [OF pool_invD(3) assms(2)] by blast
qed

theorem cache_lookup_exact_witness: "get_cached_block [7] [0, 1] (demo_pool 4) = Inr None"
proof -
  obtain r where "get_cached_block [7] [0, 1] (demo_pool 4) = Inr r"
    "r = None \<longleftrightarrow> (\<exists>g \<in> set [0, 1]. \<forall>b \<in> set (blocks (demo_pool 4)). bh (demo_pool 4) b \<noteq> Some ([7] @ be_bytes 4 g))"
    using cache_lookup_exact [OF demo_pool_reach, of 4 "[0, 1]" "[7]"] by auto
  then show ?thesis using demo_pool_init(6) [of 4] by auto
qed

text \<open>
  C11. What is cached is found: after \<open>cache_full_blocks\<close> has run on blocks that carry no hash
  yet, each of them carries its request's hash packed with the group, and a lookup of that hash
  in that group hits; reference counts and the free list are as before.
\<close>

theorem cached_blocks_found:
  assumes "pool_inv p fl" "enable_caching p"
    and "0 \<le> nc" "nc < nf" "nf \<le> int (length blks)" "nf \<le> int (length (block_hashes r))"
    and "hash_seq_for bs (hash_block_size p) (block_hashes r) = Inr hs" "nf \<le> int (length (hs_list hs))"
    and "set blks \<subseteq> set (blocks p)" "distinct (filter (\<lambda>b. b \<noteq> Blk 0) blks)"
    and "\<forall>i < length blks. nc \<le> int i \<longrightarrow> int i < nf \<longrightarrow> blks ! i \<noteq> Blk 0 \<longrightarrow> bh p (blks ! i) = None"
    and "0 \<le> gid" "gid < 2 ^ 32"
  shows "\<exists>p'. cache_full_blocks sha r blks nc nf bs gid p = Inr p' \<and> pool_inv p' fl \<and> (\<forall>c. rc p' c = rc p c)
    \<and> (\<forall>i. nc \<le> int i \<longrightarrow> int i < nf \<longrightarrow> blks ! i \<noteq> Blk 0 \<longrightarrow>
          bh p' (blks ! i) = Some (hs_list hs ! i @ be_bytes 4 gid)
          \<and> (\<exists>b. get_cached_block (hs_list hs ! i) [gid] p' = Inr (Some [b])))"
proof -
  define new where "new = take (nat nf - nat nc) (drop (nat nc) blks)"
  have len: "length new = nat nf - nat nc" using assms(3-5) by (simp add: new_def)
  have nth: "new ! i = blks ! (nat nc + i)" if "i < length new" for i using that assms(3-5) by (simp add: new_def)
  have sub: "set new \<subseteq> set blks" unfolding new_def by (meson set_drop_subset set_take_subset order_trans)
  have "distinct (filter (\<lambda>b. b \<noteq> Blk 0) new)" unfolding new_def by (rule distinct_filter_segment [OF assms(10)])
  moreover have "\<forall>b \<in> set new. b \<noteq> Blk 0 \<longrightarrow> bh p b = None"
  proof
    fix b assume "b \<in> set new"
    then obtain i where i: "i < length new" "b = new ! i" by (auto simp: in_set_conv_nth)
    then have "nc \<le> int (nat nc + i)" "int (nat nc + i) < nf" "nat nc + i < length blks" using len assms(3-5) by linarith+
    then show "b \<noteq> Blk 0 \<longrightarrow> bh p b = None" unfolding i(2) nth [OF i(1)] using assms(11) by simp
  qed
  ultimately obtain p' where p': "cache_full_blocks sha r blks nc nf bs gid p = Inr p'" "pool_inv p' fl" "same_config p p'"
    "\<forall>c. rc p' c = rc p c" "\<forall>i < length new. new ! i \<noteq> Blk 0 \<longrightarrow> bh p' (new ! i) = Some (hs_list hs ! (nat nc + i) @ be_bytes 4 gid)"
    using cache_full_blocks_spec [OF assms(1-8) new_def order_trans [OF sub assms(9)] _ _ assms(12,13), of sha] by blast
  have "bh p' (blks ! i) = Some (hs_list hs ! i @ be_bytes 4 gid) \<and> (\<exists>b. get_cached_block (hs_list hs ! i) [gid] p' = Inr (Some [b]))"
    if i: "nc \<le> int i" "int i < nf" "blks ! i \<noteq> Blk 0" for i
  proof -
    have j: "i - nat nc < length new" "nat nc + (i - nat nc) = i" using i(1,2) assms(3) len by linarith+
    then have h: "bh p' (blks ! i) = Some (hs_list hs ! i @ be_bytes 4 gid)"
      using p'(5) nth [OF j(1)] i(3) by auto
    have "i < length blks" using i(2) assms(5) by linarith
    then have mem: "blks ! i \<in> set (blocks p')" unfolding same_config_blocks [OF p'(3)] using assms(9) nth_mem by blast
    have g: "\<forall>g \<in> set [gid]. 0 \<le> g \<and> g < 2 ^ 32" using assms(12,13) by simp
    from get_cached_block_spec [OF pool_invD(3) [OF p'(2)] g, of "hs_list hs ! i"] obtain res where
      res: "get_cached_block (hs_list hs ! i) [gid] p' = Inr res"
      "res = None \<longleftrightarrow> (\<exists>g \<in> set [gid]. \<forall>b \<in> set (blocks p'). bh p' b \<noteq> Some ((hs_list hs ! i) @ be_bytes 4 g))"
      "\<And>bs. res = Some bs \<Longrightarrow> list_all2 (\<lambda>g b. b \<in> set (blocks p') \<and> bh p' b = Some ((hs_list hs ! i) @ be_bytes 4 g)) [gid] bs"
      by blast
    then obtain bs where "res = Some bs" using h mem by auto
    moreover from this have "length bs = 1" using list_all2_lengthD [OF res(3)] by simp
    then obtain b where "bs = [b]" by (auto simp: length_Suc_conv)
    ultimately show ?thesis using h res(1) by simp
  qed
  then show ?thesis using p' by blast
qed

theorem cached_blocks_found_witness:
  "\<exists>p'. cache_full_blocks concat (demo_request ''a'' [1, 2, 3] [] [[9]]) [Blk 1, Blk 2] 0 1 2 5 (demo_pool 4) = Inr p'
    \<and> (\<exists>b. get_cached_block [9] [5] p' = Inr (Some [b]))"
proof -
  have "hash_seq_for 2 (hash_block_size (demo_pool 4)) [[9]] = Inr (HS_list [[9]])"
    by (simp add: hash_seq_for_def demo_pool_init(5))
  then show ?thesis
    using cached_blocks_found [OF demo_pool_init(2,4), of 4 0 1 "[Blk 1, Blk 2]" "demo_request ''a'' [1, 2, 3] [] [[9]]" 2
        "HS_list [[9]]" 5 concat] demo_pool_init(6) [of 4]
    by (fastforce simp: demo_request_def demo_blocks less_Suc_eq)
qed

text \<open>
  Freed blocks are reused last and in the order they were freed: after a user gives its
  blocks back, allocating everything that is free yields first the blocks that were free
  before, then the released ones in the order of the call. Blocks that others still hold are
  not released. Hashes stay, so a freed block can still be hit.
\<close>

theorem free_order:
  assumes "pool_reach (p, h)" "set bs \<subseteq> set (blocks p)" "distinct (filter (\<lambda>b. b \<noteq> Blk 0) bs)"
    and "\<forall>b \<in> set bs. b \<noteq> Blk 0 \<longrightarrow> 0 < h b" "get_all_free_blocks (fq p) = Some (Inr fl)"
  shows "\<exists>p' p''. free_blocks bs p = Inr p' \<and> (\<forall>b. bh p' b = bh p b)
    \<and> get_new_blocks (get_num_free_blocks p') p' = Inr (fl @ filter (\<lambda>b. b \<noteq> Blk 0 \<and> h b = 1) bs, p'')"
proof -
  obtain fl' where fl: "pool_inv p fl'" "\<forall>b \<in> set (blocks p). b \<noteq> Blk 0 \<longrightarrow> rc p b = int (h b)"
    using assms(1) by (rule reach_pool_inv)
  have "fl' = fl" using get_all_free_blocks_rep [OF pool_invD(4) [OF fl(1)]] assms(5) by simp
  moreover have "\<forall>b \<in> set bs. b \<noteq> Blk 0 \<longrightarrow> 0 < rc p b" using fl(2) assms(2,4) by auto
  ultimately obtain p' where p': "free_blocks bs p = Inr p'" "pool_inv p' (fl @ released p bs)" "\<forall>c. bh p' c = bh p c"
    using free_blocks_spec [OF fl(1) assms(2,3)] by blast
  have "released p bs = filter (\<lambda>b. b \<noteq> Blk 0 \<and> h b = 1) bs"
    unfolding released_def using fl(2) assms(2) by (intro filter_cong) auto
  moreover obtain p'' where "get_new_blocks (get_num_free_blocks p') p' = Inr (fl @ released p bs, p'')"
    using get_new_blocks_spec [OF p'(2), of "get_num_free_blocks p'"] pool_invD(8) [OF p'(2)]
    by (auto simp: get_num_free_blocks_def)
  ultimately show ?thesis using p'(1,3) by auto
qed

theorem free_order_witness:
  "\<exists>p p' p''. get_new_blocks 2 (demo_pool 4) = Inr ([Blk 1, Blk 2], p) \<and> free_blocks [Blk 2, Blk 1] p = Inr p'
    \<and> get_new_blocks (get_num_free_blocks p') p' = Inr ([Blk 3, Blk 2, Blk 1], p'')"
proof -
  obtain p where p: "get_new_blocks 2 (demo_pool 4) = Inr ([Blk 1, Blk 2], p)" "pool_inv p [Blk 3]" "same_config (demo_pool 4) p"
    "pool_reach (p, \<lambda>b. 0 + count_list [Blk 1, Blk 2] b)" by (rule demo_pool_two)
  have "set [Blk 2, Blk 1] \<subseteq> set (blocks p)"
    unfolding same_config_blocks [OF p(3)] by (auto simp: demo_blocks)
  then show ?thesis
    using free_order [OF p(4), of "[Blk 2, Blk 1]" "[Blk 3]"] get_all_free_blocks_rep [OF pool_invD(4) [OF p(2)]] p(1) by auto
qed

text \<open>
  Resetting the prefix cache succeeds exactly when nobody holds a block; then no block has
  a hash and no lookup in any group can hit, and otherwise nothing changes.
\<close>

theorem reset_exact:
  assumes "pool_reach (p, h)"
  shows "(fst (reset_prefix_cache p) \<longleftrightarrow> (\<forall>b \<in> set (blocks p). b \<noteq> Blk 0 \<longrightarrow> h b = 0))
    \<and> (if fst (reset_prefix_cache p)
       then (\<forall>b \<in> set (blocks p). bh (snd (reset_prefix_cache p)) b = None)
         \<and> (\<forall>k g. 0 \<le> g \<and> g < 2 ^ 32 \<longrightarrow> get_cached_block k [g] (snd (reset_prefix_cache p)) = Inr None)
       else snd (reset_prefix_cache p) = p)"
proof -
  obtain fl where fl: "pool_inv p fl" "\<forall>b \<in> set (blocks p). b \<noteq> Blk 0 \<longrightarrow> rc p b = int (h b)"
    using assms by (rule reach_pool_inv)
  note r = reset_prefix_cache_spec [OF fl(1)]
  have "get_cached_block k [g] (snd (reset_prefix_cache p)) = Inr None"
    if "fst (reset_prefix_cache p)" "0 \<le> g" "g < 2 ^ 32" for k g
    using r(3) [OF that(1)] that(2,3) make_block_hash_total [of g k] by (auto simp: get_cached_block_def get_one_block_def dict_get_def)
  then show ?thesis using r fl(2) by auto
qed

theorem reset_exact_witness:
  "fst (reset_prefix_cache (demo_pool 4)) \<and> get_cached_block [9] [0] (snd (reset_prefix_cache (demo_pool 4))) = Inr None"
  using reset_exact [OF demo_pool_reach, of 4] by auto

end
