(* ===== verification/KV_Spec.thy ===== *)
theory KV_Spec
  imports Prelude
begin

text \<open>
  \<open>vllm/v1/kv_cache_interface.py\<close>: the format of the KV cache of a layer, its page size, the
  bound on the blocks one request may hold, the memory a longest request needs and the merging
  of the formats of a group of layers.

  The class hierarchy is one record with a class tag; a field that a class does not have keeps
  its default, and a field that its class always has but that is absent raises. A \<open>torch.dtype\<close> is its name with its size in bytes. What the functions read of
  \<open>VllmConfig\<close> is the record \<open>vllm_limits\<close>.
\<close>

section \<open>Quantisation modes\<close>

datatype kv_quant_mode = Q_NONE | FP8_PER_TENSOR | INT8_PER_TOKEN_HEAD | FP8_PER_TOKEN_HEAD | NVFP4

definition is_per_token_head :: "kv_quant_mode \<Rightarrow> bool" where
  "is_per_token_head q \<longleftrightarrow> q \<in> {INT8_PER_TOKEN_HEAD, FP8_PER_TOKEN_HEAD}"

definition is_nvfp4 :: "kv_quant_mode \<Rightarrow> bool" where
  "is_nvfp4 q \<longleftrightarrow> q = NVFP4"

definition get_kv_quant_mode :: "string \<Rightarrow> kv_quant_mode" where
  "get_kv_quant_mode d =
     (if d = ''int8_per_token_head'' then INT8_PER_TOKEN_HEAD
      else if d = ''fp8_per_token_head'' then FP8_PER_TOKEN_HEAD
      else if d = ''nvfp4'' then NVFP4
      else if take 3 d = ''fp8'' then FP8_PER_TENSOR
      else Q_NONE)"

definition is_quantized_kv_cache :: "string \<Rightarrow> bool" where
  "is_quantized_kv_cache d \<longleftrightarrow> get_kv_quant_mode d \<noteq> Q_NONE"

definition kv_cache_uses_per_token_head_scales :: "string \<Rightarrow> bool" where
  "kv_cache_uses_per_token_head_scales d \<longleftrightarrow> is_per_token_head (get_kv_quant_mode d)"

section \<open>Specs\<close>

type_synonym torch_dtype = "string \<times> int"

definition get_dtype_size :: "torch_dtype \<Rightarrow> int" where
  "get_dtype_size d = snd d"

definition torch_float32 :: torch_dtype where
  "torch_float32 = (''float32'', 4)"

datatype spec_class =
    FullAttentionSpec
  | TQFullAttentionSpec
  | MLAAttentionSpec
  | SinkFullAttentionSpec
  | ChunkedLocalAttentionSpec
  | SlidingWindowSpec
  | SlidingWindowMLASpec
  | MambaSpec
  | EncoderOnlyAttentionSpec
  | CrossAttentionSpec

record kv_spec =
  spec_class :: spec_class
  spec_block_size :: int
  num_kv_heads :: int
  head_size :: int
  head_size_v :: "int option"
  dtype :: torch_dtype
  kv_quant_mode :: kv_quant_mode
  page_size_padded :: "int option"
  sliding_window :: "int option"
  attention_chunk_size :: "int option"
  tq_slot_size :: int
  cache_dtype_str :: "string option"
  alignment :: "int option"
  compress_ratio :: int
  model_version :: "string option"
  sink_len :: "int option"
  shapes :: "int list list"
  dtypes :: "torch_dtype list"
  mamba_type :: string
  mamba_cache_mode :: string
  num_speculative_blocks :: int

text \<open>\<open>isinstance\<close> along the class hierarchy.\<close>

definition is_full_attention :: "kv_spec \<Rightarrow> bool" where
  "is_full_attention s \<longleftrightarrow>
     spec_class s \<in> {FullAttentionSpec, TQFullAttentionSpec, MLAAttentionSpec, SinkFullAttentionSpec}"

definition is_sliding_window :: "kv_spec \<Rightarrow> bool" where
  "is_sliding_window s \<longleftrightarrow> spec_class s \<in> {SlidingWindowSpec, SlidingWindowMLASpec}"

definition has_class :: "spec_class \<Rightarrow> kv_spec \<Rightarrow> bool" where
  "has_class c s \<longleftrightarrow> spec_class s = c"

record vllm_limits =
  max_model_len :: int
  decode_context_parallel_size :: int
  prefill_context_parallel_size :: int
  max_num_batched_toks :: int
  max_encoder_input_toks :: int
  cfg_mamba_cache_mode :: string

definition storage_block_size :: "kv_spec \<Rightarrow> int" where
  "storage_block_size s =
     (if spec_class s \<in> {MLAAttentionSpec, SlidingWindowMLASpec}
      then spec_block_size s div compress_ratio s else spec_block_size s)"

definition nvfp4_kv_cache_full_dim :: "int \<Rightarrow> int" where
  "nvfp4_kv_cache_full_dim hs = hs div 2 + hs div 16"

text \<open>\<open>head_size_v\<close> as \<open>__post_init__\<close> leaves it.\<close>

definition head_v :: "kv_spec \<Rightarrow> int" where
  "head_v s = (case head_size_v s of None \<Rightarrow> head_size s | Some v \<Rightarrow> v)"

definition full_real_page_size :: "kv_spec \<Rightarrow> int" where
  "full_real_page_size s =
     (if is_nvfp4 (kv_quant_mode s)
      then spec_block_size s * num_kv_heads s
             * (nvfp4_kv_cache_full_dim (head_size s) + nvfp4_kv_cache_full_dim (head_v s))
             * get_dtype_size (dtype s)
      else spec_block_size s * num_kv_heads s * (head_size s + head_v s) * get_dtype_size (dtype s))"

definition real_page_size_bytes :: "kv_spec \<Rightarrow> int result" where
  "real_page_size_bytes s =
     (case spec_class s of
        FullAttentionSpec \<Rightarrow> Inr (full_real_page_size s)
      | SinkFullAttentionSpec \<Rightarrow> Inr (full_real_page_size s)
      | TQFullAttentionSpec \<Rightarrow>
          Inr (if 0 < tq_slot_size s then spec_block_size s * num_kv_heads s * tq_slot_size s
               else full_real_page_size s)
      | MLAAttentionSpec \<Rightarrow>
          Inr (if cache_dtype_str s = Some ''fp8_ds_mla''
               then (if model_version s = Some ''deepseek_v4'' then storage_block_size s * 584
                     else spec_block_size s * 656)
               else storage_block_size s * num_kv_heads s * head_size s * get_dtype_size (dtype s))
      | SlidingWindowSpec \<Rightarrow>
          Inr (spec_block_size s * num_kv_heads s * (head_size s + head_v s) * get_dtype_size (dtype s))
      | SlidingWindowMLASpec \<Rightarrow>
          (if model_version s = Some ''deepseek_v4'' then Inr (storage_block_size s * 584)
           else bindE (guardE (model_version s = None) AssertionError) (\<lambda>_.
             Inr (storage_block_size s * num_kv_heads s * head_size s * get_dtype_size (dtype s))))
      | MambaSpec \<Rightarrow> Inl NotImplementedError
      | _ \<Rightarrow> Inr (2 * spec_block_size s * num_kv_heads s * head_size s * get_dtype_size (dtype s)))"

definition mamba_page_size :: "kv_spec \<Rightarrow> int" where
  "mamba_page_size s = (\<Sum>(shape, d) \<leftarrow> zip (shapes s) (dtypes s). prod_list shape * get_dtype_size d)"

definition padded_or :: "int option \<Rightarrow> int \<Rightarrow> int result" where
  "padded_or pad real =
     (case pad of None \<Rightarrow> Inr real
      | Some p \<Rightarrow> bindE (guardE (real \<le> p) AssertionError) (\<lambda>_. Inr p))"

definition page_size_bytes :: "kv_spec \<Rightarrow> int result" where
  "page_size_bytes s =
     (if spec_class s = MambaSpec then padded_or (page_size_padded s) (mamba_page_size s)
      else bindE (real_page_size_bytes s) (\<lambda>real.
        padded_or (page_size_padded s)
          (if is_per_token_head (kv_quant_mode s)
           then real + 2 * spec_block_size s * num_kv_heads s * get_dtype_size torch_float32
           else real)))"

definition apply_alignment_padding :: "kv_spec \<Rightarrow> kv_spec result" where
  "apply_alignment_padding s =
     (case alignment s of
        None \<Rightarrow> Inr s
      | Some a \<Rightarrow>
          bindE (real_page_size_bytes s) (\<lambda>actual.
            let padded = round_up actual a
            in Inr (if padded \<noteq> actual then s\<lparr>page_size_padded := Some padded\<rparr> else s)))"

text \<open>The constructor's \<open>__post_init__\<close>, for each class that has one.\<close>

definition post_init :: "kv_spec \<Rightarrow> kv_spec result" where
  "post_init s =
     (let s' = (if head_size_v s = None then s\<lparr>head_size_v := Some (head_size s)\<rparr> else s)
      in case spec_class s of
           MLAAttentionSpec \<Rightarrow> apply_alignment_padding s'
         | SlidingWindowMLASpec \<Rightarrow> apply_alignment_padding s
         | FullAttentionSpec \<Rightarrow> Inr s'
         | TQFullAttentionSpec \<Rightarrow> Inr s'
         | SinkFullAttentionSpec \<Rightarrow> Inr s'
         | SlidingWindowSpec \<Rightarrow> Inr s'
         | _ \<Rightarrow> Inr s)"

definition copy_with_new_block_size :: "int \<Rightarrow> kv_spec \<Rightarrow> kv_spec result" where
  "copy_with_new_block_size bs s = post_init (s\<lparr>spec_block_size := bs\<rparr>)"

section \<open>Bounds on what a request holds\<close>

definition sliding_max_admission :: "int \<Rightarrow> int \<Rightarrow> int \<Rightarrow> int \<Rightarrow> int" where
  "sliding_max_admission window bs batched mml = cdiv (min (window - 1 + batched) mml) bs + 1"

definition chunked_max_admission :: "int \<Rightarrow> int \<Rightarrow> int \<Rightarrow> int \<Rightarrow> int" where
  "chunked_max_admission chunk bs batched mml = cdiv (min (chunk + batched) mml) bs"

definition max_memory_usage_bytes :: "vllm_limits \<Rightarrow> kv_spec \<Rightarrow> int result" where
  "max_memory_usage_bytes c s =
     (if spec_class s = EncoderOnlyAttentionSpec then Inr 0
      else bindE (page_size_bytes s) (\<lambda>page.
       if is_full_attention s then
         let world = decode_context_parallel_size c * prefill_context_parallel_size c;
             len = (if 1 < world then cdiv (max_model_len c) world else max_model_len c)
         in Inr (cdiv len (spec_block_size s) * page)
       else case spec_class s of
         ChunkedLocalAttentionSpec \<Rightarrow>
           (case attention_chunk_size s of
              None \<Rightarrow> Inl AssertionError
            | Some chunk \<Rightarrow>
                Inr (chunked_max_admission chunk (spec_block_size s) (max_num_batched_toks c) (max_model_len c) * page))
       | CrossAttentionSpec \<Rightarrow> Inr (cdiv (max_encoder_input_toks c) (spec_block_size s) * page)
       | MambaSpec \<Rightarrow>
           Inr (if cfg_mamba_cache_mode c = ''all'' then cdiv (max_model_len c) (spec_block_size s) * page
                else if cfg_mamba_cache_mode c = ''align'' then page * (2 + num_speculative_blocks s)
                else page * (1 + num_speculative_blocks s))
       | _ \<Rightarrow>
           bindE (guardE (decode_context_parallel_size c = 1) AssertionError) (\<lambda>_.
             case sliding_window s of
               None \<Rightarrow> Inl AssertionError
             | Some w \<Rightarrow>
                 Inr (sliding_max_admission w (spec_block_size s) (max_num_batched_toks c) (max_model_len c) * page))))"

section \<open>Merging the specs of a group\<close>

text \<open>A Python set of optional window sizes is the list of its elements without duplicates.\<close>

definition merge_window_sizes :: "int list \<Rightarrow> int option result" where
  "merge_window_sizes ws =
     (case remdups ws of [] \<Rightarrow> Inr None | [w] \<Rightarrow> Inr (Some w) | _ \<Rightarrow> Inl ValueError)"

definition somes :: "'a option list \<Rightarrow> 'a list" where
  "somes xs = concat (map (\<lambda>x. case x of None \<Rightarrow> [] | Some y \<Rightarrow> [y]) xs)"

text \<open>The fields of \<open>AttentionSpec\<close>, compared one by one.\<close>

definition attention_fields :: "kv_spec \<Rightarrow> int \<times> int \<times> int \<times> torch_dtype \<times> kv_quant_mode \<times> int option" where
  "attention_fields s =
     (spec_block_size s, num_kv_heads s, head_size s, dtype s, kv_quant_mode s, page_size_padded s)"

definition empty_spec :: "spec_class \<Rightarrow> kv_spec" where
  "empty_spec c =
     \<lparr>spec_class = c, spec_block_size = 0, num_kv_heads = 0, head_size = 0, head_size_v = None,
      dtype = ('''', 0), kv_quant_mode = Q_NONE, page_size_padded = None, sliding_window = None,
      attention_chunk_size = None, tq_slot_size = 0, cache_dtype_str = None, alignment = None,
      compress_ratio = 1, model_version = None, sink_len = None, shapes = [], dtypes = [],
      mamba_type = ''mamba2'', mamba_cache_mode = ''none'', num_speculative_blocks = 0\<rparr>"

definition merge_full :: "spec_class \<Rightarrow> kv_spec list \<Rightarrow> kv_spec result" where
  "merge_full c specs =
     (case specs of [] \<Rightarrow> Inl IndexError | s0 # _ \<Rightarrow>
      bindE (guardE (list_all is_full_attention specs) AssertionError) (\<lambda>_.
      bindE (guardE (\<not> list_ex (has_class MLAAttentionSpec) specs) AssertionError) (\<lambda>_.
      bindE (merge_window_sizes (somes (map sliding_window specs))) (\<lambda>sw.
      bindE (merge_window_sizes (somes (map attention_chunk_size specs))) (\<lambda>ch.
      bindE (post_init ((empty_spec c)\<lparr>spec_block_size := spec_block_size s0, num_kv_heads := num_kv_heads s0,
                head_size := head_size s0, head_size_v := head_size_v s0,
                sink_len := (if c = SinkFullAttentionSpec then sink_len s0 else None), dtype := dtype s0,
                kv_quant_mode := kv_quant_mode s0, page_size_padded := page_size_padded s0,
                sliding_window := sw, attention_chunk_size := ch\<rparr>)) (\<lambda>m.
      bindE (guardE (list_all (\<lambda>s. attention_fields s = attention_fields m) specs) AssertionError) (\<lambda>_.
      bindE (guardE (\<not> (sliding_window m \<noteq> None \<and> attention_chunk_size m \<noteq> None)) AssertionError) (\<lambda>_.
        Inr m))))))))"

definition one_value :: "'a list \<Rightarrow> bool" where
  "one_value xs \<longleftrightarrow> length (remdups xs) = 1"

definition merge_mla :: "kv_spec list \<Rightarrow> kv_spec result" where
  "merge_mla specs =
     (case specs of [] \<Rightarrow> Inl AssertionError | s0 # _ \<Rightarrow>
      bindE (guardE (list_all (has_class MLAAttentionSpec) specs) AssertionError) (\<lambda>_.
      bindE (guardE (one_value (map cache_dtype_str specs) \<and> one_value (map compress_ratio specs)
                     \<and> one_value (map model_version specs)) AssertionError) (\<lambda>_.
        post_init ((empty_spec MLAAttentionSpec)\<lparr>spec_block_size := spec_block_size s0,
          num_kv_heads := num_kv_heads s0, head_size := head_size s0, dtype := dtype s0,
          kv_quant_mode := kv_quant_mode s0, page_size_padded := page_size_padded s0,
          cache_dtype_str := cache_dtype_str s0, compress_ratio := compress_ratio s0,
          model_version := model_version s0\<rparr>))))"

definition merge_sliding_mla :: "kv_spec list \<Rightarrow> kv_spec result" where
  "merge_sliding_mla specs =
     (case specs of [] \<Rightarrow> Inl AssertionError | s0 # _ \<Rightarrow>
      bindE (guardE (list_all (has_class SlidingWindowMLASpec) specs) AssertionError) (\<lambda>_.
      bindE (guardE (one_value (map cache_dtype_str specs) \<and> one_value (map compress_ratio specs)
                     \<and> one_value (map model_version specs) \<and> one_value (map sliding_window specs)) AssertionError) (\<lambda>_.
        post_init ((empty_spec SlidingWindowMLASpec)\<lparr>spec_block_size := spec_block_size s0,
          num_kv_heads := num_kv_heads s0, head_size := head_size s0, dtype := dtype s0,
          page_size_padded := page_size_padded s0, sliding_window := sliding_window s0,
          cache_dtype_str := cache_dtype_str s0, compress_ratio := compress_ratio s0,
          model_version := model_version s0\<rparr>))))"

text \<open>\<open>type(specs[0]).merge(specs)\<close>.\<close>

definition merge_specs :: "kv_spec list \<Rightarrow> kv_spec result" where
  "merge_specs specs =
     (case specs of [] \<Rightarrow> Inl IndexError | s0 # rest \<Rightarrow>
      case spec_class s0 of
        FullAttentionSpec \<Rightarrow> merge_full FullAttentionSpec specs
      | SinkFullAttentionSpec \<Rightarrow> merge_full SinkFullAttentionSpec specs
      | TQFullAttentionSpec \<Rightarrow>
          bindE (merge_full TQFullAttentionSpec specs) (\<lambda>m.
          bindE (guardE (list_all (\<lambda>s. tq_slot_size s = tq_slot_size s0) specs) AssertionError) (\<lambda>_.
            post_init (m\<lparr>tq_slot_size := tq_slot_size s0\<rparr>)))
      | MLAAttentionSpec \<Rightarrow> merge_mla specs
      | SlidingWindowMLASpec \<Rightarrow> merge_sliding_mla specs
      | _ \<Rightarrow> bindE (guardE (list_all (\<lambda>s. s = s0) rest) AssertionError) (\<lambda>_. Inr s0))"

section \<open>Specs of one type\<close>

type_synonym spec_dict = "(string \<times> kv_spec) list"

definition is_uniform_type :: "spec_dict \<Rightarrow> bool result" where
  "is_uniform_type d =
     (let ss = map snd d
      in if 1 < length (remdups (map spec_block_size ss)) then Inr False
         else case ss of
           [] \<Rightarrow> Inl StopIteration
         | one # _ \<Rightarrow>
             if has_class SlidingWindowMLASpec one then
               Inr (list_all (\<lambda>s. has_class SlidingWindowMLASpec s \<and> sliding_window s = sliding_window one) ss)
             else if is_full_attention one then Inr (list_all is_full_attention ss)
             else if has_class CrossAttentionSpec one then Inr (list_all (has_class CrossAttentionSpec) ss)
             else if is_sliding_window one then
               Inr (list_all (\<lambda>s. is_sliding_window s \<and> sliding_window s = sliding_window one) ss)
             else if has_class ChunkedLocalAttentionSpec one then
               Inr (list_all (\<lambda>s. has_class ChunkedLocalAttentionSpec s
                               \<and> attention_chunk_size s = attention_chunk_size one) ss)
             else if has_class MambaSpec one then
               Inr (list_all (\<lambda>s. has_class MambaSpec s
                               \<and> num_speculative_blocks s = num_speculative_blocks one) ss)
             else Inl NotImplementedError)"

record uniform_specs =
  us_block_size :: int
  kv_cache_specs :: spec_dict

definition from_specs :: "spec_dict \<Rightarrow> uniform_specs option result" where
  "from_specs d =
     bindE (is_uniform_type d) (\<lambda>u.
       Inr (if u then Some \<lparr>us_block_size = spec_block_size (snd (hd d)), kv_cache_specs = d\<rparr> else None))"

fun map_result :: "('a \<Rightarrow> 'b result) \<Rightarrow> 'a list \<Rightarrow> 'b list result" where
  "map_result f [] = Inr []"
| "map_result f (x # xs) = bindE (f x) (\<lambda>y. bindE (map_result f xs) (\<lambda>ys. Inr (y # ys)))"

definition uniform_page_size_bytes :: "uniform_specs \<Rightarrow> int result" where
  "uniform_page_size_bytes u =
     bindE (map_result (\<lambda>(_, s). page_size_bytes s) (kv_cache_specs u)) (\<lambda>ps. Inr (sum_list ps))"

definition spec_pages :: "vllm_limits \<Rightarrow> kv_spec \<Rightarrow> int result" where
  "spec_pages c s =
     bindE (max_memory_usage_bytes c s) (\<lambda>m. bindE (page_size_bytes s) (\<lambda>p. Inr (cdiv m p)))"

definition max_memory_usage_pages :: "vllm_limits \<Rightarrow> uniform_specs \<Rightarrow> int result" where
  "max_memory_usage_pages c u =
     bindE (map_result (\<lambda>(_, s). spec_pages c s) (kv_cache_specs u)) (\<lambda>ps.
       if ps = [] then Inl ValueError else Inr (Max (set ps)))"

definition uniform_max_memory_usage_bytes :: "vllm_limits \<Rightarrow> uniform_specs \<Rightarrow> int result" where
  "uniform_max_memory_usage_bytes c u =
     bindE (max_memory_usage_pages c u) (\<lambda>n.
       bindE (uniform_page_size_bytes u) (\<lambda>p. Inr (n * p)))"

definition get_page_sizes :: "uniform_specs \<Rightarrow> int set result" where
  "get_page_sizes u =
     bindE (map_result (\<lambda>(_, s). page_size_bytes s) (kv_cache_specs u)) (\<lambda>ps. Inr (set ps))"

definition get_num_layer_tuples :: "uniform_specs \<Rightarrow> int result" where
  "get_num_layer_tuples u =
     bindE (map_result (\<lambda>(_, s). page_size_bytes s) (kv_cache_specs u)) (\<lambda>ps.
       if ps = [] then Inl IndexError else Inr (int (Max ((count_list ps) ` set ps))))"

section \<open>Groups and the configuration\<close>

text \<open>A group's spec is one spec or the specs of several layers of one type.\<close>

datatype group_spec = One_spec kv_spec | Uniform_specs uniform_specs

record kv_cache_group_spec =
  layer_names :: "string list"
  group_spec :: group_spec
  is_eagle_group :: bool

record kv_cache_tensor =
  tensor_size :: int
  shared_by :: "string list"

record kv_cache_config =
  num_blocks :: int
  kv_cache_tensors :: "kv_cache_tensor list"
  kv_cache_groups :: "kv_cache_group_spec list"

definition has_mamba_layers :: "kv_cache_config \<Rightarrow> bool" where
  "has_mamba_layers c \<longleftrightarrow>
     list_ex (\<lambda>g. case group_spec g of One_spec s \<Rightarrow> has_class MambaSpec s | Uniform_specs _ \<Rightarrow> False)
       (kv_cache_groups c)"

definition needs_kv_cache_zeroing :: "kv_cache_config \<Rightarrow> bool" where
  "needs_kv_cache_zeroing c = has_mamba_layers c"

fun group_block_size :: "group_spec \<Rightarrow> int" where
  "group_block_size (One_spec s) = spec_block_size s"
| "group_block_size (Uniform_specs u) = us_block_size u"

fun group_page_size_bytes :: "group_spec \<Rightarrow> int result" where
  "group_page_size_bytes (One_spec s) = page_size_bytes s"
| "group_page_size_bytes (Uniform_specs u) = uniform_page_size_bytes u"

fun group_max_memory_usage_bytes :: "vllm_limits \<Rightarrow> group_spec \<Rightarrow> int result" where
  "group_max_memory_usage_bytes c (One_spec s) = max_memory_usage_bytes c s"
| "group_max_memory_usage_bytes c (Uniform_specs u) = uniform_max_memory_usage_bytes c u"

section \<open>The admission bounds are sufficient\<close>

text \<open>The blocks that hold the tokens \<open>[lo, hi)\<close>.\<close>

definition blocks_spanned :: "int \<Rightarrow> int \<Rightarrow> int \<Rightarrow> int" where
  "blocks_spanned bs lo hi = cdiv hi bs - lo div bs"

lemma cdiv_span:
  assumes "0 < bs" shows "cdiv (s + l) bs \<le> s div bs + cdiv l bs + 1"
proof -
  have "l \<le> cdiv l bs * bs" by (rule cdiv_upper [OF assms])
  moreover have "s \<le> (s div bs) * bs + bs"
    using assms pos_mod_bound [of bs s] minus_mod_eq_div_mult [of s bs] by linarith
  ultimately show ?thesis using assms by (simp add: cdiv_le_iff algebra_simps)
qed


section \<open>Merging and sizes\<close>

lemma merge_full_fields:
  assumes "merge_full c specs = Inr m" "s \<in> set specs" shows "attention_fields s = attention_fields m"
  using assms unfolding merge_full_def
  by (auto simp: bindE_eq_Inr list_all_iff split: list.splits)

lemma map_result_Inr: "map_result f xs = Inr ys \<longleftrightarrow> list_all2 (\<lambda>x y. f x = Inr y) xs ys"
proof (induction xs arbitrary: ys)
  case (Cons x xs)
  then show ?case by (cases ys) (auto simp: bindE_eq_Inr)
qed auto

lemma list_all2_memE: "list_all2 P xs ys \<Longrightarrow> x \<in> set xs \<Longrightarrow> \<exists>y \<in> set ys. P x y"
  by (induction xs ys rule: list_all2_induct) auto

section \<open>Properties\<close>

text \<open>
  The admission cap of sliding-window layers is large enough: at any point of a prefill or
  decode, the blocks that hold the window before the computed tokens and the tokens scheduled
  in one step are never more than the cap.
\<close>

theorem sliding_cap_covers:
  assumes "0 < bs" "1 \<le> w" "0 \<le> c" "0 \<le> n" "n \<le> batched" "c + n \<le> mml"
  shows "blocks_spanned bs (max 0 (c - w + 1)) (c + n) \<le> sliding_max_admission w bs batched mml"
proof (cases "c - w + 1 \<le> 0")
  case True
  then have "cdiv (c + n) bs \<le> cdiv (min (w - 1 + batched) mml) bs"
    using assms by (intro cdiv_mono) auto
  then show ?thesis using True by (simp add: blocks_spanned_def sliding_max_admission_def max_def)
next
  case False
  let ?s = "c - w + 1" and ?l = "w - 1 + n"
  have "cdiv (?s + ?l) bs \<le> ?s div bs + cdiv ?l bs + 1" by (rule cdiv_span [OF assms(1)])
  moreover have "cdiv ?l bs \<le> cdiv (min (w - 1 + batched) mml) bs"
    using assms False by (intro cdiv_mono) auto
  moreover have "?s + ?l = c + n" by simp
  ultimately show ?thesis using False by (simp add: blocks_spanned_def sliding_max_admission_def max_def)
qed

theorem sliding_cap_covers_witness: "blocks_spanned 4 (max 0 (11 - 6 + 1)) (11 + 2) \<le> sliding_max_admission 6 4 2 100"
  by (rule sliding_cap_covers) simp_all



text \<open>
  \<open>FullAttentionSpec.merge\<close> compares only the fields that \<open>AttentionSpec\<close> declares: two
  layers whose value heads differ in size merge without an error into a spec with the first
  layer's page size, and the second layer's own page is larger.
\<close>

theorem merge_ignores_head_size_v:
  "\<exists>a b m. merge_specs [a, b] = Inr m \<and> head_v a \<noteq> head_v b
     \<and> page_size_bytes m = page_size_bytes a
     \<and> (\<exists>x y. page_size_bytes m = Inr x \<and> page_size_bytes b = Inr y \<and> x < y)"
proof -
  let ?a = "(empty_spec FullAttentionSpec)\<lparr>spec_block_size := 16, num_kv_heads := 1, head_size := 64, head_size_v := Some 64,
    dtype := (''bf16'', 2)\<rparr>"
  let ?b = "?a\<lparr>head_size_v := Some 128\<rparr>"
  have "merge_specs [?a, ?b] = Inr ?a"
    by (simp add: merge_specs_def merge_full_def empty_spec_def is_full_attention_def has_class_def somes_def
        merge_window_sizes_def post_init_def attention_fields_def)
  moreover have "page_size_bytes ?a = Inr 4096" "page_size_bytes ?b = Inr 6144"
    by (simp_all add: page_size_bytes_def real_page_size_bytes_def full_real_page_size_def empty_spec_def padded_or_def
        is_nvfp4_def is_per_token_head_def head_v_def get_dtype_size_def)
  moreover have "head_v ?a \<noteq> head_v ?b" by (simp add: head_v_def)
  ultimately show ?thesis by (intro exI [of _ ?a] exI [of _ ?b]) auto
qed

text \<open>
  The pages reserved for a group of layers of one type hold the largest request: for each
  layer, the number of pages times the layer's page size is at least the memory that a request
  of maximal length needs in it.
\<close>

theorem uniform_pages_cover:
  assumes "max_memory_usage_pages c u = Inr n" "(k, s) \<in> set (kv_cache_specs u)"
    "max_memory_usage_bytes c s = Inr m" "page_size_bytes s = Inr p" "0 < p"
  shows "m \<le> n * p"
proof -
  obtain ps where ps: "list_all2 (\<lambda>x y. (case x of (_, s) \<Rightarrow> spec_pages c s) = Inr y) (kv_cache_specs u) ps" "n = Max (set ps)"
    using assms(1) by (auto simp: max_memory_usage_pages_def bindE_eq_Inr map_result_Inr split: if_splits)
  then obtain y where "y \<in> set ps" "spec_pages c s = Inr y"
    using list_all2_memE [OF ps(1) assms(2)] by auto
  then have "cdiv m p \<le> n" using assms(3,4) ps(2) by (auto simp: spec_pages_def)
  then show ?thesis using assms(5) by (simp add: cdiv_le_iff)
qed

theorem uniform_pages_cover_witness:
  "\<exists>n m. max_memory_usage_pages \<lparr>max_model_len = 100, decode_context_parallel_size = 1, prefill_context_parallel_size = 1,
       max_num_batched_toks = 8, max_encoder_input_toks = 0, cfg_mamba_cache_mode = ''none''\<rparr>
     \<lparr>us_block_size = 16, kv_cache_specs = [(''l0'', (empty_spec FullAttentionSpec)\<lparr>spec_block_size := 16, num_kv_heads := 1,
        head_size := 64, dtype := (''bf16'', 2)\<rparr>)]\<rparr> = Inr n \<and> m \<le> n * 4096 \<and> m = 28672"
proof -
  let ?s = "(empty_spec FullAttentionSpec)\<lparr>spec_block_size := 16, num_kv_heads := 1, head_size := 64, dtype := (''bf16'', 2)\<rparr>"
  let ?c = "\<lparr>max_model_len = 100, decode_context_parallel_size = 1, prefill_context_parallel_size = 1,
       max_num_batched_toks = 8, max_encoder_input_toks = 0, cfg_mamba_cache_mode = ''none''\<rparr>"
  let ?u = "\<lparr>us_block_size = 16, kv_cache_specs = [(''l0'', ?s)]\<rparr>"
  have p: "page_size_bytes ?s = Inr 4096"
    by (simp add: page_size_bytes_def real_page_size_bytes_def full_real_page_size_def empty_spec_def padded_or_def
        is_nvfp4_def is_per_token_head_def head_v_def get_dtype_size_def)
  then have m: "max_memory_usage_bytes ?c ?s = Inr 28672"
    by (simp add: max_memory_usage_bytes_def empty_spec_def cdiv_def is_full_attention_def)
  then obtain n where n: "max_memory_usage_pages ?c ?u = Inr n"
    using p by (auto simp: max_memory_usage_pages_def spec_pages_def)
  show ?thesis using uniform_pages_cover [OF n, of "''l0''" ?s 28672 4096] m p n by auto
qed

end
