(* ===== verification/Single_Type.thy ===== *)
theory Single_Type
  imports Block_Pool KV_Spec "HOL-Library.Multiset"
begin

text \<open>
  \<open>vllm/v1/core/single_type_kv_cache_manager.py\<close>: the manager of one KV cache group, which
  assigns blocks to requests, frees the blocks an attention window has passed, caches full
  blocks and looks up the longest cached prefix.

  The class hierarchy is one record with a class tag; each method dispatches on the tag where a
  subclass overrides it. A manager shares the block pool with the others, so every method takes
  the pool and returns it. \<open>req_to_blocks\<close> is a \<open>defaultdict\<close>: subscripting it inserts an
  empty list, which \<open>rtb_read\<close> models. Blocks compare equal when they are the same object.
\<close>

section \<open>State\<close>

datatype manager_class =
    FullAttentionManager
  | SlidingWindowManager
  | ChunkedLocalAttentionManager
  | MambaManager
  | CrossAttentionManager
  | SinkFullAttentionManager

record manager =
  mgr_class :: manager_class
  mgr_spec :: kv_spec
  block_size :: int
  mgr_enable_caching :: bool
  max_admission_blocks :: "int option"
  new_block_ids :: "int list"
  req_to_blocks :: "(string \<times> blk_ref list) list"
  num_cached_block :: "(string \<times> int) list"
  kv_cache_group_id :: int
  mgr_null_block :: blk_ref
  cached_blocks_this_step :: "bytes set"
  last_state_block_idx :: "(string \<times> int) list"
  allocated_block_reqs :: "string set"
  sink_blocks :: "blk_ref list"

definition rtb_get :: "string \<Rightarrow> manager \<Rightarrow> blk_ref list" where
  "rtb_get rid m = (case dict_get (req_to_blocks m) rid of None \<Rightarrow> [] | Some bs \<Rightarrow> bs)"

definition rtb_set :: "string \<Rightarrow> blk_ref list \<Rightarrow> manager \<Rightarrow> manager" where
  "rtb_set rid bs m = m\<lparr>req_to_blocks := dict_set rid bs (req_to_blocks m)\<rparr>"

definition rtb_read :: "string \<Rightarrow> manager \<Rightarrow> manager" where
  "rtb_read rid m = (if dict_get (req_to_blocks m) rid = None then rtb_set rid [] m else m)"

definition ncb_get :: "string \<Rightarrow> manager \<Rightarrow> int" where
  "ncb_get rid m = (case dict_get (num_cached_block m) rid of None \<Rightarrow> 0 | Some n \<Rightarrow> n)"

definition is_running :: "string \<Rightarrow> manager \<Rightarrow> bool" where
  "is_running rid m \<longleftrightarrow> dict_get (num_cached_block m) rid \<noteq> None"

definition window_of :: "kv_spec \<Rightarrow> int" where
  "window_of s = (case sliding_window s of None \<Rightarrow> 0 | Some w \<Rightarrow> w)"

definition chunk_of :: "kv_spec \<Rightarrow> int" where
  "chunk_of s = (case attention_chunk_size s of None \<Rightarrow> 0 | Some w \<Rightarrow> w)"

section \<open>Construction\<close>

definition base_manager :: "manager_class \<Rightarrow> kv_spec \<Rightarrow> block_pool \<Rightarrow> bool \<Rightarrow> int \<Rightarrow> int \<Rightarrow> int \<Rightarrow> int option \<Rightarrow> manager" where
  "base_manager c spec p caching gid dcp pcp cap =
     \<lparr>mgr_class = c, mgr_spec = spec,
      block_size = (if 1 < dcp * pcp then spec_block_size spec * (dcp * pcp) else spec_block_size spec),
      mgr_enable_caching = caching, max_admission_blocks = cap, new_block_ids = [],
      req_to_blocks = [], num_cached_block = [], kv_cache_group_id = gid,
      mgr_null_block = null_block p, cached_blocks_this_step = {}, last_state_block_idx = [],
      allocated_block_reqs = {}, sink_blocks = []\<rparr>"

text \<open>\<open>spec_manager_map\<close>; a spec class that it does not list raises.\<close>

definition spec_manager_map :: "spec_class \<Rightarrow> manager_class result" where
  "spec_manager_map c =
     (case c of
        FullAttentionSpec \<Rightarrow> Inr FullAttentionManager
      | TQFullAttentionSpec \<Rightarrow> Inr FullAttentionManager
      | MLAAttentionSpec \<Rightarrow> Inr FullAttentionManager
      | SlidingWindowSpec \<Rightarrow> Inr SlidingWindowManager
      | SlidingWindowMLASpec \<Rightarrow> Inr SlidingWindowManager
      | ChunkedLocalAttentionSpec \<Rightarrow> Inr ChunkedLocalAttentionManager
      | MambaSpec \<Rightarrow> Inr MambaManager
      | CrossAttentionSpec \<Rightarrow> Inr CrossAttentionManager
      | SinkFullAttentionSpec \<Rightarrow> Inr SinkFullAttentionManager
      | EncoderOnlyAttentionSpec \<Rightarrow> Inl KeyError)"

definition sink_manager_init :: "manager \<Rightarrow> block_pool \<Rightarrow> (manager \<times> block_pool) result" where
  "sink_manager_init m p =
     (case sink_len (mgr_spec m) of
        None \<Rightarrow> Inl AssertionError
      | Some l \<Rightarrow>
          bindE (guardE (0 < l \<and> l mod block_size m = 0) AssertionError) (\<lambda>_.
            bindE (popleft_n (l div block_size m) (fq p)) (\<lambda>(bs, q).
              Inr (m\<lparr>sink_blocks := bs\<rparr>, p\<lparr>fq := q\<rparr>))))"

definition get_manager_for_kv_cache_spec ::
  "kv_spec \<Rightarrow> int \<Rightarrow> int \<Rightarrow> bool \<Rightarrow> int \<Rightarrow> int \<Rightarrow> int \<Rightarrow> block_pool \<Rightarrow> (manager \<times> block_pool) result" where
  "get_manager_for_kv_cache_spec spec batched mml caching gid dcp pcp p =
     bindE (spec_manager_map (spec_class spec)) (\<lambda>c.
       let cap = (if is_sliding_window spec
                  then Some (sliding_max_admission (window_of spec) (spec_block_size spec) batched mml)
                  else if has_class ChunkedLocalAttentionSpec spec
                  then Some (chunked_max_admission (chunk_of spec) (spec_block_size spec) batched mml)
                  else None);
           m = base_manager c spec p caching gid dcp pcp cap
       in if c = SinkFullAttentionManager then sink_manager_init m p else Inr (m, p))"

section \<open>How many blocks a request needs\<close>

definition get_num_evictable_blocks :: "block_pool \<Rightarrow> blk_ref list \<Rightarrow> int" where
  "get_num_evictable_blocks p bs =
     int (length (filter (\<lambda>b. ref_cnt (pmem p b) = 0 \<and> \<not> is_null (pmem p b)) bs))"

definition get_num_skipped_tokens :: "manager \<Rightarrow> int \<Rightarrow> int" where
  "get_num_skipped_tokens m n =
     (case mgr_class m of
        SlidingWindowManager \<Rightarrow> max 0 (n - window_of (mgr_spec m) + 1)
      | ChunkedLocalAttentionManager \<Rightarrow> (n div chunk_of (mgr_spec m)) * chunk_of (mgr_spec m)
      | MambaManager \<Rightarrow> n - 1
      | _ \<Rightarrow> 0)"

definition base_num_blocks_to_allocate ::
  "manager \<Rightarrow> block_pool \<Rightarrow> string \<Rightarrow> int \<Rightarrow> blk_ref list \<Rightarrow> int \<Rightarrow> int result" where
  "base_num_blocks_to_allocate m p rid ntoks new_computed total_computed =
     (let req0 = cdiv ntoks (block_size m);
          required = (case max_admission_blocks m of None \<Rightarrow> req0 | Some cap \<Rightarrow> min req0 cap);
          num_req = int (length (rtb_get rid m))
      in if is_running rid m
         then bindE (guardE (length new_computed = 0) AssertionError) (\<lambda>_. Inr (max (required - num_req) 0))
         else let skipped_tokens = get_num_skipped_tokens m total_computed;
                  local_computed = int (length new_computed) + num_req;
                  skipped = skipped_tokens div block_size m;
                  num_new = max (required - max skipped local_computed) 0;
                  skipped_new = max 0 (skipped - num_req)
              in Inr (num_new + get_num_evictable_blocks p (py_from new_computed skipped_new)))"

definition mamba_num_blocks_to_allocate ::
  "manager \<Rightarrow> block_pool \<Rightarrow> string \<Rightarrow> int \<Rightarrow> blk_ref list \<Rightarrow> int \<Rightarrow> int \<Rightarrow> (int \<times> manager) result" where
  "mamba_num_blocks_to_allocate m p rid ntoks new_computed total_computed main_tokens =
     (let nspec = num_speculative_blocks (mgr_spec m)
      in if 0 < length new_computed
            \<and> (case block_hash (pmem p (last new_computed)) of
                 None \<Rightarrow> False | Some h \<Rightarrow> h \<in> cached_blocks_this_step m)
         then Inr (num_gpu_blocks p + 1, m)
         else if mamba_cache_mode (mgr_spec m) \<noteq> ''align''
         then let nt = (if 0 < nspec then ntoks + spec_block_size (mgr_spec m) * nspec else ntoks)
              in bindE (base_num_blocks_to_allocate m p rid nt new_computed total_computed) (\<lambda>k. Inr (k, m))
         else let m1 = rtb_read rid m;
                  required = cdiv main_tokens (block_size m) + nspec;
                  num0 = required - int (length new_computed) - int (length (rtb_get rid m1));
                  num_new = (if 0 < num0
                             then (if rid \<in> allocated_block_reqs m then 1 else 1 + nspec)
                             else num0)
              in Inr (num_new + get_num_evictable_blocks p new_computed, m1))"

definition get_num_blocks_to_allocate ::
  "manager \<Rightarrow> block_pool \<Rightarrow> string \<Rightarrow> int \<Rightarrow> blk_ref list \<Rightarrow> int \<Rightarrow> int \<Rightarrow> (int \<times> manager) result" where
  "get_num_blocks_to_allocate m p rid ntoks new_computed total_computed main_tokens =
     (if mgr_class m = MambaManager
      then mamba_num_blocks_to_allocate m p rid ntoks new_computed total_computed main_tokens
      else bindE (base_num_blocks_to_allocate m p rid ntoks new_computed total_computed)
             (\<lambda>k. Inr (k, m)))"

section \<open>Allocation\<close>

definition record_new_ids :: "blk_ref list \<Rightarrow> block_pool \<Rightarrow> manager \<Rightarrow> manager" where
  "record_new_ids bs p m =
     (if spec_class (mgr_spec m) \<in> {FullAttentionSpec, TQFullAttentionSpec}
      then m\<lparr>new_block_ids := new_block_ids m @ map (\<lambda>b. block_id (pmem p b)) bs\<rparr> else m)"

definition base_allocate_new_computed_blocks ::
  "string \<Rightarrow> blk_ref list \<Rightarrow> int \<Rightarrow> int \<Rightarrow> manager \<Rightarrow> block_pool \<Rightarrow> (manager \<times> block_pool) result" where
  "base_allocate_new_computed_blocks rid new_computed num_local num_external m p =
     (if is_running rid m
      then bindE (guardE (length new_computed = 0) AssertionError) (\<lambda>_. Inr (m, p))
      else
        let m1 = rtb_read rid m; req_blocks = rtb_get rid m1
        in bindE (guardE (length req_blocks = 0) AssertionError) (\<lambda>_.
          let total = num_local + num_external;
              skipped_tokens = get_num_skipped_tokens m total;
              skipped = skipped_tokens div block_size m;
              (new1, ext1) = (if 0 < skipped
                              then (py_from new_computed skipped, min (total - skipped_tokens) num_external)
                              else (new_computed, num_external))
          in bindE (if mgr_enable_caching m then touch new1 p
                    else bindE (guardE (new1 = []) AssertionError) (\<lambda>_. Inr p)) (\<lambda>p1.
            let blks = req_blocks @ replicate (nat skipped) (mgr_null_block m) @ new1;
                m2 = (rtb_set rid blks m1)\<lparr>num_cached_block := dict_set rid (int (length blks)) (num_cached_block m1)\<rparr>
            in if 0 < ext1
               then bindE (get_new_blocks (cdiv total (block_size m) - int (length blks)) p1) (\<lambda>(bs, p2).
                      Inr (record_new_ids bs p2 (rtb_set rid (blks @ bs) m2), p2))
               else Inr (m2, p1))))"

definition allocate_new_computed_blocks ::
  "string \<Rightarrow> blk_ref list \<Rightarrow> int \<Rightarrow> int \<Rightarrow> manager \<Rightarrow> block_pool \<Rightarrow> (manager \<times> block_pool) result" where
  "allocate_new_computed_blocks rid new_computed num_local num_external m p =
     (if mgr_class m = CrossAttentionManager
      then bindE (guardE (length new_computed = 0) AssertionError) (\<lambda>_. Inr (m, p))
      else base_allocate_new_computed_blocks rid new_computed num_local num_external m p)"

definition base_allocate_new_blocks ::
  "string \<Rightarrow> int \<Rightarrow> manager \<Rightarrow> block_pool \<Rightarrow> (blk_ref list \<times> manager \<times> block_pool) result" where
  "base_allocate_new_blocks rid ntoks m p =
     (let m1 = rtb_read rid m; req_blocks = rtb_get rid m1;
          num_new = cdiv ntoks (block_size m) - int (length req_blocks)
      in if num_new \<le> 0 then Inr ([], m1, p)
         else bindE (get_new_blocks num_new p) (\<lambda>(bs, p1).
                Inr (bs, record_new_ids bs p1 (rtb_set rid (req_blocks @ bs) m1), p1)))"

text \<open>
  Align mode: the speculative blocks of the previous step move to the end, one after the other,
  as long as their index lies before the running-state block.
\<close>

fun reuse_spec_blocks :: "blk_ref \<Rightarrow> int \<Rightarrow> int list \<Rightarrow> blk_ref list \<Rightarrow> blk_ref list result" where
  "reuse_spec_blocks nb skipped [] bs = Inr bs"
| "reuse_spec_blocks nb skipped (i # is) bs =
     (if i < skipped
      then bindE (py_index bs i) (\<lambda>b.
             reuse_spec_blocks nb skipped is
               ((bs @ [b])[nat (if i < 0 then int (length bs) + 1 + i else i) := nb]))
      else Inr bs)"

definition mamba_align_allocate ::
  "string \<Rightarrow> int \<Rightarrow> manager \<Rightarrow> block_pool \<Rightarrow> (blk_ref list \<times> manager \<times> block_pool) result" where
  "mamba_align_allocate rid main_tokens m p =
     (let nspec = num_speculative_blocks (mgr_spec m);
          m1 = rtb_read rid m; req_blocks = rtb_get rid m1; prev_len = int (length req_blocks);
          required = cdiv main_tokens (block_size m) + nspec
      in if required = prev_len then Inr ([], m1, p)
         else bindE (guardE (prev_len < required) AssertionError) (\<lambda>_.
           let was_alloc = rid \<in> allocated_block_reqs m;
               m2 = (if was_alloc
                     then m1\<lparr>last_state_block_idx := dict_set rid (prev_len - 1 - nspec) (last_state_block_idx m1)\<rparr>
                     else if 0 < prev_len
                     then m1\<lparr>last_state_block_idx := dict_set rid (prev_len - 1) (last_state_block_idx m1)\<rparr>
                     else m1);
               skipped = required - nspec - 1;
               blks = (if prev_len < skipped
                       then req_blocks @ replicate (nat (skipped - prev_len)) (mgr_null_block m) else req_blocks)
           in bindE (if was_alloc
                     then reuse_spec_blocks (mgr_null_block m) skipped [prev_len - nspec..prev_len - 1] blks
                     else Inr blks) (\<lambda>blks1.
             let num_new = required - int (length blks1)
             in bindE (guardE (num_new \<le> (if was_alloc then 1 else nspec + 1)) AssertionError) (\<lambda>_.
                bindE (get_new_blocks num_new p) (\<lambda>(bs, p1).
                  let blks2 = blks1 @ bs
                  in Inr (py_from blks2 prev_len,
                          (rtb_set rid blks2 m2)\<lparr>allocated_block_reqs := insert rid (allocated_block_reqs m2)\<rparr>,
                          p1))))))"

definition allocate_new_blocks ::
  "string \<Rightarrow> int \<Rightarrow> int \<Rightarrow> manager \<Rightarrow> block_pool \<Rightarrow> (blk_ref list \<times> manager \<times> block_pool) result" where
  "allocate_new_blocks rid ntoks main_tokens m p =
     (if mgr_class m = MambaManager
      then (let nspec = num_speculative_blocks (mgr_spec m)
            in if mamba_cache_mode (mgr_spec m) \<noteq> ''align''
               then base_allocate_new_blocks rid
                      (if 0 < nspec then ntoks + block_size m * nspec else ntoks) m p
               else mamba_align_allocate rid main_tokens m p)
      else base_allocate_new_blocks rid ntoks m p)"

definition take_new_block_ids :: "manager \<Rightarrow> int list \<times> manager" where
  "take_new_block_ids m = (new_block_ids m, m\<lparr>new_block_ids := []\<rparr>)"

section \<open>Caching and freeing\<close>

definition base_cache_blocks ::
  "(bytes list \<Rightarrow> bytes) \<Rightarrow> request \<Rightarrow> int \<Rightarrow> manager \<Rightarrow> block_pool \<Rightarrow> (manager \<times> block_pool) result" where
  "base_cache_blocks sha r ntoks m p =
     (let num_cached = ncb_get (request_id r) m; num_full = ntoks div block_size m
      in if num_full \<le> num_cached then Inr (m, p)
         else let m1 = rtb_read (request_id r) m
              in bindE (cache_full_blocks sha r (rtb_get (request_id r) m1) num_cached num_full (block_size m)
                          (kv_cache_group_id m) p) (\<lambda>p1.
                   Inr (m1\<lparr>num_cached_block := dict_set (request_id r) num_full (num_cached_block m1)\<rparr>, p1)))"

definition note_cached_step :: "block_pool \<Rightarrow> blk_ref \<Rightarrow> bytes set \<Rightarrow> bytes set result" where
  "note_cached_step p b acc =
     (if is_null (pmem p b) then Inr acc
      else case block_hash (pmem p b) of None \<Rightarrow> Inl AssertionError | Some h \<Rightarrow> Inr (insert h acc))"

definition cache_blocks ::
  "(bytes list \<Rightarrow> bytes) \<Rightarrow> request \<Rightarrow> int \<Rightarrow> manager \<Rightarrow> block_pool \<Rightarrow> (manager \<times> block_pool) result" where
  "cache_blocks sha r ntoks m p =
     (if mgr_class m = CrossAttentionManager then Inl ValueError
      else if mgr_class m = MambaManager
      then let was_cached = ncb_get (request_id r) m
           in bindE (base_cache_blocks sha r ntoks m p) (\<lambda>(m1, p1).
                let now_cached = ncb_get (request_id r) m1
                in if was_cached < now_cached
                   then bindE (foldE (note_cached_step p1)
                                 (py_slice (rtb_get (request_id r) m1) was_cached now_cached) (cached_blocks_this_step m1))
                          (\<lambda>hs. Inr (m1\<lparr>cached_blocks_this_step := hs\<rparr>, p1))
                   else Inr (m1, p1))
      else base_cache_blocks sha r ntoks m p)"

definition base_free :: "string \<Rightarrow> manager \<Rightarrow> block_pool \<Rightarrow> (manager \<times> block_pool) result" where
  "base_free rid m p =
     bindE (free_blocks (rev (rtb_get rid m)) p) (\<lambda>p1.
       Inr (m\<lparr>req_to_blocks := dict_pop rid (req_to_blocks m),
              num_cached_block := dict_pop rid (num_cached_block m)\<rparr>, p1))"

definition mgr_free :: "string \<Rightarrow> manager \<Rightarrow> block_pool \<Rightarrow> (manager \<times> block_pool) result" where
  "mgr_free rid m p =
     base_free rid
       (if mgr_class m = MambaManager \<and> mamba_cache_mode (mgr_spec m) = ''align''
        then m\<lparr>allocated_block_reqs := allocated_block_reqs m - {rid},
               last_state_block_idx := dict_pop rid (last_state_block_idx m)\<rparr>
        else m) p"

text \<open>The loop from the last skipped block down, until a block that is null already.\<close>

fun null_out :: "blk_ref \<Rightarrow> nat \<Rightarrow> blk_ref list \<Rightarrow> blk_ref list \<Rightarrow> blk_ref list \<times> blk_ref list" where
  "null_out nb 0 bs removed = (bs, removed)"
| "null_out nb (Suc i) bs removed =
     (if bs ! i = nb then (bs, removed)
      else null_out nb i (bs[i := nb]) (removed @ [bs ! i]))"

definition base_remove_skipped_blocks :: "string \<Rightarrow> int \<Rightarrow> manager \<Rightarrow> block_pool \<Rightarrow> (manager \<times> block_pool) result" where
  "base_remove_skipped_blocks rid total_computed m p =
     (let skipped_tokens = get_num_skipped_tokens m total_computed
      in if skipped_tokens \<le> 0 then Inr (m, p)
         else let m1 = rtb_read rid m; bs = rtb_get rid m1;
                  skipped = min (skipped_tokens div block_size m) (int (length bs));
                  (bs', removed) = null_out (mgr_null_block m) (nat skipped) bs []
              in bindE (free_blocks removed p) (\<lambda>p1. Inr (rtb_set rid bs' m1, p1)))"

definition remove_skipped_blocks :: "string \<Rightarrow> int \<Rightarrow> manager \<Rightarrow> block_pool \<Rightarrow> (manager \<times> block_pool) result" where
  "remove_skipped_blocks rid total_computed m p =
     (if mgr_class m = MambaManager
      then let n = max 0 (total_computed - num_speculative_blocks (mgr_spec m))
           in bindE (base_remove_skipped_blocks rid n m p) (\<lambda>(m1, p1).
                if mamba_cache_mode (mgr_spec m) \<noteq> ''align'' then Inr (m1, p1)
                else case dict_get (last_state_block_idx m1) rid of
                       None \<Rightarrow> Inr (m1, p1)
                     | Some i \<Rightarrow>
                         if i < cdiv n (block_size m) - 1
                         then let m2 = rtb_read rid m1; bs = rtb_get rid m2
                              in bindE (py_index bs i) (\<lambda>b.
                                   if b \<noteq> mgr_null_block m
                                   then bindE (free_blocks [b] p1) (\<lambda>p2.
                                          Inr (rtb_set rid (bs[nat (if i < 0 then int (length bs) + i else i)
                                                              := mgr_null_block m]) m2, p2))
                                   else Inr (m2, p1))
                         else Inr (m1, p1))
      else base_remove_skipped_blocks rid total_computed m p)"

definition new_step_starts :: "manager \<Rightarrow> manager" where
  "new_step_starts m = (if mgr_class m = MambaManager then m\<lparr>cached_blocks_this_step := {}\<rparr> else m)"

fun count_common :: "block_pool \<Rightarrow> int \<Rightarrow> blk_ref list \<Rightarrow> int" where
  "count_common p n [] = 0"
| "count_common p n (b # bs) = (if ref_cnt (pmem p b) = n then 1 + count_common p n bs else 0)"

definition get_num_common_prefix_blocks :: "string \<Rightarrow> manager \<Rightarrow> block_pool \<Rightarrow> int \<times> manager" where
  "get_num_common_prefix_blocks rid m p =
     (if mgr_class m \<in> {FullAttentionManager, SinkFullAttentionManager}
      then let m1 = rtb_read rid m
           in (count_common p (int (length (req_to_blocks m1))) (rtb_get rid m1), m1)
      else (0, m))"

section \<open>The longest cached prefix\<close>

text \<open>One list of blocks per group; \<open>zip\<close> appends the hit of each group to its list.\<close>

type_synonym hit_blocks = "blk_ref list list"

definition append_hits :: "hit_blocks \<Rightarrow> blk_ref list \<Rightarrow> hit_blocks" where
  "append_hits computed cached =
     map (\<lambda>(c, b). c @ [b]) (zip computed cached) @ drop (length cached) computed"

definition set_hits :: "nat \<Rightarrow> hit_blocks \<Rightarrow> blk_ref list \<Rightarrow> hit_blocks" where
  "set_hits i computed cached =
     map (\<lambda>(c, b). c[i := b]) (zip computed cached) @ drop (length cached) computed"

definition pop_all :: "hit_blocks \<Rightarrow> hit_blocks" where
  "pop_all computed = map butlast computed"

function align_pop :: "int \<Rightarrow> int \<Rightarrow> hit_blocks \<Rightarrow> hit_blocks result" where
  "align_pop bs alignment_toks computed =
     (if bs = alignment_toks then Inr computed
      else case computed of
             [] \<Rightarrow> Inl IndexError
           | c # _ \<Rightarrow>
               if (int (length c) * bs) mod alignment_toks = 0 then Inr computed
               else align_pop bs alignment_toks (pop_all computed))"
  by pat_completeness auto
termination
proof (relation "measure (\<lambda>(_, _, computed). case computed of [] \<Rightarrow> 0 | c # _ \<Rightarrow> length c)", goal_cases)
  case (2 bs al computed c cs)
  then show ?case by (cases c) (auto simp: pop_all_def)
qed simp

declare align_pop.simps [simp del]

fun full_hit_loop :: "block_pool \<Rightarrow> int list \<Rightarrow> bytes list \<Rightarrow> hit_blocks \<Rightarrow> hit_blocks result" where
  "full_hit_loop p gids [] computed = Inr computed"
| "full_hit_loop p gids (h # hs) computed =
     bindE (get_cached_block h gids p) (\<lambda>r.
       case r of
         None \<Rightarrow> Inr computed
       | Some cached \<Rightarrow> if cached = [] then Inr computed else full_hit_loop p gids hs (append_hits computed cached))"

definition full_find_longest_cache_hit ::
  "hash_seq \<Rightarrow> int \<Rightarrow> int list \<Rightarrow> block_pool \<Rightarrow> kv_spec \<Rightarrow> bool \<Rightarrow> int \<Rightarrow> int \<Rightarrow> int \<Rightarrow> hit_blocks result" where
  "full_find_longest_cache_hit hs max_length gids p spec use_eagle alignment_toks dcp pcp =
     bindE (guardE (is_full_attention spec \<or> has_class ChunkedLocalAttentionSpec spec) AssertionError) (\<lambda>_.
       let bs = (if 1 < dcp * pcp then spec_block_size spec * (dcp * pcp) else spec_block_size spec);
           max_num = max_length div bs
       in bindE (guardE (0 \<le> max_num) ValueError) (\<lambda>_.
          bindE (full_hit_loop p gids (take (nat max_num) (hs_list hs)) (replicate (length gids) [])) (\<lambda>computed.
          bindE (if use_eagle then (case computed of [] \<Rightarrow> Inl IndexError
                                   | c # _ \<Rightarrow> Inr (if c \<noteq> [] then pop_all computed else computed))
                 else Inr computed) (\<lambda>computed1.
            align_pop bs alignment_toks computed1))))"

text \<open>
  The search from right to left: \<open>n\<close> contiguous hits so far; the flag says whether a long
  enough run was found.
\<close>

fun sliding_hit_loop ::
  "block_pool \<Rightarrow> hash_seq \<Rightarrow> int list \<Rightarrow> bool \<Rightarrow> int \<Rightarrow> int \<Rightarrow> int \<Rightarrow> nat \<Rightarrow> nat \<Rightarrow> hit_blocks
     \<Rightarrow> (hit_blocks \<times> nat \<times> bool) result" where
  "sliding_hit_loop p hs gids use_eagle bs alignment_toks need 0 n computed = Inr (computed, n, False)"
| "sliding_hit_loop p hs gids use_eagle bs alignment_toks need (Suc i) n computed =
     bindE (hs_at hs (int i)) (\<lambda>h.
     bindE (get_cached_block h gids p) (\<lambda>r.
       case r of
         None \<Rightarrow> sliding_hit_loop p hs gids use_eagle bs alignment_toks need i 0 computed
       | Some cached \<Rightarrow>
           if cached = [] then sliding_hit_loop p hs gids use_eagle bs alignment_toks need i 0 computed
           else if n = 0 \<and> bs \<noteq> alignment_toks
                   \<and> ((if use_eagle then int i else int i + 1) * bs) mod alignment_toks \<noteq> 0
           then sliding_hit_loop p hs gids use_eagle bs alignment_toks need i n computed
           else let computed1 = set_hits i computed cached
                in if need \<le> int (Suc n)
                   then Inr (map (take (i + Suc n)) computed1, Suc n, True)
                   else sliding_hit_loop p hs gids use_eagle bs alignment_toks need i (Suc n) computed1))"

definition sliding_find_longest_cache_hit ::
  "hash_seq \<Rightarrow> int \<Rightarrow> int list \<Rightarrow> block_pool \<Rightarrow> kv_spec \<Rightarrow> bool \<Rightarrow> int \<Rightarrow> int \<Rightarrow> int \<Rightarrow> hit_blocks result" where
  "sliding_find_longest_cache_hit hs max_length gids p spec use_eagle alignment_toks dcp pcp =
     bindE (guardE (is_sliding_window spec \<and> dcp = 1 \<and> pcp = 1) AssertionError) (\<lambda>_.
       let bs = spec_block_size spec;
           need = cdiv (window_of spec - 1) bs + (if use_eagle then 1 else 0);
           max_num = max_length div bs
       in bindE (sliding_hit_loop p hs gids use_eagle bs alignment_toks need (nat max_num) 0
                   (replicate (length gids) (replicate (nat max_num) (null_block p)))) (\<lambda>(computed, n, found).
          bindE (if found then Inr computed else align_pop bs alignment_toks (map (take n) computed)) (\<lambda>computed1.
            if use_eagle
            then (case computed1 of
                    [] \<Rightarrow> Inl IndexError
                  | c # _ \<Rightarrow> if c \<noteq> [] then align_pop bs alignment_toks (pop_all computed1) else Inr computed1)
            else Inr computed1)))"

fun chunked_hit_loop :: "block_pool \<Rightarrow> hash_seq \<Rightarrow> int list \<Rightarrow> int list \<Rightarrow> hit_blocks \<Rightarrow> hit_blocks result" where
  "chunked_hit_loop p hs gids [] computed = Inr computed"
| "chunked_hit_loop p hs gids (i # is) computed =
     bindE (hs_at hs i) (\<lambda>h.
     bindE (get_cached_block h gids p) (\<lambda>r.
       case r of
         None \<Rightarrow> Inr computed
       | Some cached \<Rightarrow>
           if cached = [] then Inr computed
           else chunked_hit_loop p hs gids is (append_hits computed cached)))"

definition chunked_find_longest_cache_hit ::
  "hash_seq \<Rightarrow> int \<Rightarrow> int list \<Rightarrow> block_pool \<Rightarrow> kv_spec \<Rightarrow> bool \<Rightarrow> int \<Rightarrow> int \<Rightarrow> int \<Rightarrow> hit_blocks result" where
  "chunked_find_longest_cache_hit hs max_length gids p spec use_eagle alignment_toks dcp pcp =
     bindE (guardE (has_class ChunkedLocalAttentionSpec spec \<and> \<not> use_eagle \<and> dcp = 1 \<and> pcp = 1
                    \<and> spec_block_size spec = alignment_toks) AssertionError) (\<lambda>_.
       let bs = spec_block_size spec; chunk = chunk_of spec; max_num = max_length div bs;
           start = (if 0 < max_length then max_length div chunk * chunk else 0);
           start_block = start div bs
       in chunked_hit_loop p hs gids [start_block..max_num - 1]
            (replicate (length gids) (replicate (nat start_block) (null_block p))))"

fun mamba_hit_loop :: "block_pool \<Rightarrow> hash_seq \<Rightarrow> int list \<Rightarrow> int \<Rightarrow> int \<Rightarrow> nat \<Rightarrow> hit_blocks \<Rightarrow> hit_blocks result" where
  "mamba_hit_loop p hs gids bs alignment_toks 0 computed = Inr computed"
| "mamba_hit_loop p hs gids bs alignment_toks (Suc i) computed =
     bindE (hs_at hs (int i)) (\<lambda>h.
     bindE (get_cached_block h gids p) (\<lambda>r.
       case r of
         None \<Rightarrow> mamba_hit_loop p hs gids bs alignment_toks i computed
       | Some cached \<Rightarrow>
           if cached = [] then mamba_hit_loop p hs gids bs alignment_toks i computed
           else if bs \<noteq> alignment_toks \<and> ((int i + 1) * bs) mod alignment_toks \<noteq> 0
           then mamba_hit_loop p hs gids bs alignment_toks i computed
           else Inr (append_hits (map (\<lambda>c. c @ replicate i (null_block p)) computed) cached)))"

definition mamba_find_longest_cache_hit ::
  "hash_seq \<Rightarrow> int \<Rightarrow> int list \<Rightarrow> block_pool \<Rightarrow> kv_spec \<Rightarrow> bool \<Rightarrow> int \<Rightarrow> int \<Rightarrow> int \<Rightarrow> hit_blocks result" where
  "mamba_find_longest_cache_hit hs max_length gids p spec use_eagle alignment_toks dcp pcp =
     bindE (guardE (has_class MambaSpec spec \<and> dcp = 1 \<and> pcp = 1) AssertionError) (\<lambda>_.
       let bs = spec_block_size spec; max_num = max_length div bs
       in mamba_hit_loop p hs gids bs alignment_toks (nat max_num) (replicate (length gids) []))"

definition find_longest_cache_hit ::
  "manager_class \<Rightarrow> hash_seq \<Rightarrow> int \<Rightarrow> int list \<Rightarrow> block_pool \<Rightarrow> kv_spec \<Rightarrow> bool \<Rightarrow> int \<Rightarrow> int \<Rightarrow> int
     \<Rightarrow> hit_blocks result" where
  "find_longest_cache_hit c hs max_length gids p spec use_eagle alignment_toks dcp pcp =
     (case c of
        SlidingWindowManager \<Rightarrow> sliding_find_longest_cache_hit hs max_length gids p spec use_eagle alignment_toks dcp pcp
      | ChunkedLocalAttentionManager \<Rightarrow> chunked_find_longest_cache_hit hs max_length gids p spec use_eagle alignment_toks dcp pcp
      | MambaManager \<Rightarrow> mamba_find_longest_cache_hit hs max_length gids p spec use_eagle alignment_toks dcp pcp
      | CrossAttentionManager \<Rightarrow>
          bindE (guardE (has_class CrossAttentionSpec spec) AssertionError) (\<lambda>_. Inl NotImplementedError)
      | _ \<Rightarrow> full_find_longest_cache_hit hs max_length gids p spec use_eagle alignment_toks dcp pcp)"

section \<open>Ownership\<close>

text \<open>How often the requests of a manager hold a block.\<close>

definition owned :: "manager \<Rightarrow> blk_ref \<Rightarrow> int" where
  "owned m b = (\<Sum>(_, bs) \<leftarrow> req_to_blocks m. int (count_list bs b))"

text \<open>The lists of a manager: pool blocks, every block but the null block at most once per request.\<close>

definition mgr_ok :: "manager \<Rightarrow> block_pool \<Rightarrow> bool" where
  "mgr_ok m p \<longleftrightarrow> 0 < block_size m \<and> mgr_null_block m = Blk 0 \<and> dict_wf (req_to_blocks m)
     \<and> (\<forall>rid. set (rtb_get rid m) \<subseteq> set (blocks p) \<and> distinct (filter (\<lambda>b. b \<noteq> Blk 0) (rtb_get rid m)))"

text \<open>The reference count of a block is what this manager's requests and the other users \<open>h\<close> hold.\<close>

definition mgr_inv :: "(blk_ref \<Rightarrow> nat) \<Rightarrow> manager \<Rightarrow> block_pool \<Rightarrow> blk_ref list \<Rightarrow> bool" where
  "mgr_inv h m p fl \<longleftrightarrow> pool_inv p fl \<and> mgr_ok m p
     \<and> (\<forall>b \<in> set (blocks p). b \<noteq> Blk 0 \<longrightarrow> rc p b = owned m b + int (h b))"

lemma mgr_invD:
  assumes "mgr_inv h m p fl"
  shows "pool_inv p fl" "mgr_ok m p" "0 < block_size m" "mgr_null_block m = Blk 0" "dict_wf (req_to_blocks m)"
    "b \<in> set (blocks p) \<Longrightarrow> b \<noteq> Blk 0 \<Longrightarrow> rc p b = owned m b + int (h b)"
  using assms by (simp_all add: mgr_inv_def mgr_ok_def)

lemma mgr_ok_blocks:
  assumes "mgr_ok m p"
  shows "set (rtb_get rid m) \<subseteq> set (blocks p)" "distinct (filter (\<lambda>b. b \<noteq> Blk 0) (rtb_get rid m))"
  using assms by (simp_all add: mgr_ok_def)

lemma rtb_get_set [simp]: "rtb_get rid' (rtb_set rid bs m) = (if rid' = rid then bs else rtb_get rid' m)"
  by (simp add: rtb_get_def rtb_set_def)

lemma rtb_get_read [simp]: "rtb_get rid' (rtb_read rid m) = rtb_get rid' m"
  by (cases "dict_get (req_to_blocks m) rid") (auto simp: rtb_read_def rtb_set_def rtb_get_def simp del: dict_get_eq_None)

lemma rtb_get_fields [simp]:
  "rtb_get rid (m\<lparr>num_cached_block := x\<rparr>) = rtb_get rid m"
  "rtb_get rid (m\<lparr>last_state_block_idx := y\<rparr>) = rtb_get rid m"
  "rtb_get rid (m\<lparr>allocated_block_reqs := z\<rparr>) = rtb_get rid m"
  "rtb_get rid (m\<lparr>cached_blocks_this_step := c\<rparr>) = rtb_get rid m"
  by (simp_all add: rtb_get_def)

lemma owned_rtb_set: "owned (rtb_set rid bs m) b = owned m b - int (count_list (rtb_get rid m) b) + int (count_list bs b)"
proof (cases "dict_get (req_to_blocks m) rid")
  case None
  then show ?thesis using sum_dict_set_new [OF None, of "\<lambda>_ bs. int (count_list bs b)" bs]
    by (simp add: owned_def rtb_set_def rtb_get_def del: dict_get_eq_None)
next
  case (Some y)
  then show ?thesis using sum_dict_set_old [OF Some, of "\<lambda>_ bs. int (count_list bs b)" bs]
    by (simp add: owned_def rtb_set_def rtb_get_def)
qed

lemma owned_rtb_read [simp]: "owned (rtb_read rid m) b = owned m b"
  using owned_rtb_set [of rid "[]" m b] by (auto simp: rtb_read_def rtb_get_def simp del: dict_get_eq_None)

lemma owned_nonneg: "0 \<le> owned m b"
  unfolding owned_def by (intro sum_list_nonneg) auto

lemma owned_ge_count: "int (count_list (rtb_get rid m) b) \<le> owned m b"
  using owned_rtb_set [of rid "[]" m b] owned_nonneg [of "rtb_set rid [] m" b] by simp

lemma mgr_ok_rtb_set:
  assumes "mgr_ok m p" "set bs \<subseteq> set (blocks p)" "distinct (filter (\<lambda>b. b \<noteq> Blk 0) bs)"
  shows "mgr_ok (rtb_set rid bs m) p"
  using assms by (simp add: mgr_ok_def) (simp add: rtb_set_def)

lemma mgr_ok_read [simp]: "mgr_ok m p \<Longrightarrow> mgr_ok (rtb_read rid m) p"
  using mgr_ok_rtb_set [of m p "[]"] by (simp add: rtb_read_def)

lemma mgr_ok_config: "mgr_ok m p \<Longrightarrow> same_config p p' \<Longrightarrow> mgr_ok m p'"
  using same_config_blocks [of p p'] by (simp add: mgr_ok_def)

text \<open>Fields that do not matter for ownership.\<close>

lemma rtb_fields [simp]:
  "block_size (rtb_read rid m) = block_size m" "block_size (rtb_set rid bs m) = block_size m"
  "mgr_null_block (rtb_read rid m) = mgr_null_block m" "mgr_null_block (rtb_set rid bs m) = mgr_null_block m"
  "mgr_class (rtb_read rid m) = mgr_class m" "mgr_class (rtb_set rid bs m) = mgr_class m"
  "mgr_spec (rtb_read rid m) = mgr_spec m" "mgr_spec (rtb_set rid bs m) = mgr_spec m"
  "num_cached_block (rtb_read rid m) = num_cached_block m" "num_cached_block (rtb_set rid bs m) = num_cached_block m"
  by (simp_all add: rtb_read_def rtb_set_def)

lemma mgr_inv_other:
  assumes "mgr_inv h m p fl" "req_to_blocks m' = req_to_blocks m" "block_size m' = block_size m"
    "mgr_null_block m' = mgr_null_block m"
  shows "mgr_inv h m' p fl"
  using assms by (simp add: mgr_inv_def mgr_ok_def owned_def rtb_get_def)

lemma record_new_ids_fields [simp]:
  "req_to_blocks (record_new_ids bs p m) = req_to_blocks m" "block_size (record_new_ids bs p m) = block_size m"
  "mgr_null_block (record_new_ids bs p m) = mgr_null_block m"
  "num_cached_block (record_new_ids bs p m) = num_cached_block m"
  "mgr_class (record_new_ids bs p m) = mgr_class m" "mgr_spec (record_new_ids bs p m) = mgr_spec m"
  "rtb_get rid (record_new_ids bs p m) = rtb_get rid m"
  by (simp_all add: record_new_ids_def rtb_get_def)

section \<open>Taking new blocks\<close>

text \<open>New blocks appended to a request's list.\<close>

lemma mgr_get_new:
  assumes inv: "mgr_inv h m p fl" and n: "0 \<le> n" "n \<le> int (length fl)"
  defines "bs \<equiv> take (nat n) fl"
  shows "\<exists>p'. get_new_blocks n p = Inr (bs, p') \<and> same_config p p'
    \<and> mgr_inv h (rtb_set rid (rtb_get rid m @ bs) m) p' (drop (nat n) fl)
    \<and> (\<forall>b. bh p' b = (if b \<in> set bs then None else bh p b))"
proof -
  note d = mgr_invD [OF inv] note pd = pool_invD [OF d(1)]
  obtain p' where p': "get_new_blocks n p = Inr (bs, p')" "pool_inv p' (drop (nat n) fl)" "same_config p p'"
    "\<And>c. rc p' c = (if c \<in> set bs then 1 else rc p c)" "\<And>c. bh p' c = (if c \<in> set bs then None else bh p c)"
    using get_new_blocks_spec [OF d(1) n] unfolding bs_def by blast
  let ?m = "rtb_set rid (rtb_get rid m @ bs) m"
  have bl: "set (blocks p') = set (blocks p)" using same_config_blocks [OF p'(3)] by simp
  have free: "b \<in> set (blocks p) \<and> rc p b = 0 \<and> b \<noteq> Blk 0" if "b \<in> set bs" for b
    using that pd(6) in_set_takeD [of b "nat n" fl] by (simp add: bs_def)
  have dist: "distinct bs" using pd(5) by (simp add: bs_def)
  have old: "b \<notin> set (rtb_get rid m)" if "b \<in> set bs" for b
  proof
    assume "b \<in> set (rtb_get rid m)"
    then have "0 < count_list (rtb_get rid m) b" by (metis count_list_0_iff neq0_conv)
    then have "0 < owned m b" using owned_ge_count [of rid m b] by linarith
    then show False using free [OF that] d(6) [of b] by simp
  qed
  have ok: "mgr_ok ?m p'"
  proof (rule mgr_ok_config [OF _ p'(3)], rule mgr_ok_rtb_set [OF d(2)])
    show "set (rtb_get rid m @ bs) \<subseteq> set (blocks p)" using mgr_ok_blocks(1) [OF d(2)] free by auto
    show "distinct (filter (\<lambda>b. b \<noteq> Blk 0) (rtb_get rid m @ bs))"
      using mgr_ok_blocks(2) [OF d(2), of rid] dist old by auto
  qed
  have "rc p' b = owned ?m b + int (h b)" if b: "b \<in> set (blocks p)" "b \<noteq> Blk 0" for b
  proof -
    have "owned ?m b = owned m b + int (count_list bs b)" by (simp add: owned_rtb_set)
    moreover have "count_list bs b = (if b \<in> set bs then 1 else 0)"
      by (rule count_list_distinct_nn [of "Blk 0"]) (use dist b in auto)
    ultimately show ?thesis using p'(4) [of b] d(6) [OF b] free [of b] by auto
  qed
  then have "mgr_inv h ?m p' (drop (nat n) fl)" using p'(2) ok bl by (simp add: mgr_inv_def)
  then show ?thesis using p'(1,3,5) by blast
qed

lemma mgr_inv_read: "mgr_inv h m p fl \<Longrightarrow> mgr_inv h (rtb_read rid m) p fl"
  by (simp add: mgr_inv_def)

text \<open>The number of slots a request still needs decides between success and the pool's error.\<close>

lemma base_allocate_new_blocks_spec:
  fixes nt :: int and rid :: string
  assumes inv: "mgr_inv h m p fl"
  defines "k \<equiv> cdiv nt (block_size m) - int (length (rtb_get rid m))"
  shows "k \<le> int (length fl) \<Longrightarrow>
      \<exists>bs m' p'. base_allocate_new_blocks rid nt m p = Inr (bs, m', p') \<and> same_config p p'
        \<and> mgr_inv h m' p' (drop (nat k) fl) \<and> bs = take (nat k) fl
        \<and> rtb_get rid m' = rtb_get rid m @ bs \<and> cdiv nt (block_size m) \<le> int (length (rtb_get rid m'))"
    and "int (length fl) < k \<Longrightarrow> base_allocate_new_blocks rid nt m p = Inl ValueError"
proof -
  let ?m = "rtb_read rid m"
  assume le: "k \<le> int (length fl)"
  show "\<exists>bs m' p'. base_allocate_new_blocks rid nt m p = Inr (bs, m', p') \<and> same_config p p'
        \<and> mgr_inv h m' p' (drop (nat k) fl) \<and> bs = take (nat k) fl
        \<and> rtb_get rid m' = rtb_get rid m @ bs \<and> cdiv nt (block_size m) \<le> int (length (rtb_get rid m'))"
  proof (cases "k \<le> 0")
    case True
    then show ?thesis using mgr_inv_read [OF inv, of rid]
      by (auto simp: base_allocate_new_blocks_def k_def)
  next
    case False
    then obtain p' where p': "get_new_blocks k p = Inr (take (nat k) fl, p')" "same_config p p'"
      "mgr_inv h (rtb_set rid (rtb_get rid ?m @ take (nat k) fl) ?m) p' (drop (nat k) fl)"
      using mgr_get_new [OF mgr_inv_read [OF inv, of rid] _ le, of rid] by auto
    have lt: "\<not> cdiv nt (block_size m) \<le> int (length (rtb_get rid m))" using False by (simp add: k_def)
    let ?m' = "record_new_ids (take (nat k) fl) p' (rtb_set rid (rtb_get rid m @ take (nat k) fl) ?m)"
    have "base_allocate_new_blocks rid nt m p = Inr (take (nat k) fl, ?m', p')"
      using False p'(1) lt by (simp add: base_allocate_new_blocks_def k_def [symmetric] Let_def)
    moreover have "mgr_inv h ?m' p' (drop (nat k) fl)" using p'(3) by (rule mgr_inv_other) simp_all
    moreover have "rtb_get rid ?m' = rtb_get rid m @ take (nat k) fl" by simp
    ultimately show ?thesis using p'(2) le False by (auto simp: k_def)
  qed
next
  assume lt: "int (length fl) < k"
  then have "get_new_blocks k p = Inl ValueError" using get_new_blocks_exhausted [OF mgr_invD(1) [OF inv]] by blast
  moreover have "\<not> cdiv nt (block_size m) \<le> int (length (rtb_get rid m))" using lt by (simp add: k_def)
  ultimately show "base_allocate_new_blocks rid nt m p = Inl ValueError"
    by (simp add: base_allocate_new_blocks_def k_def [symmetric] Let_def)
qed

section \<open>Giving blocks back\<close>

text \<open>Blocks of one request's list are given back: \<open>gone\<close> leaves, \<open>bs'\<close> stays.\<close>

lemma mgr_give_back:
  assumes inv: "mgr_inv h m p fl"
    and cnt: "\<And>b. b \<noteq> Blk 0 \<Longrightarrow> count_list (rtb_get rid m) b = count_list bs' b + count_list gone b"
    and sub: "set gone \<subseteq> set (blocks p)" "set bs' \<subseteq> set (blocks p)"
    and m': "req_to_blocks m' = req_to_blocks (rtb_set rid bs' m)" "block_size m' = block_size m"
      "mgr_null_block m' = mgr_null_block m"
  shows "\<exists>p'. free_blocks gone p = Inr p' \<and> same_config p p' \<and> mgr_inv h m' p' (fl @ released p gone)
    \<and> (\<forall>b. bh p' b = bh p b)"
proof -
  note d = mgr_invD [OF inv]
  have one: "count_list (rtb_get rid m) b \<le> 1" if "b \<noteq> Blk 0" for b
    using count_list_distinct_nn [OF mgr_ok_blocks(2) [OF d(2)] that, of rid] by simp
  have dist: "distinct (filter (\<lambda>b. b \<noteq> Blk 0) xs)" if "\<And>b. b \<noteq> Blk 0 \<Longrightarrow> count_list xs b \<le> 1" for xs :: "blk_ref list"
    using that
  proof (induction xs)
    case (Cons x xs)
    have "count_list xs b \<le> 1" if "b \<noteq> Blk 0" for b using Cons.prems [OF that] by (auto split: if_splits)
    moreover have "x \<notin> set xs" if "x \<noteq> Blk 0" using Cons.prems [OF that] by (simp add: count_list_0_iff)
    ultimately show ?case using Cons.IH by auto
  qed simp
  have dg: "distinct (filter (\<lambda>b. b \<noteq> Blk 0) gone)" "distinct (filter (\<lambda>b. b \<noteq> Blk 0) bs')"
    using one cnt by (intro dist; fastforce)+
  have held: "\<forall>b \<in> set gone. b \<noteq> Blk 0 \<longrightarrow> 0 < rc p b"
  proof (intro ballI impI)
    fix b assume b: "b \<in> set gone" "b \<noteq> Blk 0"
    then have "0 < count_list gone b" by (metis count_list_0_iff neq0_conv)
    then have "0 < owned m b" using cnt [OF b(2)] owned_ge_count [of rid m b] by linarith
    then show "0 < rc p b" using d(6) [of b] b sub(1) by auto
  qed
  obtain p' where p': "free_blocks gone p = Inr p'" "pool_inv p' (fl @ released p gone)" "same_config p p'"
    "\<And>c. rc p' c = rc p c - int (count_list gone c)" "\<And>c. bh p' c = bh p c"
    using free_blocks_spec [OF d(1) sub(1) dg(1) held] by blast
  have bl: "set (blocks p') = set (blocks p)" using same_config_blocks [OF p'(3)] by simp
  have "mgr_inv h (rtb_set rid bs' m) p' (fl @ released p gone)"
    unfolding mgr_inv_def
  proof (intro conjI ballI impI)
    show "mgr_ok (rtb_set rid bs' m) p'"
      by (rule mgr_ok_config [OF _ p'(3)], rule mgr_ok_rtb_set [OF d(2) sub(2) dg(2)])
    fix b assume "b \<in> set (blocks p')" "b \<noteq> Blk 0"
    then show "rc p' b = owned (rtb_set rid bs' m) b + int (h b)"
      using p'(4) [of b] d(6) [of b] cnt [of b] bl by (simp add: owned_rtb_set)
  qed (rule p'(2))
  then have "mgr_inv h m' p' (fl @ released p gone)" by (rule mgr_inv_other) (simp_all add: m')
  then show ?thesis using p'(1,3,5) by blast
qed

lemma req_to_blocks_pop:
  assumes "mgr_inv h m p fl" shows "owned (m\<lparr>req_to_blocks := dict_pop rid (req_to_blocks m)\<rparr>) b =
    owned (rtb_set rid [] m) b"
proof (cases "dict_get (req_to_blocks m) rid")
  case None
  then show ?thesis unfolding owned_rtb_set by (simp add: owned_def rtb_get_def dict_pop_absent del: dict_get_eq_None)
next
  case (Some y)
  then show ?thesis
    using sum_dict_pop [OF mgr_invD(5) [OF assms] Some, of "\<lambda>_ bs. int (count_list bs b)"]
    unfolding owned_rtb_set by (simp add: owned_def rtb_get_def)
qed

lemma base_free_spec:
  assumes inv: "mgr_inv h m p fl"
  shows "\<exists>m' p'. base_free rid m p = Inr (m', p') \<and> same_config p p'
    \<and> mgr_inv h m' p' (fl @ released p (rev (rtb_get rid m))) \<and> (\<forall>b. bh p' b = bh p b)
    \<and> dict_get (req_to_blocks m') rid = None \<and> dict_get (num_cached_block m') rid = None
    \<and> (\<forall>r. r \<noteq> rid \<longrightarrow> rtb_get r m' = rtb_get r m)"
proof -
  note d = mgr_invD [OF inv]
  let ?gone = "rev (rtb_get rid m)"
  obtain p' where p': "free_blocks ?gone p = Inr p'" "same_config p p'"
    "mgr_inv h (rtb_set rid [] m) p' (fl @ released p ?gone)" "\<forall>b. bh p' b = bh p b"
    using mgr_give_back [OF inv, of rid "[]" ?gone "rtb_set rid [] m"] mgr_ok_blocks(1) [OF d(2), of rid] by auto
  let ?m1 = "m\<lparr>req_to_blocks := dict_pop rid (req_to_blocks m)\<rparr>"
  let ?m' = "m\<lparr>req_to_blocks := dict_pop rid (req_to_blocks m), num_cached_block := dict_pop rid (num_cached_block m)\<rparr>"
  have "mgr_ok ?m1 p'"
    using mgr_ok_config [OF d(2) p'(2)] by (simp add: mgr_ok_def rtb_get_def)
  then have "mgr_inv h ?m1 p' (fl @ released p ?gone)"
    using p'(3) req_to_blocks_pop [OF inv, of rid] by (simp add: mgr_inv_def)
  then have "mgr_inv h ?m' p' (fl @ released p ?gone)" by (rule mgr_inv_other) simp_all
  then show ?thesis using p' by (auto simp: base_free_def rtb_get_def simp del: dict_get_eq_None)
qed

text \<open>Nulling out: what leaves and what stays.\<close>

lemma null_out_spec:
  assumes "n \<le> length bs" "null_out nb n bs rem = (bs', rem')"
  shows "length bs' = length bs" "\<exists>k \<le> n. bs' = take k bs @ replicate (n - k) nb @ drop n bs
      \<and> rem' = rem @ rev (take (n - k) (drop k bs)) \<and> (0 < k \<longrightarrow> bs ! (k - 1) = nb)
      \<and> (\<forall>i. k \<le> i \<longrightarrow> i < n \<longrightarrow> bs ! i \<noteq> nb)"
proof -
  have "\<exists>k \<le> n. bs' = take k bs @ replicate (n - k) nb @ drop n bs
      \<and> rem' = rem @ rev (take (n - k) (drop k bs)) \<and> (0 < k \<longrightarrow> bs ! (k - 1) = nb)
      \<and> (\<forall>i. k \<le> i \<longrightarrow> i < n \<longrightarrow> bs ! i \<noteq> nb)"
    using assms
  proof (induction n arbitrary: bs rem)
    case 0
    then show ?case by simp
  next
    case (Suc n)
    show ?case
    proof (cases "bs ! n = nb")
      case True
      then show ?thesis using Suc.prems by (intro exI [of _ "Suc n"]) auto
    next
      case False
      let ?bs = "bs[n := nb]"
      have "null_out nb n ?bs (rem @ [bs ! n]) = (bs', rem')" using Suc.prems(2) False by simp
      then obtain k where k: "k \<le> n" "bs' = take k ?bs @ replicate (n - k) nb @ drop n ?bs"
        "rem' = (rem @ [bs ! n]) @ rev (take (n - k) (drop k ?bs))" "0 < k \<longrightarrow> ?bs ! (k - 1) = nb"
        "\<forall>i. k \<le> i \<longrightarrow> i < n \<longrightarrow> ?bs ! i \<noteq> nb"
        using Suc.IH [of ?bs "rem @ [bs ! n]"] Suc.prems(1) by (metis Suc_leD length_list_update)
      have n: "n < length bs" using Suc.prems(1) by simp
      have d: "drop n ?bs = nb # drop (Suc n) bs" using n by (simp add: Cons_nth_drop_Suc [symmetric])
      have t: "take (n - k) (drop k ?bs) = take (n - k) (drop k bs)"
        using k(1) by (simp add: drop_update_swap)
      have t2: "take (Suc n - k) (drop k bs) = take (n - k) (drop k bs) @ [bs ! n]"
        using k(1) n by (simp add: Suc_diff_le take_Suc_conv_app_nth)
      have "bs' = take k bs @ replicate (Suc n - k) nb @ drop (Suc n) bs"
        using k(1,2) d by (simp add: Suc_diff_le replicate_append_same [symmetric])
      moreover have "rem' = rem @ rev (take (Suc n - k) (drop k bs))" using k(3) t t2 by simp
      moreover have "0 < k \<longrightarrow> bs ! (k - 1) = nb" using k(1,4) by auto
      moreover have "\<forall>i. k \<le> i \<longrightarrow> i < Suc n \<longrightarrow> bs ! i \<noteq> nb" using k(5) False by (auto simp: less_Suc_eq)
      ultimately show ?thesis using k(1) by (intro exI [of _ k]) auto
    qed
  qed
  then show "\<exists>k \<le> n. bs' = take k bs @ replicate (n - k) nb @ drop n bs
      \<and> rem' = rem @ rev (take (n - k) (drop k bs)) \<and> (0 < k \<longrightarrow> bs ! (k - 1) = nb)
      \<and> (\<forall>i. k \<le> i \<longrightarrow> i < n \<longrightarrow> bs ! i \<noteq> nb)" .
  then show "length bs' = length bs" using assms(1) by auto
qed

lemma count_list_replicate: "count_list (replicate n x) b = (if b = x then n else 0)"
  by (induction n) auto

lemma base_remove_skipped_spec:
  assumes inv: "mgr_inv h m p fl"
  shows "\<exists>m' p' gone. base_remove_skipped_blocks rid n m p = Inr (m', p') \<and> same_config p p'
    \<and> mgr_inv h m' p' (fl @ released p gone) \<and> (\<forall>b. bh p' b = bh p b)
    \<and> length (rtb_get rid m') = length (rtb_get rid m)
    \<and> (\<forall>i. get_num_skipped_tokens m n div block_size m \<le> int i \<longrightarrow> i < length (rtb_get rid m) \<longrightarrow>
           rtb_get rid m' ! i = rtb_get rid m ! i)
    \<and> (\<forall>r. r \<noteq> rid \<longrightarrow> rtb_get r m' = rtb_get r m) \<and> num_cached_block m' = num_cached_block m"
proof (cases "get_num_skipped_tokens m n \<le> 0")
  case True
  then show ?thesis using inv
    by (intro exI [of _ m] exI [of _ p] exI [of _ "[]"]) (simp add: base_remove_skipped_blocks_def released_def)
next
  case False
  note d = mgr_invD [OF inv]
  let ?m1 = "rtb_read rid m" let ?bs = "rtb_get rid m"
  define k where "k = min (get_num_skipped_tokens m n div block_size m) (int (length ?bs))"
  have k: "0 \<le> k" "nat k \<le> length ?bs" "int (nat k) \<le> get_num_skipped_tokens m n div block_size m"
    using False d(3) by (auto simp: k_def pos_imp_zdiv_nonneg_iff)
  obtain bs' gone where no: "null_out (Blk 0) (nat k) ?bs [] = (bs', gone)" by force
  note s = null_out_spec [OF k(2) no]
  then obtain j where j: "j \<le> nat k" "bs' = take j ?bs @ replicate (nat k - j) (Blk 0) @ drop (nat k) ?bs"
    "gone = rev (take (nat k - j) (drop j ?bs))" by auto
  have split: "?bs = take j ?bs @ take (nat k - j) (drop j ?bs) @ drop (nat k) ?bs"
    using j(1) by (metis append.assoc append_take_drop_id le_add_diff_inverse take_add)
  have cnt: "count_list ?bs b = count_list bs' b + count_list gone b" if "b \<noteq> Blk 0" for b
    using that by (subst split) (simp add: j(2,3) count_list_replicate)
  have "set gone \<subseteq> set ?bs" unfolding j(3) by (auto dest: in_set_takeD in_set_dropD)
  then have sub: "set gone \<subseteq> set (blocks p)" using mgr_ok_blocks(1) [OF d(2), of rid] by blast
  have sub': "set bs' \<subseteq> set (blocks p)"
    using mgr_ok_blocks(1) [OF d(2), of rid] ids_ok_null [OF pool_invD(2) [OF d(1)]] unfolding j(2)
    by (auto dest: in_set_takeD in_set_dropD)
  have inv1: "mgr_inv h ?m1 p fl" by (rule mgr_inv_read [OF inv])
  obtain p' where p': "free_blocks gone p = Inr p'" "same_config p p'"
    "mgr_inv h (rtb_set rid bs' ?m1) p' (fl @ released p gone)" "\<forall>b. bh p' b = bh p b"
    using mgr_give_back [OF inv1, of rid bs' gone "rtb_set rid bs' ?m1"] cnt sub sub' by auto
  have "base_remove_skipped_blocks rid n m p = Inr (rtb_set rid bs' ?m1, p')"
    using False no p'(1) d(4) by (simp add: base_remove_skipped_blocks_def Let_def k_def [symmetric])
  moreover have "bs' ! i = ?bs ! i" if "get_num_skipped_tokens m n div block_size m \<le> int i" "i < length ?bs" for i
  proof -
    have "nat k \<le> i" using that(1) k by linarith
    then have "\<not> i - j < nat k - j" "\<not> i < j" "i - j - (nat k - j) + nat k = i" using j(1) by linarith+
    then show ?thesis using j(1) that(2) k(2) unfolding j(2) by (simp add: nth_append add.commute)
  qed
  ultimately show ?thesis using p'(2-4) s(1) by auto
qed

section \<open>Prefix hits of a new request\<close>

lemma mgr_touch:
  assumes inv: "mgr_inv h m p fl" and new: "rtb_get rid m = []"
    and bs: "set bs \<subseteq> set (blocks p)" "distinct (filter (\<lambda>b. b \<noteq> Blk 0) bs)"
  shows "\<exists>p'. touch bs p = Inr p' \<and> same_config p p' \<and> (\<forall>b. bh p' b = bh p b)
    \<and> mgr_inv h (rtb_set rid (replicate k (Blk 0) @ bs) m) p' (filter (\<lambda>b. b \<notin> set bs) fl)"
proof -
  note d = mgr_invD [OF inv]
  obtain p' where p': "touch bs p = Inr p'" "pool_inv p' (filter (\<lambda>x. x \<notin> set bs) fl)" "same_config p p'"
    "\<And>c. rc p' c = rc p c + int (count_list bs c)" "\<And>c. bh p' c = bh p c"
    using touch_spec [OF d(1) bs(1)] by blast
  let ?l = "replicate k (Blk 0) @ bs"
  have bl: "set (blocks p') = set (blocks p)" using same_config_blocks [OF p'(3)] by simp
  have "mgr_ok (rtb_set rid ?l m) p'"
  proof (rule mgr_ok_config [OF _ p'(3)], rule mgr_ok_rtb_set [OF d(2)])
    show "set ?l \<subseteq> set (blocks p)" using bs(1) ids_ok_null [OF pool_invD(2) [OF d(1)]] by auto
    show "distinct (filter (\<lambda>b. b \<noteq> Blk 0) ?l)" using bs(2) by simp
  qed
  moreover have "rc p' b = owned (rtb_set rid ?l m) b + int (h b)" if "b \<in> set (blocks p)" "b \<noteq> Blk 0" for b
    using p'(4) [of b] d(6) [OF that] that by (simp add: owned_rtb_set new count_list_replicate)
  ultimately have "mgr_inv h (rtb_set rid ?l m) p' (filter (\<lambda>x. x \<notin> set bs) fl)"
    using p'(2) bl by (simp add: mgr_inv_def)
  then show ?thesis using p'(1,3,5) by blast
qed

text \<open>
  The hits of a new request: \<open>k\<close> skipped blocks are null, the rest are shared; with external
  tokens the list is filled up with new blocks.
\<close>

lemma base_allocate_new_computed_spec:
  fixes rid :: string and loc ext :: int
  assumes inv: "mgr_inv h m p fl" and fresh: "\<not> is_running rid m" "rtb_get rid m = []"
    and en: "mgr_enable_caching m"
    and new: "set new \<subseteq> set (blocks p)" "distinct (filter (\<lambda>b. b \<noteq> Blk 0) new)"
  defines "tot \<equiv> loc + ext"
  defines "k \<equiv> max 0 (get_num_skipped_tokens m tot div block_size m)"
  defines "ext1 \<equiv> (if 0 < k then min (tot - get_num_skipped_tokens m tot) ext else ext)"
  defines "l \<equiv> replicate (nat k) (Blk 0) @ drop (nat k) new"
  defines "fl1 \<equiv> filter (\<lambda>b. b \<notin> set (drop (nat k) new)) fl"
  defines "extra \<equiv> (if 0 < ext1 then cdiv tot (block_size m) - int (length l) else 0)"
  assumes room: "0 \<le> extra" "extra \<le> int (length fl1)"
  shows "\<exists>m' p'. base_allocate_new_computed_blocks rid new loc ext m p = Inr (m', p') \<and> same_config p p'
    \<and> mgr_inv h m' p' (drop (nat extra) fl1) \<and> rtb_get rid m' = l @ take (nat extra) fl1
    \<and> ncb_get rid m' = int (length l) \<and> is_running rid m'
    \<and> (\<forall>r. r \<noteq> rid \<longrightarrow> rtb_get r m' = rtb_get r m)"
proof -
  note d = mgr_invD [OF inv]
  let ?m1 = "rtb_read rid m" let ?sk = "get_num_skipped_tokens m tot div block_size m"
  have inv1: "mgr_inv h ?m1 p fl" by (rule mgr_inv_read [OF inv])
  have k: "nat ?sk = nat k" "0 < ?sk \<longleftrightarrow> 0 < k" by (auto simp: k_def)
  have cut: "(if 0 < ?sk then (py_from new ?sk, min (tot - get_num_skipped_tokens m tot) ext) else (new, ext))
      = (drop (nat k) new, ext1)"
    using k by (auto simp: ext1_def py_from_nonneg)
  have sub: "set (drop (nat k) new) \<subseteq> set (blocks p)" using new(1) by (auto dest: in_set_dropD)
  have "filter (\<lambda>b. b \<noteq> Blk 0) new = filter (\<lambda>b. b \<noteq> Blk 0) (take (nat k) new) @ filter (\<lambda>b. b \<noteq> Blk 0) (drop (nat k) new)"
    by (metis append_take_drop_id filter_append)
  then have dist: "distinct (filter (\<lambda>b. b \<noteq> Blk 0) (drop (nat k) new))" using new(2) by simp
  obtain p1 where p1: "touch (drop (nat k) new) p = Inr p1" "same_config p p1"
    "mgr_inv h (rtb_set rid l ?m1) p1 fl1"
    using mgr_touch [OF inv1, of rid "drop (nat k) new" "nat k"] fresh(2) sub dist unfolding l_def fl1_def by auto
  let ?m2 = "(rtb_set rid l ?m1)\<lparr>num_cached_block := dict_set rid (int (length l)) (num_cached_block m)\<rparr>"
  have inv2: "mgr_inv h ?m2 p1 fl1" by (rule mgr_inv_other [OF p1(3)]) simp_all
  have rtb2: "rtb_get r ?m2 = (if r = rid then l else rtb_get r m)" for r
    by simp
  have run: "is_running rid (record_new_ids bs q (rtb_set rid x ?m2))" "ncb_get rid (record_new_ids bs q (rtb_set rid x ?m2)) = int (length l)"
     "is_running rid ?m2" "ncb_get rid ?m2 = int (length l)" for bs q x
    by (simp_all add: is_running_def ncb_get_def del: dict_get_eq_None)
  have unf: "base_allocate_new_computed_blocks rid new loc ext m p =
     (if 0 < ext1
      then bindE (get_new_blocks (cdiv tot (block_size m) - int (length l)) p1) (\<lambda>(bs, p2).
             Inr (record_new_ids bs p2 (rtb_set rid (l @ bs) ?m2), p2))
      else Inr (?m2, p1))"
    using fresh en p1(1) d(4)
    by (simp add: base_allocate_new_computed_blocks_def Let_def tot_def [symmetric] cut k(1) l_def [symmetric])
  show ?thesis
  proof (cases "0 < ext1")
    case False
    then show ?thesis using unf inv2 p1(2) rtb2 run(3,4) room by (auto simp: extra_def)
  next
    case True
    then have extra: "extra = cdiv tot (block_size m) - int (length l)" by (simp add: extra_def)
    obtain p2 where p2: "get_new_blocks extra p1 = Inr (take (nat extra) fl1, p2)" "same_config p1 p2"
      "mgr_inv h (rtb_set rid (l @ take (nat extra) fl1) ?m2) p2 (drop (nat extra) fl1)"
      using mgr_get_new [OF inv2 room, of rid] rtb2 [of rid] by auto
    let ?m3 = "record_new_ids (take (nat extra) fl1) p2 (rtb_set rid (l @ take (nat extra) fl1) ?m2)"
    have "mgr_inv h ?m3 p2 (drop (nat extra) fl1)" by (rule mgr_inv_other [OF p2(3)]) simp_all
    moreover have "base_allocate_new_computed_blocks rid new loc ext m p = Inr (?m3, p2)"
      using unf True p2(1) extra by simp
    ultimately show ?thesis
      using same_config_trans [OF p1(2) p2(2)] rtb2 run(1,2) by (intro exI [of _ ?m3] exI [of _ p2]) simp
  qed
qed

section \<open>Caching, and the state-space manager\<close>

lemma base_cache_blocks_pres:
  assumes inv: "mgr_inv h m p fl" and en: "enable_caching p"
    and run: "base_cache_blocks sha r nt m p = Inr (m', p')"
  shows "mgr_inv h m' p' fl \<and> same_config p p' \<and> (\<forall>rid. rtb_get rid m' = rtb_get rid m)"
proof (cases "nt div block_size m \<le> ncb_get (request_id r) m")
  case True
  then show ?thesis using run inv by (simp add: base_cache_blocks_def)
next
  case False
  note d = mgr_invD [OF inv]
  let ?m1 = "rtb_read (request_id r) m"
  obtain p1 where p1: "cache_full_blocks sha r (rtb_get (request_id r) m) (ncb_get (request_id r) m)
      (nt div block_size m) (block_size m) (kv_cache_group_id m) p = Inr p1"
    and m': "m' = ?m1\<lparr>num_cached_block := dict_set (request_id r) (nt div block_size m) (num_cached_block m)\<rparr>" "p' = p1"
    using run False by (auto simp: base_cache_blocks_def Let_def elim!: bindE_eq_InrE)
  have c: "pool_inv p1 fl" "same_config p p1" "\<And>b. rc p1 b = rc p b"
    using cache_full_blocks_pres [OF d(1) en mgr_ok_blocks(1) [OF d(2)] p1] by auto
  have bl: "set (blocks p1) = set (blocks p)" using same_config_blocks [OF c(2)] by simp
  have "mgr_inv h ?m1 p1 fl"
    using mgr_inv_read [OF inv, of "request_id r"] c bl mgr_ok_config [OF _ c(2)] by (simp add: mgr_inv_def)
  then have "mgr_inv h m' p1 fl" by (rule mgr_inv_other) (simp_all add: m')
  moreover have "rtb_get rid m' = rtb_get rid m" for rid
    by (simp add: m')
  ultimately show ?thesis using c(2) m'(2) by simp
qed

lemma count_list_update:
  assumes "i < length xs"
  shows "int (count_list (xs[i := v]) b) =
    int (count_list xs b) - (if xs ! i = b then 1 else 0) + (if v = b then 1 else 0)"
  using assms
proof (induction xs arbitrary: i)
  case (Cons x xs)
  show ?case
  proof (cases i)
    case (Suc j)
    then show ?thesis using Cons.IH [of j] Cons.prems by (auto split: if_splits)
  qed simp
qed simp

text \<open>Moving speculative blocks to the end keeps every block of the request.\<close>

lemma reuse_spec_blocks_count:
  "reuse_spec_blocks nb sk is bs = Inr bs' \<Longrightarrow> \<forall>i \<in> set is. 0 \<le> i \<Longrightarrow> b \<noteq> nb \<Longrightarrow>
   count_list bs' b = count_list bs b \<and> set bs' \<subseteq> insert nb (set bs) \<and> length bs \<le> length bs'"
proof (induction nb sk "is" bs rule: reuse_spec_blocks.induct)
  case (2 nb sk i js bs)
  show ?case
  proof (cases "i < sk")
    case True
    then obtain x where x: "py_index bs i = Inr x"
      "reuse_spec_blocks nb sk js ((bs @ [x])[nat i := nb]) = Inr bs'"
      using 2 by (auto split: if_splits elim!: bindE_eq_InrE)
    have i: "nat i < length bs" "x = bs ! nat i" using x(1) "2.prems"(2) by (auto simp: py_index_Inr)
    have IH: "count_list bs' b = count_list ((bs @ [x])[nat i := nb]) b"
      "set bs' \<subseteq> insert nb (set ((bs @ [x])[nat i := nb]))" "length ((bs @ [x])[nat i := nb]) \<le> length bs'"
      using "2.IH" [OF True, of x] x(2) "2.prems"(2,3) by auto
    have "int (count_list ((bs @ [x])[nat i := nb]) b) = int (count_list bs b)"
      using i "2.prems"(3) count_list_update [of "nat i" "bs @ [x]" nb b] by (auto simp: nth_append)
    moreover have "set ((bs @ [x])[nat i := nb]) \<subseteq> insert nb (set bs)"
      using set_update_subset_insert [of "bs @ [x]" "nat i" nb] i by auto
    ultimately show ?thesis using IH by auto
  qed (use 2 in auto)
qed auto

lemma count_mset_list: "count (mset xs) b = count_list xs b"
  by (induction xs) auto

lemma count_list_filter: "count_list (filter P xs) b = (if P b then count_list xs b else 0)"
  by (induction xs) auto

lemma mgr_relist:
  assumes inv: "mgr_inv h m p fl" and cnt: "\<And>b. b \<noteq> Blk 0 \<Longrightarrow> count_list bs' b = count_list (rtb_get rid m) b"
    and sub: "set bs' \<subseteq> set (blocks p)"
  shows "mgr_inv h (rtb_set rid bs' m) p fl"
proof -
  note d = mgr_invD [OF inv]
  have "distinct (filter (\<lambda>b. b \<noteq> Blk 0) bs')"
  proof -
    have "mset (filter (\<lambda>b. b \<noteq> Blk 0) bs') = mset (filter (\<lambda>b. b \<noteq> Blk 0) (rtb_get rid m))"
      by (rule multiset_eqI) (use cnt in \<open>simp add: count_mset_list count_list_filter del: mset_filter\<close>)
    then show ?thesis using mgr_ok_blocks(2) [OF d(2), of rid] by (metis mset_eq_imp_distinct_iff)
  qed
  then have "mgr_ok (rtb_set rid bs' m) p" using mgr_ok_rtb_set [OF d(2) sub] by blast
  then show ?thesis using inv cnt by (auto simp: mgr_inv_def owned_rtb_set)
qed

section \<open>Attention windows\<close>

text \<open>
  \<open>attends n t\<close>: computing the token at position \<open>n\<close>, when \<open>n\<close> tokens are computed, needs
  the cached state of token \<open>t\<close>. \<open>skip n\<close> is the number of leading tokens that are given up.
\<close>

locale attention_window =
  fixes attends :: "int \<Rightarrow> int \<Rightarrow> bool" and skip :: "int \<Rightarrow> int"
  assumes skip_unattended: "attends n t \<Longrightarrow> 0 \<le> n \<Longrightarrow> skip n \<le> t"
    and skip_mono: "n \<le> n' \<Longrightarrow> skip n \<le> skip n'"
    and skip_le: "0 \<le> n \<Longrightarrow> skip n \<le> n"
begin

text \<open>A block given up at one step is not needed at any later step.\<close>

lemma freed_never_needed:
  assumes "0 < bs" "n \<le> n'" "0 \<le> n'" "attends n' t"
  shows "skip n div bs \<le> t div bs"
proof -
  have "skip n \<le> t" using skip_unattended [OF assms(4,3)] skip_mono [OF assms(2)] by simp
  then show ?thesis using assms(1) by (rule zdiv_mono1)
qed

lemma skipped_blocks_bounded: "0 < bs \<Longrightarrow> 0 \<le> n \<Longrightarrow> skip n div bs \<le> cdiv n bs"
  using zdiv_mono1 [of "skip n" n bs] skip_le [of n] cdiv_ge_div [of bs n] by linarith

end

text \<open>The window of each kind of layer.\<close>

definition attends_to :: "manager \<Rightarrow> int \<Rightarrow> int \<Rightarrow> bool" where
  "attends_to m n t =
     (case mgr_class m of
        SlidingWindowManager \<Rightarrow> n - window_of (mgr_spec m) < t \<and> 0 \<le> t \<and> t < n
      | ChunkedLocalAttentionManager \<Rightarrow> t div chunk_of (mgr_spec m) = n div chunk_of (mgr_spec m) \<and> t < n
      | MambaManager \<Rightarrow> t = n - 1
      | _ \<Rightarrow> 0 \<le> t \<and> t < n)"

definition window_ok :: "manager \<Rightarrow> bool" where
  "window_ok m \<longleftrightarrow> (mgr_class m = SlidingWindowManager \<longrightarrow> 0 < window_of (mgr_spec m))
     \<and> (mgr_class m = ChunkedLocalAttentionManager \<longrightarrow> 0 < chunk_of (mgr_spec m))"

interpretation full_win: attention_window "\<lambda>n t. 0 \<le> t \<and> t < n" "\<lambda>_. 0"
  by unfold_locales auto

interpretation sliding_win: attention_window
    "\<lambda>n t. n - int (Suc w) < t \<and> 0 \<le> t \<and> t < n" "\<lambda>n. max 0 (n - int (Suc w) + 1)" for w
  by unfold_locales auto

interpretation chunked_win: attention_window
    "\<lambda>n t. t div int (Suc c) = n div int (Suc c) \<and> t < n" "\<lambda>n. (n div int (Suc c)) * int (Suc c)" for c
proof unfold_locales
  fix n t :: int assume "t div int (Suc c) = n div int (Suc c) \<and> t < n"
  then show "n div int (Suc c) * int (Suc c) \<le> t"
    using int_le_div_iff [of "int (Suc c)" "n div int (Suc c)" t] by simp
next
  fix n n' :: int assume "n \<le> n'"
  then have "n div int (Suc c) \<le> n' div int (Suc c)" by (simp add: zdiv_mono1)
  then show "n div int (Suc c) * int (Suc c) \<le> n' div int (Suc c) * int (Suc c)" by (simp add: mult_right_mono)
next
  fix n :: int
  show "n div int (Suc c) * int (Suc c) \<le> n"
    using int_le_div_iff [of "int (Suc c)" "n div int (Suc c)" n] by simp
qed

interpretation mamba_win: attention_window "\<lambda>n t. t = n - 1" "\<lambda>n. n - 1"
  by unfold_locales auto

lemma attends_freed_never_needed:
  assumes "window_ok m" "0 < bs" "n \<le> n'" "0 \<le> n'" "attends_to m n' t"
  shows "get_num_skipped_tokens m n div bs \<le> t div bs"
proof (cases "mgr_class m")
  case SlidingWindowManager
  then obtain w where "window_of (mgr_spec m) = int (Suc w)"
    using assms(1) by (metis window_ok_def zero_less_imp_eq_int gr0_implies_Suc of_nat_0_less_iff)
  then show ?thesis using sliding_win.freed_never_needed [OF assms(2-4), of w t] assms(5) SlidingWindowManager
    by (simp add: attends_to_def get_num_skipped_tokens_def)
next
  case ChunkedLocalAttentionManager
  then obtain c where "chunk_of (mgr_spec m) = int (Suc c)"
    using assms(1) by (metis window_ok_def zero_less_imp_eq_int gr0_implies_Suc of_nat_0_less_iff)
  then show ?thesis using chunked_win.freed_never_needed [OF assms(2-4), of t c] assms(5) ChunkedLocalAttentionManager
    by (simp add: attends_to_def get_num_skipped_tokens_def)
next
  case MambaManager
  then show ?thesis using mamba_win.freed_never_needed [OF assms(2-4), of t] assms(5)
    by (simp add: attends_to_def get_num_skipped_tokens_def)
qed (use full_win.freed_never_needed [OF assms(2-4), of t] assms(5) in
     \<open>simp_all add: attends_to_def get_num_skipped_tokens_def\<close>)

section \<open>What the admission check guarantees\<close>

lemma evictable_free:
  assumes inv: "pool_inv p fl" and bs: "set bs \<subseteq> set (blocks p)" "distinct (filter (\<lambda>b. b \<noteq> Blk 0) bs)"
  shows "get_num_evictable_blocks p bs + int (length (filter (\<lambda>b. b \<notin> set bs) fl)) = int (length fl)"
proof -
  note d = pool_invD [OF inv]
  define e where "e = filter (\<lambda>b. rc p b = 0 \<and> b \<noteq> Blk 0) bs"
  have ev: "get_num_evictable_blocks p bs = int (length e)"
  proof -
    have "filter (\<lambda>b. ref_cnt (pmem p b) = 0 \<and> \<not> is_null (pmem p b)) bs = e"
      unfolding e_def
    proof (rule filter_cong [OF refl])
      fix b assume "b \<in> set bs"
      then show "(ref_cnt (pmem p b) = 0 \<and> \<not> is_null (pmem p b)) = (rc p b = 0 \<and> b \<noteq> Blk 0)"
        using ids_okD(2) [OF d(2), of b] bs(1) by blast
    qed
    then show ?thesis by (simp add: get_num_evictable_blocks_def)
  qed
  have "set e = set bs \<inter> set fl" unfolding e_def d(6) using bs(1) by auto
  moreover have "e = filter (\<lambda>b. rc p b = 0) (filter (\<lambda>b. b \<noteq> Blk 0) bs)"
    unfolding e_def filter_filter by (rule filter_cong) auto
  then have "distinct e" using distinct_filter [OF bs(2)] by simp
  ultimately have e: "length e = card (set bs \<inter> set fl)" using distinct_card [of e] by simp
  have "distinct (filter (\<lambda>b. b \<notin> set bs) fl)" using d(5) by (rule distinct_filter)
  then have r: "length (filter (\<lambda>b. b \<notin> set bs) fl) = card (set fl - set bs)"
    using distinct_card [of "filter (\<lambda>b. b \<notin> set bs) fl"] by (simp add: set_diff_eq)
  have "length fl = card (set fl)" using d(5) by (simp add: distinct_card)
  also have "\<dots> = card (set fl \<inter> set bs) + card (set fl - set bs)"
    using card_Int_Diff [of "set fl" "set bs"] by simp
  finally show ?thesis using ev e r by (simp add: Int_commute)
qed

text \<open>
  A manager that gives nothing up and has no cap: if the number it asks for is free, both
  allocation calls succeed. First for a running request.
\<close>

lemma admission_running:
  assumes inv: "mgr_inv h m p fl" and run: "is_running rid m" and cap: "max_admission_blocks m = None"
    and ask: "base_num_blocks_to_allocate m p rid nt [] cpt = Inr k" "k \<le> get_num_free_blocks p"
  shows "\<exists>bs m' p'. base_allocate_new_blocks rid nt m p = Inr (bs, m', p') \<and> int (length bs) = k
    \<and> cdiv nt (block_size m) \<le> int (length (rtb_get rid m'))"
proof -
  have k: "k = max (cdiv nt (block_size m) - int (length (rtb_get rid m))) 0"
    using ask(1) run cap by (simp add: base_num_blocks_to_allocate_def Let_def)
  have "k \<le> int (length fl)"
    using ask(2) pool_invD(8) [OF mgr_invD(1) [OF inv]] by (simp add: get_num_free_blocks_def)
  then show ?thesis using base_allocate_new_blocks_spec(1) [OF inv, of nt rid] k by fastforce
qed

lemma admission_new:
  assumes inv: "mgr_inv h m p fl" and fresh: "\<not> is_running rid m" "rtb_get rid m = []"
    and cap: "max_admission_blocks m = None" and skip: "\<forall>n. get_num_skipped_tokens m n = 0"
    and en: "mgr_enable_caching m"
    and new: "set new \<subseteq> set (blocks p)" "distinct (filter (\<lambda>b. b \<noteq> Blk 0) new)"
    and ask: "base_num_blocks_to_allocate m p rid nt new cpt = Inr k" "k \<le> get_num_free_blocks p"
  shows "\<exists>m1 p1 bs m2 p2. base_allocate_new_computed_blocks rid new cpt 0 m p = Inr (m1, p1)
    \<and> base_allocate_new_blocks rid nt m1 p1 = Inr (bs, m2, p2)
    \<and> rtb_get rid m2 = new @ bs \<and> cdiv nt (block_size m) \<le> int (length (rtb_get rid m2))
    \<and> (\<exists>fl2. mgr_inv h m2 p2 fl2)"
proof -
  note d = mgr_invD [OF inv]
  have k: "k = max (cdiv nt (block_size m) - int (length new)) 0 + get_num_evictable_blocks p new"
    using ask(1) fresh cap skip by (simp add: base_num_blocks_to_allocate_def Let_def py_from_nonneg)
  let ?fl = "filter (\<lambda>b. b \<notin> set new) fl"
  obtain m1 p1 where 1: "base_allocate_new_computed_blocks rid new cpt 0 m p = Inr (m1, p1)" "mgr_inv h m1 p1 ?fl"
    "rtb_get rid m1 = new"
    using base_allocate_new_computed_spec [OF inv fresh en new, of cpt 0] skip by auto
  have bs1: "block_size m1 = block_size m"
    using 1(1) fresh en by (auto simp: base_allocate_new_computed_blocks_def Let_def skip split: if_splits elim!: bindE_eq_InrE)
  have "k \<le> int (length fl)" using ask(2) pool_invD(8) [OF d(1)] by (simp add: get_num_free_blocks_def)
  then have "max (cdiv nt (block_size m) - int (length new)) 0 \<le> int (length ?fl)"
    using k evictable_free [OF d(1) new] by simp
  then have "cdiv nt (block_size m1) - int (length (rtb_get rid m1)) \<le> int (length ?fl)" using 1(3) bs1 by simp
  from base_allocate_new_blocks_spec(1) [OF 1(2) this] 1 bs1 show ?thesis by auto
qed

section \<open>Prefix lookups find cached blocks\<close>

text \<open>Position \<open>i\<close> of every group's list holds a block cached under the hash \<open>h\<close>.\<close>

definition row_hit :: "block_pool \<Rightarrow> int list \<Rightarrow> bytes \<Rightarrow> hit_blocks \<Rightarrow> nat \<Rightarrow> bool" where
  "row_hit p gids h cs i \<longleftrightarrow>
     (\<forall>j < length gids. cs ! j ! i \<in> set (blocks p) \<and> bh p (cs ! j ! i) = Some (h @ be_bytes 4 (gids ! j)))"

definition cached_in_all :: "block_pool \<Rightarrow> int list \<Rightarrow> bytes \<Rightarrow> bool" where
  "cached_in_all p gids h \<longleftrightarrow> (\<forall>g \<in> set gids. \<exists>b \<in> set (blocks p). bh p b = Some (h @ be_bytes 4 g))"

definition gids_ok :: "int list \<Rightarrow> bool" where
  "gids_ok gids \<longleftrightarrow> gids \<noteq> [] \<and> (\<forall>g \<in> set gids. 0 \<le> g \<and> g < 2 ^ 32)"

lemma get_cached_cases:
  assumes "cache_ok p" "gids_ok gids"
  obtains (miss) "get_cached_block h gids p = Inr None" "\<not> cached_in_all p gids h"
    | (hit) bs where "get_cached_block h gids p = Inr (Some bs)" "cached_in_all p gids h" "length bs = length gids" "bs \<noteq> []"
        "\<And>j. j < length gids \<Longrightarrow> bs ! j \<in> set (blocks p) \<and> bh p (bs ! j) = Some (h @ be_bytes 4 (gids ! j))"
proof -
  have "\<forall>g \<in> set gids. 0 \<le> g \<and> g < 2 ^ 32" using assms(2) by (simp add: gids_ok_def)
  from get_cached_block_spec [OF assms(1) this, of h] obtain r where
    r: "get_cached_block h gids p = Inr r"
    "r = None \<longleftrightarrow> (\<exists>g \<in> set gids. \<forall>b \<in> set (blocks p). bh p b \<noteq> Some (h @ be_bytes 4 g))"
    "\<And>bs. r = Some bs \<Longrightarrow> list_all2 (\<lambda>g b. b \<in> set (blocks p) \<and> bh p b = Some (h @ be_bytes 4 g)) gids bs"
    by blast
  show ?thesis
  proof (cases r)
    case None
    then show ?thesis using r(1,2) miss by (auto simp: cached_in_all_def)
  next
    case (Some bs)
    have l: "list_all2 (\<lambda>g b. b \<in> set (blocks p) \<and> bh p b = Some (h @ be_bytes 4 g)) gids bs" using r(3) Some by simp
    have "cached_in_all p gids h" using r(2) Some by (auto simp: cached_in_all_def)
    moreover have "length bs = length gids" using l by (simp add: list_all2_lengthD)
    moreover have "bs \<noteq> []" using calculation(2) assms(2) by (auto simp: gids_ok_def)
    moreover have "bs ! j \<in> set (blocks p) \<and> bh p (bs ! j) = Some (h @ be_bytes 4 (gids ! j))" if "j < length gids" for j
      using list_all2_nthD [OF l that] by simp
    ultimately show ?thesis using hit r(1) Some by blast
  qed
qed

lemma append_hits_nth:
  assumes "length cs = length bs" "j < length cs"
  shows "append_hits cs bs ! j = cs ! j @ [bs ! j]" "length (append_hits cs bs) = length cs"
  using assms by (simp_all add: append_hits_def)

lemma set_hits_nth:
  assumes "length cs = length bs" "j < length cs"
  shows "set_hits i cs bs ! j = (cs ! j)[i := bs ! j]"
  using assms by (simp add: set_hits_def)

lemma length_set_hits [simp]: "length bs = length cs \<Longrightarrow> length (set_hits i cs bs) = length cs"
  by (simp add: set_hits_def)

lemma length_append_hits [simp]: "length bs = length cs \<Longrightarrow> length (append_hits cs bs) = length cs"
  by (simp add: append_hits_def)

text \<open>Full attention: the longest prefix of hashes that are cached in all groups.\<close>

lemma full_hit_loop_spec:
  assumes ok: "cache_ok p" "gids_ok gids"
    and cs: "length cs = length gids" "\<forall>j < length gids. length (cs ! j) = n"
  shows "\<exists>cs' k. full_hit_loop p gids hs cs = Inr cs' \<and> k \<le> length hs \<and> length cs' = length gids
    \<and> (\<forall>j < length gids. length (cs' ! j) = n + k \<and> take n (cs' ! j) = cs ! j)
    \<and> (\<forall>i < k. row_hit p gids (hs ! i) cs' (n + i))
    \<and> (k < length hs \<longrightarrow> \<not> cached_in_all p gids (hs ! k))"
  using cs
proof (induction hs arbitrary: cs n)
  case Nil
  then show ?case by auto
next
  case (Cons h hs)
  from ok show ?case
  proof (cases rule: get_cached_cases [where h = h])
    case miss
    then show ?thesis using Cons.prems by (intro exI [of _ cs] exI [of _ 0]) simp
  next
    case (hit bs)
    let ?cs = "append_hits cs bs"
    have len: "length ?cs = length gids" "\<forall>j < length gids. length (?cs ! j) = Suc n"
      using Cons.prems hit(3) by (simp_all add: append_hits_nth)
    from Cons.IH [OF len] obtain cs' k where IH: "full_hit_loop p gids hs ?cs = Inr cs'" "k \<le> length hs"
      "length cs' = length gids" "\<forall>j < length gids. length (cs' ! j) = Suc n + k \<and> take (Suc n) (cs' ! j) = ?cs ! j"
      "\<forall>i < k. row_hit p gids (hs ! i) cs' (Suc n + i)" "k < length hs \<longrightarrow> \<not> cached_in_all p gids (hs ! k)" by blast
    have at: "take n (cs' ! j) = cs ! j \<and> cs' ! j ! n = bs ! j" if j: "j < length gids" for j
    proof -
      have t: "take (Suc n) (cs' ! j) = cs ! j @ [bs ! j]" using IH(4) j Cons.prems(1) hit(3) by (simp add: append_hits_nth)
      have "take n (cs' ! j) = take n (take (Suc n) (cs' ! j))" by simp
      also have "\<dots> = cs ! j" unfolding t using Cons.prems j by simp
      finally have "take n (cs' ! j) = cs ! j" .
      moreover have "cs' ! j ! n = take (Suc n) (cs' ! j) ! n" by simp
      then have "cs' ! j ! n = bs ! j" unfolding t using Cons.prems j by (simp add: nth_append)
      ultimately show ?thesis by simp
    qed
    have "row_hit p gids h cs' n" using at hit(5) by (simp add: row_hit_def)
    then have "\<forall>i < Suc k. row_hit p gids ((h # hs) ! i) cs' (n + i)"
      using IH(5) by (auto simp: less_Suc_eq_0_disj)
    moreover have "full_hit_loop p gids (h # hs) cs = Inr cs'" using hit(1,4) IH(1) by simp
    ultimately show ?thesis using IH at by (intro exI [of _ cs'] exI [of _ "Suc k"]) auto
  qed
qed

text \<open>The sliding window: a run of hits long enough for the window, as far right as possible.\<close>

lemma sliding_hit_loop_spec:
  assumes ok: "cache_ok p" "gids_ok gids" and N: "N \<le> length (hs_list hs)"
    and "i + n \<le> N" "length cs = length gids" "\<forall>j < length gids. length (cs ! j) = N"
    and "\<forall>t. i \<le> t \<longrightarrow> t < i + n \<longrightarrow> row_hit p gids (hs_list hs ! t) cs t"
    and "0 < need" "int n < need"
  shows "\<exists>cs' n' found. sliding_hit_loop p hs gids False bs bs need i n cs = Inr (cs', n', found)
    \<and> length cs' = length gids
    \<and> (if found then \<exists>s. s + n' \<le> N \<and> int n' = need \<and> (\<forall>j < length gids. length (cs' ! j) = s + n')
              \<and> (\<forall>t. s \<le> t \<longrightarrow> t < s + n' \<longrightarrow> row_hit p gids (hs_list hs ! t) cs' t)
       else n' \<le> N \<and> (\<forall>j < length gids. length (cs' ! j) = N)
              \<and> (\<forall>t. t < n' \<longrightarrow> row_hit p gids (hs_list hs ! t) cs' t))"
  using assms(4-)
proof (induction i arbitrary: n cs)
  case 0
  then show ?case by auto
next
  case (Suc i)
  have at: "hs_at hs (int i) = Inr (hs_list hs ! i)" using hs_at_list [of "int i" hs] Suc.prems(1) N by simp
  from ok show ?case
  proof (cases rule: get_cached_cases [where h = "hs_list hs ! i"])
    case miss
    then show ?thesis using at Suc.IH [of 0 cs] Suc.prems by simp
  next
    case (hit b)
    let ?cs = "set_hits i cs b"
    have iN: "i < N" using Suc.prems(1) by simp
    have len: "length ?cs = length gids" "\<forall>j < length gids. length (?cs ! j) = N"
      using Suc.prems(2,3) hit(3) by (simp_all add: set_hits_nth)
    have rows: "row_hit p gids (hs_list hs ! t) ?cs t" if "i \<le> t" "t < i + Suc n" for t
    proof (cases "t = i")
      case True
      then show ?thesis using hit(3,5) Suc.prems(2,3) iN by (simp add: row_hit_def set_hits_nth)
    next
      case False
      then have "row_hit p gids (hs_list hs ! t) cs t" using Suc.prems(4) that by simp
      then show ?thesis using False hit(3) Suc.prems(2) by (simp add: row_hit_def set_hits_nth)
    qed
    show ?thesis
    proof (cases "need \<le> int (Suc n)")
      case True
      let ?c = "map (take (i + Suc n)) ?cs"
      have "sliding_hit_loop p hs gids False bs bs need (Suc i) n cs = Inr (?c, Suc n, True)"
        using at hit(1,4) True by simp
      moreover have "length (?c ! j) = i + Suc n" if "j < length gids" for j
        using len that Suc.prems(1) by simp
      moreover have "row_hit p gids (hs_list hs ! t) ?c t" if "i \<le> t" "t < i + Suc n" for t
        using rows [OF that] len(1) that by (simp add: row_hit_def)
      ultimately show ?thesis using True Suc.prems(1,6) len(1)
        by (intro exI [of _ ?c] exI [of _ "Suc n"] exI [of _ True]) (auto intro!: exI [of _ i])
    next
      case False
      have "sliding_hit_loop p hs gids False bs bs need (Suc i) n cs = sliding_hit_loop p hs gids False bs bs need i (Suc n) ?cs"
        using at hit(1,4) False by simp
      moreover have "i + Suc n \<le> N" using Suc.prems(1) by simp
      ultimately show ?thesis
        using Suc.IH [of "Suc n" ?cs] len rows Suc.prems(5) False by simp
    qed
  qed
qed

section \<open>State-space layers in align mode\<close>

lemma dict_set_twice [simp]: "dict_set k v (dict_set k w d) = dict_set k v d"
  by (induction d) (auto simp: dict_set_def)

lemma reuse_spec_blocks_length:
  assumes "0 \<le> a" "b \<le> int (length bs)" "a \<le> b"
  shows "\<exists>bs'. reuse_spec_blocks nb sk [a..b - 1] bs = Inr bs'
    \<and> int (length bs') = int (length bs) + max 0 (min sk b - a)"
  using assms
proof (induction "nat (b - a)" arbitrary: a bs)
  case 0
  then show ?case by simp
next
  case (Suc n)
  have ab: "a < b" using Suc.hyps(2) by linarith
  then have l: "[a..b - 1] = a # [a + 1..b - 1]" by (simp add: upto_rec1)
  show ?case
  proof (cases "a < sk")
    case True
    have i: "py_index bs a = Inr (bs ! nat a)" using Suc.prems ab by (simp add: py_index_def)
    let ?bs = "(bs @ [bs ! nat a])[nat a := nb]"
    have "n = nat (b - (a + 1))" "0 \<le> a + 1" "b \<le> int (length ?bs)" "a + 1 \<le> b" using Suc ab by auto
    from Suc.hyps(1) [OF this] obtain bs' where
      "reuse_spec_blocks nb sk [a + 1..b - 1] ?bs = Inr bs'"
      "int (length bs') = int (length ?bs) + max 0 (min sk b - (a + 1))" by blast
    then show ?thesis using l i True ab Suc.prems(1) by (intro exI [of _ bs']) auto
  next
    case False
    then show ?thesis using l ab by auto
  qed
qed

section \<open>Properties\<close>

lemma mgr_inv_fresh:
  assumes "pool_inv p fl" "\<forall>b \<in> set (blocks p). rc p b = 0" "0 < spec_block_size spec"
  shows "mgr_inv (\<lambda>_. 0) (base_manager c spec p caching gid 1 1 cap) p fl"
  using assms ids_ok_null [OF pool_invD(2) [OF assms(1)]] pool_invD(2) [OF assms(1)]
  by (auto simp: mgr_inv_def mgr_ok_def base_manager_def owned_def rtb_get_def dict_get_def dict_wf_def ids_ok_def)

definition demo_spec :: "spec_class \<Rightarrow> kv_spec" where
  "demo_spec c = (empty_spec c)\<lparr>spec_block_size := 4, num_kv_heads := 1, head_size := 64, dtype := (''bf16'', 2),
     sliding_window := Some 4\<rparr>"

definition demo_manager :: "manager_class \<Rightarrow> spec_class \<Rightarrow> int \<Rightarrow> int option \<Rightarrow> manager" where
  "demo_manager c sc n cap = base_manager c (demo_spec sc) (demo_pool n) True 0 1 1 cap"

lemma demo_manager_inv: "0 < n \<Longrightarrow> mgr_inv (\<lambda>_. 0) (demo_manager c sc n cap) (demo_pool n) (map Blk [1..<nat n])"
  unfolding demo_manager_def
  by (rule mgr_inv_fresh [OF demo_pool_init(2)]) (use demo_pool_init(6) in \<open>auto simp: demo_spec_def\<close>)

lemma demo_manager_simps [simp]:
  "block_size (demo_manager c sc n cap) = 4" "rtb_get rid (demo_manager c sc n cap) = []"
  "mgr_class (demo_manager c sc n cap) = c" "mgr_spec (demo_manager c sc n cap) = demo_spec sc"
  "max_admission_blocks (demo_manager c sc n cap) = cap" "num_cached_block (demo_manager c sc n cap) = []"
  by (simp_all add: demo_manager_def base_manager_def demo_spec_def rtb_get_def dict_get_def)

text \<open>
  Freeing a request returns every block it held, in reverse order, so that the tail of its
  sequence is evicted first; blocks that other requests or managers share stay out of the free
  list, all reference counts still add up, and the blocks of other requests and the hashes are
  as before. It never raises.
\<close>

theorem free_request_exact:
  assumes "mgr_inv h m p fl"
  shows "\<exists>m' p'. mgr_free rid m p = Inr (m', p') \<and> mgr_inv h m' p' (fl @ released p (rev (rtb_get rid m)))
    \<and> dict_get (req_to_blocks m') rid = None \<and> \<not> is_running rid m' \<and> (\<forall>r. r \<noteq> rid \<longrightarrow> rtb_get r m' = rtb_get r m)
    \<and> (\<forall>b. bh p' b = bh p b)"
proof -
  let ?m = "if mgr_class m = MambaManager \<and> mamba_cache_mode (mgr_spec m) = ''align''
        then m\<lparr>allocated_block_reqs := allocated_block_reqs m - {rid},
               last_state_block_idx := dict_pop rid (last_state_block_idx m)\<rparr> else m"
  have inv: "mgr_inv h ?m p fl" by (rule mgr_inv_other [OF assms]) simp_all
  have same: "rtb_get r ?m = rtb_get r m" for r by (simp add: rtb_get_def)
  from base_free_spec [OF inv, of rid] show ?thesis
    unfolding mgr_free_def same by (auto simp: is_running_def simp del: dict_get_eq_None)
qed

theorem free_request_exact_witness:
  "\<exists>m1 p1 m2 p2. base_allocate_new_blocks ''a'' 7 (demo_manager FullAttentionManager FullAttentionSpec 4 None) (demo_pool 4)
       = Inr ([Blk 1, Blk 2], m1, p1)
    \<and> mgr_free ''a'' m1 p1 = Inr (m2, p2) \<and> dict_get (req_to_blocks m2) ''a'' = None"
proof -
  have k: "cdiv 7 4 = 2" by (simp add: cdiv_def)
  have l: "map Blk [1..<nat 4] = [Blk 1, Blk 2, Blk 3]" by (simp add: upt_conv_Cons)
  obtain m1 p1 where 1: "base_allocate_new_blocks ''a'' 7 (demo_manager FullAttentionManager FullAttentionSpec 4 None) (demo_pool 4)
       = Inr ([Blk 1, Blk 2], m1, p1)" "mgr_inv (\<lambda>_. 0) m1 p1 [Blk 3]"
    using base_allocate_new_blocks_spec(1) [OF demo_manager_inv [of 4 FullAttentionManager FullAttentionSpec None], of 7 "''a''"]
    unfolding l by (simp add: k) blast
  from free_request_exact [OF 1(2), of "''a''"] obtain m2 p2 where
    2: "mgr_free ''a'' m1 p1 = Inr (m2, p2)" "dict_get (req_to_blocks m2) ''a'' = None" by (elim exE conjE)
  show ?thesis by (intro exI conjI) (rule 1(1), rule 2(1), rule 2(2))
qed

text \<open>
  C32. Giving up blocks is safe: \<open>remove_skipped_blocks\<close> never raises, keeps the positions of
  the list, and leaves in place every block that holds a token which computing any later token
  of the request attends to, for full, sliding-window, chunked and state-space layers.
\<close>

theorem skipped_blocks_unattended:
  assumes "mgr_inv h m p fl" "window_ok m"
  shows "\<exists>m' p' gone. base_remove_skipped_blocks rid n m p = Inr (m', p') \<and> mgr_inv h m' p' (fl @ released p gone)
    \<and> length (rtb_get rid m') = length (rtb_get rid m)
    \<and> (\<forall>n' t. n \<le> n' \<and> 0 \<le> n' \<and> 0 \<le> t \<and> attends_to m n' t \<and> nat (t div block_size m) < length (rtb_get rid m) \<longrightarrow>
         rtb_get rid m' ! nat (t div block_size m) = rtb_get rid m ! nat (t div block_size m))"
proof -
  have bs: "0 < block_size m" by (rule mgr_invD(3) [OF assms(1)])
  from base_remove_skipped_spec [OF assms(1), of rid n] obtain m' p' gone where
    r: "base_remove_skipped_blocks rid n m p = Inr (m', p')" "mgr_inv h m' p' (fl @ released p gone)"
    "length (rtb_get rid m') = length (rtb_get rid m)"
    "\<forall>i. get_num_skipped_tokens m n div block_size m \<le> int i \<longrightarrow> i < length (rtb_get rid m) \<longrightarrow>
       rtb_get rid m' ! i = rtb_get rid m ! i" by blast
  have "rtb_get rid m' ! nat (t div block_size m) = rtb_get rid m ! nat (t div block_size m)"
    if "n \<le> n'" "0 \<le> n'" "0 \<le> t" "attends_to m n' t" "nat (t div block_size m) < length (rtb_get rid m)" for n' t
  proof -
    have "0 \<le> t div block_size m" using that(3) bs by (simp add: pos_imp_zdiv_nonneg_iff)
    then show ?thesis using r(4) attends_freed_never_needed [OF assms(2) bs that(1,2,4)] that(5) by simp
  qed
  then show ?thesis using r(1-3) by blast
qed

lemma demo_window: "window_of (demo_spec sc) = 4"
  by (simp add: window_of_def demo_spec_def)

theorem skipped_blocks_unattended_witness:
  "\<exists>m1 p1 m2 p2. base_allocate_new_blocks ''a'' 12 (demo_manager SlidingWindowManager SlidingWindowSpec 4 None) (demo_pool 4)
       = Inr ([Blk 1, Blk 2, Blk 3], m1, p1)
    \<and> base_remove_skipped_blocks ''a'' 8 m1 p1 = Inr (m2, p2) \<and> length (rtb_get ''a'' m2) = 3"
proof -
  let ?m = "demo_manager SlidingWindowManager SlidingWindowSpec 4 None"
  have k: "cdiv 12 4 = 3" by (simp add: cdiv_def)
  have l: "map Blk [1..<nat 4] = [Blk 1, Blk 2, Blk 3]" by (simp add: upt_conv_Cons)
  obtain m1 p1 where 1: "base_allocate_new_blocks ''a'' 12 ?m (demo_pool 4) = Inr ([Blk 1, Blk 2, Blk 3], m1, p1)"
    "mgr_inv (\<lambda>_. 0) m1 p1 []" "rtb_get ''a'' m1 = [Blk 1, Blk 2, Blk 3]"
    using base_allocate_new_blocks_spec(1) [OF demo_manager_inv [of 4 SlidingWindowManager SlidingWindowSpec None], of 12 "''a''"]
    unfolding l by (simp add: k) blast
  have "mgr_class m1 = mgr_class ?m" "mgr_spec m1 = mgr_spec ?m"
    using 1(1) by (auto simp: base_allocate_new_blocks_def Let_def bindE_eq_Inr split: if_splits)
  then have "window_ok m1" by (simp add: window_ok_def demo_window)
  from skipped_blocks_unattended [OF 1(2) this, of "''a''" 8] 1 show ?thesis by (auto simp: numeral_3_eq_3)
qed

text \<open>
  C33. For full attention with blocks of the alignment size, the hit is the longest cached
  prefix: the lookup returns one list of the same length for every group, every position holds
  blocks cached under the hash of that position, the length respects the limit, and the next
  hash within the limit is missing in some group.
\<close>

theorem full_hit_longest:
  assumes "cache_ok p" "gids_ok gids" "is_full_attention spec" "0 < spec_block_size spec" "0 \<le> ml"
  shows "\<exists>cs L. full_find_longest_cache_hit hs ml gids p spec False (spec_block_size spec) 1 1 = Inr cs
    \<and> length cs = length gids \<and> (\<forall>c \<in> set cs. length c = L) \<and> int L * spec_block_size spec \<le> ml
    \<and> (\<forall>i < L. row_hit p gids (hs_list hs ! i) cs i)
    \<and> (int (Suc L) * spec_block_size spec \<le> ml \<and> L < length (hs_list hs) \<longrightarrow> \<not> cached_in_all p gids (hs_list hs ! L))"
proof -
  let ?bs = "spec_block_size spec"
  define T where "T = take (nat (ml div ?bs)) (hs_list hs)"
  have N: "0 \<le> ml div ?bs" using assms(4,5) by (simp add: pos_imp_zdiv_nonneg_iff)
  from full_hit_loop_spec [OF assms(1,2), of "replicate (length gids) []" 0 T] obtain cs k where
    r: "full_hit_loop p gids T (replicate (length gids) []) = Inr cs" "k \<le> length T" "length cs = length gids"
    "\<forall>j < length gids. length (cs ! j) = k" "\<forall>i < k. row_hit p gids (T ! i) cs i"
    "k < length T \<longrightarrow> \<not> cached_in_all p gids (T ! k)" by auto
  have "full_find_longest_cache_hit hs ml gids p spec False ?bs 1 1 = Inr cs"
    using r(1) assms(3) N by (simp add: full_find_longest_cache_hit_def Let_def align_pop.simps T_def)
  moreover have "int k \<le> ml div ?bs" using r(2) N unfolding T_def length_take by linarith
  then have "int k * ?bs \<le> ml" using int_le_div_iff [OF assms(4)] by simp
  moreover have "\<not> cached_in_all p gids (hs_list hs ! k)" if "int (Suc k) * ?bs \<le> ml" "k < length (hs_list hs)"
  proof -
    have "int (Suc k) \<le> ml div ?bs" using that(1) int_le_div_iff [OF assms(4)] by simp
    then show ?thesis using r(6) that(2) by (simp add: T_def)
  qed
  moreover have "\<forall>i < k. row_hit p gids (hs_list hs ! i) cs i" using r(2,5) by (simp add: T_def)
  ultimately show ?thesis using r(3,4) by (intro exI [of _ cs] exI [of _ k]) (auto simp: in_set_conv_nth)
qed

theorem full_hit_longest_witness:
  "\<exists>cs L. full_find_longest_cache_hit (HS_list [[9], [8]]) 11 [0] (demo_pool 4) (demo_spec FullAttentionSpec) False 4 1 1 = Inr cs
    \<and> (\<forall>c \<in> set cs. length c = L) \<and> int L * 4 \<le> 11"
proof -
  have "spec_block_size (demo_spec FullAttentionSpec) = 4" "is_full_attention (demo_spec FullAttentionSpec)"
    by (simp_all add: demo_spec_def empty_spec_def is_full_attention_def)
  then show ?thesis
    using full_hit_longest [OF pool_invD(3) [OF demo_pool_init(2)], of 4 "[0]" "demo_spec FullAttentionSpec" 11 "HS_list [[9], [8]]"]
    by (auto simp: gids_ok_def)
qed

text \<open>
  C34. For sliding-window attention the hit covers the window: the lookup returns lists of one
  length within the limit such that every token the next token attends to lies in a block that
  is cached under the hash of its position; the blocks before may be null.
\<close>

theorem sliding_hit_covers_window:
  assumes ok: "cache_ok p" "gids_ok gids" and sp: "is_sliding_window spec" "1 < window_of spec" "0 < spec_block_size spec"
    and ml: "0 \<le> ml" "ml div spec_block_size spec \<le> int (length (hs_list hs))"
  shows "\<exists>cs L. sliding_find_longest_cache_hit hs ml gids p spec False (spec_block_size spec) 1 1 = Inr cs
    \<and> length cs = length gids \<and> int L * spec_block_size spec \<le> ml
    \<and> (\<forall>j < length gids. length (cs ! j) = L)
    \<and> (\<forall>t. 0 \<le> t \<longrightarrow> int L * spec_block_size spec - window_of spec < t \<longrightarrow> t < int L * spec_block_size spec \<longrightarrow>
          row_hit p gids (hs_list hs ! nat (t div spec_block_size spec)) cs (nat (t div spec_block_size spec)))"
proof -
  let ?bs = "spec_block_size spec" let ?w = "window_of spec"
  define need where "need = cdiv (?w - 1) ?bs"
  define N where "N = nat (ml div ?bs)"
  have need: "0 < need" unfolding need_def using less_cdiv_iff [OF sp(3), of 0 "?w - 1"] sp(2) by simp
  have N: "N \<le> length (hs_list hs)" "int N * ?bs \<le> ml"
    using ml sp(3) int_le_div_iff [OF sp(3), of "ml div ?bs" ml] by (simp_all add: N_def pos_imp_zdiv_nonneg_iff)
  let ?cs = "replicate (length gids) (replicate N (null_block p))"
  obtain cs' n' found where r: "sliding_hit_loop p hs gids False ?bs ?bs need N 0 ?cs = Inr (cs', n', found)"
    "length cs' = length gids"
    "if found then \<exists>s. s + n' \<le> N \<and> int n' = need \<and> (\<forall>j < length gids. length (cs' ! j) = s + n')
              \<and> (\<forall>t. s \<le> t \<longrightarrow> t < s + n' \<longrightarrow> row_hit p gids (hs_list hs ! t) cs' t)
       else n' \<le> N \<and> (\<forall>j < length gids. length (cs' ! j) = N)
              \<and> (\<forall>t. t < n' \<longrightarrow> row_hit p gids (hs_list hs ! t) cs' t)"
    using sliding_hit_loop_spec [OF ok N(1), of N 0 ?cs need ?bs] need by auto
  define cs where "cs = (if found then cs' else map (take n') cs')"
  have res: "sliding_find_longest_cache_hit hs ml gids p spec False ?bs 1 1 = Inr cs"
    using r(1) sp(1) by (simp add: sliding_find_longest_cache_hit_def Let_def need_def [symmetric] N_def [symmetric] cs_def align_pop.simps)
  obtain L s where L: "L \<le> N" "\<forall>j < length gids. length (cs ! j) = L" "int s = max 0 (int L - need)"
    "\<forall>t. s \<le> t \<longrightarrow> t < L \<longrightarrow> row_hit p gids (hs_list hs ! t) cs t"
  proof (cases found)
    case True
    then obtain s where "s + n' \<le> N" "int n' = need" "\<forall>j < length gids. length (cs' ! j) = s + n'"
      "\<forall>t. s \<le> t \<longrightarrow> t < s + n' \<longrightarrow> row_hit p gids (hs_list hs ! t) cs' t" using r(3) by auto
    then show ?thesis using that [of "s + n'" s] True by (simp add: cs_def)
  next
    case False
    then have f: "n' \<le> N" "\<forall>j < length gids. length (cs' ! j) = N" "\<forall>t. t < n' \<longrightarrow> row_hit p gids (hs_list hs ! t) cs' t"
      using r(3) by auto
    have "\<forall>t. t < n' \<longrightarrow> row_hit p gids (hs_list hs ! t) cs t"
      using f(3) r(2) False by (simp add: row_hit_def cs_def)
    then show ?thesis using that [of n' "nat (max 0 (int n' - need))"] f(1,2) r(2) False by (simp add: cs_def)
  qed
  have "row_hit p gids (hs_list hs ! nat (t div ?bs)) cs (nat (t div ?bs))"
    if t: "0 \<le> t" "int L * ?bs - ?w < t" "t < int L * ?bs" for t
  proof -
    have "t div ?bs < int L" using t(3) int_le_div_iff [OF sp(3), of "int L" t] by linarith
    moreover have "int L - need \<le> t div ?bs"
    proof -
      have "?w - 1 \<le> need * ?bs" unfolding need_def by (rule cdiv_upper [OF sp(3)])
      then have "(int L - need) * ?bs \<le> t" using t(2) by (simp add: algebra_simps)
      then show ?thesis using int_le_div_iff [OF sp(3), of "int L - need" t] by simp
    qed
    moreover have "0 \<le> t div ?bs" using t(1) sp(3) by (simp add: pos_imp_zdiv_nonneg_iff)
    ultimately have "s \<le> nat (t div ?bs)" "nat (t div ?bs) < L" using L(3) by linarith+
    then show ?thesis using L(4) by simp
  qed
  moreover have "int L * ?bs \<le> ml" using L(1) N(2) sp(3) by (meson of_nat_mono mult_right_mono less_imp_le order_trans)
  moreover have "length cs = length gids" using r(2) by (simp add: cs_def)
  ultimately show ?thesis using res L(2) by blast
qed

theorem sliding_hit_covers_window_witness:
  "\<exists>cs L. sliding_find_longest_cache_hit (HS_list [[9], [8]]) 8 [0] (demo_pool 4) (demo_spec SlidingWindowSpec) False 4 1 1 = Inr cs
    \<and> (\<forall>j < 1. length (cs ! j) = L) \<and> int L * 4 \<le> 8"
proof -
  have "spec_block_size (demo_spec SlidingWindowSpec) = 4" "is_sliding_window (demo_spec SlidingWindowSpec)"
    by (simp_all add: demo_spec_def empty_spec_def is_sliding_window_def)
  then show ?thesis
    using sliding_hit_covers_window [OF pool_invD(3) [OF demo_pool_init(2)], of 4 "[0]" "demo_spec SlidingWindowSpec" 8 "HS_list [[9], [8]]"]
    by (auto simp: gids_ok_def demo_window)
qed

text \<open>
  A running request of a state-space layer in align mode takes exactly one new block per
  call, however many tokens it advances: the blocks kept for speculative tokens move to their
  new positions, passed positions become null, and the list covers the tokens plus the
  speculative blocks.
\<close>

theorem mamba_align_one_block:
  fixes rid :: string
  assumes inv: "mgr_inv h m p fl" and alloc: "rid \<in> allocated_block_reqs m"
  defines "n \<equiv> num_speculative_blocks (mgr_spec m)" and "L \<equiv> int (length (rtb_get rid m))"
  assumes n: "0 \<le> n" "n \<le> L" and more: "L < cdiv nt (block_size m) + n" and room: "fl \<noteq> []"
  shows "\<exists>bs m' p'. mamba_align_allocate rid nt m p = Inr (bs, m', p') \<and> mgr_inv h m' p' (tl fl)
    \<and> same_config p p' \<and> int (length (rtb_get rid m')) = cdiv nt (block_size m) + n"
proof -
  note d = mgr_invD [OF inv]
  let ?m1 = "rtb_read rid m"
  define R where "R = cdiv nt (block_size m) + n"
  define S where "S = R - n - 1"
  define blks where "blks = (if L < S then rtb_get rid m @ replicate (nat (S - L)) (Blk 0) else rtb_get rid m)"
  define m2 where "m2 = ?m1\<lparr>last_state_block_idx := dict_set rid (L - 1 - n) (last_state_block_idx ?m1)\<rparr>"
  have bl: "int (length blks) = max L S" by (auto simp: blks_def L_def)
  obtain blks1 where b1: "reuse_spec_blocks (Blk 0) S [L - n..L - 1] blks = Inr blks1"
    "int (length blks1) = int (length blks) + max 0 (min S L - (L - n))"
    using reuse_spec_blocks_length [of "L - n" L blks "Blk 0" S] n bl by auto
  have len1: "int (length blks1) = R - 1" using b1(2) bl n more by (simp add: S_def R_def)
  have cnt: "count_list blks1 b = count_list (rtb_get rid m) b" "set blks1 \<subseteq> insert (Blk 0) (set blks)" if "b \<noteq> Blk 0" for b
    using reuse_spec_blocks_count [OF b1(1) _ that] n that by (auto simp: blks_def count_list_replicate)
  have "set blks1 \<subseteq> insert (Blk 0) (set blks)" using cnt(2) [of "Blk 1"] by simp
  then have sub: "set blks1 \<subseteq> set (blocks p)"
    using mgr_ok_blocks(1) [OF d(2), of rid] ids_ok_null [OF pool_invD(2) [OF d(1)]] by (auto simp: blks_def split: if_splits)
  have inv2: "mgr_inv h m2 p fl" by (rule mgr_inv_other [OF mgr_inv_read [OF inv, of rid]]) (simp_all add: m2_def)
  have inv3: "mgr_inv h (rtb_set rid blks1 m2) p fl"
    by (rule mgr_relist [OF inv2 _ sub]) (simp add: cnt(1) m2_def)
  obtain p' where p': "get_new_blocks 1 p = Inr (take 1 fl, p')" "same_config p p'"
    "mgr_inv h (rtb_set rid (blks1 @ take 1 fl) (rtb_set rid blks1 m2)) p' (drop 1 fl)"
    using mgr_get_new [OF inv3, of 1 rid] room by (cases fl) auto
  let ?m' = "(rtb_set rid (blks1 @ take 1 fl) m2)\<lparr>allocated_block_reqs := insert rid (allocated_block_reqs m2)\<rparr>"
  have same: "req_to_blocks (rtb_set rid (blks1 @ take 1 fl) (rtb_set rid blks1 m2)) = req_to_blocks (rtb_set rid (blks1 @ take 1 fl) m2)"
    by (simp add: rtb_set_def)
  have "mgr_inv h ?m' p' (drop 1 fl)" by (rule mgr_inv_other [OF p'(3)]) (simp_all add: rtb_set_def)
  moreover have "mamba_align_allocate rid nt m p = Inr (py_from (blks1 @ take 1 fl) L, ?m', p')"
  proof -
    have "R \<noteq> L" "L < R" "R - int (length blks1) = 1" using more len1 by (simp_all add: R_def)
    then show ?thesis
      using alloc b1(1) [unfolded blks_def] p'(1) d(4)
      by (cases "L < S") (simp_all add: mamba_align_allocate_def Let_def n_def [symmetric] L_def [symmetric]
          R_def [symmetric] S_def [symmetric] m2_def [symmetric])
  qed
  moreover have "int (length (blks1 @ take 1 fl)) = R" using len1 room by (cases fl) auto
  ultimately show ?thesis using p'(2) by (auto simp: R_def drop_Suc)
qed

lemma demo_mamba_allocated:
  "mgr_inv (\<lambda>_. 0) ((demo_manager MambaManager MambaSpec 4 None)\<lparr>allocated_block_reqs := {''a''}\<rparr>) (demo_pool 4) (map Blk [1..<nat 4])"
  by (rule mgr_inv_other [OF demo_manager_inv [of 4]]) simp_all

theorem mamba_align_one_block_witness:
  "\<exists>bs m' p'. mamba_align_allocate ''a'' 9 ((demo_manager MambaManager MambaSpec 4 None)\<lparr>allocated_block_reqs := {''a''}\<rparr>) (demo_pool 4)
       = Inr (bs, m', p') \<and> length (rtb_get ''a'' m') = 3"
proof -
  let ?m = "(demo_manager MambaManager MambaSpec 4 None)\<lparr>allocated_block_reqs := {''a''}\<rparr>"
  have "num_speculative_blocks (mgr_spec ?m) = 0" "cdiv 9 (block_size ?m) = 3" "rtb_get ''a'' ?m = []"
    by (simp_all add: demo_spec_def empty_spec_def cdiv_def)
  then show ?thesis using mamba_align_one_block [OF demo_mamba_allocated, of "''a''" 9] by (simp add: upt_conv_Cons) blast
qed




end
