(* ===== verification/Prefix_Lookup.thy ===== *)
theory Prefix_Lookup
  imports Single_Type
begin

text \<open>
  What the coordinator relies on when it asks the manager classes for the longest cached prefix
  (\<open>find_longest_cache_hit\<close> in \<open>vllm/v1/core/single_type_kv_cache_manager.py\<close>).

  The locale \<open>prefix_lookup\<close> is the contract of the class method: one list per group, all of one
  length, within the limit, a multiple of the alignment. \<open>eagle_lookup\<close> extends it by what the
  drop of the last block for EAGLE promises: one block less than the limit allows. Full
  attention, sliding windows and chunked attention satisfy both, state-space layers only the
  first, because their lookup ignores the flag.
\<close>

section \<open>The contract\<close>

definition uniform_hits :: "nat \<Rightarrow> nat \<Rightarrow> hit_blocks \<Rightarrow> bool" where
  "uniform_hits k n cs \<longleftrightarrow> length cs = k \<and> (\<forall>c \<in> set cs. length c = n)"

type_synonym lookup =
  "hash_seq \<Rightarrow> int \<Rightarrow> int list \<Rightarrow> block_pool \<Rightarrow> kv_spec \<Rightarrow> bool \<Rightarrow> int \<Rightarrow> int \<Rightarrow> int \<Rightarrow> hit_blocks result"

text \<open>The sizes a specification divides by are positive.\<close>

definition lookup_spec_ok :: "kv_spec \<Rightarrow> bool" where
  "lookup_spec_ok spec \<longleftrightarrow> 0 < spec_block_size spec \<and> (has_class ChunkedLocalAttentionSpec spec \<longrightarrow> 0 < chunk_of spec)"

locale prefix_lookup =
  fixes find :: lookup
  assumes find_shape: "\<lbrakk>find hs ml gids p spec eagle al 1 1 = Inr cs; gids \<noteq> []; lookup_spec_ok spec\<rbrakk> \<Longrightarrow>
    \<exists>n. uniform_hits (length gids) n cs \<and> int n * spec_block_size spec \<le> max 0 ml \<and> al dvd int n * spec_block_size spec"
begin

lemma find_hd:
  assumes "find hs ml gids p spec eagle al 1 1 = Inr cs" "gids \<noteq> []" "lookup_spec_ok spec"
  obtains n where "uniform_hits (length gids) n cs" "length (hd cs) = n" "cs \<noteq> []"
    "int n * spec_block_size spec \<le> max 0 ml" "al dvd int n * spec_block_size spec"
  using find_shape [OF assms] assms(2) by (auto simp: uniform_hits_def) (metis hd_in_set length_0_conv)

end

locale eagle_lookup = prefix_lookup +
  assumes find_drop: "\<lbrakk>find hs ml gids p spec True al 1 1 = Inr cs; gids \<noteq> []; lookup_spec_ok spec\<rbrakk> \<Longrightarrow>
    \<exists>n. uniform_hits (length gids) n cs \<and> int n * spec_block_size spec \<le> max 0 (ml - spec_block_size spec)"

section \<open>Lists of one length\<close>

lemma uniform_replicate [simp]: "uniform_hits k n (replicate k c) \<longleftrightarrow> k = 0 \<or> length c = n"
  by (auto simp: uniform_hits_def)

lemma uniform_pop: "uniform_hits k n cs \<Longrightarrow> uniform_hits k (n - 1) (pop_all cs)"
  by (auto simp: uniform_hits_def pop_all_def)

lemma uniform_take: "uniform_hits k n cs \<Longrightarrow> uniform_hits k (min m n) (map (take m) cs)"
  by (auto simp: uniform_hits_def)

lemma uniform_append: "uniform_hits k n cs \<Longrightarrow> length bs = k \<Longrightarrow> uniform_hits k (Suc n) (append_hits cs bs)"
  by (auto simp: uniform_hits_def append_hits_def dest: set_zip_leftD)

lemma uniform_set: "uniform_hits k n cs \<Longrightarrow> length bs = k \<Longrightarrow> uniform_hits k n (set_hits i cs bs)"
  by (auto simp: uniform_hits_def set_hits_def dest: set_zip_leftD)

lemma cached_length:
  assumes "get_cached_block h gids p = Inr (Some bs)" shows "length bs = length gids"
proof -
  have "get_cached_block_loop c h gids acc = Inr (Some bs) \<Longrightarrow> length bs = length acc + length gids" for c acc
    by (induction gids arbitrary: acc) (auto simp: bindE_eq_Inr split: option.splits)
  then show ?thesis using assms by (fastforce simp: get_cached_block_def)
qed

lemma align_pop_shape:
  assumes "align_pop bs al cs = Inr cs'" "uniform_hits k n cs" "0 < k"
  shows "\<exists>n' \<le> n. uniform_hits k n' cs' \<and> al dvd int n' * bs"
  using assms
proof (induction bs al cs arbitrary: n rule: align_pop.induct)
  case (1 bs al cs)
  show ?case
  proof (cases "bs = al")
    case True
    then show ?thesis using 1(2,3) by (auto simp: align_pop.simps [of al al])
  next
    case False
    obtain c rest where cs: "cs = c # rest" using 1(3,4) by (cases cs) (auto simp: uniform_hits_def)
    then have n: "length c = n" using 1(3) by (simp add: uniform_hits_def)
    show ?thesis
    proof (cases "(int n * bs) mod al = 0")
      case True
      then show ?thesis using 1(2,3) False cs n by (auto simp: align_pop.simps [of bs al "c # rest"] mod_eq_0_iff_dvd)
    next
      case f: False
      have "align_pop bs al (pop_all cs) = Inr cs'" using 1(2) False cs n f by (simp add: align_pop.simps [of bs al "c # rest"])
      from 1(1) [OF False cs _ this uniform_pop [OF 1(3)] 1(4)] f n obtain n' where
        "n' \<le> n - 1" "uniform_hits k n' cs'" "al dvd int n' * bs" by auto
      then show ?thesis by (intro exI [of _ n']) auto
    qed
  qed
qed

section \<open>Full attention\<close>

lemma full_loop_shape:
  "full_hit_loop p gids hs cs = Inr cs' \<Longrightarrow> uniform_hits (length gids) n cs \<Longrightarrow>
   \<exists>j \<le> length hs. uniform_hits (length gids) (n + j) cs'"
proof (induction hs arbitrary: cs n)
  case (Cons h hs)
  then obtain r where r: "get_cached_block h gids p = Inr r" by (auto simp: bindE_eq_Inr)
  show ?case
  proof (cases "r = None \<or> r = Some []")
    case True
    then show ?thesis using Cons.prems r by (intro exI [of _ 0]) auto
  next
    case False
    then obtain b where b: "r = Some b" "b \<noteq> []" by auto
    have "full_hit_loop p gids hs (append_hits cs b) = Inr cs'" using Cons.prems(1) r b by simp
    from Cons.IH [OF this uniform_append [OF Cons.prems(2) cached_length]] r b(1)
    obtain j where "j \<le> length hs" "uniform_hits (length gids) (Suc n + j) cs'" by blast
    then show ?thesis by (intro exI [of _ "Suc j"]) simp
  qed
qed auto

text \<open>The drop of the last block, as full attention and sliding windows write it.\<close>

lemma drop_bound:
  assumes "int n * bs \<le> max 0 ml" "0 < bs" shows "int (n - 1) * bs \<le> max 0 (ml - bs)"
  using assms by (cases n) (auto simp: algebra_simps max_def split: if_splits)

lemma div_bound: "0 < bs \<Longrightarrow> int n \<le> max 0 (ml div bs) \<Longrightarrow> int n * bs \<le> max 0 ml"
  using int_le_div_iff [of bs "int n" ml] by (cases "0 \<le> ml div bs") (auto simp: max_def)

lemma shorter_bound: "n' \<le> n \<Longrightarrow> int n * bs \<le> m \<Longrightarrow> 0 < (bs :: int) \<Longrightarrow> int n' * bs \<le> m"
  by (meson less_imp_le mult_right_mono of_nat_mono order_trans)

lemma full_find_shape:
  assumes "full_find_longest_cache_hit hs ml gids p spec eagle al 1 1 = Inr cs" "gids \<noteq> []" "0 < spec_block_size spec"
  shows "\<exists>n. uniform_hits (length gids) n cs \<and> al dvd int n * spec_block_size spec
    \<and> int n * spec_block_size spec \<le> max 0 (if eagle then ml - spec_block_size spec else ml)"
proof -
  let ?bs = "spec_block_size spec"
  from assms(1) obtain cs0 cs1 where
    ge: "0 \<le> ml div ?bs" and 0: "full_hit_loop p gids (take (nat (ml div ?bs)) (hs_list hs)) (replicate (length gids) []) = Inr cs0"
    and c1: "(if eagle then (case cs0 of [] \<Rightarrow> Inl IndexError | c # _ \<Rightarrow> Inr (if c \<noteq> [] then pop_all cs0 else cs0)) else Inr cs0) = Inr cs1"
    and 2: "align_pop ?bs al cs1 = Inr cs"
    unfolding full_find_longest_cache_hit_def Let_def by (elim bindE_eq_InrE) (simp only: guardE_eq_Inr mult_1 less_irrefl if_False)
  have 1: "cs1 = (if eagle \<and> hd cs0 \<noteq> [] then pop_all cs0 else cs0)" using c1 by (cases cs0; cases eagle) auto
  from full_loop_shape [OF 0, of 0] obtain j where j: "j \<le> nat (ml div ?bs)" "uniform_hits (length gids) j cs0" by auto
  have jb: "int j * ?bs \<le> max 0 ml" using div_bound [OF assms(3), of j ml] j(1) ge by simp
  have "cs0 \<noteq> []" using j(2) assms(2) by (auto simp: uniform_hits_def)
  then have "hd cs0 = [] \<longleftrightarrow> j = 0" using j(2) by (metis hd_in_set length_0_conv uniform_hits_def)
  then have 3: "uniform_hits (length gids) (if eagle then j - 1 else j) cs1" using j(2) uniform_pop [OF j(2)] 1 by auto
  from align_pop_shape [OF 2 3] assms(2) obtain n' where
    n': "n' \<le> (if eagle then j - 1 else j)" "uniform_hits (length gids) n' cs" "al dvd int n' * ?bs" by auto
  have "int (if eagle then j - 1 else j) * ?bs \<le> max 0 (if eagle then ml - ?bs else ml)"
    using jb drop_bound [OF jb assms(3)] by simp
  from shorter_bound [OF n'(1) this assms(3)] n'(2,3) show ?thesis by blast
qed

interpretation full_lk: eagle_lookup full_find_longest_cache_hit
proof unfold_locales
  fix hs ml gids p spec eagle al cs
  assume a: "full_find_longest_cache_hit hs ml gids p spec eagle al 1 1 = Inr cs" "gids \<noteq> []" "lookup_spec_ok spec"
  then have bs: "0 < spec_block_size spec" by (simp add: lookup_spec_ok_def)
  from full_find_shape [OF a(1,2) bs] bs show "\<exists>n. uniform_hits (length gids) n cs \<and> int n * spec_block_size spec \<le> max 0 ml
      \<and> al dvd int n * spec_block_size spec" by (cases eagle) fastforce+
next
  fix hs ml gids p spec al cs
  assume "full_find_longest_cache_hit hs ml gids p spec True al 1 1 = Inr cs" "gids \<noteq> []" "lookup_spec_ok spec"
  from full_find_shape [OF this(1,2)] this(3) show "\<exists>n. uniform_hits (length gids) n cs
      \<and> int n * spec_block_size spec \<le> max 0 (ml - spec_block_size spec)" by (auto simp: lookup_spec_ok_def)
qed

section \<open>Sliding windows\<close>

lemma sliding_loop_shape:
  assumes "sliding_hit_loop p hs gids eagle bs al need i n cs = Inr (cs', n', found)"
    "uniform_hits (length gids) N cs" "i + n \<le> N" "0 < n \<longrightarrow> \<not> eagle \<longrightarrow> al dvd int (i + n) * bs"
  shows "\<exists>L \<le> N. uniform_hits (length gids) L cs' \<and> n' \<le> N
    \<and> (found \<longrightarrow> \<not> eagle \<longrightarrow> al dvd int L * bs) \<and> (\<not> found \<longrightarrow> L = N)"
  using assms
proof (induction i arbitrary: n cs)
  case 0
  then show ?case by auto
next
  case (Suc i)
  then obtain r h where r: "hs_at hs (int i) = Inr h" "get_cached_block h gids p = Inr r" by (auto simp: bindE_eq_Inr)
  consider (miss) "r = None \<or> r = Some []" | (hit) b where "r = Some b" "b \<noteq> []" by (cases r) auto
  then show ?case
  proof cases
    case miss
    then have "sliding_hit_loop p hs gids eagle bs al need i 0 cs = Inr (cs', n', found)" using Suc.prems(1) r by auto
    from Suc.IH [OF this Suc.prems(2)] Suc.prems(3) show ?thesis by simp
  next
    case (hit b)
    show ?thesis
    proof (cases "n = 0 \<and> bs \<noteq> al \<and> ((if eagle then int i else int i + 1) * bs) mod al \<noteq> 0")
      case True
      then have "sliding_hit_loop p hs gids eagle bs al need i 0 cs = Inr (cs', n', found)" using Suc.prems(1) r hit by auto
      from Suc.IH [OF this Suc.prems(2)] Suc.prems(3) show ?thesis by simp
    next
      case False
      have al: "\<not> eagle \<longrightarrow> al dvd int (i + Suc n) * bs"
        using Suc.prems(4) False by (cases "n = 0") (auto simp: mod_eq_0_iff_dvd add.commute)
      have u: "uniform_hits (length gids) N (set_hits i cs b)"
        by (rule uniform_set [OF Suc.prems(2) cached_length]) (use r hit in simp)
      show ?thesis
      proof (cases "need \<le> int (Suc n)")
        case True
        then have "cs' = map (take (i + Suc n)) (set_hits i cs b)" "n' = Suc n" found
          using Suc.prems(1) r hit False by (auto simp: Let_def split: if_splits)
        then show ?thesis using uniform_take [OF u, of "i + Suc n"] Suc.prems(3) al
          by (intro exI [of _ "i + Suc n"]) (auto simp: min_def)
      next
        case f: False
        then have "sliding_hit_loop p hs gids eagle bs al need i (Suc n) (set_hits i cs b) = Inr (cs', n', found)"
          using Suc.prems(1) r hit False by (auto simp: Let_def split: if_splits)
        from Suc.IH [OF this u] Suc.prems(3) al show ?thesis by simp
      qed
    qed
  qed
qed

lemma sliding_find_shape:
  assumes "sliding_find_longest_cache_hit hs ml gids p spec eagle al 1 1 = Inr cs" "gids \<noteq> []" "0 < spec_block_size spec"
  shows "\<exists>n. uniform_hits (length gids) n cs \<and> al dvd int n * spec_block_size spec
    \<and> int n * spec_block_size spec \<le> max 0 (if eagle then ml - spec_block_size spec else ml)"
proof -
  let ?bs = "spec_block_size spec" and ?k = "length gids"
  define N where "N = nat (ml div ?bs)"
  from assms(1) obtain need cs0 n0 found cs1 where
    0: "sliding_hit_loop p hs gids eagle ?bs al need N 0 (replicate ?k (replicate N (null_block p))) = Inr (cs0, n0, found)"
    and 1: "(if found then Inr cs0 else align_pop ?bs al (map (take n0) cs0)) = Inr cs1"
    and c2: "(if eagle then (case cs1 of [] \<Rightarrow> Inl IndexError
        | c # _ \<Rightarrow> if c \<noteq> [] then align_pop ?bs al (pop_all cs1) else Inr cs1) else Inr cs1) = Inr cs"
    unfolding sliding_find_longest_cache_hit_def Let_def N_def by (elim bindE_eq_InrE, simp only: split_paired_all prod.case) (erule bindE_eq_InrE, blast)
  have 2: "(if eagle \<and> hd cs1 \<noteq> [] then align_pop ?bs al (pop_all cs1) else Inr cs1) = Inr cs"
    using c2 by (cases cs1; cases eagle) (auto split: if_splits)
  from sliding_loop_shape [OF 0, of N] obtain L where
    L: "L \<le> N" "uniform_hits ?k L cs0" "n0 \<le> N" "found \<longrightarrow> \<not> eagle \<longrightarrow> al dvd int L * ?bs" "\<not> found \<longrightarrow> L = N" by auto
  obtain L1 where L1: "L1 \<le> N" "uniform_hits ?k L1 cs1" "\<not> eagle \<longrightarrow> al dvd int L1 * ?bs"
  proof (cases found)
    case True
    then show ?thesis using that [of L] L 1 by simp
  next
    case False
    then have "align_pop ?bs al (map (take n0) cs0) = Inr cs1" using 1 by simp
    from align_pop_shape [OF this uniform_take [OF L(2)]] assms(2) obtain n' where
      "n' \<le> min n0 L" "uniform_hits ?k n' cs1" "al dvd int n' * ?bs" by auto
    then show ?thesis using that [of n'] L(1) by simp
  qed
  have N: "int L1 * ?bs \<le> max 0 ml" by (rule div_bound [OF assms(3)]) (use L1(1) in \<open>auto simp: N_def\<close>)
  have "cs1 \<noteq> []" using L1(2) assms(2) by (auto simp: uniform_hits_def)
  then have hd: "hd cs1 = [] \<longleftrightarrow> L1 = 0" using L1(2) by (metis hd_in_set length_0_conv uniform_hits_def)
  show ?thesis
  proof (cases "eagle \<and> L1 \<noteq> 0")
    case True
    then have "align_pop ?bs al (pop_all cs1) = Inr cs" using 2 hd by simp
    from align_pop_shape [OF this uniform_pop [OF L1(2)]] assms(2) obtain n' where
      n': "n' \<le> L1 - 1" "uniform_hits ?k n' cs" "al dvd int n' * ?bs" by auto
    from shorter_bound [OF n'(1) drop_bound [OF N assms(3)] assms(3)] n'(2,3) True show ?thesis by auto
  next
    case False
    then have "cs = cs1" "eagle \<longrightarrow> L1 = 0" using 2 hd by auto
    then show ?thesis using L1(2,3) N by (intro exI [of _ L1]) auto
  qed
qed

interpretation sliding_lk: eagle_lookup sliding_find_longest_cache_hit
proof unfold_locales
  fix hs ml gids p spec eagle al cs
  assume a: "sliding_find_longest_cache_hit hs ml gids p spec eagle al 1 1 = Inr cs" "gids \<noteq> []" "lookup_spec_ok spec"
  then have bs: "0 < spec_block_size spec" by (simp add: lookup_spec_ok_def)
  from sliding_find_shape [OF a(1,2) bs] bs show "\<exists>n. uniform_hits (length gids) n cs \<and> int n * spec_block_size spec \<le> max 0 ml
      \<and> al dvd int n * spec_block_size spec" by (cases eagle) fastforce+
next
  fix hs ml gids p spec al cs
  assume "sliding_find_longest_cache_hit hs ml gids p spec True al 1 1 = Inr cs" "gids \<noteq> []" "lookup_spec_ok spec"
  from sliding_find_shape [OF this(1,2)] this(3) show "\<exists>n. uniform_hits (length gids) n cs
      \<and> int n * spec_block_size spec \<le> max 0 (ml - spec_block_size spec)" by (auto simp: lookup_spec_ok_def)
qed

section \<open>Chunked attention and state-space layers\<close>

lemma chunked_loop_shape:
  "chunked_hit_loop p hs gids is cs = Inr cs' \<Longrightarrow> uniform_hits (length gids) n cs \<Longrightarrow>
   \<exists>j \<le> length is. uniform_hits (length gids) (n + j) cs'"
proof (induction "is" arbitrary: cs n)
  case (Cons i js)
  then obtain h r where r: "hs_at hs i = Inr h" "get_cached_block h gids p = Inr r" by (auto simp: bindE_eq_Inr)
  show ?case
  proof (cases "r = None \<or> r = Some []")
    case True
    then show ?thesis using Cons.prems r by (intro exI [of _ 0]) auto
  next
    case False
    then obtain b where b: "r = Some b" "b \<noteq> []" by auto
    have "chunked_hit_loop p hs gids js (append_hits cs b) = Inr cs'" using Cons.prems(1) r b by simp
    from Cons.IH [OF this uniform_append [OF Cons.prems(2) cached_length]] r b(1)
    obtain j where "j \<le> length js" "uniform_hits (length gids) (Suc n + j) cs'" by blast
    then show ?thesis by (intro exI [of _ "Suc j"]) simp
  qed
qed auto

lemma chunked_find_shape:
  assumes "chunked_find_longest_cache_hit hs ml gids p spec eagle al 1 1 = Inr cs" "gids \<noteq> []"
    "0 < spec_block_size spec" "0 < chunk_of spec"
  shows "\<exists>n. uniform_hits (length gids) n cs \<and> al dvd int n * spec_block_size spec
    \<and> int n * spec_block_size spec \<le> max 0 ml \<and> \<not> eagle"
proof -
  let ?bs = "spec_block_size spec"
  define start where "start = (if 0 < ml then ml div chunk_of spec * chunk_of spec else 0) div ?bs"
  have g: "\<not> eagle" "al = ?bs" and
    c: "chunked_hit_loop p hs gids [start..ml div ?bs - 1] (replicate (length gids) (replicate (nat start) (null_block p))) = Inr cs"
    using assms(1) by (auto simp: chunked_find_longest_cache_hit_def Let_def bindE_eq_Inr start_def)
  have st: "0 \<le> start" "start \<le> max 0 (ml div ?bs)"
  proof -
    have "ml div chunk_of spec * chunk_of spec \<le> ml" using int_le_div_iff [OF assms(4), of "ml div chunk_of spec" ml] by simp
    moreover have "0 \<le> ml div chunk_of spec * chunk_of spec" if "0 < ml"
      using that assms(4) by (simp add: pos_imp_zdiv_nonneg_iff)
    ultimately show "0 \<le> start" "start \<le> max 0 (ml div ?bs)"
      using assms(3) by (auto simp: start_def pos_imp_zdiv_nonneg_iff zdiv_mono1 le_max_iff_disj)
  qed
  from chunked_loop_shape [OF c, of "nat start"] obtain j where
    j: "j \<le> length [start..ml div ?bs - 1]" "uniform_hits (length gids) (nat start + j) cs" by auto
  have "int (nat start + j) \<le> max 0 (ml div ?bs)" using j(1) st by (auto simp: max_def split: if_splits)
  from div_bound [OF assms(3) this] j(2) g show ?thesis by (intro exI [of _ "nat start + j"]) simp
qed

lemma mamba_loop_shape:
  assumes "mamba_hit_loop p hs gids bs al i (replicate (length gids) []) = Inr cs"
  shows "\<exists>n \<le> i. uniform_hits (length gids) n cs \<and> al dvd int n * bs"
  using assms
proof (induction i)
  case 0
  then show ?case by auto
next
  case (Suc i)
  then obtain h r where r: "hs_at hs (int i) = Inr h" "get_cached_block h gids p = Inr r" by (auto simp: bindE_eq_Inr)
  consider (miss) "r = None \<or> r = Some []" | (hit) b where "r = Some b" "b \<noteq> []" by (cases r) auto
  then show ?case
  proof cases
    case miss
    then have "mamba_hit_loop p hs gids bs al i (replicate (length gids) []) = Inr cs" using Suc.prems r by auto
    from Suc.IH [OF this] show ?thesis by (auto intro: le_SucI)
  next
    case (hit b)
    show ?thesis
    proof (cases "bs \<noteq> al \<and> ((int i + 1) * bs) mod al \<noteq> 0")
      case True
      then have "mamba_hit_loop p hs gids bs al i (replicate (length gids) []) = Inr cs" using Suc.prems r hit by auto
      from Suc.IH [OF this] show ?thesis by (auto intro: le_SucI)
    next
      case False
      let ?c = "replicate (length gids) (replicate i (null_block p))"
      have "cs = append_hits ?c b" using Suc.prems r hit False by (auto simp: map_replicate_const)
      moreover have "length b = length gids" by (rule cached_length) (use r hit in simp)
      ultimately have "uniform_hits (length gids) (Suc i) cs" by (auto intro!: uniform_append)
      then show ?thesis using False by (intro exI [of _ "Suc i"]) (auto simp: mod_eq_0_iff_dvd add.commute)
    qed
  qed
qed

interpretation mamba_lk: prefix_lookup mamba_find_longest_cache_hit
proof unfold_locales
  fix hs ml gids p spec eagle al cs
  assume a: "mamba_find_longest_cache_hit hs ml gids p spec eagle al 1 1 = Inr cs" "gids \<noteq> []" "lookup_spec_ok spec"
  then have bs: "0 < spec_block_size spec" by (simp add: lookup_spec_ok_def)
  from a(1) have "mamba_hit_loop p hs gids (spec_block_size spec) al (nat (ml div spec_block_size spec)) (replicate (length gids) []) = Inr cs"
    by (simp add: mamba_find_longest_cache_hit_def Let_def bindE_eq_Inr)
  from mamba_loop_shape [OF this] obtain n where n: "n \<le> nat (ml div spec_block_size spec)" "uniform_hits (length gids) n cs" "al dvd int n * spec_block_size spec"
    by blast
  then have "int n * spec_block_size spec \<le> max 0 ml" by (intro div_bound [OF bs]) auto
  then show "\<exists>n. uniform_hits (length gids) n cs \<and> int n * spec_block_size spec \<le> max 0 ml
      \<and> al dvd int n * spec_block_size spec" using n by blast
qed

interpretation chunked_lk: eagle_lookup chunked_find_longest_cache_hit
proof unfold_locales
  fix hs ml gids p spec eagle al cs
  assume a: "chunked_find_longest_cache_hit hs ml gids p spec eagle al 1 1 = Inr cs" "gids \<noteq> []" "lookup_spec_ok spec"
  then have "0 < spec_block_size spec" "0 < chunk_of spec"
    by (auto simp: lookup_spec_ok_def chunked_find_longest_cache_hit_def bindE_eq_Inr)
  from chunked_find_shape [OF a(1,2) this] show "\<exists>n. uniform_hits (length gids) n cs
      \<and> int n * spec_block_size spec \<le> max 0 ml \<and> al dvd int n * spec_block_size spec" by blast
next
  fix hs ml gids p spec al cs
  assume "chunked_find_longest_cache_hit hs ml gids p spec True al 1 1 = Inr cs" "gids \<noteq> []" "lookup_spec_ok spec"
  then show "\<exists>n. uniform_hits (length gids) n cs \<and> int n * spec_block_size spec \<le> max 0 (ml - spec_block_size spec)"
    by (simp add: chunked_find_longest_cache_hit_def bindE_eq_Inr)
qed

section \<open>The class method\<close>

lemma find_hit_shape:
  assumes f: "find_longest_cache_hit c hs ml gids p spec eagle al 1 1 = Inr cs" and g: "gids \<noteq> []" "lookup_spec_ok spec"
  obtains n where "uniform_hits (length gids) n cs" "length (hd cs) = n" "cs \<noteq> []"
    "int n * spec_block_size spec \<le> max 0 ml" "al dvd int n * spec_block_size spec"
proof (cases c)
  case SlidingWindowManager
  show ?thesis by (rule sliding_lk.find_hd [OF _ g that]) (use f SlidingWindowManager in \<open>simp add: find_longest_cache_hit_def\<close>)
next
  case ChunkedLocalAttentionManager
  show ?thesis by (rule chunked_lk.find_hd [OF _ g that]) (use f ChunkedLocalAttentionManager in \<open>simp add: find_longest_cache_hit_def\<close>)
next
  case MambaManager
  show ?thesis by (rule mamba_lk.find_hd [OF _ g that]) (use f MambaManager in \<open>simp add: find_longest_cache_hit_def\<close>)
next
  case CrossAttentionManager
  then show ?thesis using f by (auto simp: find_longest_cache_hit_def bindE_eq_Inr)
next
  case FullAttentionManager
  show ?thesis by (rule full_lk.find_hd [OF _ g that]) (use f FullAttentionManager in \<open>simp add: find_longest_cache_hit_def\<close>)
next
  case SinkFullAttentionManager
  show ?thesis by (rule full_lk.find_hd [OF _ g that]) (use f SinkFullAttentionManager in \<open>simp add: find_longest_cache_hit_def\<close>)
qed

lemma find_hit_drop:
  assumes f: "find_longest_cache_hit c hs ml gids p spec True al 1 1 = Inr cs" and c: "c \<noteq> MambaManager"
    and g: "gids \<noteq> []" "lookup_spec_ok spec"
  shows "int (length (hd cs)) * spec_block_size spec \<le> max 0 (ml - spec_block_size spec)"
proof -
  obtain n where n: "uniform_hits (length gids) n cs" "length (hd cs) = n" "cs \<noteq> []" using find_hit_shape [OF f g] by metis
  have "\<exists>n. uniform_hits (length gids) n cs \<and> int n * spec_block_size spec \<le> max 0 (ml - spec_block_size spec)"
  proof (cases c)
    case SlidingWindowManager
    then show ?thesis using sliding_lk.find_drop [OF _ g] f by (simp add: find_longest_cache_hit_def)
  next
    case ChunkedLocalAttentionManager
    then show ?thesis using chunked_lk.find_drop [OF _ g] f by (simp add: find_longest_cache_hit_def)
  qed (use full_lk.find_drop [OF _ g] f c in \<open>auto simp: find_longest_cache_hit_def bindE_eq_Inr\<close>)
  then show ?thesis using n by (auto simp: uniform_hits_def)
qed

end
