(* ===== verification/Coordinator.thy ===== *)
theory Coordinator
  imports Prefix_Lookup
begin

text \<open>
  \<open>vllm/v1/core/kv_cache_coordinator.py\<close>: the coordinator owns the block pool and one manager
  per KV cache group and forwards every operation to the managers in the order of the groups.

  The three classes are one record with a kind. Python's managers share the pool object, so the
  pool is threaded through the calls. Group ids come from \<open>enumerate\<close> and are natural numbers.
  The fixed-point search of the hybrid coordinator may run forever for a general specification,
  so its loop is a \<open>partial_function\<close> with the value \<open>None\<close> for not returning.
\<close>

section \<open>State\<close>

datatype coord_kind = NoPrefixCache | Unitary | Hybrid

type_synonym attn_group = "kv_spec \<times> nat list \<times> manager_class"

record kv_coordinator =
  coord_kind :: coord_kind
  coord_config :: kv_cache_config
  coord_max_model_len :: int
  coord_enable_caching :: bool
  coord_pool :: block_pool
  eagle_group_ids :: "nat set"
  single_type_managers :: "manager list"
  coord_block_size :: int
  coord_dcp :: int
  coord_pcp :: int
  coord_hash_block_size :: int
  attention_groups :: "attn_group list"
  lcm_block_size :: int
  eagle_attn_group_indices :: "nat set"

section \<open>Construction\<close>

fun plain_spec :: "group_spec \<Rightarrow> kv_spec result" where
  "plain_spec (One_spec s) = Inr s"
| "plain_spec (Uniform_specs u) = Inl KeyError"

text \<open>The tuple of managers, built group by group; \<open>type(spec)\<close> of a uniform group is not in the map.\<close>

fun build_managers ::
  "int \<Rightarrow> int \<Rightarrow> bool \<Rightarrow> int \<Rightarrow> int \<Rightarrow> nat \<Rightarrow> kv_cache_group_spec list \<Rightarrow> block_pool \<Rightarrow> (manager list \<times> block_pool) result" where
  "build_managers batched mml caching dcp pcp i [] p = Inr ([], p)"
| "build_managers batched mml caching dcp pcp i (g # gs) p =
     bindE (plain_spec (group_spec g)) (\<lambda>s.
     bindE (get_manager_for_kv_cache_spec s batched mml caching (int i) dcp pcp p) (\<lambda>(m, p1).
     bindE (build_managers batched mml caching dcp pcp (Suc i) gs p1) (\<lambda>(ms, p2). Inr (m # ms, p2))))"

definition coordinator_base_init ::
  "kv_cache_config \<Rightarrow> int \<Rightarrow> int \<Rightarrow> bool \<Rightarrow> bool \<Rightarrow> bool \<Rightarrow> bool \<Rightarrow> int \<Rightarrow> int \<Rightarrow> int \<Rightarrow> kv_coordinator result" where
  "coordinator_base_init config mml batched use_eagle caching events use_int dcp pcp hbs =
     bindE (block_pool_init (num_blocks config) caching hbs events use_int) (\<lambda>p.
       let groups = kv_cache_groups config;
           flagged = set (filter (\<lambda>i. is_eagle_group (groups ! i)) [0..<length groups]);
           eagle_ids = (if use_eagle \<and> flagged = {} then set [0..<length groups] else flagged)
       in bindE (build_managers batched mml caching dcp pcp 0 groups p) (\<lambda>(ms, p1).
            Inr \<lparr>coord_kind = NoPrefixCache, coord_config = config, coord_max_model_len = mml,
                 coord_enable_caching = caching, coord_pool = p1, eagle_group_ids = eagle_ids,
                 single_type_managers = ms, coord_block_size = 0, coord_dcp = dcp, coord_pcp = pcp,
                 coord_hash_block_size = hbs, attention_groups = [], lcm_block_size = 1,
                 eagle_attn_group_indices = {}\<rparr>))"

definition unitary_init ::
  "kv_cache_config \<Rightarrow> int \<Rightarrow> int \<Rightarrow> bool \<Rightarrow> bool \<Rightarrow> bool \<Rightarrow> bool \<Rightarrow> int \<Rightarrow> int \<Rightarrow> int \<Rightarrow> kv_coordinator result" where
  "unitary_init config mml batched use_eagle caching events use_int dcp pcp hbs =
     bindE (coordinator_base_init config mml batched use_eagle caching events use_int dcp pcp hbs) (\<lambda>co.
     bindE (py_index (kv_cache_groups config) 0) (\<lambda>g.
       let bs0 = group_block_size (group_spec g);
           bs1 = (if 1 < dcp then bs0 * dcp else bs0);
           bs = (if 1 < pcp then bs1 * pcp else bs1)
       in bindE (guardE (\<not> caching \<or> hbs = bs) AssertionError) (\<lambda>_.
          bindE (guardE (length (kv_cache_groups config) = 1) AssertionError) (\<lambda>_.
            Inr (co\<lparr>coord_kind := Unitary, coord_block_size := bs\<rparr>)))))"

text \<open>The search for an existing group with the same spec, and the new group at the end.\<close>

fun add_to_groups :: "kv_spec \<Rightarrow> nat \<Rightarrow> manager_class \<Rightarrow> attn_group list \<Rightarrow> attn_group list result" where
  "add_to_groups spec i c [] = Inr [(spec, [i], c)]"
| "add_to_groups spec i c ((s, ids, c') # gs) =
     (if s = spec then bindE (guardE (c = c') AssertionError) (\<lambda>_. Inr ((s, ids @ [i], c') # gs))
      else bindE (add_to_groups spec i c gs) (\<lambda>gs'. Inr ((s, ids, c') # gs')))"

fun split_groups :: "nat \<Rightarrow> kv_cache_group_spec list \<Rightarrow> manager list \<Rightarrow> attn_group list \<Rightarrow> attn_group list result" where
  "split_groups i [] ms acc = Inr acc"
| "split_groups i (g # gs) ms acc =
     bindE (py_index ms (int i)) (\<lambda>m.
     bindE (plain_spec (group_spec g)) (\<lambda>s.
     bindE (add_to_groups s i (mgr_class m) acc) (split_groups (Suc i) gs ms)))"

definition lcm_list :: "int list \<Rightarrow> int" where
  "lcm_list xs = foldr lcm xs 1"

definition verify_and_split_kv_cache_groups :: "kv_coordinator \<Rightarrow> kv_coordinator result" where
  "verify_and_split_kv_cache_groups co =
     bindE (split_groups 0 (kv_cache_groups (coord_config co)) (single_type_managers co) []) (\<lambda>groups.
     bindE (guardE (1 < length groups) AssertionError) (\<lambda>_.
       let ordered = filter (\<lambda>(s, _, _). is_full_attention s) groups @ filter (\<lambda>(s, _, _). \<not> is_full_attention s) groups
       in Inr (co\<lparr>attention_groups := ordered,
                  lcm_block_size := lcm_list (map (\<lambda>(s, _, _). spec_block_size s) groups),
                  eagle_attn_group_indices :=
                    set (filter (\<lambda>i. list_ex (\<lambda>gid. gid \<in> eagle_group_ids co) (fst (snd (ordered ! i)))) [0..<length ordered])\<rparr>)))"

definition hybrid_init ::
  "kv_cache_config \<Rightarrow> int \<Rightarrow> int \<Rightarrow> bool \<Rightarrow> bool \<Rightarrow> bool \<Rightarrow> bool \<Rightarrow> int \<Rightarrow> int \<Rightarrow> int \<Rightarrow> kv_coordinator result" where
  "hybrid_init config mml batched use_eagle caching events use_int dcp pcp hbs =
     bindE (coordinator_base_init config mml batched use_eagle caching events use_int dcp pcp hbs) (\<lambda>co.
     bindE (guardE (list_all (\<lambda>g. group_block_size (group_spec g) mod hbs = 0) (kv_cache_groups config)) AssertionError) (\<lambda>_.
     bindE (guardE (dcp = 1 \<and> pcp = 1) AssertionError) (\<lambda>_.
       verify_and_split_kv_cache_groups (co\<lparr>coord_kind := Hybrid\<rparr>))))"

definition get_kv_cache_coordinator ::
  "kv_cache_config \<Rightarrow> int \<Rightarrow> int \<Rightarrow> bool \<Rightarrow> bool \<Rightarrow> bool \<Rightarrow> bool \<Rightarrow> int \<Rightarrow> int \<Rightarrow> int \<Rightarrow> kv_coordinator result" where
  "get_kv_cache_coordinator config mml batched use_eagle caching events use_int dcp pcp hbs =
     (if \<not> caching
      then coordinator_base_init config mml batched use_eagle False events use_int dcp pcp hbs
      else if length (kv_cache_groups config) = 1
      then unitary_init config mml batched use_eagle caching events use_int dcp pcp hbs
      else hybrid_init config mml batched use_eagle caching events use_int dcp pcp hbs)"

section \<open>Operations forwarded to the managers\<close>

text \<open>The loop over the managers for calls that return nothing, and for calls that return a value.\<close>

type_synonym mgr_op = "manager \<Rightarrow> block_pool \<Rightarrow> (manager \<times> block_pool) result"

fun each_manager :: "(nat \<Rightarrow> mgr_op) \<Rightarrow> nat \<Rightarrow> manager list \<Rightarrow> block_pool \<Rightarrow> (manager list \<times> block_pool) result" where
  "each_manager f i [] p = Inr ([], p)"
| "each_manager f i (m # ms) p =
     bindE (f i m p) (\<lambda>(m1, p1). bindE (each_manager f (Suc i) ms p1) (\<lambda>(ms1, p2). Inr (m1 # ms1, p2)))"

fun each_manager_out ::
  "(manager \<Rightarrow> block_pool \<Rightarrow> ('a \<times> manager \<times> block_pool) result) \<Rightarrow> manager list \<Rightarrow> block_pool
     \<Rightarrow> ('a list \<times> manager list \<times> block_pool) result" where
  "each_manager_out f [] p = Inr ([], [], p)"
| "each_manager_out f (m # ms) p =
     bindE (f m p) (\<lambda>(x, m1, p1). bindE (each_manager_out f ms p1) (\<lambda>(xs, ms1, p2). Inr (x # xs, m1 # ms1, p2)))"

definition with_managers :: "kv_coordinator \<Rightarrow> manager list \<times> block_pool \<Rightarrow> kv_coordinator" where
  "with_managers co = (\<lambda>(ms, p). co\<lparr>single_type_managers := ms, coord_pool := p\<rparr>)"

fun sum_blocks_to_allocate ::
  "string \<Rightarrow> int \<Rightarrow> hit_blocks \<Rightarrow> int \<Rightarrow> int \<Rightarrow> int \<Rightarrow> block_pool \<Rightarrow> nat \<Rightarrow> manager list \<Rightarrow> (int \<times> manager list) result" where
  "sum_blocks_to_allocate rid nt new enc total_computed main_toks p i [] = Inr (0, [])"
| "sum_blocks_to_allocate rid nt new enc total_computed main_toks p i (m # ms) =
     bindE (if mgr_class m = CrossAttentionManager
            then get_num_blocks_to_allocate m p rid enc [] 0 enc
            else bindE (py_index new (int i)) (\<lambda>bs. get_num_blocks_to_allocate m p rid nt bs total_computed main_toks))
       (\<lambda>(k, m1). bindE (sum_blocks_to_allocate rid nt new enc total_computed main_toks p (Suc i) ms)
          (\<lambda>(ks, ms1). Inr (k + ks, m1 # ms1)))"

definition coord_num_blocks_to_allocate ::
  "string \<Rightarrow> int \<Rightarrow> hit_blocks \<Rightarrow> int \<Rightarrow> int \<Rightarrow> int \<Rightarrow> kv_coordinator \<Rightarrow> (int \<times> kv_coordinator) result" where
  "coord_num_blocks_to_allocate rid nt new enc total_computed main_toks co =
     bindE (sum_blocks_to_allocate rid nt new enc total_computed main_toks (coord_pool co) 0 (single_type_managers co))
       (\<lambda>(k, ms). Inr (k, co\<lparr>single_type_managers := ms\<rparr>))"

definition coord_allocate_new_computed_blocks ::
  "string \<Rightarrow> hit_blocks \<Rightarrow> int \<Rightarrow> int \<Rightarrow> kv_coordinator \<Rightarrow> kv_coordinator result" where
  "coord_allocate_new_computed_blocks rid new num_local num_external co =
     bindE (each_manager (\<lambda>i m p. bindE (py_index new (int i)) (\<lambda>bs. allocate_new_computed_blocks rid bs num_local num_external m p))
              0 (single_type_managers co) (coord_pool co)) (\<lambda>r. Inr (with_managers co r))"

definition coord_allocate_new_blocks ::
  "string \<Rightarrow> int \<Rightarrow> int \<Rightarrow> int \<Rightarrow> kv_coordinator \<Rightarrow> (hit_blocks \<times> kv_coordinator) result" where
  "coord_allocate_new_blocks rid nt main_toks enc co =
     bindE (each_manager_out
              (\<lambda>m. allocate_new_blocks rid (if mgr_class m = CrossAttentionManager then enc else nt) main_toks m)
              (single_type_managers co) (coord_pool co)) (\<lambda>(bs, r). Inr (bs, with_managers co r))"

definition coord_cache_blocks :: "(bytes list \<Rightarrow> bytes) \<Rightarrow> request \<Rightarrow> int \<Rightarrow> kv_coordinator \<Rightarrow> kv_coordinator result" where
  "coord_cache_blocks sha r n co =
     bindE (each_manager (\<lambda>_. cache_blocks sha r n) 0 (single_type_managers co) (coord_pool co)) (\<lambda>x. Inr (with_managers co x))"

definition coord_free :: "string \<Rightarrow> kv_coordinator \<Rightarrow> kv_coordinator result" where
  "coord_free rid co =
     bindE (each_manager (\<lambda>_. mgr_free rid) 0 (single_type_managers co) (coord_pool co)) (\<lambda>r. Inr (with_managers co r))"

definition coord_remove_skipped_blocks :: "string \<Rightarrow> int \<Rightarrow> kv_coordinator \<Rightarrow> kv_coordinator result" where
  "coord_remove_skipped_blocks rid n co =
     bindE (each_manager (\<lambda>_. remove_skipped_blocks rid n) 0 (single_type_managers co) (coord_pool co))
       (\<lambda>r. Inr (with_managers co r))"

definition coord_num_common_prefix_blocks :: "string \<Rightarrow> kv_coordinator \<Rightarrow> int list \<times> kv_coordinator" where
  "coord_num_common_prefix_blocks rid co =
     (if coord_kind co = NoPrefixCache then (replicate (length (single_type_managers co)) 0, co)
      else let rs = map (\<lambda>m. get_num_common_prefix_blocks rid m (coord_pool co)) (single_type_managers co)
           in (map fst rs, co\<lparr>single_type_managers := map snd rs\<rparr>))"

definition coord_get_blocks :: "string \<Rightarrow> kv_coordinator \<Rightarrow> hit_blocks" where
  "coord_get_blocks rid co = map (rtb_get rid) (single_type_managers co)"

definition coord_new_step_starts :: "kv_coordinator \<Rightarrow> kv_coordinator" where
  "coord_new_step_starts co = co\<lparr>single_type_managers := map new_step_starts (single_type_managers co)\<rparr>"

section \<open>The longest cached prefix\<close>

text \<open>One attention group: the candidate length, the hits so far and the groups whose drop is verified.\<close>

type_synonym hybrid_state = "int \<times> blk_ref list option list \<times> nat set"

definition store_hits :: "nat list \<Rightarrow> hit_blocks \<Rightarrow> blk_ref list option list \<Rightarrow> blk_ref list option list" where
  "store_hits gids found hits = fold (\<lambda>(g, b) hs. hs[g := Some b]) (zip gids found) hits"

definition hybrid_step :: "kv_coordinator \<Rightarrow> bytes list \<Rightarrow> int \<Rightarrow> nat \<times> attn_group \<Rightarrow> hybrid_state \<Rightarrow> hybrid_state result" where
  "hybrid_step co hashes max_hit = (\<lambda>(idx, spec, gids, cls) (len, hits, verified).
     if is_full_attention spec \<and> hits ! hd gids \<noteq> None
     then Inr (len div spec_block_size spec * spec_block_size spec, hits, verified)
     else let use_eagle = (idx \<in> eagle_attn_group_indices co \<and> idx \<notin> verified);
              max_len = (if use_eagle then min (len + spec_block_size spec) max_hit else len)
          in bindE (hash_seq_for (spec_block_size spec) (coord_hash_block_size co) hashes) (\<lambda>hs.
             bindE (find_longest_cache_hit cls hs max_len (map int gids) (coord_pool co) spec use_eagle (lcm_block_size co) 1 1) (\<lambda>found.
             bindE (py_index found 0) (\<lambda>first.
               let new_len = int (length first) * spec_block_size spec
               in Inr (new_len, store_hits gids found hits,
                       if use_eagle then insert idx verified else if new_len < len then {} else verified)))))"

definition hybrid_pass :: "kv_coordinator \<Rightarrow> bytes list \<Rightarrow> int \<Rightarrow> hybrid_state \<Rightarrow> hybrid_state result" where
  "hybrid_pass co hashes max_hit st = foldE (hybrid_step co hashes max_hit) (enumerate 0 (attention_groups co)) st"

partial_function (option) hybrid_loop ::
  "kv_coordinator \<Rightarrow> bytes list \<Rightarrow> int \<Rightarrow> bool \<Rightarrow> hybrid_state \<Rightarrow> (int \<times> blk_ref list option list) result option" where
  "hybrid_loop co hashes max_hit simple st =
     (case hybrid_pass co hashes max_hit st of
        Inl e \<Rightarrow> Some (Inl e)
      | Inr st' \<Rightarrow>
          if fst st \<le> fst st' then Some (Inr (fst st, fst (snd st')))
          else if simple then Some (Inr (fst st', fst (snd st')))
          else hybrid_loop co hashes max_hit simple st')"

declare hybrid_loop.simps [code]

definition py_upto :: "'a list \<Rightarrow> int \<Rightarrow> 'a list" where
  "py_upto xs k = take (py_clip (length xs) k) xs"

definition truncate_hits :: "nat list \<Rightarrow> int \<Rightarrow> blk_ref list option list \<Rightarrow> blk_ref list option list" where
  "truncate_hits gids n hits = fold (\<lambda>g hs. hs[g := map_option (\<lambda>b. py_upto b n) (hs ! g)]) gids hits"

definition hybrid_find :: "bytes list \<Rightarrow> int \<Rightarrow> kv_coordinator \<Rightarrow> (hit_blocks \<times> int) result option" where
  "hybrid_find hashes max_hit co =
     (case attention_groups co of
        [] \<Rightarrow> Some (Inl IndexError)
      | (spec0, gids0, _) # rest \<Rightarrow>
          map_option (\<lambda>res. bindE res (\<lambda>(len, hits).
              let hits' = (if is_full_attention spec0 then truncate_hits gids0 (len div spec_block_size spec0) hits else hits)
              in Inr (map (\<lambda>h. case h of None \<Rightarrow> [] | Some b \<Rightarrow> b) hits', len)))
            (hybrid_loop co hashes max_hit (length (attention_groups co) = 2 \<and> is_full_attention spec0)
               (max_hit, replicate (length (kv_cache_groups (coord_config co))) None, {})))"

definition unitary_find :: "bytes list \<Rightarrow> int \<Rightarrow> kv_coordinator \<Rightarrow> (hit_blocks \<times> int) result" where
  "unitary_find hashes max_hit co =
     bindE (py_index (single_type_managers co) 0) (\<lambda>m.
     bindE (find_longest_cache_hit (mgr_class m) (HS_list hashes) max_hit [0] (coord_pool co) (mgr_spec m)
              (0 \<in> eagle_group_ids co) (coord_block_size co) (coord_dcp co) (coord_pcp co)) (\<lambda>hit.
     bindE (py_index hit 0) (\<lambda>first. Inr (hit, int (length first) * coord_block_size co))))"

definition coord_find_longest_cache_hit :: "bytes list \<Rightarrow> int \<Rightarrow> kv_coordinator \<Rightarrow> (hit_blocks \<times> int) result option" where
  "coord_find_longest_cache_hit hashes max_hit co =
     (case coord_kind co of
        NoPrefixCache \<Rightarrow> Some (Inr (replicate (length (single_type_managers co)) [], 0))
      | Unitary \<Rightarrow> Some (unitary_find hashes max_hit co)
      | Hybrid \<Rightarrow> hybrid_find hashes max_hit co)"

section \<open>The fixed-point search returns\<close>

lemma py_index_hd: "py_index xs 0 = Inr x \<longleftrightarrow> xs \<noteq> [] \<and> x = hd xs"
  by (cases xs) (auto simp: py_index_def)

text \<open>What the construction of the attention groups guarantees, for \<open>n\<close> KV cache groups.\<close>

definition group_ok :: "nat \<Rightarrow> int \<Rightarrow> attn_group \<Rightarrow> bool" where
  "group_ok n al = (\<lambda>(spec, gids, cls). lookup_spec_ok spec \<and> gids \<noteq> [] \<and> distinct gids
     \<and> (\<forall>g \<in> set gids. g < n) \<and> spec_block_size spec dvd al)"

abbreviation ids_of :: "attn_group \<Rightarrow> nat set" where
  "ids_of G \<equiv> set (fst (snd G))"

definition groups_ok :: "nat \<Rightarrow> int \<Rightarrow> attn_group list \<Rightarrow> bool" where
  "groups_ok n al gs \<longleftrightarrow> (\<forall>G \<in> set gs. group_ok n al G) \<and> sorted_wrt (\<lambda>G G'. ids_of G \<inter> ids_of G' = {}) gs"

text \<open>Hits of a group that cover exactly \<open>L\<close> tokens; hits that cover at least \<open>L\<close>.\<close>

definition covers :: "blk_ref list option list \<Rightarrow> attn_group \<Rightarrow> int \<Rightarrow> bool" where
  "covers hits G L \<longleftrightarrow> (\<forall>g \<in> ids_of G. \<exists>b. hits ! g = Some b \<and> int (length b) * spec_block_size (fst G) = L)"

definition covers_at_least :: "blk_ref list option list \<Rightarrow> attn_group \<Rightarrow> int \<Rightarrow> bool" where
  "covers_at_least hits G L \<longleftrightarrow> (\<forall>g \<in> ids_of G. \<exists>b. hits ! g = Some b \<and> L \<le> int (length b) * spec_block_size (fst G))"

definition kept :: "blk_ref list option list \<Rightarrow> attn_group \<Rightarrow> bool" where
  "kept hits G \<longleftrightarrow> is_full_attention (fst G) \<and> hits ! hd (fst (snd G)) \<noteq> None"

lemma store_hits_spec:
  assumes "distinct gids" "length found = length gids" "\<forall>g \<in> set gids. g < length hits"
  shows "length (store_hits gids found hits) = length hits"
    "\<And>g. g \<notin> set gids \<Longrightarrow> store_hits gids found hits ! g = hits ! g"
    "\<And>j. j < length gids \<Longrightarrow> store_hits gids found hits ! (gids ! j) = Some (found ! j)"
proof -
  have "length (store_hits gids found hits) = length hits
    \<and> (\<forall>g. g \<notin> set gids \<longrightarrow> store_hits gids found hits ! g = hits ! g)
    \<and> (\<forall>j < length gids. store_hits gids found hits ! (gids ! j) = Some (found ! j))"
    using assms
  proof (induction gids arbitrary: found hits)
    case (Cons g gids)
    then obtain b bs where f: "found = b # bs" "length bs = length gids" by (cases found) auto
    have "\<forall>x \<in> set gids. x < length (hits[g := Some b])" using Cons.prems(3) by simp
    note IH = Cons.IH [OF _ f(2) this]
    have e: "store_hits (g # gids) (b # bs) hits = store_hits gids bs (hits[g := Some b])" by (simp add: store_hits_def)
    show ?case using IH Cons.prems unfolding f(1) by (auto simp: e less_Suc_eq_0_disj nth_list_update)
  qed (simp add: store_hits_def)
  then show "length (store_hits gids found hits) = length hits"
    "\<And>g. g \<notin> set gids \<Longrightarrow> store_hits gids found hits ! g = hits ! g"
    "\<And>j. j < length gids \<Longrightarrow> store_hits gids found hits ! (gids ! j) = Some (found ! j)" by blast+
qed

text \<open>One group: it keeps its hits or stores new ones; the length never grows if the drop is honoured.\<close>

lemma hybrid_step_spec:
  assumes s: "hybrid_step co hashes mh (idx, G) (len, hits, v) = Inr (len', hits', v')"
    and G: "group_ok (length hits) (lcm_block_size co) G" and len: "0 \<le> len"
  shows "0 \<le> len'" "length hits' = length hits" "\<And>g. g \<notin> ids_of G \<Longrightarrow> hits' ! g = hits ! g"
    and "kept hits G \<Longrightarrow> hits' = hits \<and> len' = len div spec_block_size (fst G) * spec_block_size (fst G)"
    and "\<not> kept hits G \<Longrightarrow> covers hits' G len' \<and> lcm_block_size co dvd len'"
    and "idx \<in> eagle_attn_group_indices co \<longrightarrow> snd (snd G) \<noteq> MambaManager \<Longrightarrow> len' \<le> len"
proof -
  obtain spec gids cls where [simp]: "G = (spec, gids, cls)" by (cases G) auto
  let ?bs = "spec_block_size spec"
  have ok: "lookup_spec_ok spec" "gids \<noteq> []" "distinct gids" "\<forall>g \<in> set gids. g < length hits" using G by (simp_all add: group_ok_def)
  then have bs: "0 < ?bs" by (simp add: lookup_spec_ok_def)
  have "0 \<le> len' \<and> length hits' = length hits \<and> (\<forall>g. g \<notin> set gids \<longrightarrow> hits' ! g = hits ! g)
    \<and> (kept hits G \<longrightarrow> hits' = hits \<and> len' = len div ?bs * ?bs)
    \<and> (\<not> kept hits G \<longrightarrow> covers hits' G len' \<and> lcm_block_size co dvd len')
    \<and> ((idx \<in> eagle_attn_group_indices co \<longrightarrow> cls \<noteq> MambaManager) \<longrightarrow> len' \<le> len)"
  proof (cases "kept hits G")
    case True
    then have "len' = len div ?bs * ?bs" "hits' = hits" using s by (auto simp: hybrid_step_def kept_def)
    moreover have "len div ?bs * ?bs \<le> len" using int_le_div_iff [OF bs, of "len div ?bs" len] by simp
    moreover have "0 \<le> len div ?bs * ?bs" using len bs by (simp add: pos_imp_zdiv_nonneg_iff)
    ultimately show ?thesis using True by simp
  next
    case False
    define eagle where "eagle = (idx \<in> eagle_attn_group_indices co \<and> idx \<notin> v)"
    define ml where "ml = (if eagle then min (len + ?bs) mh else len)"
    obtain hs found where f: "find_longest_cache_hit cls hs ml (map int gids) (coord_pool co) spec eagle (lcm_block_size co) 1 1 = Inr found"
      and r: "found \<noteq> []" "len' = int (length (hd found)) * ?bs" "hits' = store_hits gids found hits"
      using s False by (auto simp: hybrid_step_def kept_def Let_def bindE_eq_Inr eagle_def [symmetric] ml_def [symmetric] py_index_hd)
    obtain n where n: "uniform_hits (length (map int gids)) n found" "length (hd found) = n" "lcm_block_size co dvd int n * ?bs"
      "int n * ?bs \<le> max 0 ml" using find_hit_shape [OF f _ ok(1)] ok(2) by (metis map_is_Nil_conv)
    have lf: "length found = length gids" "\<And>c. c \<in> set found \<Longrightarrow> length c = n" using n(1) by (auto simp: uniform_hits_def)
    note st = store_hits_spec [OF ok(3) lf(1) ok(4)]
    have "covers hits' G len'" unfolding covers_def
    proof
      fix g assume "g \<in> ids_of G"
      then obtain j where j: "j < length gids" "g = gids ! j" by (auto simp: in_set_conv_nth)
      then show "\<exists>b. hits' ! g = Some b \<and> int (length b) * spec_block_size (fst G) = len'"
        using st(3) [OF j(1)] lf r n(2) by simp
    qed
    moreover have "len' \<le> len" if e: "idx \<in> eagle_attn_group_indices co \<longrightarrow> cls \<noteq> MambaManager"
    proof (cases eagle)
      case True
      then have "int (length (hd found)) * ?bs \<le> max 0 (ml - ?bs)"
        using find_hit_drop [of cls hs ml "map int gids" "coord_pool co" spec "lcm_block_size co" found] f e ok(1,2) by (auto simp: eagle_def)
      then show ?thesis using r(2) True len by (simp add: ml_def max_def split: if_splits)
    qed (use r(2) n len in \<open>simp add: ml_def\<close>)
    moreover have "0 \<le> len'" using r(2) bs by simp
    ultimately show ?thesis using False st(1,2) r n by simp
  qed
  then show "0 \<le> len'" "length hits' = length hits" "\<And>g. g \<notin> ids_of G \<Longrightarrow> hits' ! g = hits ! g"
    "kept hits G \<Longrightarrow> hits' = hits \<and> len' = len div spec_block_size (fst G) * spec_block_size (fst G)"
    "\<not> kept hits G \<Longrightarrow> covers hits' G len' \<and> lcm_block_size co dvd len'"
    "idx \<in> eagle_attn_group_indices co \<longrightarrow> snd (snd G) \<noteq> MambaManager \<Longrightarrow> len' \<le> len" by simp_all
qed

lemma hybrid_fold_nonneg:
  assumes "foldE (hybrid_step co hashes mh) (enumerate i gs) st = Inr st'" "0 \<le> fst st"
    "\<forall>G \<in> set gs. group_ok (length (fst (snd st))) (lcm_block_size co) G"
  shows "0 \<le> fst st' \<and> length (fst (snd st')) = length (fst (snd st))"
  using assms
proof (induction gs arbitrary: i st)
  case (Cons G gs)
  obtain len hits v where st: "st = (len, hits, v)" by (cases st) auto
  from Cons.prems(1) obtain len1 hits1 v1 where
    1: "hybrid_step co hashes mh (i, G) (len, hits, v) = Inr (len1, hits1, v1)"
    "foldE (hybrid_step co hashes mh) (enumerate (Suc i) gs) (len1, hits1, v1) = Inr st'"
    by (auto simp: st bindE_eq_Inr)
  have "0 \<le> len1" "length hits1 = length hits" using hybrid_step_spec(1,2) [OF 1(1)] Cons.prems(2,3) by (simp_all add: st)
  then show ?case using Cons.IH [OF 1(2)] Cons.prems(3) by (simp add: st)
qed simp

lemma hybrid_loop_returns:
  assumes "\<forall>G \<in> set (attention_groups co). group_ok (length (fst (snd st))) (lcm_block_size co) G" "0 \<le> fst st"
  shows "\<exists>r. hybrid_loop co hashes mh simple st = Some r"
  using assms
proof (induction "nat (fst st)" arbitrary: st rule: less_induct)
  case less
  show ?case
  proof (cases "hybrid_pass co hashes mh st")
    case (Inl e)
    then show ?thesis by (simp add: hybrid_loop.simps [of co hashes mh simple st])
  next
    case (Inr st')
    then have n: "0 \<le> fst st'" "length (fst (snd st')) = length (fst (snd st))"
      using hybrid_fold_nonneg [OF _ less.prems(2,1)] by (auto simp: hybrid_pass_def)
    show ?thesis
    proof (cases "fst st \<le> fst st' \<or> simple")
      case True
      then show ?thesis using Inr by (auto simp: hybrid_loop.simps [of co hashes mh simple st])
    next
      case False
      then have "\<exists>r. hybrid_loop co hashes mh simple st' = Some r" using less.hyps [of st'] less.prems n by simp
      then show ?thesis using Inr False by (subst hybrid_loop.simps) simp
    qed
  qed
qed

section \<open>All groups agree on the hit\<close>

text \<open>The drop of the last block is only asked of classes that honour it.\<close>

definition drop_honoured :: "kv_coordinator \<Rightarrow> nat \<Rightarrow> attn_group list \<Rightarrow> bool" where
  "drop_honoured co i gs \<longleftrightarrow> (\<forall>j < length gs. i + j \<in> eagle_attn_group_indices co \<longrightarrow> snd (snd (gs ! j)) \<noteq> MambaManager)"

lemma drop_honoured_Cons:
  "drop_honoured co i (G # gs) \<longleftrightarrow> (i \<in> eagle_attn_group_indices co \<longrightarrow> snd (snd G) \<noteq> MambaManager) \<and> drop_honoured co (Suc i) gs"
  by (auto simp: drop_honoured_def less_Suc_eq_0_disj)

lemma groups_ok_Cons:
  "groups_ok n al (G # gs) \<longleftrightarrow> group_ok n al G \<and> groups_ok n al gs \<and> (\<forall>G' \<in> set gs. ids_of G \<inter> ids_of G' = {})"
  by (auto simp: groups_ok_def)

lemma kept_other:
  assumes "group_ok n al G'" "\<forall>g \<in> ids_of G'. hits1 ! g = hits ! g" shows "kept hits1 G' = kept hits G'"
  using assms by (cases G') (simp add: kept_def group_ok_def)

lemma covers_other:
  assumes "\<forall>g \<in> ids_of G. hits1 ! g = hits ! g" shows "covers hits1 G L = covers hits G L"
  using assms by (simp add: covers_def)

definition pass_result :: "int \<Rightarrow> attn_group list \<Rightarrow> int \<Rightarrow> blk_ref list option list \<Rightarrow> int \<Rightarrow> blk_ref list option list \<Rightarrow> bool" where
  "pass_result al gs len hits len' hits' \<longleftrightarrow>
     len' \<le> len \<and> (\<forall>g. (\<forall>G \<in> set gs. g \<notin> ids_of G) \<longrightarrow> hits' ! g = hits ! g)
     \<and> (\<forall>G \<in> set gs. kept hits G \<longrightarrow> (\<forall>g \<in> ids_of G. hits' ! g = hits ! g))
     \<and> (\<forall>G \<in> set gs. \<not> kept hits G \<longrightarrow> (\<exists>m. len' \<le> m \<and> m \<le> len \<and> covers hits' G m))
     \<and> (gs \<noteq> [] \<longrightarrow> \<not> kept hits (last gs) \<longrightarrow> covers hits' (last gs) len')
     \<and> (al dvd len \<or> (gs \<noteq> [] \<and> (\<forall>G \<in> set gs. \<not> kept hits G)) \<longrightarrow> al dvd len')"

lemma pass_resultD:
  assumes "pass_result al gs len hits len' hits'"
  shows "len' \<le> len" "\<And>g. (\<And>G. G \<in> set gs \<Longrightarrow> g \<notin> ids_of G) \<Longrightarrow> hits' ! g = hits ! g"
    "\<And>G g. G \<in> set gs \<Longrightarrow> kept hits G \<Longrightarrow> g \<in> ids_of G \<Longrightarrow> hits' ! g = hits ! g"
    "\<And>G. G \<in> set gs \<Longrightarrow> \<not> kept hits G \<Longrightarrow> \<exists>m. len' \<le> m \<and> m \<le> len \<and> covers hits' G m"
    "gs \<noteq> [] \<Longrightarrow> \<not> kept hits (last gs) \<Longrightarrow> covers hits' (last gs) len'"
    "al dvd len \<Longrightarrow> al dvd len'" "gs \<noteq> [] \<Longrightarrow> (\<And>G. G \<in> set gs \<Longrightarrow> \<not> kept hits G) \<Longrightarrow> al dvd len'"
  using assms unfolding pass_result_def by blast+

lemma hybrid_fold_spec:
  assumes "foldE (hybrid_step co hashes mh) (enumerate i gs) (len, hits, v) = Inr (len', hits', v')"
    "groups_ok (length hits) (lcm_block_size co) gs" "0 \<le> len" "drop_honoured co i gs"
  shows "pass_result (lcm_block_size co) gs len hits len' hits'"
  using assms
proof (induction gs arbitrary: i len hits v)
  case (Cons G gs)
  let ?al = "lcm_block_size co"
  from Cons.prems(1) obtain len1 hits1 v1 where
    1: "hybrid_step co hashes mh (i, G) (len, hits, v) = Inr (len1, hits1, v1)"
    "foldE (hybrid_step co hashes mh) (enumerate (Suc i) gs) (len1, hits1, v1) = Inr (len', hits', v')"
    by (auto simp: bindE_eq_Inr)
  have ok: "group_ok (length hits) ?al G" "groups_ok (length hits) ?al gs" "\<forall>G' \<in> set gs. ids_of G \<inter> ids_of G' = {}"
    using Cons.prems(2) by (simp_all add: groups_ok_Cons)
  note s = hybrid_step_spec [OF 1(1) ok(1) Cons.prems(3)]
  have le: "len1 \<le> len" using s(6) Cons.prems(4) by (simp add: drop_honoured_Cons)
  have "pass_result ?al gs len1 hits1 len' hits'"
    using Cons.IH [OF 1(2)] ok(2) s(1,2) Cons.prems(4) by (simp add: drop_honoured_Cons)
  note r = pass_resultD [OF this]
  have same: "hits1 ! g = hits ! g" if "G' \<in> set gs" "g \<in> ids_of G'" for G' g using s(3) ok(3) that by blast
  have kept: "kept hits1 G' = kept hits G'" if "G' \<in> set gs" for G'
    using kept_other [of "length hits" ?al G' hits1 hits] ok(2) same that by (auto simp: groups_ok_def)
  have after: "hits' ! g = hits1 ! g" if "g \<in> ids_of G" for g using r(2) ok(3) that by blast
  have cov: "covers hits' G L = covers hits1 G L" for L using after by (intro covers_other) blast
  have al: "?al dvd len1" if "?al dvd len \<or> \<not> kept hits G"
  proof (cases "kept hits G")
    case True
    then have d: "?al dvd len" "len1 = len div spec_block_size (fst G) * spec_block_size (fst G)" using that s(4) by auto
    have "spec_block_size (fst G) dvd len" using ok(1) d(1) by (cases G) (auto simp: group_ok_def intro: dvd_trans)
    then show ?thesis using d by simp
  qed (use s(5) in simp)
  show ?case unfolding pass_result_def
  proof (intro conjI ballI allI impI)
    show "len' \<le> len" using r(1) le by simp
    show "hits' ! g = hits ! g" if "\<forall>G' \<in> set (G # gs). g \<notin> ids_of G'" for g using r(2) s(3) that by simp
    show "hits' ! g = hits ! g" if "G' \<in> set (G # gs)" "kept hits G'" "g \<in> ids_of G'" for G' g
      using that r(3) kept same after s(4) by (cases "G' = G") auto
    show "\<exists>m. len' \<le> m \<and> m \<le> len \<and> covers hits' G' m" if "G' \<in> set (G # gs)" "\<not> kept hits G'" for G'
    proof (cases "G' \<in> set gs")
      case True
      then show ?thesis using r(4) [OF True] kept [OF True] that(2) le by force
    next
      case False
      then have "G' = G" using that(1) by simp
      then show ?thesis using s(5) that(2) cov r(1) le by auto
    qed
    show "covers hits' (last (G # gs)) len'" if "\<not> kept hits (last (G # gs))"
    proof (cases "gs = []")
      case True
      then have "len' = len1" "hits' = hits1" using 1(2) by simp_all
      then show ?thesis using that True s(5) by simp
    next
      case False
      then show ?thesis using r(5) that kept by simp
    qed
    show "?al dvd len'" if "?al dvd len \<or> (G # gs \<noteq> [] \<and> (\<forall>G' \<in> set (G # gs). \<not> kept hits G'))"
      using that al r(6) by auto
  qed
qed (simp add: pass_result_def)

text \<open>What holds between two passes, and what holds when the search is over.\<close>

definition search_inv :: "int \<Rightarrow> attn_group \<Rightarrow> int \<Rightarrow> blk_ref list option list \<Rightarrow> bool" where
  "search_inv al G0 len hits \<longleftrightarrow> 0 \<le> len
     \<and> ((\<forall>g < length hits. hits ! g = None)
        \<or> (al dvd len \<and> (is_full_attention (fst G0) \<longrightarrow> covers_at_least hits G0 len)))"

definition search_done :: "int \<Rightarrow> attn_group \<Rightarrow> attn_group list \<Rightarrow> int \<Rightarrow> blk_ref list option list \<Rightarrow> bool" where
  "search_done al G0 rest L hits \<longleftrightarrow> 0 \<le> L \<and> al dvd L \<and> (\<forall>G \<in> set rest. covers hits G L)
     \<and> (if is_full_attention (fst G0) then covers_at_least hits G0 L else covers hits G0 L)"

lemma covers_imp_at_least: "covers hits G m \<Longrightarrow> L \<le> m \<Longrightarrow> covers_at_least hits G L"
  by (fastforce simp: covers_def covers_at_least_def)

lemma pass_search:
  assumes pass: "hybrid_pass co hashes mh (len, hits, v) = Inr (len', hits', v')"
    and gs: "attention_groups co = G0 # rest" "groups_ok (length hits) (lcm_block_size co) (G0 # rest)"
      "\<forall>G \<in> set rest. \<not> is_full_attention (fst G)" "drop_honoured co 0 (G0 # rest)"
    and inv: "search_inv (lcm_block_size co) G0 len hits"
  shows "len' \<le> len" "length hits' = length hits" "search_inv (lcm_block_size co) G0 len' hits'"
    and "len \<le> len' \<or> (length rest = 1 \<and> is_full_attention (fst G0)) \<Longrightarrow> search_done (lcm_block_size co) G0 rest len' hits'"
proof -
  let ?al = "lcm_block_size co"
  have f: "foldE (hybrid_step co hashes mh) (enumerate 0 (G0 # rest)) (len, hits, v) = Inr (len', hits', v')"
    using pass unfolding hybrid_pass_def gs(1) .
  have 0: "0 \<le> len" using inv by (simp add: search_inv_def)
  have ok: "\<forall>G \<in> set (G0 # rest). group_ok (length hits) ?al G" using gs(2) unfolding groups_ok_def by blast
  have n: "0 \<le> len'" "length hits' = length hits" using hybrid_fold_nonneg [OF f] 0 ok by simp_all
  note r = pass_resultD [OF hybrid_fold_spec [OF f gs(2) 0 gs(4)]]
  have nk: "\<not> kept hits G" if "G \<in> set rest" for G using gs(3) that by (simp add: kept_def)
  have none: "\<not> kept hits G" if "\<forall>g < length hits. hits ! g = None" "G \<in> set (G0 # rest)" for G
    using that ok by (cases G) (fastforce simp: kept_def group_ok_def)
  have al: "?al dvd len'" using inv r(6,7) none unfolding search_inv_def by blast
  have first: "covers_at_least hits' G0 len'" if full: "is_full_attention (fst G0)"
  proof (cases "kept hits G0")
    case True
    then have "\<not> (\<forall>g < length hits. hits ! g = None)" using none [of G0] by fastforce
    then have c: "covers_at_least hits G0 len" using inv full by (auto simp: search_inv_def)
    then show ?thesis using r(3) [OF _ True] r(1) unfolding covers_at_least_def by fastforce
  next
    case False
    then obtain m where "len' \<le> m" "covers hits' G0 m" using r(4) [of G0] by auto
    then show ?thesis by (rule covers_imp_at_least [rotated])
  qed
  show "len' \<le> len" by (rule r(1))
  show "length hits' = length hits" by (rule n(2))
  show "search_inv ?al G0 len' hits'" using n(1) al first by (simp add: search_inv_def)
  show "search_done ?al G0 rest len' hits'" if fin: "len \<le> len' \<or> (length rest = 1 \<and> is_full_attention (fst G0))"
  proof -
    have m: "covers hits' G len'" if G: "G \<in> set (G0 # rest)" "\<not> kept hits G" "G \<in> set rest \<or> len \<le> len'" for G
    proof (cases "len \<le> len'")
      case True
      then show ?thesis using r(4) [OF G(1,2)] r(1) by force
    next
      case False
      then have "rest = [G]" using fin G(3) by (cases rest) auto
      then show ?thesis using r(5) nk by auto
    qed
    have "covers hits' G0 len'" if nf: "\<not> is_full_attention (fst G0)"
      using m [of G0] nf fin by (simp add: kept_def)
    then show ?thesis using n(1) al first m nk by (auto simp: search_done_def)
  qed
qed

lemma hybrid_loop_spec:
  assumes loop: "hybrid_loop co hashes mh simple (len, hits, v) = Some (Inr (L, hits'))"
    and gs: "attention_groups co = G0 # rest" "groups_ok (length hits) (lcm_block_size co) (G0 # rest)"
      "\<forall>G \<in> set rest. \<not> is_full_attention (fst G)" "drop_honoured co 0 (G0 # rest)"
      "simple \<longrightarrow> length rest = 1 \<and> is_full_attention (fst G0)"
    and inv: "search_inv (lcm_block_size co) G0 len hits"
  shows "L \<le> len \<and> length hits' = length hits \<and> search_done (lcm_block_size co) G0 rest L hits'"
  using loop gs(2) inv
proof (induction "nat len" arbitrary: len hits v rule: less_induct)
  case less
  from less.prems(1) obtain len1 hits1 v1 where
    p: "hybrid_pass co hashes mh (len, hits, v) = Inr (len1, hits1, v1)"
    by (subst (asm) hybrid_loop.simps) (auto split: sum.splits)
  note r = pass_search [OF p gs(1) less.prems(2) gs(3,4) less.prems(3)]
  consider (stop) "len \<le> len1" "L = len" "hits' = hits1" | (simple) "\<not> len \<le> len1" simple "L = len1" "hits' = hits1"
    | (again) "\<not> len \<le> len1" "hybrid_loop co hashes mh simple (len1, hits1, v1) = Some (Inr (L, hits'))"
    using less.prems(1) p by (subst (asm) hybrid_loop.simps) (auto split: if_splits)
  then show ?case
  proof cases
    case stop
    then show ?thesis using r(1,2,4) by simp
  next
    case simple
    then show ?thesis using r(1,2,4) gs(5) by simp
  next
    case again
    have "0 \<le> len1" using r(3) by (simp add: search_inv_def)
    then show ?thesis using less.hyps [OF _ again(2) _ r(3)] again(1) less.prems(2) r(2) by simp
  qed
qed

lemma py_upto_length: "0 \<le> k \<Longrightarrow> k \<le> int (length b) \<Longrightarrow> int (length (py_upto b k)) = k"
  by (simp add: py_upto_def py_clip_def)

lemma truncate_hits_spec:
  assumes "distinct gids" "\<forall>g \<in> set gids. g < length hits"
  shows "length (truncate_hits gids n hits) = length hits \<and> (\<forall>g. truncate_hits gids n hits ! g =
    (if g \<in> set gids then map_option (\<lambda>b. py_upto b n) (hits ! g) else hits ! g))"
  using assms
proof (induction gids arbitrary: hits)
  case (Cons g gids)
  let ?h = "hits[g := map_option (\<lambda>b. py_upto b n) (hits ! g)]"
  have e: "truncate_hits (g # gids) n hits = truncate_hits gids n ?h" by (simp add: truncate_hits_def)
  show ?case using Cons.IH [of ?h] Cons.prems by (auto simp: e nth_list_update)
qed (simp add: truncate_hits_def)

lemma hybrid_find_spec:
  assumes find: "hybrid_find hashes mh co = Some (Inr (blks, L))" and mh: "0 \<le> mh"
    and gs: "attention_groups co = G0 # rest"
      "groups_ok (length (kv_cache_groups (coord_config co))) (lcm_block_size co) (G0 # rest)"
      "\<forall>G \<in> set rest. \<not> is_full_attention (fst G)" "drop_honoured co 0 (G0 # rest)"
  shows "0 \<le> L \<and> L \<le> mh \<and> lcm_block_size co dvd L \<and> length blks = length (kv_cache_groups (coord_config co))
    \<and> (\<forall>G \<in> set (G0 # rest). \<forall>g \<in> ids_of G. int (length (blks ! g)) * spec_block_size (fst G) = L)"
proof -
  let ?n = "length (kv_cache_groups (coord_config co))" and ?al = "lcm_block_size co"
  obtain spec0 gids0 c0 where G0: "G0 = (spec0, gids0, c0)" by (cases G0) auto
  from find obtain hits where
    l: "hybrid_loop co hashes mh (length (attention_groups co) = 2 \<and> is_full_attention spec0) (mh, replicate ?n None, {}) = Some (Inr (L, hits))"
    and b: "blks = map (\<lambda>h. case h of None \<Rightarrow> [] | Some b \<Rightarrow> b)
      (if is_full_attention spec0 then truncate_hits gids0 (L div spec_block_size spec0) hits else hits)"
    by (auto simp: hybrid_find_def gs(1) G0 bindE_eq_Inr Let_def)
  have "search_inv ?al G0 mh (replicate ?n None)" using mh by (simp add: search_inv_def)
  with hybrid_loop_spec [OF l gs(1)] gs have d: "L \<le> mh" "length hits = ?n" "search_done ?al G0 rest L hits"
    by (auto simp: G0)
  have ok: "group_ok ?n ?al G" if "G \<in> set (G0 # rest)" for G using gs(2) that unfolding groups_ok_def by blast
  have g0: "distinct gids0" "\<forall>g \<in> set gids0. g < length hits" "0 < spec_block_size spec0" "spec_block_size spec0 dvd L"
    using ok [of G0] d(2,3) by (auto simp: G0 group_ok_def lookup_spec_ok_def search_done_def intro: dvd_trans)
  note t = truncate_hits_spec [OF g0(1,2), of "L div spec_block_size spec0"]
  have len: "length blks = ?n" using b t d(2) by simp
  have "int (length (blks ! g)) * spec_block_size (fst G) = L" if G: "G \<in> set (G0 # rest)" "g \<in> ids_of G" for G g
  proof -
    have gl: "g < length hits" using ok [OF G(1)] G(2) d(2) by (cases G) (auto simp: group_ok_def)
    show ?thesis
    proof (cases "is_full_attention spec0 \<and> g \<in> set gids0")
      case True
      then obtain x where x: "hits ! g = Some x" "L \<le> int (length x) * spec_block_size spec0"
        using d(3) by (auto simp: search_done_def G0 covers_at_least_def)
      have "0 \<le> L div spec_block_size spec0" using d(3) g0(3) by (simp add: search_done_def pos_imp_zdiv_nonneg_iff)
      moreover have "L div spec_block_size spec0 \<le> int (length x)"
        using zdiv_mono1 [OF x(2) g0(3)] g0(3) by simp
      ultimately have "int (length (py_upto x (L div spec_block_size spec0))) = L div spec_block_size spec0"
        by (rule py_upto_length)
      moreover have "G = G0"
      proof (rule ccontr)
        assume "G \<noteq> G0"
        then have "G \<in> set rest" using G(1) by simp
        then show False using gs(2) G(2) True by (auto simp: groups_ok_Cons G0)
      qed
      ultimately show ?thesis using True t x(1) gl g0(4) b by (simp add: G0)
    next
      case False
      have "covers hits G L" using d(3) G False by (auto simp: search_done_def G0 split: if_splits)
      moreover have "blks ! g = (case hits ! g of None \<Rightarrow> [] | Some b \<Rightarrow> b)" using False t gl b by auto
      ultimately show ?thesis using G(2) by (auto simp: covers_def)
    qed
  qed
  then show ?thesis using d(1,3) len by (simp add: search_done_def)
qed

section \<open>The attention groups the constructor builds\<close>

lemma build_managers_class:
  "build_managers batched mml caching dcp pcp i gs p = Inr (ms, p') \<Longrightarrow>
   length ms = length gs \<and> (\<forall>j < length gs. \<exists>s. group_spec (gs ! j) = One_spec s
     \<and> spec_manager_map (spec_class s) = Inr (mgr_class (ms ! j)) \<and> mgr_spec (ms ! j) = s)"
proof (induction gs arbitrary: i p ms)
  case (Cons g gs)
  then obtain s m p1 ms1 where 1: "plain_spec (group_spec g) = Inr s"
    "get_manager_for_kv_cache_spec s batched mml caching (int i) dcp pcp p = Inr (m, p1)"
    "build_managers batched mml caching dcp pcp (Suc i) gs p1 = Inr (ms1, p')" "ms = m # ms1"
    by (auto simp: bindE_eq_Inr)
  have "group_spec g = One_spec s" using 1(1) by (cases "group_spec g") auto
  moreover have "spec_manager_map (spec_class s) = Inr (mgr_class m) \<and> mgr_spec m = s"
    using 1(2) by (auto simp: get_manager_for_kv_cache_spec_def bindE_eq_Inr Let_def base_manager_def sink_manager_init_def
        split: if_splits option.splits)
  ultimately show ?case using Cons.IH [OF 1(3)] 1(4) by (auto simp: less_Suc_eq_0_disj)
qed simp

text \<open>The groups built from the first \<open>i\<close> KV cache groups: their ids partition \<open>{..<i}\<close>.\<close>

definition partial_groups :: "kv_cache_group_spec list \<Rightarrow> manager list \<Rightarrow> nat \<Rightarrow> attn_group list \<Rightarrow> bool" where
  "partial_groups cfg ms i gs \<longleftrightarrow> distinct (map fst gs) \<and> sorted_wrt (\<lambda>G G'. ids_of G \<inter> ids_of G' = {}) gs
     \<and> (\<forall>G \<in> set gs. fst (snd G) \<noteq> [] \<and> distinct (fst (snd G)))
     \<and> (\<Union>G \<in> set gs. ids_of G) = {..<i}
     \<and> (\<forall>G \<in> set gs. \<forall>g \<in> ids_of G. group_spec (cfg ! g) = One_spec (fst G) \<and> mgr_class (ms ! g) = snd (snd G))"

lemma add_to_groups_cases:
  assumes "add_to_groups spec i c (G # gs) = Inr gs'"
  obtains (same) "fst G = spec" "snd (snd G) = c" "gs' = (spec, fst (snd G) @ [i], c) # gs"
    | (other) gs1 where "fst G \<noteq> spec" "add_to_groups spec i c gs = Inr gs1" "gs' = G # gs1"
  using assms by (cases G) (auto simp: bindE_eq_Inr split: if_splits)

lemma add_to_groups_ids: "add_to_groups spec i c gs = Inr gs' \<Longrightarrow> (\<Union>G \<in> set gs'. ids_of G) = insert i (\<Union>G \<in> set gs. ids_of G)"
proof (induction gs arbitrary: gs')
  case (Cons G gs)
  from Cons.prems show ?case
  proof (cases rule: add_to_groups_cases)
    case same
    then show ?thesis by auto
  next
    case (other gs1)
    then show ?thesis using Cons.IH by auto
  qed
qed auto

lemma add_to_groups_disjoint:
  "add_to_groups spec i c gs = Inr gs' \<Longrightarrow> i \<notin> (\<Union>G \<in> set gs. ids_of G) \<Longrightarrow>
   sorted_wrt (\<lambda>G G'. ids_of G \<inter> ids_of G' = {}) gs \<Longrightarrow> sorted_wrt (\<lambda>G G'. ids_of G \<inter> ids_of G' = {}) gs'"
proof (induction gs arbitrary: gs')
  case (Cons G gs)
  from Cons.prems(1) show ?case
  proof (cases rule: add_to_groups_cases)
    case same
    then show ?thesis using Cons.prems(2,3) by auto
  next
    case (other gs1)
    have "ids_of G \<inter> ids_of G' = {}" if "G' \<in> set gs1" for G'
    proof -
      have "ids_of G' \<subseteq> insert i (\<Union>H \<in> set gs. ids_of H)" using add_to_groups_ids [OF other(2)] that by blast
      then show ?thesis using Cons.prems(2,3) by fastforce
    qed
    then show ?thesis using other Cons.IH [OF other(2)] Cons.prems(2,3) by simp
  qed
qed auto

lemma add_to_groups_mem:
  "add_to_groups spec i c gs = Inr gs' \<Longrightarrow> G' \<in> set gs' \<Longrightarrow> G' \<in> set gs \<or> (fst G' = spec \<and> snd (snd G') = c
      \<and> (fst (snd G') = [i] \<or> (\<exists>G \<in> set gs. fst G = spec \<and> snd (snd G) = c \<and> fst (snd G') = fst (snd G) @ [i])))"
proof (induction gs arbitrary: gs')
  case (Cons G gs)
  from Cons.prems(1) show ?case
  proof (cases rule: add_to_groups_cases)
    case same
    then show ?thesis using Cons.prems(2) by (cases "G' = (spec, fst (snd G) @ [i], c)") auto
  next
    case (other gs1)
    then show ?thesis using Cons.IH [OF other(2)] Cons.prems(2) by (cases "G' = G") (simp, fastforce)
  qed
qed auto

lemma add_to_groups_specs:
  "add_to_groups spec i c gs = Inr gs' \<Longrightarrow> distinct (map fst gs) \<Longrightarrow>
   distinct (map fst gs') \<and> set (map fst gs') = insert spec (set (map fst gs))"
proof (induction gs arbitrary: gs')
  case (Cons G gs)
  from Cons.prems(1) show ?case
  proof (cases rule: add_to_groups_cases)
    case same
    then show ?thesis using Cons.prems(2) by auto
  next
    case (other gs1)
    then show ?thesis using Cons.IH [OF other(2)] Cons.prems(2) by auto
  qed
qed auto

lemma add_to_groups_partial:
  assumes pg: "partial_groups cfg ms i gs" and add: "add_to_groups s i c gs = Inr gs'"
    and "group_spec (cfg ! i) = One_spec s" "mgr_class (ms ! i) = c"
  shows "partial_groups cfg ms (Suc i) gs'"
proof -
  note a = add_to_groups_mem [OF add] add_to_groups_ids [OF add] add_to_groups_disjoint [OF add]
  have i: "i \<notin> (\<Union>G \<in> set gs. ids_of G)" using pg by (simp add: partial_groups_def)
  have "(\<Union>G \<in> set gs'. ids_of G) = {..<Suc i}" using a(2) pg by (simp add: partial_groups_def lessThan_Suc)
  moreover have "fst (snd G') \<noteq> [] \<and> distinct (fst (snd G'))
      \<and> (\<forall>g \<in> ids_of G'. group_spec (cfg ! g) = One_spec (fst G') \<and> mgr_class (ms ! g) = snd (snd G'))" if "G' \<in> set gs'" for G'
    using a(1) [OF that] pg i assms(3,4) by (elim disjE conjE bexE) (auto simp: partial_groups_def)
  moreover have "distinct (map fst gs')" using add_to_groups_specs [OF add] pg by (simp add: partial_groups_def)
  ultimately show ?thesis using a(3) [OF i] pg by (simp add: partial_groups_def)
qed

lemma split_groups_partial:
  assumes "split_groups i gs ms acc = Inr res" "partial_groups cfg ms i acc" "gs = drop i cfg" "i \<le> length cfg" "length ms = length cfg"
  shows "partial_groups cfg ms (length cfg) res"
  using assms
proof (induction gs arbitrary: i acc)
  case (Cons g gs)
  then have i: "i < length cfg" "g = cfg ! i" "gs = drop (Suc i) cfg" by (auto simp: drop_eq_Nil2 intro: leI) (metis Cons_nth_drop_Suc leI list.inject drop_all list.distinct(1))+
  from Cons.prems(1) obtain s acc1 where 1: "group_spec g = One_spec s" "add_to_groups s i (mgr_class (ms ! i)) acc = Inr acc1"
    "split_groups (Suc i) gs ms acc1 = Inr res" using i Cons.prems(5)
    by (auto simp: bindE_eq_Inr elim: plain_spec.elims)
  from Cons.IH [OF 1(3) add_to_groups_partial [OF Cons.prems(2) 1(2)] i(3)] 1(1) i Cons.prems(5) show ?case by simp
qed simp

lemma lcm_list_dvd: "x \<in> set xs \<Longrightarrow> x dvd lcm_list xs"
  by (induction xs) (auto simp: lcm_list_def intro: dvd_trans)

lemma disjoint_any:
  "sorted_wrt (\<lambda>G G'. ids_of G \<inter> ids_of G' = {}) gs \<Longrightarrow> G \<in> set gs \<Longrightarrow> G' \<in> set gs \<Longrightarrow> G \<noteq> G' \<Longrightarrow> ids_of G \<inter> ids_of G' = {}"
  by (induction gs) auto

text \<open>What the constructed coordinator knows, in terms of its configuration.\<close>

definition hybrid_ok :: "kv_coordinator \<Rightarrow> bool" where
  "hybrid_ok co \<longleftrightarrow> (let cfg = kv_cache_groups (coord_config co); gs = attention_groups co
     in groups_ok (length cfg) (lcm_block_size co) gs \<and> gs \<noteq> [] \<and> (\<Union>G \<in> set gs. ids_of G) = {..<length cfg}
      \<and> (\<forall>G \<in> set gs. spec_manager_map (spec_class (fst G)) = Inr (snd (snd G))
            \<and> (\<forall>g \<in> ids_of G. group_spec (cfg ! g) = One_spec (fst G)))
      \<and> distinct (map fst gs)
      \<and> (\<exists>fs ns. gs = fs @ ns \<and> (\<forall>G \<in> set fs. is_full_attention (fst G)) \<and> (\<forall>G \<in> set ns. \<not> is_full_attention (fst G)))
      \<and> (\<forall>i \<in> eagle_attn_group_indices co. i < length gs \<and> ids_of (gs ! i) \<inter> eagle_group_ids co \<noteq> {}))"

lemma verify_and_split_ok:
  assumes v: "verify_and_split_kv_cache_groups co0 = Inr co"
    and ms: "length (single_type_managers co0) = length (kv_cache_groups (coord_config co0))"
      "\<forall>j < length (kv_cache_groups (coord_config co0)). \<exists>s. group_spec (kv_cache_groups (coord_config co0) ! j) = One_spec s
         \<and> spec_manager_map (spec_class s) = Inr (mgr_class (single_type_managers co0 ! j)) \<and> lookup_spec_ok s"
  shows "hybrid_ok co"
proof -
  let ?cfg = "kv_cache_groups (coord_config co0)" and ?ms = "single_type_managers co0"
  let ?F = "\<lambda>(s, _, _). is_full_attention s"
  from v obtain gs where 1: "split_groups 0 ?cfg ?ms [] = Inr gs" "1 < length gs"
    and co: "coord_config co = coord_config co0" "eagle_group_ids co = eagle_group_ids co0"
      "attention_groups co = filter ?F gs @ filter (\<lambda>G. \<not> ?F G) gs"
      "lcm_block_size co = lcm_list (map (\<lambda>(s, _, _). spec_block_size s) gs)"
      "eagle_attn_group_indices co = set (filter (\<lambda>i. list_ex (\<lambda>gid. gid \<in> eagle_group_ids co0)
         (fst (snd (attention_groups co ! i)))) [0..<length (attention_groups co)])"
    by (auto simp: verify_and_split_kv_cache_groups_def bindE_eq_Inr Let_def case_prod_unfold)
  have pg: "partial_groups ?cfg ?ms (length ?cfg) gs"
    by (rule split_groups_partial [OF 1(1)]) (simp_all add: partial_groups_def ms)
  let ?gs = "attention_groups co"
  have set: "set ?gs = set gs" unfolding co(3) by auto
  have spec: "spec_manager_map (spec_class (fst G)) = Inr (snd (snd G)) \<and> lookup_spec_ok (fst G)
      \<and> (\<forall>g \<in> ids_of G. g < length ?cfg \<and> group_spec (?cfg ! g) = One_spec (fst G))" if G: "G \<in> set gs" for G
  proof -
    obtain g where g: "g \<in> ids_of G" using pg G by (auto simp: partial_groups_def) (metis hd_in_set)
    have lt: "x < length ?cfg" if "x \<in> ids_of G" for x using pg G that by (auto simp: partial_groups_def)
    have "group_spec (?cfg ! x) = One_spec (fst G)" "mgr_class (?ms ! x) = snd (snd G)" if "x \<in> ids_of G" for x
      using pg G that by (auto simp: partial_groups_def)
    then show ?thesis using ms(2) lt g by (metis group_spec.inject(1))
  qed
  have "sorted_wrt (\<lambda>G G'. ids_of G \<inter> ids_of G' = {}) ?gs"
  proof -
    have srt: "sorted_wrt (\<lambda>G G'. ids_of G \<inter> ids_of G' = {}) gs" using pg by (simp add: partial_groups_def)
    have "ids_of G \<inter> ids_of G' = {}" if "G \<in> set gs" "?F G" "G' \<in> set gs" "\<not> ?F G'" for G G'
      by (rule disjoint_any [OF srt that(1,3)]) (use that(2,4) in blast)
    then show ?thesis unfolding co(3) sorted_wrt_append using srt by (simp add: sorted_wrt_filter)
  qed
  moreover have "group_ok (length ?cfg) (lcm_block_size co) G" if G: "G \<in> set gs" for G
  proof -
    have "spec_block_size (fst G) \<in> set (map (\<lambda>(s, _, _). spec_block_size s) gs)" using G by (auto simp: case_prod_unfold)
    then have "spec_block_size (fst G) dvd lcm_block_size co" unfolding co(4) by (rule lcm_list_dvd)
    then show ?thesis using spec [OF G] pg G by (auto simp: group_ok_def partial_groups_def case_prod_unfold)
  qed
  ultimately have "groups_ok (length ?cfg) (lcm_block_size co) ?gs" by (simp add: groups_ok_def set)
  moreover have "?gs \<noteq> []" using 1(2) set by auto
  moreover have "(\<Union>G \<in> set ?gs. ids_of G) = {..<length ?cfg}" using pg unfolding set by (simp add: partial_groups_def)
  moreover have "distinct (map fst ?gs)"
    using pg unfolding co(3) by (auto simp: partial_groups_def distinct_map inj_on_def)
  moreover have "\<exists>fs ns. ?gs = fs @ ns \<and> (\<forall>G \<in> set fs. is_full_attention (fst G)) \<and> (\<forall>G \<in> set ns. \<not> is_full_attention (fst G))"
    unfolding co(3) by (intro exI conjI, rule refl) auto
  moreover have "i < length ?gs \<and> ids_of (?gs ! i) \<inter> eagle_group_ids co \<noteq> {}" if "i \<in> eagle_attn_group_indices co" for i
    using that unfolding co(5) co(2) by (auto simp: list_ex_iff)
  ultimately show ?thesis using spec unfolding hybrid_ok_def Let_def co(1) set by blast
qed

lemma hybrid_init_ok:
  assumes i: "hybrid_init config mml batched use_eagle caching events use_int dcp pcp hbs = Inr co"
    and s: "\<forall>g \<in> set (kv_cache_groups config). \<forall>s. group_spec g = One_spec s \<longrightarrow> lookup_spec_ok s"
  shows "hybrid_ok co \<and> coord_kind co = Hybrid \<and> coord_config co = config"
proof -
  from i obtain co0 where 1: "coordinator_base_init config mml batched use_eagle caching events use_int dcp pcp hbs = Inr co0"
    and 2: "verify_and_split_kv_cache_groups (co0\<lparr>coord_kind := Hybrid\<rparr>) = Inr co"
    by (auto simp: hybrid_init_def bindE_eq_Inr)
  from 1 obtain p ms p1 where b: "build_managers batched mml caching dcp pcp 0 (kv_cache_groups config) p = Inr (ms, p1)"
    and co0: "single_type_managers co0 = ms" "coord_config co0 = config"
    by (auto simp: coordinator_base_init_def bindE_eq_Inr Let_def)
  note m = build_managers_class [OF b]
  have "hybrid_ok co"
    by (rule verify_and_split_ok [OF 2]) (use m s co0 in \<open>auto, metis nth_mem\<close>)
  moreover have "coord_kind co = Hybrid" "coord_config co = config"
    using 2 co0 by (auto simp: verify_and_split_kv_cache_groups_def bindE_eq_Inr Let_def)
  ultimately show ?thesis by blast
qed

section \<open>Properties of the prefix search\<close>

text \<open>Two groups, one of full attention and one of another class, with blocks of four tokens.\<close>

definition demo_config :: "spec_class \<Rightarrow> kv_cache_config" where
  "demo_config c = \<lparr>num_blocks = 8, kv_cache_tensors = [],
     kv_cache_groups = [\<lparr>layer_names = [''l0''], group_spec = One_spec (demo_spec FullAttentionSpec), is_eagle_group = False\<rparr>,
                        \<lparr>layer_names = [''l1''], group_spec = One_spec (demo_spec c), is_eagle_group = False\<rparr>]\<rparr>"

lemma demo_spec_simps [simp]:
  "spec_class (demo_spec c) = c" "spec_block_size (demo_spec c) = 4" "window_of (demo_spec c) = 4"
  "is_full_attention (demo_spec c) \<longleftrightarrow> c \<in> {FullAttentionSpec, TQFullAttentionSpec, MLAAttentionSpec, SinkFullAttentionSpec}"
  "is_sliding_window (demo_spec c) \<longleftrightarrow> c \<in> {SlidingWindowSpec, SlidingWindowMLASpec}"
  "demo_spec c = demo_spec c' \<longleftrightarrow> c = c'"
  by (auto simp: demo_spec_def empty_spec_def is_full_attention_def is_sliding_window_def window_of_def dest: arg_cong [of _ _ spec_class])

lemma demo_lookup_ok: "c \<noteq> ChunkedLocalAttentionSpec \<Longrightarrow> lookup_spec_ok (demo_spec c)"
  by (simp add: lookup_spec_ok_def has_class_def)

lemma demo_hybrid_init:
  assumes "c = SlidingWindowSpec \<and> k = SlidingWindowManager \<or> c = MambaSpec \<and> k = MambaManager"
  shows "\<exists>co. hybrid_init (demo_config c) 100 8 eagle True False False 1 1 4 = Inr co
    \<and> attention_groups co = [(demo_spec FullAttentionSpec, [0], FullAttentionManager), (demo_spec c, [1], k)]
    \<and> lcm_block_size co = 4 \<and> coord_hash_block_size co = 4 \<and> coord_config co = demo_config c
    \<and> eagle_group_ids co = (if eagle then {0, 1} else {}) \<and> eagle_attn_group_indices co = (if eagle then {0, 1} else {})"
proof -
  obtain p where p: "block_pool_init 8 True 4 False False = Inr p" using block_pool_init_spec [of 8 True 4 False False] by auto
  have two: "[0..<Suc (Suc 0)] = [0, Suc 0]" by (simp add: upt_conv_Cons)
  show ?thesis
    using assms unfolding hybrid_init_def coordinator_base_init_def
    by (elim disjE conjE; cases eagle)
      (simp_all add: demo_config_def p get_manager_for_kv_cache_spec_def spec_manager_map_def has_class_def
        verify_and_split_kv_cache_groups_def py_index_def base_manager_def lcm_list_def Let_def two insert_commute
        del: set_filter set_upt)
qed

text \<open>
  C27. The search of the hybrid coordinator for a hit length all groups accept always returns:
  for every coordinator the constructor builds from specifications with positive sizes, whatever
  the pool holds by then and whatever the classes of the layers, the loop ends.
\<close>

theorem hybrid_search_returns:
  assumes "hybrid_init config mml batched use_eagle caching events use_int dcp pcp hbs = Inr co"
    and "\<forall>g \<in> set (kv_cache_groups config). \<forall>s. group_spec g = One_spec s \<longrightarrow> lookup_spec_ok s" "0 \<le> max_hit"
  shows "\<exists>r. coord_find_longest_cache_hit hashes max_hit (co\<lparr>single_type_managers := ms, coord_pool := p\<rparr>) = Some r"
proof -
  let ?co = "co\<lparr>single_type_managers := ms, coord_pool := p\<rparr>"
  have h: "hybrid_ok co" "coord_kind co = Hybrid" using hybrid_init_ok [OF assms(1,2)] by simp_all
  obtain spec0 gids0 c0 rest where gs: "attention_groups co = (spec0, gids0, c0) # rest"
    using h(1) by (cases "attention_groups co") (auto simp: hybrid_ok_def Let_def)
  have "\<forall>G \<in> set (attention_groups ?co). group_ok (length (replicate (length (kv_cache_groups (coord_config co))) None)) (lcm_block_size ?co) G"
    using h(1) by (simp add: hybrid_ok_def groups_ok_def Let_def)
  then have "\<exists>r. hybrid_loop ?co hashes max_hit simple (max_hit, replicate (length (kv_cache_groups (coord_config co))) None, {}) = Some r" for simple
    using hybrid_loop_returns [of ?co "(max_hit, replicate (length (kv_cache_groups (coord_config co))) None, {})" hashes max_hit simple]
      assms(3) by simp
  then show ?thesis using h(2) gs by (auto simp: coord_find_longest_cache_hit_def hybrid_find_def)
qed

theorem hybrid_search_returns_witness:
  "\<exists>co r. hybrid_init (demo_config MambaSpec) 100 8 True True False False 1 1 4 = Inr co
    \<and> coord_find_longest_cache_hit [[7], [8]] 12 co = Some r"
proof -
  obtain co where co: "hybrid_init (demo_config MambaSpec) 100 8 True True False False 1 1 4 = Inr co"
    using demo_hybrid_init [of MambaSpec MambaManager True] by auto
  have "co\<lparr>single_type_managers := single_type_managers co, coord_pool := coord_pool co\<rparr> = co" by simp
  then show ?thesis
    using hybrid_search_returns [OF co, of 12 "[[7], [8]]" "coord_pool co" "single_type_managers co"] co
    by (auto simp: demo_config_def demo_lookup_ok)
qed

lemma hybrid_okD:
  assumes "hybrid_ok co"
  shows "groups_ok (length (kv_cache_groups (coord_config co))) (lcm_block_size co) (attention_groups co)" "attention_groups co \<noteq> []"
    "(\<Union>G \<in> set (attention_groups co). ids_of G) = {..<length (kv_cache_groups (coord_config co))}" "distinct (map fst (attention_groups co))"
    "\<And>G g. G \<in> set (attention_groups co) \<Longrightarrow> g \<in> ids_of G \<Longrightarrow> group_spec (kv_cache_groups (coord_config co) ! g) = One_spec (fst G)"
    "\<And>G. G \<in> set (attention_groups co) \<Longrightarrow> spec_manager_map (spec_class (fst G)) = Inr (snd (snd G))"
    "\<And>i. i \<in> eagle_attn_group_indices co \<Longrightarrow> i < length (attention_groups co) \<and> ids_of (attention_groups co ! i) \<inter> eagle_group_ids co \<noteq> {}"
    "\<exists>fs ns. attention_groups co = fs @ ns \<and> (\<forall>G \<in> set fs. is_full_attention (fst G)) \<and> (\<forall>G \<in> set ns. \<not> is_full_attention (fst G))"
  using assms unfolding hybrid_ok_def Let_def by blast+

lemma group_ok_mem: "group_ok n al G \<Longrightarrow> hd (fst (snd G)) \<in> ids_of G \<and> hd (fst (snd G)) < n"
  by (cases G) (simp add: group_ok_def)

text \<open>Specifications of full attention come first; if they are all the same, only the first group is one.\<close>

lemma hybrid_one_full:
  assumes h: "hybrid_ok co" and gs: "attention_groups co = G0 # rest"
    and one: "\<And>g g' s s'. g < length (kv_cache_groups (coord_config co)) \<Longrightarrow> g' < length (kv_cache_groups (coord_config co)) \<Longrightarrow>
      group_spec (kv_cache_groups (coord_config co) ! g) = One_spec s \<Longrightarrow> group_spec (kv_cache_groups (coord_config co) ! g') = One_spec s' \<Longrightarrow>
      is_full_attention s \<Longrightarrow> is_full_attention s' \<Longrightarrow> s = s'"
  shows "\<forall>G \<in> set rest. \<not> is_full_attention (fst G)"
proof (rule ccontr)
  note d = hybrid_okD [OF h]
  assume "\<not> ?thesis"
  then obtain G where G: "G \<in> set rest" "is_full_attention (fst G)" by blast
  have mem: "G \<in> set (attention_groups co)" "G0 \<in> set (attention_groups co)" using G(1) gs by auto
  obtain fs ns where fn: "attention_groups co = fs @ ns" "\<forall>G \<in> set fs. is_full_attention (fst G)"
    "\<forall>G \<in> set ns. \<not> is_full_attention (fst G)" using d(8) by blast
  have f0: "is_full_attention (fst G0)"
  proof (cases fs)
    case Nil
    then show ?thesis using fn(1,3) mem(1) G(2) by auto
  next
    case (Cons F fs')
    then have "F = G0" using fn(1) gs by simp
    then show ?thesis using fn(2) Cons by simp
  qed
  have ne: "\<exists>g. g \<in> ids_of H \<and> g < length (kv_cache_groups (coord_config co))" if "H \<in> set (attention_groups co)" for H
    using d(1) that group_ok_mem [of _ _ H] by (meson groups_ok_def)
  obtain g g0 where g: "g \<in> ids_of G" "g < length (kv_cache_groups (coord_config co))"
    "g0 \<in> ids_of G0" "g0 < length (kv_cache_groups (coord_config co))" using ne [OF mem(1)] ne [OF mem(2)] by blast
  have "fst G = fst G0" by (rule one [OF g(2,4) d(5) [OF mem(1) g(1)] d(5) [OF mem(2) g(3)] G(2) f0])
  then show False using d(4) imageI [OF G(1), of fst] unfolding gs by simp
qed

lemma hybrid_drop_honoured:
  assumes h: "hybrid_ok co" and no: "\<And>i s. i \<in> eagle_group_ids co \<Longrightarrow>
      group_spec (kv_cache_groups (coord_config co) ! i) = One_spec s \<Longrightarrow> \<not> has_class MambaSpec s"
  shows "drop_honoured co 0 (attention_groups co)"
  unfolding drop_honoured_def
proof (intro allI impI)
  note d = hybrid_okD [OF h]
  fix j assume j: "j < length (attention_groups co)" "0 + j \<in> eagle_attn_group_indices co"
  let ?G = "attention_groups co ! j"
  have mem: "?G \<in> set (attention_groups co)" using j(1) by simp
  obtain i where i: "i \<in> ids_of ?G" "i \<in> eagle_group_ids co" using d(7) [of j] j(2) by auto
  have "spec_class (fst ?G) \<noteq> MambaSpec" using no [OF i(2) d(5) [OF mem i(1)]] by (simp add: has_class_def)
  then show "snd (snd ?G) \<noteq> MambaManager"
    using d(6) [OF mem] by (cases "spec_class (fst ?G)") (auto simp: spec_manager_map_def)
qed

text \<open>
  C26. When the model has a single kind of full attention and no state-space layer is asked for
  the EAGLE drop, the hit of the hybrid coordinator is consistent: every KV cache group gets a
  list of blocks that covers exactly the returned number of tokens, which is within the limit
  and a multiple of the block size of every group.
\<close>

theorem hybrid_hit_consistent:
  assumes "hybrid_init config mml batched use_eagle caching events use_int dcp pcp hbs = Inr co"
    and "\<forall>g \<in> set (kv_cache_groups config). \<forall>s. group_spec g = One_spec s \<longrightarrow> lookup_spec_ok s" "0 \<le> max_hit"
    and "\<forall>g \<in> set (kv_cache_groups config). \<forall>g' \<in> set (kv_cache_groups config). \<forall>s s'. group_spec g = One_spec s
      \<longrightarrow> group_spec g' = One_spec s' \<longrightarrow> is_full_attention s \<longrightarrow> is_full_attention s' \<longrightarrow> s = s'"
    and "\<forall>i \<in> eagle_group_ids co. \<forall>s. group_spec (kv_cache_groups config ! i) = One_spec s \<longrightarrow> \<not> has_class MambaSpec s"
    and "coord_find_longest_cache_hit hashes max_hit (co\<lparr>single_type_managers := ms, coord_pool := p\<rparr>) = Some (Inr (blks, L))"
  shows "0 \<le> L \<and> L \<le> max_hit \<and> length blks = length (kv_cache_groups config)
    \<and> (\<forall>g < length (kv_cache_groups config).
         int (length (blks ! g)) * group_block_size (group_spec (kv_cache_groups config ! g)) = L)"
proof -
  let ?co = "co\<lparr>single_type_managers := ms, coord_pool := p\<rparr>" and ?cfg = "kv_cache_groups config"
  have h: "hybrid_ok co" "coord_kind co = Hybrid" "coord_config co = config" using hybrid_init_ok [OF assms(1,2)] by simp_all
  note d = hybrid_okD [OF h(1), unfolded h(3)]
  obtain G0 rest where gs: "attention_groups co = G0 # rest" using d(2) by (cases "attention_groups co") auto
  have nonfull: "\<forall>G \<in> set rest. \<not> is_full_attention (fst G)"
  proof (rule hybrid_one_full [OF h(1) gs], unfold h(3))
    fix g g' s s'
    assume a: "g < length ?cfg" "g' < length ?cfg" "group_spec (?cfg ! g) = One_spec s" "group_spec (?cfg ! g') = One_spec s'"
      "is_full_attention s" "is_full_attention s'"
    show "s = s'" by (rule assms(4) [rule_format, OF nth_mem [OF a(1)] nth_mem [OF a(2)] a(3-6)])
  qed
  have "drop_honoured co 0 (attention_groups co)"
    by (rule hybrid_drop_honoured [OF h(1)]) (use assms(5) h(3) in simp)
  then have dh: "drop_honoured ?co 0 (G0 # rest)" by (simp add: gs drop_honoured_def)
  have f: "hybrid_find hashes max_hit ?co = Some (Inr (blks, L))"
    using assms(6) h(2) by (simp add: coord_find_longest_cache_hit_def)
  have g: "attention_groups ?co = G0 # rest" "groups_ok (length (kv_cache_groups (coord_config ?co))) (lcm_block_size ?co) (G0 # rest)"
    using d(1) gs h(3) by simp_all
  have R: "0 \<le> L \<and> L \<le> max_hit \<and> lcm_block_size ?co dvd L \<and> length blks = length (kv_cache_groups (coord_config ?co))
    \<and> (\<forall>G \<in> set (G0 # rest). \<forall>g \<in> ids_of G. int (length (blks ! g)) * spec_block_size (fst G) = L)"
    by (rule hybrid_find_spec [OF f assms(3) g nonfull dh])
  then have r: "0 \<le> L" "L \<le> max_hit" "length blks = length ?cfg" using h(3) by simp_all
  have r4: "int (length (blks ! g)) * spec_block_size (fst G) = L" if "G \<in> set (attention_groups co)" "g \<in> ids_of G" for G g
    using R that unfolding gs by blast
  have "int (length (blks ! g)) * group_block_size (group_spec (?cfg ! g)) = L" if "g < length ?cfg" for g
  proof -
    have "g \<in> (\<Union>G \<in> set (attention_groups co). ids_of G)" unfolding d(3) using that by simp
    then obtain G where G: "G \<in> set (attention_groups co)" "g \<in> ids_of G" by blast
    then show ?thesis using r4 [OF G] d(5) [OF G] by simp
  qed
  then show ?thesis using r by simp
qed

text \<open>A pool of eight blocks that caches the hashes \<open>[7]\<close>, \<open>[8]\<close> and \<open>[9]\<close> for the first groups.\<close>

definition demo_cached_pool :: block_pool where
  "demo_cached_pool = (demo_pool 8)\<lparr>cached_block_hash_to_block :=
     [(h @ be_bytes 4 g, One_block (Blk (nat (3 * g) + i))). g \<leftarrow> [0, 1], (h, i) \<leftarrow> [([7], 1), ([8], 2), ([9], 3)]]
       @ [([8] @ be_bytes 4 2, One_block (Blk 7))]\<rparr>"

lemmas lookup_eval = get_cached_block_def make_block_hash_with_group_id_def int_to_bytes_def get_one_block_def dict_get_def eval_nat_numeral

lemma demo_cached:
  "get_cached_block [7] [0] demo_cached_pool = Inr (Some [Blk 1])" "get_cached_block [8] [0] demo_cached_pool = Inr (Some [Blk 2])"
  "get_cached_block [9] [0] demo_cached_pool = Inr (Some [Blk 3])" "get_cached_block [7] [1] demo_cached_pool = Inr (Some [Blk 4])"
  "get_cached_block [8] [1] demo_cached_pool = Inr (Some [Blk 5])" "get_cached_block [9] [1] demo_cached_pool = Inr (Some [Blk 6])"
  "get_cached_block [9] [2] demo_cached_pool = Inr None" "get_cached_block [8] [2] demo_cached_pool = Inr (Some [Blk 7])"
  by (simp_all add: lookup_eval demo_cached_pool_def)

lemma demo_cached_null: "null_block demo_cached_pool = Blk 0"
  using demo_pool_init(2) [of 8] by (simp add: demo_cached_pool_def pool_inv_def pool_core_def ids_ok_def)

lemmas hit_eval = hybrid_find_def hybrid_loop.simps hybrid_pass_def hybrid_step_def hash_seq_for_def find_longest_cache_hit_def
  full_find_longest_cache_hit_def mamba_find_longest_cache_hit_def sliding_find_longest_cache_hit_def has_class_def
  append_hits_def pop_all_def set_hits_def store_hits_def truncate_hits_def align_pop.simps py_index_def py_upto_def py_clip_def
  eval_nat_numeral Let_def

text \<open>
  C36. With EAGLE, a hybrid model of full attention and state-space layers gets an inconsistent
  hit: the lookup of the state-space group ignores the drop and lifts the length back to twelve
  tokens, so that the hit claims three blocks, but the full-attention group gets two.
\<close>

theorem mamba_hit_exceeds_attention:
  assumes "hybrid_init (demo_config MambaSpec) 100 8 True True False False 1 1 4 = Inr co"
    and "get_cached_block k0 [0] p = Inr (Some [a])" "get_cached_block k1 [0] p = Inr (Some [b])" "get_cached_block k2 [0] p = Inr (Some [c])"
    and "get_cached_block k2 [1] p = Inr (Some [s])"
  shows "coord_find_longest_cache_hit [k0, k1, k2] 12 (co\<lparr>coord_pool := p\<rparr>) = Some (Inr ([[a, b], [null_block p, null_block p, s]], 12))"
proof -
  have g: "attention_groups co = [(demo_spec FullAttentionSpec, [0], FullAttentionManager), (demo_spec MambaSpec, [1], MambaManager)]"
    "lcm_block_size co = 4" "coord_hash_block_size co = 4" "coord_config co = demo_config MambaSpec" "eagle_attn_group_indices co = {0, 1}"
    using demo_hybrid_init [of MambaSpec MambaManager True] assms(1) by auto
  have "coord_kind co = Hybrid" using hybrid_init_ok [OF assms(1)] by (auto simp: demo_config_def demo_lookup_ok)
  then show ?thesis using g assms(2-)
    by (simp add: coord_find_longest_cache_hit_def hit_eval demo_config_def)
qed

theorem mamba_hit_exceeds_attention_witness:
  "\<exists>co. hybrid_init (demo_config MambaSpec) 100 8 True True False False 1 1 4 = Inr co
    \<and> coord_find_longest_cache_hit [[7], [8], [9]] 12 (co\<lparr>coord_pool := demo_cached_pool\<rparr>)
        = Some (Inr ([[Blk 1, Blk 2], [Blk 0, Blk 0, Blk 6]], 12))"
proof -
  obtain co where co: "hybrid_init (demo_config MambaSpec) 100 8 True True False False 1 1 4 = Inr co"
    using demo_hybrid_init [of MambaSpec MambaManager True] by auto
  then show ?thesis using mamba_hit_exceeds_attention [OF co demo_cached(1-3,6)] by (simp add: demo_cached_null)
qed

text \<open>Two kinds of full attention and a sliding window.\<close>

definition demo_config3 :: kv_cache_config where
  "demo_config3 = (demo_config MLAAttentionSpec)\<lparr>kv_cache_groups := kv_cache_groups (demo_config MLAAttentionSpec)
     @ [\<lparr>layer_names = [''l2''], group_spec = One_spec (demo_spec SlidingWindowSpec), is_eagle_group = False\<rparr>]\<rparr>"

lemma demo_hybrid_init3:
  "\<exists>co. hybrid_init demo_config3 100 8 False True False False 1 1 4 = Inr co \<and> coord_kind co = Hybrid
    \<and> attention_groups co = [(demo_spec FullAttentionSpec, [0], FullAttentionManager), (demo_spec MLAAttentionSpec, [1], FullAttentionManager),
        (demo_spec SlidingWindowSpec, [2], SlidingWindowManager)]
    \<and> lcm_block_size co = 4 \<and> coord_hash_block_size co = 4 \<and> coord_config co = demo_config3 \<and> eagle_attn_group_indices co = {}"
proof -
  obtain p where p: "block_pool_init 8 True 4 False False = Inr p" using block_pool_init_spec [of 8 True 4 False False] by auto
  have three: "[0..<Suc (Suc (Suc 0))] = [0, Suc 0, Suc (Suc 0)]" by (simp add: upt_conv_Cons)
  show ?thesis
    unfolding hybrid_init_def coordinator_base_init_def
    by (simp add: demo_config_def demo_config3_def p get_manager_for_kv_cache_spec_def spec_manager_map_def has_class_def
        verify_and_split_kv_cache_groups_def py_index_def base_manager_def lcm_list_def Let_def three del: set_filter set_upt)
qed

text \<open>
  C37. With two different kinds of full attention, only the blocks of the first one are cut
  back to the hit length: here the sliding window accepts eight tokens, and the second
  full-attention group still gets three blocks of four tokens.
\<close>

theorem second_full_group_untruncated:
  assumes "hybrid_init demo_config3 100 8 False True False False 1 1 4 = Inr co"
    and "get_cached_block k0 [0] p = Inr (Some [a0])" "get_cached_block k1 [0] p = Inr (Some [a1])" "get_cached_block k2 [0] p = Inr (Some [a2])"
    and "get_cached_block k0 [1] p = Inr (Some [b0])" "get_cached_block k1 [1] p = Inr (Some [b1])" "get_cached_block k2 [1] p = Inr (Some [b2])"
    and "get_cached_block k2 [2] p = Inr None" "get_cached_block k1 [2] p = Inr (Some [s])"
  shows "coord_find_longest_cache_hit [k0, k1, k2] 12 (co\<lparr>coord_pool := p\<rparr>)
    = Some (Inr ([[a0, a1], [b0, b1, b2], [null_block p, s]], 8))"
proof -
  have g: "attention_groups co = [(demo_spec FullAttentionSpec, [0], FullAttentionManager), (demo_spec MLAAttentionSpec, [1], FullAttentionManager),
        (demo_spec SlidingWindowSpec, [2], SlidingWindowManager)]"
    "lcm_block_size co = 4" "coord_hash_block_size co = 4" "coord_config co = demo_config3" "eagle_attn_group_indices co = {}" "coord_kind co = Hybrid"
    using demo_hybrid_init3 assms(1) by auto
  show ?thesis using g assms(2-)
    by (simp add: coord_find_longest_cache_hit_def hit_eval demo_config_def demo_config3_def cdiv_def)
qed

theorem second_full_group_untruncated_witness:
  "\<exists>co. hybrid_init demo_config3 100 8 False True False False 1 1 4 = Inr co
    \<and> coord_find_longest_cache_hit [[7], [8], [9]] 12 (co\<lparr>coord_pool := demo_cached_pool\<rparr>)
        = Some (Inr ([[Blk 1, Blk 2], [Blk 4, Blk 5, Blk 6], [Blk 0, Blk 7]], 8))"
proof -
  obtain co where co: "hybrid_init demo_config3 100 8 False True False False 1 1 4 = Inr co" using demo_hybrid_init3 by auto
  then show ?thesis using second_full_group_untruncated [OF co demo_cached(1-3,4-6,7,8)] by (simp add: demo_cached_null)
qed

theorem hybrid_hit_consistent_witness:
  "\<exists>co blks L. hybrid_init (demo_config SlidingWindowSpec) 100 8 True True False False 1 1 4 = Inr co
    \<and> coord_find_longest_cache_hit [[7], [8], [9]] 12 (co\<lparr>coord_pool := demo_cached_pool\<rparr>) = Some (Inr (blks, L))
    \<and> 0 < L \<and> int (length (blks ! 0)) * 4 = L \<and> int (length (blks ! 1)) * 4 = L"
proof -
  obtain co where co: "hybrid_init (demo_config SlidingWindowSpec) 100 8 True True False False 1 1 4 = Inr co"
    "attention_groups co = [(demo_spec FullAttentionSpec, [0], FullAttentionManager), (demo_spec SlidingWindowSpec, [1], SlidingWindowManager)]"
    "lcm_block_size co = 4" "coord_hash_block_size co = 4" "coord_config co = demo_config SlidingWindowSpec" "eagle_attn_group_indices co = {0, 1}"
    "eagle_group_ids co = {0, 1}"
    using demo_hybrid_init [of SlidingWindowSpec SlidingWindowManager True] by auto
  have "coord_kind co = Hybrid" using hybrid_init_ok [OF co(1)] by (auto simp: demo_config_def demo_lookup_ok)
  then have f: "coord_find_longest_cache_hit [[7], [8], [9]] 12 (co\<lparr>coord_pool := demo_cached_pool\<rparr>)
      = Some (Inr ([[Blk 1, Blk 2], [Blk 0, Blk 5]], 8))"
    using co(2-) by (simp add: coord_find_longest_cache_hit_def hit_eval demo_config_def cdiv_def demo_cached demo_cached_null)
  show ?thesis
    using hybrid_hit_consistent [OF co(1), of 12 "[[7], [8], [9]]" demo_cached_pool "single_type_managers co"] f co
    by (auto simp: demo_config_def demo_lookup_ok has_class_def)
qed

end
