(* ===== verification/Ownership.thy ===== *)
theory Ownership
  imports Coordinator
begin

text \<open>
  Who holds which block, over all managers of a coordinator
  (\<open>vllm/v1/core/kv_cache_coordinator.py\<close> over \<open>single_type_kv_cache_manager.py\<close>).

  A manager's operation for a request keeps the manager's own invariant whatever the other
  managers hold (\<open>keeps_mgr\<close>). The locale \<open>manager_op\<close> is this contract; inside it the loop
  over the managers keeps the invariant of the whole coordinator, and it changes the blocks of
  no other request. The locale is interpreted on each operation the coordinator forwards.
\<close>

section \<open>The invariant of one manager\<close>

definition nspec :: "manager \<Rightarrow> int" where
  "nspec m = num_speculative_blocks (mgr_spec m)"

definition align_mode :: "manager \<Rightarrow> bool" where
  "align_mode m \<longleftrightarrow> mgr_class m = MambaManager \<and> mamba_cache_mode (mgr_spec m) = ''align''"

text \<open>In align mode a request that was allocated blocks holds its speculative blocks.\<close>

definition mgr_good :: "(blk_ref \<Rightarrow> nat) \<Rightarrow> manager \<Rightarrow> block_pool \<Rightarrow> blk_ref list \<Rightarrow> bool" where
  "mgr_good h m p fl \<longleftrightarrow> mgr_inv h m p fl \<and> 0 \<le> nspec m \<and> window_ok m
     \<and> (\<forall>rid \<in> allocated_block_reqs m. align_mode m \<and> nspec m \<le> int (length (rtb_get rid m)))"

text \<open>What the constructor fixes.\<close>

definition same_mgr :: "manager \<Rightarrow> manager \<Rightarrow> bool" where
  "same_mgr m m' \<longleftrightarrow> mgr_class m' = mgr_class m \<and> mgr_spec m' = mgr_spec m \<and> block_size m' = block_size m
     \<and> mgr_enable_caching m' = mgr_enable_caching m \<and> max_admission_blocks m' = max_admission_blocks m
     \<and> kv_cache_group_id m' = kv_cache_group_id m \<and> mgr_null_block m' = mgr_null_block m"

definition keeps_mgr :: "string \<Rightarrow> (blk_ref \<Rightarrow> nat) \<Rightarrow> manager \<Rightarrow> block_pool \<Rightarrow> manager \<Rightarrow> block_pool \<Rightarrow> bool" where
  "keeps_mgr rid h m p m' p' \<longleftrightarrow> (\<exists>fl. mgr_good h m' p' fl) \<and> same_config p p' \<and> same_mgr m m'
     \<and> (\<forall>r. r \<noteq> rid \<longrightarrow> rtb_get r m' = rtb_get r m)"

lemma same_mgr_refl [simp]: "same_mgr m m"
  by (simp add: same_mgr_def)

lemma same_mgr_trans: "same_mgr m m' \<Longrightarrow> same_mgr m' m'' \<Longrightarrow> same_mgr m m''"
  by (simp add: same_mgr_def)

lemma same_mgr_nspec: "same_mgr m m' \<Longrightarrow> nspec m' = nspec m \<and> align_mode m' = align_mode m \<and> window_ok m' = window_ok m"
  by (simp add: same_mgr_def nspec_def align_mode_def window_ok_def)

lemma same_mgr_rtb [simp]:
  "same_mgr m (rtb_read rid m') = same_mgr m m'" "same_mgr m (rtb_set rid bs m') = same_mgr m m'"
  "same_mgr m (record_new_ids bs p m') = same_mgr m m'" "same_mgr m (m'\<lparr>num_cached_block := x\<rparr>) = same_mgr m m'"
  "same_mgr m (m'\<lparr>last_state_block_idx := y\<rparr>) = same_mgr m m'" "same_mgr m (m'\<lparr>allocated_block_reqs := z\<rparr>) = same_mgr m m'"
  "same_mgr m (m'\<lparr>cached_blocks_this_step := c\<rparr>) = same_mgr m m'" "same_mgr m (m'\<lparr>req_to_blocks := d\<rparr>) = same_mgr m m'"
  by (simp_all add: same_mgr_def rtb_read_def rtb_set_def record_new_ids_def)

lemma allocated_rtb [simp]:
  "allocated_block_reqs (rtb_read rid m) = allocated_block_reqs m" "allocated_block_reqs (rtb_set rid bs m) = allocated_block_reqs m"
  "allocated_block_reqs (record_new_ids bs p m) = allocated_block_reqs m"
  by (simp_all add: rtb_read_def rtb_set_def record_new_ids_def)

lemma mgr_good_next:
  assumes "mgr_good h m p fl" "mgr_inv h m' p' fl'" "same_mgr m m'"
    and "\<And>r. r \<in> allocated_block_reqs m' \<Longrightarrow> r \<in> allocated_block_reqs m \<and> length (rtb_get r m) \<le> length (rtb_get r m')"
  shows "mgr_good h m' p' fl'"
  using assms(1,2) assms(4) same_mgr_nspec [OF assms(3)] unfolding mgr_good_def by fastforce

text \<open>An operation that only lets the list of \<open>rid\<close> grow.\<close>

lemma keeps_grow:
  assumes "mgr_good h m p fl" "mgr_inv h m' p' fl'" "same_config p p'" "same_mgr m m'"
    and "allocated_block_reqs m' = allocated_block_reqs m" "length (rtb_get rid m) \<le> length (rtb_get rid m')"
    and "\<And>r. r \<noteq> rid \<Longrightarrow> rtb_get r m' = rtb_get r m"
  shows "keeps_mgr rid h m p m' p'"
proof -
  have "length (rtb_get r m) \<le> length (rtb_get r m')" for r using assms(6) assms(7) [of r] by (cases "r = rid") auto
  then have "mgr_good h m' p' fl'" using mgr_good_next [OF assms(1,2,4)] assms(5) by simp
  then show ?thesis using assms(3,4,7) unfolding keeps_mgr_def by blast
qed

section \<open>The operations of a manager\<close>

lemma mgr_free_keeps:
  assumes "mgr_good h m p fl"
  shows "\<exists>m' p'. mgr_free rid m p = Inr (m', p') \<and> keeps_mgr rid h m p m' p'"
proof -
  let ?m = "if align_mode m then m\<lparr>allocated_block_reqs := allocated_block_reqs m - {rid},
      last_state_block_idx := dict_pop rid (last_state_block_idx m)\<rparr> else m"
  have inv: "mgr_inv h ?m p fl" using assms by (auto simp: mgr_good_def intro: mgr_inv_other)
  obtain m' p' where f: "base_free rid ?m p = Inr (m', p')" "same_config p p'" "\<exists>fl'. mgr_inv h m' p' fl'"
    "\<And>r. r \<noteq> rid \<Longrightarrow> rtb_get r m' = rtb_get r ?m"
    using base_free_spec [OF inv, of rid] by blast
  then obtain fl' where fl': "mgr_inv h m' p' fl'" by blast
  have s: "same_mgr m m'" and al: "allocated_block_reqs m' = (if align_mode m then allocated_block_reqs m - {rid} else allocated_block_reqs m)"
    using f(1) by (auto simp: base_free_def elim!: bindE_eq_InrE)
  have o: "rtb_get r m' = rtb_get r m" if "r \<noteq> rid" for r using f(4) [OF that] by auto
  have "r \<in> allocated_block_reqs m \<and> length (rtb_get r m) \<le> length (rtb_get r m')" if "r \<in> allocated_block_reqs m'" for r
    using that al o [of r] assms by (cases "r = rid") (auto simp: mgr_good_def split: if_splits)
  then have "mgr_good h m' p' fl'" by (rule mgr_good_next [OF assms fl' s])
  then show ?thesis using f(1,2) s o unfolding keeps_mgr_def by (auto simp: mgr_free_def align_mode_def)
qed

lemma base_remove_skipped_keeps:
  assumes "mgr_good h m p fl"
  shows "\<exists>m' p'. base_remove_skipped_blocks rid n m p = Inr (m', p') \<and> keeps_mgr rid h m p m' p'
    \<and> length (rtb_get rid m') = length (rtb_get rid m)"
proof -
  obtain m' p' where r: "base_remove_skipped_blocks rid n m p = Inr (m', p')" "same_config p p'" "\<exists>fl'. mgr_inv h m' p' fl'"
    "length (rtb_get rid m') = length (rtb_get rid m)" "\<And>r. r \<noteq> rid \<Longrightarrow> rtb_get r m' = rtb_get r m"
    using base_remove_skipped_spec [of h m p fl rid n] assms unfolding mgr_good_def by metis
  have s: "same_mgr m m'" "allocated_block_reqs m' = allocated_block_reqs m"
    using r(1) by (auto simp: base_remove_skipped_blocks_def Let_def split: if_splits prod.splits elim!: bindE_eq_InrE)
  then show ?thesis using r keeps_grow [OF assms _ r(2) s, of _ rid] by auto
qed

lemma keeps_trans: "keeps_mgr rid h m p m1 p1 \<Longrightarrow> keeps_mgr rid h m1 p1 m2 p2 \<Longrightarrow> keeps_mgr rid h m p m2 p2"
  by (auto simp: keeps_mgr_def intro: same_config_trans same_mgr_trans)

lemma keeps_good: "keeps_mgr rid h m p m' p' \<Longrightarrow> \<exists>fl. mgr_good h m' p' fl"
  by (simp add: keeps_mgr_def)

lemma mgr_good_inv: "mgr_good h m p fl \<Longrightarrow> mgr_inv h m p fl"
  by (simp add: mgr_good_def)

lemma keeps_read: "mgr_good h m p fl \<Longrightarrow> keeps_mgr rid h m p (rtb_read rid m) p"
  by (rule keeps_grow [OF _ mgr_inv_read [OF mgr_good_inv]]) (simp_all add: same_config_refl)

text \<open>The block with the previous state of a state-space layer is given up, too.\<close>

lemma drop_state_keeps:
  assumes good: "mgr_good h m p fl" and b: "py_index (rtb_get rid m) i = Inr b" "b \<noteq> Blk 0"
    and run: "free_blocks [b] p = Inr p'"
  shows "keeps_mgr rid h m p (rtb_set rid ((rtb_get rid m)[nat (if i < 0 then int (length (rtb_get rid m)) + i else i) := Blk 0]) m) p'"
proof -
  let ?bs = "rtb_get rid m" and ?j = "nat (if i < 0 then int (length (rtb_get rid m)) + i else i)"
  note inv = mgr_good_inv [OF good] note d = mgr_invD [OF inv]
  have j: "?j < length ?bs" "b = ?bs ! ?j" using b(1) by (auto simp: py_index_def Let_def split: if_splits)
  have sub: "set ?bs \<subseteq> set (blocks p)" by (rule mgr_ok_blocks(1) [OF d(2)])
  have "count_list ?bs c = count_list (?bs[?j := Blk 0]) c + count_list [b] c" if "c \<noteq> Blk 0" for c
    using count_list_update [OF j(1), of "Blk 0" c] j(2) that by auto
  moreover have "set (?bs[?j := Blk 0]) \<subseteq> set (blocks p)"
    using set_update_subset_insert [of ?bs ?j "Blk 0"] sub ids_ok_null [OF pool_invD(2) [OF d(1)]] by blast
  moreover have "set [b] \<subseteq> set (blocks p)" using sub j nth_mem [OF j(1)] by auto
  ultimately obtain q where q: "free_blocks [b] p = Inr q" "same_config p q" "mgr_inv h (rtb_set rid (?bs[?j := Blk 0]) m) q (fl @ released p [b])"
    using mgr_give_back [OF inv, of rid "?bs[?j := Blk 0]" "[b]" "rtb_set rid (?bs[?j := Blk 0]) m"] by auto
  have "q = p'" using run q(1) by simp
  then show ?thesis using keeps_grow [OF good q(3,2), of rid] by simp
qed

lemma remove_skipped_keeps:
  assumes good: "mgr_good h m p fl" and run: "remove_skipped_blocks rid n m p = Inr (m', p')"
  shows "keeps_mgr rid h m p m' p'"
proof -
  have base: "keeps_mgr rid h m p m1 p1" if "base_remove_skipped_blocks rid k m p = Inr (m1, p1)" for k m1 p1
    using base_remove_skipped_keeps [OF good, of rid k] that by auto
  show ?thesis
  proof (cases "mgr_class m = MambaManager")
    case False
    then show ?thesis using run base by (simp add: remove_skipped_blocks_def)
  next
    case True
    let ?k = "max 0 (n - num_speculative_blocks (mgr_spec m))"
    obtain m1 p1 where 1: "base_remove_skipped_blocks rid ?k m p = Inr (m1, p1)"
      using base_remove_skipped_keeps [OF good, of rid ?k] by auto
    have k1: "keeps_mgr rid h m p m1 p1" by (rule base [OF 1])
    obtain fl1 where g1: "mgr_good h m1 p1 fl1" using keeps_good [OF k1] by blast
    have k2: "keeps_mgr rid h m p (rtb_read rid m1) p1" by (rule keeps_trans [OF k1 keeps_read [OF g1]])
    obtain fl2 where g2: "mgr_good h (rtb_read rid m1) p1 fl2" using keeps_good [OF k2] by blast
    have nb: "mgr_null_block m = Blk 0" using mgr_invD(4) [OF mgr_good_inv [OF good]] .
    let ?bs = "rtb_get rid (rtb_read rid m1)"
    have r: "(if mamba_cache_mode (mgr_spec m) \<noteq> ''align'' then Inr (m1, p1)
        else case dict_get (last_state_block_idx m1) rid of None \<Rightarrow> Inr (m1, p1)
          | Some i \<Rightarrow> if i < cdiv ?k (block_size m) - 1 then bindE (py_index ?bs i) (\<lambda>b.
                if b \<noteq> Blk 0 then bindE (free_blocks [b] p1) (\<lambda>p2.
                  Inr (rtb_set rid (?bs[nat (if i < 0 then int (length ?bs) + i else i) := Blk 0]) (rtb_read rid m1), p2))
                else Inr (rtb_read rid m1, p1)) else Inr (m1, p1)) = Inr (m', p')"
      using run True 1 nb by (simp only: remove_skipped_blocks_def Let_def bindE_Inr simp_thms if_True prod.case)
    show ?thesis
    proof (cases "mamba_cache_mode (mgr_spec m) \<noteq> ''align'' \<or> dict_get (last_state_block_idx m1) rid = None
        \<or> \<not> the (dict_get (last_state_block_idx m1) rid) < cdiv ?k (block_size m) - 1")
      case True
      then have "m' = m1 \<and> p' = p1" using r by (cases "dict_get (last_state_block_idx m1) rid") (auto simp del: dict_get_eq_None split: if_splits)
      then show ?thesis using k1 by simp
    next
      case False
      then obtain i where "bindE (py_index ?bs i) (\<lambda>b.
                if b \<noteq> Blk 0 then bindE (free_blocks [b] p1) (\<lambda>p2.
                  Inr (rtb_set rid (?bs[nat (if i < 0 then int (length ?bs) + i else i) := Blk 0]) (rtb_read rid m1), p2))
                else Inr (rtb_read rid m1, p1)) = Inr (m', p')"
        using r by (auto simp del: dict_get_eq_None rtb_get_read)
      then obtain b where b: "py_index ?bs i = Inr b" and c: "(if b \<noteq> Blk 0 then bindE (free_blocks [b] p1) (\<lambda>p2.
                  Inr (rtb_set rid (?bs[nat (if i < 0 then int (length ?bs) + i else i) := Blk 0]) (rtb_read rid m1), p2))
                else Inr (rtb_read rid m1, p1)) = Inr (m', p')" by (rule bindE_eq_InrE)
      show ?thesis
      proof (cases "b = Blk 0")
        case True
        then show ?thesis using c k2 by simp
      next
        case nn: False
        then obtain "free_blocks [b] p1 = Inr p'"
          "m' = rtb_set rid (?bs[nat (if i < 0 then int (length ?bs) + i else i) := Blk 0]) (rtb_read rid m1)"
          using c by (auto simp del: rtb_get_read elim: bindE_eq_InrE)
        then show ?thesis using keeps_trans [OF k2 drop_state_keeps [OF g2 b nn]] by simp
      qed
    qed
  qed
qed

text \<open>Allocation takes blocks from the front of the free list.\<close>

lemma get_new_bound: "get_new_blocks n p = Inr r \<Longrightarrow> pool_inv p fl \<Longrightarrow> n \<le> int (length fl)"
  using pool_invD(8) [of p fl] by (auto simp: get_new_blocks_def get_num_free_blocks_def split: if_splits)

lemma mgr_get_new_keeps:
  assumes inv: "mgr_inv h m p fl" and n: "0 \<le> n" and run: "get_new_blocks n p = Inr (bs, p')"
  shows "mgr_inv h (rtb_set rid (rtb_get rid m @ bs) m) p' (drop (nat n) fl) \<and> same_config p p'"
proof -
  have "n \<le> int (length fl)" by (rule get_new_bound [OF run mgr_invD(1) [OF inv]])
  then show ?thesis using mgr_get_new [OF inv n, of rid] run by auto
qed

lemma base_allocate_keeps:
  assumes good: "mgr_good h m p fl" and run: "base_allocate_new_blocks rid nt m p = Inr (bs, m', p')"
  shows "keeps_mgr rid h m p m' p'"
proof -
  let ?k = "cdiv nt (block_size m) - int (length (rtb_get rid m))"
  show ?thesis
  proof (cases "?k \<le> 0")
    case True
    then show ?thesis using run keeps_read [OF good, of rid] by (simp add: base_allocate_new_blocks_def)
  next
    case False
    have inv1: "mgr_inv h (rtb_read rid m) p fl" by (rule mgr_inv_read [OF mgr_good_inv [OF good]])
    have r: "get_new_blocks ?k p = Inr (bs, p')" "m' = record_new_ids bs p' (rtb_set rid (rtb_get rid m @ bs) (rtb_read rid m))"
      using run False by (auto simp: base_allocate_new_blocks_def Let_def elim!: bindE_eq_InrE)
    have "mgr_inv h (rtb_set rid (rtb_get rid m @ bs) (rtb_read rid m)) p' (drop (nat ?k) fl) \<and> same_config p p'"
      using mgr_get_new_keeps [OF inv1 _ r(1), of rid] False by simp
    then have "mgr_inv h m' p' (drop (nat ?k) fl)" "same_config p p'" using mgr_inv_other by (auto simp: r(2))
    then show ?thesis by (rule keeps_grow [OF good]) (simp_all add: r(2))
  qed
qed

text \<open>Align mode: the state blocks move within the list, then new ones follow.\<close>

lemma mamba_align_keeps:
  assumes good: "mgr_good h m p fl" and md: "align_mode m" and nt: "0 \<le> nt"
    and run: "mamba_align_allocate rid nt m p = Inr (bs, m', p')"
  shows "keeps_mgr rid h m p m' p'"
proof (cases "cdiv nt (block_size m) + nspec m = int (length (rtb_get rid m))")
  case True
  then show ?thesis using run keeps_read [OF good, of rid] by (simp add: mamba_align_allocate_def nspec_def Let_def)
next
  case False
  note inv = mgr_good_inv [OF good] note d = mgr_invD [OF inv]
  let ?m1 = "rtb_read rid m" let ?al = "rid \<in> allocated_block_reqs m"
  define L where "L = int (length (rtb_get rid m))"
  define R where "R = cdiv nt (block_size m) + nspec m"
  define S where "S = R - nspec m - 1"
  define blks where "blks = (if L < S then rtb_get rid m @ replicate (nat (S - L)) (Blk 0) else rtb_get rid m)"
  define m2 where "m2 = (if ?al then ?m1\<lparr>last_state_block_idx := dict_set rid (L - 1 - nspec m) (last_state_block_idx ?m1)\<rparr>
      else if 0 < L then ?m1\<lparr>last_state_block_idx := dict_set rid (L - 1) (last_state_block_idx ?m1)\<rparr> else ?m1)"
  have n: "0 \<le> nspec m" "?al \<Longrightarrow> nspec m \<le> L" using good by (simp_all add: mgr_good_def L_def)
  have unf: "bindE (guardE (L < R) AssertionError) (\<lambda>_.
      bindE (if ?al then reuse_spec_blocks (Blk 0) S [L - nspec m..L - 1] blks else Inr blks) (\<lambda>blks1.
      bindE (guardE (R - int (length blks1) \<le> (if ?al then 1 else nspec m + 1)) AssertionError) (\<lambda>_.
      bindE (get_new_blocks (R - int (length blks1)) p) (\<lambda>(bs, p1).
        Inr (py_from (blks1 @ bs) L, (rtb_set rid (blks1 @ bs) m2)\<lparr>allocated_block_reqs := insert rid (allocated_block_reqs m2)\<rparr>, p1)))))
      = Inr (bs, m', p')"
    using run False unfolding mamba_align_allocate_def Let_def m2_def blks_def S_def R_def L_def nspec_def d(4) rtb_get_read by simp
  then obtain blks1 ns where LR: "L < R" and b1: "(if ?al then reuse_spec_blocks (Blk 0) S [L - nspec m..L - 1] blks else Inr blks) = Inr blks1"
    and g: "get_new_blocks (R - int (length blks1)) p = Inr (ns, p')"
    and m': "m' = (rtb_set rid (blks1 @ ns) m2)\<lparr>allocated_block_reqs := insert rid (allocated_block_reqs m2)\<rparr>"
    by (elim bindE_eq_InrE) auto
  have len: "int (length blks) = max L S" by (auto simp: blks_def L_def)
  have "int (length blks1) \<le> R - 1 \<and> int (length blks) \<le> int (length blks1)"
  proof (cases ?al)
    case True
    then show ?thesis using b1 reuse_spec_blocks_length [of "L - nspec m" L blks "Blk 0" S] n len LR by (auto simp: S_def)
  next
    case False
    then show ?thesis using b1 len LR n(1) by (simp add: S_def)
  qed
  then have nn: "0 \<le> R - int (length blks1)" and grow: "length (rtb_get rid m) \<le> length blks1" using len by (simp_all add: L_def)
  have cnt: "count_list blks1 b = count_list (rtb_get rid m) b \<and> set blks1 \<subseteq> insert (Blk 0) (set blks)" if "b \<noteq> Blk 0" for b
    using b1 reuse_spec_blocks_count [of "Blk 0" S "[L - nspec m..L - 1]" blks blks1 b] n(2) that
    by (cases ?al) (auto simp: blks_def count_list_replicate)
  then have "set blks1 \<subseteq> insert (Blk 0) (set blks)" using cnt [of "Blk 1"] by simp
  then have sub: "set blks1 \<subseteq> set (blocks p)"
    using mgr_ok_blocks(1) [OF d(2), of rid] ids_ok_null [OF pool_invD(2) [OF d(1)]] by (auto simp: blks_def split: if_splits)
  have m2: "req_to_blocks m2 = req_to_blocks ?m1" "block_size m2 = block_size m" "mgr_null_block m2 = mgr_null_block m"
    "allocated_block_reqs m2 = allocated_block_reqs m" "same_mgr m m2" "\<And>r. rtb_get r m2 = rtb_get r m"
    by (simp_all add: m2_def)
  have inv2: "mgr_inv h m2 p fl" by (rule mgr_inv_other [OF mgr_inv_read [OF inv, of rid]]) (simp_all add: m2)
  have inv3: "mgr_inv h (rtb_set rid blks1 m2) p fl" by (rule mgr_relist [OF inv2 _ sub]) (simp add: cnt m2(6))
  have g': "mgr_inv h (rtb_set rid (blks1 @ ns) (rtb_set rid blks1 m2)) p' (drop (nat (R - int (length blks1))) fl)" "same_config p p'"
    using mgr_get_new_keeps [OF inv3 nn g, of rid] by simp_all
  then have inv': "mgr_inv h m' p' (drop (nat (R - int (length blks1))) fl)" using mgr_inv_other by (auto simp: m' rtb_set_def)
  have "length ns = nat (R - int (length blks1))"
    using mgr_get_new [OF inv3 nn get_new_bound [OF g mgr_invD(1) [OF inv3]], of rid] get_new_bound [OF g mgr_invD(1) [OF inv3]] g by auto
  then have "int (length (rtb_get rid m')) = R" using nn by (simp add: m')
  moreover have "nspec m \<le> R" using nt d(3) by (simp add: R_def cdiv_nonneg)
  ultimately have "mgr_good h m' p' (drop (nat (R - int (length blks1))) fl)"
    using good inv' md m2 same_mgr_nspec [of m m'] unfolding mgr_good_def by (simp add: m')
  then show ?thesis using g'(2) m2 unfolding keeps_mgr_def by (auto simp: m')
qed

lemma allocate_new_blocks_keeps:
  assumes "mgr_good h m p fl" "align_mode m \<longrightarrow> 0 \<le> main_toks" "allocate_new_blocks rid nt main_toks m p = Inr (bs, m', p')"
  shows "keeps_mgr rid h m p m' p'"
  using assms base_allocate_keeps [OF assms(1)] mamba_align_keeps [OF assms(1)]
  unfolding allocate_new_blocks_def align_mode_def Let_def by (simp split: if_splits)

text \<open>Cached blocks a request takes over: pool blocks, none twice, for local tokens.\<close>

definition hit_ok :: "blk_ref list \<Rightarrow> int \<Rightarrow> manager \<Rightarrow> block_pool \<Rightarrow> bool" where
  "hit_ok new loc m p \<longleftrightarrow> set new \<subseteq> set (blocks p) \<and> distinct (filter (\<lambda>b. b \<noteq> Blk 0) new)
     \<and> int (length new) * block_size m \<le> loc"

text \<open>Taking them over needs the bound only when further blocks are allocated for external tokens.\<close>

definition take_ok :: "blk_ref list \<Rightarrow> int \<Rightarrow> int \<Rightarrow> manager \<Rightarrow> block_pool \<Rightarrow> bool" where
  "take_ok new loc ext m p \<longleftrightarrow> set new \<subseteq> set (blocks p) \<and> distinct (filter (\<lambda>b. b \<noteq> Blk 0) new)
     \<and> (0 < ext \<longrightarrow> int (length new) * block_size m \<le> loc)"

lemma hit_take_ok: "hit_ok new loc m p \<Longrightarrow> take_ok new loc ext m p"
  by (simp add: hit_ok_def take_ok_def)

lemma skipped_le: "window_ok m \<Longrightarrow> 0 \<le> n \<Longrightarrow> get_num_skipped_tokens m n \<le> n"
  by (cases "mgr_class m") (simp_all add: get_num_skipped_tokens_def window_ok_def minus_mod_eq_div_mult [symmetric])

lemma drop_distinct: "distinct (filter P xs) \<Longrightarrow> distinct (filter P (drop k xs))"
  by (metis append_take_drop_id distinct_append filter_append)

lemma base_computed_keeps:
  assumes good: "mgr_good h m p fl" and new: "take_ok new loc ext m p" and ext: "0 \<le> ext"
    and run: "base_allocate_new_computed_blocks rid new loc ext m p = Inr (m', p')"
  shows "keeps_mgr rid h m p m' p'"
proof (cases "is_running rid m")
  case True
  then show ?thesis using run keeps_grow [OF good mgr_good_inv [OF good], of rid]
    by (auto simp: base_allocate_new_computed_blocks_def elim!: bindE_eq_InrE)
next
  case False
  note inv = mgr_good_inv [OF good] note d = mgr_invD [OF inv]
  let ?m1 = "rtb_read rid m" let ?tot = "loc + ext" let ?st = "get_num_skipped_tokens m (loc + ext)"
  define k where "k = nat (?st div block_size m)"
  define ext1 where "ext1 = (if 0 < ?st div block_size m then min (?tot - ?st) ext else ext)"
  define l where "l = replicate k (Blk 0) @ drop k new"
  define m2 where "m2 = (rtb_set rid l ?m1)\<lparr>num_cached_block := dict_set rid (int (length l)) (num_cached_block ?m1)\<rparr>"
  have cut: "(if 0 < ?st div block_size m then (py_from new (?st div block_size m), min (?tot - ?st) ext) else (new, ext)) = (drop k new, ext1)"
    by (auto simp: k_def ext1_def py_from_nonneg)
  have unf: "bindE (guardE (length (rtb_get rid m) = 0) AssertionError) (\<lambda>_.
      bindE (if mgr_enable_caching m then touch (drop k new) p else bindE (guardE (drop k new = []) AssertionError) (\<lambda>_. Inr p)) (\<lambda>p1.
        let blks = rtb_get rid m @ replicate k (Blk 0) @ drop k new;
            m2 = (rtb_set rid blks ?m1)\<lparr>num_cached_block := dict_set rid (int (length blks)) (num_cached_block ?m1)\<rparr>
        in if 0 < ext1 then bindE (get_new_blocks (cdiv ?tot (block_size m) - int (length blks)) p1) (\<lambda>(bs, p2).
             Inr (record_new_ids bs p2 (rtb_set rid (blks @ bs) m2), p2)) else Inr (m2, p1))) = Inr (m', p')"
    using run False unfolding base_allocate_new_computed_blocks_def Let_def d(4) rtb_get_read cut prod.case k_def [symmetric] by (simp only: if_False)
  then have fresh: "rtb_get rid m = []" by (elim bindE_eq_InrE) auto
  from unf obtain p1 where t: "(if mgr_enable_caching m then touch (drop k new) p else bindE (guardE (drop k new = []) AssertionError) (\<lambda>_. Inr p)) = Inr p1"
    and r: "(if 0 < ext1 then bindE (get_new_blocks (cdiv ?tot (block_size m) - int (length l)) p1) (\<lambda>(bs, p2).
             Inr (record_new_ids bs p2 (rtb_set rid (l @ bs) m2), p2)) else Inr (m2, p1)) = Inr (m', p')"
    unfolding fresh append_Nil Let_def l_def [symmetric] m2_def [symmetric] by (elim bindE_eq_InrE) simp
  have "touch (drop k new) p = Inr p1" using t by (auto simp: touch_def split: if_splits elim!: bindE_eq_InrE)
  moreover have "set (drop k new) \<subseteq> set (blocks p)" "distinct (filter (\<lambda>b. b \<noteq> Blk 0) (drop k new))"
    using new drop_distinct by (auto simp: take_ok_def dest: in_set_dropD)
  ultimately have "same_config p p1" "\<exists>fl1. mgr_inv h (rtb_set rid l ?m1) p1 fl1"
    using mgr_touch [OF mgr_inv_read [OF inv, of rid], of rid "drop k new" k] fresh unfolding l_def by auto
  then obtain fl1 where c1: "same_config p p1" and inv1: "mgr_inv h (rtb_set rid l ?m1) p1 fl1" by blast
  have inv2: "mgr_inv h m2 p1 fl1" by (rule mgr_inv_other [OF inv1]) (simp_all add: m2_def)
  have s2: "same_mgr m m2" "allocated_block_reqs m2 = allocated_block_reqs m" "\<And>r. rtb_get r m2 = (if r = rid then l else rtb_get r m)"
    by (simp_all add: m2_def)
  have bs: "0 < block_size m" by (rule d(3))
  show ?thesis
  proof (cases "0 < ext1")
    case False
    then show ?thesis using r keeps_grow [OF good inv2 c1 s2(1,2), of rid] fresh s2(3) by simp
  next
    case True
    then have e: "0 < ext" using ext by (auto simp: ext1_def split: if_splits)
    have loc: "int (length new) * block_size m \<le> loc" using new e by (simp add: take_ok_def)
    then have l0: "0 \<le> loc" using bs mult_nonneg_nonneg [of "int (length new)" "block_size m"] by linarith
    have "?st \<le> ?tot" using skipped_le [of m ?tot] good l0 ext by (simp add: mgr_good_def)
    then have "?st div block_size m \<le> cdiv ?tot (block_size m)"
      using cdiv_ge_div [OF bs] zdiv_mono1 [OF _ bs] order_trans by blast
    moreover have "int (length new) \<le> cdiv ?tot (block_size m)"
    proof -
      have "int (length new) * block_size m \<le> cdiv ?tot (block_size m) * block_size m"
        using loc ext cdiv_upper [OF bs, of ?tot] by linarith
      then show ?thesis using bs by simp
    qed
    moreover have "int (length l) = max (int k) (int (length new))" by (simp add: l_def)
    ultimately have nn: "0 \<le> cdiv ?tot (block_size m) - int (length l)" by (auto simp: k_def)
    from True obtain ns where ns: "get_new_blocks (cdiv ?tot (block_size m) - int (length l)) p1 = Inr (ns, p')"
      "m' = record_new_ids ns p' (rtb_set rid (l @ ns) m2)" using r by (auto elim!: bindE_eq_InrE)
    have "mgr_inv h (rtb_set rid (l @ ns) m2) p' (drop (nat (cdiv ?tot (block_size m) - int (length l))) fl1)" and c2: "same_config p1 p'"
      using mgr_get_new_keeps [OF inv2 nn ns(1), of rid] s2(3) by simp_all
    then have "mgr_inv h m' p' (drop (nat (cdiv ?tot (block_size m) - int (length l))) fl1)" using mgr_inv_other by (auto simp: ns(2))
    then show ?thesis using same_config_trans [OF c1 c2] s2 fresh by (intro keeps_grow [OF good]) (simp_all add: ns(2))
  qed
qed

lemma computed_keeps:
  assumes "mgr_good h m p fl" "take_ok new loc ext m p" "0 \<le> ext" "allocate_new_computed_blocks rid new loc ext m p = Inr (m', p')"
  shows "keeps_mgr rid h m p m' p'"
  using base_computed_keeps [OF assms(1-3)] assms(4) keeps_grow [OF assms(1) mgr_good_inv [OF assms(1)], of rid]
  by (auto simp: allocate_new_computed_blocks_def split: if_splits elim!: bindE_eq_InrE)

lemma base_cache_keeps:
  assumes "mgr_good h m p fl" "enable_caching p" "base_cache_blocks sha r nt m p = Inr (m', p')"
  shows "keeps_mgr rid h m p m' p' \<and> (\<forall>q. rtb_get q m' = rtb_get q m)"
proof -
  have "same_mgr m m'" "allocated_block_reqs m' = allocated_block_reqs m"
    using assms(3) by (auto simp: base_cache_blocks_def Let_def split: if_splits elim!: bindE_eq_InrE)
  then show ?thesis
    using base_cache_blocks_pres [OF mgr_good_inv [OF assms(1)] assms(2,3)] keeps_grow [OF assms(1), of m' p' fl rid] by simp
qed

lemma cache_blocks_keeps:
  assumes good: "mgr_good h m p fl" and en: "enable_caching p" and run: "cache_blocks sha r nt m p = Inr (m', p')"
  shows "keeps_mgr rid h m p m' p' \<and> (\<forall>q. rtb_get q m' = rtb_get q m)"
proof -
  have "\<exists>m1 hs. base_cache_blocks sha r nt m p = Inr (m1, p') \<and> (m' = m1 \<or> m' = m1\<lparr>cached_blocks_this_step := hs\<rparr>)"
  proof (cases "mgr_class m = MambaManager")
    case False
    then show ?thesis using run by (auto simp: cache_blocks_def split: if_splits)
  next
    case True
    then obtain x where x: "base_cache_blocks sha r nt m p = Inr x" using run by (auto simp: cache_blocks_def Let_def)
    then show ?thesis using run True by (cases x) (auto simp: cache_blocks_def Let_def bindE_eq_Inr split: if_splits)
  qed
  then obtain m1 hs where 1: "base_cache_blocks sha r nt m p = Inr (m1, p')" and m': "m' = m1 \<or> m' = m1\<lparr>cached_blocks_this_step := hs\<rparr>" by blast
  note k = base_cache_keeps [OF good en 1, of rid]
  then obtain fl1 where g1: "mgr_good h m1 p' fl1" by (auto simp: keeps_mgr_def)
  have "mgr_inv h (m1\<lparr>cached_blocks_this_step := hs\<rparr>) p' fl1" by (rule mgr_inv_other [OF mgr_good_inv [OF g1]]) simp_all
  then have "keeps_mgr rid h m1 p' (m1\<lparr>cached_blocks_this_step := hs\<rparr>) p'" by (rule keeps_grow [OF g1]) simp_all
  then show ?thesis using m' k keeps_trans [of rid h m p m1 p' _ p'] by auto
qed

section \<open>All managers of a coordinator\<close>

definition mgr_fine :: "manager \<Rightarrow> block_pool \<Rightarrow> bool" where
  "mgr_fine m p \<longleftrightarrow> mgr_ok m p \<and> 0 \<le> nspec m \<and> window_ok m
     \<and> (\<forall>rid \<in> allocated_block_reqs m. align_mode m \<and> nspec m \<le> int (length (rtb_get rid m)))"

definition managers_inv :: "(blk_ref \<Rightarrow> nat) \<Rightarrow> manager list \<Rightarrow> block_pool \<Rightarrow> blk_ref list \<Rightarrow> bool" where
  "managers_inv h ms p fl \<longleftrightarrow> pool_inv p fl \<and> (\<forall>m \<in> set ms. mgr_fine m p)
     \<and> (\<forall>b \<in> set (blocks p). b \<noteq> Blk 0 \<longrightarrow> rc p b = (\<Sum>m \<leftarrow> ms. owned m b) + int (h b))"

definition same_others :: "string \<Rightarrow> manager \<Rightarrow> manager \<Rightarrow> bool" where
  "same_others rid m m' \<longleftrightarrow> same_mgr m m' \<and> (\<forall>r. r \<noteq> rid \<longrightarrow> rtb_get r m' = rtb_get r m)"

definition keeps_all :: "string \<Rightarrow> (blk_ref \<Rightarrow> nat) \<Rightarrow> manager list \<Rightarrow> block_pool \<Rightarrow> manager list \<Rightarrow> block_pool \<Rightarrow> bool" where
  "keeps_all rid h ms p ms' p' \<longleftrightarrow> (\<exists>fl. managers_inv h ms' p' fl) \<and> same_config p p' \<and> list_all2 (same_others rid) ms ms'"

lemma mgr_fine_config: "mgr_fine m p \<Longrightarrow> same_config p p' \<Longrightarrow> mgr_fine m p'"
  using mgr_ok_config by (auto simp: mgr_fine_def)

lemma sum_owned_nonneg: "0 \<le> (\<Sum>m \<leftarrow> ms. owned m b)"
  by (intro sum_list_nonneg) (auto simp: owned_nonneg)

lemma managers_inv_Cons:
  "managers_inv h (m # ms) p fl \<longleftrightarrow> mgr_good (\<lambda>b. h b + nat (\<Sum>m \<leftarrow> ms. owned m b)) m p fl \<and> (\<forall>m \<in> set ms. mgr_fine m p)"
  by (auto simp: managers_inv_def mgr_good_def mgr_inv_def mgr_fine_def sum_owned_nonneg)

lemma managers_inv_rest:
  "managers_inv h (m # ms) p fl \<longleftrightarrow> mgr_fine m p \<and> managers_inv (\<lambda>b. h b + nat (owned m b)) ms p fl"
  by (auto simp: managers_inv_def owned_nonneg)

lemma managers_inv_pool: "managers_inv h ms p fl \<Longrightarrow> pool_inv p fl"
  by (simp add: managers_inv_def)

lemma same_others_refl [simp]: "same_others rid m m"
  by (simp add: same_others_def)

lemma same_others_trans: "same_others rid m m' \<Longrightarrow> same_others rid m' m'' \<Longrightarrow> same_others rid m m''"
  by (auto simp: same_others_def intro: same_mgr_trans)

lemma keeps_all_trans: "keeps_all rid h ms p ms1 p1 \<Longrightarrow> keeps_all rid h ms1 p1 ms2 p2 \<Longrightarrow> keeps_all rid h ms p ms2 p2"
  unfolding keeps_all_def using list_all2_trans [of "same_others rid" "same_others rid" "same_others rid" ms ms1 ms2]
    same_others_trans same_config_trans by blast

lemma keeps_all_refl: "managers_inv h ms p fl \<Longrightarrow> keeps_all rid h ms p ms p"
  by (auto simp: keeps_all_def list_all2_refl)

lemma keeps_step:
  assumes "managers_inv h (m # ms) p fl" "keeps_mgr rid (\<lambda>b. h b + nat (\<Sum>m \<leftarrow> ms. owned m b)) m p m1 p1"
  shows "\<exists>fl1. managers_inv (\<lambda>b. h b + nat (owned m1 b)) ms p1 fl1 \<and> mgr_fine m1 p1 \<and> same_config p p1 \<and> same_others rid m m1"
proof -
  obtain fl1 where g: "mgr_good (\<lambda>b. h b + nat (\<Sum>m \<leftarrow> ms. owned m b)) m1 p1 fl1" "same_config p p1" "same_others rid m m1"
    using assms(2) by (auto simp: keeps_mgr_def same_others_def)
  have "\<forall>m \<in> set ms. mgr_fine m p1" using assms(1) mgr_fine_config [OF _ g(2)] by (simp add: managers_inv_Cons)
  then have "managers_inv h (m1 # ms) p1 fl1" using g(1) by (simp add: managers_inv_Cons)
  then show ?thesis using g(2,3) by (auto simp: managers_inv_rest)
qed

text \<open>
  The contract between the coordinator and an operation of its managers: under the condition
  \<open>ok\<close>, the operation for the request \<open>rid\<close> keeps what the manager must keep. A total
  operation does not raise then.
\<close>

locale manager_op =
  fixes rid :: string and ok :: "nat \<Rightarrow> manager \<Rightarrow> block_pool \<Rightarrow> bool" and act :: "nat \<Rightarrow> mgr_op"
  assumes ok_config: "ok i m p \<Longrightarrow> same_config p p' \<Longrightarrow> ok i m p'"
    and keeps: "\<lbrakk>mgr_good h m p fl; ok i m p; act i m p = Inr (m', p')\<rbrakk> \<Longrightarrow> keeps_mgr rid h m p m' p'"
begin

lemma each_keeps:
  assumes "managers_inv h ms p fl" "\<forall>j < length ms. ok (i + j) (ms ! j) p" "each_manager act i ms p = Inr (ms', p')"
  shows "keeps_all rid h ms p ms' p'"
  using assms
proof (induction ms arbitrary: i h p fl ms')
  case Nil
  then show ?case by (auto simp: keeps_all_def)
next
  case (Cons m ms)
  obtain m1 p1 ms1 where r: "act i m p = Inr (m1, p1)" "each_manager act (Suc i) ms p1 = Inr (ms1, p')" "ms' = m1 # ms1"
    using Cons.prems(3) by (auto elim!: bindE_eq_InrE)
  have o: "ok i m p" using Cons.prems(2) by force
  have "keeps_mgr rid (\<lambda>b. h b + nat (\<Sum>m \<leftarrow> ms. owned m b)) m p m1 p1"
    using keeps [OF _ o r(1)] Cons.prems(1) unfolding managers_inv_Cons by blast
  from keeps_step [OF Cons.prems(1) this] obtain fl1 where
    s: "managers_inv (\<lambda>b. h b + nat (owned m1 b)) ms p1 fl1" "mgr_fine m1 p1" "same_config p p1" "same_others rid m m1" by blast
  have "ok (Suc i + j) (ms ! j) p1" if "j < length ms" for j
    using Cons.prems(2) that ok_config [OF _ s(3)] by force
  then have k: "keeps_all rid (\<lambda>b. h b + nat (owned m1 b)) ms p1 ms1 p'" using Cons.IH [OF s(1) _ r(2)] by blast
  then have "mgr_fine m1 p'" using mgr_fine_config [OF s(2)] by (simp add: keeps_all_def)
  then show ?case using k s(3,4) same_config_trans by (auto simp: keeps_all_def managers_inv_rest r(3))
qed

end

locale total_manager_op = manager_op +
  assumes total_act: "\<lbrakk>mgr_good h m p fl; ok i m p\<rbrakk> \<Longrightarrow> \<exists>m' p'. act i m p = Inr (m', p')"
begin

lemma each_total:
  assumes "managers_inv h ms p fl" "\<forall>j < length ms. ok (i + j) (ms ! j) p"
  shows "\<exists>ms' p'. each_manager act i ms p = Inr (ms', p') \<and> keeps_all rid h ms p ms' p'"
proof -
  have "\<exists>ms' p'. each_manager act i ms p = Inr (ms', p')" using assms
  proof (induction ms arbitrary: i h p fl)
    case (Cons m ms)
    have o: "ok i m p" using Cons.prems(2) by force
    have g: "mgr_good (\<lambda>b. h b + nat (\<Sum>m \<leftarrow> ms. owned m b)) m p fl" using Cons.prems(1) by (simp add: managers_inv_Cons)
    obtain m1 p1 where r: "act i m p = Inr (m1, p1)" using total_act [OF g o] by blast
    from keeps_step [OF Cons.prems(1) keeps [OF g o r]] obtain fl1 where
      s: "managers_inv (\<lambda>b. h b + nat (owned m1 b)) ms p1 fl1" "same_config p p1" by blast
    have "ok (Suc i + j) (ms ! j) p1" if "j < length ms" for j
      using Cons.prems(2) that ok_config [OF _ s(2)] by force
    then show ?case using Cons.IH [OF s(1), of "Suc i"] r by fastforce
  qed simp
  then show ?thesis using each_keeps [OF assms] by blast
qed

end

interpretation free_op: total_manager_op rid "\<lambda>_ _ _. True" "\<lambda>_. mgr_free rid" for rid
proof unfold_locales
  fix h m p fl m' p' assume "mgr_good h m p fl" "mgr_free rid m p = Inr (m', p')"
  then show "keeps_mgr rid h m p m' p'" using mgr_free_keeps [of h m p fl rid] by auto
next
  fix h m p fl assume "mgr_good h m p fl"
  then show "\<exists>m' p'. mgr_free rid m p = Inr (m', p')" using mgr_free_keeps [of h m p fl rid] by blast
qed simp_all

interpretation skip_op: manager_op rid "\<lambda>_ _ _. True" "\<lambda>_. remove_skipped_blocks rid n" for rid n
  by unfold_locales (use remove_skipped_keeps in auto)

interpretation cache_op: manager_op rid "\<lambda>_ _ p. enable_caching p" "\<lambda>_. cache_blocks sha r n" for rid sha r n
  by unfold_locales (use cache_blocks_keeps in \<open>auto simp: same_config_def\<close>)

lemma take_ok_config: "take_ok new loc ext m p \<Longrightarrow> same_config p p' \<Longrightarrow> take_ok new loc ext m p'"
  using same_config_blocks [of p p'] by (simp add: take_ok_def)

interpretation computed_op: manager_op rid "\<lambda>i m p. i < length new \<and> 0 \<le> ext \<and> take_ok (new ! i) loc ext m p"
    "\<lambda>i m p. bindE (py_index new (int i)) (\<lambda>bs. allocate_new_computed_blocks rid bs loc ext m p)" for rid new loc ext
  by unfold_locales (use computed_keeps take_ok_config in \<open>auto simp: py_index_def\<close>)

interpretation alloc_op: manager_op rid "\<lambda>_ m _. align_mode m \<longrightarrow> 0 \<le> main_toks"
    "\<lambda>_ m p. bindE (allocate_new_blocks rid (if mgr_class m = CrossAttentionManager then enc else nt) main_toks m p) (\<lambda>(_, r). Inr r)"
    for rid enc nt main_toks
  proof unfold_locales
  fix h m p fl i m' p'
  assume g: "mgr_good h m p fl" "align_mode m \<longrightarrow> 0 \<le> main_toks"
    and "bindE (allocate_new_blocks rid (if mgr_class m = CrossAttentionManager then enc else nt) main_toks m p) (\<lambda>(_, r). Inr r) = Inr (m', p')"
  then obtain bs where "allocate_new_blocks rid (if mgr_class m = CrossAttentionManager then enc else nt) main_toks m p = Inr (bs, m', p')"
    by (auto elim!: bindE_eq_InrE)
  then show "keeps_mgr rid h m p m' p'" by (rule allocate_new_blocks_keeps [OF g])
qed simp

section \<open>The coordinator\<close>

definition coord_inv :: "(blk_ref \<Rightarrow> nat) \<Rightarrow> kv_coordinator \<Rightarrow> blk_ref list \<Rightarrow> bool" where
  "coord_inv h co fl \<longleftrightarrow> managers_inv h (single_type_managers co) (coord_pool co) fl"

definition coord_keeps :: "string \<Rightarrow> (blk_ref \<Rightarrow> nat) \<Rightarrow> kv_coordinator \<Rightarrow> kv_coordinator \<Rightarrow> bool" where
  "coord_keeps rid h co co' \<longleftrightarrow> keeps_all rid h (single_type_managers co) (coord_pool co) (single_type_managers co') (coord_pool co')
     \<and> co' = co\<lparr>single_type_managers := single_type_managers co', coord_pool := coord_pool co'\<rparr>"

lemma coord_keeps_trans:
  assumes "coord_keeps rid h co co1" "coord_keeps rid h co1 co2" shows "coord_keeps rid h co co2"
proof -
  have e: "co1 = co\<lparr>single_type_managers := single_type_managers co1, coord_pool := coord_pool co1\<rparr>"
    "co2 = co1\<lparr>single_type_managers := single_type_managers co2, coord_pool := coord_pool co2\<rparr>"
    using assms by (simp_all only: coord_keeps_def)
  have "co2 = co\<lparr>single_type_managers := single_type_managers co2, coord_pool := coord_pool co2\<rparr>"
    by (subst e(2), subst e(1)) simp
  then show ?thesis using assms keeps_all_trans unfolding coord_keeps_def by blast
qed

lemma coord_keeps_inv: "coord_keeps rid h co co' \<Longrightarrow> \<exists>fl. coord_inv h co' fl"
  by (simp add: coord_keeps_def keeps_all_def coord_inv_def)

lemma coord_keeps_length: "coord_keeps rid h co co' \<Longrightarrow> length (single_type_managers co') = length (single_type_managers co)"
  by (auto simp: coord_keeps_def keeps_all_def dest: list_all2_lengthD)

lemma coord_keeps_with: "keeps_all rid h (single_type_managers co) (coord_pool co) ms p \<Longrightarrow> coord_keeps rid h co (with_managers co (ms, p))"
  by (simp add: coord_keeps_def with_managers_def)

lemma each_manager_out:
  "each_manager_out f ms p = Inr (xs, ms', p') \<Longrightarrow>
   each_manager (\<lambda>_ m p. bindE (f m p) (\<lambda>(_, r). Inr r)) i ms p = Inr (ms', p') \<and> length xs = length ms"
  by (induction ms arbitrary: i p xs ms') (fastforce elim!: bindE_eq_InrE)+

lemma coord_free_keeps:
  assumes "coord_inv h co fl" shows "\<exists>co'. coord_free rid co = Inr co' \<and> coord_keeps rid h co co'"
  using free_op.each_total [OF assms [unfolded coord_inv_def], where i = 0 and rid = rid] coord_keeps_with by (fastforce simp: coord_free_def)

lemma coord_skip_keeps:
  assumes "coord_inv h co fl" "coord_remove_skipped_blocks rid n co = Inr co'" shows "coord_keeps rid h co co'"
  using assms(2) skip_op.each_keeps [OF assms(1) [unfolded coord_inv_def]] coord_keeps_with
  by (auto simp: coord_remove_skipped_blocks_def elim!: bindE_eq_InrE)

lemma coord_cache_keeps:
  assumes "coord_inv h co fl" "enable_caching (coord_pool co)" "coord_cache_blocks sha r n co = Inr co'" shows "coord_keeps rid h co co'"
  using assms(2,3) cache_op.each_keeps [OF assms(1) [unfolded coord_inv_def]] coord_keeps_with
  by (auto simp: coord_cache_blocks_def elim!: bindE_eq_InrE)

lemma coord_computed_keeps:
  assumes "coord_inv h co fl" "length (single_type_managers co) \<le> length new" "0 \<le> ext"
    and "\<forall>i < length (single_type_managers co). take_ok (new ! i) loc ext (single_type_managers co ! i) (coord_pool co)"
    and "coord_allocate_new_computed_blocks rid new loc ext co = Inr co'"
  shows "coord_keeps rid h co co'"
  using assms(2-5) computed_op.each_keeps [OF assms(1) [unfolded coord_inv_def], of 0 new ext loc rid] coord_keeps_with
  by (auto simp: coord_allocate_new_computed_blocks_def elim!: bindE_eq_InrE)

lemma coord_allocate_keeps:
  assumes "coord_inv h co fl" "\<forall>m \<in> set (single_type_managers co). align_mode m \<longrightarrow> 0 \<le> main_toks" "coord_allocate_new_blocks rid nt main_toks enc co = Inr (bs, co')"
  shows "coord_keeps rid h co co' \<and> length bs = length (single_type_managers co)"
proof -
  obtain ms p where r: "each_manager_out (\<lambda>m. allocate_new_blocks rid (if mgr_class m = CrossAttentionManager then enc else nt) main_toks m)
      (single_type_managers co) (coord_pool co) = Inr (bs, ms, p)" "co' = with_managers co (ms, p)"
    using assms(3) by (auto simp: coord_allocate_new_blocks_def elim!: bindE_eq_InrE)
  have "keeps_all rid h (single_type_managers co) (coord_pool co) ms p"
    by (rule alloc_op.each_keeps [OF assms(1) [unfolded coord_inv_def] _ conjunct1 [OF each_manager_out [OF r(1)]]]) (use assms(2) in auto)
  then show ?thesis using coord_keeps_with each_manager_out [OF r(1)] r(2) by blast
qed

text \<open>Asking how many blocks a request needs may insert an empty list for it, no more.\<close>

lemma num_blocks_read:
  "get_num_blocks_to_allocate m p rid nt new cpt main_toks = Inr (k, m') \<Longrightarrow> m' = m \<or> m' = rtb_read rid m"
  by (auto simp: get_num_blocks_to_allocate_def mamba_num_blocks_to_allocate_def Let_def split: if_splits elim!: bindE_eq_InrE)

lemma sum_blocks_keeps:
  "sum_blocks_to_allocate rid nt new enc cpt main_toks p i ms = Inr (k, ms') \<Longrightarrow> managers_inv h ms p fl \<Longrightarrow>
   managers_inv h ms' p fl \<and> list_all2 (\<lambda>m m'. m' = m \<or> m' = rtb_read rid m) ms ms'"
proof (induction ms arbitrary: i k ms' h)
  case (Cons m ms)
  obtain k1 m1 k2 ms1 where r0: "(if mgr_class m = CrossAttentionManager then get_num_blocks_to_allocate m p rid enc [] 0 enc
      else bindE (py_index new (int i)) (\<lambda>bs. get_num_blocks_to_allocate m p rid nt bs cpt main_toks)) = Inr (k1, m1)"
    and r1: "sum_blocks_to_allocate rid nt new enc cpt main_toks p (Suc i) ms = Inr (k2, ms1)" "ms' = m1 # ms1"
    using Cons.prems(1) by (auto elim!: bindE_eq_InrE)
  have r: "m1 = m \<or> m1 = rtb_read rid m" "sum_blocks_to_allocate rid nt new enc cpt main_toks p (Suc i) ms = Inr (k2, ms1)" "ms' = m1 # ms1"
    using r0 r1 by (auto split: if_splits elim!: bindE_eq_InrE dest: num_blocks_read)
  have own: "owned m1 = owned m" using r(1) by auto
  have "mgr_fine m1 p" using Cons.prems(2) r(1) by (auto simp: managers_inv_rest mgr_fine_def nspec_def window_ok_def align_mode_def)
  moreover have "managers_inv (\<lambda>b. h b + nat (owned m b)) ms p fl" using Cons.prems(2) by (simp add: managers_inv_rest)
  ultimately show ?case using Cons.IH [OF r(2)] r(1,3) by (auto simp: managers_inv_rest own)
qed auto

lemma coord_ask_keeps:
  assumes "coord_inv h co fl" "coord_num_blocks_to_allocate rid nt new enc cpt main_toks co = Inr (k, co')"
  shows "coord_keeps rid h co co' \<and> coord_pool co' = coord_pool co \<and> coord_inv h co' fl"
proof -
  obtain ms where r: "sum_blocks_to_allocate rid nt new enc cpt main_toks (coord_pool co) 0 (single_type_managers co) = Inr (k, ms)"
    "co' = co\<lparr>single_type_managers := ms\<rparr>" using assms(2) by (auto simp: coord_num_blocks_to_allocate_def elim!: bindE_eq_InrE)
  note s = sum_blocks_keeps [OF r(1) assms(1) [unfolded coord_inv_def]]
  have "list_all2 (same_others rid) (single_type_managers co) ms"
    by (rule list_all2_mono [OF conjunct2 [OF s]]) (auto simp: same_others_def)
  then show ?thesis using s by (auto simp: coord_keeps_def keeps_all_def coord_inv_def r(2))
qed

text \<open>The constructor, for specifications whose managers take no blocks for themselves.\<close>

definition spec_fine :: "kv_spec \<Rightarrow> bool" where
  "spec_fine s \<longleftrightarrow> 0 < spec_block_size s \<and> 0 \<le> num_speculative_blocks s \<and> spec_class s \<noteq> SinkFullAttentionSpec
     \<and> (is_sliding_window s \<longrightarrow> 0 < window_of s) \<and> (has_class ChunkedLocalAttentionSpec s \<longrightarrow> 0 < chunk_of s)"

lemma build_managers_fresh:
  assumes "build_managers batched mml caching dcp pcp i gs p = Inr (ms, p')" "pool_inv p fl" "0 < dcp" "0 < pcp"
    and "\<forall>g \<in> set gs. \<forall>s. group_spec g = One_spec s \<longrightarrow> spec_fine s"
  shows "p' = p \<and> length ms = length gs \<and> (\<forall>m \<in> set ms. mgr_fine m p \<and> req_to_blocks m = [])"
  using assms(1,5)
proof (induction gs arbitrary: i ms)
  case (Cons g gs)
  obtain s m p1 ms1 where r: "group_spec g = One_spec s" "get_manager_for_kv_cache_spec s batched mml caching (int i) dcp pcp p = Inr (m, p1)"
    "build_managers batched mml caching dcp pcp (Suc i) gs p1 = Inr (ms1, p')" "ms = m # ms1"
    using Cons.prems(1) by (cases "group_spec g") (auto elim!: bindE_eq_InrE)
  have f: "spec_fine s" using Cons.prems(2) r(1) by simp
  have "0 < dcp * pcp" using assms(3,4) by simp
  then have "p1 = p" "mgr_fine m p" "req_to_blocks m = []"
    using r(2) f pool_invD(2) [OF assms(2)]
    by (auto simp: get_manager_for_kv_cache_spec_def spec_manager_map_def base_manager_def mgr_fine_def mgr_ok_def nspec_def window_ok_def
        spec_fine_def ids_ok_def rtb_get_def is_sliding_window_def has_class_def split: spec_class.splits elim!: bindE_eq_InrE)
  then show ?case using Cons.IH r(3,4) Cons.prems(2) by auto
qed simp

lemma coordinator_init_inv:
  assumes "coordinator_base_init config mml batched eagle caching events use_int dcp pcp hbs = Inr co" "0 < dcp" "0 < pcp"
    and "\<forall>g \<in> set (kv_cache_groups config). \<forall>s. group_spec g = One_spec s \<longrightarrow> spec_fine s"
  shows "(\<exists>fl. coord_inv (\<lambda>_. 0) co fl) \<and> length (single_type_managers co) = length (kv_cache_groups config)
    \<and> (\<forall>m \<in> set (single_type_managers co). req_to_blocks m = []) \<and> enable_caching (coord_pool co) = caching"
proof -
  obtain p ms p1 where r: "block_pool_init (num_blocks config) caching hbs events use_int = Inr p"
    "build_managers batched mml caching dcp pcp 0 (kv_cache_groups config) p = Inr (ms, p1)" "single_type_managers co = ms" "coord_pool co = p1"
    using assms(1) by (auto simp: coordinator_base_init_def Let_def elim!: bindE_eq_InrE)
  have n: "0 < num_blocks config" using r(1) by (auto simp: block_pool_init_def elim!: bindE_eq_InrE)
  obtain fl where p: "pool_inv p fl" "\<forall>b \<in> set (blocks p). rc p b = 0" "enable_caching p = caching"
    using block_pool_init_spec [OF n, of caching hbs events use_int] r(1) by auto
  note f = build_managers_fresh [OF r(2) p(1) assms(2-4)]
  have "(\<Sum>m \<leftarrow> ms. owned m b) = 0" for b
    using f by (intro sum_list_nonneg_eq_0_iff [THEN iffD2]) (auto simp: owned_def)
  then show ?thesis using f p r(3,4) by (auto simp: coord_inv_def managers_inv_def)
qed

lemma get_coordinator_inv:
  assumes "get_kv_cache_coordinator config mml batched eagle caching events use_int dcp pcp hbs = Inr co" "0 < dcp" "0 < pcp"
    and "\<forall>g \<in> set (kv_cache_groups config). \<forall>s. group_spec g = One_spec s \<longrightarrow> spec_fine s"
  shows "(\<exists>fl. coord_inv (\<lambda>_. 0) co fl) \<and> length (single_type_managers co) = length (kv_cache_groups config)
    \<and> (\<forall>m \<in> set (single_type_managers co). req_to_blocks m = []) \<and> enable_caching (coord_pool co) = caching"
proof -
  obtain co0 where "coordinator_base_init config mml batched eagle caching events use_int dcp pcp hbs = Inr co0"
    "single_type_managers co = single_type_managers co0" "coord_pool co = coord_pool co0"
    using assms(1) by (auto simp: get_kv_cache_coordinator_def unitary_init_def hybrid_init_def verify_and_split_kv_cache_groups_def Let_def
        split: if_splits elim!: bindE_eq_InrE)
  then show ?thesis using coordinator_init_inv [OF _ assms(2-4)] by (simp add: coord_inv_def)
qed

end
