(* ===== verification/Cache_Manager.thy ===== *)
theory Cache_Manager
  imports Ownership
begin

text \<open>
  \<open>vllm/v1/core/kv_cache_manager.py\<close>: the interface between the scheduler and the KV cache,
  with the statistics it keeps (\<open>vllm/v1/metrics/stats.py\<close>).

  The manager owns the coordinator; its block pool is the coordinator's. \<open>allocate_slots\<close>
  compares the tuple of blocks it is given with the pre-built empty one by identity, so
  \<open>KVCacheBlocks\<close> carries a flag that says whether its tuple is that object (a model has at
  least one KV cache group, so every other tuple is a different object). The metrics collector
  is left out.
\<close>

section \<open>KVCacheBlocks\<close>

record kv_cache_blocks =
  kvb_blocks :: hit_blocks
  kvb_prebuilt :: bool

definition kvb_add :: "kv_cache_blocks \<Rightarrow> kv_cache_blocks \<Rightarrow> kv_cache_blocks" where
  "kvb_add x y = \<lparr>kvb_blocks = map (\<lambda>(a, b). a @ b) (zip (kvb_blocks x) (kvb_blocks y)), kvb_prebuilt = False\<rparr>"

definition get_block_ids :: "block_pool \<Rightarrow> bool \<Rightarrow> kv_cache_blocks \<Rightarrow> int list list option" where
  "get_block_ids p allow_none x =
     (if allow_none \<and> list_all (\<lambda>g. length g = 0) (kvb_blocks x) then None
      else Some (map (map (\<lambda>b. block_id (pmem p b))) (kvb_blocks x)))"

definition get_unhashed_block_ids :: "block_pool \<Rightarrow> kv_cache_blocks \<Rightarrow> int list result" where
  "get_unhashed_block_ids p x =
     bindE (guardE (length (kvb_blocks x) = 1) AssertionError) (\<lambda>_.
     bindE (py_index (kvb_blocks x) 0) (\<lambda>g.
       Inr (map (\<lambda>b. block_id (pmem p b)) (filter (\<lambda>b. block_hash (pmem p b) = None) g))))"

definition get_unhashed_block_ids_all_groups :: "block_pool \<Rightarrow> kv_cache_blocks \<Rightarrow> int list list" where
  "get_unhashed_block_ids_all_groups p x =
     map (\<lambda>g. map (\<lambda>b. block_id (pmem p b))
                (filter (\<lambda>b. block_hash (pmem p b) = None \<and> \<not> is_null (pmem p b)) g)) (kvb_blocks x)"

definition new_empty :: "kv_cache_blocks \<Rightarrow> kv_cache_blocks" where
  "new_empty x = \<lparr>kvb_blocks = replicate (length (kvb_blocks x)) [], kvb_prebuilt = False\<rparr>"

section \<open>PrefixCacheStats\<close>

record prefix_cache_stats =
  stats_reset :: bool
  stats_requests :: int
  stats_queries :: int
  stats_hits :: int
  preempted_requests :: int
  preempted_queries :: int
  preempted_hits :: int

definition new_prefix_cache_stats :: prefix_cache_stats where
  "new_prefix_cache_stats = \<lparr>stats_reset = False, stats_requests = 0, stats_queries = 0, stats_hits = 0,
     preempted_requests = 0, preempted_queries = 0, preempted_hits = 0\<rparr>"

definition stats_record :: "int \<Rightarrow> int \<Rightarrow> bool \<Rightarrow> prefix_cache_stats \<Rightarrow> prefix_cache_stats" where
  "stats_record ntoks nhits preempted s =
     (if preempted
      then s\<lparr>preempted_requests := preempted_requests s + 1, preempted_queries := preempted_queries s + ntoks,
             preempted_hits := preempted_hits s + nhits\<rparr>
      else s\<lparr>stats_requests := stats_requests s + 1, stats_queries := stats_queries s + ntoks,
             stats_hits := stats_hits s + nhits\<rparr>)"

section \<open>KVCacheManager\<close>

record kv_cache_manager =
  km_max_model_len :: int
  km_enable_caching :: bool
  km_use_eagle :: bool
  km_log_stats :: bool
  km_stats :: "prefix_cache_stats option"
  coordinator :: kv_coordinator
  num_kv_cache_groups :: nat
  km_config :: kv_cache_config

definition kv_cache_manager_init ::
  "kv_cache_config \<Rightarrow> int \<Rightarrow> int \<Rightarrow> int option \<Rightarrow> bool \<Rightarrow> bool \<Rightarrow> bool \<Rightarrow> bool \<Rightarrow> bool \<Rightarrow> int \<Rightarrow> int \<Rightarrow> kv_cache_manager result" where
  "kv_cache_manager_init config mml hbs batched caching use_eagle log_stats events use_int dcp pcp =
     bindE (get_kv_cache_coordinator config mml (case batched of None \<Rightarrow> mml | Some n \<Rightarrow> n)
              use_eagle caching events use_int dcp pcp hbs) (\<lambda>co.
       Inr \<lparr>km_max_model_len = mml, km_enable_caching = caching, km_use_eagle = use_eagle, km_log_stats = log_stats,
            km_stats = (if log_stats then Some new_prefix_cache_stats else None), coordinator = co,
            num_kv_cache_groups = length (kv_cache_groups config), km_config = config\<rparr>)"

abbreviation km_pool :: "kv_cache_manager \<Rightarrow> block_pool" where
  "km_pool km \<equiv> coord_pool (coordinator km)"

definition set_km_pool :: "block_pool \<Rightarrow> kv_cache_manager \<Rightarrow> kv_cache_manager" where
  "set_km_pool p km = km\<lparr>coordinator := (coordinator km)\<lparr>coord_pool := p\<rparr>\<rparr>"

definition empty_kv_cache_blocks :: "kv_cache_manager \<Rightarrow> kv_cache_blocks" where
  "empty_kv_cache_blocks km = \<lparr>kvb_blocks = replicate (num_kv_cache_groups km) [], kvb_prebuilt = True\<rparr>"

definition create_kv_cache_blocks :: "kv_cache_manager \<Rightarrow> hit_blocks \<Rightarrow> kv_cache_blocks" where
  "create_kv_cache_blocks km bs =
     (if list_ex (\<lambda>g. g \<noteq> []) bs then \<lparr>kvb_blocks = bs, kvb_prebuilt = False\<rparr> else empty_kv_cache_blocks km)"

definition km_usage :: "kv_cache_manager \<Rightarrow> rat" where
  "km_usage km = get_usage (km_pool km)"

definition make_prefix_cache_stats :: "kv_cache_manager \<Rightarrow> prefix_cache_stats option \<times> kv_cache_manager" where
  "make_prefix_cache_stats km =
     (if \<not> km_log_stats km then (None, km)
      else (km_stats km, km\<lparr>km_stats := Some new_prefix_cache_stats\<rparr>))"

definition get_computed_blocks ::
  "request \<Rightarrow> kv_cache_manager \<Rightarrow> ((kv_cache_blocks \<times> int) \<times> kv_cache_manager) result option" where
  "get_computed_blocks r km =
     (if \<not> km_enable_caching km \<or> skip_reading_prefix_cache r
      then Some (Inr ((empty_kv_cache_blocks km, 0), km))
      else map_option (\<lambda>res. bindE res (\<lambda>(bs, hits).
             bindE (if km_log_stats km
                    then (case km_stats km of
                            None \<Rightarrow> Inl AssertionError
                          | Some s \<Rightarrow> Inr (km\<lparr>km_stats := Some (stats_record (num_tokens r) hits (0 < num_preemptions r) s)\<rparr>))
                    else Inr km)
               (\<lambda>km1. Inr ((create_kv_cache_blocks km bs, hits), km1))))
           (coord_find_longest_cache_hit (block_hashes r) (num_tokens r - 1) (coordinator km)))"

definition given_blocks :: "kv_cache_blocks option \<Rightarrow> kv_cache_manager \<Rightarrow> kv_cache_blocks" where
  "given_blocks new km = (case new of Some x \<Rightarrow> x | None \<Rightarrow> empty_kv_cache_blocks km)"

definition can_fit_full_sequence ::
  "request \<Rightarrow> int \<Rightarrow> kv_cache_blocks option \<Rightarrow> int \<Rightarrow> int \<Rightarrow> kv_cache_manager \<Rightarrow> (bool \<times> kv_cache_manager) result" where
  "can_fit_full_sequence r new_hits new ext enc km =
     (let blks = kvb_blocks (given_blocks new km);
          loc = num_computed_tokens r + new_hits;
          total_computed = min (loc + ext) (km_max_model_len km);
          full = min (num_tokens r) (km_max_model_len km)
      in bindE (coord_num_blocks_to_allocate (request_id r) full blks enc total_computed full (coordinator km)) (\<lambda>(k, co).
           Inr (k \<le> get_num_free_blocks (coord_pool co), km\<lparr>coordinator := co\<rparr>)))"

text \<open>The last part of \<open>allocate_slots\<close>: finalized tokens are cached, unless caching is off or delayed.\<close>

definition commit_slots ::
  "(bytes list \<Rightarrow> bytes) \<Rightarrow> request \<Rightarrow> int \<Rightarrow> bool \<Rightarrow> kv_cache_manager \<Rightarrow> hit_blocks \<Rightarrow> kv_coordinator
     \<Rightarrow> (kv_cache_blocks option \<times> kv_cache_manager) result" where
  "commit_slots sha r n delay km bs co =
     bindE (if \<not> km_enable_caching km \<or> delay then Inr co else coord_cache_blocks sha r (min n (num_tokens r)) co) (\<lambda>co'.
       Inr (Some (create_kv_cache_blocks km bs), km\<lparr>coordinator := co'\<rparr>))"

definition allocate_slots ::
  "(bytes list \<Rightarrow> bytes) \<Rightarrow> request \<Rightarrow> int \<Rightarrow> int \<Rightarrow> kv_cache_blocks option \<Rightarrow> int \<Rightarrow> int \<Rightarrow> bool \<Rightarrow> int
     \<Rightarrow> kv_cache_manager \<Rightarrow> (kv_cache_blocks option \<times> kv_cache_manager) result" where
  "allocate_slots sha r new_toks new_hits new lookahead ext delay enc km =
     (if new_toks = 0 \<and> ext = 0 then Inl ValueError
      else
        let x = given_blocks new km; rid = request_id r;
            loc = num_computed_tokens r + new_hits;
            total_computed = min (loc + ext) (km_max_model_len km);
            main_toks = total_computed + new_toks;
            need_slot = min (main_toks + lookahead) (km_max_model_len km)
        in bindE (coord_remove_skipped_blocks rid total_computed (coordinator km)) (\<lambda>co1.
           bindE (coord_num_blocks_to_allocate rid need_slot (kvb_blocks x) enc (loc + ext) main_toks co1) (\<lambda>(k, co2).
           if get_num_free_blocks (coord_pool co2) < k then Inr (None, km\<lparr>coordinator := co2\<rparr>)
           else bindE (if \<not> kvb_prebuilt x \<or> 0 < ext
                       then coord_allocate_new_computed_blocks rid (kvb_blocks x) loc ext co2
                       else Inr co2) (\<lambda>co3.
                bindE (coord_allocate_new_blocks rid need_slot main_toks enc co3) (\<lambda>(bs, co4).
                  commit_slots sha r (total_computed + new_toks) delay km bs co4)))))"

definition on_coordinator :: "kv_cache_manager \<Rightarrow> kv_coordinator result \<Rightarrow> kv_cache_manager result" where
  "on_coordinator km res = bindE res (\<lambda>co. Inr (km\<lparr>coordinator := co\<rparr>))"

definition km_free :: "request \<Rightarrow> kv_cache_manager \<Rightarrow> kv_cache_manager result" where
  "km_free r km = on_coordinator km (coord_free (request_id r) (coordinator km))"

definition km_remove_skipped_blocks :: "string \<Rightarrow> int \<Rightarrow> kv_cache_manager \<Rightarrow> kv_cache_manager result" where
  "km_remove_skipped_blocks rid n km = on_coordinator km (coord_remove_skipped_blocks rid n (coordinator km))"

definition km_evict_blocks :: "int list \<Rightarrow> kv_cache_manager \<Rightarrow> kv_cache_manager result" where
  "km_evict_blocks ids km = bindE (evict_blocks ids (km_pool km)) (\<lambda>p. Inr (set_km_pool p km))"

definition km_reset_prefix_cache :: "kv_cache_manager \<Rightarrow> (bool \<times> kv_cache_manager) result" where
  "km_reset_prefix_cache km =
     (case reset_prefix_cache (km_pool km) of
        (False, p) \<Rightarrow> Inr (False, set_km_pool p km)
      | (True, p) \<Rightarrow>
          if km_log_stats km
          then (case km_stats km of
                  None \<Rightarrow> Inl AssertionError
                | Some s \<Rightarrow> Inr (True, (set_km_pool p km)\<lparr>km_stats := Some (s\<lparr>stats_reset := True\<rparr>)\<rparr>))
          else Inr (True, set_km_pool p km))"

definition km_num_common_prefix_blocks :: "string \<Rightarrow> kv_cache_manager \<Rightarrow> int list \<times> kv_cache_manager" where
  "km_num_common_prefix_blocks rid km =
     (let (ns, co) = coord_num_common_prefix_blocks rid (coordinator km) in (ns, km\<lparr>coordinator := co\<rparr>))"

definition km_take_events :: "kv_cache_manager \<Rightarrow> kv_event list \<times> kv_cache_manager" where
  "km_take_events km = (let (evs, p) = take_events (km_pool km) in (evs, set_km_pool p km))"

definition km_get_blocks :: "string \<Rightarrow> kv_cache_manager \<Rightarrow> kv_cache_blocks" where
  "km_get_blocks rid km = create_kv_cache_blocks km (coord_get_blocks rid (coordinator km))"

definition km_get_block_ids :: "string \<Rightarrow> kv_cache_manager \<Rightarrow> int list list option" where
  "km_get_block_ids rid km = get_block_ids (km_pool km) False (km_get_blocks rid km)"

definition km_cache_blocks :: "(bytes list \<Rightarrow> bytes) \<Rightarrow> request \<Rightarrow> int \<Rightarrow> kv_cache_manager \<Rightarrow> kv_cache_manager result" where
  "km_cache_blocks sha r n km =
     (if km_enable_caching km then on_coordinator km (coord_cache_blocks sha r n (coordinator km)) else Inr km)"

definition km_take_new_block_ids :: "kv_cache_manager \<Rightarrow> int list \<times> kv_cache_manager" where
  "km_take_new_block_ids km =
     (let rs = map take_new_block_ids (single_type_managers (coordinator km))
      in (concat (map fst rs), km\<lparr>coordinator := (coordinator km)\<lparr>single_type_managers := map snd rs\<rparr>\<rparr>))"

definition km_new_step_starts :: "kv_cache_manager \<Rightarrow> kv_cache_manager" where
  "km_new_step_starts km = km\<lparr>coordinator := coord_new_step_starts (coordinator km)\<rparr>"

section \<open>Ownership over all requests and groups\<close>

definition km_inv :: "kv_cache_manager \<Rightarrow> bool" where
  "km_inv km \<longleftrightarrow> (\<exists>fl. coord_inv (\<lambda>_. 0) (coordinator km) fl)
     \<and> length (single_type_managers (coordinator km)) = num_kv_cache_groups km
     \<and> enable_caching (km_pool km) = km_enable_caching km"

text \<open>What a caller of \<open>allocate_slots\<close> has to provide.\<close>

definition hits_ok :: "kv_cache_blocks \<Rightarrow> int \<Rightarrow> int \<Rightarrow> kv_cache_manager \<Rightarrow> bool" where
  "hits_ok x loc ext km \<longleftrightarrow> length (kvb_blocks x) = num_kv_cache_groups km
     \<and> (\<forall>i < num_kv_cache_groups km. take_ok (kvb_blocks x ! i) loc ext (single_type_managers (coordinator km) ! i) (km_pool km))"

text \<open>Align mode counts in tokens that have to be non-negative; the other modes take any count.\<close>

definition no_align :: "kv_cache_manager \<Rightarrow> bool" where
  "no_align km \<longleftrightarrow> (\<forall>m \<in> set (single_type_managers (coordinator km)). \<not> align_mode m)"

definition slots_ok :: "request \<Rightarrow> int \<Rightarrow> int \<Rightarrow> kv_cache_blocks option \<Rightarrow> int \<Rightarrow> kv_cache_manager \<Rightarrow> bool" where
  "slots_ok r new_toks new_hits new ext km \<longleftrightarrow> 0 \<le> ext
     \<and> (kvb_prebuilt (given_blocks new km) \<and> ext = 0 \<or> hits_ok (given_blocks new km) (num_computed_tokens r + new_hits) ext km)
     \<and> (no_align km \<or> 0 \<le> min (num_computed_tokens r + new_hits + ext) (km_max_model_len km) + new_toks)"

lemma coord_keeps_refl: "coord_inv h co fl \<Longrightarrow> coord_keeps rid h co co"
  by (simp add: coord_keeps_def coord_inv_def keeps_all_refl)

lemma coord_keeps_caching: "coord_keeps rid h co co' \<Longrightarrow> enable_caching (coord_pool co') = enable_caching (coord_pool co)"
  by (simp add: coord_keeps_def keeps_all_def same_config_def)

lemma coord_keeps_hits:
  assumes "coord_keeps rid h co co'" "i < length (single_type_managers co)" "take_ok bs loc ext (single_type_managers co ! i) (coord_pool co)"
  shows "take_ok bs loc ext (single_type_managers co' ! i) (coord_pool co')"
proof -
  have k: "same_config (coord_pool co) (coord_pool co')" "list_all2 (same_others rid) (single_type_managers co) (single_type_managers co')"
    using assms(1) by (simp_all add: coord_keeps_def keeps_all_def)
  have "same_others rid (single_type_managers co ! i) (single_type_managers co' ! i)" by (rule list_all2_nthD [OF k(2) assms(2)])
  then show ?thesis using take_ok_config [OF assms(3) k(1)] by (simp add: take_ok_def same_others_def same_mgr_def)
qed

lemma coord_keeps_align:
  assumes "coord_keeps rid h co co'"
  shows "(\<forall>m \<in> set (single_type_managers co'). \<not> align_mode m) = (\<forall>m \<in> set (single_type_managers co). \<not> align_mode m)"
proof -
  have "list_all2 (same_others rid) (single_type_managers co) (single_type_managers co')"
    using assms by (simp add: coord_keeps_def keeps_all_def)
  then show ?thesis by induction (auto simp: same_others_def same_mgr_nspec)
qed

lemma allocate_slots_keeps:
  assumes inv: "km_inv km" and ok: "slots_ok r new_toks new_hits new ext km"
    and run: "allocate_slots sha r new_toks new_hits new lookahead ext delay enc km = Inr (out, km')"
  shows "coord_keeps (request_id r) (\<lambda>_. 0) (coordinator km) (coordinator km') \<and> km' = km\<lparr>coordinator := coordinator km'\<rparr>"
proof -
  let ?rid = "request_id r" and ?x = "given_blocks new km" and ?loc = "num_computed_tokens r + new_hits"
  let ?tc = "min (?loc + ext) (km_max_model_len km)"
  let ?need = "min (?tc + new_toks + lookahead) (km_max_model_len km)"
  obtain fl where c: "coord_inv (\<lambda>_. 0) (coordinator km) fl" using inv by (auto simp: km_inv_def)
  have len: "length (single_type_managers (coordinator km)) = num_kv_cache_groups km" "enable_caching (km_pool km) = km_enable_caching km"
    using inv by (simp_all add: km_inv_def)
  have o: "no_align km \<or> 0 \<le> ?tc + new_toks" "0 \<le> ext" "kvb_prebuilt ?x \<and> ext = 0 \<or> hits_ok ?x ?loc ext km"
    using ok by (auto simp: slots_ok_def)
  obtain co1 k co2 where 1: "coord_remove_skipped_blocks ?rid ?tc (coordinator km) = Inr co1"
    and 2: "coord_num_blocks_to_allocate ?rid ?need (kvb_blocks ?x) enc (?loc + ext) (?tc + new_toks) co1 = Inr (k, co2)"
    and 3: "(if get_num_free_blocks (coord_pool co2) < k then Inr (None, km\<lparr>coordinator := co2\<rparr>)
           else bindE (if \<not> kvb_prebuilt ?x \<or> 0 < ext
                       then coord_allocate_new_computed_blocks ?rid (kvb_blocks ?x) ?loc ext co2
                       else Inr co2) (\<lambda>co3.
                bindE (coord_allocate_new_blocks ?rid ?need (?tc + new_toks) enc co3) (\<lambda>(bs, co4).
                  commit_slots sha r (?tc + new_toks) delay km bs co4))) = Inr (out, km')"
    using run unfolding allocate_slots_def Let_def by (auto split: if_splits elim!: bindE_eq_InrE simp del: bindE_Inr)
  have k1: "coord_keeps ?rid (\<lambda>_. 0) (coordinator km) co1" by (rule coord_skip_keeps [OF c 1])
  obtain fl1 where c1: "coord_inv (\<lambda>_. 0) co1 fl1" using coord_keeps_inv [OF k1] by blast
  have k2: "coord_keeps ?rid (\<lambda>_. 0) (coordinator km) co2" by (rule coord_keeps_trans [OF k1 conjunct1 [OF coord_ask_keeps [OF c1 2]]])
  show ?thesis
  proof (cases "get_num_free_blocks (coord_pool co2) < k")
    case True
    then show ?thesis using 3 k2 by auto
  next
    case False
    then obtain co3 bs co4 co5 where 4: "(if \<not> kvb_prebuilt ?x \<or> 0 < ext then coord_allocate_new_computed_blocks ?rid (kvb_blocks ?x) ?loc ext co2
                       else Inr co2) = Inr co3"
      and 5: "coord_allocate_new_blocks ?rid ?need (?tc + new_toks) enc co3 = Inr (bs, co4)"
      and 6: "(if \<not> km_enable_caching km \<or> delay then Inr co4 else coord_cache_blocks sha r (min (?tc + new_toks) (num_tokens r)) co4) = Inr co5"
      and 7: "km' = km\<lparr>coordinator := co5\<rparr>"
      using 3 by (auto simp: commit_slots_def elim!: bindE_eq_InrE)
    obtain fl2 where c2: "coord_inv (\<lambda>_. 0) co2 fl2" using coord_keeps_inv [OF k2] by blast
    have "coord_keeps ?rid (\<lambda>_. 0) co2 co3"
    proof (cases "kvb_prebuilt ?x \<and> ext = 0")
      case True
      then show ?thesis using 4 coord_keeps_refl [OF c2] by simp
    next
      case False
      then have h: "hits_ok ?x ?loc ext km" using o(3) by blast
      have h2: "\<forall>i < length (single_type_managers co2). take_ok (kvb_blocks ?x ! i) ?loc ext (single_type_managers co2 ! i) (coord_pool co2)"
        "length (single_type_managers co2) \<le> length (kvb_blocks ?x)"
        using coord_keeps_hits [OF k2] h len(1) coord_keeps_length [OF k2] by (auto simp: hits_ok_def)
      then show ?thesis
        using 4 coord_computed_keeps [OF c2 h2(2) o(2) h2(1)] coord_keeps_refl [OF c2] by (auto split: if_splits)
    qed
    then have k3: "coord_keeps ?rid (\<lambda>_. 0) (coordinator km) co3" by (rule coord_keeps_trans [OF k2])
    obtain fl3 where c3: "coord_inv (\<lambda>_. 0) co3 fl3" using coord_keeps_inv [OF k3] by blast
    have al: "\<forall>m \<in> set (single_type_managers co3). align_mode m \<longrightarrow> 0 \<le> ?tc + new_toks"
      using o(1) coord_keeps_align [OF k3] by (auto simp: no_align_def)
    have k4: "coord_keeps ?rid (\<lambda>_. 0) (coordinator km) co4"
      by (rule coord_keeps_trans [OF k3 conjunct1 [OF coord_allocate_keeps [OF c3 al 5]]])
    obtain fl4 where c4: "coord_inv (\<lambda>_. 0) co4 fl4" using coord_keeps_inv [OF k4] by blast
    have "coord_keeps ?rid (\<lambda>_. 0) co4 co5"
      using 6 coord_cache_keeps [OF c4] coord_keeps_refl [OF c4] coord_keeps_caching [OF k4] len(2) by (auto split: if_splits)
    then show ?thesis using coord_keeps_trans [OF k4] 7 by simp
  qed
qed

text \<open>
  The calls of the scheduler. Block ids to evict are non-negative; everything else is
  unrestricted.
\<close>

inductive km_step :: "kv_cache_manager \<Rightarrow> kv_cache_manager \<Rightarrow> bool" where
  slots: "\<lbrakk>slots_ok r new_toks new_hits new ext km;
     allocate_slots sha r new_toks new_hits new lookahead ext delay enc km = Inr (out, km')\<rbrakk> \<Longrightarrow> km_step km km'"
| computed: "get_computed_blocks r km = Some (Inr (res, km')) \<Longrightarrow> km_step km km'"
| fit: "can_fit_full_sequence r new_hits new ext enc km = Inr (res, km') \<Longrightarrow> km_step km km'"
| free: "km_free r km = Inr km' \<Longrightarrow> km_step km km'"
| skip: "km_remove_skipped_blocks rid n km = Inr km' \<Longrightarrow> km_step km km'"
| cache: "km_cache_blocks sha r n km = Inr km' \<Longrightarrow> km_step km km'"
| evict: "\<lbrakk>\<forall>i \<in> set ids. 0 \<le> i; km_evict_blocks ids km = Inr km'\<rbrakk> \<Longrightarrow> km_step km km'"
| reset: "km_reset_prefix_cache km = Inr (res, km') \<Longrightarrow> km_step km km'"
| events: "km_take_events km = (evs, km') \<Longrightarrow> km_step km km'"
| common: "km_num_common_prefix_blocks rid km = (ns, km') \<Longrightarrow> km_step km km'"
| new_ids: "km_take_new_block_ids km = (ids, km') \<Longrightarrow> km_step km km'"
| new_step: "km_step km (km_new_step_starts km)"
| stats: "make_prefix_cache_stats km = (st, km') \<Longrightarrow> km_step km km'"

inductive km_reach :: "kv_cache_manager \<Rightarrow> bool" where
  init: "\<lbrakk>kv_cache_manager_init config mml hbs batched caching use_eagle log_stats events use_int dcp pcp = Inr km; 0 < dcp; 0 < pcp;
     \<forall>g \<in> set (kv_cache_groups config). \<forall>s. group_spec g = One_spec s \<longrightarrow> spec_fine s\<rbrakk> \<Longrightarrow> km_reach km"
| step: "\<lbrakk>km_reach km; km_step km km'\<rbrakk> \<Longrightarrow> km_reach km'"

lemma km_inv_coord:
  assumes "km_inv km" "coord_keeps rid (\<lambda>_. 0) (coordinator km) co"
  shows "km_inv (km\<lparr>coordinator := co\<rparr>)"
  using assms(1) coord_keeps_inv [OF assms(2)] coord_keeps_length [OF assms(2)] coord_keeps_caching [OF assms(2)]
  by (auto simp: km_inv_def)

lemma km_inv_stats: "km_inv (km\<lparr>km_stats := s\<rparr>) = km_inv km"
  by (simp add: km_inv_def)

text \<open>Steps of the pool alone: the holders are the lists of the managers.\<close>

definition held :: "manager list \<Rightarrow> blk_ref \<Rightarrow> nat" where
  "held ms b = nat (\<Sum>m \<leftarrow> ms. owned m b)"

lemma int_held: "int (held ms b) = (\<Sum>m \<leftarrow> ms. owned m b)"
  by (simp add: held_def sum_owned_nonneg)

lemma managers_owned_inv: "managers_inv (\<lambda>_. 0) ms p fl \<Longrightarrow> owned_inv (p, held ms)"
  by (auto simp: managers_inv_def owned_inv_def int_held)

lemma pool_step_managers:
  assumes "managers_inv (\<lambda>_. 0) ms p fl" "pool_step (p, held ms) (p', held ms)" "same_config p p'"
  shows "\<exists>fl'. managers_inv (\<lambda>_. 0) ms p' fl'"
proof -
  have "owned_inv (p', held ms)" by (rule pool_step_inv [OF assms(2) managers_owned_inv [OF assms(1)]])
  moreover have "\<forall>m \<in> set ms. mgr_fine m p'" using assms(1) mgr_fine_config [OF _ assms(3)] by (simp add: managers_inv_def)
  ultimately show ?thesis by (auto simp: managers_inv_def owned_inv_def int_held)
qed

lemma km_inv_pool:
  assumes "km_inv km" "\<And>h. pool_step (km_pool km, h) (p, h)" "same_config (km_pool km) p"
  shows "km_inv (set_km_pool p km)"
proof -
  obtain fl where "managers_inv (\<lambda>_. 0) (single_type_managers (coordinator km)) (km_pool km) fl"
    using assms(1) by (auto simp: km_inv_def coord_inv_def)
  from pool_step_managers [OF this assms(2,3)] assms(1,3) show ?thesis
    by (auto simp: km_inv_def coord_inv_def set_km_pool_def same_config_def)
qed

text \<open>Steps that change nothing of the managers but bookkeeping that ownership does not depend on.\<close>

definition light :: "manager \<Rightarrow> manager \<Rightarrow> bool" where
  "light m m' \<longleftrightarrow> (\<exists>ids step. m' = m\<lparr>new_block_ids := ids, cached_blocks_this_step := step\<rparr>) \<or> (\<exists>rid. m' = rtb_read rid m)"

lemma light_owned: "light m m' \<Longrightarrow> owned m' b = owned m b"
  by (auto simp: light_def owned_def [of "m\<lparr>new_block_ids := _, cached_blocks_this_step := _\<rparr>"] owned_def [of m])

lemma light_fine:
  assumes "light m m'" "mgr_fine m p" shows "mgr_fine m' p"
proof -
  consider ids step where "m' = m\<lparr>new_block_ids := ids, cached_blocks_this_step := step\<rparr>" | rid where "m' = rtb_read rid m"
    using assms(1) unfolding light_def by blast
  then show ?thesis
  proof cases
    case 1
    then have "rtb_get r m' = rtb_get r m" for r by (simp add: rtb_get_def)
    then show ?thesis using assms(2) unfolding 1 by (simp add: mgr_fine_def mgr_ok_def nspec_def window_ok_def align_mode_def)
  next
    case 2
    then show ?thesis using assms(2) by (simp add: mgr_fine_def nspec_def window_ok_def align_mode_def)
  qed
qed

lemma light_inv:
  "managers_inv h ms p fl \<Longrightarrow> list_all2 light ms ms' \<Longrightarrow> managers_inv h ms' p fl"
proof (induction ms arbitrary: h ms')
  case (Cons m ms)
  then obtain m' ms1 where ms': "ms' = m' # ms1" "light m m'" "list_all2 light ms ms1" by (auto simp: list_all2_Cons1)
  then show ?case using Cons.IH [of "\<lambda>b. h b + nat (owned m b)" ms1] Cons.prems(1) light_fine light_owned [OF ms'(2)]
    by (simp add: managers_inv_rest)
qed simp

lemma km_inv_light:
  assumes "km_inv km" "list_all2 light (single_type_managers (coordinator km)) ms"
  shows "km_inv (km\<lparr>coordinator := (coordinator km)\<lparr>single_type_managers := ms\<rparr>\<rparr>)"
  using assms light_inv [OF _ assms(2)] list_all2_lengthD [OF assms(2)] by (auto simp: km_inv_def coord_inv_def)

lemma list_all2_map_light: "(\<And>m. light m (f m)) \<Longrightarrow> list_all2 light ms (map f ms)"
  by (simp add: list_all2_conv_all_nth)

lemma km_init_inv:
  assumes "kv_cache_manager_init config mml hbs batched caching use_eagle log_stats events use_int dcp pcp = Inr km" "0 < dcp" "0 < pcp"
    and "\<forall>g \<in> set (kv_cache_groups config). \<forall>s. group_spec g = One_spec s \<longrightarrow> spec_fine s"
  shows "km_inv km"
proof -
  obtain co where co: "get_kv_cache_coordinator config mml (case batched of None \<Rightarrow> mml | Some n \<Rightarrow> n) use_eagle caching events use_int dcp pcp hbs = Inr co"
    "coordinator km = co" "num_kv_cache_groups km = length (kv_cache_groups config)" "km_enable_caching km = caching"
    using assms(1) by (auto simp: kv_cache_manager_init_def elim!: bindE_eq_InrE)
  then show ?thesis using get_coordinator_inv [OF co(1) assms(2-4)] by (simp add: km_inv_def)
qed

text \<open>Each call keeps the invariant.\<close>

lemma km_invE:
  assumes "km_inv km"
  obtains fl where "coord_inv (\<lambda>_. 0) (coordinator km) fl" "pool_inv (km_pool km) fl" "enable_caching (km_pool km) = km_enable_caching km"
  using assms by (auto simp: km_inv_def coord_inv_def managers_inv_def)

lemma slots_inv:
  assumes "km_inv km" "slots_ok r new_toks new_hits new ext km"
    and "allocate_slots sha r new_toks new_hits new lookahead ext delay enc km = Inr (out, km')"
  shows "km_inv km'"
  using allocate_slots_keeps [OF assms] km_inv_coord [OF assms(1)] by metis

lemma computed_inv: "km_inv km \<Longrightarrow> get_computed_blocks r km = Some (Inr (res, km')) \<Longrightarrow> km_inv km'"
  by (auto simp: get_computed_blocks_def km_inv_stats split: if_splits option.splits elim!: bindE_eq_InrE)

lemma fit_inv:
  assumes "km_inv km" "can_fit_full_sequence r new_hits new ext enc km = Inr (res, km')" shows "km_inv km'"
proof -
  obtain k co where co: "coord_num_blocks_to_allocate (request_id r) (min (num_tokens r) (km_max_model_len km))
      (kvb_blocks (given_blocks new km)) enc (min (num_computed_tokens r + new_hits + ext) (km_max_model_len km))
      (min (num_tokens r) (km_max_model_len km)) (coordinator km) = Inr (k, co)" "km' = km\<lparr>coordinator := co\<rparr>"
    using assms(2) by (auto simp: can_fit_full_sequence_def Let_def elim!: bindE_eq_InrE)
  obtain fl where "coord_inv (\<lambda>_. 0) (coordinator km) fl" using assms(1) by (rule km_invE)
  from coord_ask_keeps [OF this co(1)] show ?thesis using km_inv_coord [OF assms(1)] co(2) by blast
qed

lemma free_inv:
  assumes "km_inv km" "km_free r km = Inr km'" shows "km_inv km'"
proof -
  obtain fl where "coord_inv (\<lambda>_. 0) (coordinator km) fl" using assms(1) by (rule km_invE)
  from coord_free_keeps [OF this, of "request_id r"] show ?thesis using km_inv_coord [OF assms(1)] assms(2)
    by (auto simp: km_free_def on_coordinator_def)
qed

lemma skip_inv:
  assumes "km_inv km" "km_remove_skipped_blocks rid n km = Inr km'" shows "km_inv km'"
proof -
  obtain co where co: "coord_remove_skipped_blocks rid n (coordinator km) = Inr co" "km' = km\<lparr>coordinator := co\<rparr>"
    using assms(2) by (auto simp: km_remove_skipped_blocks_def on_coordinator_def elim!: bindE_eq_InrE)
  obtain fl where "coord_inv (\<lambda>_. 0) (coordinator km) fl" using assms(1) by (rule km_invE)
  from coord_skip_keeps [OF this co(1)] show ?thesis using km_inv_coord [OF assms(1)] co(2) by simp
qed

lemma cache_inv:
  assumes "km_inv km" "km_cache_blocks sha r n km = Inr km'" shows "km_inv km'"
proof (cases "km_enable_caching km")
  case True
  then obtain co where co: "coord_cache_blocks sha r n (coordinator km) = Inr co" "km' = km\<lparr>coordinator := co\<rparr>"
    using assms(2) by (auto simp: km_cache_blocks_def on_coordinator_def elim!: bindE_eq_InrE)
  obtain fl where "coord_inv (\<lambda>_. 0) (coordinator km) fl" "enable_caching (km_pool km)" using assms(1) True by (auto elim: km_invE)
  from coord_cache_keeps [OF this co(1)] show ?thesis using km_inv_coord [OF assms(1)] co(2) by simp
qed (use assms in \<open>simp add: km_cache_blocks_def\<close>)

lemma evict_inv:
  assumes "km_inv km" "\<forall>i \<in> set ids. 0 \<le> i" "km_evict_blocks ids km = Inr km'" shows "km_inv km'"
proof -
  obtain p where p: "evict_blocks ids (km_pool km) = Inr p" "km' = set_km_pool p km"
    using assms(3) by (auto simp: km_evict_blocks_def elim!: bindE_eq_InrE)
  obtain fl where fl: "pool_inv (km_pool km) fl" using assms(1) by (rule km_invE)
  have r: "\<forall>i \<in> set ids. 0 \<le> i \<and> i < num_gpu_blocks (km_pool km)"
    using assms(2) evict_blocks_in_range [OF p(1)] pool_invD(2) [OF fl] by (auto simp: ids_ok_def)
  have "same_config (km_pool km) p" using evict_blocks_spec [OF fl r] p(1) by auto
  then show ?thesis using km_inv_pool [OF assms(1)] pool_step.evict [OF assms(2) p(1)] p(2) by simp
qed

lemma reset_inv:
  assumes "km_inv km" "km_reset_prefix_cache km = Inr (res, km')" shows "km_inv km'"
proof -
  obtain ok p where p: "reset_prefix_cache (km_pool km) = (ok, p)" by force
  have "same_config (km_pool km) p"
    using p by (auto simp: reset_prefix_cache_def Let_def set_pmem_def same_config_def split: if_splits)
  then have "km_inv (set_km_pool p km)" using km_inv_pool [OF assms(1)] pool_step.reset [OF p] by blast
  moreover have "km' = set_km_pool p km \<or> (\<exists>s. km' = (set_km_pool p km)\<lparr>km_stats := s\<rparr>)"
    using assms(2) p by (auto simp: km_reset_prefix_cache_def split: bool.splits if_splits option.splits)
  ultimately show ?thesis using km_inv_stats by auto
qed

lemma events_inv:
  assumes "km_inv km" "km_take_events km = (evs, km')" shows "km_inv km'"
proof -
  obtain es p where p: "take_events (km_pool km) = (es, p)" by force
  have "same_config (km_pool km) p" using p by (auto simp: take_events_def same_config_def split: if_splits)
  then show ?thesis using km_inv_pool [OF assms(1)] pool_step.events [OF p] assms(2) p by (auto simp: km_take_events_def)
qed

lemma common_inv:
  assumes "km_inv km" "km_num_common_prefix_blocks rid km = (ns, km')" shows "km_inv km'"
proof -
  let ?f = "\<lambda>m. snd (get_num_common_prefix_blocks rid m (km_pool km))"
  have "light m (?f m)" for m
  proof (cases "mgr_class m \<in> {FullAttentionManager, SinkFullAttentionManager}")
    case False
    then show ?thesis unfolding light_def by (intro disjI1 exI [of _ "new_block_ids m"] exI [of _ "cached_blocks_this_step m"])
        (simp add: get_num_common_prefix_blocks_def)
  qed (auto simp: light_def get_num_common_prefix_blocks_def Let_def)
  then have "km_inv (km\<lparr>coordinator := (coordinator km)\<lparr>single_type_managers := map ?f (single_type_managers (coordinator km))\<rparr>\<rparr>)"
    by (intro km_inv_light [OF assms(1)] list_all2_map_light)
  then show ?thesis using assms
    by (auto simp: km_num_common_prefix_blocks_def coord_num_common_prefix_blocks_def Let_def o_def split: if_splits)
qed

lemma new_ids_inv:
  assumes "km_inv km" "km_take_new_block_ids km = (ids, km')" shows "km_inv km'"
proof -
  have "light m (snd (take_new_block_ids m))" for m
    unfolding light_def take_new_block_ids_def by (intro disjI1 exI [of _ "[]"] exI [of _ "cached_blocks_this_step m"]) simp
  from km_inv_light [OF assms(1) list_all2_map_light [OF this]] assms(2)
  show ?thesis by (auto simp: km_take_new_block_ids_def Let_def o_def)
qed

lemma new_step_inv:
  assumes "km_inv km" shows "km_inv (km_new_step_starts km)"
proof -
  have "light m (new_step_starts m)" for m
    unfolding light_def new_step_starts_def
    by (intro disjI1 exI [of _ "new_block_ids m"] exI [of _ "if mgr_class m = MambaManager then {} else cached_blocks_this_step m"]) simp
  from km_inv_light [OF assms list_all2_map_light [OF this]] show ?thesis
    by (simp add: km_new_step_starts_def coord_new_step_starts_def)
qed

lemma stats_inv: "km_inv km \<Longrightarrow> make_prefix_cache_stats km = (st, km') \<Longrightarrow> km_inv km'"
  by (auto simp: make_prefix_cache_stats_def km_inv_stats split: if_splits)

lemmas km_op_invs = slots_inv computed_inv fit_inv free_inv skip_inv cache_inv evict_inv reset_inv events_inv common_inv
  new_ids_inv new_step_inv stats_inv

lemma km_step_inv: "km_step km km' \<Longrightarrow> km_inv km \<Longrightarrow> km_inv km'"
  by (induction rule: km_step.induct) (blast intro: km_op_invs)+

lemma km_reach_inv: "km_reach km \<Longrightarrow> km_inv km"
  by (induction rule: km_reach.induct) (auto intro: km_init_inv km_step_inv)

section \<open>One full-attention group\<close>

text \<open>The calls of the coordinator on its only manager.\<close>

lemma full_skipped: "mgr_class m = FullAttentionManager \<Longrightarrow> get_num_skipped_tokens m n = 0"
  by (simp add: get_num_skipped_tokens_def)

lemma full_remove_skipped:
  assumes "single_type_managers co = [m]" "mgr_class m = FullAttentionManager"
  shows "coord_remove_skipped_blocks rid n co = Inr co"
  using assms by (simp add: coord_remove_skipped_blocks_def remove_skipped_blocks_def base_remove_skipped_blocks_def full_skipped with_managers_def)

lemma full_ask:
  assumes "single_type_managers co = [m]" "mgr_class m = FullAttentionManager" "base_num_blocks_to_allocate m (coord_pool co) rid nt bs cpt = Inr k"
  shows "coord_num_blocks_to_allocate rid nt [bs] enc cpt main_toks co = Inr (k, co)"
proof -
  have "co\<lparr>single_type_managers := [m]\<rparr> = co" using assms(1) by simp
  then show ?thesis using assms by (simp add: coord_num_blocks_to_allocate_def get_num_blocks_to_allocate_def py_index_def)
qed

lemma full_allocate:
  assumes "single_type_managers co = [m]" "mgr_class m = FullAttentionManager" "base_allocate_new_blocks rid nt m (coord_pool co) = Inr (bs, m', p')"
  shows "coord_allocate_new_blocks rid nt main_toks enc co = Inr ([bs], co\<lparr>single_type_managers := [m'], coord_pool := p'\<rparr>)"
  using assms by (simp add: coord_allocate_new_blocks_def allocate_new_blocks_def with_managers_def)

lemma full_computed:
  assumes "single_type_managers co = [m]" "mgr_class m = FullAttentionManager" "base_allocate_new_computed_blocks rid bs loc ext m (coord_pool co) = Inr (m', p')"
  shows "coord_allocate_new_computed_blocks rid [bs] loc ext co = Inr (co\<lparr>single_type_managers := [m'], coord_pool := p'\<rparr>)"
  using assms by (simp add: coord_allocate_new_computed_blocks_def allocate_new_computed_blocks_def with_managers_def py_index_def)

lemma km_one_group:
  assumes "km_inv km" "single_type_managers (coordinator km) = [m]"
  obtains fl where "mgr_inv (\<lambda>_. 0) m (km_pool km) fl" "num_kv_cache_groups km = 1" "get_num_free_blocks (km_pool km) = int (length fl)"
proof -
  obtain fl where "coord_inv (\<lambda>_. 0) (coordinator km) fl" "pool_inv (km_pool km) fl" using assms(1) by (rule km_invE)
  moreover have "num_kv_cache_groups km = 1" using assms by (simp add: km_inv_def)
  ultimately show ?thesis using that [of fl] pool_invD(8) [of "km_pool km" fl] assms(2)
    by (simp add: coord_inv_def managers_inv_Cons mgr_good_def get_num_free_blocks_def)
qed

lemma plain_ask:
  assumes "mgr_class m = FullAttentionManager" "max_admission_blocks m = None"
  shows "base_num_blocks_to_allocate m p rid nt [] cpt = Inr (max (cdiv nt (block_size m) - int (length (rtb_get rid m))) 0)"
  using assms by (simp add: base_num_blocks_to_allocate_def Let_def full_skipped get_num_evictable_blocks_def py_from_def)

lemma slots_plain:
  fixes lookahead :: int and r :: request
  assumes inv: "km_inv km" and one: "single_type_managers (coordinator km) = [m]" "mgr_class m = FullAttentionManager" "max_admission_blocks m = None"
    and new_toks: "0 < new_toks"
  defines "tc \<equiv> min (num_computed_tokens r) (km_max_model_len km)"
  defines "need \<equiv> min (tc + new_toks + lookahead) (km_max_model_len km)"
  defines "k \<equiv> cdiv need (block_size m) - int (length (rtb_get (request_id r) m))"
  shows "get_num_free_blocks (km_pool km) < k \<Longrightarrow> allocate_slots sha r new_toks 0 None lookahead 0 delay enc km = Inr (None, km)"
    and "k \<le> get_num_free_blocks (km_pool km) \<Longrightarrow>
      \<exists>bs m' p'. allocate_slots sha r new_toks 0 None lookahead 0 delay enc km
          = commit_slots sha r (tc + new_toks) delay km [bs] ((coordinator km)\<lparr>single_type_managers := [m'], coord_pool := p'\<rparr>)
        \<and> int (length bs) = max k 0 \<and> rtb_get (request_id r) m' = rtb_get (request_id r) m @ bs
        \<and> need \<le> int (length (rtb_get (request_id r) m')) * block_size m"
proof -
  let ?rid = "request_id r" and ?co = "coordinator km"
  obtain fl where fl: "mgr_inv (\<lambda>_. 0) m (km_pool km) fl" "num_kv_cache_groups km = 1" "get_num_free_blocks (km_pool km) = int (length fl)"
    using inv one(1) by (rule km_one_group)
  have ask: "coord_num_blocks_to_allocate ?rid need [[]] enc (num_computed_tokens r) (tc + new_toks) ?co = Inr (max k 0, ?co)"
    unfolding k_def by (rule full_ask [OF one(1,2) plain_ask [OF one(2,3)]])
  have unf: "allocate_slots sha r new_toks 0 None lookahead 0 delay enc km =
    (if get_num_free_blocks (km_pool km) < max k 0 then Inr (None, km)
     else bindE (coord_allocate_new_blocks ?rid need (tc + new_toks) enc ?co) (\<lambda>(bs, co4). commit_slots sha r (tc + new_toks) delay km bs co4))"
    using new_toks ask full_remove_skipped [OF one(1,2), of ?rid tc]
    by (simp add: allocate_slots_def Let_def given_blocks_def empty_kv_cache_blocks_def fl(2) tc_def [symmetric] need_def [symmetric])
  show "get_num_free_blocks (km_pool km) < k \<Longrightarrow> allocate_slots sha r new_toks 0 None lookahead 0 delay enc km = Inr (None, km)"
    using unf by (simp add: less_max_iff_disj)
  assume room: "k \<le> get_num_free_blocks (km_pool km)"
  obtain bs m' p' where a: "base_allocate_new_blocks ?rid need m (km_pool km) = Inr (bs, m', p')" "bs = take (nat k) fl"
    "rtb_get ?rid m' = rtb_get ?rid m @ bs" "cdiv need (block_size m) \<le> int (length (rtb_get ?rid m'))"
    using base_allocate_new_blocks_spec(1) [OF fl(1), of need ?rid] room fl(3) unfolding k_def by auto
  have "need \<le> int (length (rtb_get ?rid m')) * block_size m" using cdiv_le_iff [OF mgr_invD(3) [OF fl(1)]] a(4) by blast
  moreover have "allocate_slots sha r new_toks 0 None lookahead 0 delay enc km
      = commit_slots sha r (tc + new_toks) delay km [bs] (?co\<lparr>single_type_managers := [m'], coord_pool := p'\<rparr>)"
    using unf room fl(3) full_allocate [OF one(1,2) a(1)] by (simp add: less_max_iff_disj)
  ultimately show "\<exists>bs m' p'. allocate_slots sha r new_toks 0 None lookahead 0 delay enc km
          = commit_slots sha r (tc + new_toks) delay km [bs] (?co\<lparr>single_type_managers := [m'], coord_pool := p'\<rparr>)
        \<and> int (length bs) = max k 0 \<and> rtb_get ?rid m' = rtb_get ?rid m @ bs
        \<and> need \<le> int (length (rtb_get ?rid m')) * block_size m"
    using a(2,3) room fl(3) by (intro exI [of _ bs] exI [of _ m'] exI [of _ p']) auto
qed

text \<open>A request that enters with cached blocks.\<close>

lemma slots_hits:
  fixes lookahead new_hits :: int and r :: request
  assumes inv: "km_inv km" and one: "single_type_managers (coordinator km) = [m]" "mgr_class m = FullAttentionManager" "max_admission_blocks m = None"
    and fresh: "\<not> is_running (request_id r) m" "rtb_get (request_id r) m = []" "mgr_enable_caching m"
    and hits: "kvb_blocks x = [hs]" "\<not> kvb_prebuilt x" "hit_ok hs (num_computed_tokens r + new_hits) m (km_pool km)" and new_toks: "0 < new_toks"
  defines "tc \<equiv> min (num_computed_tokens r + new_hits) (km_max_model_len km)"
  defines "need \<equiv> min (tc + new_toks + lookahead) (km_max_model_len km)"
  defines "k \<equiv> max (cdiv need (block_size m) - int (length hs)) 0 + get_num_evictable_blocks (km_pool km) hs"
  shows "get_num_free_blocks (km_pool km) < k \<Longrightarrow> allocate_slots sha r new_toks new_hits (Some x) lookahead 0 delay enc km = Inr (None, km)"
    and "k \<le> get_num_free_blocks (km_pool km) \<Longrightarrow>
      \<exists>bs m' p'. allocate_slots sha r new_toks new_hits (Some x) lookahead 0 delay enc km
          = commit_slots sha r (tc + new_toks) delay km [bs] ((coordinator km)\<lparr>single_type_managers := [m'], coord_pool := p'\<rparr>)
        \<and> rtb_get (request_id r) m' = hs @ bs \<and> need \<le> int (length (rtb_get (request_id r) m')) * block_size m"
proof -
  let ?rid = "request_id r" and ?co = "coordinator km" and ?loc = "num_computed_tokens r + new_hits"
  obtain fl where fl: "mgr_inv (\<lambda>_. 0) m (km_pool km) fl" "num_kv_cache_groups km = 1" "get_num_free_blocks (km_pool km) = int (length fl)"
    using inv one(1) by (rule km_one_group)
  have bk: "base_num_blocks_to_allocate m (km_pool km) ?rid need hs ?loc = Inr k"
    using fresh one by (simp add: base_num_blocks_to_allocate_def Let_def full_skipped k_def py_from_nonneg)
  have ask: "coord_num_blocks_to_allocate ?rid need [hs] enc ?loc (tc + new_toks) ?co = Inr (k, ?co)" by (rule full_ask [OF one(1,2) bk])
  have unf: "allocate_slots sha r new_toks new_hits (Some x) lookahead 0 delay enc km =
    (if get_num_free_blocks (km_pool km) < k then Inr (None, km)
     else bindE (coord_allocate_new_computed_blocks ?rid [hs] ?loc 0 ?co) (\<lambda>co3.
       bindE (coord_allocate_new_blocks ?rid need (tc + new_toks) enc co3) (\<lambda>(bs, co4). commit_slots sha r (tc + new_toks) delay km bs co4)))"
    using new_toks ask full_remove_skipped [OF one(1,2), of ?rid tc] hits(1,2)
    by (simp add: allocate_slots_def Let_def given_blocks_def tc_def [symmetric] need_def [symmetric])
  show "get_num_free_blocks (km_pool km) < k \<Longrightarrow> allocate_slots sha r new_toks new_hits (Some x) lookahead 0 delay enc km = Inr (None, km)"
    using unf by simp
  assume room: "k \<le> get_num_free_blocks (km_pool km)"
  have sk: "\<forall>n. get_num_skipped_tokens m n = 0" using one(2) full_skipped by blast
  obtain m1 p1 bs m2 p2 where a: "base_allocate_new_computed_blocks ?rid hs ?loc 0 m (km_pool km) = Inr (m1, p1)"
    "base_allocate_new_blocks ?rid need m1 p1 = Inr (bs, m2, p2)" "rtb_get ?rid m2 = hs @ bs" "cdiv need (block_size m) \<le> int (length (rtb_get ?rid m2))"
    using admission_new [OF fl(1) fresh(1,2) one(3) sk fresh(3) _ _ bk room] hits(3) by (auto simp: hit_ok_def)
  have c1: "mgr_class m1 = FullAttentionManager"
    using a(1) one(2) by (auto simp: base_allocate_new_computed_blocks_def Let_def split: if_splits prod.splits elim!: bindE_eq_InrE)
  have "need \<le> int (length (rtb_get ?rid m2)) * block_size m" using cdiv_le_iff [OF mgr_invD(3) [OF fl(1)]] a(4) by blast
  moreover have "coord_allocate_new_blocks ?rid need (tc + new_toks) enc (?co\<lparr>single_type_managers := [m1], coord_pool := p1\<rparr>)
      = Inr ([bs], ?co\<lparr>single_type_managers := [m2], coord_pool := p2\<rparr>)"
    using full_allocate [of "?co\<lparr>single_type_managers := [m1], coord_pool := p1\<rparr>" m1 ?rid need bs m2 p2] a(2) c1 by simp
  ultimately show "\<exists>bs m' p'. allocate_slots sha r new_toks new_hits (Some x) lookahead 0 delay enc km
          = commit_slots sha r (tc + new_toks) delay km [bs] (?co\<lparr>single_type_managers := [m'], coord_pool := p'\<rparr>)
        \<and> rtb_get ?rid m' = hs @ bs \<and> need \<le> int (length (rtb_get ?rid m')) * block_size m"
    using unf room full_computed [OF one(1,2) a(1)] a(3) by (intro exI [of _ bs] exI [of _ m2] exI [of _ p2]) simp
qed

lemma owned_zero_iff:
  assumes "mgr_ok m p" shows "owned m b = 0 \<longleftrightarrow> (\<forall>rid. b \<notin> set (rtb_get rid m))"
proof
  assume "owned m b = 0"
  then have "count_list (rtb_get rid m) b = 0" for rid using owned_ge_count [of rid m b] by simp
  then show "\<forall>rid. b \<notin> set (rtb_get rid m)" by (simp add: count_list_0_iff)
next
  assume n: "\<forall>rid. b \<notin> set (rtb_get rid m)"
  have "count_list bs b = 0" if "(rid, bs) \<in> set (req_to_blocks m)" for rid bs
  proof -
    have "dict_get (req_to_blocks m) rid = Some bs" using assms that by (simp add: mgr_ok_def dict_wf_def dict_get_def)
    then have "rtb_get rid m = bs" by (simp add: rtb_get_def)
    then show ?thesis using n by (auto simp: count_list_0_iff)
  qed
  then show "owned m b = 0" unfolding owned_def by (intro sum_list_nonneg_eq_0_iff [THEN iffD2]) auto
qed

lemma sum_owned_zero: "(\<Sum>m \<leftarrow> ms. owned m b) = 0 \<longleftrightarrow> (\<forall>m \<in> set ms. owned m b = 0)"
  by (induction ms) (auto simp: add_nonneg_eq_0_iff owned_nonneg sum_owned_nonneg)

text \<open>A manager with one full-attention group of eight blocks for four tokens each.\<close>

definition demo_one :: kv_cache_config where
  "demo_one = \<lparr>num_blocks = 8, kv_cache_tensors = [],
     kv_cache_groups = [\<lparr>layer_names = [''l0''], group_spec = One_spec (demo_spec FullAttentionSpec), is_eagle_group = False\<rparr>]\<rparr>"

lemma demo_one_fine: "\<forall>g \<in> set (kv_cache_groups demo_one). \<forall>s. group_spec g = One_spec s \<longrightarrow> spec_fine s"
  by (simp add: demo_one_def spec_fine_def has_class_def) (simp add: demo_spec_def empty_spec_def)

lemma demo_km:
  obtains km m where "kv_cache_manager_init demo_one 100 4 (Some 8) True False False False False 1 1 = Inr km" "km_reach km"
    "single_type_managers (coordinator km) = [m]" "mgr_class m = FullAttentionManager" "max_admission_blocks m = None" "block_size m = 4"
    "\<And>rid. rtb_get rid m = []" "\<And>rid. \<not> is_running rid m" "mgr_enable_caching m" "km_max_model_len km = 100"
    "set (blocks (km_pool km)) = Blk ` {..<8}" "get_num_free_blocks (km_pool km) = 7" "num_kv_cache_groups km = 1"
proof -
  obtain p where p: "block_pool_init 8 True 4 False False = Inr p" "pool_inv p (map Blk [1..<8])" "num_gpu_blocks p = 8"
    using block_pool_init_spec [of 8 True 4 False False] by auto
  define m where "m = base_manager FullAttentionManager (demo_spec FullAttentionSpec) p True 0 1 1 None"
  obtain km where km: "kv_cache_manager_init demo_one 100 4 (Some 8) True False False False False 1 1 = Inr km"
    "single_type_managers (coordinator km) = [m]" "km_pool km = p" "km_max_model_len km = 100" "num_kv_cache_groups km = 1"
    by (simp add: kv_cache_manager_init_def get_kv_cache_coordinator_def unitary_init_def coordinator_base_init_def demo_one_def p(1)
        get_manager_for_kv_cache_spec_def spec_manager_map_def has_class_def py_index_def Let_def m_def)
  have "km_reach km" by (rule km_reach.init [OF km(1) _ _ demo_one_fine]) simp_all
  moreover have "get_num_free_blocks p = 7" using pool_invD(8) [OF p(2)] by (simp add: get_num_free_blocks_def)
  ultimately show ?thesis using that [OF km(1) _ km(2)] km(3-5) p(3) set_blocks [of p]
    by (simp add: m_def base_manager_def rtb_get_def is_running_def)
qed

lemma coord_keeps_others:
  assumes "coord_keeps rid h co co'" "r \<noteq> rid" shows "coord_get_blocks r co' = coord_get_blocks r co"
proof -
  have l: "list_all2 (same_others rid) (single_type_managers co) (single_type_managers co')" using assms(1) by (simp add: coord_keeps_def keeps_all_def)
  have "map (rtb_get r) ms' = map (rtb_get r) ms" if "list_all2 (same_others rid) ms ms'" for ms ms'
    using that assms(2) by induction (simp_all add: same_others_def)
  then show ?thesis using l by (simp add: coord_get_blocks_def)
qed

lemma each_free_gone: "each_manager (\<lambda>_. mgr_free rid) i ms p = Inr (ms', p') \<Longrightarrow> concat (map (rtb_get rid) ms') = []"
proof (induction ms arbitrary: i p ms')
  case (Cons m ms)
  obtain m1 p1 ms1 where r: "mgr_free rid m p = Inr (m1, p1)" "each_manager (\<lambda>_. mgr_free rid) (Suc i) ms p1 = Inr (ms1, p')" "ms' = m1 # ms1"
    using Cons.prems by (auto elim!: bindE_eq_InrE)
  have "rtb_get rid m1 = []" using r(1) by (auto simp: mgr_free_def base_free_def rtb_get_def elim!: bindE_eq_InrE)
  then show ?case using Cons.IH [OF r(2)] r(3) by simp
qed simp

lemma coord_free_gone: "coord_free rid co = Inr co' \<Longrightarrow> concat (coord_get_blocks rid co') = []"
  using each_free_gone by (auto simp: coord_free_def coord_get_blocks_def with_managers_def elim!: bindE_eq_InrE)

lemma commit_delayed: "commit_slots sha r n True km bs co = Inr (Some (create_kv_cache_blocks km bs), km\<lparr>coordinator := co\<rparr>)"
  by (simp add: commit_slots_def)

text \<open>A first request of six tokens.\<close>

definition demo_six :: request where
  "demo_six = demo_request ''a'' [1, 2, 3, 4, 5, 6] [] []"

lemma demo_km_slots:
  obtains km km' m' bs where "kv_cache_manager_init demo_one 100 4 (Some 8) True False False False False 1 1 = Inr km" "km_reach km"
    "slots_ok demo_six 6 0 None 0 km" "allocate_slots concat demo_six 6 0 None 0 0 True 0 km = Inr (Some (create_kv_cache_blocks km [bs]), km')"
    "single_type_managers (coordinator km') = [m']" "rtb_get ''a'' m' = bs" "length bs = 2"
proof -
  obtain km m where km: "kv_cache_manager_init demo_one 100 4 (Some 8) True False False False False 1 1 = Inr km" "km_reach km"
    "single_type_managers (coordinator km) = [m]" "mgr_class m = FullAttentionManager" "max_admission_blocks m = None" "block_size m = 4"
    "\<And>rid. rtb_get rid m = []" "km_max_model_len km = 100" "get_num_free_blocks (km_pool km) = 7" "num_kv_cache_groups km = 1"
    by (rule demo_km) blast
  have z: "num_computed_tokens demo_six = 0" "request_id demo_six = ''a''" by (simp_all add: demo_six_def demo_request_def)
  have ok: "slots_ok demo_six 6 0 None 0 km"
    by (simp add: slots_ok_def given_blocks_def empty_kv_cache_blocks_def z km(8))
  have c: "cdiv (min (min 0 100 + 6 + 0) 100) 4 - int (length []) = 2" by (simp add: cdiv_def)
  from slots_plain(2) [OF km_reach_inv [OF km(2)] km(3-5), of 6 demo_six 0 concat True 0, unfolded km(6-9) z c]
  obtain bs m' p' where a: "allocate_slots concat demo_six 6 0 None 0 0 True 0 km
      = commit_slots concat demo_six (min 0 100 + 6) True km [bs] ((coordinator km)\<lparr>single_type_managers := [m'], coord_pool := p'\<rparr>)"
    "rtb_get ''a'' m' = bs" "length bs = 2" by auto
  show ?thesis by (rule that [OF km(1,2) ok a(1) [unfolded commit_delayed] _ a(2,3)]) simp
qed

section \<open>Properties\<close>

text \<open>
  C3. Ownership over the whole KV cache: in every state the scheduler can bring the manager
  into, the reference count of each block is the number of places where a request holds it,
  over all KV cache groups, the free queue holds exactly the blocks no request holds, each
  once, and no request holds a block twice in a group.
\<close>

theorem km_ownership:
  assumes "km_reach km"
  shows "\<exists>fl. get_all_free_blocks (fq (km_pool km)) = Some (Inr fl) \<and> distinct fl
    \<and> set fl = {b \<in> set (blocks (km_pool km)). b \<noteq> Blk 0 \<and> (\<forall>m \<in> set (single_type_managers (coordinator km)). \<forall>rid. b \<notin> set (rtb_get rid m))}
    \<and> (\<forall>b \<in> set (blocks (km_pool km)). b \<noteq> Blk 0 \<longrightarrow>
         rc (km_pool km) b = (\<Sum>m \<leftarrow> single_type_managers (coordinator km). owned m b))
    \<and> (\<forall>m \<in> set (single_type_managers (coordinator km)). \<forall>rid. distinct (filter (\<lambda>b. b \<noteq> Blk 0) (rtb_get rid m)))"
proof -
  obtain fl where c: "coord_inv (\<lambda>_. 0) (coordinator km) fl" and p: "pool_inv (km_pool km) fl"
    using km_reach_inv [OF assms] by (rule km_invE)
  let ?ms = "single_type_managers (coordinator km)"
  have fine: "\<forall>m \<in> set ?ms. mgr_fine m (km_pool km)" and
    rc: "\<And>b. b \<in> set (blocks (km_pool km)) \<Longrightarrow> b \<noteq> Blk 0 \<Longrightarrow> rc (km_pool km) b = (\<Sum>m \<leftarrow> ?ms. owned m b)"
    using c by (simp_all add: coord_inv_def managers_inv_def)
  have "(\<Sum>m \<leftarrow> ?ms. owned m b) = 0 \<longleftrightarrow> (\<forall>m \<in> set ?ms. \<forall>rid. b \<notin> set (rtb_get rid m))" for b
    using owned_zero_iff [of _ "km_pool km" b] fine unfolding sum_owned_zero mgr_fine_def by blast
  then have "set fl = {b \<in> set (blocks (km_pool km)). b \<noteq> Blk 0 \<and> (\<forall>m \<in> set ?ms. \<forall>rid. b \<notin> set (rtb_get rid m))}"
    unfolding pool_invD(6) [OF p] using rc by auto
  then show ?thesis using rc fine get_all_free_blocks_rep [OF pool_invD(4) [OF p]] pool_invD(5) [OF p]
    by (auto simp: mgr_fine_def mgr_ok_def)
qed

text \<open>
  C5. A request without cached blocks on a full-attention model, new or running: \<open>allocate_slots\<close>
  returns \<open>None\<close> and leaves the manager as it is exactly when the blocks that are missing are
  not free; otherwise it takes that many blocks, appends them to the request's list, which then
  has a slot for every token, and raises nothing before the blocks are cached.
\<close>

theorem slots_plain_exact:
  assumes "km_reach km" "single_type_managers (coordinator km) = [m]" "mgr_class m = FullAttentionManager" "max_admission_blocks m = None"
    and "0 < new_toks" "tc = min (num_computed_tokens r) (km_max_model_len km)" "need = min (tc + new_toks + lookahead) (km_max_model_len km)"
    and "k = cdiv need (block_size m) - int (length (rtb_get (request_id r) m))"
  shows "if get_num_free_blocks (km_pool km) < k
    then allocate_slots sha r new_toks 0 None lookahead 0 delay enc km = Inr (None, km)
    else \<exists>bs m' p'. allocate_slots sha r new_toks 0 None lookahead 0 delay enc km
          = commit_slots sha r (tc + new_toks) delay km [bs] ((coordinator km)\<lparr>single_type_managers := [m'], coord_pool := p'\<rparr>)
        \<and> int (length bs) = max k 0 \<and> rtb_get (request_id r) m' = rtb_get (request_id r) m @ bs
        \<and> need \<le> int (length (rtb_get (request_id r) m')) * block_size m"
  using slots_plain [OF km_reach_inv [OF assms(1)] assms(2-5), of r lookahead sha delay enc] assms(6-8) by simp

theorem slots_plain_exact_witness:
  "\<exists>km x km'. kv_cache_manager_init demo_one 100 4 (Some 8) True False False False False 1 1 = Inr km
    \<and> allocate_slots concat demo_six 6 0 None 0 0 True 0 km = Inr (Some x, km')
    \<and> length (concat (kvb_blocks x)) = 2
    \<and> allocate_slots concat demo_six 60 0 None 0 0 True 0 km = Inr (None, km)"
proof -
  obtain km m where km: "kv_cache_manager_init demo_one 100 4 (Some 8) True False False False False 1 1 = Inr km" "km_reach km"
    "single_type_managers (coordinator km) = [m]" "mgr_class m = FullAttentionManager" "max_admission_blocks m = None" "block_size m = 4"
    "\<And>rid. rtb_get rid m = []" "km_max_model_len km = 100" "get_num_free_blocks (km_pool km) = 7"
    by (rule demo_km) blast
  let ?r = demo_six
  have z: "num_computed_tokens ?r = 0" by (simp add: demo_six_def demo_request_def)
  note ex = slots_plain_exact [OF km(2-5) _ refl refl refl, of _ ?r 0 concat True 0, unfolded km(6-9) z]
  have small: "\<not> 7 < cdiv (min (min 0 100 + 6 + 0) 100) 4 - int (length [])" "cdiv (min (min 0 100 + 6 + 0) 100) 4 - int (length []) = 2"
    and big: "7 < cdiv (min (min 0 100 + 60 + 0) 100) 4 - int (length [])" by (simp_all add: cdiv_def)
  from ex [of 6] small obtain bs co where a: "allocate_slots concat ?r 6 0 None 0 0 True 0 km = commit_slots concat ?r 6 True km [bs] co"
    "length bs = 2" by auto
  have "kvb_blocks (create_kv_cache_blocks km [bs]) = [bs]" using a(2) by (auto simp: create_kv_cache_blocks_def)
  moreover have "allocate_slots concat ?r 60 0 None 0 0 True 0 km = Inr (None, km)" using ex [of 60] big by simp
  ultimately show ?thesis using km(1) a by (intro exI [of _ km] exI [of _ "create_kv_cache_blocks km [bs]"] exI [of _ "km\<lparr>coordinator := co\<rparr>"]) (simp add: commit_delayed)
qed

text \<open>
  C7. A request that enters a full-attention model with cached blocks: the check counts the
  cached blocks that are only in the free queue, so when it succeeds neither taking over the
  cached blocks nor allocating the rest raises, and the request's list is the cached blocks
  followed by the new ones; when it fails, nothing changes.
\<close>

theorem slots_hits_exact:
  assumes "km_reach km" "single_type_managers (coordinator km) = [m]" "mgr_class m = FullAttentionManager" "max_admission_blocks m = None"
    and "\<not> is_running (request_id r) m" "rtb_get (request_id r) m = []" "mgr_enable_caching m"
    and "kvb_blocks x = [hs]" "\<not> kvb_prebuilt x" "hit_ok hs (num_computed_tokens r + new_hits) m (km_pool km)" "0 < new_toks"
    and "tc = min (num_computed_tokens r + new_hits) (km_max_model_len km)" "need = min (tc + new_toks + lookahead) (km_max_model_len km)"
    and "k = max (cdiv need (block_size m) - int (length hs)) 0 + get_num_evictable_blocks (km_pool km) hs"
  shows "if get_num_free_blocks (km_pool km) < k
    then allocate_slots sha r new_toks new_hits (Some x) lookahead 0 delay enc km = Inr (None, km)
    else \<exists>bs m' p'. allocate_slots sha r new_toks new_hits (Some x) lookahead 0 delay enc km
          = commit_slots sha r (tc + new_toks) delay km [bs] ((coordinator km)\<lparr>single_type_managers := [m'], coord_pool := p'\<rparr>)
        \<and> rtb_get (request_id r) m' = hs @ bs \<and> need \<le> int (length (rtb_get (request_id r) m')) * block_size m"
  using slots_hits [OF km_reach_inv [OF assms(1)] assms(2-11), of lookahead sha delay enc] assms(12-14) by simp

theorem slots_hits_exact_witness:
  "\<exists>km x km'. kv_cache_manager_init demo_one 100 4 (Some 8) True False False False False 1 1 = Inr km
    \<and> allocate_slots concat demo_six 2 4 (Some \<lparr>kvb_blocks = [[Blk 3]], kvb_prebuilt = False\<rparr>) 0 0 True 0 km
      = Inr (Some x, km')"
proof -
  obtain km m where km: "kv_cache_manager_init demo_one 100 4 (Some 8) True False False False False 1 1 = Inr km" "km_reach km"
    "single_type_managers (coordinator km) = [m]" "mgr_class m = FullAttentionManager" "max_admission_blocks m = None"
    "\<And>rid. \<not> is_running rid m" "\<And>rid. rtb_get rid m = []" "mgr_enable_caching m" "block_size m = 4"
    "km_max_model_len km = 100" "get_num_free_blocks (km_pool km) = 7" "set (blocks (km_pool km)) = Blk ` {..<8}"
    by (rule demo_km) blast
  let ?r = demo_six and ?x = "\<lparr>kvb_blocks = [[Blk 3]], kvb_prebuilt = False\<rparr>"
  have z: "num_computed_tokens ?r = 0" by (simp add: demo_six_def demo_request_def)
  have h: "hit_ok [Blk 3] (num_computed_tokens ?r + 4) m (km_pool km)" by (simp add: hit_ok_def z km(9,12))
  have "get_num_evictable_blocks (km_pool km) [Blk 3] \<le> 1" by (simp add: get_num_evictable_blocks_def)
  then have "\<not> 7 < max (cdiv (min (min (0 + 4) 100 + 2 + 0) 100) 4 - int (length [Blk 3])) 0 + get_num_evictable_blocks (km_pool km) [Blk 3]"
    by (simp add: cdiv_def)
  with slots_hits_exact [OF km(2-8), of ?x "[Blk 3]" ?r 4 2 _ _ 0 _ concat True 0, OF _ _ h _ refl refl refl, unfolded km(9-11) z]
  obtain bs co where "allocate_slots concat ?r 2 4 (Some ?x) 0 0 True 0 km = commit_slots concat ?r 6 True km [bs] co" by auto
  then show ?thesis using km(1) by (auto simp: commit_delayed)
qed

text \<open>
  C8. Requests do not disturb each other: allocating slots for a request, whether it succeeds
  or not, leaves the block lists of every other request as they are in every KV cache group,
  and freeing a request never raises and takes away exactly its own blocks.
\<close>

theorem requests_isolated:
  assumes "km_reach km" "slots_ok r new_toks new_hits new ext km"
    and "allocate_slots sha r new_toks new_hits new lookahead ext delay enc km = Inr (out, km')" "rid \<noteq> request_id r"
  shows "coord_get_blocks rid (coordinator km') = coord_get_blocks rid (coordinator km)
    \<and> (\<exists>km''. km_free r km' = Inr km'' \<and> coord_get_blocks rid (coordinator km'') = coord_get_blocks rid (coordinator km)
         \<and> concat (coord_get_blocks (request_id r) (coordinator km'')) = [])"
proof -
  have i: "km_inv km'" using slots_inv [OF km_reach_inv [OF assms(1)] assms(2,3)] .
  then obtain fl where c: "coord_inv (\<lambda>_. 0) (coordinator km') fl" by (rule km_invE)
  obtain co where co: "coord_free (request_id r) (coordinator km') = Inr co" "coord_keeps (request_id r) (\<lambda>_. 0) (coordinator km') co"
    using coord_free_keeps [OF c] by blast
  have k: "coord_get_blocks rid (coordinator km') = coord_get_blocks rid (coordinator km)"
    by (rule coord_keeps_others [OF conjunct1 [OF allocate_slots_keeps [OF km_reach_inv [OF assms(1)] assms(2,3)]] assms(4)])
  moreover have "coord_get_blocks rid co = coord_get_blocks rid (coordinator km)" using coord_keeps_others [OF co(2) assms(4)] k by simp
  moreover have "km_free r km' = Inr (km'\<lparr>coordinator := co\<rparr>)" using co(1) by (simp add: km_free_def on_coordinator_def)
  ultimately show ?thesis using coord_free_gone [OF co(1)] by simp
qed


theorem requests_isolated_witness:
  "\<exists>km out km' km''. kv_cache_manager_init demo_one 100 4 (Some 8) True False False False False 1 1 = Inr km
    \<and> allocate_slots concat demo_six 6 0 None 0 0 True 0 km = Inr (out, km')
    \<and> coord_get_blocks ''b'' (coordinator km') = coord_get_blocks ''b'' (coordinator km) \<and> km_free demo_six km' = Inr km''"
proof -
  obtain km km' m' bs where km: "kv_cache_manager_init demo_one 100 4 (Some 8) True False False False False 1 1 = Inr km" "km_reach km"
    "slots_ok demo_six 6 0 None 0 km" "allocate_slots concat demo_six 6 0 None 0 0 True 0 km = Inr (Some (create_kv_cache_blocks km [bs]), km')"
    by (rule demo_km_slots)
  have "''b'' \<noteq> request_id demo_six" by (simp add: demo_six_def demo_request_def)
  from requests_isolated [OF km(2-4) this] km(1,4) show ?thesis by blast
qed

theorem km_ownership_witness:
  "\<exists>km km' m' fl. kv_cache_manager_init demo_one 100 4 (Some 8) True False False False False 1 1 = Inr km
    \<and> single_type_managers (coordinator km') = [m'] \<and> length (rtb_get ''a'' m') = 2
    \<and> get_all_free_blocks (fq (km_pool km')) = Some (Inr fl) \<and> set fl \<inter> set (rtb_get ''a'' m') = {}"
proof -
  obtain km km' m' bs where km: "kv_cache_manager_init demo_one 100 4 (Some 8) True False False False False 1 1 = Inr km" "km_reach km"
    "slots_ok demo_six 6 0 None 0 km" "allocate_slots concat demo_six 6 0 None 0 0 True 0 km = Inr (Some (create_kv_cache_blocks km [bs]), km')"
    "single_type_managers (coordinator km') = [m']" "rtb_get ''a'' m' = bs" "length bs = 2"
    by (rule demo_km_slots)
  have "km_reach km'" by (rule km_reach.step [OF km(2) km_step.slots [OF km(3,4)]])
  from km_ownership [OF this] obtain fl where "get_all_free_blocks (fq (km_pool km')) = Some (Inr fl)"
    "set fl = {b \<in> set (blocks (km_pool km')). b \<noteq> Blk 0 \<and> (\<forall>m \<in> set [m']. \<forall>rid. b \<notin> set (rtb_get rid m))}"
    unfolding km(5) by blast
  then show ?thesis using km by (intro exI [of _ km] exI [of _ km'] exI [of _ m'] exI [of _ fl]) auto
qed

end
