(* ===== verification/Request_Queue.thy ===== *)
theory Request_Queue
  imports Request_Model "HOL-Library.Multiset"
begin

text \<open>
  \<open>vllm/v1/core/sched/request_queue.py\<close>: the first-come-first-served queue (a \<open>deque\<close>) and
  the priority queue (a list kept as a heap by \<open>heapq\<close>).

  The functions of \<open>heapq\<close> are written as the standard library has them, for any comparison
  \<open>lt\<close>; the queue uses \<open>Request.__lt__\<close>, which is \<open>request_less\<close>. Requests compare
  equal when they are the same object, so membership tests go by \<open>obj_id\<close>.
\<close>

section \<open>The standard library's heap\<close>

function siftdown_loop :: "('a \<Rightarrow> 'a \<Rightarrow> bool) \<Rightarrow> 'a \<Rightarrow> nat \<Rightarrow> nat \<Rightarrow> 'a list \<Rightarrow> 'a list" where
  "siftdown_loop lt newitem startpos pos h =
     (if startpos < pos then
        let parentpos = (pos - 1) div 2; par = h ! parentpos
        in if lt newitem par then siftdown_loop lt newitem startpos parentpos (h[pos := par])
           else h[pos := newitem]
      else h[pos := newitem])"
  by pat_completeness auto
termination
  by (relation "measure (\<lambda>(_, _, _, pos, _). pos)") auto

declare siftdown_loop.simps [simp del]

definition siftdown :: "('a \<Rightarrow> 'a \<Rightarrow> bool) \<Rightarrow> nat \<Rightarrow> nat \<Rightarrow> 'a list \<Rightarrow> 'a list" where
  "siftdown lt startpos pos h = siftdown_loop lt (h ! pos) startpos pos h"

function siftup_loop :: "('a \<Rightarrow> 'a \<Rightarrow> bool) \<Rightarrow> nat \<Rightarrow> 'a list \<Rightarrow> nat \<times> 'a list" where
  "siftup_loop lt pos h =
     (let childpos = 2 * pos + 1
      in if childpos < length h then
           let rightpos = childpos + 1;
               c = (if rightpos < length h \<and> \<not> lt (h ! childpos) (h ! rightpos) then rightpos else childpos)
           in siftup_loop lt c (h[pos := h ! c])
         else (pos, h))"
  by pat_completeness auto
termination
  by (relation "measure (\<lambda>(_, pos, h). length h - pos)") auto

declare siftup_loop.simps [simp del]

definition siftup :: "('a \<Rightarrow> 'a \<Rightarrow> bool) \<Rightarrow> nat \<Rightarrow> 'a list \<Rightarrow> 'a list" where
  "siftup lt pos h =
     (let newitem = h ! pos; (pos', h') = siftup_loop lt pos h
      in siftdown lt pos pos' (h'[pos' := newitem]))"

definition heappush :: "('a \<Rightarrow> 'a \<Rightarrow> bool) \<Rightarrow> 'a \<Rightarrow> 'a list \<Rightarrow> 'a list" where
  "heappush lt x h = siftdown lt 0 (length h) (h @ [x])"

definition heappop :: "('a \<Rightarrow> 'a \<Rightarrow> bool) \<Rightarrow> 'a list \<Rightarrow> ('a \<times> 'a list) result" where
  "heappop lt h =
     (if h = [] then Inl IndexError
      else let lastelt = last h; h' = butlast h
           in if h' \<noteq> [] then Inr (h' ! 0, siftup lt 0 (h'[0 := lastelt])) else Inr (lastelt, h'))"

definition heapify :: "('a \<Rightarrow> 'a \<Rightarrow> bool) \<Rightarrow> 'a list \<Rightarrow> 'a list" where
  "heapify lt h = fold (siftup lt) (rev [0..<length h div 2]) h"

section \<open>The queues\<close>

type_synonym requests = "request list"

definition same_obj :: "request \<Rightarrow> request \<Rightarrow> bool" where
  "same_obj a b \<longleftrightarrow> obj_id a = obj_id b"

text \<open>\<open>list.remove\<close> and \<open>deque.remove\<close>: the first occurrence, or an error.\<close>

fun remove_first :: "request \<Rightarrow> requests \<Rightarrow> requests result" where
  "remove_first r [] = Inl ValueError"
| "remove_first r (x # xs) =
     (if same_obj x r then Inr xs else bindE (remove_first r xs) (\<lambda>ys. Inr (x # ys)))"

definition fcfs_add_request :: "request \<Rightarrow> requests \<Rightarrow> requests" where
  "fcfs_add_request r q = q @ [r]"

definition fcfs_pop_request :: "requests \<Rightarrow> (request \<times> requests) result" where
  "fcfs_pop_request q = (case q of [] \<Rightarrow> Inl IndexError | r # q' \<Rightarrow> Inr (r, q'))"

definition fcfs_peek_request :: "requests \<Rightarrow> request result" where
  "fcfs_peek_request q = (if q = [] then Inl IndexError else Inr (q ! 0))"

definition fcfs_prepend_request :: "request \<Rightarrow> requests \<Rightarrow> requests" where
  "fcfs_prepend_request r q = r # q"

text \<open>\<open>extendleft\<close> adds one after the other to the left; \<open>rs\<close> is the iteration of the other queue.\<close>

definition fcfs_prepend_requests :: "requests \<Rightarrow> requests \<Rightarrow> requests" where
  "fcfs_prepend_requests rs q = fold Cons rs q"

definition fcfs_remove_request :: "request \<Rightarrow> requests \<Rightarrow> requests result" where
  "fcfs_remove_request r q = remove_first r q"

definition fcfs_remove_requests :: "requests \<Rightarrow> requests \<Rightarrow> requests" where
  "fcfs_remove_requests rs q = filter (\<lambda>r. obj_id r \<notin> obj_id ` set rs) q"

definition fcfs_iter :: "requests \<Rightarrow> requests" where
  "fcfs_iter q = q"

definition prio_add_request :: "request \<Rightarrow> requests \<Rightarrow> requests" where
  "prio_add_request r q = heappush request_less r q"

definition prio_pop_request :: "requests \<Rightarrow> (request \<times> requests) result" where
  "prio_pop_request q = (if q = [] then Inl IndexError else heappop request_less q)"

definition prio_peek_request :: "requests \<Rightarrow> request result" where
  "prio_peek_request q = (if q = [] then Inl IndexError else Inr (q ! 0))"

definition prio_prepend_request :: "request \<Rightarrow> requests \<Rightarrow> requests" where
  "prio_prepend_request r q = prio_add_request r q"

definition prio_prepend_requests :: "requests \<Rightarrow> requests \<Rightarrow> requests" where
  "prio_prepend_requests rs q = fold prio_add_request rs q"

definition prio_remove_request :: "request \<Rightarrow> requests \<Rightarrow> requests result" where
  "prio_remove_request r q = bindE (remove_first r q) (\<lambda>q'. Inr (heapify request_less q'))"

definition prio_remove_requests :: "requests \<Rightarrow> requests \<Rightarrow> requests" where
  "prio_remove_requests rs q =
     heapify request_less (filter (\<lambda>r. obj_id r \<notin> obj_id ` set rs) q)"

lemma length_siftdown_loop [simp]: "length (siftdown_loop lt x s pos h) = length h"
  by (induction lt x s pos h rule: siftdown_loop.induct)
     (subst siftdown_loop.simps, auto simp: Let_def)

lemma length_siftup_loop [simp]: "length (snd (siftup_loop lt pos h)) = length h"
  by (induction lt pos h rule: siftup_loop.induct) (subst siftup_loop.simps, auto simp: Let_def)

lemma length_siftup [simp]: "length (siftup lt pos h) = length h"
  by (simp add: siftup_def siftdown_def Let_def split: prod.split)
     (metis length_siftup_loop snd_conv)

lemma heappop_length: "heappop lt h = Inr (x, h') \<Longrightarrow> length h = Suc (length h')"
  by (cases h rule: rev_cases) (auto simp: heappop_def Let_def split: if_splits)

text \<open>\<open>__iter__\<close> pops a copy until it is empty.\<close>

function prio_iter :: "requests \<Rightarrow> requests result" where
  "prio_iter q =
     (if q = [] then Inr []
      else case heappop request_less q of
             Inl e \<Rightarrow> Inl e
           | Inr (r, q') \<Rightarrow> bindE (prio_iter q') (\<lambda>rs. Inr (r # rs)))"
  by pat_completeness auto
termination
  by (relation "measure length") (auto dest: heappop_length)

declare prio_iter.simps [simp del]

datatype scheduling_policy = FCFS | PRIORITY

text \<open>Both constructors start empty.\<close>

datatype request_queue = FCFSRequestQueue requests | PriorityRequestQueue requests

definition create_request_queue :: "scheduling_policy \<Rightarrow> request_queue" where
  "create_request_queue pol =
     (case pol of PRIORITY \<Rightarrow> PriorityRequestQueue [] | FCFS \<Rightarrow> FCFSRequestQueue [])"

section \<open>Correctness of the heap\<close>

abbreviation parent :: "nat \<Rightarrow> nat" where
  "parent i \<equiv> (i - 1) div 2"

text \<open>No item is less than its parent, for all parents from position \<open>s\<close> on.\<close>

definition heap_from :: "('a \<Rightarrow> 'a \<Rightarrow> bool) \<Rightarrow> nat \<Rightarrow> 'a list \<Rightarrow> bool" where
  "heap_from lt s h \<longleftrightarrow> (\<forall>i. 0 < i \<longrightarrow> i < length h \<longrightarrow> s \<le> parent i \<longrightarrow> \<not> lt (h ! i) (h ! parent i))"

text \<open>The same but around a hole at \<open>pos\<close>.\<close>

definition hole_heap :: "('a \<Rightarrow> 'a \<Rightarrow> bool) \<Rightarrow> nat \<Rightarrow> nat \<Rightarrow> 'a list \<Rightarrow> bool" where
  "hole_heap lt s pos h \<longleftrightarrow>
     (\<forall>i. 0 < i \<longrightarrow> i < length h \<longrightarrow> s \<le> parent i \<longrightarrow> i \<noteq> pos \<longrightarrow> parent i \<noteq> pos \<longrightarrow> \<not> lt (h ! i) (h ! parent i))
     \<and> (s < pos \<longrightarrow> (\<forall>c. 0 < c \<longrightarrow> c < length h \<longrightarrow> parent c = pos \<longrightarrow> \<not> lt (h ! c) (h ! parent pos)))"

lemma hole_heapD:
  assumes "hole_heap lt s pos h"
  shows "\<lbrakk>0 < i; i < length h; s \<le> parent i; i \<noteq> pos; parent i \<noteq> pos\<rbrakk> \<Longrightarrow> \<not> lt (h ! i) (h ! parent i)"
    "\<lbrakk>s < pos; 0 < c; c < length h; parent c = pos\<rbrakk> \<Longrightarrow> \<not> lt (h ! c) (h ! parent pos)"
  using assms by (simp_all add: hole_heap_def)

text \<open>Children and parents: \<open>parent c = pos\<close> for positive \<open>c\<close>.\<close>

lemma parent_iff: "0 < c \<Longrightarrow> parent c = pos \<longleftrightarrow> c = 2 * pos + 1 \<or> c = 2 * pos + 2"
  by auto

lemma parent_less: "0 < i \<Longrightarrow> parent i < i"
  by auto

lemma mset_swap_hole:
  assumes "i < length h" "j < length h"
  shows "mset ((h[i := h ! j])[j := x]) = mset (h[i := x])"
proof (cases "i = j")
  case False
  have "mset ((h[i := h ! j])[j := x]) = mset (h[i := h ! j]) - {#(h[i := h ! j]) ! j#} + {#x#}"
    using assms by (simp add: mset_update)
  also have "\<dots> = mset h - {#h ! i#} + {#h ! j#} - {#h ! j#} + {#x#}"
    using assms False by (simp add: mset_update)
  finally show ?thesis using assms by (simp add: mset_update)
qed simp

lemma mset_siftdown_loop:
  "pos < length h \<Longrightarrow> mset (siftdown_loop lt x s pos h) = mset (h[pos := x])"
proof (induction lt x s pos h rule: siftdown_loop.induct)
  case (1 lt x s pos h)
  show ?case
  proof (cases "s < pos \<and> lt x (h ! parent pos)")
    case True
    then have "siftdown_loop lt x s pos h = siftdown_loop lt x s (parent pos) (h[pos := h ! parent pos])"
      by (subst siftdown_loop.simps) (simp add: Let_def)
    moreover have p: "parent pos < length h" using 1(2) True by auto
    ultimately show ?thesis using 1 True mset_swap_hole [OF 1(2) p] by simp
  next
    case False
    then show ?thesis by (subst siftdown_loop.simps) (auto simp: Let_def)
  qed
qed

lemma mset_siftup_loop:
  "pos < length h \<Longrightarrow> siftup_loop lt pos h = (pos', h') \<Longrightarrow>
   pos' < length h' \<and> pos \<le> pos' \<and> mset (h'[pos' := x]) = mset (h[pos := x])"
proof (induction lt pos h rule: siftup_loop.induct)
  case (1 lt pos h)
  let ?c = "2 * pos + 1"
  show ?case
  proof (cases "?c < length h")
    case True
    define c where "c = (if ?c + 1 < length h \<and> \<not> lt (h ! ?c) (h ! (?c + 1)) then ?c + 1 else ?c)"
    have c: "c < length h" "pos < c" using True by (auto simp: c_def)
    have "siftup_loop lt pos h = siftup_loop lt c (h[pos := h ! c])"
      using True by (subst siftup_loop.simps) (simp add: Let_def c_def)
    then have "pos' < length h' \<and> c \<le> pos' \<and> mset (h'[pos' := x]) = mset ((h[pos := h ! c])[c := x])"
      using 1(1) [OF refl True refl c_def] 1(3) c by simp
    then show ?thesis using c mset_swap_hole [OF 1(2) c(1)] by simp
  next
    case False
    then show ?thesis using 1(2,3) by (simp add: siftup_loop.simps [of lt pos h])
  qed
qed

lemma mset_siftup: "pos < length h \<Longrightarrow> mset (siftup lt pos h) = mset h"
proof -
  assume p: "pos < length h"
  obtain pos' h' where l: "siftup_loop lt pos h = (pos', h')" by force
  from mset_siftup_loop [OF p l, of "h ! pos"] show ?thesis
    by (simp add: siftup_def l siftdown_def mset_siftdown_loop Let_def)
qed

text \<open>\<open>pos\<close> lies in the subtree of \<open>s\<close>.\<close>

function in_subtree :: "nat \<Rightarrow> nat \<Rightarrow> bool" where
  "in_subtree s pos = (if s < pos then in_subtree s (parent pos) else pos = s)"
  by pat_completeness auto
termination
  by (relation "measure snd") auto

declare in_subtree.simps [simp del]

lemma in_subtree_refl [simp]: "in_subtree s s"
  by (simp add: in_subtree.simps)

lemma in_subtree_le: "in_subtree s pos \<Longrightarrow> s \<le> pos"
  by (cases "s < pos") (simp_all add: in_subtree.simps [of s pos])

lemma in_subtree_parent: "in_subtree s pos \<Longrightarrow> s < pos \<Longrightarrow> in_subtree s (parent pos)"
  by (simp add: in_subtree.simps [of s pos])

lemma in_subtree_child: "in_subtree s pos \<Longrightarrow> 0 < c \<Longrightarrow> parent c = pos \<Longrightarrow> in_subtree s c"
  using in_subtree_le [of s pos] by (auto simp: in_subtree.simps [of s c])

lemma in_subtree_0: "in_subtree 0 pos"
proof (induction pos rule: less_induct)
  case (less pos)
  then show ?case by (cases "pos = 0") (auto simp: in_subtree.simps [of 0 pos])
qed

text \<open>The comparison: asymmetric, with incomparability transitive.\<close>

locale heap_order =
  fixes lt :: "'a \<Rightarrow> 'a \<Rightarrow> bool"
  assumes asym: "lt a b \<Longrightarrow> \<not> lt b a"
    and split: "lt a c \<Longrightarrow> lt a b \<or> lt b c"
begin

lemma lt_trans: "lt a b \<Longrightarrow> lt b c \<Longrightarrow> lt a c"
  using asym split by blast

lemma hole_up:
  assumes hole: "hole_heap lt s pos h" and pos: "pos < length h" "in_subtree s pos" "s < pos"
    and x: "lt x (h ! parent pos)"
  shows "hole_heap lt s (parent pos) (h[pos := h ! parent pos])"
    and "\<forall>c. 0 < c \<longrightarrow> c < length h \<longrightarrow> parent c = parent pos \<longrightarrow> \<not> lt (h[pos := h ! parent pos] ! c) x"
proof -
  let ?p = "parent pos" let ?h = "h[pos := h ! ?p]"
  note H = hole_heapD [OF hole]
  have sub: "in_subtree s ?p" by (rule in_subtree_parent [OF pos(2,3)])
  have sp: "s \<le> ?p" "?p < pos" using in_subtree_le [OF sub] pos(3) by auto
  have sib: "\<not> lt (h ! c) (h ! ?p)" if "0 < c" "c < length h" "parent c = ?p" "c \<noteq> pos" for c
    using H(1) [of c] that sp by simp
  show "\<forall>c. 0 < c \<longrightarrow> c < length h \<longrightarrow> parent c = ?p \<longrightarrow> \<not> lt (?h ! c) x"
  proof (intro allI impI)
    fix c assume c: "0 < c" "c < length h" "parent c = ?p"
    show "\<not> lt (?h ! c) x"
    proof (cases "c = pos")
      case True
      then show ?thesis using asym [OF x] pos(1) by simp
    next
      case False
      then show ?thesis using sib [OF c] lt_trans [OF _ x] by auto
    qed
  qed
  have up: "\<not> lt (h ! ?p) (h ! parent ?p)" if "s < ?p"
  proof -
    have "s \<le> parent ?p" using in_subtree_le [OF in_subtree_parent [OF sub that]] .
    moreover have "0 < ?p" "parent ?p < ?p" using that by auto
    ultimately show ?thesis using H(1) [of ?p] sp pos(1) by simp
  qed
  show "hole_heap lt s ?p ?h"
    unfolding hole_heap_def
  proof (intro conjI allI impI)
    fix i assume i: "0 < i" "i < length ?h" "s \<le> parent i" "i \<noteq> ?p" "parent i \<noteq> ?p"
    then have "i \<noteq> pos" by auto
    then show "\<not> lt (?h ! i) (?h ! parent i)"
      using i H(1) [of i] H(2) [OF pos(3), of i] pos(1) by (cases "parent i = pos") auto
  next
    fix c assume s: "s < ?p" and c: "0 < c" "c < length ?h" "parent c = ?p"
    have "parent ?p < ?p" using s by auto
    then have q: "?h ! parent ?p = h ! parent ?p" using sp by simp
    show "\<not> lt (?h ! c) (?h ! parent ?p)"
    proof (cases "c = pos")
      case True
      then show ?thesis unfolding q using up [OF s] pos(1) by simp
    next
      case False
      then have "\<not> lt (h ! c) (h ! ?p)" using sib [of c] c by simp
      then show ?thesis unfolding q using up [OF s] split [of "h ! c" "h ! parent ?p" "h ! ?p"] False by auto
    qed
  qed
qed

lemma siftdown_loop_heap:
  assumes "hole_heap lt s pos h" "pos < length h" "in_subtree s pos"
    "\<forall>c. 0 < c \<longrightarrow> c < length h \<longrightarrow> parent c = pos \<longrightarrow> \<not> lt (h ! c) x"
  shows "heap_from lt s (siftdown_loop lt x s pos h)"
  using assms
proof (induction pos arbitrary: h rule: less_induct)
  case (less pos h)
  note hole = hole_heapD [OF less.prems(1)]
  show ?case
  proof (cases "s < pos \<and> lt x (h ! parent pos)")
    case False
    then have e: "siftdown_loop lt x s pos h = h[pos := x]"
      by (subst siftdown_loop.simps) (auto simp: Let_def)
    have sp: "s \<le> pos" by (rule in_subtree_le [OF less.prems(3)])
    have "\<not> lt (h[pos := x] ! i) (h[pos := x] ! parent i)"
      if i: "0 < i" "i < length h" "s \<le> parent i" for i
    proof -
      have "parent i < i" using i(1) by auto
      then show ?thesis
        using hole(1) [OF i] less.prems(2,4) False i sp by (cases "i = pos"; cases "parent i = pos") auto
    qed
    then show ?thesis by (simp add: e heap_from_def)
  next
    case True
    let ?p = "parent pos" let ?h = "h[pos := h ! ?p]"
    have e: "siftdown_loop lt x s pos h = siftdown_loop lt x s ?p ?h"
      using True by (subst siftdown_loop.simps) (simp add: Let_def)
    have pp: "?p < pos" using True by auto
    note up = hole_up [OF less.prems(1-3)]
    show ?thesis unfolding e
      by (rule less.IH [OF pp]) (use up True less.prems(2,3) pp in_subtree_parent in auto)
  qed
qed

lemma hole_down:
  assumes hole: "hole_heap lt s pos h" and pos: "pos < length h" "s \<le> pos"
    and c: "c < length h" "0 < c" "parent c = pos"
    and mn: "\<forall>d. 0 < d \<longrightarrow> d < length h \<longrightarrow> parent d = pos \<longrightarrow> \<not> lt (h ! d) (h ! c)"
  shows "hole_heap lt s c (h[pos := h ! c])"
  unfolding hole_heap_def
proof (intro conjI allI impI)
  note H = hole_heapD [OF hole]
  have pc: "pos < c" using c by auto
  let ?h = "h[pos := h ! c]"
  fix i assume i: "0 < i" "i < length ?h" "s \<le> parent i" "i \<noteq> c" "parent i \<noteq> c"
  show "\<not> lt (?h ! i) (?h ! parent i)"
  proof (cases "i = pos")
    case True
    have "parent i < i" using i(1) by auto
    then have "\<not> lt (h ! c) (h ! parent pos)" using H(2) [of c] c True i by simp
    then show ?thesis using True pos(1) \<open>parent i < i\<close> by simp
  next
    case False
    then show ?thesis using i H(1) [of i] mn pos(1) by (cases "parent i = pos") auto
  qed
next
  let ?h = "h[pos := h ! c]"
  have pc: "pos < c" using c by auto
  fix d assume d: "0 < d" "d < length ?h" "parent d = c"
  have "c < d" using d by auto
  then have "\<not> lt (h ! d) (h ! c)" using hole_heapD(1) [OF hole, of d] d pc pos(2) by simp
  then show "\<not> lt (?h ! d) (?h ! parent c)" using \<open>c < d\<close> pc c(3) pos(1) by simp
qed

lemma siftup_loop_heap:
  assumes "siftup_loop lt pos h = (pos', h')" "hole_heap lt s pos h" "pos < length h" "in_subtree s pos"
  shows "hole_heap lt s pos' h' \<and> in_subtree s pos' \<and> length h' \<le> 2 * pos' + 1"
  using assms
proof (induction "length h - pos" arbitrary: pos h rule: less_induct)
  case less
  let ?c = "2 * pos + 1"
  show ?case
  proof (cases "?c < length h")
    case True
    define c where "c = (if ?c + 1 < length h \<and> \<not> lt (h ! ?c) (h ! (?c + 1)) then ?c + 1 else ?c)"
    have c: "c < length h" "0 < c" "parent c = pos" "pos < c" using True by (auto simp: c_def)
    have e: "siftup_loop lt pos h = siftup_loop lt c (h[pos := h ! c])"
      using True by (subst siftup_loop.simps) (simp add: Let_def c_def)
    have "\<not> lt (h ! d) (h ! c)" if "0 < d" "d < length h" "parent d = pos" for d
    proof -
      have "d = ?c \<or> d = ?c + 1" using that parent_iff [of d pos] by simp
      then show ?thesis using that(2) asym by (auto simp: c_def)
    qed
    then have "hole_heap lt s c (h[pos := h ! c])"
      using hole_down [OF less.prems(2,3) in_subtree_le [OF less.prems(4)] c(1-3)] by blast
    then show ?thesis
      using less.hyps [of "h[pos := h ! c]" c] less.prems(1) e c in_subtree_child [OF less.prems(4) c(2,3)] by simp
  next
    case False
    then show ?thesis using less.prems by (simp add: siftup_loop.simps [of lt pos h])
  qed
qed

lemma siftup_heap:
  assumes "heap_from lt (Suc pos) h" "pos < length h" shows "heap_from lt pos (siftup lt pos h)"
proof -
  obtain pos' h' where l: "siftup_loop lt pos h = (pos', h')" by force
  have "hole_heap lt pos pos h"
    using assms(1) by (auto simp: hole_heap_def heap_from_def)
  note s = siftup_loop_heap [OF l this assms(2) in_subtree_refl]
  have p: "pos' < length h'" using mset_siftup_loop [OF assms(2) l] by blast
  have "hole_heap lt pos pos' (h'[pos' := h ! pos])"
    unfolding hole_heap_def
  proof (intro conjI allI impI)
    fix i assume i: "0 < i" "i < length (h'[pos' := h ! pos])" "pos \<le> parent i" "i \<noteq> pos'" "parent i \<noteq> pos'"
    then show "\<not> lt (h'[pos' := h ! pos] ! i) (h'[pos' := h ! pos] ! parent i)"
      using s hole_heapD(1) [of lt pos pos' h' i] by simp
  next
    fix c assume "0 < c" "c < length (h'[pos' := h ! pos])" "parent c = pos'"
    then show "\<not> lt (h'[pos' := h ! pos] ! c) (h'[pos' := h ! pos] ! parent pos')"
      using s parent_iff [of c pos'] by auto
  qed
  moreover have "\<forall>c. 0 < c \<longrightarrow> c < length h' \<longrightarrow> parent c = pos' \<longrightarrow> \<not> lt (h'[pos' := h ! pos] ! c) (h ! pos)"
    using s parent_iff by auto
  ultimately show ?thesis
    using s p siftdown_loop_heap [of pos pos' "h'[pos' := h ! pos]" "h ! pos"]
    by (simp add: siftup_def l siftdown_def Let_def)
qed

lemma heapify_heap: "heap_from lt 0 (heapify lt h) \<and> mset (heapify lt h) = mset h"
proof -
  have "k \<le> length h div 2 \<Longrightarrow> heap_from lt k h' \<Longrightarrow> length h' = length h \<Longrightarrow>
      heap_from lt 0 (fold (siftup lt) (rev [0..<k]) h') \<and> mset (fold (siftup lt) (rev [0..<k]) h') = mset h'" for k h'
  proof (induction k arbitrary: h')
    case (Suc k)
    have "k < length h'" using Suc.prems by linarith
    then show ?case
      using Suc.IH [of "siftup lt k h'"] siftup_heap [OF Suc.prems(2)] mset_siftup [of k h' lt] Suc.prems by simp
  qed simp
  moreover have "heap_from lt (length h div 2) h"
    by (auto simp: heap_from_def)
  ultimately show ?thesis by (simp add: heapify_def)
qed

lemma heap_min:
  assumes "heap_from lt 0 h" "i < length h" shows "\<not> lt (h ! i) (h ! 0)"
  using assms(2)
proof (induction i rule: less_induct)
  case (less i)
  show ?case
  proof (cases "i = 0")
    case True
    then show ?thesis using asym by blast
  next
    case False
    then have "\<not> lt (h ! parent i) (h ! 0)" using less.IH [of "parent i"] less.prems by auto
    moreover have "\<not> lt (h ! i) (h ! parent i)" using assms(1) False less.prems by (simp add: heap_from_def)
    ultimately show ?thesis using split by blast
  qed
qed

lemma heappush_heap:
  assumes "heap_from lt 0 h"
  shows "heap_from lt 0 (heappush lt x h) \<and> mset (heappush lt x h) = add_mset x (mset h)"
proof -
  let ?h = "h @ [x]" let ?n = "length h"
  have kids: "\<not> (0 < c \<and> c < length ?h \<and> parent c = ?n)" for c by auto
  have "hole_heap lt 0 ?n ?h"
    unfolding hole_heap_def
  proof (intro conjI allI impI)
    fix i assume i: "0 < i" "i < length ?h" "0 \<le> parent i" "i \<noteq> ?n" "parent i \<noteq> ?n"
    then have "i < ?n" "parent i < ?n" by auto
    then show "\<not> lt (?h ! i) (?h ! parent i)" using assms i(1) by (simp add: heap_from_def nth_append)
  qed (use kids in blast)
  then have "heap_from lt 0 (siftdown_loop lt x 0 ?n ?h)"
    using kids in_subtree_0 by (intro siftdown_loop_heap) auto
  then show ?thesis
    using mset_siftdown_loop [of ?n ?h lt x 0] by (simp add: heappush_def siftdown_def)
qed

lemma heappop_heap:
  assumes "heap_from lt 0 h" "h \<noteq> []"
  shows "\<exists>x h'. heappop lt h = Inr (x, h') \<and> x = h ! 0 \<and> heap_from lt 0 h' \<and> mset h = add_mset x (mset h')
    \<and> (\<forall>y \<in> set h. \<not> lt y x)"
proof -
  have mn: "\<forall>y \<in> set h. \<not> lt y (h ! 0)" using heap_min [OF assms(1)] by (auto simp: in_set_conv_nth)
  obtain b l where h: "h = b @ [l]" using assms(2) by (cases h rule: rev_cases) auto
  show ?thesis
  proof (cases "b = []")
    case True
    then show ?thesis using h mn by (auto simp: heappop_def heap_from_def Let_def)
  next
    case False
    then have b: "b ! 0 = h ! 0" "0 < length b" using h by (auto simp: nth_append)
    have "heap_from lt (Suc 0) (b[0 := l])"
      unfolding heap_from_def
    proof (intro allI impI)
      fix i assume i: "0 < i" "i < length (b[0 := l])" "Suc 0 \<le> parent i"
      then have "\<not> lt (h ! i) (h ! parent i)" using assms(1) h by (simp add: heap_from_def)
      moreover have "parent i < length b" using i by auto
      ultimately show "\<not> lt (b[0 := l] ! i) (b[0 := l] ! parent i)"
        using i h by (simp add: nth_append)
    qed
    then have "heap_from lt 0 (siftup lt 0 (b[0 := l]))" using b(2) by (intro siftup_heap) auto
    moreover have "mset (siftup lt 0 (b[0 := l])) = mset (b[0 := l])" using b(2) by (intro mset_siftup) simp
    moreover have "mset h = add_mset (h ! 0) (mset (b[0 := l]))"
      using b h by (cases b) auto
    moreover have "heappop lt h = Inr (h ! 0, siftup lt 0 (b[0 := l]))"
      using h False b by (simp add: heappop_def Let_def)
    ultimately show ?thesis using mn by auto
  qed
qed

end

section \<open>Requests form such an order\<close>

lemma str_less_split: "str_less a c \<Longrightarrow> str_less a b \<or> str_less b c"
  by (metis str_less_total str_less_trans)

lemma request_less_split: "request_less a c \<Longrightarrow> request_less a b \<or> request_less b c"
proof -
  assume l: "request_less a c"
  consider "request_less a b" | "request_less b a" | "\<not> request_less a b" "\<not> request_less b a" by blast
  then show ?thesis
  proof cases
    case 2
    then show ?thesis using request_less_trans l by blast
  next
    case 3
    then have "priority a = priority b" "arrival_time a = arrival_time b" "request_id a = request_id b" "obj_id a = obj_id b"
      using str_less_total [of "request_id a" "request_id b"] by (auto simp: request_less_def split: if_splits)
    then have "request_less b c \<longleftrightarrow> request_less a c" by (simp only: request_less_def)
    then show ?thesis using l by simp
  qed simp
qed

interpretation rq_order: heap_order request_less
  by unfold_locales (use request_less_asym request_less_split in blast)+

section \<open>The interface of a request queue\<close>

text \<open>Popping \<open>n\<close> times.\<close>

fun pop_many :: "('q \<Rightarrow> ('r \<times> 'q) result) \<Rightarrow> nat \<Rightarrow> 'q \<Rightarrow> ('r list \<times> 'q) result" where
  "pop_many pop 0 q = Inr ([], q)"
| "pop_many pop (Suc n) q =
     bindE (pop q) (\<lambda>(r, q1). bindE (pop_many pop n q1) (\<lambda>(rs, q2). Inr (r # rs, q2)))"

locale request_queue_ops =
  fixes ok :: "'q \<Rightarrow> bool"
    and content :: "'q \<Rightarrow> request multiset"
    and add :: "request \<Rightarrow> 'q \<Rightarrow> 'q"
    and pop :: "'q \<Rightarrow> (request \<times> 'q) result"
    and peek :: "'q \<Rightarrow> request result"
    and prepend :: "request \<Rightarrow> 'q \<Rightarrow> 'q"
    and rem :: "request \<Rightarrow> 'q \<Rightarrow> 'q result"
    and rem_all :: "request list \<Rightarrow> 'q \<Rightarrow> 'q"
  assumes add_ok: "ok q \<Longrightarrow> ok (add r q) \<and> content (add r q) = add_mset r (content q)"
    and prepend_ok: "ok q \<Longrightarrow> ok (prepend r q) \<and> content (prepend r q) = add_mset r (content q)"
    and pop_empty: "ok q \<Longrightarrow> content q = {#} \<Longrightarrow> pop q = Inl IndexError \<and> peek q = Inl IndexError"
    and pop_some: "ok q \<Longrightarrow> content q \<noteq> {#} \<Longrightarrow>
      \<exists>r q'. pop q = Inr (r, q') \<and> peek q = Inr r \<and> ok q' \<and> content q = add_mset r (content q')"
    and rem_absent: "ok q \<Longrightarrow> (\<forall>x \<in># content q. \<not> same_obj x r) \<Longrightarrow> rem r q = Inl ValueError"
    and rem_present: "ok q \<Longrightarrow> x \<in># content q \<Longrightarrow> same_obj x r \<Longrightarrow>
      \<exists>q' y. rem r q = Inr q' \<and> ok q' \<and> same_obj y r \<and> content q = add_mset y (content q')"
    and rem_all_ok: "ok q \<Longrightarrow> ok (rem_all rs q)
      \<and> content (rem_all rs q) = filter_mset (\<lambda>r. obj_id r \<notin> obj_id ` set rs) (content q)"
begin

text \<open>A queue that is popped as often as it has requests gives each of them once.\<close>

lemma pop_many_all:
  assumes "ok q" "size (content q) = n"
  shows "\<exists>rs q'. pop_many pop n q = Inr (rs, q') \<and> mset rs = content q \<and> ok q' \<and> content q' = {#}"
  using assms
proof (induction n arbitrary: q)
  case (Suc n)
  have "content q \<noteq> {#}" using Suc.prems(2) by auto
  then obtain r q1 where 1: "pop q = Inr (r, q1)" "ok q1" "content q = add_mset r (content q1)"
    using pop_some [OF Suc.prems(1)] by blast
  obtain rs q2 where "pop_many pop n q1 = Inr (rs, q2)" "mset rs = content q1" "ok q2" "content q2 = {#}"
    using Suc.IH [OF 1(2)] 1(3) Suc.prems(2) by auto
  then show ?case using 1 by auto
qed simp

lemma adds_ok: "ok q \<Longrightarrow> ok (fold add rs q) \<and> content (fold add rs q) = mset rs + content q"
proof (induction rs arbitrary: q)
  case (Cons r rs)
  then show ?case using add_ok [OF Cons.prems] by simp
qed simp

lemma add_all_pop_all:
  assumes "ok q" "content q = {#}"
  shows "\<exists>out q'. pop_many pop (length rs) (fold add rs q) = Inr (out, q') \<and> mset out = mset rs \<and> content q' = {#}"
  using pop_many_all [of "fold add rs q" "length rs"] adds_ok [OF assms(1), of rs] assms(2) by auto

end

lemma remove_first_absent: "\<forall>x \<in> set q. \<not> same_obj x r \<Longrightarrow> remove_first r q = Inl ValueError"
  by (induction q) auto

lemma remove_first_present:
  "x \<in> set q \<Longrightarrow> same_obj x r \<Longrightarrow>
   \<exists>q' y. remove_first r q = Inr q' \<and> same_obj y r \<and> mset q = add_mset y (mset q')"
proof (induction q)
  case (Cons z q)
  show ?case
  proof (cases "same_obj z r")
    case False
    then obtain q' y where "remove_first r q = Inr q'" "same_obj y r" "mset q = add_mset y (mset q')"
      using Cons by auto
    then show ?thesis using False by auto
  qed auto
qed simp

interpretation fcfs: request_queue_ops "\<lambda>_. True" mset fcfs_add_request fcfs_pop_request
    fcfs_peek_request fcfs_prepend_request fcfs_remove_request fcfs_remove_requests
proof unfold_locales
  fix q :: requests
  assume "mset q = {#}"
  then show "fcfs_pop_request q = Inl IndexError \<and> fcfs_peek_request q = Inl IndexError"
    by (simp add: fcfs_pop_request_def fcfs_peek_request_def)
next
  fix q :: requests
  assume "mset q \<noteq> {#}"
  then show "\<exists>r q'. fcfs_pop_request q = Inr (r, q') \<and> fcfs_peek_request q = Inr r \<and> True \<and> mset q = add_mset r (mset q')"
    by (cases q) (auto simp: fcfs_pop_request_def fcfs_peek_request_def)
qed (auto simp: fcfs_add_request_def fcfs_prepend_request_def fcfs_remove_request_def
    fcfs_remove_requests_def remove_first_absent dest: remove_first_present)

abbreviation heap_ok :: "requests \<Rightarrow> bool" where
  "heap_ok \<equiv> heap_from request_less 0"

interpretation prio: request_queue_ops heap_ok mset prio_add_request prio_pop_request
    prio_peek_request prio_prepend_request prio_remove_request prio_remove_requests
proof unfold_locales
  fix q r assume q: "heap_ok q"
  show "heap_ok (prio_add_request r q) \<and> mset (prio_add_request r q) = add_mset r (mset q)"
    using rq_order.heappush_heap [OF q] by (simp add: prio_add_request_def)
  show "heap_ok (prio_prepend_request r q) \<and> mset (prio_prepend_request r q) = add_mset r (mset q)"
    using rq_order.heappush_heap [OF q] by (simp add: prio_prepend_request_def prio_add_request_def)
next
  fix q assume q: "heap_ok q" "mset q \<noteq> {#}"
  then show "\<exists>r q'. prio_pop_request q = Inr (r, q') \<and> prio_peek_request q = Inr r \<and> heap_ok q' \<and> mset q = add_mset r (mset q')"
    using rq_order.heappop_heap [OF q(1)] by (auto simp: prio_pop_request_def prio_peek_request_def)
next
  fix q x r assume "heap_ok q" "x \<in># mset q" "same_obj x r"
  then obtain q' y where "remove_first r q = Inr q'" "same_obj y r" "mset q = add_mset y (mset q')"
    using remove_first_present [of x q r] by auto
  then show "\<exists>q' y. prio_remove_request r q = Inr q' \<and> heap_ok q' \<and> same_obj y r \<and> mset q = add_mset y (mset q')"
    using rq_order.heapify_heap [of q'] by (auto simp: prio_remove_request_def)
next
  fix q rs assume "heap_ok q"
  show "heap_ok (prio_remove_requests rs q)
      \<and> mset (prio_remove_requests rs q) = filter_mset (\<lambda>r. obj_id r \<notin> obj_id ` set rs) (mset q)"
    using rq_order.heapify_heap by (simp add: prio_remove_requests_def)
qed (auto simp: prio_pop_request_def prio_peek_request_def prio_remove_request_def remove_first_absent)

text \<open>Iterating a priority queue sorts it.\<close>

lemma prio_iter_sorted:
  "heap_ok q \<Longrightarrow> \<exists>rs. prio_iter q = Inr rs \<and> mset rs = mset q \<and> sorted_wrt (\<lambda>a b. \<not> request_less b a) rs"
proof (induction "length q" arbitrary: q)
  case 0
  then show ?case by (simp add: prio_iter.simps)
next
  case (Suc n)
  then have "q \<noteq> []" by auto
  then obtain r q' where p: "heappop request_less q = Inr (r, q')" "heap_ok q'" "mset q = add_mset r (mset q')"
    "\<forall>y \<in> set q. \<not> request_less y r"
    using rq_order.heappop_heap [OF Suc.prems] by blast
  have "n = length q'" using heappop_length [OF p(1)] Suc.hyps(2) by simp
  then obtain rs where rs: "prio_iter q' = Inr rs" "mset rs = mset q'" "sorted_wrt (\<lambda>a b. \<not> request_less b a) rs"
    using Suc.hyps(1) p(2) by blast
  have "set rs \<subseteq> set q" using rs(2) p(3) by (metis mset_eq_setD set_mset_mset set_mset_add_mset_insert subset_insertI)
  then show ?case
    using p rs \<open>q \<noteq> []\<close> by (auto simp: prio_iter.simps [of q])
qed

text \<open>Popping the priority queue \<open>n\<close> times yields what iterating it yields.\<close>

lemma prio_pop_many_sorted:
  "heap_ok q \<Longrightarrow> \<exists>rs q'. pop_many prio_pop_request (length q) q = Inr (rs, q') \<and> mset rs = mset q
     \<and> sorted_wrt (\<lambda>a b. \<not> request_less b a) rs"
proof (induction "length q" arbitrary: q)
  case (Suc n)
  then have ne: "q \<noteq> []" by auto
  then obtain r q' where p: "heappop request_less q = Inr (r, q')" "heap_ok q'" "mset q = add_mset r (mset q')"
    "\<forall>y \<in> set q. \<not> request_less y r"
    using rq_order.heappop_heap [OF Suc.prems] by blast
  have n: "n = length q'" using heappop_length [OF p(1)] Suc.hyps(2) by simp
  then obtain rs q2 where rs: "pop_many prio_pop_request n q' = Inr (rs, q2)" "mset rs = mset q'"
    "sorted_wrt (\<lambda>a b. \<not> request_less b a) rs"
    using Suc.hyps(1) p(2) by blast
  have "set rs \<subseteq> set q" using rs(2) p(3) by (metis mset_eq_setD set_mset_mset set_mset_add_mset_insert subset_insertI)
  then show ?case
    using p rs ne unfolding Suc.hyps(2) [symmetric] by (auto simp: prio_pop_request_def)
qed simp

text \<open>The first-come-first-served queue gives the requests back in the order they were added.\<close>

lemma fcfs_fold_add: "fold fcfs_add_request rs q = q @ rs"
  by (induction rs arbitrary: q) (simp_all add: fcfs_add_request_def)

lemma fcfs_pop_many: "pop_many fcfs_pop_request (length xs) (xs @ ys) = Inr (xs, ys)"
  by (induction xs) (simp_all add: fcfs_pop_request_def)

lemma fcfs_prepend_all: "fcfs_prepend_requests rs q = rev rs @ q"
  by (induction rs arbitrary: q) (simp_all add: fcfs_prepend_requests_def)

section \<open>Properties\<close>

text \<open>
  The first-come-first-served queue: requests that arrive are scheduled after those waiting,
  in the order they arrive; a group of requests that is prepended comes first, in reverse order,
  and popping an empty queue raises \<open>IndexError\<close>.
\<close>

theorem fcfs_order:
  "pop_many fcfs_pop_request (length ps + length q + length rs)
     (fold fcfs_add_request rs (fcfs_prepend_requests ps q)) = Inr (rev ps @ q @ rs, [])
   \<and> fcfs_pop_request [] = Inl IndexError \<and> fcfs_peek_request [] = Inl IndexError"
  using fcfs_pop_many [of "rev ps @ q @ rs" "[]"] fcfs.pop_empty [of "[]"]
  by (simp add: fcfs_fold_add fcfs_prepend_all add.assoc)

text \<open>
  C39. The priority queue: whatever requests are added in whatever order, popping until the
  queue is empty succeeds and yields exactly those requests, each once, sorted by the request
  order (priority, then arrival time, then id), and the queue keeps the heap property that
  \<open>heapq\<close> needs.
\<close>

theorem priority_order:
  "\<exists>out q'. pop_many prio_pop_request (length rs) (fold prio_add_request rs []) = Inr (out, q')
     \<and> mset out = mset rs \<and> sorted_wrt (\<lambda>a b. \<not> request_less b a) out"
proof -
  have ok: "heap_ok []" by (simp add: heap_from_def)
  then have "heap_ok (fold prio_add_request rs [])" "mset (fold prio_add_request rs []) = mset rs"
    using prio.adds_ok [of "[]" rs] by simp_all
  then show ?thesis using prio_pop_many_sorted [of "fold prio_add_request rs []"] by (metis size_mset)
qed

text \<open>
  Removing a set of requests from a heap-ordered priority queue leaves the others, and the
  result is again heap ordered: a pop afterwards returns one that no other precedes.
\<close>

theorem priority_remove_requests:
  assumes "heap_from request_less 0 q"
  shows "heap_from request_less 0 (prio_remove_requests rs q)
    \<and> mset (prio_remove_requests rs q) = filter_mset (\<lambda>r. obj_id r \<notin> obj_id ` set rs) (mset q)
    \<and> (prio_remove_requests rs q \<noteq> [] \<longrightarrow> (\<exists>r q'. prio_pop_request (prio_remove_requests rs q) = Inr (r, q')
         \<and> (\<forall>x \<in> set q'. \<not> request_less x r)))"
proof -
  have 1: "heap_from request_less 0 (prio_remove_requests rs q)"
    "mset (prio_remove_requests rs q) = filter_mset (\<lambda>r. obj_id r \<notin> obj_id ` set rs) (mset q)"
    using prio.rem_all_ok [OF assms] by blast+
  have "\<exists>r q'. prio_pop_request (prio_remove_requests rs q) = Inr (r, q') \<and> (\<forall>x \<in> set q'. \<not> request_less x r)"
    if ne: "prio_remove_requests rs q \<noteq> []"
  proof -
    from rq_order.heappop_heap [OF 1(1) ne] obtain x h' where
      "heappop request_less (prio_remove_requests rs q) = Inr (x, h')"
      "mset (prio_remove_requests rs q) = add_mset x (mset h')"
      "\<forall>y \<in> set (prio_remove_requests rs q). \<not> request_less y x" by blast
    moreover from this(2) have "set h' \<subseteq> set (prio_remove_requests rs q)" by (metis set_mset_mset set_mset_add_mset_insert subset_insertI)
    ultimately show ?thesis using ne by (auto simp: prio_pop_request_def)
  qed
  with 1 show ?thesis by blast
qed

theorem priority_remove_requests_witness:
  "mset (prio_remove_requests [demo_request ''a'' [] [] []] [demo_request ''a'' [] [] [], (demo_request ''b'' [] [] [])\<lparr>obj_id := 1\<rparr>])
     = {# (demo_request ''b'' [] [] [])\<lparr>obj_id := 1\<rparr> #}"
proof -
  let ?q = "[demo_request ''a'' [] [] [], (demo_request ''b'' [] [] [])\<lparr>obj_id := 1\<rparr>]"
  have "heap_from request_less 0 ?q"
    by (auto simp: heap_from_def request_less_def demo_request_def less_Suc_eq)
  then show ?thesis using priority_remove_requests [of ?q "[demo_request ''a'' [] [] []]"] by (simp add: demo_request_def)
qed

end
