(* ===== verification/Encoder_Cache.thy ===== *)
theory Encoder_Cache
  imports Request_Model
begin

text \<open>
  \<open>vllm/v1/core/encoder_cache_manager.py\<close>: the cache of encoder outputs shared by requests
  (\<open>EncoderCacheManager\<close>), the budget computed at start-up and the variant for
  encoder-decoder models (\<open>EncoderDecoderCacheManager\<close>).

  \<open>order\<close> is the order in which the interpreter iterates over a set of input ids.
\<close>

section \<open>EncoderCacheManager\<close>

record encoder_cache =
  cache_size :: int
  num_free_slots :: int
  num_freeable_slots :: int
  ec_cached :: "(string \<times> string set) list"
  freeable :: "(string \<times> int) list"
  freed :: "string list"

definition encoder_cache_init :: "int \<Rightarrow> encoder_cache" where
  "encoder_cache_init sz0 =
     \<lparr>cache_size = sz0, num_free_slots = sz0, num_freeable_slots = sz0,
      ec_cached = [], freeable = [], freed = []\<rparr>"

definition ec_reset :: "encoder_cache \<Rightarrow> encoder_cache" where
  "ec_reset m = m\<lparr>ec_cached := [], freeable := [], freed := [],
                   num_free_slots := cache_size m, num_freeable_slots := cache_size m\<rparr>"

definition mm_hash_of :: "request \<Rightarrow> nat \<Rightarrow> string result" where
  "mm_hash_of r i = bindE (py_index (mm_features r) (int i)) (\<lambda>f. Inr (mm_identifier f))"

definition check_and_update_cache :: "request \<Rightarrow> nat \<Rightarrow> encoder_cache \<Rightarrow> (bool \<times> encoder_cache) result" where
  "check_and_update_cache r i m =
     bindE (mm_hash_of r i) (\<lambda>h.
       case dict_get (ec_cached m) h of
         None \<Rightarrow> Inr (False, m)
       | Some ids \<Rightarrow>
           bindE (if ids = {}
                  then (case dict_get (freeable m) h of
                          None \<Rightarrow> Inl KeyError
                        | Some n \<Rightarrow> Inr (m\<lparr>freeable := dict_pop h (freeable m),
                                           num_freeable_slots := num_freeable_slots m - n\<rparr>))
                  else Inr m)
             (\<lambda>m1. Inr (True, m1\<lparr>ec_cached := dict_set h (insert (request_id r) ids) (ec_cached m1)\<rparr>)))"

text \<open>The eviction loop: entries of \<open>freeable\<close>, oldest first, until \<open>need\<close> slots are free.\<close>

fun evict_loop :: "int \<Rightarrow> (string \<times> int) list \<Rightarrow> encoder_cache \<Rightarrow> encoder_cache result" where
  "evict_loop need fr m =
     (if num_free_slots m < need
      then (case fr of
              [] \<Rightarrow> Inl KeyError
            | (h, n) # fr' \<Rightarrow>
                if dict_get (ec_cached m) h = None then Inl KeyError
                else evict_loop need fr'
                       (m\<lparr>freeable := fr', ec_cached := dict_pop h (ec_cached m),
                          freed := freed m @ [h], num_free_slots := num_free_slots m + n\<rparr>))
      else Inr m)"

declare evict_loop.simps [simp del]

definition can_allocate :: "request \<Rightarrow> nat \<Rightarrow> int \<Rightarrow> int \<Rightarrow> encoder_cache \<Rightarrow> (bool \<times> encoder_cache) result" where
  "can_allocate r i budget scheduled m =
     bindE (get_num_encoder_embeds r i) (\<lambda>n.
       if budget < n then Inr (False, m)
       else let need = n + scheduled
            in if need \<le> num_free_slots m then Inr (True, m)
               else if num_freeable_slots m < need then Inr (False, m)
               else bindE (evict_loop need (freeable m) m) (\<lambda>m'. Inr (True, m')))"

definition ec_allocate :: "request \<Rightarrow> nat \<Rightarrow> encoder_cache \<Rightarrow> encoder_cache result" where
  "ec_allocate r i m =
     bindE (mm_hash_of r i) (\<lambda>h.
       let m1 = (if dict_get (ec_cached m) h = None
                 then m\<lparr>ec_cached := dict_set h {} (ec_cached m)\<rparr> else m)
       in bindE (get_num_encoder_embeds r i) (\<lambda>n.
          bindE (guardE (n \<le> num_free_slots m1) AssertionError) (\<lambda>_.
          bindE (guardE (n \<le> num_freeable_slots m1) AssertionError) (\<lambda>_.
            Inr (m1\<lparr>ec_cached := dict_set h (insert (request_id r)
                        (case dict_get (ec_cached m1) h of None \<Rightarrow> {} | Some ids \<Rightarrow> ids)) (ec_cached m1),
                    num_free_slots := num_free_slots m1 - n,
                    num_freeable_slots := num_freeable_slots m1 - n\<rparr>)))))"

definition get_cached_input_ids :: "request \<Rightarrow> encoder_cache \<Rightarrow> nat set" where
  "get_cached_input_ids r m =
     {i \<in> {..<length (mm_features r)}. dict_get (ec_cached m) (mm_identifier (mm_features r ! i)) \<noteq> None}"

definition free_encoder_input :: "request \<Rightarrow> nat \<Rightarrow> encoder_cache \<Rightarrow> encoder_cache result" where
  "free_encoder_input r i m =
     bindE (mm_hash_of r i) (\<lambda>h.
       case dict_get (ec_cached m) h of
         None \<Rightarrow> Inr m
       | Some ids \<Rightarrow>
           if ids = {} then Inr m
           else let ids' = ids - {request_id r};
                    m1 = m\<lparr>ec_cached := dict_set h ids' (ec_cached m)\<rparr>
                in if ids' = {}
                   then bindE (get_num_encoder_embeds r i) (\<lambda>n.
                          Inr (m1\<lparr>freeable := dict_set h n (freeable m1),
                                  num_freeable_slots := num_freeable_slots m1 + n\<rparr>))
                   else Inr m1)"

definition ec_free :: "(nat set \<Rightarrow> nat list) \<Rightarrow> request \<Rightarrow> encoder_cache \<Rightarrow> encoder_cache result" where
  "ec_free order r m = foldE (\<lambda>i. free_encoder_input r i) (order (get_cached_input_ids r m)) m"

definition get_freed_mm_hashes :: "encoder_cache \<Rightarrow> string list \<times> encoder_cache" where
  "get_freed_mm_hashes m = (freed m, m\<lparr>freed := []\<rparr>)"

section \<open>The encoder budget\<close>

record scheduler_limits =
  disable_chunked_mm_input :: bool
  max_num_batched_tokens :: int
  max_num_encoder_input_tokens :: int
  encoder_cache_size :: int

definition compute_mm_encoder_budget :: "scheduler_limits \<Rightarrow> (string \<times> int) list \<Rightarrow> (int \<times> int) result" where
  "compute_mm_encoder_budget c items =
     (if items = [] then Inr (0, 0)
      else let mx = Max (set (map snd items))
           in if disable_chunked_mm_input c \<and> max_num_batched_tokens c < mx then Inl ValueError
              else Inr (max (max_num_encoder_input_tokens c) mx, max (encoder_cache_size c) mx))"

section \<open>EncoderDecoderCacheManager\<close>

record enc_dec_cache =
  ed_cache_size :: int
  ed_num_free_slots :: int
  allocated :: "string list"
  to_free :: "string list"

definition enc_dec_init :: "int \<Rightarrow> enc_dec_cache" where
  "enc_dec_init sz0 = \<lparr>ed_cache_size = sz0, ed_num_free_slots = sz0, allocated = [], to_free = []\<rparr>"

definition ed_reset :: "enc_dec_cache \<Rightarrow> enc_dec_cache" where
  "ed_reset m = m\<lparr>ed_num_free_slots := ed_cache_size m, allocated := [], to_free := []\<rparr>"

definition ed_check_and_update_cache :: "request \<Rightarrow> nat \<Rightarrow> enc_dec_cache \<Rightarrow> bool" where
  "ed_check_and_update_cache r i m = False"

definition ed_can_allocate :: "request \<Rightarrow> nat \<Rightarrow> int \<Rightarrow> int \<Rightarrow> enc_dec_cache \<Rightarrow> bool result" where
  "ed_can_allocate r i budget scheduled m =
     bindE (get_num_encoder_embeds r i) (\<lambda>n.
       if budget < n then Inr False else Inr (n + scheduled \<le> ed_num_free_slots m))"

definition ed_allocate :: "request \<Rightarrow> nat \<Rightarrow> enc_dec_cache \<Rightarrow> enc_dec_cache result" where
  "ed_allocate r i m =
     bindE (get_num_encoder_embeds r i) (\<lambda>n.
     bindE (mm_hash_of r i) (\<lambda>h.
       Inr (m\<lparr>ed_num_free_slots := ed_num_free_slots m - n, allocated := allocated m @ [h]\<rparr>)))"

definition ed_free_encoder_input :: "request \<Rightarrow> nat \<Rightarrow> enc_dec_cache \<Rightarrow> enc_dec_cache result" where
  "ed_free_encoder_input r i m =
     bindE (get_num_encoder_embeds r i) (\<lambda>n. Inr (m\<lparr>ed_num_free_slots := ed_num_free_slots m + n\<rparr>))"

definition ed_free :: "request \<Rightarrow> enc_dec_cache \<Rightarrow> enc_dec_cache result" where
  "ed_free r m = foldE (\<lambda>i. ed_free_encoder_input r i) [0..<length (mm_features r)] m"

definition ed_get_cached_input_ids :: "request \<Rightarrow> nat set" where
  "ed_get_cached_input_ids r = {..<length (mm_features r)}"

definition ed_get_freed_mm_hashes :: "enc_dec_cache \<Rightarrow> string list \<times> enc_dec_cache" where
  "ed_get_freed_mm_hashes m = (to_free m, m\<lparr>to_free := allocated m, allocated := []\<rparr>)"

section \<open>The slots add up\<close>

text \<open>The number of embeddings of every multimodal item is \<open>sz\<close> of its hash.\<close>

definition items_ok :: "(string \<Rightarrow> int) \<Rightarrow> request \<Rightarrow> bool" where
  "items_ok sz r \<longleftrightarrow> (\<forall>f \<in> set (mm_features r). get_num_embeds (mm_position f) = sz (mm_identifier f))"

definition ec_inv :: "(string \<Rightarrow> int) \<Rightarrow> encoder_cache \<Rightarrow> bool" where
  "ec_inv sz m \<longleftrightarrow> (\<forall>h. 0 \<le> sz h) \<and> dict_wf (ec_cached m) \<and> dict_wf (freeable m)
     \<and> (\<forall>h n. (h, n) \<in> set (freeable m) \<longleftrightarrow> (h, {}) \<in> set (ec_cached m) \<and> n = sz h)
     \<and> num_free_slots m = cache_size m - (\<Sum>(h, _) \<leftarrow> ec_cached m. sz h)
     \<and> num_freeable_slots m = num_free_slots m + (\<Sum>(h, n) \<leftarrow> freeable m. n)
     \<and> 0 \<le> num_free_slots m"

lemma ec_invD:
  assumes "ec_inv sz m"
  shows "0 \<le> sz h" "dict_wf (ec_cached m)" "dict_wf (freeable m)"
    "(h, n) \<in> set (freeable m) \<longleftrightarrow> (h, {}) \<in> set (ec_cached m) \<and> n = sz h"
    "num_free_slots m = cache_size m - (\<Sum>(h, _) \<leftarrow> ec_cached m. sz h)"
    "num_freeable_slots m = num_free_slots m + (\<Sum>(h, n) \<leftarrow> freeable m. n)"
    "0 \<le> num_free_slots m"
  using assms by (simp_all add: ec_inv_def)

lemma mm_hash_of_Inr: "i < length (mm_features r) \<Longrightarrow> mm_hash_of r i = Inr (mm_identifier (mm_features r ! i))"
  by (simp add: mm_hash_of_def)

lemma num_embeds_of: "items_ok sz r \<Longrightarrow> i < length (mm_features r) \<Longrightarrow>
    get_num_encoder_embeds r i = Inr (sz (mm_identifier (mm_features r ! i)))"
  by (simp add: get_num_encoder_embeds_def items_ok_def)

lemma ec_init_inv: "(\<forall>h. 0 \<le> sz h) \<Longrightarrow> 0 \<le> sz0 \<Longrightarrow> ec_inv sz (encoder_cache_init sz0)"
  by (simp add: ec_inv_def encoder_cache_init_def)

lemma ec_reset_inv: "ec_inv sz m \<Longrightarrow> 0 \<le> cache_size m \<Longrightarrow> ec_inv sz (ec_reset m)"
  by (simp add: ec_inv_def ec_reset_def)

lemma check_and_update_spec:
  assumes inv: "ec_inv sz m" and i: "i < length (mm_features r)"
  defines "h \<equiv> mm_identifier (mm_features r ! i)"
  shows "\<exists>hit m'. check_and_update_cache r i m = Inr (hit, m') \<and> ec_inv sz m'
    \<and> (hit \<longleftrightarrow> dict_get (ec_cached m) h \<noteq> None) \<and> num_free_slots m' = num_free_slots m
    \<and> cache_size m' = cache_size m
    \<and> (hit \<longrightarrow> (\<exists>ids. dict_get (ec_cached m') h = Some ids \<and> request_id r \<in> ids))
    \<and> (\<not> hit \<longrightarrow> m' = m)"
proof (cases "dict_get (ec_cached m) h")
  case None
  then show ?thesis using inv i by (auto simp: check_and_update_cache_def mm_hash_of_Inr h_def [symmetric] simp del: dict_get_eq_None)
next
  case (Some ids)
  note d = ec_invD [OF inv]
  show ?thesis
  proof (cases "ids = {}")
    case True
    have "(h, sz h) \<in> set (freeable m)" using Some True d(4) dict_get_wf [OF d(2)] by auto
    then have f: "dict_get (freeable m) h = Some (sz h)" using dict_get_wf [OF d(3)] by simp
    let ?m = "m\<lparr>freeable := dict_pop h (freeable m), num_freeable_slots := num_freeable_slots m - sz h,
                ec_cached := dict_set h {request_id r} (ec_cached m)\<rparr>"
    have "check_and_update_cache r i m = Inr (True, ?m)"
      using Some True f i by (simp add: check_and_update_cache_def mm_hash_of_Inr h_def [symmetric])
    moreover have "ec_inv sz ?m"
      using d sum_dict_pop [OF d(3) f, of "\<lambda>_ n. n"] sum_dict_set_old [OF Some, of "\<lambda>h _. sz h" "{request_id r}"]
      by (auto simp: ec_inv_def set_dict_pop_iff set_dict_set_iff)
    ultimately show ?thesis using Some by auto
  next
    case False
    let ?m = "m\<lparr>ec_cached := dict_set h (insert (request_id r) ids) (ec_cached m)\<rparr>"
    have "check_and_update_cache r i m = Inr (True, ?m)"
      using Some False i by (simp add: check_and_update_cache_def mm_hash_of_Inr h_def [symmetric])
    moreover have "(h, {}) \<notin> set (ec_cached m)" using Some False dict_get_wf [OF d(2), of h "{}"] by simp
    then have "ec_inv sz ?m"
      using d sum_dict_set_old [OF Some, of "\<lambda>h _. sz h" "insert (request_id r) ids"]
      by (auto simp: ec_inv_def set_dict_set_iff)
    ultimately show ?thesis using Some by auto
  qed
qed

text \<open>The eviction loop ends with enough slots, having evicted a prefix of the freeable entries.\<close>

lemma evict_loop_spec:
  assumes "ec_inv sz m" "need \<le> num_freeable_slots m" "fr = freeable m"
  shows "\<exists>m'. evict_loop need fr m = Inr m' \<and> ec_inv sz m' \<and> need \<le> num_free_slots m'
    \<and> num_freeable_slots m' = num_freeable_slots m \<and> cache_size m' = cache_size m
    \<and> (\<forall>h. dict_get (ec_cached m) h = None \<longrightarrow> dict_get (ec_cached m') h = None)
    \<and> (\<exists>k. freed m' = freed m @ map fst (take k (freeable m)) \<and> freeable m' = drop k (freeable m))
    \<and> (\<forall>h ids. (h, ids) \<in> set (ec_cached m) \<longrightarrow> ids \<noteq> {} \<longrightarrow> (h, ids) \<in> set (ec_cached m'))"
  using assms
proof (induction fr arbitrary: m)
  case Nil
  then have "need \<le> num_free_slots m" using ec_invD(6) [OF Nil.prems(1)] by simp
  then show ?case using Nil by (auto simp: evict_loop.simps intro: exI [of _ 0])
next
  case (Cons e fr)
  note d = ec_invD [OF Cons.prems(1)]
  obtain h n where e: "e = (h, n)" by force
  show ?case
  proof (cases "num_free_slots m < need")
    case False
    then show ?thesis using Cons.prems by (auto simp: evict_loop.simps intro: exI [of _ 0])
  next
    case True
    have fm: "freeable m = (h, n) # fr" using Cons.prems(3) e by simp
    have hn: "(h, {}) \<in> set (ec_cached m)" "n = sz h" using d(4) [of h n] fm by auto
    then have g: "dict_get (ec_cached m) h = Some {}" using dict_get_wf [OF d(2)] by simp
    let ?m = "m\<lparr>freeable := fr, ec_cached := dict_pop h (ec_cached m),
                          freed := freed m @ [h], num_free_slots := num_free_slots m + n\<rparr>"
    have nfr: "(h, k) \<notin> set fr" for k using d(3) unfolding fm by (force simp: dict_wf_def)
    have "ec_inv sz ?m"
      unfolding ec_inv_def
    proof (intro conjI allI)
      show "((h', k) \<in> set (freeable ?m)) = ((h', {}) \<in> set (ec_cached ?m) \<and> k = sz h')" for h' k
        using d(4) [of h' k] nfr [of k] unfolding fm by (auto simp: set_dict_pop_iff [OF d(2)])
      show "num_free_slots ?m = cache_size ?m - (\<Sum>(h, _) \<leftarrow> ec_cached ?m. sz h)"
        using d(5) sum_dict_pop [OF d(2) g, of "\<lambda>h _. sz h"] hn(2) by simp
      show "num_freeable_slots ?m = num_free_slots ?m + (\<Sum>(h, n) \<leftarrow> freeable ?m. n)"
        using d(6) unfolding fm by simp
      show "dict_wf (freeable ?m)" using d(3) unfolding fm by (simp add: dict_wf_def)
    qed (use d(1,2,7) hn(2) in auto)
    then obtain m' k where m': "evict_loop need fr ?m = Inr m'" "ec_inv sz m'" "need \<le> num_free_slots m'"
      "num_freeable_slots m' = num_freeable_slots ?m" "cache_size m' = cache_size ?m"
      "\<forall>h. dict_get (ec_cached ?m) h = None \<longrightarrow> dict_get (ec_cached m') h = None"
      "freed m' = freed ?m @ map fst (take k fr)" "freeable m' = drop k fr"
      "\<forall>h ids. (h, ids) \<in> set (ec_cached ?m) \<longrightarrow> ids \<noteq> {} \<longrightarrow> (h, ids) \<in> set (ec_cached m')"
      using Cons.IH [of ?m] Cons.prems(2) by (auto simp del: dict_get_eq_None)
    have gone: "\<forall>h. dict_get (ec_cached m) h = None \<longrightarrow> dict_get (ec_cached m') h = None"
      using m'(6) by (simp del: dict_get_eq_None)
    have kept: "(h', ids) \<in> set (ec_cached m')" if "(h', ids) \<in> set (ec_cached m)" "ids \<noteq> {}" for h' ids
    proof -
      have "h' \<noteq> h" using that g dict_get_wf [OF d(2), of h' ids] by auto
      then show ?thesis using m'(9) that by (auto simp: set_dict_pop_iff [OF d(2)])
    qed
    have "evict_loop need (e # fr) m = Inr m'" using True g m'(1) e by (subst evict_loop.simps) (simp del: dict_get_eq_None)
    then show ?thesis using m'(2-5,7,8) kept gone unfolding fm
      by (intro exI [of _ m'] conjI) (auto intro!: exI [of _ "Suc k"] simp del: dict_get_eq_None)
  qed
qed

lemma can_allocate_spec:
  assumes inv: "ec_inv sz m" and it: "items_ok sz r" and i: "i < length (mm_features r)"
  defines "n \<equiv> sz (mm_identifier (mm_features r ! i))"
  shows "\<exists>ok m'. can_allocate r i budget scheduled m = Inr (ok, m') \<and> ec_inv sz m'
    \<and> (ok \<longleftrightarrow> n \<le> budget \<and> n + scheduled \<le> num_freeable_slots m)
    \<and> (ok \<longrightarrow> n + scheduled \<le> num_free_slots m') \<and> (\<not> ok \<longrightarrow> m' = m) \<and> cache_size m' = cache_size m
    \<and> (\<forall>h. dict_get (ec_cached m) h = None \<longrightarrow> dict_get (ec_cached m') h = None)
    \<and> (\<exists>k. freed m' = freed m @ map fst (take k (freeable m)) \<and> freeable m' = drop k (freeable m))
    \<and> (\<forall>h ids. (h, ids) \<in> set (ec_cached m) \<longrightarrow> ids \<noteq> {} \<longrightarrow> (h, ids) \<in> set (ec_cached m'))"
proof -
  note d = ec_invD [OF inv]
  have "0 \<le> (\<Sum>(h, k) \<leftarrow> freeable m. k)"
    using d(1,4) by (intro sum_list_nonneg) auto
  then have le: "num_free_slots m \<le> num_freeable_slots m" using d(6) by simp
  have em: "get_num_encoder_embeds r i = Inr n" using num_embeds_of [OF it i] by (simp add: n_def)
  have same: "\<exists>k. freed m = freed m @ map fst (take k (freeable m)) \<and> freeable m = drop k (freeable m)"
    by (rule exI [of _ 0]) simp
  consider "budget < n" | "n \<le> budget" "n + scheduled \<le> num_free_slots m"
    | "n \<le> budget" "num_freeable_slots m < n + scheduled"
    | "n \<le> budget" "num_free_slots m < n + scheduled" "n + scheduled \<le> num_freeable_slots m" by linarith
  then show ?thesis
  proof cases
    case 4
    from evict_loop_spec [OF inv 4(3) refl] obtain m' where
      "evict_loop (n + scheduled) (freeable m) m = Inr m'" "ec_inv sz m'" "n + scheduled \<le> num_free_slots m'"
      "cache_size m' = cache_size m" "\<forall>h. dict_get (ec_cached m) h = None \<longrightarrow> dict_get (ec_cached m') h = None"
      "\<exists>k. freed m' = freed m @ map fst (take k (freeable m)) \<and> freeable m' = drop k (freeable m)"
      "\<forall>h ids. (h, ids) \<in> set (ec_cached m) \<longrightarrow> ids \<noteq> {} \<longrightarrow> (h, ids) \<in> set (ec_cached m')" by blast
    then show ?thesis using 4 em
      by (intro exI [of _ True] exI [of _ m']) (simp add: can_allocate_def Let_def del: dict_get_eq_None)
  next
    case 1
    then show ?thesis using inv em same
      by (intro exI [of _ False] exI [of _ m]) (simp add: can_allocate_def)
  next
    case 2
    then show ?thesis using inv em le same
      by (intro exI [of _ True] exI [of _ m]) (simp add: can_allocate_def Let_def del: dict_get_eq_None)
  next
    case 3
    then show ?thesis using inv em le same
      by (intro exI [of _ False] exI [of _ m]) (simp add: can_allocate_def Let_def del: dict_get_eq_None)
  qed
qed

lemma ec_allocate_spec:
  assumes inv: "ec_inv sz m" and it: "items_ok sz r" and i: "i < length (mm_features r)"
  defines "h \<equiv> mm_identifier (mm_features r ! i)"
  assumes new: "dict_get (ec_cached m) h = None" and room: "sz h \<le> num_free_slots m"
  shows "\<exists>m'. ec_allocate r i m = Inr m' \<and> ec_inv sz m' \<and> num_free_slots m' = num_free_slots m - sz h
    \<and> cache_size m' = cache_size m \<and> dict_get (ec_cached m') h = Some {request_id r}"
proof -
  note d = ec_invD [OF inv]
  have "0 \<le> (\<Sum>(h, k) \<leftarrow> freeable m. k)" using d(1,4) by (intro sum_list_nonneg) auto
  then have le: "sz h \<le> num_freeable_slots m" using d(6) room by simp
  let ?c = "dict_set h {request_id r} (dict_set h {} (ec_cached m))"
  let ?m = "m\<lparr>ec_cached := ?c, num_free_slots := num_free_slots m - sz h,
              num_freeable_slots := num_freeable_slots m - sz h\<rparr>"
  have "get_num_encoder_embeds r i = Inr (sz h)" "mm_hash_of r i = Inr h"
    using num_embeds_of [OF it i] mm_hash_of_Inr [OF i] by (simp_all add: h_def)
  then have "ec_allocate r i m = Inr ?m"
    using new room le by (simp add: ec_allocate_def Let_def del: dict_get_eq_None)
  moreover have "ec_inv sz ?m"
  proof -
    have s: "(\<Sum>(h', _) \<leftarrow> ?c. sz h') = (\<Sum>(h', _) \<leftarrow> ec_cached m. sz h') + sz h"
      using sum_dict_set_old [of "dict_set h {} (ec_cached m)" h "{}" "\<lambda>h _. sz h" "{request_id r}"]
        sum_dict_set_new [OF new, of "\<lambda>h _. sz h" "{}"] by simp
    have "(h, ids) \<notin> set (ec_cached m)" for ids using new dict_get_wf [OF d(2), of h ids] by (simp del: dict_get_eq_None)
    then show ?thesis unfolding ec_inv_def using d room s
      by (auto simp: set_dict_set_iff)
  qed
  ultimately show ?thesis by auto
qed

lemma free_encoder_input_spec:
  assumes inv: "ec_inv sz m" and it: "items_ok sz r" and i: "i < length (mm_features r)"
  defines "h \<equiv> mm_identifier (mm_features r ! i)"
  shows "\<exists>m'. free_encoder_input r i m = Inr m' \<and> ec_inv sz m' \<and> num_free_slots m' = num_free_slots m
    \<and> cache_size m' = cache_size m
    \<and> (\<forall>h'. dict_get (ec_cached m') h' =
          (if h' = h then map_option (\<lambda>ids. ids - {request_id r}) (dict_get (ec_cached m) h) else dict_get (ec_cached m) h'))"
proof -
  note d = ec_invD [OF inv]
  have e: "get_num_encoder_embeds r i = Inr (sz h)" "mm_hash_of r i = Inr h"
    using num_embeds_of [OF it i] mm_hash_of_Inr [OF i] by (simp_all add: h_def)
  show ?thesis
  proof (cases "dict_get (ec_cached m) h")
    case None
    then show ?thesis using inv e by (auto simp: free_encoder_input_def simp del: dict_get_eq_None)
  next
    case (Some ids)
    show ?thesis
    proof (cases "ids = {}")
      case True
      then show ?thesis using inv e Some by (auto simp: free_encoder_input_def)
    next
      case False
      define ids' where "ids' = ids - {request_id r}"
      let ?m1 = "m\<lparr>ec_cached := dict_set h ids' (ec_cached m)\<rparr>"
      have s: "(\<Sum>(h', _) \<leftarrow> dict_set h ids' (ec_cached m). sz h') = (\<Sum>(h', _) \<leftarrow> ec_cached m. sz h')"
        using sum_dict_set_old [OF Some, of "\<lambda>h _. sz h" ids'] by simp
      have nf: "(h, k) \<notin> set (freeable m)" for k
        using d(4) [of h k] Some False dict_get_wf [OF d(2), of h "{}"] by auto
      then have nf': "dict_get (freeable m) h = None" using dict_get_wf [OF d(3)] by (metis not_None_eq)
      show ?thesis
      proof (cases "ids' = {}")
        case True
        let ?m = "?m1\<lparr>freeable := dict_set h (sz h) (freeable m), num_freeable_slots := num_freeable_slots m + sz h\<rparr>"
        have "free_encoder_input r i m = Inr ?m" using e Some False True by (simp add: free_encoder_input_def Let_def ids'_def)
        moreover have "ec_inv sz ?m"
          unfolding ec_inv_def using d s nf sum_dict_set_new [OF nf', of "\<lambda>_ n. n" "sz h"] True
          by (auto simp: set_dict_set_iff)
        ultimately show ?thesis using Some by (auto simp: ids'_def)
      next
        case F2: False
        have "free_encoder_input r i m = Inr ?m1" using e Some False F2 by (simp add: free_encoder_input_def Let_def ids'_def)
        moreover have "ec_inv sz ?m1"
          unfolding ec_inv_def using d s nf F2 by (auto simp: set_dict_set_iff)
        ultimately show ?thesis using Some by (auto simp: ids'_def)
      qed
    qed
  qed
qed

lemma free_encoder_inputs_spec:
  assumes "ec_inv sz m" "items_ok sz r" "\<forall>i \<in> set is. i < length (mm_features r)"
  shows "\<exists>m'. foldE (\<lambda>i. free_encoder_input r i) is m = Inr m' \<and> ec_inv sz m'
    \<and> num_free_slots m' = num_free_slots m \<and> cache_size m' = cache_size m
    \<and> (\<forall>h. dict_get (ec_cached m') h = map_option (\<lambda>ids.
          if h \<in> (\<lambda>i. mm_identifier (mm_features r ! i)) ` set is then ids - {request_id r} else ids)
          (dict_get (ec_cached m) h))"
  using assms
proof (induction "is" arbitrary: m)
  case Nil
  then show ?case by (simp add: option.map_ident)
next
  case (Cons i js)
  have i: "i < length (mm_features r)" using Cons.prems(3) by simp
  obtain m1 where 1: "free_encoder_input r i m = Inr m1" "ec_inv sz m1" "num_free_slots m1 = num_free_slots m"
    "cache_size m1 = cache_size m"
    "\<And>h'. dict_get (ec_cached m1) h' = (if h' = mm_identifier (mm_features r ! i)
        then map_option (\<lambda>ids. ids - {request_id r}) (dict_get (ec_cached m) (mm_identifier (mm_features r ! i)))
        else dict_get (ec_cached m) h')"
    using free_encoder_input_spec [OF Cons.prems(1,2) i] by blast
  obtain m2 where 2: "foldE (\<lambda>i. free_encoder_input r i) js m1 = Inr m2" "ec_inv sz m2"
    "num_free_slots m2 = num_free_slots m1" "cache_size m2 = cache_size m1"
    "\<And>h. dict_get (ec_cached m2) h = map_option (\<lambda>ids.
          if h \<in> (\<lambda>i. mm_identifier (mm_features r ! i)) ` set js then ids - {request_id r} else ids)
          (dict_get (ec_cached m1) h)"
    using Cons.IH [OF 1(2) Cons.prems(2)] Cons.prems(3) by auto
  have "dict_get (ec_cached m2) h = map_option (\<lambda>ids.
          if h \<in> (\<lambda>i. mm_identifier (mm_features r ! i)) ` set (i # js) then ids - {request_id r} else ids)
          (dict_get (ec_cached m) h)" for h
    using 2(5) [of h] 1(5) [of h] by (cases "dict_get (ec_cached m) h") (auto simp del: dict_get_eq_None)
  then show ?case using 1 2 by simp
qed

text \<open>After \<open>free\<close>, no cached entry of the request's items is referenced by the request.\<close>

lemma ec_free_spec:
  assumes "ec_inv sz m" "items_ok sz r" "\<forall>S. finite S \<longrightarrow> set (order S) = S"
  shows "\<exists>m'. ec_free order r m = Inr m' \<and> ec_inv sz m' \<and> num_free_slots m' = num_free_slots m
    \<and> cache_size m' = cache_size m
    \<and> (\<forall>f ids. f \<in> set (mm_features r) \<longrightarrow> dict_get (ec_cached m') (mm_identifier f) = Some ids \<longrightarrow> request_id r \<notin> ids)"
proof -
  let ?S = "get_cached_input_ids r m"
  have S: "set (order ?S) = ?S" using assms(3) by (simp add: get_cached_input_ids_def)
  have "\<forall>i \<in> set (order ?S). i < length (mm_features r)" unfolding S by (simp add: get_cached_input_ids_def)
  from free_encoder_inputs_spec [OF assms(1,2) this] obtain m' where
    m': "foldE (\<lambda>i. free_encoder_input r i) (order ?S) m = Inr m'" "ec_inv sz m'"
    "num_free_slots m' = num_free_slots m" "cache_size m' = cache_size m"
    "\<forall>h. dict_get (ec_cached m') h = map_option (\<lambda>ids.
          if h \<in> (\<lambda>i. mm_identifier (mm_features r ! i)) ` ?S then ids - {request_id r} else ids)
          (dict_get (ec_cached m) h)"
    unfolding S by blast
  have "request_id r \<notin> ids" if f: "f \<in> set (mm_features r)" and g: "dict_get (ec_cached m') (mm_identifier f) = Some ids" for f ids
  proof -
    obtain i where i: "i < length (mm_features r)" "mm_features r ! i = f" using f by (auto simp: in_set_conv_nth)
    obtain ids0 where ids0: "dict_get (ec_cached m) (mm_identifier f) = Some ids0"
      using g m'(5) [rule_format, of "mm_identifier f"] by (cases "dict_get (ec_cached m) (mm_identifier f)") auto
    then have "i \<in> ?S" using i by (simp add: get_cached_input_ids_def del: dict_get_eq_None)
    then have "mm_identifier f \<in> (\<lambda>i. mm_identifier (mm_features r ! i)) ` ?S" using i(2) by force
    then show ?thesis using g m'(5) [rule_format, of "mm_identifier f"] ids0 by auto
  qed
  then show ?thesis using m'(1-4) unfolding ec_free_def by blast
qed

section \<open>Histories\<close>

text \<open>
  The calls of the scheduler: an item that is not cached is allocated after \<open>can_allocate\<close>
  said yes. \<open>order\<close> enumerates a set.
\<close>

inductive ec_reach :: "(nat set \<Rightarrow> nat list) \<Rightarrow> (string \<Rightarrow> int) \<Rightarrow> int \<Rightarrow> encoder_cache \<Rightarrow> bool" for order sz n where
  init: "ec_reach order sz n (encoder_cache_init n)"
| lookup: "\<lbrakk>ec_reach order sz n m; items_ok sz r; i < length (mm_features r);
     check_and_update_cache r i m = Inr (hit, m')\<rbrakk> \<Longrightarrow> ec_reach order sz n m'"
| allocate: "\<lbrakk>ec_reach order sz n m; items_ok sz r; i < length (mm_features r);
     check_and_update_cache r i m = Inr (False, m1); 0 \<le> scheduled;
     can_allocate r i budget scheduled m1 = Inr (True, m2); ec_allocate r i m2 = Inr m3\<rbrakk> \<Longrightarrow> ec_reach order sz n m3"
| no_room: "\<lbrakk>ec_reach order sz n m; items_ok sz r; i < length (mm_features r);
     can_allocate r i budget scheduled m = Inr (ok, m')\<rbrakk> \<Longrightarrow> ec_reach order sz n m'"
| free_one: "\<lbrakk>ec_reach order sz n m; items_ok sz r; i < length (mm_features r);
     free_encoder_input r i m = Inr m'\<rbrakk> \<Longrightarrow> ec_reach order sz n m'"
| free_all: "\<lbrakk>ec_reach order sz n m; items_ok sz r; ec_free order r m = Inr m'\<rbrakk> \<Longrightarrow> ec_reach order sz n m'"
| freed: "\<lbrakk>ec_reach order sz n m; get_freed_mm_hashes m = (hs, m')\<rbrakk> \<Longrightarrow> ec_reach order sz n m'"
| reset: "ec_reach order sz n m \<Longrightarrow> ec_reach order sz n (ec_reset m)"

text \<open>Allocation after a yes never raises.\<close>

lemma ec_allocate_after_yes:
  assumes inv: "ec_inv sz m" and it: "items_ok sz r" and i: "i < length (mm_features r)"
    and miss: "check_and_update_cache r i m = Inr (False, m1)" and s: "0 \<le> scheduled"
    and yes: "can_allocate r i budget scheduled m1 = Inr (True, m2)"
  shows "\<exists>m3. ec_allocate r i m2 = Inr m3 \<and> ec_inv sz m3 \<and> cache_size m3 = cache_size m"
proof -
  let ?h = "mm_identifier (mm_features r ! i)"
  obtain hit m0 where "check_and_update_cache r i m = Inr (hit, m0)"
    "hit \<longleftrightarrow> dict_get (ec_cached m) ?h \<noteq> None" "\<not> hit \<longrightarrow> m0 = m"
    using check_and_update_spec [OF inv i] by blast
  then have m1: "m1 = m" "dict_get (ec_cached m) ?h = None" using miss by (simp_all del: dict_get_eq_None)
  obtain ok m0 where "can_allocate r i budget scheduled m = Inr (ok, m0)" "ec_inv sz m0"
    "ok \<longrightarrow> sz ?h + scheduled \<le> num_free_slots m0" "cache_size m0 = cache_size m"
    "dict_get (ec_cached m) ?h = None \<longrightarrow> dict_get (ec_cached m0) ?h = None"
    using can_allocate_spec [OF inv it i, of budget scheduled] by blast
  then have m2: "ec_inv sz m2" "sz ?h \<le> num_free_slots m2" "cache_size m2 = cache_size m"
    "dict_get (ec_cached m2) ?h = None" using yes m1 s by (simp_all del: dict_get_eq_None)
  from ec_allocate_spec [OF m2(1) it i m2(4,2)] m2(3) show ?thesis by auto
qed

lemma ec_reach_inv:
  assumes "ec_reach order sz n m" "\<forall>h. 0 \<le> sz h" "0 \<le> n" "\<forall>S. finite S \<longrightarrow> set (order S) = S"
  shows "ec_inv sz m \<and> cache_size m = n"
  using assms(1)
proof (induction rule: ec_reach.induct)
  case init
  then show ?case using ec_init_inv [OF assms(2,3)] by (simp add: encoder_cache_init_def)
next
  case (lookup m r i hit m')
  then have inv: "ec_inv sz m" "cache_size m = n" by blast+
  show ?case using check_and_update_spec [OF inv(1) lookup.hyps(3)] lookup.hyps(4) inv(2) by auto
next
  case (allocate m r i m1 scheduled budget m2 m3)
  then have inv: "ec_inv sz m" "cache_size m = n" by blast+
  show ?case using ec_allocate_after_yes [OF inv(1) allocate.hyps(2-6)] allocate.hyps(7) inv(2) by auto
next
  case (no_room m r i budget scheduled ok m')
  then have inv: "ec_inv sz m" "cache_size m = n" by blast+
  obtain ok1 m1 where "can_allocate r i budget scheduled m = Inr (ok1, m1)" "ec_inv sz m1" "cache_size m1 = cache_size m"
    using can_allocate_spec [OF inv(1) no_room.hyps(2,3), of budget scheduled] by blast
  then show ?case using no_room.hyps(4) inv(2) by simp
next
  case (free_one m r i m')
  then have inv: "ec_inv sz m" "cache_size m = n" by blast+
  show ?case using free_encoder_input_spec [OF inv(1) free_one.hyps(2,3)] free_one.hyps(4) inv(2) by auto
next
  case (free_all m r m')
  then have inv: "ec_inv sz m" "cache_size m = n" by blast+
  show ?case using ec_free_spec [OF inv(1) free_all.hyps(2) assms(4)] free_all.hyps(3) inv(2) by auto
next
  case (freed m hs m')
  then show ?case by (auto simp: get_freed_mm_hashes_def ec_inv_def)
next
  case (reset m)
  then show ?case using ec_reset_inv [of sz m] assms(3) by (auto simp: ec_reset_def)
qed

section \<open>Budget and the encoder-decoder variant\<close>

lemma budget_covers:
  assumes "compute_mm_encoder_budget c items = Inr (compute, space)" "(k, v) \<in> set items"
  shows "v \<le> compute \<and> v \<le> space"
proof -
  have "v \<le> Max (set (map snd items))" using assms(2) by (intro Max_ge) force+
  then show ?thesis using assms by (auto simp: compute_mm_encoder_budget_def Let_def split: if_splits)
qed

lemma ed_free_slots:
  "items_ok sz r \<Longrightarrow> k \<le> length (mm_features r) \<Longrightarrow>
   foldE (\<lambda>i. ed_free_encoder_input r i) [0..<k] m =
     Inr (m\<lparr>ed_num_free_slots := ed_num_free_slots m + (\<Sum>f \<leftarrow> take k (mm_features r). sz (mm_identifier f))\<rparr>)"
proof (induction k)
  case (Suc k)
  then show ?case
    by (simp add: foldE_append ed_free_encoder_input_def num_embeds_of take_Suc_conv_app_nth)
qed simp

lemma ed_alloc_slots:
  "items_ok sz r \<Longrightarrow> k \<le> length (mm_features r) \<Longrightarrow>
   foldE (\<lambda>i. ed_allocate r i) [0..<k] m =
     Inr (m\<lparr>ed_num_free_slots := ed_num_free_slots m - (\<Sum>f \<leftarrow> take k (mm_features r). sz (mm_identifier f)),
            allocated := allocated m @ map mm_identifier (take k (mm_features r))\<rparr>)"
proof (induction k)
  case (Suc k)
  then show ?case
    by (simp add: foldE_append ed_allocate_def num_embeds_of mm_hash_of_Inr take_Suc_conv_app_nth)
qed simp

section \<open>Properties\<close>

text \<open>
  C38. In every reachable state of the encoder cache the entries fit into it: the sizes of the
  cached items and the free slots add up to the cache size, no counter is negative, and the
  slots counted as freeable are the free ones plus those of the items no request refers to.
\<close>

theorem encoder_cache_fits:
  assumes "ec_reach order sz n m" "\<forall>h. 0 \<le> sz h" "0 \<le> n" "\<forall>S. finite S \<longrightarrow> set (order S) = S"
  shows "(\<Sum>(h, _) \<leftarrow> ec_cached m. sz h) + num_free_slots m = n \<and> 0 \<le> num_free_slots m
    \<and> num_freeable_slots m = num_free_slots m + (\<Sum>(h, k) \<leftarrow> freeable m. k)
    \<and> (\<forall>h k. (h, k) \<in> set (freeable m) \<longleftrightarrow> (h, {}) \<in> set (ec_cached m) \<and> k = sz h)"
proof -
  have inv: "ec_inv sz m" "cache_size m = n" using ec_reach_inv [OF assms] by simp_all
  then show ?thesis using ec_invD(4-7) [OF inv(1)] by simp
qed

definition demo_item_request :: request where
  "demo_item_request = demo_request ''r'' [1, 2, 3] [demo_mm ''cat'' 0 2] []"

lemma demo_item_ok: "items_ok (\<lambda>_. 2) demo_item_request"
  by (simp add: items_ok_def demo_item_request_def demo_request_def demo_mm_def get_num_embeds_def embeds_cumsum_def)

theorem encoder_cache_fits_witness:
  "\<exists>m. ec_allocate demo_item_request 0 (encoder_cache_init 5) = Inr m \<and> num_free_slots m = 3
    \<and> (\<Sum>(h, _) \<leftarrow> ec_cached m. (2 :: int)) = 2"
proof -
  let ?m = "encoder_cache_init 5"
  have i: "(0 :: nat) < length (mm_features demo_item_request)" by (simp add: demo_item_request_def demo_request_def)
  have inv: "ec_inv (\<lambda>_. 2) ?m" by (rule ec_init_inv) simp_all
  have h: "check_and_update_cache demo_item_request 0 ?m = Inr (False, ?m)"
    "can_allocate demo_item_request 0 9 0 ?m = Inr (True, ?m)"
    by (simp_all add: check_and_update_cache_def can_allocate_def mm_hash_of_def demo_item_request_def demo_request_def demo_mm_def
        encoder_cache_init_def dict_get_def get_num_encoder_embeds_def get_num_embeds_def embeds_cumsum_def py_index_def Let_def)
  from ec_allocate_spec [OF inv demo_item_ok i] obtain m where
    m: "ec_allocate demo_item_request 0 ?m = Inr m" "num_free_slots m = 3"
    by (auto simp: encoder_cache_init_def dict_get_def)
  have "ec_reach sorted_list_of_set (\<lambda>_. 2) 5 m"
    by (rule ec_reach.allocate [OF ec_reach.init demo_item_ok i h(1) _ h(2) m(1)]) simp
  from encoder_cache_fits [OF this] m show ?thesis by auto
qed

text \<open>
  \<open>can_allocate\<close> decides exactly by the compute budget and the freeable slots. A positive
  answer leaves enough free slots and evicts only items that no request refers to, oldest
  first, each reported as freed; a negative answer changes nothing.
\<close>

theorem can_allocate_decision:
  assumes "ec_inv sz m" "items_ok sz r" "i < length (mm_features r)"
  shows "\<exists>ok m' k. can_allocate r i budget scheduled m = Inr (ok, m')
    \<and> (ok \<longleftrightarrow> sz (mm_identifier (mm_features r ! i)) \<le> budget
         \<and> sz (mm_identifier (mm_features r ! i)) + scheduled \<le> num_freeable_slots m)
    \<and> (if ok then sz (mm_identifier (mm_features r ! i)) + scheduled \<le> num_free_slots m' else m' = m)
    \<and> freed m' = freed m @ map fst (take k (freeable m)) \<and> freeable m' = drop k (freeable m)
    \<and> (\<forall>h ids. (h, ids) \<in> set (ec_cached m) \<longrightarrow> ids \<noteq> {} \<longrightarrow> (h, ids) \<in> set (ec_cached m'))"
  using can_allocate_spec [OF assms, of budget scheduled] by (metis (no_types, lifting))

theorem can_allocate_decision_witness:
  "\<exists>m'. can_allocate demo_item_request 0 1 0 (encoder_cache_init 5) = Inr (False, m')"
proof -
  have "ec_inv (\<lambda>_. 2) (encoder_cache_init 5)" by (rule ec_init_inv) simp_all
  from can_allocate_decision [OF this demo_item_ok, of 0 1 0] show ?thesis
    by (auto simp: demo_item_request_def demo_request_def)
qed

text \<open>
  The order of calls of the scheduler is safe: when the lookup of an item misses and
  \<open>can_allocate\<close> then says yes, \<open>allocate\<close> never hits one of its assertions, and the item is
  cached for this request.
\<close>

theorem allocate_after_check:
  assumes "ec_inv sz m" "items_ok sz r" "i < length (mm_features r)"
    and "check_and_update_cache r i m = Inr (False, m1)" "0 \<le> scheduled"
    and "can_allocate r i budget scheduled m1 = Inr (True, m2)"
  shows "\<exists>m3. ec_allocate r i m2 = Inr m3 \<and> ec_inv sz m3"
  using ec_allocate_after_yes [OF assms] by blast

theorem allocate_after_check_witness:
  "\<exists>m3. ec_allocate demo_item_request 0 (encoder_cache_init 5) = Inr m3"
proof -
  have "ec_inv (\<lambda>_. 2) (encoder_cache_init 5)" by (rule ec_init_inv) simp_all
  moreover have "check_and_update_cache demo_item_request 0 (encoder_cache_init 5) = Inr (False, encoder_cache_init 5)"
    "can_allocate demo_item_request 0 9 0 (encoder_cache_init 5) = Inr (True, encoder_cache_init 5)"
    by (simp_all add: check_and_update_cache_def can_allocate_def mm_hash_of_def demo_item_request_def demo_request_def demo_mm_def
        encoder_cache_init_def dict_get_def get_num_encoder_embeds_def get_num_embeds_def embeds_cumsum_def py_index_def Let_def)
  ultimately show ?thesis
    using allocate_after_check [OF _ demo_item_ok, of "encoder_cache_init 5" 0 "encoder_cache_init 5" 0 9 "encoder_cache_init 5"]
    by (auto simp: demo_item_request_def demo_request_def)
qed

text \<open>
  When a request finishes, its references to all its encoder inputs are dropped, whatever
  order the set of its cached inputs is visited in, and no slot is lost.
\<close>

theorem encoder_free_drops:
  assumes "ec_inv sz m" "items_ok sz r" "\<forall>S. finite S \<longrightarrow> set (order S) = S"
  shows "\<exists>m'. ec_free order r m = Inr m' \<and> ec_inv sz m' \<and> num_free_slots m' = num_free_slots m
    \<and> (\<forall>f ids. f \<in> set (mm_features r) \<longrightarrow> dict_get (ec_cached m') (mm_identifier f) = Some ids \<longrightarrow> request_id r \<notin> ids)"
  using ec_free_spec [OF assms] by blast

theorem encoder_free_drops_witness:
  "\<exists>m'. ec_free sorted_list_of_set demo_item_request (encoder_cache_init 5) = Inr m' \<and> num_free_slots m' = 5"
proof -
  have "ec_inv (\<lambda>_. 2) (encoder_cache_init 5)" by (rule ec_init_inv) simp_all
  from encoder_free_drops [OF this demo_item_ok, of sorted_list_of_set] show ?thesis by (auto simp: encoder_cache_init_def)
qed

end
