(* ===== verification/Scheduler_State.thy ===== *)
theory Scheduler_State
  imports Cache_Manager Request_Queue Encoder_Cache
begin

text \<open>
  The state of the scheduler (\<open>vllm/v1/core/sched/scheduler.py\<close>) and the parts its step is
  made of: preemption, the split at blocks of state-space layers, and the choice of encoder
  inputs.

  Requests are objects that the dict of live requests, the running list and the queues share,
  so they live in a store \<open>objs\<close>, indexed by their identity \<open>obj_id\<close>; the dict and the running
  list hold identities. The queues hold request values; \<open>set_obj\<close>, through which every
  operation changes a request, changes the copies in the queues with the store.

  Modelled is a scheduler without KV-transfer and encoder-cache connectors (\<open>self.connector\<close>
  and \<open>self.ec_connector\<close> are \<open>None\<close>, so the branches they guard are not taken) and without
  logging. Grammars, the reasoning parser, hash functions and the iteration order of sets are
  fields of the environment. A call that may raise or fail to return is a \<open>'a result option\<close>.
\<close>

section \<open>Calls that may not return\<close>

type_synonym 'a io = "'a result option"

definition bindO :: "'a io \<Rightarrow> ('a \<Rightarrow> 'b io) \<Rightarrow> 'b io" where
  "bindO x f = (case x of None \<Rightarrow> None | Some (Inl e) \<Rightarrow> Some (Inl e) | Some (Inr v) \<Rightarrow> f v)"

definition retO :: "'a \<Rightarrow> 'a io" where
  "retO x = Some (Inr x)"

lemma bindO_simps [simp]:
  "bindO None f = None" "bindO (Some (Inl e)) f = Some (Inl e)" "bindO (Some (Inr v)) f = f v" "bindO (retO v) f = f v"
  by (simp_all add: bindO_def retO_def)

lemma bindO_bind: "bindO x f = Option.bind x (\<lambda>r. case r of Inl e \<Rightarrow> Some (Inl e) | Inr v \<Rightarrow> f v)"
  by (simp add: bindO_def split: option.splits)

lemma bindO_eq_Inr: "bindO x f = Some (Inr y) \<longleftrightarrow> (\<exists>v. x = Some (Inr v) \<and> f v = Some (Inr y))"
  by (auto simp: bindO_def split: option.splits sum.splits)

lemma bindO_InrE:
  assumes "bindO x f = Some (Inr y)" obtains v where "x = Some (Inr v)" "f v = Some (Inr y)"
  using assms by (auto simp: bindO_eq_Inr)

lemma bindO_mono [partial_function_mono]:
  assumes "mono_option B" and "\<And>y. mono_option (\<lambda>f. C y f)"
  shows "mono_option (\<lambda>f. bindO (B f) (\<lambda>y. C y f))"
proof -
  have "mono_option (\<lambda>f. case r of Inl e \<Rightarrow> Some (Inl e) | Inr y \<Rightarrow> C y f)" for r
    by (cases r) (simp_all add: assms(2) option.const_mono)
  then show ?thesis unfolding bindO_bind by (intro bind_mono assms(1))
qed

lemma bindO_exI:
  assumes "\<exists>r. x = Some r" "\<And>v. x = Some (Inr v) \<Longrightarrow> \<exists>r. f v = Some r" shows "\<exists>r. bindO x f = Some r"
  using assms by (auto simp: bindO_def split: sum.splits)

text \<open>
  A \<open>while\<close> loop. The body says whether the loop goes on (\<open>True\<close>) or is left by a \<open>break\<close>.
\<close>

partial_function (option) py_while :: "('s \<Rightarrow> bool) \<Rightarrow> ('s \<Rightarrow> (bool \<times> 's) io) \<Rightarrow> 's \<Rightarrow> 's io" where
  "py_while c body s =
     (if c s then bindO (body s) (\<lambda>r. if fst r then py_while c body (snd r) else retO (snd r)) else retO s)"

declare py_while.simps [code]

text \<open>
  What a loop promises: an invariant that its body keeps gives the postcondition, whichever way
  the loop is left (\<open>guarded_loop\<close>); a measure that each round lowers makes it return
  (\<open>bounded_loop\<close>).
\<close>

locale guarded_loop =
  fixes c :: "'s \<Rightarrow> bool" and body :: "'s \<Rightarrow> (bool \<times> 's) io" and I :: "'s \<Rightarrow> bool" and Q :: "'s \<Rightarrow> bool"
  assumes body_next: "\<lbrakk>I s; c s; body s = Some (Inr (True, t))\<rbrakk> \<Longrightarrow> I t"
    and body_break: "\<lbrakk>I s; c s; body s = Some (Inr (False, t))\<rbrakk> \<Longrightarrow> Q t"
    and loop_exit: "\<lbrakk>I s; \<not> c s\<rbrakk> \<Longrightarrow> Q s"
begin

lemma loop_result:
  assumes "py_while c body s = Some (Inr t)" "I s" shows "Q t"
proof -
  let ?P = "\<lambda>c' body' s r. c' = c \<longrightarrow> body' = body \<longrightarrow> (\<forall>t. I s \<longrightarrow> r = Inr t \<longrightarrow> Q t)"
  have "?P c body s r" if "py_while c body s = Some r" for r
  proof (rule py_while.raw_induct [where P = ?P, OF _ that], intro impI allI)
    fix w c' body' s r t
    assume IH: "\<And>c' body' s r. w c' body' s = Some r \<Longrightarrow> ?P c' body' s r"
      and eq: "(if c' s then bindO (body' s) (\<lambda>r. if fst r then w c' body' (snd r) else retO (snd r)) else retO s) = Some r"
      and a: "c' = c" "body' = body" "I s" "r = Inr t"
    show "Q t"
    proof (cases "c s")
      case True
      then obtain v where v: "body s = Some (Inr v)" "(if fst v then w c body (snd v) else retO (snd v)) = Some (Inr t)"
        using eq a by (auto elim: bindO_InrE)
      obtain go u where "v = (go, u)" by force
      then show ?thesis using v body_next [OF a(3) True] body_break [OF a(3) True] IH [of c body u] by (cases go) (auto simp: retO_def)
    next
      case False
      then show ?thesis using eq a loop_exit by (simp add: retO_def)
    qed
  qed
  then show ?thesis using assms by blast
qed

end

locale bounded_loop =
  fixes c :: "'s \<Rightarrow> bool" and body :: "'s \<Rightarrow> (bool \<times> 's) io" and I :: "'s \<Rightarrow> bool" and m :: "'s \<Rightarrow> nat"
  assumes body_returns: "\<lbrakk>I s; c s\<rbrakk> \<Longrightarrow> \<exists>r. body s = Some r"
    and body_lowers: "\<lbrakk>I s; c s; body s = Some (Inr (True, t))\<rbrakk> \<Longrightarrow> I t \<and> m t < m s"
begin

lemma loop_returns: "I s \<Longrightarrow> \<exists>r. py_while c body s = Some r"
proof (induction "m s" arbitrary: s rule: less_induct)
  case less
  show ?case
  proof (cases "c s")
    case True
    have "\<exists>r. (if fst v then py_while c body (snd v) else retO (snd v)) = Some r" if "body s = Some (Inr v)" for v
      using less.hyps [of "snd v"] body_lowers [OF less.prems True] that by (cases v) (auto simp: retO_def)
    then show ?thesis using True body_returns [OF less.prems True] by (subst py_while.simps) (auto intro: bindO_exI)
  qed (subst py_while.simps, simp add: retO_def)
qed

end

text \<open>A key that has to be there.\<close>

definition dict_popE :: "'k \<Rightarrow> ('k \<times> 'v) list \<Rightarrow> ('v \<times> ('k \<times> 'v) list) result" where
  "dict_popE k d = (case dict_get d k of None \<Rightarrow> Inl KeyError | Some v \<Rightarrow> Inr (v, dict_pop k d))"

definition dict_getE :: "('k \<times> 'v) list \<Rightarrow> 'k \<Rightarrow> 'v result" where
  "dict_getE d k = (case dict_get d k of None \<Rightarrow> Inl KeyError | Some v \<Rightarrow> Inr v)"

section \<open>Configuration, environment and state\<close>

record sched_config =
  max_num_running_reqs :: int
  max_num_scheduled_tokens :: int
  sc_max_model_len :: int
  long_prefill_token_threshold :: int
  enable_chunked_prefill :: bool
  sc_disable_chunked_mm_input :: bool
  scheduler_reserve_full_isl :: bool
  sc_use_eagle :: bool
  num_spec_tokens :: int
  num_lookahead_tokens :: int
  sc_is_encoder_decoder :: bool
  need_mamba_block_aligned_split :: bool
  sc_block_size :: int
  max_loras :: "nat option"
  sched_policy :: scheduling_policy
  sc_max_num_encoder_input_tokens :: int
  use_pp :: bool
  async_scheduling :: bool
  use_v2_model_runner :: bool
  sc_needs_kv_cache_zeroing :: bool

record sched_env =
  env_sha :: "bytes list \<Rightarrow> bytes"
  env_hasher :: "block_hasher option"
  set_order :: "nat set \<Rightarrow> nat list"
  grammar_ready :: "request \<Rightarrow> bool"
  accept_tokens :: "request \<Rightarrow> int list \<Rightarrow> bool"
  validate_tokens :: "request \<Rightarrow> int list \<Rightarrow> int list"
  env_reasoner :: "(int list \<Rightarrow> int list \<Rightarrow> bool) option"
  enable_in_reasoning :: bool

datatype encoder_mgr = Encoder_mgr encoder_cache | EncDec_mgr enc_dec_cache

datatype pause_state = UNPAUSED | PAUSED_NEW | PAUSED_ALL

record scheduler =
  conf :: sched_config
  objs :: "nat \<Rightarrow> request"
  requests_dict :: "(string \<times> nat) list"
  waiting :: request_queue
  skipped_waiting :: request_queue
  running :: "nat list"
  finished_req_ids :: "string set"
  finished_req_ids_dict :: "(int \<times> string set) list option"
  prev_step_scheduled_req_ids :: "string set"
  kv_manager :: kv_cache_manager
  encoder_manager :: encoder_mgr
  pause_state :: pause_state
  num_waiting_for_streaming_input :: int

text \<open>
  \<open>__init__\<close>: the settings derived from the configuration objects, and the empty scheduler. The
  speculative configuration gives the number of draft tokens, whether EAGLE is used and whether
  there is a draft model.
\<close>

record spec_config =
  num_speculative_tokens :: int
  spec_use_eagle :: bool
  spec_uses_draft_model :: bool

definition spec_limits :: "spec_config option \<Rightarrow> bool \<times> int \<times> int" where
  "spec_limits sc =
     (case sc of
        None \<Rightarrow> (False, 0, 0)
      | Some x \<Rightarrow> (spec_use_eagle x, num_speculative_tokens x,
                  if spec_use_eagle x \<or> spec_uses_draft_model x then num_speculative_tokens x else 0))"

definition scheduled_tokens_limit :: "int option \<Rightarrow> int \<Rightarrow> int" where
  "scheduled_tokens_limit max_scheduled max_batched =
     (case max_scheduled of None \<Rightarrow> max_batched | Some n \<Rightarrow> if n = 0 then max_batched else n)"

text \<open>\<open>ob\<close> is what the store holds before any request is added; no operation reads it.\<close>

definition scheduler_init :: "(nat \<Rightarrow> request) \<Rightarrow> sched_config \<Rightarrow> kv_cache_manager \<Rightarrow> int \<Rightarrow> bool \<Rightarrow> scheduler" where
  "scheduler_init ob c km encoder_size include_finished_set =
     \<lparr>conf = c, objs = ob, requests_dict = [], waiting = create_request_queue (sched_policy c),
      skipped_waiting = create_request_queue (sched_policy c), running = [], finished_req_ids = {},
      finished_req_ids_dict = (if include_finished_set then Some [] else None), prev_step_scheduled_req_ids = {},
      kv_manager = km,
      encoder_manager = (if sc_is_encoder_decoder c then EncDec_mgr (enc_dec_init encoder_size)
                         else Encoder_mgr (encoder_cache_init encoder_size)),
      pause_state = UNPAUSED, num_waiting_for_streaming_input = 0\<rparr>"

fun sync_queue :: "nat \<Rightarrow> request \<Rightarrow> request_queue \<Rightarrow> request_queue" where
  "sync_queue i r (FCFSRequestQueue q) = FCFSRequestQueue (map (\<lambda>x. if obj_id x = i then r else x) q)"
| "sync_queue i r (PriorityRequestQueue q) = PriorityRequestQueue (map (\<lambda>x. if obj_id x = i then r else x) q)"

definition set_obj :: "nat \<Rightarrow> (request \<Rightarrow> request) \<Rightarrow> scheduler \<Rightarrow> scheduler" where
  "set_obj i f s = (let r = f (objs s i)
     in s\<lparr>objs := (objs s)(i := r), waiting := sync_queue i r (waiting s),
          skipped_waiting := sync_queue i r (skipped_waiting s)\<rparr>)"

section \<open>Queues and encoder caches by class\<close>

fun queue_reqs :: "request_queue \<Rightarrow> requests" where
  "queue_reqs (FCFSRequestQueue q) = q"
| "queue_reqs (PriorityRequestQueue q) = q"

fun q_add :: "request \<Rightarrow> request_queue \<Rightarrow> request_queue" where
  "q_add r (FCFSRequestQueue q) = FCFSRequestQueue (fcfs_add_request r q)"
| "q_add r (PriorityRequestQueue q) = PriorityRequestQueue (prio_add_request r q)"

fun q_pop :: "request_queue \<Rightarrow> (request \<times> request_queue) result" where
  "q_pop (FCFSRequestQueue q) = bindE (fcfs_pop_request q) (\<lambda>(r, q'). Inr (r, FCFSRequestQueue q'))"
| "q_pop (PriorityRequestQueue q) = bindE (prio_pop_request q) (\<lambda>(r, q'). Inr (r, PriorityRequestQueue q'))"

fun q_peek :: "request_queue \<Rightarrow> request result" where
  "q_peek (FCFSRequestQueue q) = fcfs_peek_request q"
| "q_peek (PriorityRequestQueue q) = prio_peek_request q"

fun q_prepend :: "request \<Rightarrow> request_queue \<Rightarrow> request_queue" where
  "q_prepend r (FCFSRequestQueue q) = FCFSRequestQueue (fcfs_prepend_request r q)"
| "q_prepend r (PriorityRequestQueue q) = PriorityRequestQueue (prio_prepend_request r q)"

fun q_iter :: "request_queue \<Rightarrow> requests result" where
  "q_iter (FCFSRequestQueue q) = Inr (fcfs_iter q)"
| "q_iter (PriorityRequestQueue q) = prio_iter q"

fun q_prepend_all :: "requests \<Rightarrow> request_queue \<Rightarrow> request_queue" where
  "q_prepend_all rs (FCFSRequestQueue q) = FCFSRequestQueue (fcfs_prepend_requests rs q)"
| "q_prepend_all rs (PriorityRequestQueue q) = PriorityRequestQueue (prio_prepend_requests rs q)"

fun q_remove_all :: "requests \<Rightarrow> request_queue \<Rightarrow> request_queue" where
  "q_remove_all rs (FCFSRequestQueue q) = FCFSRequestQueue (fcfs_remove_requests rs q)"
| "q_remove_all rs (PriorityRequestQueue q) = PriorityRequestQueue (prio_remove_requests rs q)"

fun enc_check :: "request \<Rightarrow> nat \<Rightarrow> encoder_mgr \<Rightarrow> (bool \<times> encoder_mgr) result" where
  "enc_check r i (Encoder_mgr m) = bindE (check_and_update_cache r i m) (\<lambda>(b, m'). Inr (b, Encoder_mgr m'))"
| "enc_check r i (EncDec_mgr m) = Inr (ed_check_and_update_cache r i m, EncDec_mgr m)"

fun enc_can_allocate :: "request \<Rightarrow> nat \<Rightarrow> int \<Rightarrow> int \<Rightarrow> encoder_mgr \<Rightarrow> (bool \<times> encoder_mgr) result" where
  "enc_can_allocate r i budget n (Encoder_mgr m) = bindE (can_allocate r i budget n m) (\<lambda>(b, m'). Inr (b, Encoder_mgr m'))"
| "enc_can_allocate r i budget n (EncDec_mgr m) = bindE (ed_can_allocate r i budget n m) (\<lambda>b. Inr (b, EncDec_mgr m))"

fun enc_allocate :: "request \<Rightarrow> nat \<Rightarrow> encoder_mgr \<Rightarrow> encoder_mgr result" where
  "enc_allocate r i (Encoder_mgr m) = bindE (ec_allocate r i m) (\<lambda>m'. Inr (Encoder_mgr m'))"
| "enc_allocate r i (EncDec_mgr m) = bindE (ed_allocate r i m) (\<lambda>m'. Inr (EncDec_mgr m'))"

fun enc_free :: "sched_env \<Rightarrow> request \<Rightarrow> encoder_mgr \<Rightarrow> encoder_mgr result" where
  "enc_free env r (Encoder_mgr m) = bindE (ec_free (set_order env) r m) (\<lambda>m'. Inr (Encoder_mgr m'))"
| "enc_free env r (EncDec_mgr m) = bindE (ed_free r m) (\<lambda>m'. Inr (EncDec_mgr m'))"

fun enc_free_input :: "request \<Rightarrow> nat \<Rightarrow> encoder_mgr \<Rightarrow> encoder_mgr result" where
  "enc_free_input r i (Encoder_mgr m) = bindE (free_encoder_input r i m) (\<lambda>m'. Inr (Encoder_mgr m'))"
| "enc_free_input r i (EncDec_mgr m) = bindE (ed_free_encoder_input r i m) (\<lambda>m'. Inr (EncDec_mgr m'))"

fun enc_cached_ids :: "request \<Rightarrow> encoder_mgr \<Rightarrow> nat set" where
  "enc_cached_ids r (Encoder_mgr m) = get_cached_input_ids r m"
| "enc_cached_ids r (EncDec_mgr m) = ed_get_cached_input_ids r"

fun enc_freed_hashes :: "encoder_mgr \<Rightarrow> string list \<times> encoder_mgr" where
  "enc_freed_hashes (Encoder_mgr m) = (let (hs, m') = get_freed_mm_hashes m in (hs, Encoder_mgr m'))"
| "enc_freed_hashes (EncDec_mgr m) = (let (hs, m') = ed_get_freed_mm_hashes m in (hs, EncDec_mgr m'))"

fun enc_reset :: "encoder_mgr \<Rightarrow> encoder_mgr" where
  "enc_reset (Encoder_mgr m) = Encoder_mgr (ec_reset m)"
| "enc_reset (EncDec_mgr m) = EncDec_mgr (ed_reset m)"

section \<open>Blocks of state-space layers\<close>

definition mamba_block_aligned_split :: "sched_config \<Rightarrow> request \<Rightarrow> int \<Rightarrow> int \<Rightarrow> int \<Rightarrow> int result" where
  "mamba_block_aligned_split c r new_toks local_hits ext =
     bindE (guardE (ext = 0) AssertionError) (\<lambda>_.
       let n = num_computed_tokens r + local_hits + ext
       in if n < max (num_prompt_tokens r) (num_tokens r - 1)
          then let bs = sc_block_size c;
                   last0 = num_tokens r - num_tokens r mod bs;
                   last_pos = (if sc_use_eagle c then max (last0 - bs) 0 else last0);
                   after = n + new_toks
               in Inr (if after < last_pos then new_toks div bs * bs
                       else if n < last_pos \<and> last_pos < after then last_pos - n
                       else new_toks)
          else Inr new_toks)"

section \<open>Preemption\<close>

definition sched_free_kv :: "request \<Rightarrow> scheduler \<Rightarrow> scheduler result" where
  "sched_free_kv r s = bindE (km_free r (kv_manager s)) (\<lambda>km. Inr (s\<lparr>kv_manager := km\<rparr>))"

definition sched_free_encoder :: "sched_env \<Rightarrow> request \<Rightarrow> scheduler \<Rightarrow> scheduler result" where
  "sched_free_encoder env r s = bindE (enc_free env r (encoder_manager s)) (\<lambda>e. Inr (s\<lparr>encoder_manager := e\<rparr>))"

definition preempt_request :: "sched_env \<Rightarrow> nat \<Rightarrow> scheduler \<Rightarrow> scheduler result" where
  "preempt_request env i s =
     bindE (guardE (status (objs s i) = RUNNING) AssertionError) (\<lambda>_.
     bindE (sched_free_kv (objs s i) s) (\<lambda>s1.
     bindE (sched_free_encoder env (objs s i) s1) (\<lambda>s2.
       let s3 = set_obj i (\<lambda>r. r\<lparr>status := PREEMPTED, num_computed_tokens := 0, spec_token_ids := [],
                                  num_preemptions := num_preemptions r + 1\<rparr>) s2
       in Inr (s3\<lparr>waiting := q_prepend (objs s3 i) (waiting s3)\<rparr>))))"

text \<open>\<open>max(self.running, key=...)\<close>: the first request with the largest priority and arrival time.\<close>

definition victim_less :: "request \<Rightarrow> request \<Rightarrow> bool" where
  "victim_less a b \<longleftrightarrow> priority a < priority b \<or> priority a = priority b \<and> arrival_time a < arrival_time b"

fun pick_victim :: "(nat \<Rightarrow> request) \<Rightarrow> nat list \<Rightarrow> nat result" where
  "pick_victim ob [] = Inl ValueError"
| "pick_victim ob (i # is) = Inr (fold (\<lambda>j best. if victim_less (ob best) (ob j) then j else best) is i)"

section \<open>Encoder inputs\<close>

record enc_choice =
  ch_enc :: encoder_mgr
  ch_new_toks :: int
  ch_budget :: int
  ch_hashes :: "string set"
  ch_embeds :: int
  ch_inputs :: "nat list"

text \<open>The loop over the multimodal items; a \<open>break\<close> ends the recursion.\<close>

fun choose_inputs :: "sched_config \<Rightarrow> request \<Rightarrow> int \<Rightarrow> int \<Rightarrow> (nat \<times> mm_feature) list \<Rightarrow> enc_choice \<Rightarrow> enc_choice result" where
  "choose_inputs c r comp_toks shift [] st = Inr st"
| "choose_inputs c r comp_toks shift ((i, f) # fs) st =
     (let start = pr_offset (mm_position f); n_toks = pr_length (mm_position f);
          embeds = get_num_embeds (mm_position f); new_toks = ch_new_toks st
      in if comp_toks + new_toks + shift \<le> start then Inr st
         else if sc_is_encoder_decoder c \<and> 0 < comp_toks
         then bindE (guardE (start = 0) AssertionError) (\<lambda>_. choose_inputs c r comp_toks shift fs st)
         else if start + n_toks \<le> comp_toks then choose_inputs c r comp_toks shift fs st
         else if \<not> sc_is_encoder_decoder c \<and> mm_identifier f \<in> ch_hashes st then choose_inputs c r comp_toks shift fs st
         else bindE (if sc_is_encoder_decoder c then Inr (False, ch_enc st) else enc_check r i (ch_enc st)) (\<lambda>(hit, e1).
              if hit then choose_inputs c r comp_toks shift fs (st\<lparr>ch_enc := e1\<rparr>)
              else if sc_disable_chunked_mm_input c \<and> comp_toks < start \<and> comp_toks + new_toks < start + n_toks
              then Inr (st\<lparr>ch_enc := e1, ch_new_toks := max 0 (start - (comp_toks + shift))\<rparr>)
              else bindE (enc_can_allocate r i (ch_budget st) (ch_embeds st) e1) (\<lambda>(ok, e2).
                   if \<not> ok
                   then Inr (st\<lparr>ch_enc := e2, ch_new_toks :=
                               (if comp_toks + shift < start then start - (comp_toks + shift) else 0)\<rparr>)
                   else bindE (get_embeds_indices_in_range (mm_position f) (max 0 (comp_toks - start))
                                 (min n_toks (comp_toks + new_toks - start))) (\<lambda>(a, b).
                        if b - a = 0 then choose_inputs c r comp_toks shift fs (st\<lparr>ch_enc := e2\<rparr>)
                        else choose_inputs c r comp_toks shift fs
                               (st\<lparr>ch_enc := e2, ch_embeds := ch_embeds st + embeds, ch_budget := ch_budget st - embeds,
                                   ch_hashes := insert (mm_identifier f) (ch_hashes st), ch_inputs := ch_inputs st @ [i]\<rparr>)))))"

text \<open>The inputs to schedule, the tokens that remain, the remaining budget and the encoder cache.\<close>

definition try_schedule_encoder_inputs ::
  "sched_config \<Rightarrow> request \<Rightarrow> int \<Rightarrow> int \<Rightarrow> int \<Rightarrow> int \<Rightarrow> encoder_mgr \<Rightarrow> (nat list \<times> int \<times> int \<times> encoder_mgr) result" where
  "try_schedule_encoder_inputs c r comp_toks new_toks budget shift e =
     (if new_toks = 0 \<or> \<not> has_encoder_inputs r then Inr ([], new_toks, budget, e)
      else bindE (choose_inputs c r comp_toks shift (enumerate 0 (mm_features r))
                    \<lparr>ch_enc = e, ch_new_toks = new_toks, ch_budget = budget, ch_hashes = {}, ch_embeds = 0, ch_inputs = []\<rparr>)
             (\<lambda>st. Inr (ch_inputs st, ch_new_toks st, ch_budget st, ch_enc st)))"

end
