(* ===== verification/Scheduler_Step.thy ===== *)
theory Scheduler_Step
  imports Scheduler_State
begin

text \<open>
  One scheduling step: \<open>schedule\<close> of \<open>vllm/v1/core/sched/scheduler.py\<close>, with the output classes of
  \<open>vllm/v1/core/sched/output.py\<close> and the asynchronous scheduler
  (\<open>vllm/v1/core/sched/async_scheduler.py\<close>).

  The local variables of the method are the record \<open>step_vars\<close>, so that the body of each of its
  loops is a function on that record: \<open>room_body\<close> (allocate, or preempt a request and try again),
  \<open>running_body\<close> and \<open>waiting_body\<close>.
\<close>

section \<open>Outputs\<close>

record new_request_data =
  nd_req_id :: string
  nd_prompt_token_ids :: "int list option"
  nd_mm_features :: "mm_feature list"
  nd_sampling_params :: "sampling_params option"
  nd_pooling_params :: "pooling_params option"
  nd_block_ids :: "int list list"
  nd_num_computed_tokens :: int
  nd_lora_request :: "(string \<times> int) option"
  nd_prompt_embeds :: "bytes list option"
  nd_prefill_token_ids :: "int list option"

definition new_request_data_from :: "request \<Rightarrow> int list list \<Rightarrow> int list option \<Rightarrow> new_request_data" where
  "new_request_data_from r ids prefill =
     \<lparr>nd_req_id = request_id r, nd_prompt_token_ids = prompt_token_ids r, nd_mm_features = mm_features r,
      nd_sampling_params = req_sampling_params r, nd_pooling_params = req_pooling_params r, nd_block_ids = ids,
      nd_num_computed_tokens = num_computed_tokens r, nd_lora_request = lora_request r,
      nd_prompt_embeds = prompt_embeds r, nd_prefill_token_ids = prefill\<rparr>"

record cached_request_data =
  cd_req_ids :: "string list"
  cd_resumed_req_ids :: "string set"
  cd_new_token_ids :: "int list list"
  cd_all_token_ids :: "(string \<times> int list) list"
  cd_new_block_ids :: "int list list option list"
  cd_num_computed_tokens :: "int list"
  cd_num_output_tokens :: "int list"

definition empty_cached_request_data :: cached_request_data where
  "empty_cached_request_data = \<lparr>cd_req_ids = [], cd_resumed_req_ids = {}, cd_new_token_ids = [], cd_all_token_ids = [],
     cd_new_block_ids = [], cd_num_computed_tokens = [], cd_num_output_tokens = []\<rparr>"

definition cd_num_reqs :: "cached_request_data \<Rightarrow> int" where
  "cd_num_reqs d = int (length (cd_req_ids d))"

definition is_context_phase :: "cached_request_data \<Rightarrow> string \<Rightarrow> bool" where
  "is_context_phase d rid =
     (dict_get (fold (\<lambda>(k, v). dict_set k v) (zip (cd_req_ids d) (cd_num_output_tokens d)) []) rid = Some 0)"

record scheduler_output =
  scheduled_new_reqs :: "new_request_data list"
  scheduled_cached_reqs :: cached_request_data
  num_scheduled_tokens :: "(string \<times> int) list"
  total_num_scheduled_tokens :: int
  scheduled_spec_decode_tokens :: "(string \<times> int list) list"
  scheduled_encoder_inputs :: "(string \<times> nat list) list"
  num_common_prefix_blocks :: "int list"
  out_finished_req_ids :: "string set"
  free_encoder_mm_hashes :: "string list"
  preempted_req_ids :: "string set"
  has_structured_output_requests :: bool
  pending_structured_output_tokens :: bool
  num_invalid_spec_tokens :: "(string \<times> int) list option"
  new_block_ids_to_zero :: "int list option"

definition empty_scheduler_output :: scheduler_output where
  "empty_scheduler_output = \<lparr>scheduled_new_reqs = [], scheduled_cached_reqs = empty_cached_request_data,
     num_scheduled_tokens = [], total_num_scheduled_tokens = 0, scheduled_spec_decode_tokens = [],
     scheduled_encoder_inputs = [], num_common_prefix_blocks = [], out_finished_req_ids = {},
     free_encoder_mm_hashes = [], preempted_req_ids = {}, has_structured_output_requests = False,
     pending_structured_output_tokens = False, num_invalid_spec_tokens = None, new_block_ids_to_zero = None\<rparr>"

section \<open>The local variables of a step\<close>

record step_vars =
  sch :: scheduler
  new_reqs :: "nat list"
  resumed_reqs :: "nat list"
  run_reqs :: "nat list"
  preempted_reqs :: "nat list"
  blocks_of :: "(string \<times> kv_cache_blocks) list"
  sched_toks :: "(string \<times> int) list"
  token_budget :: int
  enc_sched :: "(string \<times> nat list) list"
  enc_budget :: int
  spec_sched :: "(string \<times> int list) list"
  scheduled_loras :: "int set"
  req_index :: int
  step_skipped :: request_queue

abbreviation on_sch :: "(scheduler \<Rightarrow> scheduler) \<Rightarrow> step_vars \<Rightarrow> step_vars" where
  "on_sch f st \<equiv> st\<lparr>sch := f (sch st)\<rparr>"

abbreviation set_kv :: "kv_cache_manager \<Rightarrow> scheduler \<Rightarrow> scheduler" where
  "set_kv km s \<equiv> s\<lparr>kv_manager := km\<rparr>"

abbreviation set_enc :: "encoder_mgr \<Rightarrow> scheduler \<Rightarrow> scheduler" where
  "set_enc e s \<equiv> s\<lparr>encoder_manager := e\<rparr>"

definition step_start :: "scheduler \<Rightarrow> step_vars" where
  "step_start s =
     \<lparr>sch = set_kv (km_new_step_starts (kv_manager s)) s, new_reqs = [], resumed_reqs = [], run_reqs = [],
      preempted_reqs = [], blocks_of = [], sched_toks = [],
      token_budget = (if pause_state s = PAUSED_ALL then 0 else max_num_scheduled_tokens (conf s)),
      enc_sched = [], enc_budget = sc_max_num_encoder_input_tokens (conf s), spec_sched = [],
      scheduled_loras = {}, req_index = 0, step_skipped = create_request_queue (sched_policy (conf s))\<rparr>"

definition plan_inputs ::
  "sched_config \<Rightarrow> request \<Rightarrow> int \<Rightarrow> int \<Rightarrow> int \<Rightarrow> encoder_mgr \<Rightarrow> (nat list \<times> int \<times> int \<times> encoder_mgr) result" where
  "plan_inputs c r comp_toks n budget e =
     (if has_encoder_inputs r
      then try_schedule_encoder_inputs c r comp_toks n budget (if sc_use_eagle c then 1 else 0) e
      else Inr ([], n, budget, e))"

definition allocate_inputs :: "request \<Rightarrow> nat list \<Rightarrow> encoder_mgr \<Rightarrow> encoder_mgr result" where
  "allocate_inputs r ins e = foldE (enc_allocate r) ins e"

definition sum_embeds :: "request \<Rightarrow> nat list \<Rightarrow> int result" where
  "sum_embeds r ins = foldE (\<lambda>i n. bindE (get_num_encoder_embeds r i) (\<lambda>k. Inr (n + k))) ins 0"

section \<open>Running requests\<close>

text \<open>Asynchronous scheduling: the previous step has surely reached \<open>max_tokens\<close>.\<close>

definition reached_max_tokens :: "request \<Rightarrow> bool" where
  "reached_max_tokens r \<longleftrightarrow> 0 < num_output_placeholders r
     \<and> num_prompt_tokens r + max_tokens r \<le> num_computed_tokens r + 2 - num_output_placeholders r"

definition running_tokens :: "sched_config \<Rightarrow> request \<Rightarrow> int \<Rightarrow> int" where
  "running_tokens c r budget =
     (let n = num_tokens_with_spec r + num_output_placeholders r - num_computed_tokens r;
          n1 = (if 0 < long_prefill_token_threshold c \<and> long_prefill_token_threshold c < n
                then long_prefill_token_threshold c else n)
      in min (min n1 budget) (sc_max_model_len c - 1 - num_computed_tokens r))"

definition plan_running :: "nat \<Rightarrow> step_vars \<Rightarrow> (nat list \<times> int \<times> int \<times> step_vars) result" where
  "plan_running i st =
     (let s = sch st; c = conf s; r = objs s i
      in bindE (plan_inputs c r (num_computed_tokens r) (running_tokens c r (token_budget st)) (enc_budget st)
                  (encoder_manager s)) (\<lambda>(ins, n, eb, e).
         bindE (if need_mamba_block_aligned_split c then mamba_block_aligned_split c r n 0 0 else Inr n) (\<lambda>n'.
           Inr (ins, n', eb, on_sch (set_enc e) st))))"

text \<open>A preempted request that had been scheduled in this step gives back what it was given.\<close>

definition unschedule :: "nat \<Rightarrow> step_vars \<Rightarrow> step_vars result" where
  "unschedule v st =
     (let r = objs (sch st) v; rid = request_id r
      in bindE (dict_popE rid (sched_toks st)) (\<lambda>(n, toks).
         bindE (dict_popE rid (blocks_of st)) (\<lambda>(_, blks).
         bindE (case dict_get (enc_sched st) rid of None \<Rightarrow> Inr 0 | Some ins \<Rightarrow> sum_embeds r ins) (\<lambda>k.
           Inr (st\<lparr>run_reqs := remove1 v (run_reqs st), token_budget := token_budget st + n, sched_toks := toks,
                   blocks_of := blks, spec_sched := dict_pop rid (spec_sched st),
                   enc_sched := dict_pop rid (enc_sched st), enc_budget := enc_budget st + k,
                   req_index := req_index st - 1\<rparr>)))))"

text \<open>The request to preempt, which leaves the running list.\<close>

definition take_victim :: "step_vars \<Rightarrow> (nat \<times> step_vars) result" where
  "take_victim st =
     (let s = sch st
      in if sched_policy (conf s) = PRIORITY
         then bindE (pick_victim (objs s) (running s)) (\<lambda>v.
                let st1 = on_sch (\<lambda>s. s\<lparr>running := remove1 v (running s)\<rparr>) st
                in if v \<in> set (run_reqs st1) then bindE (unschedule v st1) (\<lambda>st2. Inr (v, st2)) else Inr (v, st1))
         else if running s = [] then Inl IndexError
         else Inr (last (running s), on_sch (\<lambda>s. s\<lparr>running := butlast (running s)\<rparr>) st))"

definition preempt_victim :: "sched_env \<Rightarrow> step_vars \<Rightarrow> (nat \<times> step_vars) result" where
  "preempt_victim env st =
     bindE (take_victim st) (\<lambda>(v, st1).
     bindE (preempt_request env v (sch st1)) (\<lambda>s.
       Inr (v, st1\<lparr>sch := s, preempted_reqs := preempted_reqs st1 @ [v]\<rparr>)))"

definition room_body ::
  "sched_env \<Rightarrow> nat \<Rightarrow> int \<Rightarrow> kv_cache_blocks option \<times> step_vars \<Rightarrow> (bool \<times> (kv_cache_blocks option \<times> step_vars)) io" where
  "room_body env i n x =
     Some (let st = snd x; s = sch st
       in bindE (allocate_slots (env_sha env) (objs s i) n 0 None (num_lookahead_tokens (conf s)) 0 False 0 (kv_manager s))
         (\<lambda>(nb, km).
           let st1 = on_sch (set_kv km) st
           in case nb of
                Some b \<Rightarrow> Inr (False, (Some b, st1))
              | None \<Rightarrow> bindE (preempt_victim env st1) (\<lambda>(v, st2). Inr (v \<noteq> i, (None, st2)))))"

definition find_room :: "sched_env \<Rightarrow> nat \<Rightarrow> int \<Rightarrow> step_vars \<Rightarrow> (kv_cache_blocks option \<times> step_vars) io" where
  "find_room env i n st = py_while (\<lambda>_. True) (room_body env i n) (None, st)"

text \<open>Draft tokens that fit into the scheduled tokens.\<close>

definition take_spec_tokens :: "nat \<Rightarrow> int \<Rightarrow> step_vars \<Rightarrow> step_vars" where
  "take_spec_tokens i n st =
     (let r = objs (sch st) i
      in if spec_token_ids r = [] then st
         else let k = n + num_computed_tokens r - num_tokens r - num_output_placeholders r;
                  st1 = (if 0 < k
                         then st\<lparr>spec_sched := dict_set (request_id r) (take (nat k) (spec_token_ids r)) (spec_sched st)\<rparr>
                         else st)
              in on_sch (set_obj i (\<lambda>r. r\<lparr>spec_token_ids := []\<rparr>)) st1)"

definition commit_inputs :: "nat \<Rightarrow> nat list \<Rightarrow> int \<Rightarrow> step_vars \<Rightarrow> step_vars result" where
  "commit_inputs i ins eb st =
     (if ins = [] then Inr st
      else let r = objs (sch st) i
           in bindE (allocate_inputs r ins (encoder_manager (sch st))) (\<lambda>e.
                Inr (on_sch (set_enc e) (st\<lparr>enc_sched := dict_set (request_id r) ins (enc_sched st), enc_budget := eb\<rparr>))))"

definition commit_running :: "nat \<Rightarrow> int \<Rightarrow> nat list \<Rightarrow> int \<Rightarrow> kv_cache_blocks \<Rightarrow> step_vars \<Rightarrow> step_vars result" where
  "commit_running i n ins eb b st =
     (let rid = request_id (objs (sch st) i);
          st1 = st\<lparr>run_reqs := run_reqs st @ [i], blocks_of := dict_set rid b (blocks_of st),
                   sched_toks := dict_set rid n (sched_toks st), token_budget := token_budget st - n,
                   req_index := req_index st + 1\<rparr>
      in commit_inputs i ins eb (take_spec_tokens i n st1))"

definition skip_running :: "step_vars \<Rightarrow> step_vars" where
  "skip_running st = st\<lparr>req_index := req_index st + 1\<rparr>"

definition running_cond :: "step_vars \<Rightarrow> bool" where
  "running_cond st \<longleftrightarrow> req_index st < int (length (running (sch st))) \<and> 0 < token_budget st"

definition running_body :: "sched_env \<Rightarrow> step_vars \<Rightarrow> (bool \<times> step_vars) io" where
  "running_body env st =
     bindO (Some (py_index (running (sch st)) (req_index st))) (\<lambda>i.
       if reached_max_tokens (objs (sch st) i) then retO (True, skip_running st)
       else bindO (Some (plan_running i st)) (\<lambda>(ins, n, eb, st1).
         if n = 0 then retO (True, skip_running st1)
         else bindO (find_room env i n st1) (\<lambda>(nb, st2).
           case nb of
             None \<Rightarrow> retO (False, st2)
           | Some b \<Rightarrow> bindO (Some (commit_running i n ins eb b st2)) (\<lambda>st3. retO (True, st3)))))"

definition schedule_running :: "sched_env \<Rightarrow> step_vars \<Rightarrow> step_vars io" where
  "schedule_running env st = py_while running_cond (running_body env) st"

definition loras_of :: "(nat \<Rightarrow> request) \<Rightarrow> nat list \<Rightarrow> int set" where
  "loras_of ob is = set (concat (map (\<lambda>i. case lora_request (ob i) of None \<Rightarrow> [] | Some l \<Rightarrow> if 0 < snd l then [snd l] else []) is))"

definition note_loras :: "step_vars \<Rightarrow> step_vars result" where
  "note_loras st =
     (case max_loras (conf (sch st)) of
        None \<Rightarrow> Inr st
      | Some m \<Rightarrow> let ls = loras_of (objs (sch st)) (run_reqs st)
                  in bindE (guardE (card ls \<le> m) AssertionError) (\<lambda>_. Inr (st\<lparr>scheduled_loras := ls\<rparr>)))"

section \<open>Waiting requests\<close>

datatype queue_name = Waiting_queue | Skipped_queue

fun get_queue :: "queue_name \<Rightarrow> scheduler \<Rightarrow> request_queue" where
  "get_queue Waiting_queue s = waiting s"
| "get_queue Skipped_queue s = skipped_waiting s"

fun set_queue :: "queue_name \<Rightarrow> request_queue \<Rightarrow> scheduler \<Rightarrow> scheduler" where
  "set_queue Waiting_queue q s = s\<lparr>waiting := q\<rparr>"
| "set_queue Skipped_queue q s = s\<lparr>skipped_waiting := q\<rparr>"

definition q_nonempty :: "request_queue \<Rightarrow> bool" where
  "q_nonempty q \<longleftrightarrow> queue_reqs q \<noteq> []"

definition select_waiting_queue_for_scheduling :: "scheduler \<Rightarrow> queue_name option result" where
  "select_waiting_queue_for_scheduling s =
     (if sched_policy (conf s) = FCFS
      then Inr (if q_nonempty (skipped_waiting s) then Some Skipped_queue
                else if q_nonempty (waiting s) then Some Waiting_queue else None)
      else if q_nonempty (waiting s) \<and> q_nonempty (skipped_waiting s)
      then bindE (q_peek (waiting s)) (\<lambda>w. bindE (q_peek (skipped_waiting s)) (\<lambda>k.
             Inr (Some (if request_less w k then Waiting_queue else Skipped_queue))))
      else Inr (if q_nonempty (waiting s) then Some Waiting_queue
                else if q_nonempty (skipped_waiting s) then Some Skipped_queue else None))"

definition is_blocked_waiting_status :: "request_status \<Rightarrow> bool" where
  "is_blocked_waiting_status st \<longleftrightarrow>
     st \<in> {WAITING_FOR_STRUCTURED_OUTPUT_GRAMMAR, WAITING_FOR_REMOTE_KVS, WAITING_FOR_STREAMING_REQ}"

text \<open>Without a connector no transfer ever finishes, so a request that waits for one stays blocked.\<close>

definition try_promote_blocked_waiting_request :: "sched_env \<Rightarrow> nat \<Rightarrow> scheduler \<Rightarrow> (bool \<times> scheduler) result" where
  "try_promote_blocked_waiting_request env i s =
     (let r = objs s i
      in if status r = WAITING_FOR_REMOTE_KVS then Inr (False, s)
         else if status r = WAITING_FOR_STRUCTURED_OUTPUT_GRAMMAR
         then if structured_output_request r \<and> grammar_ready env r
              then Inr (True, set_obj i (\<lambda>r. r\<lparr>status := WAITING\<rparr>) s) else Inr (False, s)
         else if status r = WAITING_FOR_STREAMING_REQ
         then bindE (guardE (streaming_queue r = None \<or> streaming_queue r = Some []) AssertionError) (\<lambda>_. Inr (False, s))
         else Inl AssertionError)"

text \<open>Scheduling the request would exceed \<open>max_loras\<close>.\<close>

definition lora_full :: "request \<Rightarrow> step_vars \<Rightarrow> bool" where
  "lora_full r st \<longleftrightarrow>
     (case max_loras (conf (sch st)) of
        None \<Rightarrow> False
      | Some m \<Rightarrow> (case lora_request r of None \<Rightarrow> False
                   | Some l \<Rightarrow> card (scheduled_loras st) = m \<and> snd l \<notin> scheduled_loras st))"

definition skip_waiting :: "queue_name \<Rightarrow> nat \<Rightarrow> step_vars \<Rightarrow> step_vars result" where
  "skip_waiting qn i st =
     bindE (q_pop (get_queue qn (sch st))) (\<lambda>(_, q).
       Inr (st\<lparr>sch := set_queue qn q (sch st), step_skipped := q_prepend (objs (sch st) i) (step_skipped st)\<rparr>))"

text \<open>The cached prefix of the request, and the number of tokens it has computed.\<close>

definition note_prefill :: "nat \<Rightarrow> int \<Rightarrow> scheduler \<Rightarrow> scheduler result" where
  "note_prefill i loc s =
     (let r = objs s i
      in if prefill_stats r = None then Inr s
         else bindE (guardE (loc \<le> num_prompt_tokens r) AssertionError) (\<lambda>_.
              bindE (prefill_set (num_prompt_tokens r) loc 0) (\<lambda>ps.
                Inr (set_obj i (\<lambda>r. r\<lparr>prefill_stats := Some ps\<rparr>) s))))"

definition computed_prefix :: "nat \<Rightarrow> step_vars \<Rightarrow> (kv_cache_blocks \<times> int \<times> int \<times> step_vars) io" where
  "computed_prefix i st =
     (let s = sch st; r = objs s i
      in if num_computed_tokens r = 0
         then bindO (get_computed_blocks r (kv_manager s)) (\<lambda>((bs, loc), km).
              bindO (Some (guardE (loc \<le> num_tokens r) AssertionError)) (\<lambda>_.
              bindO (Some (note_prefill i loc (set_kv km s))) (\<lambda>s1. retO (bs, loc, loc, st\<lparr>sch := s1\<rparr>))))
         else retO (empty_kv_cache_blocks (kv_manager s), 0, num_computed_tokens r, st))"

text \<open>
  The tokens and encoder inputs to schedule; \<open>None\<close> is a \<open>break\<close>. Both cases return the state,
  because the encoder cache may have changed.
\<close>

definition waiting_tokens :: "sched_config \<Rightarrow> request \<Rightarrow> int \<Rightarrow> int" where
  "waiting_tokens c r comp_toks =
     (let n = num_tokens r - comp_toks; t = long_prefill_token_threshold c
      in if 0 < t \<and> t < n then t else n)"

definition plan_waiting :: "nat \<Rightarrow> int \<Rightarrow> int \<Rightarrow> step_vars \<Rightarrow> ((nat list \<times> int \<times> int) option \<times> step_vars) result" where
  "plan_waiting i loc comp_toks st =
     (let s = sch st; c = conf s; r = objs s i; n1 = waiting_tokens c r comp_toks
      in if \<not> enable_chunked_prefill c \<and> token_budget st < n1 then Inr (None, st)
         else bindE (guardE (0 < min n1 (token_budget st)) AssertionError) (\<lambda>_.
              bindE (plan_inputs c r comp_toks (min n1 (token_budget st)) (enc_budget st) (encoder_manager s))
                (\<lambda>(ins, n, eb, e).
                let st1 = on_sch (set_enc e) st
                in if has_encoder_inputs r \<and> n = 0 then Inr (None, st1)
                   else if need_mamba_block_aligned_split c
                   then bindE (mamba_block_aligned_split c r n loc 0) (\<lambda>n'.
                          Inr (if n' = 0 then None else Some (ins, n', eb), st1))
                   else Inr (Some (ins, n, eb), st1))))"

text \<open>Slots for the request; the first component is \<open>False\<close> when it cannot be scheduled.\<close>

definition release_inputs :: "sched_env \<Rightarrow> request \<Rightarrow> step_vars \<Rightarrow> step_vars result" where
  "release_inputs env r st =
     (if has_encoder_inputs r
      then bindE (enc_free env r (encoder_manager (sch st))) (\<lambda>e. Inr (on_sch (set_enc e) st)) else Inr st)"

definition allocate_waiting ::
  "sched_env \<Rightarrow> nat \<Rightarrow> nat list \<Rightarrow> int \<Rightarrow> kv_cache_blocks \<Rightarrow> int \<Rightarrow> step_vars \<Rightarrow> (bool \<times> step_vars) result" where
  "allocate_waiting env i ins n bs loc st =
     (let s = sch st; c = conf s; r = objs s i;
          lookahead = (if num_computed_tokens r = 0 then 0 else num_lookahead_tokens c)
      in bindE (if sc_is_encoder_decoder c \<and> has_encoder_inputs r \<and> ins \<noteq> [] then sum_embeds r ins else Inr 0) (\<lambda>enc.
         bindE (if scheduler_reserve_full_isl c then can_fit_full_sequence r loc (Some bs) 0 enc (kv_manager s)
                else Inr (True, kv_manager s)) (\<lambda>(fits, km).
         let st1 = on_sch (set_kv km) st
         in if \<not> fits then bindE (release_inputs env r st1) (\<lambda>st2. Inr (False, st2))
            else bindE (allocate_slots (env_sha env) r n loc (Some bs) lookahead 0 False enc km) (\<lambda>(nb, km').
                 let st2 = on_sch (set_kv km') st1
                 in case nb of
                      None \<Rightarrow> bindE (release_inputs env r st2) (\<lambda>st3. Inr (False, st3))
                    | Some _ \<Rightarrow> Inr (True, st2)))))"

text \<open>The request starts or resumes running.\<close>

definition note_started :: "nat \<Rightarrow> step_vars \<Rightarrow> step_vars result" where
  "note_started i st =
     (case status (objs (sch st) i) of
        WAITING \<Rightarrow> Inr (st\<lparr>new_reqs := new_reqs st @ [i]\<rparr>)
      | PREEMPTED \<Rightarrow> Inr (st\<lparr>resumed_reqs := resumed_reqs st @ [i]\<rparr>)
      | _ \<Rightarrow> Inl RuntimeError)"

definition note_lora :: "nat \<Rightarrow> step_vars \<Rightarrow> step_vars" where
  "note_lora i st =
     (case (max_loras (conf (sch st)), lora_request (objs (sch st) i)) of
        (Some _, Some l) \<Rightarrow> st\<lparr>scheduled_loras := insert (snd l) (scheduled_loras st)\<rparr>
      | _ \<Rightarrow> st)"

definition start_request :: "queue_name \<Rightarrow> nat list \<Rightarrow> int \<Rightarrow> int \<Rightarrow> int \<Rightarrow> step_vars \<Rightarrow> step_vars result" where
  "start_request qn ins n eb comp_toks st =
     bindE (q_pop (get_queue qn (sch st))) (\<lambda>(r0, q).
       let i = obj_id r0;
           st1 = on_sch (\<lambda>s. (set_queue qn q s)\<lparr>running := running s @ [i]\<rparr>) st
       in bindE (note_started i st1) (\<lambda>st2.
          let st3 = note_lora i st2; s = sch st3; rid = request_id (objs s i);
              st4 = st3\<lparr>blocks_of := dict_set rid (km_get_blocks rid (kv_manager s)) (blocks_of st3),
                        sched_toks := dict_set rid n (sched_toks st3), token_budget := token_budget st3 - n,
                        sch := set_obj i (\<lambda>r. r\<lparr>status := RUNNING, num_computed_tokens := comp_toks\<rparr>) s\<rparr>
          in commit_inputs i ins eb st4))"

definition admit :: "sched_env \<Rightarrow> queue_name \<Rightarrow> nat \<Rightarrow> step_vars \<Rightarrow> (bool \<times> step_vars) io" where
  "admit env qn i st =
     bindO (computed_prefix i st) (\<lambda>(bs, loc, comp_toks, st1).
     bindO (Some (plan_waiting i loc comp_toks st1)) (\<lambda>(plan, st2).
       case plan of
         None \<Rightarrow> retO (False, st2)
       | Some (ins, n, eb) \<Rightarrow>
           bindO (Some (allocate_waiting env i ins n bs loc st2)) (\<lambda>(ok, st3).
             if \<not> ok then retO (False, st3)
             else bindO (Some (start_request qn ins n eb comp_toks st3)) (\<lambda>st4. retO (True, st4)))))"

definition waiting_cond :: "step_vars \<Rightarrow> bool" where
  "waiting_cond st \<longleftrightarrow> (q_nonempty (waiting (sch st)) \<or> q_nonempty (skipped_waiting (sch st))) \<and> 0 < token_budget st"

definition next_waiting :: "scheduler \<Rightarrow> (queue_name \<times> nat) result" where
  "next_waiting s =
     bindE (select_waiting_queue_for_scheduling s) (\<lambda>q.
       case q of
         None \<Rightarrow> Inl AssertionError
       | Some qn \<Rightarrow> bindE (q_peek (get_queue qn s)) (\<lambda>r0. Inr (qn, obj_id r0)))"

definition waiting_body :: "sched_env \<Rightarrow> step_vars \<Rightarrow> (bool \<times> step_vars) io" where
  "waiting_body env st =
     (if int (length (running (sch st))) = max_num_running_reqs (conf (sch st)) then retO (False, st)
      else bindO (Some (next_waiting (sch st))) (\<lambda>(qn, i).
           bindO (Some (if is_blocked_waiting_status (status (objs (sch st) i))
                        then try_promote_blocked_waiting_request env i (sch st) else Inr (True, sch st))) (\<lambda>(ok, s1).
             let st1 = st\<lparr>sch := s1\<rparr>
             in if \<not> ok \<or> lora_full (objs s1 i) st1
                then bindO (Some (skip_waiting qn i st1)) (\<lambda>st2. retO (True, st2))
                else admit env qn i st1)))"

definition requeue_skipped :: "step_vars \<Rightarrow> step_vars result" where
  "requeue_skipped st =
     (if q_nonempty (step_skipped st)
      then bindE (q_iter (step_skipped st)) (\<lambda>rs.
             Inr (on_sch (\<lambda>s. s\<lparr>skipped_waiting := q_prepend_all rs (skipped_waiting s)\<rparr>) st))
      else Inr st)"

definition schedule_waiting :: "sched_env \<Rightarrow> step_vars \<Rightarrow> step_vars io" where
  "schedule_waiting env st =
     (if preempted_reqs st = [] \<and> pause_state (sch st) = UNPAUSED
      then bindO (py_while waiting_cond (waiting_body env) st) (\<lambda>st1. Some (requeue_skipped st1))
      else retO st)"

text \<open>Both phases, up to the assertions at the end of the method.\<close>

definition schedule_phases :: "sched_env \<Rightarrow> scheduler \<Rightarrow> step_vars io" where
  "schedule_phases env s =
     bindO (schedule_running env (step_start s)) (\<lambda>st.
     bindO (Some (note_loras st)) (\<lambda>st1. schedule_waiting env st1))"

section \<open>The output of a step\<close>

definition total_scheduled :: "step_vars \<Rightarrow> int" where
  "total_scheduled st = (\<Sum>(_, n) \<leftarrow> sched_toks st. n)"

definition check_limits :: "step_vars \<Rightarrow> unit result" where
  "check_limits st =
     (let s = sch st
      in bindE (guardE (total_scheduled st \<le> max_num_scheduled_tokens (conf s)) AssertionError) (\<lambda>_.
         bindE (guardE (0 \<le> token_budget st) AssertionError) (\<lambda>_.
         bindE (guardE (int (length (running s)) \<le> max_num_running_reqs (conf s)) AssertionError) (\<lambda>_.
           guardE (length (new_reqs st) + length (resumed_reqs st) + length (run_reqs st) \<le> length (running s)) AssertionError))))"

definition block_ids_of :: "step_vars \<Rightarrow> bool \<Rightarrow> string \<Rightarrow> int list list option result" where
  "block_ids_of st allow_none rid =
     bindE (dict_getE (blocks_of st) rid) (\<lambda>b. Inr (get_block_ids (km_pool (kv_manager (sch st))) allow_none b))"

definition make_new_request_data :: "step_vars \<Rightarrow> nat \<Rightarrow> new_request_data result" where
  "make_new_request_data st i =
     (let r = objs (sch st) i
      in bindE (block_ids_of st False (request_id r)) (\<lambda>ids.
           Inr (new_request_data_from r (case ids of None \<Rightarrow> [] | Some x \<Rightarrow> x)
                  (if use_v2_model_runner (conf (sch st)) then Some (all_token_ids r) else None))))"

fun mapE :: "('a \<Rightarrow> 'b result) \<Rightarrow> 'a list \<Rightarrow> 'b list result" where
  "mapE f [] = Inr []"
| "mapE f (x # xs) = bindE (f x) (\<lambda>y. bindE (mapE f xs) (\<lambda>ys. Inr (y # ys)))"

definition cached_request_step :: "step_vars \<Rightarrow> nat \<Rightarrow> nat \<times> nat \<Rightarrow> cached_request_data \<Rightarrow> cached_request_data result" where
  "cached_request_step st n_running ix d =
     (let (idx, i) = ix; s = sch st; r = objs s i; rid = request_id r;
          in_prev = rid \<in> prev_step_scheduled_req_ids s
      in bindE (if use_pp (conf s) \<and> \<not> async_scheduling (conf s)
                then bindE (dict_getE (sched_toks st) rid) (\<lambda>n.
                       let k = n - int (length (case dict_get (spec_sched st) rid of None \<Rightarrow> [] | Some ts \<Rightarrow> ts))
                       in Inr [py_slice (all_token_ids r) (num_computed_tokens r) (num_computed_tokens r + k)])
                else Inr []) (\<lambda>toks.
         bindE (guardE (n_running \<le> idx \<longrightarrow> \<not> in_prev) AssertionError) (\<lambda>_.
         bindE (block_ids_of st True rid) (\<lambda>ids.
           Inr \<lparr>cd_req_ids = cd_req_ids d @ [rid],
                cd_resumed_req_ids = (if n_running \<le> idx then insert rid (cd_resumed_req_ids d) else cd_resumed_req_ids d),
                cd_new_token_ids = cd_new_token_ids d @ toks,
                cd_all_token_ids = (if in_prev then cd_all_token_ids d
                                    else dict_set rid (all_token_ids r) (cd_all_token_ids d)),
                cd_new_block_ids = cd_new_block_ids d @ [ids],
                cd_num_computed_tokens = cd_num_computed_tokens d @ [num_computed_tokens r],
                cd_num_output_tokens = cd_num_output_tokens d @ [num_output_tokens r + num_output_placeholders r]\<rparr>))))"

definition make_cached_request_data :: "nat list \<Rightarrow> nat list \<Rightarrow> step_vars \<Rightarrow> cached_request_data result" where
  "make_cached_request_data run resumed st =
     foldE (cached_request_step st (length run)) (enumerate 0 (run @ resumed)) empty_cached_request_data"

text \<open>Tokens count as computed once they are scheduled; the asynchronous scheduler adds placeholders.\<close>

definition advance_step :: "string \<times> int \<Rightarrow> bool \<times> scheduler \<Rightarrow> (bool \<times> scheduler) result" where
  "advance_step x bs =
     (let (rid, n) = x; (flag, s) = bs
      in bindE (dict_getE (requests_dict s) rid) (\<lambda>i.
           let s1 = set_obj i (\<lambda>r. let k = num_computed_tokens r + n
                                  in r\<lparr>num_computed_tokens := k,
                                       is_prefill_chunk := k < num_tokens r + num_output_placeholders r\<rparr>) s;
               r1 = objs s1 i
           in Inr (flag \<or> structured_output_request r1 \<and> \<not> is_prefill_chunk r1, s1)))"

definition placeholder_step :: "(string \<times> int list) list \<Rightarrow> string \<times> int \<Rightarrow> bool \<times> scheduler \<Rightarrow> (bool \<times> scheduler) result" where
  "placeholder_step spec x bs =
     (let (rid, _) = x; (flag, s) = bs
      in bindE (dict_getE (requests_dict s) rid) (\<lambda>i.
           let r = objs s i
           in if is_prefill_chunk r then Inr (flag, s)
              else let k = int (length (case dict_get spec rid of None \<Rightarrow> [] | Some ts \<Rightarrow> ts))
                   in Inr (flag \<or> structured_output_request r \<and> 0 < num_output_placeholders r,
                           set_obj i (\<lambda>r. r\<lparr>num_output_placeholders := num_output_placeholders r + 1 + k,
                                            spec_token_ids := replicate (nat (num_spec_tokens (conf s))) (-1)\<rparr>) s)))"

definition update_after_schedule :: "scheduler_output \<Rightarrow> scheduler \<Rightarrow> (scheduler_output \<times> scheduler) result" where
  "update_after_schedule out s =
     bindE (foldE advance_step (num_scheduled_tokens out) (has_structured_output_requests out, s)) (\<lambda>(flag, s1).
       let out1 = out\<lparr>has_structured_output_requests := flag\<rparr>; s2 = s1\<lparr>finished_req_ids := {}\<rparr>
       in if async_scheduling (conf s)
          then bindE (foldE (placeholder_step (scheduled_spec_decode_tokens out1)) (num_scheduled_tokens out1)
                        (pending_structured_output_tokens out1, s2)) (\<lambda>(pending, s3).
                 Inr (out1\<lparr>pending_structured_output_tokens := pending\<rparr>, s3))
          else Inr (out1, s2))"

definition common_prefix :: "scheduler \<Rightarrow> int list \<times> scheduler" where
  "common_prefix s =
     (case running s of
        [] \<Rightarrow> (replicate (num_kv_cache_groups (kv_manager s)) 0, s)
      | i # _ \<Rightarrow> let (ns, km) = km_num_common_prefix_blocks (request_id (objs s i)) (kv_manager s) in (ns, set_kv km s))"

definition ids_to_zero :: "scheduler \<Rightarrow> int list option \<times> scheduler" where
  "ids_to_zero s =
     (if sc_needs_kv_cache_zeroing (conf s)
      then let (ids, km) = km_take_new_block_ids (kv_manager s) in (if ids = [] then None else Some ids, set_kv km s)
      else (None, s))"

definition make_output :: "step_vars \<Rightarrow> (scheduler_output \<times> scheduler) result" where
  "make_output st =
     (let v2 = use_v2_model_runner (conf (sch st));
          (ncp, s1) = common_prefix (sch st); st1 = st\<lparr>sch := s1\<rparr>;
          fresh = (if v2 then new_reqs st @ resumed_reqs st else new_reqs st);
          resumed = (if v2 then [] else resumed_reqs st)
      in bindE (mapE (make_new_request_data st1) fresh) (\<lambda>new_data.
         bindE (make_cached_request_data (run_reqs st) resumed st1) (\<lambda>cached.
           let s2 = s1\<lparr>prev_step_scheduled_req_ids := dict_keys (sched_toks st)\<rparr>;
               (zero, s3) = ids_to_zero s2;
               (freed, e) = enc_freed_hashes (encoder_manager s3);
               s4 = set_enc e s3
           in Inr (\<lparr>scheduled_new_reqs = new_data, scheduled_cached_reqs = cached,
                    num_scheduled_tokens = sched_toks st, total_num_scheduled_tokens = total_scheduled st,
                    scheduled_spec_decode_tokens = spec_sched st, scheduled_encoder_inputs = enc_sched st,
                    num_common_prefix_blocks = ncp, out_finished_req_ids = finished_req_ids s4,
                    free_encoder_mm_hashes = freed,
                    preempted_req_ids = (\<lambda>i. request_id (objs s4 i)) ` set (preempted_reqs st),
                    has_structured_output_requests = False, pending_structured_output_tokens = False,
                    num_invalid_spec_tokens = None, new_block_ids_to_zero = zero\<rparr>, s4))))"

definition schedule :: "sched_env \<Rightarrow> scheduler \<Rightarrow> (scheduler_output \<times> scheduler) io" where
  "schedule env s =
     bindO (schedule_phases env s) (\<lambda>st.
     bindO (Some (check_limits st)) (\<lambda>_.
     bindO (Some (make_output st)) (\<lambda>(out, s1). Some (update_after_schedule out s1))))"

end
