(* ===== verification/Scheduler_Update.thy ===== *)
theory Scheduler_Update
  imports Scheduler_Step
begin

text \<open>
  The other operations of the scheduler (\<open>vllm/v1/core/sched/scheduler.py\<close> and
  \<open>async_scheduler.py\<close>): taking the model's output, adding and finishing requests, streaming
  sessions, draft tokens, resets and counts.

  Sets of requests and of ids that a method iterates over are lists in the order of the
  iteration. Log probabilities of sampled tokens, NaN counts, tracing and statistics are left
  out; the log probabilities of prompts are an opaque payload, which an assertion tests.
\<close>

section \<open>Outputs of the model and of the engine\<close>

record model_runner_output =
  req_id_to_index :: "(string \<times> int) list"
  sampled_token_ids :: "int list list"
  pooler_output :: "bytes option list"
  prompt_logprobs_dict :: "(string \<times> bytes option) list"

record engine_core_output =
  eo_request_id :: string
  eo_new_token_ids :: "int list"
  eo_prompt_logprobs :: "bytes option"
  eo_pooling_output :: "bytes option"
  eo_finish_reason :: "finish_reason option"
  eo_stop_reason :: "stop_why option"
  eo_prefill_stats :: "prefill_stats option"

record engine_core_outputs =
  eco_outputs :: "engine_core_output list"
  eco_finished_requests :: "string set option"

section \<open>Structured output\<close>

text \<open>\<open>StructuredOutputManager.should_advance\<close>; it may note that reasoning has ended.\<close>

definition should_advance :: "sched_env \<Rightarrow> nat \<Rightarrow> scheduler \<Rightarrow> bool \<times> scheduler" where
  "should_advance env i s =
     (let r = objs s i
      in if \<not> structured_output_request r then (False, s)
         else case env_reasoner env of
           None \<Rightarrow> (True, s)
         | Some ends \<Rightarrow>
             if enable_in_reasoning env \<or> reasoning_ended r = Some True then (True, s)
             else let delta = num_computed_tokens r - num_output_placeholders r; toks = all_token_ids r;
                      start = (if 0 \<le> delta then delta else max (int (length toks) + delta) 0)
                  in if ends toks (drop (nat start) toks)
                     then (False, set_obj i (\<lambda>r. r\<lparr>reasoning_ended := Some True\<rparr>) s) else (False, s))"

section \<open>Requests that stop\<close>

definition enqueue_waiting_request :: "nat \<Rightarrow> scheduler \<Rightarrow> scheduler" where
  "enqueue_waiting_request i s =
     (let r = objs s i
      in if is_blocked_waiting_status (status r) then s\<lparr>skipped_waiting := q_add r (skipped_waiting s)\<rparr>
         else s\<lparr>waiting := q_add r (waiting s)\<rparr>)"

text \<open>The fields of a session that the next update changes, up to the new block hashes.\<close>

definition shift_feature :: "int \<Rightarrow> mm_feature \<Rightarrow> mm_feature" where
  "shift_feature base f = f\<lparr>mm_position := (mm_position f)\<lparr>pr_offset := pr_offset (mm_position f) + base\<rparr>\<rparr>"

definition extend_session :: "streaming_update \<Rightarrow> request \<Rightarrow> request result" where
  "extend_session u r =
     (let kept = py_slice (all_token_ids r) (num_prompt_tokens r) (num_computed_tokens r);
          toks = take (py_clip (length (all_token_ids r)) (num_computed_tokens r)) (all_token_ids r);
          more_toks = (case su_prompt_token_ids u of None \<Rightarrow> [] | Some ts \<Rightarrow> ts);
          feats = (case su_mm_features u of None \<Rightarrow> [] | Some fs \<Rightarrow> map (shift_feature (int (length toks))) fs)
      in case prompt_token_ids r of
           None \<Rightarrow> Inl AssertionError
         | Some ps \<Rightarrow> Inr (r\<lparr>output_token_ids := [], all_token_ids := toks @ more_toks,
                            prompt_token_ids := Some (ps @ kept @ more_toks), mm_features := mm_features r @ feats\<rparr>))"

definition update_request_as_session :: "sched_env \<Rightarrow> nat \<Rightarrow> streaming_update \<Rightarrow> scheduler \<Rightarrow> scheduler io" where
  "update_request_as_session env i u s =
     bindO (Some (extend_session u (objs s i))) (\<lambda>r.
     bindO (update_block_hashes (env_hasher env) r) (\<lambda>r1.
       let n = (case prompt_token_ids r1 of None \<Rightarrow> 0 | Some ps \<Rightarrow> int (length ps));
           s1 = (if status r1 = WAITING_FOR_STREAMING_REQ
                 then s\<lparr>num_waiting_for_streaming_input := num_waiting_for_streaming_input s - 1\<rparr> else s)
       in retO (set_obj i (\<lambda>_. r1\<lparr>num_prompt_tokens := n, arrival_time := su_arrival_time u,
                                  req_sampling_params := su_sampling_params u, status := WAITING\<rparr>) s1)))"

text \<open>Whether the request is finished; a session goes on with its next update or waits for one.\<close>

definition handle_stopped_request :: "sched_env \<Rightarrow> nat \<Rightarrow> scheduler \<Rightarrow> (bool \<times> scheduler) io" where
  "handle_stopped_request env i s =
     (let r = objs s i
      in if \<not> resumable r then retO (True, s)
         else case streaming_queue r of
           Some (u # us) \<Rightarrow>
             (let s1 = set_obj i (\<lambda>r. r\<lparr>streaming_queue := Some us\<rparr>) s
              in case u of
                   None \<Rightarrow> retO (True, s1)
                 | Some upd \<Rightarrow> bindO (update_request_as_session env i upd s1) (\<lambda>s2.
                     retO (False, enqueue_waiting_request i s2)))
         | _ \<Rightarrow>
             let s1 = (set_obj i (\<lambda>r. r\<lparr>status := WAITING_FOR_STREAMING_REQ\<rparr>) s)
                        \<lparr>num_waiting_for_streaming_input := num_waiting_for_streaming_input s + 1\<rparr>
             in retO (False, enqueue_waiting_request i s1))"

definition note_finished :: "int \<Rightarrow> string \<Rightarrow> scheduler \<Rightarrow> scheduler" where
  "note_finished client rid s =
     s\<lparr>finished_req_ids := insert rid (finished_req_ids s),
       finished_req_ids_dict := map_option (\<lambda>d. dict_set client
         (insert rid (case dict_get d client of None \<Rightarrow> {} | Some x \<Rightarrow> x)) d) (finished_req_ids_dict s)\<rparr>"

definition sched_free_blocks :: "nat \<Rightarrow> scheduler \<Rightarrow> scheduler result" where
  "sched_free_blocks i s =
     bindE (guardE (is_finished (status (objs s i))) AssertionError) (\<lambda>_.
     bindE (sched_free_kv (objs s i) s) (\<lambda>s1.
     bindE (dict_popE (request_id (objs s i)) (requests_dict s1)) (\<lambda>(_, d). Inr (s1\<lparr>requests_dict := d\<rparr>))))"

definition free_request :: "sched_env \<Rightarrow> nat \<Rightarrow> bool \<Rightarrow> scheduler \<Rightarrow> scheduler result" where
  "free_request env i delay s =
     bindE (guardE (is_finished (status (objs s i))) AssertionError) (\<lambda>_.
     bindE (sched_free_encoder env (objs s i) s) (\<lambda>s1.
       let s2 = note_finished (client_index (objs s i)) (request_id (objs s i)) s1
       in if delay then Inr s2 else sched_free_blocks i s2))"

section \<open>The model's output\<close>

fun append_until_stop :: "sched_env \<Rightarrow> nat \<Rightarrow> int list \<Rightarrow> int list \<Rightarrow> scheduler \<Rightarrow> (int list \<times> bool \<times> scheduler) io" where
  "append_until_stop env i out [] s = retO (out, False, s)"
| "append_until_stop env i out (t # ts) s =
     bindO (append_output_token_ids (env_hasher env) [t] (objs s i)) (\<lambda>r.
     bindO (Some (check_stop r (sc_max_model_len (conf s)))) (\<lambda>(stop, r1).
       let s1 = set_obj i (\<lambda>_. r1) s
       in if stop then retO (out @ [t], True, s1) else append_until_stop env i (out @ [t]) ts s1))"

definition update_request_with_output ::
  "sched_env \<Rightarrow> nat \<Rightarrow> int list \<Rightarrow> scheduler \<Rightarrow> (int list \<times> bool \<times> scheduler) io" where
  "update_request_with_output env i toks s =
     (if \<not> async_scheduling (conf s) then append_until_stop env i [] toks s
      else if discard_latest_async_tokens (objs s i)
      then retO ([], False, set_obj i (\<lambda>r. r\<lparr>discard_latest_async_tokens := False\<rparr>) s)
      else let prior = status (objs s i)
           in bindO (append_until_stop env i [] toks s) (\<lambda>(new_toks, stop, s1).
                let s2 = set_obj i (\<lambda>r. r\<lparr>num_output_placeholders := num_output_placeholders r - int (length new_toks)\<rparr>) s1;
                    r = objs s2 i
                in bindO (Some (guardE (0 \<le> num_output_placeholders r) AssertionError)) (\<lambda>_.
                   if prior = RUNNING
                   then bindO (Some (km_cache_blocks (env_sha env) r (num_computed_tokens r - num_output_placeholders r)
                                       (kv_manager s2))) (\<lambda>km. retO (new_toks, stop, s2\<lparr>kv_manager := km\<rparr>))
                   else retO (new_toks, stop, s2))))"

definition free_input_step :: "nat \<Rightarrow> nat \<Rightarrow> scheduler \<Rightarrow> scheduler result" where
  "free_input_step i k s =
     (let r = objs s i
      in bindE (py_index (mm_features r) (int k)) (\<lambda>f.
           if sc_is_encoder_decoder (conf s) \<and> 0 < num_computed_tokens r
              \<or> pr_offset (mm_position f) + pr_length (mm_position f) \<le> num_computed_tokens r
           then bindE (enc_free_input r k (encoder_manager s)) (\<lambda>e. Inr (s\<lparr>encoder_manager := e\<rparr>))
           else Inr s))"

definition free_encoder_inputs :: "sched_env \<Rightarrow> nat \<Rightarrow> scheduler \<Rightarrow> scheduler result" where
  "free_encoder_inputs env i s =
     foldE (free_input_step i) (set_order env (enc_cached_ids (objs s i) (encoder_manager s))) s"

text \<open>Rejected draft tokens are taken back.\<close>

definition reject_drafts :: "int list option \<Rightarrow> int list \<Rightarrow> request \<Rightarrow> request" where
  "reject_drafts drafts gen r =
     (case drafts of
        Some (d # ds) \<Rightarrow>
          if gen = [] then r
          else let rejected = int (length (d # ds)) - (int (length gen) - 1)
               in r\<lparr>num_computed_tokens := (if 0 < num_computed_tokens r then num_computed_tokens r - rejected
                                            else num_computed_tokens r),
                    num_output_placeholders := (if 0 < num_output_placeholders r then num_output_placeholders r - rejected
                                                else num_output_placeholders r)\<rparr>
      | _ \<Rightarrow> r)"

record update_vars =
  usch :: scheduler
  stopped_running :: "nat list"
  stopped_preempted :: "nat list"
  eouts :: "(int \<times> engine_core_output list) list"

text \<open>Tokens or a pooler output of one request: the tokens kept, and whether it stops.\<close>

definition take_output ::
  "sched_env \<Rightarrow> nat \<Rightarrow> int list \<Rightarrow> bytes option \<Rightarrow> scheduler \<Rightarrow> (int list \<times> bool \<times> scheduler) io" where
  "take_output env i gen pooled s =
     (if gen \<noteq> [] then update_request_with_output env i gen s
      else if req_pooling_params (objs s i) \<noteq> None \<and> pooled \<noteq> None
      then retO ([], True, set_obj i (\<lambda>r. r\<lparr>status := FINISHED_STOPPED\<rparr>) s)
      else retO ([], False, s))"

definition advance_grammar :: "sched_env \<Rightarrow> nat \<Rightarrow> int list \<Rightarrow> bool \<Rightarrow> scheduler \<Rightarrow> (bool \<times> scheduler) result" where
  "advance_grammar env i toks stopped s =
     (if toks = [] then Inr (stopped, s)
      else let (adv, s1) = should_advance env i s
           in if \<not> adv then Inr (stopped, s1)
              else bindE (guardE (structured_output_request (objs s1 i) \<and> grammar_ready env (objs s1 i)) AssertionError) (\<lambda>_.
                   if accept_tokens env (objs s1 i) toks then Inr (stopped, s1)
                   else Inr (True, set_obj i (\<lambda>r. r\<lparr>status := FINISHED_ERROR, resumable := False\<rparr>) s1)))"

definition finish_stopped ::
  "sched_env \<Rightarrow> nat \<Rightarrow> request_status \<Rightarrow> update_vars \<Rightarrow> (finish_reason option \<times> update_vars) io" where
  "finish_stopped env i prior u =
     (let reason = get_finished_reason (status (objs (usch u) i))
      in bindO (handle_stopped_request env i (usch u)) (\<lambda>(fin, s1).
         bindO (Some (if fin then free_request env i False s1 else Inr s1)) (\<lambda>s2.
           let u1 = u\<lparr>usch := s2\<rparr>
           in retO (reason, if prior = RUNNING then u1\<lparr>stopped_running := stopped_running u1 @ [i]\<rparr>
                            else u1\<lparr>stopped_preempted := stopped_preempted u1 @ [i]\<rparr>))))"

definition emit_output ::
  "nat \<Rightarrow> string \<Rightarrow> int list \<Rightarrow> bool \<Rightarrow> bytes option \<Rightarrow> bytes option \<Rightarrow> finish_reason option \<Rightarrow> update_vars \<Rightarrow> update_vars result" where
  "emit_output i rid toks stopped pooled logprobs reason u =
     (if toks \<noteq> [] \<or> pooled \<noteq> None \<or> stopped
      then let r = objs (usch u) i; client = client_index r;
               eo = \<lparr>eo_request_id = rid, eo_new_token_ids = toks, eo_prompt_logprobs = logprobs,
                     eo_pooling_output = pooled, eo_finish_reason = reason, eo_stop_reason = stop_reason r,
                     eo_prefill_stats = fst (take_prefill_stats r)\<rparr>;
               old = (case dict_get (eouts u) client of None \<Rightarrow> [] | Some os \<Rightarrow> os)
           in Inr (u\<lparr>usch := set_obj i (\<lambda>r. snd (take_prefill_stats r)) (usch u),
                     eouts := dict_set client (old @ [eo]) (eouts u)\<rparr>)
      else bindE (guardE (logprobs = None) AssertionError) (\<lambda>_. Inr u))"

definition update_one ::
  "sched_env \<Rightarrow> scheduler_output \<Rightarrow> model_runner_output \<Rightarrow> string \<Rightarrow> nat \<Rightarrow> update_vars \<Rightarrow> update_vars io" where
  "update_one env so mo rid i u =
     bindO (Some (dict_getE (req_id_to_index mo) rid)) (\<lambda>k.
     bindO (Some (if sampled_token_ids mo = [] then Inr [] else py_index (sampled_token_ids mo) k)) (\<lambda>gen.
       let s1 = set_obj i (reject_drafts (dict_get (scheduled_spec_decode_tokens so) rid) gen) (usch u)
       in bindO (Some (if has_encoder_inputs (objs s1 i) then free_encoder_inputs env i s1 else Inr s1)) (\<lambda>s2.
          bindO (Some (if pooler_output mo = [] then Inr None else py_index (pooler_output mo) k)) (\<lambda>pooled.
            let prior = status (objs s2 i)
            in bindO (take_output env i gen pooled s2) (\<lambda>(toks, stop0, s3).
               bindO (Some (advance_grammar env i toks stop0 s3)) (\<lambda>(stop, s4).
               bindO (if stop then finish_stopped env i prior (u\<lparr>usch := s4\<rparr>) else retO (None, u\<lparr>usch := s4\<rparr>))
                 (\<lambda>(reason, u1).
                  Some (emit_output i rid toks stop pooled
                          (case dict_get (prompt_logprobs_dict mo) rid of None \<Rightarrow> None | Some x \<Rightarrow> x) reason u1))))))))"

definition update_step ::
  "sched_env \<Rightarrow> scheduler_output \<Rightarrow> model_runner_output \<Rightarrow> string \<times> int \<Rightarrow> update_vars \<Rightarrow> update_vars io" where
  "update_step env so mo x u =
     bindO (Some (guardE (0 < snd x) AssertionError)) (\<lambda>_.
       case dict_get (requests_dict (usch u)) (fst x) of
         None \<Rightarrow> retO u
       | Some i \<Rightarrow> if is_finished (status (objs (usch u) i)) then retO u else update_one env so mo (fst x) i u)"

fun foldO :: "('a \<Rightarrow> 's \<Rightarrow> 's io) \<Rightarrow> 'a list \<Rightarrow> 's \<Rightarrow> 's io" where
  "foldO f [] s = retO s"
| "foldO f (x # xs) s = bindO (f x s) (foldO f xs)"

definition remove_stopped :: "update_vars \<Rightarrow> scheduler" where
  "remove_stopped u =
     (let s = usch u;
          s1 = (if stopped_running u = [] then s else s\<lparr>running := remove_all (running s) (stopped_running u)\<rparr>)
      in if stopped_preempted u = [] then s1
         else s1\<lparr>waiting := q_remove_all (map (objs s1) (stopped_preempted u)) (waiting s1)\<rparr>)"

definition collect_outputs ::
  "(int \<times> engine_core_output list) list \<Rightarrow> scheduler \<Rightarrow> (int \<times> engine_core_outputs) list \<times> scheduler" where
  "collect_outputs outs s =
     (let os = map (\<lambda>(c, l). (c, \<lparr>eco_outputs = l, eco_finished_requests = None\<rparr>)) outs
      in case finished_req_ids_dict s of
           None \<Rightarrow> (os, s)
         | Some d \<Rightarrow>
             (fold (\<lambda>(c, fs) os. dict_set c (case dict_get os c of
                      Some eco \<Rightarrow> eco\<lparr>eco_finished_requests := Some fs\<rparr>
                    | None \<Rightarrow> \<lparr>eco_outputs = [], eco_finished_requests = Some fs\<rparr>) os) d os,
              s\<lparr>finished_req_ids_dict := Some []\<rparr>))"

text \<open>The outputs per client, the KV cache events to publish, and the new state.\<close>

definition update_from_output ::
  "sched_env \<Rightarrow> scheduler_output \<Rightarrow> model_runner_output \<Rightarrow> scheduler
     \<Rightarrow> ((int \<times> engine_core_outputs) list \<times> kv_event list \<times> scheduler) io" where
  "update_from_output env so mo s =
     bindO (foldO (update_step env so mo) (num_scheduled_tokens so)
              \<lparr>usch = s, stopped_running = [], stopped_preempted = [], eouts = []\<rparr>) (\<lambda>u.
       let s1 = remove_stopped u; (evs, km) = km_take_events (kv_manager s1);
           (os, s2) = collect_outputs (eouts u) (s1\<lparr>kv_manager := km\<rparr>)
       in retO (os, evs, s2))"

section \<open>Draft tokens\<close>

definition update_draft_step :: "sched_env \<Rightarrow> string \<times> int list \<Rightarrow> scheduler \<Rightarrow> scheduler" where
  "update_draft_step env x s =
     (case dict_get (requests_dict s) (fst x) of
        None \<Rightarrow> s
      | Some i \<Rightarrow>
          let r = objs s i
          in if is_finished (status r) then s
             else if is_prefill_chunk r then set_obj i (\<lambda>r. r\<lparr>spec_token_ids := []\<rparr>) s
             else let (adv, s1) = should_advance env i s;
                      toks = (if adv then validate_tokens env (objs s1 i) (snd x) else snd x)
                  in set_obj i (\<lambda>r. r\<lparr>spec_token_ids := toks\<rparr>) s1)"

definition update_draft_token_ids :: "sched_env \<Rightarrow> string list \<Rightarrow> int list list \<Rightarrow> scheduler \<Rightarrow> scheduler" where
  "update_draft_token_ids env ids drafts s = fold (update_draft_step env) (zip ids drafts) s"

definition draft_in_output_step ::
  "sched_env \<Rightarrow> string \<times> int list \<Rightarrow> (string \<times> int list) list \<times> (string \<times> int) list \<times> scheduler
     \<Rightarrow> (string \<times> int list) list \<times> (string \<times> int) list \<times> scheduler" where
  "draft_in_output_step env x st =
     (let (spec, invalid, s) = st; rid = fst x
      in case dict_get (requests_dict s) rid of
           None \<Rightarrow> st
         | Some i \<Rightarrow>
             if is_finished (status (objs s i)) then st
             else (case dict_get spec rid of
               None \<Rightarrow> st
             | Some placeholders \<Rightarrow>
                 if placeholders = [] then st
                 else let toks = take (length placeholders) (snd x);
                          (adv, s1) = should_advance env i s;
                          valid = (if adv then validate_tokens env (objs s1 i) toks else toks);
                          n_bad = int (length placeholders) - int (length valid);
                          padded = valid @ replicate (nat n_bad) (-1)
                      in (dict_set rid padded spec, if n_bad = 0 then invalid else dict_set rid n_bad invalid, s1)))"

definition update_draft_token_ids_in_output ::
  "sched_env \<Rightarrow> string list \<Rightarrow> int list list \<Rightarrow> scheduler_output \<Rightarrow> scheduler \<Rightarrow> scheduler_output \<times> scheduler" where
  "update_draft_token_ids_in_output env ids drafts so s =
     (let (spec, invalid, s1) = fold (draft_in_output_step env) (zip ids drafts) (scheduled_spec_decode_tokens so, [], s)
      in (so\<lparr>scheduled_spec_decode_tokens := spec, num_invalid_spec_tokens := Some invalid\<rparr>, s1))"

text \<open>The rows of the grammar bitmask.\<close>

definition get_grammar_bitmask_ids :: "scheduler_output \<Rightarrow> scheduler \<Rightarrow> string list option" where
  "get_grammar_bitmask_ids so s =
     (if \<not> has_structured_output_requests so then None
      else let ids = filter (\<lambda>rid. case dict_get (requests_dict s) rid of
                               None \<Rightarrow> False
                             | Some i \<Rightarrow> structured_output_request (objs s i) \<and> \<not> is_prefill_chunk (objs s i))
                       (map fst (num_scheduled_tokens so))
           in if ids = [] then None else Some ids)"

section \<open>Finishing and adding requests\<close>

datatype request_ids = One_id string | Id_set "string list" | Every_id

definition ids_of_request :: "request_ids \<Rightarrow> scheduler \<Rightarrow> string list" where
  "ids_of_request x s = (case x of One_id rid \<Rightarrow> [rid] | Id_set ids \<Rightarrow> ids | Every_id \<Rightarrow> map fst (requests_dict s))"

record finish_vars =
  f_valid :: "nat list"
  f_running :: "nat list"
  f_waiting :: "nat list"
  f_streaming :: int

definition collect_finish_step :: "scheduler \<Rightarrow> string \<Rightarrow> finish_vars \<Rightarrow> finish_vars" where
  "collect_finish_step s rid f =
     (case dict_get (requests_dict s) rid of
        None \<Rightarrow> f
      | Some i \<Rightarrow>
          let st = status (objs s i)
          in if is_finished st then f
             else let f1 = f\<lparr>f_valid := f_valid f @ [i]\<rparr>
                  in if st = RUNNING then f1\<lparr>f_running := f_running f @ [i]\<rparr>
                     else f1\<lparr>f_waiting := f_waiting f @ [i],
                             f_streaming := (if st = WAITING_FOR_STREAMING_REQ then f_streaming f - 1 else f_streaming f)\<rparr>)"

definition drop_finished :: "finish_vars \<Rightarrow> scheduler \<Rightarrow> scheduler" where
  "drop_finished f s =
     (let s1 = s\<lparr>num_waiting_for_streaming_input := f_streaming f,
                 running := (if f_running f = [] then running s else remove_all (running s) (f_running f))\<rparr>
      in if f_waiting f = [] then s1
         else s1\<lparr>waiting := q_remove_all (map (objs s) (f_waiting f)) (waiting s1),
                 skipped_waiting := q_remove_all (map (objs s) (f_waiting f)) (skipped_waiting s1)\<rparr>)"

text \<open>Without a connector no request has finished receiving, so the blocks of one that waits stay.\<close>

definition finish_one :: "sched_env \<Rightarrow> request_status \<Rightarrow> nat \<Rightarrow> scheduler \<Rightarrow> scheduler result" where
  "finish_one env st i s =
     free_request env i (status (objs s i) = WAITING_FOR_REMOTE_KVS) (set_obj i (\<lambda>r. r\<lparr>status := st\<rparr>) s)"

definition finish_requests ::
  "sched_env \<Rightarrow> request_ids \<Rightarrow> request_status \<Rightarrow> scheduler \<Rightarrow> ((string \<times> int) list \<times> scheduler) result" where
  "finish_requests env ids st s =
     bindE (guardE (is_finished st) AssertionError) (\<lambda>_.
       let f = fold (collect_finish_step s) (ids_of_request ids s)
                 \<lparr>f_valid = [], f_running = [], f_waiting = [], f_streaming = num_waiting_for_streaming_input s\<rparr>
       in bindE (foldE (finish_one env st) (f_valid f) (drop_finished f s)) (\<lambda>s1.
            Inr (map (\<lambda>i. (request_id (objs s1 i), client_index (objs s1 i))) (f_valid f), s1)))"

definition add_request :: "sched_env \<Rightarrow> request \<Rightarrow> scheduler \<Rightarrow> scheduler io" where
  "add_request env r s =
     (case dict_get (requests_dict s) (request_id r) of
        Some i \<Rightarrow>
          (let upd = streaming_update_from_request r
           in if status (objs s i) \<noteq> WAITING_FOR_STREAMING_REQ
              then Some (case streaming_queue (objs s i) of
                           None \<Rightarrow> Inl AssertionError
                         | Some q \<Rightarrow> Inr (set_obj i (\<lambda>r. r\<lparr>streaming_queue := Some (q @ [upd])\<rparr>) s))
              else case upd of
                     Some u \<Rightarrow> update_request_as_session env i u s
                   | None \<Rightarrow> Some (bindE (finish_requests env (One_id (request_id r)) FINISHED_ABORTED s) (\<lambda>(_, s1). Inr s1)))
      | None \<Rightarrow>
          let r1 = (if resumable r then r\<lparr>streaming_queue := Some []\<rparr> else r);
              s1 = enqueue_waiting_request (obj_id r) (s\<lparr>objs := (objs s)(obj_id r := r1)\<rparr>)
          in retO (s1\<lparr>requests_dict := dict_set (request_id r) (obj_id r) (requests_dict s1)\<rparr>))"

section \<open>Resets, pausing and counts\<close>

definition preempt_last_step :: "sched_env \<Rightarrow> nat \<Rightarrow> scheduler \<Rightarrow> scheduler result" where
  "preempt_last_step env i s =
     bindE (preempt_request env i (s\<lparr>running := butlast (running s)\<rparr>)) (\<lambda>s1.
       Inr (set_obj i (\<lambda>r. r\<lparr>num_output_placeholders := 0, discard_latest_async_tokens := True\<rparr>) s1))"

definition preempt_all :: "sched_env \<Rightarrow> scheduler \<Rightarrow> scheduler result" where
  "preempt_all env s =
     bindE (foldE (preempt_last_step env) (rev (running s)) s) (\<lambda>s1. Inr (s1\<lparr>prev_step_scheduled_req_ids := {}\<rparr>))"

text \<open>Resetting the connector's cache fails, as there is none.\<close>

definition sched_reset_prefix_cache :: "sched_env \<Rightarrow> bool \<Rightarrow> bool \<Rightarrow> scheduler \<Rightarrow> (bool \<times> scheduler) result" where
  "sched_reset_prefix_cache env reset_running reset_connector s =
     bindE (if reset_running then preempt_all env s else Inr s) (\<lambda>s1.
     bindE (km_reset_prefix_cache (kv_manager s1)) (\<lambda>(ok, km).
       if reset_running \<and> \<not> ok then Inl RuntimeError
       else Inr (ok \<and> \<not> reset_connector, s1\<lparr>kv_manager := km\<rparr>)))"

definition reset_encoder_cache :: "scheduler \<Rightarrow> scheduler" where
  "reset_encoder_cache s = s\<lparr>encoder_manager := enc_reset (encoder_manager s)\<rparr>"

definition set_pause_state :: "pause_state \<Rightarrow> scheduler \<Rightarrow> scheduler" where
  "set_pause_state p s = s\<lparr>pause_state := p\<rparr>"

definition q_len :: "request_queue \<Rightarrow> int" where
  "q_len q = int (length (queue_reqs q))"

definition get_request_counts :: "scheduler \<Rightarrow> int \<times> int" where
  "get_request_counts s = (int (length (running s)), q_len (waiting s) + q_len (skipped_waiting s))"

definition get_num_unfinished_requests :: "scheduler \<Rightarrow> int" where
  "get_num_unfinished_requests s =
     (if pause_state s = PAUSED_ALL then 0
      else if pause_state s = PAUSED_NEW then int (length (running s))
      else q_len (waiting s) + q_len (skipped_waiting s) - num_waiting_for_streaming_input s + int (length (running s)))"

definition has_unfinished_requests :: "scheduler \<Rightarrow> bool" where
  "has_unfinished_requests s \<longleftrightarrow> 0 < get_num_unfinished_requests s"

definition has_finished_requests :: "scheduler \<Rightarrow> bool" where
  "has_finished_requests s \<longleftrightarrow> finished_req_ids s \<noteq> {}"

definition has_requests :: "scheduler \<Rightarrow> bool" where
  "has_requests s \<longleftrightarrow> has_unfinished_requests s \<or> has_finished_requests s"

end
