(* ===== verification/Placement.thy ===== *)
theory Placement
  imports Scheduler_Update
begin

text \<open>
  Where the requests of a scheduler are. A live request (one in the dict of requests) is in
  exactly one place: in the running list with status \<open>RUNNING\<close>, or in one of the two queues with
  the status of a request that waits. \<open>placed E s\<close> says this of a state in which the ids of \<open>E\<close>
  are on their way from one place to another; the lemmas say how each elementary change moves
  an id. The theory also holds what the queues do to the bag of their requests.
\<close>

section \<open>Queues as bags\<close>

lemma mset_heappush [simp]: "mset (heappush lt x h) = add_mset x (mset h)"
  by (simp add: heappush_def siftdown_def mset_siftdown_loop)

lemma heappop_bag: "heappop lt h = Inr (x, h') \<Longrightarrow> h \<noteq> [] \<and> x = h ! 0 \<and> mset h = add_mset x (mset h')"
proof (cases h rule: rev_cases)
  case (snoc ys y)
  assume run: "heappop lt h = Inr (x, h')"
  show ?thesis
  proof (cases ys)
    case Nil
    then show ?thesis using run snoc by (auto simp: heappop_def)
  next
    case (Cons z zs)
    then show ?thesis using run snoc by (auto simp: heappop_def Let_def mset_siftup)
  qed
qed (simp add: heappop_def)

lemma prio_iter_bag: "prio_iter q = Inr rs \<Longrightarrow> mset rs = mset q"
proof (induction q arbitrary: rs rule: prio_iter.induct)
  case (1 q)
  show ?case
  proof (cases "q = []")
    case False
    with 1(2) obtain r q' rs' where "heappop request_less q = Inr (r, q')" "prio_iter q' = Inr rs'" "rs = r # rs'"
      by (subst (asm) prio_iter.simps) (auto split: sum.splits)
    then show ?thesis using 1(1) [OF False] heappop_bag by fastforce
  qed (use 1(2) in \<open>simp add: prio_iter.simps\<close>)
qed

lemma mset_fold_heappush: "mset (fold prio_add_request rs q) = mset rs + mset q"
  by (induction rs arbitrary: q) (auto simp: prio_add_request_def)

lemma mset_fold_Cons: "mset (fold Cons rs q) = mset rs + mset q"
  by (induction rs arbitrary: q) auto

lemma q_add_bag [simp]: "mset (queue_reqs (q_add r q)) = add_mset r (mset (queue_reqs q))"
  by (cases q) (simp_all add: fcfs_add_request_def prio_add_request_def)

lemma q_prepend_bag [simp]: "mset (queue_reqs (q_prepend r q)) = add_mset r (mset (queue_reqs q))"
  by (cases q) (simp_all add: fcfs_prepend_request_def prio_prepend_request_def prio_add_request_def)

lemma q_prepend_all_bag [simp]: "mset (queue_reqs (q_prepend_all rs q)) = mset rs + mset (queue_reqs q)"
  by (cases q) (simp_all add: fcfs_prepend_requests_def prio_prepend_requests_def mset_fold_Cons mset_fold_heappush)

lemma q_remove_all_bag [simp]:
  "mset (queue_reqs (q_remove_all rs q)) = filter_mset (\<lambda>r. obj_id r \<notin> obj_id ` set rs) (mset (queue_reqs q))"
  by (cases q) (simp_all add: fcfs_remove_requests_def prio_remove_requests_def rq_order.heapify_heap)

lemma q_iter_bag: "q_iter q = Inr rs \<Longrightarrow> mset rs = mset (queue_reqs q)"
  by (cases q) (auto simp: fcfs_iter_def prio_iter_bag)

text \<open>What is popped is what was peeked at.\<close>

lemma q_pop_bag:
  "q_pop q = Inr (r, q') \<Longrightarrow> queue_reqs q \<noteq> [] \<and> r = queue_reqs q ! 0 \<and> mset (queue_reqs q) = add_mset r (mset (queue_reqs q'))"
  by (cases q) (auto simp: fcfs_pop_request_def prio_pop_request_def elim!: bindE_eq_InrE dest: heappop_bag split: list.splits if_splits)

lemma q_pop_length: "q_pop q = Inr (r, q') \<Longrightarrow> length (queue_reqs q) = Suc (length (queue_reqs q'))"
  using q_pop_bag [of q r q'] by (metis size_add_mset size_mset)

lemma q_peek_first: "q_peek q = Inr r \<longleftrightarrow> queue_reqs q \<noteq> [] \<and> r = queue_reqs q ! 0"
  by (cases q) (auto simp: fcfs_peek_request_def prio_peek_request_def)

lemma sync_queue_reqs [simp]: "queue_reqs (sync_queue i r q) = map (\<lambda>x. if obj_id x = i then r else x) (queue_reqs q)"
  by (cases q) auto

lemma set_q_ops [simp]:
  "set (queue_reqs (q_add r q)) = insert r (set (queue_reqs q))"
  "set (queue_reqs (q_prepend r q)) = insert r (set (queue_reqs q))"
  "set (queue_reqs (q_prepend_all rs q)) = set rs \<union> set (queue_reqs q)"
  "set (queue_reqs (q_remove_all rs q)) = {x \<in> set (queue_reqs q). obj_id x \<notin> obj_id ` set rs}"
  using q_add_bag [of r q] q_prepend_bag [of r q] q_prepend_all_bag [of rs q] q_remove_all_bag [of rs q]
  by (simp_all flip: set_mset_mset)

section \<open>Frames\<close>

lemma set_obj_sel [simp]:
  "running (set_obj i f s) = running s" "requests_dict (set_obj i f s) = requests_dict s" "kv_manager (set_obj i f s) = kv_manager s"
  "encoder_manager (set_obj i f s) = encoder_manager s" "conf (set_obj i f s) = conf s" "pause_state (set_obj i f s) = pause_state s"
  "objs (set_obj i f s) = (objs s)(i := f (objs s i))"
  "waiting (set_obj i f s) = sync_queue i (f (objs s i)) (waiting s)"
  "skipped_waiting (set_obj i f s) = sync_queue i (f (objs s i)) (skipped_waiting s)"
  by (simp_all add: set_obj_def Let_def)

section \<open>Places\<close>

abbreviation ids_in :: "request_queue \<Rightarrow> nat multiset" where
  "ids_in q \<equiv> image_mset obj_id (mset (queue_reqs q))"

definition waiting_status :: "request_status \<Rightarrow> bool" where
  "waiting_status st \<longleftrightarrow> st \<in> {WAITING, WAITING_FOR_STRUCTURED_OUTPUT_GRAMMAR, WAITING_FOR_STREAMING_REQ, PREEMPTED}"

definition copies_ok :: "(nat \<Rightarrow> request) \<Rightarrow> request_queue \<Rightarrow> bool" where
  "copies_ok ob q \<longleftrightarrow> (\<forall>r \<in> set (queue_reqs q). r = ob (obj_id r))"

definition named :: "(string \<times> nat) list \<Rightarrow> (nat \<Rightarrow> request) \<Rightarrow> bool" where
  "named d ob \<longleftrightarrow> dict_wf d \<and> (\<forall>(rid, i) \<in> set d. obj_id (ob i) = i \<and> request_id (ob i) = rid)"

definition placed :: "nat multiset \<Rightarrow> scheduler \<Rightarrow> bool" where
  "placed E s \<longleftrightarrow> named (requests_dict s) (objs s)
     \<and> mset (running s) + ids_in (waiting s) + ids_in (skipped_waiting s) + E = mset (map snd (requests_dict s))
     \<and> copies_ok (objs s) (waiting s) \<and> copies_ok (objs s) (skipped_waiting s)
     \<and> (\<forall>i \<in> set (running s). status (objs s i) = RUNNING)
     \<and> (\<forall>r \<in> set (queue_reqs (waiting s)) \<union> set (queue_reqs (skipped_waiting s)). waiting_status (status (objs s (obj_id r))))"

lemma placed_frame [simp]:
  "placed E (s\<lparr>kv_manager := km\<rparr>) = placed E s" "placed E (s\<lparr>encoder_manager := e\<rparr>) = placed E s"
  "placed E (s\<lparr>finished_req_ids := x\<rparr>) = placed E s" "placed E (s\<lparr>finished_req_ids_dict := y\<rparr>) = placed E s"
  "placed E (s\<lparr>prev_step_scheduled_req_ids := x\<rparr>) = placed E s" "placed E (s\<lparr>pause_state := p\<rparr>) = placed E s"
  "placed E (s\<lparr>num_waiting_for_streaming_input := n\<rparr>) = placed E s"
  by (simp_all add: placed_def)

lemma placed_run_frame [simp]:
  "placed E (s\<lparr>kv_manager := km, running := X\<rparr>) = placed E (s\<lparr>running := X\<rparr>)"
  "placed E (s\<lparr>encoder_manager := e, running := X\<rparr>) = placed E (s\<lparr>running := X\<rparr>)"
  "placed E (s\<lparr>finished_req_ids := a, running := X\<rparr>) = placed E (s\<lparr>running := X\<rparr>)"
  "placed E (s\<lparr>finished_req_ids_dict := b, running := X\<rparr>) = placed E (s\<lparr>running := X\<rparr>)"
  "placed E (s\<lparr>num_waiting_for_streaming_input := n, running := X\<rparr>) = placed E (s\<lparr>running := X\<rparr>)"
  by (simp_all add: placed_def)

lemma named_distinct:
  assumes "named d ob" shows "distinct (map snd d)"
proof -
  have "inj_on snd (set d)"
  proof (rule inj_onI)
    fix x y assume xy: "x \<in> set d" "y \<in> set d" "snd x = snd y"
    have "request_id (ob (snd x)) = fst x" "request_id (ob (snd y)) = fst y"
      using assms xy(1,2) by (auto simp: named_def)
    then show "x = y" using xy(3) by (metis prod.expand)
  qed
  moreover have "distinct d" using assms by (simp add: named_def dict_wf_def distinct_map)
  ultimately show ?thesis by (simp add: distinct_map)
qed

lemma namedD: "named d ob \<Longrightarrow> i \<in> snd ` set d \<Longrightarrow> obj_id (ob i) = i \<and> dict_get d (request_id (ob i)) = Some i"
  by (force simp: named_def dict_get_wf)

text \<open>Every id is in one place only.\<close>

lemma placedD:
  assumes "placed E s"
  shows "named (requests_dict s) (objs s)"
    "mset (running s) + ids_in (waiting s) + ids_in (skipped_waiting s) + E = mset (map snd (requests_dict s))"
    "copies_ok (objs s) (waiting s)" "copies_ok (objs s) (skipped_waiting s)"
    "i \<in> set (running s) \<Longrightarrow> status (objs s i) = RUNNING"
    "r \<in> set (queue_reqs (waiting s)) \<union> set (queue_reqs (skipped_waiting s)) \<Longrightarrow> waiting_status (status (objs s (obj_id r)))"
  using assms by (auto simp: placed_def)

lemma placed_count:
  assumes "placed E s"
  shows "count (mset (running s)) i + count (ids_in (waiting s)) i + count (ids_in (skipped_waiting s)) i + count E i \<le> 1"
proof -
  have "count (mset (map snd (requests_dict s))) i \<le> 1"
    using named_distinct [OF placedD(1) [OF assms]] by (simp add: distinct_count_atmost_1)
  then show ?thesis using placedD(2) [OF assms] by (metis count_union)
qed

lemma placed_disjoint:
  assumes "placed E s"
  shows "distinct (running s)" "i \<in> set (running s) \<Longrightarrow> i \<notin># ids_in (waiting s) + ids_in (skipped_waiting s) + E"
    "i \<in># E \<Longrightarrow> i \<notin># ids_in (waiting s) + ids_in (skipped_waiting s)" "i \<in># E \<Longrightarrow> i \<notin> set (running s)"
proof -
  note c = placed_count [OF assms]
  have pos: "0 < count (mset (running s)) a \<longleftrightarrow> a \<in> set (running s)" for a by (simp only: count_greater_zero_iff set_mset_mset)
  show "distinct (running s)" unfolding distinct_count_atmost_1
  proof (intro allI)
    fix a show "count (mset (running s)) a = (if a \<in> set (running s) then 1 else 0)"
    proof (cases "a \<in> set (running s)")
      case True
      then have "0 < count (mset (running s)) a" using pos by blast
      then have "count (mset (running s)) a = 1" using c [of a] by linarith
      then show ?thesis using True by (simp only: if_True)
    next
      case False
      then show ?thesis by (metis count_eq_zero_iff set_mset_mset)
    qed
  qed
  show "i \<notin># ids_in (waiting s) + ids_in (skipped_waiting s) + E" if "i \<in> set (running s)"
    using c [of i] pos [of i] that unfolding not_in_iff count_union by linarith
  show "i \<notin># ids_in (waiting s) + ids_in (skipped_waiting s)" if "i \<in># E"
    using c [of i] that count_greater_zero_iff [of E i] unfolding not_in_iff count_union by linarith
  show "i \<notin> set (running s)" if "i \<in># E"
    using c [of i] that count_greater_zero_iff [of E i] unfolding pos [symmetric] by linarith
qed

lemma placed_live:
  assumes "placed E s" "i \<in> set (running s) \<or> i \<in># ids_in (waiting s) \<or> i \<in># ids_in (skipped_waiting s) \<or> i \<in># E"
  shows "obj_id (objs s i) = i" "dict_get (requests_dict s) (request_id (objs s i)) = Some i" "i \<in> snd ` set (requests_dict s)"
proof -
  have "i \<in># mset (running s) + ids_in (waiting s) + ids_in (skipped_waiting s) + E" using assms(2) by auto
  then have "i \<in># mset (map snd (requests_dict s))" using placedD(2) [OF assms(1)] by simp
  then show m: "i \<in> snd ` set (requests_dict s)" by simp
  show "obj_id (objs s i) = i" "dict_get (requests_dict s) (request_id (objs s i)) = Some i"
    using namedD [OF placedD(1) [OF assms(1)] m] by simp_all
qed

text \<open>The elementary moves.\<close>

lemma placed_take_run:
  assumes "placed E s" "i \<in> set (running s)" shows "placed (add_mset i E) (s\<lparr>running := remove1 i (running s)\<rparr>)"
proof -
  have "mset (running s) = add_mset i (mset (remove1 i (running s)))" using assms(2) by simp
  then show ?thesis using assms(1) set_remove1_subset [of i "running s"] by (auto simp: placed_def simp del: mset_remove1)
qed

lemma placed_put_run:
  "placed (add_mset i E) s \<Longrightarrow> status (objs s i) = RUNNING \<Longrightarrow> placed E (s\<lparr>running := running s @ [i]\<rparr>)"
  by (auto simp: placed_def)

lemma placed_set_obj:
  assumes "placed E s" "obj_id (f (objs s i)) = obj_id (objs s i)" "request_id (f (objs s i)) = request_id (objs s i)"
    and "i \<in> set (running s) \<Longrightarrow> status (f (objs s i)) = RUNNING"
    and "i \<in># ids_in (waiting s) + ids_in (skipped_waiting s) \<Longrightarrow> waiting_status (status (f (objs s i)))"
  shows "placed E (set_obj i f s)"
proof -
  note p = placedD [OF assms(1)]
  have "obj_id (objs s i) = i" if "i \<in> snd ` set (requests_dict s)" using namedD [OF p(1) that] by simp
  moreover have "i \<in> snd ` set (requests_dict s)" if "r \<in> set (queue_reqs (waiting s)) \<union> set (queue_reqs (skipped_waiting s))" "obj_id r = i" for r
    using that by (intro placed_live(3) [OF assms(1)]) auto
  ultimately have o: "obj_id (f (objs s i)) = i" if "r \<in> set (queue_reqs (waiting s)) \<union> set (queue_reqs (skipped_waiting s))" "obj_id r = i" for r
    using that assms(2) by metis
  have ids: "ids_in (sync_queue i (f (objs s i)) q) = ids_in q" if "set (queue_reqs q) \<subseteq> set (queue_reqs (waiting s)) \<union> set (queue_reqs (skipped_waiting s))" for q
  proof -
    have "map obj_id (queue_reqs (sync_queue i (f (objs s i)) q)) = map obj_id (queue_reqs q)" using o that by auto
    then show ?thesis by (metis mset_map)
  qed
  have "named (requests_dict s) ((objs s)(i := f (objs s i)))"
    using p(1) assms(2,3) unfolding named_def by auto
  moreover have "copies_ok ((objs s)(i := f (objs s i))) (sync_queue i (f (objs s i)) (waiting s))"
    "copies_ok ((objs s)(i := f (objs s i))) (sync_queue i (f (objs s i)) (skipped_waiting s))"
    using p(3,4) o by (auto simp: copies_ok_def)
  moreover have "waiting_status (status (((objs s)(i := f (objs s i))) (obj_id r)))"
    if "r \<in> set (queue_reqs (sync_queue i (f (objs s i)) (waiting s))) \<union> set (queue_reqs (sync_queue i (f (objs s i)) (skipped_waiting s)))" for r
    using that p(6) o assms(5) by (auto split: if_splits)
  ultimately show ?thesis using p(2,5) assms(4) ids [of "waiting s"] ids [of "skipped_waiting s"] by (simp add: placed_def)
qed

text \<open>A change that leaves identity and status alone, or that concerns an id on its way.\<close>

lemma placed_set_same:
  assumes "placed E s" "obj_id (f (objs s i)) = obj_id (objs s i)" "request_id (f (objs s i)) = request_id (objs s i)"
    "status (f (objs s i)) = status (objs s i)"
  shows "placed E (set_obj i f s)"
proof (rule placed_set_obj [where f = f, OF assms(1-3)])
  show "i \<in># ids_in (waiting s) + ids_in (skipped_waiting s) \<Longrightarrow> waiting_status (status (f (objs s i)))"
    using placedD(6) [OF assms(1)] assms(4) by auto
qed (use placedD(5) [OF assms(1)] assms(4) in simp)

lemma placed_set_free:
  assumes "placed E s" "i \<in># E" "obj_id (f (objs s i)) = obj_id (objs s i)" "request_id (f (objs s i)) = request_id (objs s i)"
  shows "placed E (set_obj i f s)"
  by (rule placed_set_obj [where f = f, OF assms(1,3,4)]) (use placed_disjoint(3,4) [OF assms(1,2)] in auto)

lemma placed_take_queue:
  assumes "placed E s" "q_pop (get_queue qn s) = Inr (r, q)"
  shows "placed (add_mset (obj_id r) E) (set_queue qn q s)" "r = objs s (obj_id r)" "q_peek (get_queue qn s) = Inr r"
    "obj_id r \<in># ids_in (get_queue qn s)"
proof -
  note b = q_pop_bag [OF assms(2)]
  then show "q_peek (get_queue qn s) = Inr r" by (simp add: q_peek_first)
  have sub: "set (queue_reqs (get_queue qn s)) = insert r (set (queue_reqs q))" using b by (metis set_mset_add_mset_insert set_mset_mset)
  then show "r = objs s (obj_id r)" using placedD(3,4) [OF assms(1)] by (cases qn) (auto simp: copies_ok_def)
  show "obj_id r \<in># ids_in (get_queue qn s)" using sub by simp
  show "placed (add_mset (obj_id r) E) (set_queue qn q s)"
    using assms(1) b sub by (cases qn) (auto simp: placed_def copies_ok_def)
qed

lemma placed_put:
  assumes "placed (add_mset i E) s" "waiting_status (status (objs s i))"
  shows "placed E (s\<lparr>waiting := q_prepend (objs s i) (waiting s)\<rparr>)" "placed E (s\<lparr>waiting := q_add (objs s i) (waiting s)\<rparr>)"
    "placed E (s\<lparr>skipped_waiting := q_add (objs s i) (skipped_waiting s)\<rparr>)"
  using placed_live(1) [OF assms(1), of i] assms by (auto simp: placed_def copies_ok_def)

lemma dict_pop_values:
  assumes "dict_wf d" "dict_get d k = Some v" shows "mset (map snd d) = add_mset v (mset (map snd (dict_pop k d)))"
  using assms
proof (induction d)
  case (Cons x d)
  show ?case
  proof (cases "fst x = k")
    case True
    then have "dict_pop k d = d" using Cons.prems(1) by (intro dict_pop_absent) (auto simp: dict_wf_def)
    then show ?thesis using True Cons.prems(2) by (cases x) (auto simp: dict_pop_def dict_get_def)
  next
    case False
    then show ?thesis using Cons by (cases x) (auto simp: dict_pop_def dict_get_def dict_wf_def)
  qed
qed simp

lemma placed_forget:
  assumes "placed (add_mset i E) s"
  shows "placed E (s\<lparr>requests_dict := dict_pop (request_id (objs s i)) (requests_dict s)\<rparr>)"
proof -
  note p = placedD [OF assms]
  have g: "dict_get (requests_dict s) (request_id (objs s i)) = Some i" using placed_live(2) [OF assms] by simp
  have "dict_wf (requests_dict s)" using p(1) by (simp add: named_def)
  from dict_pop_values [OF this g] show ?thesis
    using assms by (auto simp: placed_def named_def set_dict_pop)
qed

end
