(* ===== verification/Scheduler_Loops.thy ===== *)
theory Scheduler_Loops
  imports Placement
begin

text \<open>
  What one scheduling step keeps. \<open>accounts\<close> ties the token budget to the tokens handed out,
  \<open>step_placed\<close> says where the requests are while the step moves them, and the invariants of the
  three loops (finding room for a request, the running requests, the waiting requests) are built
  from them. Every loop is an instance of \<open>guarded_loop\<close> and of \<open>bounded_loop\<close>.
\<close>

section \<open>The tokens of a request\<close>

lemma choose_inputs_step:
  assumes "choose_inputs c r k sh ((i, f) # fs) st = Inr st'" "0 \<le> ch_new_toks st" "0 \<le> sh"
  obtains (go_on) st1 where "choose_inputs c r k sh fs st1 = Inr st'" "ch_new_toks st1 = ch_new_toks st"
    | (leave) "0 \<le> ch_new_toks st'" "ch_new_toks st' \<le> ch_new_toks st"
proof (rule ccontr)
  assume "\<not> thesis"
  then have n: "\<And>st1. choose_inputs c r k sh fs st1 = Inr st' \<Longrightarrow> ch_new_toks st1 \<noteq> ch_new_toks st"
    and l: "\<not> (0 \<le> ch_new_toks st' \<and> ch_new_toks st' \<le> ch_new_toks st)" using go_on leave by blast+
  show False
    using assms(1) unfolding choose_inputs.simps Let_def
    by (rule rev_mp, intro impI, use l assms(2,3) in \<open>auto elim!: bindE_eq_InrE dest!: n split: if_split_asm\<close>)
qed

lemma choose_inputs_tokens:
  "\<lbrakk>choose_inputs c r k sh fs st = Inr st'; 0 \<le> ch_new_toks st; 0 \<le> sh\<rbrakk>
   \<Longrightarrow> 0 \<le> ch_new_toks st' \<and> ch_new_toks st' \<le> ch_new_toks st"
proof (induction fs arbitrary: st)
  case (Cons x fs)
  obtain i f where x: "x = (i, f)" by force
  show ?case
  proof (rule choose_inputs_step [OF Cons.prems(1) [unfolded x] Cons.prems(2,3)])
    fix st1 assume "choose_inputs c r k sh fs st1 = Inr st'" "ch_new_toks st1 = ch_new_toks st"
    then show ?thesis using Cons.IH [of st1] Cons.prems(2,3) by simp
  qed simp
qed simp

lemma plan_inputs_tokens:
  assumes "plan_inputs c r k n b e = Inr (ins, n', b', e')" "0 \<le> n" shows "0 \<le> n' \<and> n' \<le> n"
  using assms choose_inputs_tokens [of c r k "if sc_use_eagle c then 1 else 0" "enumerate 0 (mm_features r)"]
  by (fastforce simp: plan_inputs_def try_schedule_encoder_inputs_def elim!: bindE_eq_InrE split: if_splits)

lemma mamba_split_tokens:
  assumes "mamba_block_aligned_split c r n loc ext = Inr n'" "0 \<le> n" "0 < sc_block_size c" shows "0 \<le> n' \<and> n' \<le> n"
proof -
  have "n div sc_block_size c * sc_block_size c \<le> n" using int_le_div_iff [OF assms(3), of "n div sc_block_size c" n] by simp
  moreover have "0 \<le> n div sc_block_size c * sc_block_size c" using assms(2,3) by (simp add: pos_imp_zdiv_nonneg_iff)
  ultimately show ?thesis using assms(1,2) by (auto simp: mamba_block_aligned_split_def Let_def elim!: bindE_eq_InrE split: if_splits)
qed

text \<open>A running request has not computed more than it has, and not more than the model takes.\<close>

definition tokens_ok :: "sched_config \<Rightarrow> request \<Rightarrow> bool" where
  "tokens_ok c r \<longleftrightarrow> num_computed_tokens r \<le> num_tokens_with_spec r + num_output_placeholders r
     \<and> num_computed_tokens r < sc_max_model_len c"

definition config_ok :: "sched_config \<Rightarrow> bool" where
  "config_ok c \<longleftrightarrow> need_mamba_block_aligned_split c \<longrightarrow> 0 < sc_block_size c"

lemma plan_running_spec:
  assumes "plan_running i st = Inr (ins, n, eb, st1)" "conf (sch st) = c" "config_ok c" "tokens_ok c (objs (sch st) i)" "0 \<le> token_budget st"
  shows "0 \<le> n \<and> n \<le> token_budget st \<and> n \<le> running_tokens c (objs (sch st) i) (token_budget st) \<and> (\<exists>e. st1 = on_sch (set_enc e) st)"
proof -
  let ?r = "objs (sch st) i"
  let ?n = "running_tokens c ?r (token_budget st)"
  have n: "0 \<le> ?n" "?n \<le> token_budget st" using assms(4,5) unfolding running_tokens_def tokens_ok_def Let_def by (simp_all split: if_split)
  let ?k = "\<lambda>(ins, n, eb, e). bindE (if need_mamba_block_aligned_split c then mamba_block_aligned_split c ?r n 0 0 else Inr n)
      (\<lambda>n'. Inr (ins, n', eb, on_sch (set_enc e) st))"
  have "bindE (plan_inputs c ?r (num_computed_tokens ?r) ?n (enc_budget st) (encoder_manager (sch st))) ?k = Inr (ins, n, eb, st1)"
    using assms(1) unfolding plan_running_def Let_def assms(2) .
  then obtain y where y: "plan_inputs c ?r (num_computed_tokens ?r) ?n (enc_budget st) (encoder_manager (sch st)) = Inr y" "?k y = Inr (ins, n, eb, st1)"
    by (elim bindE_eq_InrE)
  obtain ins' n1 eb' e where yy: "y = (ins', n1, eb', e)" by (cases y)
  note p = y(1) [unfolded yy]
  have m: "(if need_mamba_block_aligned_split c then mamba_block_aligned_split c ?r n1 0 0 else Inr n1) = Inr n" and st1: "st1 = on_sch (set_enc e) st"
    using y(2) unfolding yy prod.case by (elim bindE_eq_InrE, simp only: sum.inject prod.inject)+
  have n1: "0 \<le> n1" "n1 \<le> ?n" using plan_inputs_tokens [OF p n(1)] by simp_all
  have "0 \<le> n \<and> n \<le> n1"
  proof (cases "need_mamba_block_aligned_split c")
    case True
    then show ?thesis using m mamba_split_tokens [OF _ n1(1)] assms(3) by (simp add: config_ok_def)
  qed (use m n1(1) in simp)
  then have "0 \<le> n" "n \<le> token_budget st" "n \<le> ?n" using n n1 by linarith+
  then show ?thesis using st1 by blast
qed

lemma plan_waiting_spec:
  assumes "plan_waiting i loc k st = Inr (plan, st1)" "conf (sch st) = c" "config_ok c"
  shows "(\<exists>e. st1 = on_sch (set_enc e) st) \<and> (case plan of None \<Rightarrow> True | Some (ins, n, eb) \<Rightarrow> 0 < n \<and> n \<le> token_budget st \<and> k + n \<le> num_tokens (objs (sch st) i))"
proof (cases "\<not> enable_chunked_prefill c \<and> token_budget st < waiting_tokens c (objs (sch st) i) k")
  case True
  then have "st1 = st" "plan = None" using assms(1,2) by (simp_all add: plan_waiting_def Let_def)
  then show ?thesis by (intro conjI exI [of _ "encoder_manager (sch st)"]) simp_all
next
  case False
  let ?r = "objs (sch st) i"
  let ?n = "min (waiting_tokens c ?r k) (token_budget st)"
  let ?k = "\<lambda>(ins, n, eb, e). if has_encoder_inputs ?r \<and> n = 0 then Inr (None, on_sch (set_enc e) st)
         else if need_mamba_block_aligned_split c
         then bindE (mamba_block_aligned_split c ?r n loc 0) (\<lambda>n'.
                Inr (if n' = 0 then None else Some (ins, n', eb), on_sch (set_enc e) st))
         else Inr (Some (ins, n, eb), on_sch (set_enc e) st)"
  have "bindE (guardE (0 < ?n) AssertionError) (\<lambda>_. bindE (plan_inputs c ?r k ?n (enc_budget st) (encoder_manager (sch st))) ?k) = Inr (plan, st1)"
    using assms(1) False unfolding plan_waiting_def Let_def assms(2) by simp
  then obtain y where pos: "0 < ?n" and y: "plan_inputs c ?r k ?n (enc_budget st) (encoder_manager (sch st)) = Inr y" "?k y = Inr (plan, st1)"
    by (elim bindE_eq_InrE) simp
  obtain ins n1 eb e where yy: "y = (ins, n1, eb, e)" by (cases y)
  note p = y(1) [unfolded yy] and q = y(2) [unfolded yy prod.case]
  have n1: "0 \<le> n1" "n1 \<le> ?n" using plan_inputs_tokens [OF p] pos by simp_all
  have w: "waiting_tokens c ?r k \<le> num_tokens ?r - k" by (simp add: waiting_tokens_def Let_def)
  have n1': "n1 = ?n" if "\<not> has_encoder_inputs ?r" using p that by (simp add: plan_inputs_def)
  show ?thesis
  proof (cases "has_encoder_inputs ?r \<and> n1 = 0")
    case True
    then show ?thesis using q by auto
  next
    case F: False
    then have n1p: "0 < n1" using n1(1) n1' pos by (cases "has_encoder_inputs ?r") auto
    show ?thesis
    proof (cases "need_mamba_block_aligned_split c")
      case True
      then obtain n' where n': "mamba_block_aligned_split c ?r n1 loc 0 = Inr n'" "plan = (if n' = 0 then None else Some (ins, n', eb))" "st1 = on_sch (set_enc e) st"
        using q F by (auto elim!: bindE_eq_InrE)
      then show ?thesis using mamba_split_tokens [OF n'(1) n1(1)] assms(3) True n1(2) w by (auto simp: config_ok_def)
    next
      case False
      then show ?thesis using q F n1 n1p w by auto
    qed
  qed
qed

section \<open>Invariants of a step\<close>

abbreviation scheduled_reqs :: "step_vars \<Rightarrow> nat list" where
  "scheduled_reqs st \<equiv> run_reqs st @ new_reqs st @ resumed_reqs st"

definition accounts :: "int \<Rightarrow> step_vars \<Rightarrow> bool" where
  "accounts B st \<longleftrightarrow> dict_wf (sched_toks st) \<and> (\<forall>x \<in> set (sched_toks st). 0 < snd x)
     \<and> total_scheduled st + token_budget st = B \<and> 0 \<le> token_budget st
     \<and> distinct (scheduled_reqs st) \<and> set (scheduled_reqs st) \<subseteq> set (running (sch st))
     \<and> dict_keys (sched_toks st) = (\<lambda>i. request_id (objs (sch st) i)) ` set (scheduled_reqs st)"

text \<open>Requests the waiting loop has skipped are held back in a queue of their own.\<close>

definition step_placed :: "step_vars \<Rightarrow> bool" where
  "step_placed st \<longleftrightarrow> placed (ids_in (step_skipped st)) (sch st) \<and> copies_ok (objs (sch st)) (step_skipped st)
     \<and> (\<forall>r \<in> set (queue_reqs (step_skipped st)). waiting_status (status (objs (sch st) (obj_id r))))"

lemma accounts_frame [simp]:
  "accounts B (st\<lparr>sch := (sch st)\<lparr>kv_manager := km\<rparr>\<rparr>) = accounts B st" "accounts B (st\<lparr>sch := (sch st)\<lparr>encoder_manager := e\<rparr>\<rparr>) = accounts B st"
  "accounts B (st\<lparr>enc_sched := x\<rparr>) = accounts B st" "accounts B (st\<lparr>enc_budget := y\<rparr>) = accounts B st"
  "accounts B (st\<lparr>spec_sched := z\<rparr>) = accounts B st" "accounts B (st\<lparr>req_index := j\<rparr>) = accounts B st"
  "accounts B (st\<lparr>scheduled_loras := l\<rparr>) = accounts B st" "accounts B (st\<lparr>preempted_reqs := v\<rparr>) = accounts B st"
  by (simp_all add: accounts_def total_scheduled_def)

lemma step_placed_frame [simp]:
  "step_placed (st\<lparr>sch := (sch st)\<lparr>kv_manager := km\<rparr>\<rparr>) = step_placed st"
  "step_placed (st\<lparr>sch := (sch st)\<lparr>encoder_manager := e\<rparr>\<rparr>) = step_placed st"
  "step_placed (st\<lparr>enc_sched := x\<rparr>) = step_placed st" "step_placed (st\<lparr>enc_budget := y\<rparr>) = step_placed st"
  "step_placed (st\<lparr>spec_sched := z\<rparr>) = step_placed st" "step_placed (st\<lparr>req_index := j\<rparr>) = step_placed st"
  "step_placed (st\<lparr>scheduled_loras := l\<rparr>) = step_placed st" "step_placed (st\<lparr>preempted_reqs := v\<rparr>) = step_placed st"
  "step_placed (st\<lparr>run_reqs := v\<rparr>) = step_placed st" "step_placed (st\<lparr>new_reqs := v\<rparr>) = step_placed st"
  "step_placed (st\<lparr>resumed_reqs := v\<rparr>) = step_placed st" "step_placed (st\<lparr>sched_toks := t\<rparr>) = step_placed st"
  "step_placed (st\<lparr>token_budget := j\<rparr>) = step_placed st" "step_placed (st\<lparr>blocks_of := bl\<rparr>) = step_placed st"
  by (simp_all add: step_placed_def)

lemma accountsD:
  assumes "accounts B st"
  shows "dict_wf (sched_toks st)" "\<forall>x \<in> set (sched_toks st). 0 < snd x" "total_scheduled st + token_budget st = B" "0 \<le> token_budget st"
    "distinct (scheduled_reqs st)" "set (scheduled_reqs st) \<subseteq> set (running (sch st))"
    "dict_keys (sched_toks st) = (\<lambda>i. request_id (objs (sch st) i)) ` set (scheduled_reqs st)"
  using assms unfolding accounts_def by - ((elim conjE, assumption)+)

lemma accountsI:
  assumes "dict_wf (sched_toks st)" "\<forall>x \<in> set (sched_toks st). 0 < snd x" "total_scheduled st + token_budget st = B" "0 \<le> token_budget st"
    "distinct (scheduled_reqs st)" "set (scheduled_reqs st) \<subseteq> set (running (sch st))"
    "dict_keys (sched_toks st) = (\<lambda>i. request_id (objs (sch st) i)) ` set (scheduled_reqs st)"
  shows "accounts B st"
  unfolding accounts_def by (intro conjI assms)

lemma names_inj:
  assumes "placed E s" "i \<in> set (running s) \<or> i \<in># ids_in (waiting s) \<or> i \<in># ids_in (skipped_waiting s) \<or> i \<in># E"
    "j \<in> set (running s) \<or> j \<in># ids_in (waiting s) \<or> j \<in># ids_in (skipped_waiting s) \<or> j \<in># E"
    "request_id (objs s i) = request_id (objs s j)"
  shows "i = j"
proof -
  have "dict_get (requests_dict s) (request_id (objs s j)) = Some i" using placed_live(2) [OF assms(1,2)] unfolding assms(4) .
  then show ?thesis unfolding placed_live(2) [OF assms(1,3)] by (rule option.inject [THEN iffD1, symmetric])
qed

text \<open>A change of a request that keeps its names.\<close>

definition same_names :: "scheduler \<Rightarrow> scheduler \<Rightarrow> bool" where
  "same_names s s' \<longleftrightarrow> requests_dict s' = requests_dict s \<and> conf s' = conf s
     \<and> (\<forall>i. obj_id (objs s' i) = obj_id (objs s i) \<and> request_id (objs s' i) = request_id (objs s i))"

lemma accounts_names:
  "accounts B st \<Longrightarrow> same_names (sch st) s \<Longrightarrow> set (scheduled_reqs st) \<subseteq> set (running s) \<Longrightarrow> accounts B (st\<lparr>sch := s\<rparr>)"
  by (auto simp: accounts_def same_names_def total_scheduled_def)

lemma same_names_set_obj:
  "obj_id (f (objs s i)) = obj_id (objs s i) \<Longrightarrow> request_id (f (objs s i)) = request_id (objs s i) \<Longrightarrow> same_names s (set_obj i f s)"
  by (simp add: same_names_def)

text \<open>A request gets its tokens, or gives them back.\<close>

lemma dict_keys_set: "dict_keys (dict_set k v d) = insert k (dict_keys d)"
  by (induction d) (auto simp: dict_set_def)

lemma accounts_add:
  assumes "accounts B st" "placed E (sch st)" "i \<in> set (running (sch st))" "i \<notin> set (scheduled_reqs st)" "0 < n" "n \<le> token_budget st"
    and "run_reqs st' = run_reqs st @ a" "new_reqs st' = new_reqs st @ b" "resumed_reqs st' = resumed_reqs st @ c" "a @ b @ c = [i]"
    and "sched_toks st' = dict_set (request_id (objs (sch st) i)) n (sched_toks st)" "token_budget st' = token_budget st - n"
    and "same_names (sch st) (sch st')" "running (sch st') = running (sch st)"
  shows "accounts B st'"
proof -
  let ?rid = "request_id (objs (sch st) i)"
  note ac = accountsD [OF assms(1)]
  have fresh: "?rid \<notin> dict_keys (sched_toks st)"
  proof
    assume "?rid \<in> dict_keys (sched_toks st)"
    then obtain j where j: "j \<in> set (scheduled_reqs st)" "?rid = request_id (objs (sch st) j)" unfolding ac(7) by (rule imageE)
    have "j \<in> set (running (sch st))" using ac(6) j(1) by (rule subsetD)
    then have "i = j" using assms(3) by (intro names_inj [OF assms(2) _ _ j(2)]) simp_all
    then show False using j(1) assms(4) by simp
  qed
  then have tot: "total_scheduled st' = total_scheduled st + n"
    using sum_dict_set_new [of "sched_toks st" ?rid "\<lambda>_ v. v" n] by (simp add: total_scheduled_def assms(11))
  have s: "set (scheduled_reqs st') = insert i (set (scheduled_reqs st))"
    unfolding assms(7-9) using arg_cong [OF assms(10), of set] by auto
  have len: "length (scheduled_reqs st') = Suc (length (scheduled_reqs st))" unfolding assms(7-9) using arg_cong [OF assms(10), of length] by simp
  have "card (set (scheduled_reqs st')) = length (scheduled_reqs st')"
    unfolding s len using assms(4) distinct_card [OF ac(5)] by simp
  then have d: "distinct (scheduled_reqs st')" by (rule card_distinct)
  have k: "dict_keys (sched_toks st') = insert ?rid (dict_keys (sched_toks st))"
    unfolding assms(11) by (rule dict_keys_set)
  have pos: "\<forall>x \<in> set (sched_toks st'). 0 < snd x"
    unfolding assms(11) set_dict_set [OF ac(1)] using ac(2) assms(5) by (intro ballI) (elim insertE, simp_all)
  have nm: "(\<lambda>i. request_id (objs (sch st') i)) = (\<lambda>i. request_id (objs (sch st) i))" using assms(13) by (simp add: same_names_def)
  show ?thesis
  proof (rule accountsI [OF _ pos _ _ d])
    show "dict_wf (sched_toks st')" unfolding assms(11) using ac(1) by simp
    show "total_scheduled st' + token_budget st' = B" "0 \<le> token_budget st'" using tot ac(3) assms(6,12) by simp_all
    show "set (scheduled_reqs st') \<subseteq> set (running (sch st'))" unfolding s assms(14) using ac(6) assms(3) by blast
    show "dict_keys (sched_toks st') = (\<lambda>i. request_id (objs (sch st') i)) ` set (scheduled_reqs st')" unfolding s nm k ac(7) by simp
  qed
qed

lemma accounts_drop:
  assumes "accounts B st" "placed E (sch st)" "v \<in> set (run_reqs st)" "dict_get (sched_toks st) (request_id (objs (sch st) v)) = Some n"
    and "run_reqs st' = remove1 v (run_reqs st)" "new_reqs st' = new_reqs st" "resumed_reqs st' = resumed_reqs st"
    and "sched_toks st' = dict_pop (request_id (objs (sch st) v)) (sched_toks st)" "token_budget st' = token_budget st + n"
    and "same_names (sch st) (sch st')" "running (sch st') = remove1 v (running (sch st))"
  shows "accounts B st' \<and> token_budget st \<le> token_budget st'"
proof -
  let ?rid = "request_id (objs (sch st) v)"
  note ac = accountsD [OF assms(1)]
  have n: "0 < n" using dict_get_SomeD [OF assms(4)] ac(2) by auto
  have tot: "total_scheduled st' = total_scheduled st - n"
    using sum_dict_pop [OF ac(1) assms(4), of "\<lambda>_ v. v"] by (simp add: total_scheduled_def assms(8))
  have s: "set (scheduled_reqs st') = set (scheduled_reqs st) - {v}"
    unfolding assms(5-7) using ac(5) assms(3) by auto
  have d: "distinct (scheduled_reqs st')" unfolding assms(5-7) using ac(5) notin_set_remove1 [of _ "run_reqs st" v] by (auto simp: distinct_remove1)
  have r: "set (running (sch st')) = set (running (sch st)) - {v}"
    unfolding assms(11) using placed_disjoint(1) [OF assms(2)] by (simp add: set_remove1_eq)
  have "v \<in> set (scheduled_reqs st)" using assms(3) by simp
  then have "fst ` {x \<in> set (sched_toks st). fst x \<noteq> ?rid} = dict_keys (sched_toks st) - {?rid}" by auto
  moreover have "request_id (objs (sch st) j) \<noteq> ?rid" if "j \<in> set (scheduled_reqs st)" "j \<noteq> v" for j
  proof
    assume e: "request_id (objs (sch st) j) = ?rid"
    have "j \<in> set (running (sch st))" "v \<in> set (running (sch st))" using ac(6) that(1) assms(3) by auto
    then have "j = v" by (intro names_inj [OF assms(2) _ _ e]) simp_all
    then show False using that(2) by simp
  qed
  ultimately have k: "dict_keys (sched_toks st') = (\<lambda>i. request_id (objs (sch st) i)) ` (set (scheduled_reqs st) - {v})"
    unfolding assms(8) set_dict_pop ac(7) by auto
  have pos: "\<forall>x \<in> set (sched_toks st'). 0 < snd x" unfolding assms(8) set_dict_pop using ac(2) by auto
  have nm: "(\<lambda>i. request_id (objs (sch st') i)) = (\<lambda>i. request_id (objs (sch st) i))" using assms(10) by (simp add: same_names_def)
  have "accounts B st'"
  proof (rule accountsI [OF _ pos _ _ d])
    show "dict_wf (sched_toks st')" unfolding assms(8) using ac(1) by simp
    show "total_scheduled st' + token_budget st' = B" "0 \<le> token_budget st'" using tot ac(3,4) n assms(9) by simp_all
    show "set (scheduled_reqs st') \<subseteq> set (running (sch st'))" unfolding s r using ac(6) by blast
    show "dict_keys (sched_toks st') = (\<lambda>i. request_id (objs (sch st') i)) ` set (scheduled_reqs st')" unfolding s nm k ..
  qed
  then show ?thesis using n assms(9) by simp
qed

section \<open>Preemption\<close>

lemma preempt_request_result:
  assumes "preempt_request env v s = Inr s'"
  obtains km e where "status (objs s v) = RUNNING" "km_free (objs s v) (kv_manager s) = Inr km"
    "s' = (let s3 = set_obj v (\<lambda>r. r\<lparr>status := PREEMPTED, num_computed_tokens := 0, spec_token_ids := [],
              num_preemptions := num_preemptions r + 1\<rparr>) (s\<lparr>kv_manager := km, encoder_manager := e\<rparr>)
           in s3\<lparr>waiting := q_prepend (objs s3 v) (waiting s3)\<rparr>)"
proof -
  from assms obtain s1 s2 where g: "status (objs s v) = RUNNING" and 1: "sched_free_kv (objs s v) s = Inr s1"
    and 2: "sched_free_encoder env (objs s v) s1 = Inr s2"
    and 3: "s' = (let s3 = set_obj v (\<lambda>r. r\<lparr>status := PREEMPTED, num_computed_tokens := 0, spec_token_ids := [],
              num_preemptions := num_preemptions r + 1\<rparr>) s2
           in s3\<lparr>waiting := q_prepend (objs s3 v) (waiting s3)\<rparr>)"
    unfolding preempt_request_def by (elim bindE_eq_InrE) (simp add: Let_def)
  from 1 obtain km where km: "km_free (objs s v) (kv_manager s) = Inr km" "s1 = s\<lparr>kv_manager := km\<rparr>"
    unfolding sched_free_kv_def by (elim bindE_eq_InrE) simp
  from 2 obtain e where e: "s2 = s1\<lparr>encoder_manager := e\<rparr>" unfolding sched_free_encoder_def by (elim bindE_eq_InrE) auto
  show ?thesis by (rule that [OF g km(1)]) (simp add: 3 e km(2))
qed

lemma preempt_request_placed:
  assumes "preempt_request env v s = Inr s'" "placed (add_mset v E) s"
  shows "placed E s'" "same_names s s'" "running s' = running s" "\<And>j. j \<noteq> v \<Longrightarrow> objs s' j = objs s j" "status (objs s' v) = PREEMPTED"
    "skipped_waiting s' = sync_queue v (objs s' v) (skipped_waiting s)"
proof -
  let ?f = "\<lambda>r. r\<lparr>status := PREEMPTED, num_computed_tokens := 0, spec_token_ids := [], num_preemptions := num_preemptions r + 1\<rparr>"
  obtain km e where s': "s' = (let s3 = set_obj v ?f (s\<lparr>kv_manager := km, encoder_manager := e\<rparr>)
           in s3\<lparr>waiting := q_prepend (objs s3 v) (waiting s3)\<rparr>)" by (rule preempt_request_result [OF assms(1)])
  let ?s3 = "set_obj v ?f (s\<lparr>kv_manager := km, encoder_manager := e\<rparr>)"
  have "placed (add_mset v E) ?s3" using assms(2) by (intro placed_set_free) simp_all
  then have "placed E (?s3\<lparr>waiting := q_prepend (objs ?s3 v) (waiting ?s3)\<rparr>)"
    by (rule placed_put(1)) (simp add: waiting_status_def)
  then show "placed E s'" unfolding s' Let_def .
  show "same_names s s'" "running s' = running s" "\<And>j. j \<noteq> v \<Longrightarrow> objs s' j = objs s j" "status (objs s' v) = PREEMPTED"
    "skipped_waiting s' = sync_queue v (objs s' v) (skipped_waiting s)"
    by (simp_all add: s' Let_def same_names_def)
qed

lemma fold_pick: "fold (\<lambda>j best. if P best j then j else best) is i \<in> set (i # is)"
  by (induction "is" arbitrary: i) (auto split: if_splits)

lemma pick_victim_in: "pick_victim ob xs = Inr v \<Longrightarrow> v \<in> set xs"
  using fold_pick by (cases xs) fastforce+

text \<open>The victim leaves the running list, and the lists of the step if it was in them.\<close>

lemma take_victim_result:
  assumes "take_victim st = Inr (v, st2)" "distinct (running (sch st))"
  obtains st1 where "v \<in> set (running (sch st))" "st1 = on_sch (\<lambda>s. s\<lparr>running := remove1 v (running s)\<rparr>) st"
    "if sched_policy (conf (sch st)) = PRIORITY \<and> v \<in> set (run_reqs st) then unschedule v st1 = Inr st2 else st2 = st1"
    "sched_policy (conf (sch st)) \<noteq> PRIORITY \<longrightarrow> v = last (running (sch st))"
proof (cases "sched_policy (conf (sch st)) = PRIORITY")
  case True
  let ?k = "\<lambda>w. let st1 = on_sch (\<lambda>s. s\<lparr>running := remove1 w (running s)\<rparr>) st
             in if w \<in> set (run_reqs st1) then bindE (unschedule w st1) (\<lambda>st2. Inr (w, st2)) else Inr (w, st1)"
  have "bindE (pick_victim (objs (sch st)) (running (sch st))) ?k = Inr (v, st2)"
    using assms(1) True by (simp add: take_victim_def Let_def)
  then obtain w where w: "pick_victim (objs (sch st)) (running (sch st)) = Inr w" and k: "?k w = Inr (v, st2)" by (elim bindE_eq_InrE)
  let ?st1 = "on_sch (\<lambda>s. s\<lparr>running := remove1 w (running s)\<rparr>) st"
  have wv: "w = v"
    using k by (cases "w \<in> set (run_reqs st)") (auto simp add: Let_def bindE_eq_Inr)
  have kw: "if v \<in> set (run_reqs st) then unschedule v ?st1 = Inr st2 else st2 = ?st1"
    using k unfolding wv by (cases "v \<in> set (run_reqs st)") (simp_all add: Let_def bindE_eq_Inr)
  show ?thesis
  proof (rule that)
    show "v \<in> set (running (sch st))" using pick_victim_in [OF w] wv by simp
    show "if sched_policy (conf (sch st)) = PRIORITY \<and> v \<in> set (run_reqs st) then unschedule v ?st1 = Inr st2 else st2 = ?st1"
      using kw True wv by simp
  qed (use True wv in simp_all)
next
  case False
  then have ne: "running (sch st) \<noteq> []" and v: "v = last (running (sch st))"
    and st2: "st2 = on_sch (\<lambda>s. s\<lparr>running := butlast (running s)\<rparr>) st"
    using assms(1) by (auto simp: take_victim_def Let_def split: if_splits)
  obtain xs where xs: "running (sch st) = xs @ [v]" using ne v by (metis append_butlast_last_id)
  then have "butlast (running (sch st)) = remove1 v (running (sch st))" using assms(2) by (simp add: remove1_append)
  then have st2': "st2 = on_sch (\<lambda>s. s\<lparr>running := remove1 v (running s)\<rparr>) st" using st2 by simp
  have "v \<in> set (running (sch st))" using ne v by simp
  from that [OF this st2' _] show ?thesis using False v by simp
qed

lemma unschedule_result:
  assumes "unschedule v st = Inr st'"
  obtains n where "dict_get (sched_toks st) (request_id (objs (sch st) v)) = Some n" "sch st' = sch st" "run_reqs st' = remove1 v (run_reqs st)"
    "new_reqs st' = new_reqs st" "resumed_reqs st' = resumed_reqs st" "step_skipped st' = step_skipped st" "preempted_reqs st' = preempted_reqs st"
    "sched_toks st' = dict_pop (request_id (objs (sch st) v)) (sched_toks st)" "token_budget st' = token_budget st + n" "req_index st' = req_index st - 1"
    "blocks_of st' = dict_pop (request_id (objs (sch st) v)) (blocks_of st)"
    "spec_sched st' = dict_pop (request_id (objs (sch st) v)) (spec_sched st)"
  using assms unfolding unschedule_def Let_def dict_popE_def by (elim bindE_eq_InrE) (auto split: option.splits)

section \<open>The loop over the running requests\<close>

text \<open>
  While the running requests are scheduled, those scheduled so far are before the index; those not
  yet scheduled have sensible token counts.
\<close>

definition running_phase :: "sched_config \<Rightarrow> step_vars \<Rightarrow> bool" where
  "running_phase c st \<longleftrightarrow> conf (sch st) = c \<and> new_reqs st = [] \<and> resumed_reqs st = [] \<and> 0 \<le> req_index st
     \<and> set (run_reqs st) \<subseteq> set (take (nat (req_index st)) (running (sch st)))
     \<and> (\<forall>i \<in> set (running (sch st)) - set (run_reqs st). tokens_ok c (objs (sch st) i))"

definition run_inv :: "sched_config \<Rightarrow> int \<Rightarrow> step_vars \<Rightarrow> bool" where
  "run_inv c B st \<longleftrightarrow> config_ok c \<and> accounts B st \<and> step_placed st \<and> queue_reqs (step_skipped st) = [] \<and> running_phase c st"

definition room_inv :: "sched_config \<Rightarrow> int \<Rightarrow> nat \<Rightarrow> int \<Rightarrow> kv_cache_blocks option \<times> step_vars \<Rightarrow> bool" where
  "room_inv c B i n x \<longleftrightarrow> (let st = snd x
     in run_inv c B st \<and> 0 < n \<and> n \<le> token_budget st \<and> i \<notin> set (run_reqs st)
        \<and> i \<in> set (take (Suc (nat (req_index st))) (running (sch st)))
        \<and> (sched_policy c \<noteq> PRIORITY \<longrightarrow> nat (req_index st) < length (running (sch st)) \<and> running (sch st) ! nat (req_index st) = i))"

definition room_done :: "sched_config \<Rightarrow> int \<Rightarrow> nat \<Rightarrow> int \<Rightarrow> kv_cache_blocks option \<times> step_vars \<Rightarrow> bool" where
  "room_done c B i n x \<longleftrightarrow>
     (case fst x of Some _ \<Rightarrow> room_inv c B i n x | None \<Rightarrow> run_inv c B (snd x) \<and> preempted_reqs (snd x) \<noteq> [])"

lemma take_Suc_remove1:
  "v \<in> set (take (Suc n) xs) \<Longrightarrow> take n (remove1 v xs) = remove1 v (take (Suc n) xs)"
proof (induction xs arbitrary: n)
  case (Cons a xs)
  then show ?case by (cases n) auto
qed simp

lemma take_remove1:
  assumes "v \<in> set (take n xs)" shows "take (n - Suc 0) (remove1 v xs) = remove1 v (take n xs)"
  using assms take_Suc_remove1 [of v "n - Suc 0" xs] by (cases n) simp_all

lemma take_remove1_out:
  "v \<notin> set (take n xs) \<Longrightarrow> take n (remove1 v xs) = take n xs"
proof (induction xs arbitrary: n)
  case (Cons a xs)
  then show ?case by (cases n) auto
qed simp

lemma take_remove1_sub:
  assumes "x \<in> set (take n xs)" "x \<noteq> v" shows "x \<in> set (take n (remove1 v xs))"
proof (cases "v \<in> set (take n xs)")
  case True
  have "x \<in> set (remove1 v (take n xs))" using assms by (simp add: in_set_remove1)
  then have "x \<in> set (take (n - Suc 0) (remove1 v xs))" by (simp add: take_remove1 [OF True])
  then show ?thesis using set_take_subset_set_take [of "n - Suc 0" n "remove1 v xs"] by auto
qed (use assms in \<open>simp add: take_remove1_out\<close>)

text \<open>Preempting a victim keeps the invariant, and the request that needs room stays where it is.\<close>

lemma preempt_victim_inv:
  assumes run: "preempt_victim env st = Inr (v, st')" and inv: "run_inv c B st" and i: "i \<in> set (take (Suc (nat (req_index st))) (running (sch st)))"
    and fc: "sched_policy c \<noteq> PRIORITY \<Longrightarrow> nat (req_index st) < length (running (sch st))"
  shows "run_inv c B st'" "preempted_reqs st' \<noteq> []" "token_budget st \<le> token_budget st'" "set (run_reqs st') = set (run_reqs st) - {v}"
    "i \<noteq> v \<Longrightarrow> i \<notin> set (run_reqs st) \<Longrightarrow> i \<in> set (take (Suc (nat (req_index st'))) (running (sch st')))"
    "v \<in> set (running (sch st))" "running (sch st') = remove1 v (running (sch st))" "conf (sch st') = c"
    "sched_policy c \<noteq> PRIORITY \<Longrightarrow> req_index st' = req_index st \<and> v = last (running (sch st))"
    "req_index st \<le> req_index st' + (if v \<in> set (run_reqs st) then 1 else 0)"
proof -
  have a: "accounts B st" "step_placed st" "queue_reqs (step_skipped st) = []" "running_phase c st" "config_ok c" using inv by (simp_all add: run_inv_def)
  have p: "placed {#} (sch st)" using a(2,3) by (simp add: step_placed_def)
  have ph: "conf (sch st) = c" "new_reqs st = []" "resumed_reqs st = []" "0 \<le> req_index st"
    "set (run_reqs st) \<subseteq> set (take (nat (req_index st)) (running (sch st)))"
    "\<And>i. i \<in> set (running (sch st)) \<Longrightarrow> i \<notin> set (run_reqs st) \<Longrightarrow> tokens_ok c (objs (sch st) i)" using a(4) by (auto simp: running_phase_def)
  note dist = placed_disjoint(1) [OF p]
  let ?k = "\<lambda>(v, st1). bindE (preempt_request env v (sch st1)) (\<lambda>s. Inr (v, st1\<lparr>sch := s, preempted_reqs := preempted_reqs st1 @ [v]\<rparr>))"
  have "bindE (take_victim st) ?k = Inr (v, st')" using run by (simp add: preempt_victim_def)
  then obtain y where y: "take_victim st = Inr y" "?k y = Inr (v, st')" by (elim bindE_eq_InrE)
  obtain w st2 where yy: "y = (w, st2)" by force
  obtain s where s: "preempt_request env w (sch st2) = Inr s" "w = v" and st': "st' = st2\<lparr>sch := s, preempted_reqs := preempted_reqs st2 @ [v]\<rparr>"
    using y(2) unfolding yy prod.case by (elim bindE_eq_InrE) auto
  obtain st1 where v: "v \<in> set (running (sch st))" and st1: "st1 = on_sch (\<lambda>s. s\<lparr>running := remove1 v (running s)\<rparr>) st"
    and st2: "if sched_policy (conf (sch st)) = PRIORITY \<and> v \<in> set (run_reqs st) then unschedule v st1 = Inr st2 else st2 = st1"
    and last: "sched_policy (conf (sch st)) \<noteq> PRIORITY \<longrightarrow> v = last (running (sch st))"
    using y(1) unfolding yy s(2) by (rule take_victim_result [OF _ dist])
  have out: "v \<notin> set (run_reqs st)" if "sched_policy c \<noteq> PRIORITY"
  proof -
    have "drop (nat (req_index st)) (running (sch st)) \<noteq> []" using fc [OF that] by simp
    then have "v \<in> set (drop (nat (req_index st)) (running (sch st)))" using last that ph(1) by (metis last_drop last_in_set drop_eq_Nil not_le)
    then have "v \<notin> set (take (nat (req_index st)) (running (sch st)))"
      using dist by (metis append_take_drop_id disjoint_iff distinct_append)
    then show ?thesis using ph(5) by blast
  qed
  have sch2: "sch st2 = (sch st)\<lparr>running := remove1 v (running (sch st))\<rparr>" and old: "step_skipped st2 = step_skipped st"
    "new_reqs st2 = []" "resumed_reqs st2 = []"
    "set (run_reqs st2) = set (run_reqs st) - {v}" "distinct (run_reqs st2)"
    "req_index st2 = req_index st - (if v \<in> set (run_reqs st) then 1 else 0)"
    using st2 st1 out ph(1-3) accountsD(5) [OF a(1)] by (auto split: if_splits elim!: unschedule_result)
  have pl: "placed (add_mset v {#}) (sch st2)" unfolding sch2 using placed_take_run [OF p v] .
  note q = preempt_request_placed [OF s(1) [unfolded s(2)] pl]
  have sn: "same_names (sch st) s" using q(2) unfolding sch2 by (simp add: same_names_def)
  have run': "running s = remove1 v (running (sch st))" using q(3) by (simp add: sch2)
  show r: "running (sch st') = remove1 v (running (sch st))" "v \<in> set (running (sch st))" "conf (sch st') = c" "preempted_reqs st' \<noteq> []"
    "set (run_reqs st') = set (run_reqs st) - {v}"
    using run' v sn ph(1) old(4) by (simp_all add: st' same_names_def)
  have "accounts B st' \<and> token_budget st \<le> token_budget st'"
  proof (cases "v \<in> set (run_reqs st)")
    case True
    then have "sched_policy (conf (sch st)) = PRIORITY" using out ph(1) by auto
    then have "unschedule v st1 = Inr st2" using st2 True by simp
    then obtain m where m: "dict_get (sched_toks st) (request_id (objs (sch st) v)) = Some m" "run_reqs st2 = remove1 v (run_reqs st)"
      "sched_toks st2 = dict_pop (request_id (objs (sch st) v)) (sched_toks st)" "token_budget st2 = token_budget st + m"
      by (rule unschedule_result) (simp add: st1)
    show ?thesis
      by (rule accounts_drop [OF a(1) p True m(1)]) (simp_all add: st' m(2-4) old(2,3) ph(2,3) sn run')
  next
    case False
    then have "st2 = st1" using st2 by simp
    then have st2': "st2 = st\<lparr>sch := (sch st)\<lparr>running := remove1 v (running (sch st))\<rparr>\<rparr>" by (simp add: st1)
    have sub: "set (scheduled_reqs st) \<subseteq> set (running s)"
      using accountsD(6) [OF a(1)] False ph(2,3) unfolding run' set_remove1_eq [OF dist] by auto
    have "accounts B (st\<lparr>sch := s\<rparr>)" by (rule accounts_names [OF a(1) sn sub])
    then show ?thesis by (simp add: st' st2')
  qed
  then have ac: "accounts B st'" and "token_budget st \<le> token_budget st'" by simp_all
  show "token_budget st \<le> token_budget st'" by fact
  have idx: "req_index st' = req_index st - (if v \<in> set (run_reqs st) then 1 else 0)" using old(6) by (simp add: st')
  then show "req_index st \<le> req_index st' + (if v \<in> set (run_reqs st) then 1 else 0)" by simp
  have pos: "0 < req_index st" if "v \<in> set (run_reqs st)" using that ph(4,5) by (cases "req_index st = 0") auto
  have tk: "set (take (nat (req_index st)) (running (sch st))) - {v} \<subseteq> set (take (nat (req_index st')) (running (sch st')))"
  proof (cases "v \<in> set (run_reqs st)")
    case True
    then have vt: "v \<in> set (take (nat (req_index st)) (running (sch st)))" using ph(5) by blast
    have "nat (req_index st') = nat (req_index st) - 1" using idx True by simp
    then show ?thesis using take_remove1 [OF vt] dist by (simp add: r(1) set_remove1_eq)
  next
    case False
    then have "req_index st' = req_index st" using idx by simp
    then show ?thesis unfolding r(1) by (intro subsetI) (simp add: take_remove1_sub)
  qed
  show "i \<in> set (take (Suc (nat (req_index st'))) (running (sch st')))" if "i \<noteq> v" "i \<notin> set (run_reqs st)"
  proof (cases "v \<in> set (run_reqs st)")
    case True
    have "set (take (nat (req_index st)) (running (sch st))) \<subseteq> set (take (Suc (nat (req_index st))) (running (sch st)))"
      by (rule set_take_subset_set_take) simp
    from subsetD [OF this subsetD [OF ph(5) True]] have "v \<in> set (take (Suc (nat (req_index st))) (running (sch st)))" .
    from take_remove1 [OF this] have "i \<in> set (take (nat (req_index st)) (running (sch st')))" using i that by (simp add: r(1) in_set_remove1)
    then show ?thesis using idx True pos by (simp add: Suc_nat_eq_nat_zadd1)
  next
    case False
    then show ?thesis using take_remove1_sub [OF i that(1)] idx by (simp add: r(1))
  qed
  have "running_phase c st'" unfolding running_phase_def
  proof (intro conjI ballI)
    show "conf (sch st') = c" by (rule r(3))
    show "new_reqs st' = []" "resumed_reqs st' = []" using old(2,3) by (simp_all add: st')
    show "0 \<le> req_index st'" using idx pos ph(4) by (cases "v \<in> set (run_reqs st)") simp_all
    show "set (run_reqs st') \<subseteq> set (take (nat (req_index st')) (running (sch st')))" unfolding r(5) using ph(5) tk by blast
    fix j assume "j \<in> set (running (sch st')) - set (run_reqs st')"
    then have j: "j \<in> set (running (sch st))" "j \<noteq> v" "j \<notin> set (run_reqs st)" unfolding r(1,5) set_remove1_eq [OF dist] by blast+
    have "objs (sch st') j = objs (sch st) j" using q(4) [OF j(2)] by (simp add: st' sch2)
    then show "tokens_ok c (objs (sch st') j)" using ph(6) [OF j(1,3)] by simp
  qed
  moreover have "step_placed st'" "queue_reqs (step_skipped st') = []"
    using q(1) a(3) old(1) by (simp_all add: step_placed_def st' copies_ok_def)
  ultimately show "run_inv c B st'" using ac a(5) by (simp add: run_inv_def)
  show "req_index st' = req_index st \<and> v = last (running (sch st))" if "sched_policy c \<noteq> PRIORITY"
    using idx out [OF that] last that ph(1) by simp
qed

lemma room_body_result:
  assumes "room_body env i n (nb0, st) = Some (Inr (go, nb, st'))"
  obtains (fits) b km where "allocate_slots (env_sha env) (objs (sch st) i) n 0 None (num_lookahead_tokens (conf (sch st))) 0 False 0 (kv_manager (sch st)) = Inr (Some b, km)"
      "\<not> go" "nb = Some b" "st' = on_sch (set_kv km) st"
    | (full) km v where "allocate_slots (env_sha env) (objs (sch st) i) n 0 None (num_lookahead_tokens (conf (sch st))) 0 False 0 (kv_manager (sch st)) = Inr (None, km)"
      "preempt_victim env (on_sch (set_kv km) st) = Inr (v, st')" "go \<longleftrightarrow> v \<noteq> i" "nb = None"
proof -
  let ?a = "allocate_slots (env_sha env) (objs (sch st) i) n 0 None (num_lookahead_tokens (conf (sch st))) 0 False 0 (kv_manager (sch st))"
  let ?k = "\<lambda>(nb, km). let st1 = on_sch (set_kv km) st
           in case nb of Some b \<Rightarrow> Inr (False, (Some b, st1))
              | None \<Rightarrow> bindE (preempt_victim env st1) (\<lambda>(v, st2). Inr (v \<noteq> i, (None, st2)))"
  have "bindE ?a ?k = Inr (go, nb, st')" using assms by (simp add: room_body_def Let_def)
  then obtain y where y: "?a = Inr y" "?k y = Inr (go, nb, st')" by (elim bindE_eq_InrE)
  obtain nb' km where yy: "y = (nb', km)" by force
  show ?thesis
  proof (cases nb')
    case None
    with y(2) have "bindE (preempt_victim env (on_sch (set_kv km) st)) (\<lambda>(v, st2). Inr (v \<noteq> i, (None, st2))) = Inr (go, nb, st')"
      by (simp add: yy Let_def)
    then obtain v st2 where "preempt_victim env (on_sch (set_kv km) st) = Inr (v, st2)" "(v \<noteq> i, None, st2) = (go, nb, st')"
      by (elim bindE_eq_InrE) auto
    then show ?thesis using y(1) None yy by (intro full [of km v]) auto
  next
    case (Some b)
    then show ?thesis using y yy by (intro fits [of b km]) (auto simp: Let_def)
  qed
qed

lemma running_phase_frame [simp]:
  "running_phase c (st\<lparr>sch := (sch st)\<lparr>kv_manager := km\<rparr>\<rparr>) = running_phase c st"
  "running_phase c (st\<lparr>sch := (sch st)\<lparr>encoder_manager := e\<rparr>\<rparr>) = running_phase c st"
  by (simp_all add: running_phase_def)

lemma run_inv_frame [simp]:
  "run_inv c B (st\<lparr>sch := (sch st)\<lparr>kv_manager := km\<rparr>\<rparr>) = run_inv c B st" "run_inv c B (st\<lparr>sch := (sch st)\<lparr>encoder_manager := e\<rparr>\<rparr>) = run_inv c B st"
  by (simp_all add: run_inv_def)

lemma room_inv_frame [simp]: "room_inv c B i n (x, st\<lparr>sch := (sch st)\<lparr>kv_manager := km\<rparr>\<rparr>) = room_inv c B i n (y, st)"
  by (simp add: room_inv_def Let_def)

interpretation room: guarded_loop "\<lambda>_. True" "room_body env i n" "room_inv c B i n" "room_done c B i n" for env i n c B
proof unfold_locales
  fix x y :: "kv_cache_blocks option \<times> step_vars"
  obtain nb0 st nb st' where xy: "x = (nb0, st)" "y = (nb, st')" by force
  assume inv: "room_inv c B i n x"
  then have a: "run_inv c B st" "0 < n" "n \<le> token_budget st" "i \<notin> set (run_reqs st)" "i \<in> set (take (Suc (nat (req_index st))) (running (sch st)))"
    "sched_policy c \<noteq> PRIORITY \<longrightarrow> nat (req_index st) < length (running (sch st)) \<and> running (sch st) ! nat (req_index st) = i"
    by (simp_all add: room_inv_def xy(1) Let_def)
  {
    assume "room_body env i n x = Some (Inr (True, y))"
    then obtain km v where pv: "preempt_victim env (on_sch (set_kv km) st) = Inr (v, st')" "v \<noteq> i"
      unfolding xy by (rule room_body_result) simp_all
    let ?st = "on_sch (set_kv km) st"
    note p = preempt_victim_inv [OF pv(1), of c B i]
    have r: "run_inv c B ?st" using a(1) by simp
    have fc: "sched_policy c \<noteq> PRIORITY \<Longrightarrow> nat (req_index ?st) < length (running (sch ?st))" using a(6) by simp
    note q = p [OF r _ fc]
    have "nat (req_index st') < length (running (sch st')) \<and> running (sch st') ! nat (req_index st') = i" if "sched_policy c \<noteq> PRIORITY"
    proof -
      let ?k = "nat (req_index st)" and ?xs = "running (sch st)"
      have v: "req_index st' = req_index st" "v = last ?xs" using q(9) a(5) that by auto
      have k: "?k < length ?xs" "?xs ! ?k = i" using a(6) that by simp_all
      have "distinct ?xs" using a(1) by (auto simp: run_inv_def step_placed_def dest: placed_disjoint(1))
      moreover obtain ys where ys: "?xs = ys @ [v]" using v(2) k(1) by (metis append_butlast_last_id list.size(3) not_less_zero)
      ultimately have "running (sch st') = ys" using q(7) a(5) by (simp add: remove1_append)
      moreover have "?k \<noteq> length ys" using k(2) ys pv(2) by auto
      ultimately show ?thesis using k ys v(1) by (auto simp: nth_append)
    qed
    then show "room_inv c B i n y"
      using q(1,3,4,5) a(2-5) pv(2) by (auto simp: room_inv_def xy(2) Let_def)
  next
    assume "room_body env i n x = Some (Inr (False, y))"
    then have "room_body env i n (nb0, st) = Some (Inr (False, nb, st'))" by (simp add: xy)
    then have "room_done c B i n (nb, st')"
    proof (cases rule: room_body_result)
      case (fits b km)
      then show ?thesis using inv by (simp add: room_done_def xy room_inv_def Let_def)
    next
      case (full km v)
      have "run_inv c B (on_sch (set_kv km) st)" using a(1) by simp
      from preempt_victim_inv(1,2) [OF full(2) this] a(5,6) full(4) show ?thesis by (simp add: room_done_def)
    qed
    then show "room_done c B i n y" by (simp add: xy)
  }
qed simp

lemma find_room_done: "find_room env i n st = Some (Inr y) \<Longrightarrow> room_inv c B i n (None, st) \<Longrightarrow> room_done c B i n y"
  unfolding find_room_def by (rule room.loop_result)

text \<open>The rest of the body: what it does to a request it schedules.\<close>

lemma commit_inputs_result:
  "commit_inputs i ins eb st = Inr st' \<Longrightarrow> \<exists>e x b. st' = on_sch (set_enc e) (st\<lparr>enc_sched := x, enc_budget := b\<rparr>)"
proof (cases "ins = []")
  case True
  assume "commit_inputs i ins eb st = Inr st'"
  then have "st' = on_sch (set_enc (encoder_manager (sch st))) (st\<lparr>enc_sched := enc_sched st, enc_budget := enc_budget st\<rparr>)"
    using True by (simp add: commit_inputs_def)
  then show ?thesis by blast
next
  case False
  assume "commit_inputs i ins eb st = Inr st'"
  then show ?thesis using False by (auto simp: commit_inputs_def Let_def elim!: bindE_eq_InrE)
qed

lemma take_spec_tokens_result:
  "\<exists>sp s. take_spec_tokens i n st = st\<lparr>spec_sched := sp, sch := s\<rparr>
     \<and> (s = sch st \<or> s = set_obj i (\<lambda>r. r\<lparr>spec_token_ids := []\<rparr>) (sch st))"
proof (cases "spec_token_ids (objs (sch st) i) = []")
  case True
  then have "take_spec_tokens i n st = st\<lparr>spec_sched := spec_sched st, sch := sch st\<rparr>" by (simp add: take_spec_tokens_def)
  then show ?thesis by blast
next
  case False
  let ?k = "n + num_computed_tokens (objs (sch st) i) - num_tokens (objs (sch st) i) - num_output_placeholders (objs (sch st) i)"
  have "take_spec_tokens i n st = st\<lparr>spec_sched := (if 0 < ?k
      then dict_set (request_id (objs (sch st) i)) (take (nat ?k) (spec_token_ids (objs (sch st) i))) (spec_sched st) else spec_sched st),
      sch := set_obj i (\<lambda>r. r\<lparr>spec_token_ids := []\<rparr>) (sch st)\<rparr>"
    using False by (simp add: take_spec_tokens_def Let_def)
  then show ?thesis by blast
qed

lemma commit_running_result:
  assumes "commit_running i n ins eb b st = Inr st'"
  obtains s e x bu sp where "st' = st\<lparr>sch := s\<lparr>encoder_manager := e\<rparr>, run_reqs := run_reqs st @ [i],
       blocks_of := dict_set (request_id (objs (sch st) i)) b (blocks_of st),
       sched_toks := dict_set (request_id (objs (sch st) i)) n (sched_toks st), token_budget := token_budget st - n,
       enc_sched := x, enc_budget := bu, spec_sched := sp, req_index := req_index st + 1\<rparr>"
    "s = sch st \<or> s = set_obj i (\<lambda>r. r\<lparr>spec_token_ids := []\<rparr>) (sch st)"
proof -
  let ?rid = "request_id (objs (sch st) i)"
  let ?st1 = "st\<lparr>run_reqs := run_reqs st @ [i], blocks_of := dict_set ?rid b (blocks_of st),
                   sched_toks := dict_set ?rid n (sched_toks st), token_budget := token_budget st - n, req_index := req_index st + 1\<rparr>"
  obtain sp s where s: "take_spec_tokens i n ?st1 = ?st1\<lparr>spec_sched := sp, sch := s\<rparr>"
    "s = sch ?st1 \<or> s = set_obj i (\<lambda>r. r\<lparr>spec_token_ids := []\<rparr>) (sch ?st1)" using take_spec_tokens_result by blast
  have "commit_inputs i ins eb (?st1\<lparr>spec_sched := sp, sch := s\<rparr>) = Inr st'"
    using assms unfolding commit_running_def Let_def s(1) .
  then obtain e x bu where "st' = on_sch (set_enc e) (?st1\<lparr>spec_sched := sp, sch := s, enc_sched := x, enc_budget := bu\<rparr>)"
    by (blast dest: commit_inputs_result)
  then show ?thesis using s(2) by (intro that [where s = s and e = e and x = x and bu = bu and sp = sp]) simp_all
qed

lemma commit_running_inv:
  assumes run: "commit_running i n ins eb b st = Inr st'" and inv: "room_inv c B i n (x, st)"
  shows "run_inv c B st'" "preempted_reqs st' = preempted_reqs st" "running (sch st') = running (sch st)" "req_index st' = req_index st + 1"
proof -
  have a: "config_ok c" "accounts B st" "step_placed st" "queue_reqs (step_skipped st) = []" "0 < n" "n \<le> token_budget st" "i \<notin> set (run_reqs st)"
    "i \<in> set (take (Suc (nat (req_index st))) (running (sch st)))"
    and ph: "conf (sch st) = c" "new_reqs st = []" "resumed_reqs st = []" "0 \<le> req_index st"
    "set (run_reqs st) \<subseteq> set (take (nat (req_index st)) (running (sch st)))"
    "\<And>j. j \<in> set (running (sch st)) \<Longrightarrow> j \<notin> set (run_reqs st) \<Longrightarrow> tokens_ok c (objs (sch st) j)"
    using inv by (auto simp: room_inv_def run_inv_def running_phase_def Let_def)
  have i: "i \<in> set (running (sch st))" using a(8) set_take_subset [of _ "running (sch st)"] by blast
  have p: "placed {#} (sch st)" using a(3,4) by (simp add: step_placed_def)
  obtain s e y bu sp where st': "st' = st\<lparr>sch := s\<lparr>encoder_manager := e\<rparr>, run_reqs := run_reqs st @ [i],
       blocks_of := dict_set (request_id (objs (sch st) i)) b (blocks_of st),
       sched_toks := dict_set (request_id (objs (sch st) i)) n (sched_toks st), token_budget := token_budget st - n,
       enc_sched := y, enc_budget := bu, spec_sched := sp, req_index := req_index st + 1\<rparr>"
    and s: "s = sch st \<or> s = set_obj i (\<lambda>r. r\<lparr>spec_token_ids := []\<rparr>) (sch st)"
    by (rule commit_running_result [OF run])
  have ps: "placed {#} s" using s p by (auto intro: placed_set_same)
  have sn: "same_names (sch st) s" "running s = running (sch st)" using s by (auto simp: same_names_def)
  have ob: "objs s j = objs (sch st) j" if "j \<noteq> i" for j using s that by auto
  show r: "preempted_reqs st' = preempted_reqs st" "running (sch st') = running (sch st)" "req_index st' = req_index st + 1"
    using sn(2) by (simp_all add: st')
  have "accounts B st'"
    by (rule accounts_add [OF a(2) p i _ a(5,6), where a = "[i]" and b = "[]" and c = "[]"])
      (use a(7) ph(2,3) sn in \<open>simp_all add: st' same_names_def\<close>)
  moreover have "step_placed st'" "queue_reqs (step_skipped st') = []" using ps a(4) by (simp_all add: step_placed_def st' copies_ok_def)
  moreover have "running_phase c st'" unfolding running_phase_def
  proof (intro conjI ballI)
    show "conf (sch st') = c" using sn(1) ph(1) by (simp add: st' same_names_def)
    show "new_reqs st' = []" "resumed_reqs st' = []" "0 \<le> req_index st'" using ph(2,3,4) by (simp_all add: st')
    have "set (take (nat (req_index st)) (running (sch st))) \<subseteq> set (take (Suc (nat (req_index st))) (running (sch st)))"
      by (rule set_take_subset_set_take) simp
    moreover have "nat (req_index st') = Suc (nat (req_index st))" using ph(4) by (simp add: st' Suc_nat_eq_nat_zadd1)
    ultimately show "set (run_reqs st') \<subseteq> set (take (nat (req_index st')) (running (sch st')))"
      using ph(5) a(8) unfolding r(2) by (auto simp: st')
    fix j assume "j \<in> set (running (sch st')) - set (run_reqs st')"
    then have "j \<in> set (running (sch st))" "j \<notin> set (run_reqs st)" "j \<noteq> i" using sn(2) by (auto simp: st')
    then show "tokens_ok c (objs (sch st') j)" using ph(6) ob by (simp add: st')
  qed
  ultimately show "run_inv c B st'" using a(1) by (simp add: run_inv_def)
qed

lemma running_body_result:
  assumes "running_body env st = Some (Inr (go, st'))"
  obtains (skip) "go" "st' = skip_running st"
    | (none) i ins eb st1 where "plan_running i st = Inr (ins, 0, eb, st1)" "go" "st' = skip_running st1"
    | (full) i ins n eb st1 where "py_index (running (sch st)) (req_index st) = Inr i"
        "plan_running i st = Inr (ins, n, eb, st1)" "n \<noteq> 0" "find_room env i n st1 = Some (Inr (None, st'))" "\<not> go"
    | (runs) i ins n eb st1 b st2 where "py_index (running (sch st)) (req_index st) = Inr i"
        "plan_running i st = Inr (ins, n, eb, st1)" "n \<noteq> 0" "find_room env i n st1 = Some (Inr (Some b, st2))"
        "commit_running i n ins eb b st2 = Inr st'" "go"
proof -
  let ?k3 = "\<lambda>i n ins eb (nb, st2). case nb of None \<Rightarrow> retO (False, st2)
           | Some b \<Rightarrow> bindO (Some (commit_running i n ins eb b st2)) (\<lambda>st3. retO (True, st3))"
  let ?k2 = "\<lambda>i (ins, n, eb, st1). if n = 0 then retO (True, skip_running st1) else bindO (find_room env i n st1) (?k3 i n ins eb)"
  from assms obtain i where i: "py_index (running (sch st)) (req_index st) = Inr i"
    and k1: "(if reached_max_tokens (objs (sch st) i) then retO (True, skip_running st) else bindO (Some (plan_running i st)) (?k2 i)) = Some (Inr (go, st'))"
    unfolding running_body_def by (elim bindO_InrE) (simp only: option.inject)
  show ?thesis
  proof (cases "reached_max_tokens (objs (sch st) i)")
    case True
    then show ?thesis using k1 by (intro skip) (simp_all add: retO_def)
  next
    case False
    then have "bindO (Some (plan_running i st)) (?k2 i) = Some (Inr (go, st'))" using k1 by simp
    then obtain y where y: "plan_running i st = Inr y" "?k2 i y = Some (Inr (go, st'))" by (elim bindO_InrE) (simp only: option.inject)
    obtain ins n eb st1 where yy: "y = (ins, n, eb, st1)" by (cases y)
    show ?thesis
    proof (cases "n = 0")
      case True
      then show ?thesis using y i by (intro none [of i ins eb st1]) (simp_all add: yy retO_def)
    next
      case n: False
      then have "bindO (find_room env i n st1) (?k3 i n ins eb) = Some (Inr (go, st'))" using y(2) by (simp add: yy)
      then obtain z where z: "find_room env i n st1 = Some (Inr z)" "?k3 i n ins eb z = Some (Inr (go, st'))" by (elim bindO_InrE)
      obtain nb st2 where zz: "z = (nb, st2)" by force
      show ?thesis
      proof (cases nb)
        case None
        then show ?thesis using y(1) z i n by (intro full [of i ins n eb st1]) (simp_all add: yy zz retO_def)
      next
        case (Some b)
        then have "bindO (Some (commit_running i n ins eb b st2)) (\<lambda>st3. retO (True, st3)) = Some (Inr (go, st'))" using z(2) by (simp add: zz)
        then have "commit_running i n ins eb b st2 = Inr st'" "go" by (auto simp: bindO_eq_Inr retO_def)
        then show ?thesis using y(1) z(1) i n Some by (intro runs [of i ins n eb st1 b st2]) (simp_all add: yy zz)
      qed
    qed
  qed
qed

lemma running_index_free:
  assumes "run_inv c B st" "py_index (running (sch st)) (req_index st) = Inr i"
  shows "nat (req_index st) < length (running (sch st)) \<and> running (sch st) ! nat (req_index st) = i" "i \<in> set (running (sch st))" "i \<notin> set (run_reqs st)" "i \<in> set (take (Suc (nat (req_index st))) (running (sch st)))" "tokens_ok c (objs (sch st) i)"
proof -
  let ?k = "nat (req_index st)" and ?xs = "running (sch st)"
  have "0 \<le> req_index st" using assms(1) by (simp add: run_inv_def running_phase_def)
  then have at: "?k < length ?xs" "i = ?xs ! ?k" using assms(2) by (auto simp: py_index_Inr)
  then show "?k < length ?xs \<and> ?xs ! ?k = i" by simp
  have d: "distinct ?xs" using assms(1) by (auto simp: run_inv_def step_placed_def dest: placed_disjoint(1))
  have ph: "set (run_reqs st) \<subseteq> set (take ?k ?xs)" "\<And>j. j \<in> set ?xs \<Longrightarrow> j \<notin> set (run_reqs st) \<Longrightarrow> tokens_ok c (objs (sch st) j)"
    using assms(1) by (auto simp: run_inv_def running_phase_def)
  have t: "take (Suc ?k) ?xs = take ?k ?xs @ [i]" using at by (simp add: take_Suc_conv_app_nth)
  show i: "i \<in> set ?xs" using at by simp
  show "i \<in> set (take (Suc ?k) ?xs)" unfolding t by simp
  have "distinct (take ?k ?xs @ [i])" unfolding t [symmetric] using d by (rule distinct_take)
  then show f: "i \<notin> set (run_reqs st)" using ph(1) by auto
  show "tokens_ok c (objs (sch st) i)" by (rule ph(2) [OF i f])
qed

lemma skip_running_inv: "run_inv c B st \<Longrightarrow> run_inv c B (skip_running st)"
proof -
  assume a: "run_inv c B st"
  then have i: "0 \<le> req_index st" by (simp add: run_inv_def running_phase_def)
  have "set (take (nat (req_index st)) (running (sch st))) \<subseteq> set (take (nat (req_index st + 1)) (running (sch st)))"
    by (rule set_take_subset_set_take) simp
  then show ?thesis using a i unfolding run_inv_def skip_running_def running_phase_def by (simp, blast)
qed

lemma running_body_inv:
  assumes inv: "run_inv c B st" and run: "running_body env st = Some (Inr (go, st'))"
  shows "run_inv c B st'"
proof -
  have c: "config_ok c" "conf (sch st) = c" and bud: "0 \<le> token_budget st"
    using inv accountsD(4) by (auto simp: run_inv_def running_phase_def)
  have room: "room_inv c B i n (None, st1)"
    if "py_index (running (sch st)) (req_index st) = Inr i"
      "plan_running i st = Inr (ins, n, eb, st1)" "n \<noteq> 0" for i n ins eb st1
  proof -
    note f = running_index_free [OF inv that(1)]
    have "0 \<le> n" "n \<le> token_budget st" "\<exists>e. st1 = on_sch (set_enc e) st"
      using plan_running_spec [OF that(2) c(2,1) f(5) bud] by blast+
    then show ?thesis using inv f that(3) by (auto simp add: room_inv_def Let_def)
  qed
  show ?thesis
    using run
  proof (cases rule: running_body_result)
    case skip
    then show ?thesis using skip_running_inv [OF inv] by simp
  next
    case (none i ins eb st1)
    from none(1) obtain e where "st1 = on_sch (set_enc e) st"
      unfolding plan_running_def Let_def by (elim bindE_eq_InrE) (auto elim!: bindE_eq_InrE)
    then show ?thesis using skip_running_inv [of c B st1] inv none(3) by simp
  next
    case (full i ins n eb st1)
    then show ?thesis using find_room_done [OF full(4) room [OF full(1-3)]] by (simp add: room_done_def)
  next
    case (runs i ins n eb st1 b st2)
    then have "room_inv c B i n (Some b, st2)" using find_room_done [OF runs(4) room [OF runs(1-3)]] by (simp add: room_done_def)
    from commit_running_inv(1) [OF runs(5) this] show ?thesis .
  qed
qed

interpretation running_loop: guarded_loop running_cond "running_body env" "run_inv c B" "run_inv c B" for env c B
  by unfold_locales (auto intro: running_body_inv)

lemma schedule_running_done: "schedule_running env st = Some (Inr st') \<Longrightarrow> run_inv c B st \<Longrightarrow> run_inv c B st'"
  unfolding schedule_running_def by (rule running_loop.loop_result)

section \<open>Both inner loops end\<close>

text \<open>
  The loop that makes room preempts one running request per round; the loop over the running
  requests shortens the list or moves the index on.
\<close>

lemma preempt_victim_running:
  assumes "preempt_victim env st = Inr (v, st')" "distinct (running (sch st))"
  shows "v \<in> set (running (sch st))" "running (sch st') = remove1 v (running (sch st))" "req_index st - 1 \<le> req_index st'"
proof -
  let ?k = "\<lambda>(v, st1). bindE (preempt_request env v (sch st1)) (\<lambda>s. Inr (v, st1\<lparr>sch := s, preempted_reqs := preempted_reqs st1 @ [v]\<rparr>))"
  have "bindE (take_victim st) ?k = Inr (v, st')" using assms(1) by (simp add: preempt_victim_def)
  then obtain y where y: "take_victim st = Inr y" "?k y = Inr (v, st')" by (elim bindE_eq_InrE)
  obtain w st2 where yy: "y = (w, st2)" by force
  obtain s where s: "preempt_request env w (sch st2) = Inr s" "w = v" and st': "st' = st2\<lparr>sch := s, preempted_reqs := preempted_reqs st2 @ [v]\<rparr>"
    using y(2) unfolding yy prod.case by (elim bindE_eq_InrE) auto
  obtain st1 where v: "v \<in> set (running (sch st))" and st1: "st1 = on_sch (\<lambda>s. s\<lparr>running := remove1 v (running s)\<rparr>) st"
    and st2: "if sched_policy (conf (sch st)) = PRIORITY \<and> v \<in> set (run_reqs st) then unschedule v st1 = Inr st2 else st2 = st1"
    using y(1) unfolding yy s(2) by (rule take_victim_result [OF _ assms(2)])
  have a: "running (sch st2) = remove1 v (running (sch st))" "req_index st - 1 \<le> req_index st2"
    using st2 by (auto simp: st1 split: if_splits elim!: unschedule_result)
  have "running s = running (sch st2)" by (rule preempt_request_result [OF s(1)]) (simp add: Let_def)
  then show "v \<in> set (running (sch st))" "running (sch st') = remove1 v (running (sch st))" "req_index st - 1 \<le> req_index st'"
    using v a by (simp_all add: st')
qed

definition gap_le :: "nat set \<Rightarrow> int \<Rightarrow> kv_cache_blocks option \<times> step_vars \<Rightarrow> bool" where
  "gap_le R k x \<longleftrightarrow> distinct (running (sch (snd x))) \<and> set (running (sch (snd x))) \<subseteq> R \<and> int (length (running (sch (snd x)))) - req_index (snd x) \<le> k"

lemma room_body_gap:
  assumes "room_body env i n x = Some (Inr (go, y))" "gap_le R k x"
  shows "gap_le R k y" "go \<Longrightarrow> length (running (sch (snd y))) < length (running (sch (snd x)))"
proof -
  obtain nb0 st nb st' where xy: "x = (nb0, st)" "y = (nb, st')" by force
  have "room_body env i n (nb0, st) = Some (Inr (go, nb, st'))" using assms(1) by (simp add: xy)
  then have "gap_le R k (nb, st') \<and> (go \<longrightarrow> length (running (sch st')) < length (running (sch st)))"
  proof (cases rule: room_body_result)
    case (fits b km)
    then show ?thesis using assms(2) by (simp add: gap_le_def xy)
  next
    case (full km v)
    have d: "distinct (running (sch (on_sch (set_kv km) st)))" using assms(2) by (simp add: gap_le_def xy)
    note p = preempt_victim_running [OF full(2) d]
    have "0 < length (running (sch st))" using p(1) by (cases "running (sch st)") auto
    then have l: "Suc (length (running (sch st'))) = length (running (sch st))" using p(1,2) by (simp add: length_remove1)
    moreover have "distinct (running (sch st'))" "set (running (sch st')) \<subseteq> R"
      using p(2) d assms(2) set_remove1_subset [of v "running (sch st)"] by (auto simp: gap_le_def xy)
    moreover have "int (length (running (sch st))) - req_index st \<le> k" "req_index st - 1 \<le> req_index st'" using assms(2) p(3) by (simp_all add: gap_le_def xy)
    ultimately show ?thesis unfolding gap_le_def by (auto simp flip: l)
  qed
  then show "gap_le R k y" "go \<Longrightarrow> length (running (sch (snd y))) < length (running (sch (snd x)))" by (simp_all add: xy)
qed

interpretation room_gap: guarded_loop "\<lambda>_. True" "room_body env i n" "gap_le R k" "gap_le R k" for env i n R k
  by unfold_locales (auto intro: room_body_gap)

interpretation room_ends: bounded_loop "\<lambda>_. True" "room_body env i n" "gap_le R k" "\<lambda>x. length (running (sch (snd x)))" for env i n R k
proof unfold_locales
  show "\<exists>r. room_body env i n x = Some r" for x by (simp add: room_body_def)
qed (use room_body_gap in blast)+

lemma find_room_returns: "distinct (running (sch st)) \<Longrightarrow> \<exists>r. find_room env i n st = Some r"
  unfolding find_room_def by (rule room_ends.loop_returns [where R = "set (running (sch st))" and k = "int (length (running (sch st))) - req_index st"]) (simp add: gap_le_def)

lemma find_room_gap:
  "find_room env i n st = Some (Inr y) \<Longrightarrow> gap_le R k (None, st) \<Longrightarrow> gap_le R k y"
  unfolding find_room_def by (rule room_gap.loop_result)

lemma plan_running_frame:
  assumes "plan_running i st = Inr (ins, n, eb, st1)" obtains e where "st1 = on_sch (set_enc e) st"
proof -
  from assms have "\<exists>e. st1 = on_sch (set_enc e) st"
    unfolding plan_running_def Let_def by (elim bindE_eq_InrE) (auto elim!: bindE_eq_InrE)
  then show ?thesis using that by blast
qed

lemma running_body_sub:
  assumes "running_body env st = Some (Inr (go, st'))" "distinct (running (sch st))"
  shows "distinct (running (sch st'))" "set (running (sch st')) \<subseteq> set (running (sch st))"
    "go \<Longrightarrow> int (length (running (sch st'))) - req_index st' < int (length (running (sch st))) - req_index st"
proof -
  let ?gap = "gap_le (set (running (sch st))) (int (length (running (sch st))) - req_index st)"
  have room: "?gap y" if pr: "plan_running i st = Inr (ins, n, eb, st1)" and fr: "find_room env i n st1 = Some (Inr y)" for i ins n eb st1 y
  proof -
    obtain e where "st1 = on_sch (set_enc e) st" by (rule plan_running_frame [OF pr])
    then show ?thesis using assms(2) by (intro find_room_gap [OF fr]) (simp add: gap_le_def)
  qed
  have "distinct (running (sch st')) \<and> set (running (sch st')) \<subseteq> set (running (sch st))
    \<and> (go \<longrightarrow> int (length (running (sch st'))) - req_index st' < int (length (running (sch st))) - req_index st)"
    using assms(1)
  proof (cases rule: running_body_result)
    case skip
    then show ?thesis using assms(2) by (simp add: skip_running_def)
  next
    case (none i ins eb st1)
    then show ?thesis using assms(2) by (auto simp: skip_running_def elim!: plan_running_frame)
  next
    case (full i ins n eb st1)
    then show ?thesis using room [OF full(2,4)] by (simp add: gap_le_def)
  next
    case (runs i ins n eb st1 b st2)
    obtain s e x bu sp where st': "running (sch st') = running s" "req_index st' = req_index st2 + 1"
      "s = sch st2 \<or> s = set_obj i (\<lambda>r. r\<lparr>spec_token_ids := []\<rparr>) (sch st2)"
      by (rule commit_running_result [OF runs(5)]) simp
    moreover have "running s = running (sch st2)" using st'(3) by auto
    ultimately show ?thesis using room [OF runs(2,4)] by (simp add: gap_le_def)
  qed
  then show "distinct (running (sch st'))" "set (running (sch st')) \<subseteq> set (running (sch st))"
    "go \<Longrightarrow> int (length (running (sch st'))) - req_index st' < int (length (running (sch st))) - req_index st" by simp_all
qed

interpretation running_sub: guarded_loop running_cond "running_body env"
    "\<lambda>st. distinct (running (sch st)) \<and> set (running (sch st)) \<subseteq> R" "\<lambda>st. distinct (running (sch st)) \<and> set (running (sch st)) \<subseteq> R" for env R
  by unfold_locales (use running_body_sub(1,2) in blast)+

lemma schedule_running_sub:
  assumes "schedule_running env st = Some (Inr st')" "distinct (running (sch st))"
  shows "set (running (sch st')) \<subseteq> set (running (sch st))" "length (running (sch st')) \<le> length (running (sch st))"
proof -
  have "distinct (running (sch st')) \<and> set (running (sch st')) \<subseteq> set (running (sch st))"
    by (rule running_sub.loop_result [OF assms(1) [unfolded schedule_running_def]]) (use assms(2) in simp)
  then show "set (running (sch st')) \<subseteq> set (running (sch st))" "length (running (sch st')) \<le> length (running (sch st))"
    by (simp_all add: card_mono assms(2) flip: distinct_card)
qed

lemma running_body_returns: "distinct (running (sch st)) \<Longrightarrow> \<exists>r. running_body env st = Some r"
proof -
  assume d: "distinct (running (sch st))"
  have "\<exists>r. find_room env i n st1 = Some r" if "plan_running i st = Inr (ins, n, eb, st1)" for i ins n eb st1
    by (rule plan_running_frame [OF that], rule find_room_returns) (use d in simp)
  then show ?thesis unfolding running_body_def
    by (intro bindO_exI) (auto simp: retO_def intro!: bindO_exI split: option.split)
qed

interpretation running_ends: bounded_loop running_cond "running_body env" "\<lambda>st. distinct (running (sch st))"
    "\<lambda>st. nat (int (length (running (sch st))) - req_index st)" for env
proof unfold_locales
  fix st st' assume a: "distinct (running (sch st))" "running_cond st" "running_body env st = Some (Inr (True, st'))"
  have "0 < int (length (running (sch st))) - req_index st" using a(2) by (simp add: running_cond_def)
  then show "distinct (running (sch st')) \<and> nat (int (length (running (sch st'))) - req_index st') < nat (int (length (running (sch st))) - req_index st)"
    using running_body_sub [OF a(3,1)] by simp
qed (rule running_body_returns)

lemma schedule_running_returns: "distinct (running (sch st)) \<Longrightarrow> \<exists>r. schedule_running env st = Some r"
  unfolding schedule_running_def by (rule running_ends.loop_returns)

end
