(* ===== verification/KV_Frame.thy ===== *)
theory KV_Frame
  imports Cache_Manager
begin

text \<open>
  What no operation of the KV cache manager changes. The operations replace the managers and the
  pool of the coordinator and the statistics; the configuration, the attention groups and the
  switches stay, so that the search for cached prefixes keeps returning.
\<close>

definition coord_frame :: "kv_coordinator \<Rightarrow> kv_coordinator \<Rightarrow> bool" where
  "coord_frame co co' \<longleftrightarrow> (\<exists>ms p. co' = co\<lparr>single_type_managers := ms, coord_pool := p\<rparr>)"

definition km_frame :: "kv_cache_manager \<Rightarrow> kv_cache_manager \<Rightarrow> bool" where
  "km_frame km km' \<longleftrightarrow> (\<exists>co st. coord_frame (coordinator km) co \<and> km' = km\<lparr>coordinator := co, km_stats := st\<rparr>)"

lemma coord_frame_refl [simp]: "coord_frame co co"
  unfolding coord_frame_def by (rule exI [of _ "single_type_managers co"], rule exI [of _ "coord_pool co"]) simp

lemma coord_frame_trans: "coord_frame co co1 \<Longrightarrow> coord_frame co1 co2 \<Longrightarrow> coord_frame co co2"
  unfolding coord_frame_def by (elim exE) (simp, blast)

lemma coord_frame_with: "coord_frame co (with_managers co x)"
  by (cases x) (auto simp: with_managers_def coord_frame_def)

lemma coord_frame_pool: "coord_frame co (co\<lparr>coord_pool := p\<rparr>)"
  unfolding coord_frame_def by (rule exI [of _ "single_type_managers co"], rule exI [of _ p]) simp

lemma coord_frame_managers: "coord_frame co (co\<lparr>single_type_managers := ms\<rparr>)"
  unfolding coord_frame_def by (rule exI [of _ ms], rule exI [of _ "coord_pool co"]) simp

lemma km_frame_coord: "coord_frame (coordinator km) co \<Longrightarrow> km_frame km (km\<lparr>coordinator := co\<rparr>)"
  unfolding km_frame_def by (rule exI [of _ co], rule exI [of _ "km_stats km"]) simp

lemma km_frame_refl [simp]: "km_frame km km"
  using km_frame_coord [of km "coordinator km"] by simp

lemma km_frame_trans: "km_frame km km1 \<Longrightarrow> km_frame km1 km2 \<Longrightarrow> km_frame km km2"
  unfolding km_frame_def using coord_frame_trans by fastforce

lemma km_frame_stats: "km_frame km (km\<lparr>km_stats := st\<rparr>)"
  unfolding km_frame_def by (rule exI [of _ "coordinator km"], rule exI [of _ st]) simp

section \<open>The operations\<close>

lemma coord_ops_frame:
  "coord_free rid co = Inr co' \<Longrightarrow> coord_frame co co'"
  "coord_remove_skipped_blocks rid n co = Inr co' \<Longrightarrow> coord_frame co co'"
  "coord_cache_blocks sha r n co = Inr co' \<Longrightarrow> coord_frame co co'"
  "coord_allocate_new_computed_blocks rid new l e co = Inr co' \<Longrightarrow> coord_frame co co'"
  "coord_allocate_new_blocks rid nt mt enc co = Inr (bs, co') \<Longrightarrow> coord_frame co co'"
  "coord_num_blocks_to_allocate rid nt new enc tc mt co = Inr (k, co') \<Longrightarrow> coord_frame co co'"
  unfolding coord_free_def coord_remove_skipped_blocks_def coord_cache_blocks_def coord_allocate_new_computed_blocks_def
    coord_allocate_new_blocks_def coord_num_blocks_to_allocate_def
  by (auto elim!: bindE_eq_InrE intro: coord_frame_with coord_frame_managers)

lemma allocate_slots_frame:
  assumes "allocate_slots sha r new_toks hits new lookahead ext delay enc km = Inr (out, km')" shows "km_frame km km'"
proof -
  let ?x = "given_blocks new km" and ?rid = "request_id r" and ?loc = "num_computed_tokens r + hits"
  let ?tc = "min (?loc + ext) (km_max_model_len km)"
  let ?need = "min (?tc + new_toks + lookahead) (km_max_model_len km)"
  let ?K = "\<lambda>(k, co2). if get_num_free_blocks (coord_pool co2) < k then Inr (None, km\<lparr>coordinator := co2\<rparr>)
           else bindE (if \<not> kvb_prebuilt ?x \<or> 0 < ext then coord_allocate_new_computed_blocks ?rid (kvb_blocks ?x) ?loc ext co2 else Inr co2) (\<lambda>co3.
                bindE (coord_allocate_new_blocks ?rid ?need (?tc + new_toks) enc co3) (\<lambda>(bs, co4).
                  commit_slots sha r (?tc + new_toks) delay km bs co4))"
  from assms obtain co1 y where 1: "coord_remove_skipped_blocks ?rid ?tc (coordinator km) = Inr co1"
    and 2: "coord_num_blocks_to_allocate ?rid ?need (kvb_blocks ?x) enc (?loc + ext) (?tc + new_toks) co1 = Inr y" "?K y = Inr (out, km')"
    unfolding allocate_slots_def Let_def by (auto split: if_split_asm elim!: bindE_eq_InrE simp del: bindE_Inr)
  obtain k co2 where yy: "y = (k, co2)" by force
  have f2: "coord_frame (coordinator km) co2"
    using coord_ops_frame(2) [OF 1] coord_ops_frame(6) [OF 2(1) [unfolded yy]] by (rule coord_frame_trans)
  show ?thesis
  proof (cases "get_num_free_blocks (coord_pool co2) < k")
    case True
    then show ?thesis using 2(2) f2 by (auto simp: yy intro: km_frame_coord)
  next
    case False
    then have "?K (k, co2) = Inr (out, km')" using 2(2) by (simp only: yy)
    then obtain co3 z where 3: "(if \<not> kvb_prebuilt ?x \<or> 0 < ext then coord_allocate_new_computed_blocks ?rid (kvb_blocks ?x) ?loc ext co2 else Inr co2) = Inr co3"
      and 4: "coord_allocate_new_blocks ?rid ?need (?tc + new_toks) enc co3 = Inr z"
      "(\<lambda>(bs, co4). commit_slots sha r (?tc + new_toks) delay km bs co4) z = Inr (out, km')"
      unfolding prod.case if_not_P [OF False] by (elim bindE_eq_InrE)
    obtain bs co4 where zz: "z = (bs, co4)" by force
    have "coord_frame co2 co3" using 3 coord_ops_frame(4) by (cases "\<not> kvb_prebuilt ?x \<or> 0 < ext") auto
    then have f4: "coord_frame (coordinator km) co4"
      using f2 coord_ops_frame(5) [OF 4(1) [unfolded zz]] by (blast intro: coord_frame_trans)
    have "commit_slots sha r (?tc + new_toks) delay km bs co4 = Inr (out, km')" using 4(2) by (simp add: zz)
    then obtain co5 where 5: "(if \<not> km_enable_caching km \<or> delay then Inr co4 else coord_cache_blocks sha r (min (?tc + new_toks) (num_tokens r)) co4) = Inr co5"
      "km' = km\<lparr>coordinator := co5\<rparr>"
      unfolding commit_slots_def by (elim bindE_eq_InrE) simp
    have "coord_frame co4 co5" using 5(1) coord_ops_frame(3) by (cases "\<not> km_enable_caching km \<or> delay") auto
    then show ?thesis using f4 5(2) by (auto intro: km_frame_coord coord_frame_trans)
  qed
qed

lemma km_free_frame: "km_free r km = Inr km' \<Longrightarrow> km_frame km km'"
  unfolding km_free_def on_coordinator_def by (elim bindE_eq_InrE) (auto intro: km_frame_coord coord_ops_frame)

lemma km_cache_frame: "km_cache_blocks sha r n km = Inr km' \<Longrightarrow> km_frame km km'"
  unfolding km_cache_blocks_def on_coordinator_def by (auto split: if_splits elim!: bindE_eq_InrE intro: km_frame_coord coord_ops_frame)

lemma can_fit_frame: "can_fit_full_sequence r h new ext enc km = Inr (b, km') \<Longrightarrow> km_frame km km'"
  unfolding can_fit_full_sequence_def Let_def by (auto elim!: bindE_eq_InrE intro: km_frame_coord coord_ops_frame)

lemma get_computed_frame: "get_computed_blocks r km = Some (Inr (x, km')) \<Longrightarrow> km_frame km km'"
  unfolding get_computed_blocks_def by (auto split: if_splits option.splits elim!: bindE_eq_InrE intro: km_frame_stats)

lemma new_step_frame: "km_frame km (km_new_step_starts km)"
  unfolding km_new_step_starts_def coord_new_step_starts_def by (intro km_frame_coord coord_frame_managers)

section \<open>The search for cached prefixes returns\<close>

definition search_ok :: "kv_cache_manager \<Rightarrow> bool" where
  "search_ok km \<longleftrightarrow> (coord_kind (coordinator km) = Hybrid \<longrightarrow> hybrid_ok (coordinator km))"

lemma search_ok_frame: "km_frame km km' \<Longrightarrow> search_ok km' = search_ok km"
  unfolding km_frame_def coord_frame_def search_ok_def by (auto simp: hybrid_ok_def)

lemma search_ok_init:
  assumes "kv_cache_manager_init config mml hbs batched caching use_eagle log_stats events use_int dcp pcp = Inr km"
    and "\<forall>g \<in> set (kv_cache_groups config). \<forall>s. group_spec g = One_spec s \<longrightarrow> lookup_spec_ok s"
  shows "search_ok km"
proof -
  from assms(1) obtain b co where co: "get_kv_cache_coordinator config mml b use_eagle caching events use_int dcp pcp hbs = Inr co" "coordinator km = co"
    unfolding kv_cache_manager_init_def by (elim bindE_eq_InrE) auto
  show ?thesis
  proof (cases "caching \<and> length (kv_cache_groups config) \<noteq> 1")
    case True
    then have "hybrid_init config mml b use_eagle caching events use_int dcp pcp hbs = Inr co" using co(1) by (simp add: get_kv_cache_coordinator_def)
    then show ?thesis using hybrid_init_ok assms(2) co(2) by (simp add: search_ok_def)
  next
    case False
    then have "coord_kind co \<noteq> Hybrid"
      using co(1) by (auto simp: get_kv_cache_coordinator_def unitary_init_def coordinator_base_init_def Let_def elim!: bindE_eq_InrE split: if_splits)
    then show ?thesis using co(2) by (simp add: search_ok_def)
  qed
qed

lemma hybrid_find_returns:
  assumes "hybrid_ok co" "0 \<le> mh" shows "\<exists>r. hybrid_find hashes mh co = Some r"
proof -
  obtain spec0 gids0 c0 rest where gs: "attention_groups co = (spec0, gids0, c0) # rest"
    using assms(1) by (cases "attention_groups co") (auto simp: hybrid_ok_def Let_def)
  have "\<forall>G \<in> set (attention_groups co). group_ok (length (replicate (length (kv_cache_groups (coord_config co))) None)) (lcm_block_size co) G"
    using assms(1) by (simp add: hybrid_ok_def groups_ok_def Let_def)
  then have "\<exists>r. hybrid_loop co hashes mh simple (mh, replicate (length (kv_cache_groups (coord_config co))) None, {}) = Some r" for simple
    using hybrid_loop_returns [of co "(mh, replicate (length (kv_cache_groups (coord_config co))) None, {})" hashes mh simple] assms(2) by simp
  then show ?thesis using gs by (auto simp: hybrid_find_def)
qed

lemma get_computed_returns:
  assumes "search_ok km" "0 < num_tokens r" shows "\<exists>x. get_computed_blocks r km = Some x"
proof -
  have "\<exists>x. coord_find_longest_cache_hit (block_hashes r) (num_tokens r - 1) (coordinator km) = Some x"
    using assms hybrid_find_returns by (auto simp: coord_find_longest_cache_hit_def search_ok_def split: coord_kind.splits)
  then show ?thesis by (auto simp: get_computed_blocks_def)
qed

end
