(* ===== verification/Scheduler_Waiting.thy ===== *)
theory Scheduler_Waiting
  imports Scheduler_Loops KV_Frame
begin

text \<open>
  The second half of a scheduling step: the loop over the waiting requests, then both halves
  together. A waiting request is at the front of one of two queues; it is held back for the rest
  of the step, or admitted to the running list, or the loop ends.
\<close>

section \<open>Requests at the front of a queue\<close>

definition at_front :: "queue_name \<Rightarrow> nat \<Rightarrow> scheduler \<Rightarrow> bool" where
  "at_front qn i s \<longleftrightarrow> queue_reqs (get_queue qn s) \<noteq> [] \<and> obj_id (queue_reqs (get_queue qn s) ! 0) = i"

lemma at_front_frame [simp]:
  "at_front qn i (s\<lparr>kv_manager := km\<rparr>) = at_front qn i s" "at_front qn i (s\<lparr>encoder_manager := e\<rparr>) = at_front qn i s"
  by (cases qn; simp add: at_front_def)+

lemma get_queue_set_obj [simp]: "get_queue qn (set_obj i f s) = sync_queue i (f (objs s i)) (get_queue qn s)"
  by (cases qn) simp_all

lemma at_front_in: "at_front qn i s \<Longrightarrow> i \<in># ids_in (waiting s) + ids_in (skipped_waiting s)"
  by (cases qn) (auto simp: at_front_def dest!: nth_mem [of 0])

lemma at_front_set_obj:
  assumes "at_front qn i s" "placed E s" "obj_id (f (objs s i)) = obj_id (objs s i)" shows "at_front qn i (set_obj i f s)"
proof -
  have "obj_id (objs s i) = i" using at_front_in [OF assms(1)] by (intro placed_live(1) [OF assms(2)]) auto
  then show ?thesis using assms(1,3) by (cases "queue_reqs (get_queue qn s)") (auto simp: at_front_def)
qed

lemma pop_front: "at_front qn i s \<Longrightarrow> q_pop (get_queue qn s) = Inr (r, q) \<Longrightarrow> obj_id r = i"
  using q_pop_bag [of "get_queue qn s" r q] by (simp add: at_front_def)

lemma next_waiting_front: "next_waiting s = Inr (qn, i) \<Longrightarrow> at_front qn i s"
  unfolding next_waiting_def at_front_def by (elim bindE_eq_InrE) (auto simp: q_peek_first split: option.splits elim!: bindE_eq_InrE)

lemma promote_result:
  "try_promote_blocked_waiting_request env i s = Inr (ok, s1) \<Longrightarrow> s1 = s \<or> s1 = set_obj i (\<lambda>r. r\<lparr>status := WAITING\<rparr>) s"
  unfolding try_promote_blocked_waiting_request_def Let_def by (auto split: if_splits elim!: bindE_eq_InrE)

section \<open>What the parts of the body keep\<close>

text \<open>A request in a queue changes, keeping its names and a status of a waiting request.\<close>

lemma step_placed_set_obj:
  assumes "step_placed st" "i \<in># ids_in (waiting (sch st)) + ids_in (skipped_waiting (sch st))"
    and "obj_id (f (objs (sch st) i)) = obj_id (objs (sch st) i)" "request_id (f (objs (sch st) i)) = request_id (objs (sch st) i)"
    and "waiting_status (status (f (objs (sch st) i)))"
  shows "step_placed (st\<lparr>sch := set_obj i f (sch st)\<rparr>)"
proof -
  have p: "placed (ids_in (step_skipped st)) (sch st)" using assms(1) by (simp add: step_placed_def)
  have "i \<notin># ids_in (step_skipped st)" "i \<notin> set (running (sch st))"
    using placed_disjoint(3) [OF p, of i] placed_disjoint(2) [OF p, of i] assms(2) by auto
  moreover from this have "placed (ids_in (step_skipped st)) (set_obj i f (sch st))"
    by (intro placed_set_obj [where f = f, OF p assms(3,4)]) (use assms(5) in simp_all)
  ultimately show ?thesis using assms(1) unfolding step_placed_def copies_ok_def by (auto simp: image_iff)
qed

definition wait_inv :: "sched_config \<Rightarrow> int \<Rightarrow> step_vars \<Rightarrow> bool" where
  "wait_inv c B st \<longleftrightarrow> config_ok c \<and> accounts B st \<and> step_placed st \<and> conf (sch st) = c
     \<and> int (length (running (sch st))) \<le> max_num_running_reqs c"

lemma wait_inv_frame [simp]:
  "wait_inv c B (st\<lparr>sch := (sch st)\<lparr>kv_manager := km\<rparr>\<rparr>) = wait_inv c B st"
  "wait_inv c B (st\<lparr>sch := (sch st)\<lparr>encoder_manager := e\<rparr>\<rparr>) = wait_inv c B st"
  "wait_inv c B (st\<lparr>sch := (sch st)\<lparr>kv_manager := km, encoder_manager := e\<rparr>\<rparr>) = wait_inv c B st"
  by (simp_all add: wait_inv_def accounts_def step_placed_def total_scheduled_def)

lemma wait_inv_set_obj:
  assumes "wait_inv c B st" "i \<in># ids_in (waiting (sch st)) + ids_in (skipped_waiting (sch st))"
    and "obj_id (f (objs (sch st) i)) = obj_id (objs (sch st) i)" "request_id (f (objs (sch st) i)) = request_id (objs (sch st) i)"
    and "waiting_status (status (f (objs (sch st) i)))"
  shows "wait_inv c B (st\<lparr>sch := set_obj i f (sch st)\<rparr>)"
proof -
  have ac: "accounts B st" using assms(1) by (simp add: wait_inv_def)
  have "accounts B (st\<lparr>sch := set_obj i f (sch st)\<rparr>)"
    by (rule accounts_names [OF ac same_names_set_obj [where f = f, OF assms(3,4)]]) (use accountsD(6) [OF ac] in simp)
  then show ?thesis using assms(1) step_placed_set_obj [where f = f, OF _ assms(2-5)] by (simp add: wait_inv_def)
qed

lemma front_status:
  assumes "step_placed st" "at_front qn i (sch st)"
  shows "waiting_status (status (objs (sch st) i))" "i \<in># ids_in (waiting (sch st)) + ids_in (skipped_waiting (sch st))"
    "obj_id (objs (sch st) i) = i" "i \<notin> set (running (sch st))"
proof -
  have p: "placed (ids_in (step_skipped st)) (sch st)" using assms(1) by (simp add: step_placed_def)
  show m: "i \<in># ids_in (waiting (sch st)) + ids_in (skipped_waiting (sch st))" by (rule at_front_in [OF assms(2)])
  then show "waiting_status (status (objs (sch st) i))" using placedD(6) [OF p] by auto
  show "obj_id (objs (sch st) i) = i" using m by (intro placed_live(1) [OF p]) auto
  show "i \<notin> set (running (sch st))" using placed_disjoint(2) [OF p, of i] m by auto
qed

lemma skip_waiting_inv:
  assumes "skip_waiting qn i st = Inr st'" "wait_inv c B st" "at_front qn i (sch st)"
  shows "wait_inv c B st'"
proof -
  have w: "step_placed st" "accounts B st" using assms(2) by (simp_all add: wait_inv_def)
  then have p: "placed (ids_in (step_skipped st)) (sch st)" by (simp add: step_placed_def)
  note f = front_status [OF w(1) assms(3)]
  obtain r q where pop: "q_pop (get_queue qn (sch st)) = Inr (r, q)"
    and st': "st' = st\<lparr>sch := set_queue qn q (sch st), step_skipped := q_prepend (objs (sch st) i) (step_skipped st)\<rparr>"
    using assms(1) by (auto simp: skip_waiting_def elim!: bindE_eq_InrE)
  have r: "obj_id r = i" by (rule pop_front [OF assms(3) pop])
  have fr: "objs (set_queue qn q (sch st)) = objs (sch st)" "running (set_queue qn q (sch st)) = running (sch st)"
    "conf (set_queue qn q (sch st)) = conf (sch st)" "requests_dict (set_queue qn q (sch st)) = requests_dict (sch st)" by (cases qn; simp)+
  have "step_placed st'"
    using placed_take_queue(1) [OF p pop] w(1) f(1,3) by (auto simp: step_placed_def st' fr r copies_ok_def)
  moreover have "accounts B st'" using w(2) by (simp add: accounts_def st' fr total_scheduled_def)
  ultimately show ?thesis using assms(2) by (simp add: wait_inv_def st' fr)
qed

lemma computed_prefix_result:
  assumes "computed_prefix i st = Some (Inr (bs, loc, k, st'))"
  obtains km where "km_frame (kv_manager (sch st)) km" "st' = on_sch (set_kv km) st"
    | km ps where "km_frame (kv_manager (sch st)) km" "st' = st\<lparr>sch := set_obj i (\<lambda>r. r\<lparr>prefill_stats := ps\<rparr>) (set_kv km (sch st))\<rparr>"
proof (cases "num_computed_tokens (objs (sch st) i) = 0")
  case True
  then have "\<exists>x km s1. get_computed_blocks (objs (sch st) i) (kv_manager (sch st)) = Some (Inr (x, km))
      \<and> note_prefill i loc (set_kv km (sch st)) = Inr s1 \<and> st' = st\<lparr>sch := s1\<rparr>"
    using assms by (auto simp: computed_prefix_def Let_def bindO_eq_Inr retO_def)
  then obtain x km s1 where km: "get_computed_blocks (objs (sch st) i) (kv_manager (sch st)) = Some (Inr (x, km))"
    and s1: "note_prefill i loc (set_kv km (sch st)) = Inr s1" "st' = st\<lparr>sch := s1\<rparr>" by blast
  then have "s1 = set_kv km (sch st) \<or> (\<exists>ps. s1 = set_obj i (\<lambda>r. r\<lparr>prefill_stats := ps\<rparr>) (set_kv km (sch st)))"
    unfolding note_prefill_def Let_def by (auto split: if_splits elim!: bindE_eq_InrE)
  then show ?thesis using s1(2) that get_computed_frame [OF km] by blast
next
  case False
  then have "st' = st" using assms by (simp add: computed_prefix_def Let_def retO_def)
  then have "st' = on_sch (set_kv (kv_manager (sch st))) st" by simp
  then show ?thesis by (rule that(1) [OF km_frame_refl])
qed

lemma computed_prefix_inv:
  assumes "computed_prefix i st = Some (Inr (bs, loc, k, st'))" "wait_inv c B st" "at_front qn i (sch st)"
  shows "wait_inv c B st'" "at_front qn i (sch st')" "running (sch st') = running (sch st)" "token_budget st' = token_budget st"
proof -
  have w: "step_placed st" using assms(2) by (simp add: wait_inv_def)
  note f = front_status [OF w assms(3)]
  have p: "placed (ids_in (step_skipped st)) (sch st)" using w by (simp add: step_placed_def)
  have "wait_inv c B st' \<and> at_front qn i (sch st') \<and> running (sch st') = running (sch st) \<and> token_budget st' = token_budget st"
    using assms(1)
  proof (cases rule: computed_prefix_result)
    case (1 km)
    then show ?thesis using assms(2,3) by simp
  next
    case (2 km ps)
    let ?st = "on_sch (set_kv km) st" and ?f = "\<lambda>r. r\<lparr>prefill_stats := ps\<rparr>"
    have "wait_inv c B (?st\<lparr>sch := set_obj i ?f (sch ?st)\<rparr>)"
      by (rule wait_inv_set_obj) (use assms(2) f in simp_all)
    moreover have "at_front qn i (set_obj i ?f (sch ?st))"
      by (rule at_front_set_obj [where E = "ids_in (step_skipped st)"]) (use assms(3) p in simp_all)
    ultimately show ?thesis by (simp add: 2)
  qed
  then show "wait_inv c B st'" "at_front qn i (sch st')" "running (sch st') = running (sch st)" "token_budget st' = token_budget st" by simp_all
qed

lemma release_inputs_result:
  "release_inputs env r st = Inr st' \<Longrightarrow> \<exists>e. st' = on_sch (set_enc e) st"
proof (cases "has_encoder_inputs r")
  case True
  assume "release_inputs env r st = Inr st'"
  then show ?thesis using True by (auto simp: release_inputs_def elim!: bindE_eq_InrE)
next
  case False
  assume "release_inputs env r st = Inr st'"
  then have "st' = on_sch (set_enc (encoder_manager (sch st))) st" using False by (simp add: release_inputs_def)
  then show ?thesis by blast
qed

lemma allocate_waiting_result:
  assumes "allocate_waiting env i ins n bs loc st = Inr (ok, st')"
  obtains km e where "km_frame (kv_manager (sch st)) km" "st' = on_sch (\<lambda>s. s\<lparr>kv_manager := km, encoder_manager := e\<rparr>) st"
proof -
  have r: "\<exists>km e. km_frame (kv_manager (sch st)) km \<and> st2 = on_sch (\<lambda>s. s\<lparr>kv_manager := km, encoder_manager := e\<rparr>) st"
    if "release_inputs env r (on_sch (set_kv km) st) = Inr st2" "km_frame (kv_manager (sch st)) km" for r km st2
    using release_inputs_result [OF that(1)] that(2) by auto
  have e: "\<exists>km' e. km_frame (kv_manager (sch st)) km' \<and> on_sch (set_kv km) st = on_sch (\<lambda>s. s\<lparr>kv_manager := km', encoder_manager := e\<rparr>) st"
    if "km_frame (kv_manager (sch st)) km" for km
    by (rule exI [of _ km], rule exI [of _ "encoder_manager (sch st)"]) (simp add: that)
  let ?r = "objs (sch st) i" and ?c = "conf (sch st)"
  let ?la = "if num_computed_tokens ?r = 0 then 0 else num_lookahead_tokens ?c"
  let ?K = "\<lambda>enc (fits, km). let st1 = on_sch (set_kv km) st
         in if \<not> fits then bindE (release_inputs env ?r st1) (\<lambda>st2. Inr (False, st2))
            else bindE (allocate_slots (env_sha env) ?r n loc (Some bs) ?la 0 False enc km) (\<lambda>(nb, km').
                 let st2 = on_sch (set_kv km') st1
                 in case nb of
                      None \<Rightarrow> bindE (release_inputs env ?r st2) (\<lambda>st3. Inr (False, st3))
                    | Some _ \<Rightarrow> Inr (True, st2))"
  from assms obtain enc y where fit: "(if scheduler_reserve_full_isl ?c then can_fit_full_sequence ?r loc (Some bs) 0 enc (kv_manager (sch st))
        else Inr (True, kv_manager (sch st))) = Inr y" and y: "?K enc y = Inr (ok, st')"
    unfolding allocate_waiting_def Let_def by (elim bindE_eq_InrE) blast
  obtain fits km where yy: "y = (fits, km)" by force
  note k = y [unfolded yy prod.case]
  have f1: "km_frame (kv_manager (sch st)) km" using fit can_fit_frame by (auto simp: yy split: if_splits)
  have "\<exists>km e. km_frame (kv_manager (sch st)) km \<and> st' = on_sch (\<lambda>s. s\<lparr>kv_manager := km, encoder_manager := e\<rparr>) st"
  proof (cases "fits = True")
    case False
    then show ?thesis using k r f1 by (auto simp: Let_def elim!: bindE_eq_InrE)
  next
    case True
    let ?C = "\<lambda>(nb :: kv_cache_blocks option, km'). case nb of None \<Rightarrow> bindE (release_inputs env ?r (on_sch (set_kv km') (on_sch (set_kv km) st))) (\<lambda>st3. Inr (False, st3))
        | Some _ \<Rightarrow> Inr (True, on_sch (set_kv km') (on_sch (set_kv km) st))"
    have "bindE (allocate_slots (env_sha env) ?r n loc (Some bs) ?la 0 False enc km) ?C = Inr (ok, st')"
      using k True by (simp only: Let_def not_True_eq_False if_False)
    then obtain z where z: "allocate_slots (env_sha env) ?r n loc (Some bs) ?la 0 False enc km = Inr z" "?C z = Inr (ok, st')" by (elim bindE_eq_InrE)
    obtain nb km' where zz: "z = (nb, km')" by force
    have f2: "km_frame (kv_manager (sch st)) km'" using f1 allocate_slots_frame [OF z(1) [unfolded zz]] by (rule km_frame_trans)
    have "?C (nb, km') = Inr (ok, st')" using z(2) unfolding zz .
    then show ?thesis using r [OF _ f2] e [OF f2] by (cases nb) (auto elim!: bindE_eq_InrE)
  qed
  then show ?thesis using that by blast
qed

lemma start_request_result:
  assumes "start_request qn ins n eb k st = Inr st'"
  obtains r q s where "q_pop (get_queue qn (sch st)) = Inr (r, q)" "status (objs (sch st) (obj_id r)) \<in> {WAITING, PREEMPTED}"
    "s = (set_obj (obj_id r) (\<lambda>r. r\<lparr>status := RUNNING, num_computed_tokens := k\<rparr>) (set_queue qn q (sch st)))\<lparr>running := running (sch st) @ [obj_id r]\<rparr>"
    "\<exists>e. sch st' = s\<lparr>encoder_manager := e\<rparr>" "run_reqs st' = run_reqs st" "step_skipped st' = step_skipped st" "preempted_reqs st' = preempted_reqs st"
    "new_reqs st' = new_reqs st @ [obj_id r] \<and> resumed_reqs st' = resumed_reqs st \<or> new_reqs st' = new_reqs st \<and> resumed_reqs st' = resumed_reqs st @ [obj_id r]"
    "sched_toks st' = dict_set (request_id (objs (sch st) (obj_id r))) n (sched_toks st)" "token_budget st' = token_budget st - n"
proof -
  let ?f = "\<lambda>r. r\<lparr>status := RUNNING, num_computed_tokens := k\<rparr>"
  from assms obtain r q where pop: "q_pop (get_queue qn (sch st)) = Inr (r, q)"
    and 1: "(let i = obj_id r; st1 = on_sch (\<lambda>s. (set_queue qn q s)\<lparr>running := running s @ [i]\<rparr>) st
       in bindE (note_started i st1) (\<lambda>st2.
          let st3 = note_lora i st2; s = sch st3; rid = request_id (objs s i);
              st4 = st3\<lparr>blocks_of := dict_set rid (km_get_blocks rid (kv_manager s)) (blocks_of st3),
                        sched_toks := dict_set rid n (sched_toks st3), token_budget := token_budget st3 - n,
                        sch := set_obj i ?f s\<rparr>
          in commit_inputs i ins eb st4)) = Inr st'"
    unfolding start_request_def by (elim bindE_eq_InrE) (simp only: split_paired_all prod.case)
  let ?i = "obj_id r"
  let ?s1 = "(set_queue qn q (sch st))\<lparr>running := running (sch st) @ [?i]\<rparr>"
  let ?st1 = "st\<lparr>sch := ?s1\<rparr>"
  have ob: "objs ?s1 = objs (sch st)" by (cases qn) simp_all
  from 1 obtain st2 where 2: "note_started ?i ?st1 = Inr st2"
    and 3: "(let st3 = note_lora ?i st2; s = sch st3; rid = request_id (objs s ?i);
              st4 = st3\<lparr>blocks_of := dict_set rid (km_get_blocks rid (kv_manager s)) (blocks_of st3),
                        sched_toks := dict_set rid n (sched_toks st3), token_budget := token_budget st3 - n,
                        sch := set_obj ?i ?f s\<rparr>
          in commit_inputs ?i ins eb st4) = Inr st'"
    unfolding Let_def by (elim bindE_eq_InrE) simp
  have st2: "status (objs (sch st) ?i) \<in> {WAITING, PREEMPTED}"
    "st2 = ?st1\<lparr>new_reqs := new_reqs st @ [?i]\<rparr> \<or> st2 = ?st1\<lparr>resumed_reqs := resumed_reqs st @ [?i]\<rparr>"
    using 2 by (auto simp: note_started_def ob split: request_status.splits)
  obtain l where l: "note_lora ?i st2 = st2\<lparr>scheduled_loras := l\<rparr>"
  proof -
    consider "note_lora ?i st2 = st2" | l where "note_lora ?i st2 = st2\<lparr>scheduled_loras := l\<rparr>"
      by (cases "max_loras (conf (sch st2))"; cases "lora_request (objs (sch st2) ?i)") (simp_all add: note_lora_def)
    then show ?thesis
    proof cases
      case 1
      then show ?thesis by (intro that [of "scheduled_loras st2"]) simp
    qed (rule that)
  qed
  have sch2: "sch st2 = ?s1" using st2(2) by auto
  obtain e x b where st': "st' = on_sch (set_enc e) ((note_lora ?i st2)\<lparr>
        blocks_of := dict_set (request_id (objs ?s1 ?i)) (km_get_blocks (request_id (objs ?s1 ?i)) (kv_manager ?s1)) (blocks_of st2),
        sched_toks := dict_set (request_id (objs ?s1 ?i)) n (sched_toks st2), token_budget := token_budget st2 - n,
        sch := set_obj ?i ?f ?s1, enc_sched := x, enc_budget := b\<rparr>)"
    using 3 unfolding Let_def l by (auto simp: sch2 dest!: commit_inputs_result)
  have c: "set_obj ?i ?f ?s1 = (set_obj ?i ?f (set_queue qn q (sch st)))\<lparr>running := running (sch st) @ [?i]\<rparr>"
    by (simp add: set_obj_def Let_def)
  show ?thesis
    by (rule that [OF pop st2(1) refl]) (use st2(2) in \<open>auto simp: st' l c ob\<close>)
qed

lemma start_request_sch:
  assumes "start_request qn ins n eb k st = Inr st'"
  shows "\<exists>r q e. q_pop (get_queue qn (sch st)) = Inr (r, q)
    \<and> sch st' = (set_obj (obj_id r) (\<lambda>r. r\<lparr>status := RUNNING, num_computed_tokens := k\<rparr>) (set_queue qn q (sch st)))
        \<lparr>running := running (sch st) @ [obj_id r], encoder_manager := e\<rparr>"
proof (rule start_request_result [OF assms])
  fix r :: request and q s
  let ?s = "(set_obj (obj_id r) (\<lambda>r. r\<lparr>status := RUNNING, num_computed_tokens := k\<rparr>) (set_queue qn q (sch st)))\<lparr>running := running (sch st) @ [obj_id r]\<rparr>"
  assume a: "q_pop (get_queue qn (sch st)) = Inr (r, q)" "s = ?s" "\<exists>e. sch st' = s\<lparr>encoder_manager := e\<rparr>"
  from a(3) obtain e where "sch st' = ?s\<lparr>encoder_manager := e\<rparr>" unfolding a(2) ..
  with a(1) show ?thesis by (intro exI conjI)
qed

lemma start_request_inv:
  assumes run: "start_request qn ins n eb k st = Inr st'" and inv: "wait_inv c B st" and fr: "at_front qn i (sch st)"
    and n: "0 < n" "n \<le> token_budget st" and room: "int (length (running (sch st))) < max_num_running_reqs c"
  shows "wait_inv c B st'"
proof -
  let ?f = "\<lambda>r. r\<lparr>status := RUNNING, num_computed_tokens := k\<rparr>"
  obtain r q s where pop: "q_pop (get_queue qn (sch st)) = Inr (r, q)"
    and s: "s = (set_obj (obj_id r) ?f (set_queue qn q (sch st)))\<lparr>running := running (sch st) @ [obj_id r]\<rparr>"
    and st': "\<exists>e. sch st' = s\<lparr>encoder_manager := e\<rparr>" "run_reqs st' = run_reqs st" "step_skipped st' = step_skipped st"
      "new_reqs st' = new_reqs st @ [obj_id r] \<and> resumed_reqs st' = resumed_reqs st \<or> new_reqs st' = new_reqs st \<and> resumed_reqs st' = resumed_reqs st @ [obj_id r]"
      "sched_toks st' = dict_set (request_id (objs (sch st) (obj_id r))) n (sched_toks st)" "token_budget st' = token_budget st - n"
    by (rule start_request_result [OF run])
  have r: "obj_id r = i" by (rule pop_front [OF fr pop])
  note s = s [unfolded r] and st' = st' [unfolded r]
  have w: "step_placed st" "accounts B st" "conf (sch st) = c" using inv by (simp_all add: wait_inv_def)
  then have p: "placed (ids_in (step_skipped st)) (sch st)" by (simp add: step_placed_def)
  note f = front_status [OF w(1) fr]
  have ob: "objs (set_queue qn q (sch st)) = objs (sch st)" "requests_dict (set_queue qn q (sch st)) = requests_dict (sch st)"
    "conf (set_queue qn q (sch st)) = conf (sch st)" by (cases qn; simp)+
  have "placed (add_mset i (ids_in (step_skipped st))) (set_obj i ?f (set_queue qn q (sch st)))"
    using placed_take_queue(1) [OF p pop] by (intro placed_set_free [where f = ?f]) (simp_all add: r)
  then have "placed (ids_in (step_skipped st)) ((set_obj i ?f (set_queue qn q (sch st)))\<lparr>running := running (set_obj i ?f (set_queue qn q (sch st))) @ [i]\<rparr>)"
    by (rule placed_put_run) (simp add: ob)
  moreover have "running (set_obj i ?f (set_queue qn q (sch st))) = running (sch st)" by (cases qn) simp_all
  ultimately have ps: "placed (ids_in (step_skipped st)) s" by (simp only: s)
  have sn: "same_names (sch st) s" "running s = running (sch st) @ [i]" "objs s = (objs (sch st))(i := ?f (objs (sch st) i))"
    by (simp_all add: s same_names_def ob)
  have out: "i \<notin> set (scheduled_reqs st)" using accountsD(6) [OF w(2)] f(4) by blast
  have ac: "accounts B (st\<lparr>sch := s\<rparr>)"
    by (rule accounts_names [OF w(2) sn(1)]) (use accountsD(6) [OF w(2)] sn(2) in auto)
  have nm: "request_id (objs s i) = request_id (objs (sch st) i)" using sn(1) by (simp add: same_names_def)
  obtain b d where bd: "new_reqs st' = new_reqs st @ b" "resumed_reqs st' = resumed_reqs st @ d" "[] @ b @ d = [i]"
    using st'(4) that [of "[i]" "[]"] that [of "[]" "[i]"] by auto
  have "accounts B st'"
    by (rule accounts_add [OF ac _ _ _ n(1) _ _ _ _ bd(3)])
      (use ps out n(2) st' bd sn(2) nm in \<open>auto simp: same_names_def\<close>)
  moreover have "i \<notin># ids_in (step_skipped st)" using placed_disjoint(3) [OF p, of i] f(2) by auto
  then have "step_placed st'"
    using w(1) ps st'(1,3) sn(3) by (auto simp: step_placed_def copies_ok_def image_iff)
  ultimately show ?thesis using inv room st'(1) sn by (auto simp: wait_inv_def same_names_def)
qed

lemma waiting_body_cases:
  assumes "waiting_body env st = Some (Inr (go, st'))"
  obtains (stop) "\<not> go" "st' = st"
    | (round) qn i s1 where "int (length (running (sch st))) \<noteq> max_num_running_reqs (conf (sch st))" "next_waiting (sch st) = Inr (qn, i)"
      "s1 = sch st \<or> waiting_status (status (objs (sch st) i)) \<and> s1 = set_obj i (\<lambda>r. r\<lparr>status := WAITING\<rparr>) (sch st)"
      "skip_waiting qn i (st\<lparr>sch := s1\<rparr>) = Inr st' \<and> go \<or> admit env qn i (st\<lparr>sch := s1\<rparr>) = Some (Inr (go, st'))"
proof (cases "int (length (running (sch st))) = max_num_running_reqs (conf (sch st))")
  case True
  then show ?thesis using assms by (intro stop) (simp_all add: waiting_body_def retO_def)
next
  case False
  let ?p = "\<lambda>i. if is_blocked_waiting_status (status (objs (sch st) i)) then try_promote_blocked_waiting_request env i (sch st) else Inr (True, sch st)"
  let ?k = "\<lambda>qn i (ok, s1). let st1 = st\<lparr>sch := s1\<rparr>
             in if \<not> ok \<or> lora_full (objs s1 i) st1
                then bindO (Some (skip_waiting qn i st1)) (\<lambda>st2. retO (True, st2)) else admit env qn i st1"
  have "bindO (Some (next_waiting (sch st))) (\<lambda>(qn, i). bindO (Some (?p i)) (?k qn i)) = Some (Inr (go, st'))"
    using assms False by (simp add: waiting_body_def)
  then obtain z where z: "next_waiting (sch st) = Inr z" "(\<lambda>(qn, i). bindO (Some (?p i)) (?k qn i)) z = Some (Inr (go, st'))"
    by (elim bindO_InrE) (simp only: option.inject)
  obtain qn i where zz: "z = (qn, i)" by force
  from z(2) obtain y where y: "?p i = Inr y" "?k qn i y = Some (Inr (go, st'))" unfolding zz prod.case by (elim bindO_InrE) (simp only: option.inject)
  obtain ok s1 where yy: "y = (ok, s1)" by force
  have s1: "s1 = sch st \<or> waiting_status (status (objs (sch st) i)) \<and> s1 = set_obj i (\<lambda>r. r\<lparr>status := WAITING\<rparr>) (sch st)"
  proof (cases "is_blocked_waiting_status (status (objs (sch st) i))")
    case True
    show ?thesis
    proof (cases "status (objs (sch st) i) = WAITING_FOR_REMOTE_KVS")
      case True
      then show ?thesis using y(1) by (auto simp: try_promote_blocked_waiting_request_def yy is_blocked_waiting_status_def)
    next
      case F: False
      then have "waiting_status (status (objs (sch st) i))" using True by (auto simp add: is_blocked_waiting_status_def waiting_status_def)
      then show ?thesis using y(1) True promote_result by (auto simp: yy)
    qed
  qed (use y(1) yy in simp)
  have "skip_waiting qn i (st\<lparr>sch := s1\<rparr>) = Inr st' \<and> go \<or> admit env qn i (st\<lparr>sch := s1\<rparr>) = Some (Inr (go, st'))"
    using y(2) by (auto simp: yy Let_def bindO_eq_Inr retO_def split: if_splits)
  then show ?thesis using False z(1) zz s1 by (intro round [of qn i s1]) simp_all
qed

lemma admit_cases:
  assumes "admit env qn i st = Some (Inr (go, st'))"
  obtains bs loc k st1 plan st2 where "computed_prefix i st = Some (Inr (bs, loc, k, st1))" "plan_waiting i loc k st1 = Inr (plan, st2)"
    "plan = None \<and> \<not> go \<and> st' = st2
     \<or> (\<exists>ins n eb ok st3. plan = Some (ins, n, eb) \<and> allocate_waiting env i ins n bs loc st2 = Inr (ok, st3)
          \<and> (\<not> ok \<and> \<not> go \<and> st' = st3 \<or> ok \<and> go \<and> start_request qn ins n eb k st3 = Inr st'))"
proof -
  let ?k = "\<lambda>(bs, loc, k, st1). bindO (Some (plan_waiting i loc k st1)) (\<lambda>(plan, st2). case plan of
         None \<Rightarrow> retO (False, st2)
       | Some (ins, n, eb) \<Rightarrow> bindO (Some (allocate_waiting env i ins n bs loc st2)) (\<lambda>(ok, st3).
             if \<not> ok then retO (False, st3) else bindO (Some (start_request qn ins n eb k st3)) (\<lambda>st4. retO (True, st4))))"
  from assms obtain y where y: "computed_prefix i st = Some (Inr y)" "?k y = Some (Inr (go, st'))" unfolding admit_def by (rule bindO_InrE)
  obtain bs loc k st1 where yy: "y = (bs, loc, k, st1)" by (cases y)
  obtain z where z: "plan_waiting i loc k st1 = Inr z" "(\<lambda>(plan, st2). case plan of
         None \<Rightarrow> retO (False, st2)
       | Some (ins, n, eb) \<Rightarrow> bindO (Some (allocate_waiting env i ins n bs loc st2)) (\<lambda>(ok, st3).
             if \<not> ok then retO (False, st3) else bindO (Some (start_request qn ins n eb k st3)) (\<lambda>st4. retO (True, st4)))) z = Some (Inr (go, st'))"
    using y(2) unfolding yy prod.case by (elim bindO_InrE) (simp only: option.inject)
  obtain plan st2 where zz: "z = (plan, st2)" by force
  show ?thesis
    by (rule that [OF y(1) [unfolded yy] z(1) [unfolded zz]])
      (use z(2) in \<open>auto simp: zz bindO_eq_Inr retO_def ex_bool_eq split: option.splits if_splits\<close>)
qed

lemma admit_inv:
  assumes run: "admit env qn i st = Some (Inr (go, st'))" and inv: "wait_inv c B st" and fr: "at_front qn i (sch st)"
    and room: "int (length (running (sch st))) < max_num_running_reqs c"
  shows "wait_inv c B st'"
proof -
  obtain bs loc k st1 plan st2 where cp: "computed_prefix i st = Some (Inr (bs, loc, k, st1))" and pl: "plan_waiting i loc k st1 = Inr (plan, st2)"
    and fin: "plan = None \<and> \<not> go \<and> st' = st2
     \<or> (\<exists>ins n eb ok st3. plan = Some (ins, n, eb) \<and> allocate_waiting env i ins n bs loc st2 = Inr (ok, st3)
          \<and> (\<not> ok \<and> \<not> go \<and> st' = st3 \<or> ok \<and> go \<and> start_request qn ins n eb k st3 = Inr st'))"
    by (rule admit_cases [OF run])
  note c1 = computed_prefix_inv [OF cp inv fr]
  have cc: "conf (sch st1) = c" "config_ok c" using c1(1) by (simp_all add: wait_inv_def)
  note ps = plan_waiting_spec [OF pl cc]
  then obtain e where st2: "st2 = on_sch (set_enc e) st1" by blast
  have w2: "wait_inv c B st2" using c1(1) by (simp add: st2)
  show ?thesis using fin
  proof (elim disjE conjE exE)
    fix ins n eb ok st3
    assume plan: "plan = Some (ins, n, eb)" and al: "allocate_waiting env i ins n bs loc st2 = Inr (ok, st3)"
    obtain km e' where st3: "st3 = on_sch (\<lambda>s. s\<lparr>kv_manager := km, encoder_manager := e'\<rparr>) st2" by (rule allocate_waiting_result [OF al])
    have w3: "wait_inv c B st3" using w2 by (simp add: st3)
    show ?thesis if "st' = st3" using w3 that by simp
    assume sr: "start_request qn ins n eb k st3 = Inr st'"
    have n: "0 < n" "n \<le> token_budget st3" using ps plan by (simp_all add: st3 st2)
    have "at_front qn i (sch st3)" "int (length (running (sch st3))) < max_num_running_reqs c"
      using c1(2,3) room by (simp_all add: st3 st2)
    from start_request_inv [OF sr w3 this(1) n this(2)] show ?thesis .
  qed (use w2 in simp)
qed

lemma waiting_body_inv:
  assumes inv: "wait_inv c B st" and run: "waiting_body env st = Some (Inr (go, st'))"
  shows "wait_inv c B st'"
  using run
proof (cases rule: waiting_body_cases)
  case stop
  then show ?thesis using inv by simp
next
  case (round qn i s1)
  have w: "step_placed st" using inv by (simp add: wait_inv_def)
  then have p: "placed (ids_in (step_skipped st)) (sch st)" by (simp add: step_placed_def)
  have fr: "at_front qn i (sch st)" by (rule next_waiting_front [OF round(2)])
  note f = front_status [OF w fr]
  let ?f = "\<lambda>r. r\<lparr>status := WAITING\<rparr>"
  have s1: "wait_inv c B (st\<lparr>sch := s1\<rparr>)" "at_front qn i s1" "running s1 = running (sch st)"
    using round(3) inv fr wait_inv_set_obj [where f = ?f, OF inv f(2)] at_front_set_obj [where f = ?f, OF fr p] by (auto simp: waiting_status_def)
  have room: "int (length (running s1)) < max_num_running_reqs c" using round(1) inv s1(3) by (simp add: wait_inv_def)
  show ?thesis using round(4)
  proof (elim disjE conjE)
    assume "skip_waiting qn i (st\<lparr>sch := s1\<rparr>) = Inr st'"
    from skip_waiting_inv [OF this s1(1)] s1(2) show ?thesis by simp
  next
    assume "admit env qn i (st\<lparr>sch := s1\<rparr>) = Some (Inr (go, st'))"
    from admit_inv [OF this s1(1)] s1(2) room show ?thesis by simp
  qed
qed

interpretation waiting_loop: guarded_loop waiting_cond "waiting_body env" "wait_inv c B" "wait_inv c B" for env c B
  by unfold_locales (auto intro: waiting_body_inv)

end
