(* ===== verification/Scheduler_Frame.thy ===== *)
theory Scheduler_Frame
  imports Scheduler_Waiting KV_Frame
begin

text \<open>
  What a scheduling step leaves alone, and that it ends. A step changes five fields of requests,
  the managers and the pool below the KV cache manager, the encoder cache and the places of
  requests; nothing else of a request, and not the dict of requests.
\<close>

section \<open>The frame of a step\<close>

definition same_request :: "request \<Rightarrow> request \<Rightarrow> bool" where
  "same_request r r' \<longleftrightarrow> (\<exists>st k sp np ps. r' = r\<lparr>status := st, num_computed_tokens := k, spec_token_ids := sp,
     num_preemptions := np, prefill_stats := ps\<rparr>)"

definition step_frame :: "scheduler \<Rightarrow> scheduler \<Rightarrow> bool" where
  "step_frame s s' \<longleftrightarrow> requests_dict s' = requests_dict s \<and> conf s' = conf s \<and> pause_state s' = pause_state s
     \<and> km_frame (kv_manager s) (kv_manager s') \<and> (\<forall>i. same_request (objs s i) (objs s' i))"

lemma same_requestI [intro]:
  "same_request r r" "same_request r (r\<lparr>status := st\<rparr>)" "same_request r (r\<lparr>spec_token_ids := sp\<rparr>)" "same_request r (r\<lparr>prefill_stats := ps\<rparr>)"
  "same_request r (r\<lparr>status := st, num_computed_tokens := k\<rparr>)"
  "same_request r (r\<lparr>status := st, num_computed_tokens := k, spec_token_ids := sp, num_preemptions := np\<rparr>)"
proof -
  have g: "same_request r (r\<lparr>status := st, num_computed_tokens := k, spec_token_ids := sp, num_preemptions := np, prefill_stats := ps\<rparr>)"
    for st k sp np ps unfolding same_request_def by blast
  show "same_request r r" using g [where st = "status r" and k = "num_computed_tokens r" and sp = "spec_token_ids r" and np = "num_preemptions r" and ps = "prefill_stats r"] by simp
  show "same_request r (r\<lparr>status := st\<rparr>)" using g [where st = st and k = "num_computed_tokens r" and sp = "spec_token_ids r" and np = "num_preemptions r" and ps = "prefill_stats r"] by simp
  show "same_request r (r\<lparr>spec_token_ids := sp\<rparr>)" using g [where st = "status r" and k = "num_computed_tokens r" and sp = sp and np = "num_preemptions r" and ps = "prefill_stats r"] by simp
  show "same_request r (r\<lparr>prefill_stats := ps\<rparr>)" using g [where st = "status r" and k = "num_computed_tokens r" and sp = "spec_token_ids r" and np = "num_preemptions r" and ps = ps] by simp
  show "same_request r (r\<lparr>status := st, num_computed_tokens := k\<rparr>)" using g [where st = st and k = k and sp = "spec_token_ids r" and np = "num_preemptions r" and ps = "prefill_stats r"] by simp
  show "same_request r (r\<lparr>status := st, num_computed_tokens := k, spec_token_ids := sp, num_preemptions := np\<rparr>)"
    using g [where st = st and k = k and sp = sp and np = np and ps = "prefill_stats r"] by simp
qed

lemma same_request_trans: "same_request r r1 \<Longrightarrow> same_request r1 r2 \<Longrightarrow> same_request r r2"
  unfolding same_request_def by (elim exE) (simp, blast)

lemma same_request_toks: "same_request r r' \<Longrightarrow> num_tokens r' = num_tokens r"
  unfolding same_request_def by (auto simp: num_tokens_def)

lemma step_frame_refl: "step_frame s s"
  by (auto simp: step_frame_def)

lemma step_frame_trans: "step_frame s s1 \<Longrightarrow> step_frame s1 s2 \<Longrightarrow> step_frame s s2"
  unfolding step_frame_def by (auto intro: km_frame_trans same_request_trans)

lemma step_frame_kv: "km_frame (kv_manager s) km \<Longrightarrow> step_frame s (s\<lparr>kv_manager := km\<rparr>)"
  by (auto simp: step_frame_def)

lemma step_frame_moves [simp]:
  "step_frame s (s'\<lparr>encoder_manager := e\<rparr>) = step_frame s s'" "step_frame s (s'\<lparr>running := x\<rparr>) = step_frame s s'"
  "step_frame s (s'\<lparr>waiting := w\<rparr>) = step_frame s s'" "step_frame s (s'\<lparr>skipped_waiting := w\<rparr>) = step_frame s s'"
  "step_frame s (set_queue qn w s') = step_frame s s'"
  by (cases qn; simp add: step_frame_def)+

lemma step_frame_set_obj: "(\<And>r. same_request r (f r)) \<Longrightarrow> step_frame s (set_obj i f s)"
  by (auto simp: step_frame_def)

text \<open>The parts of a step.\<close>

lemma preempt_request_frame:
  assumes "preempt_request env v s = Inr s'" shows "step_frame s s'"
proof -
  obtain km e where km: "km_free (objs s v) (kv_manager s) = Inr km"
    and s': "s' = (let s3 = set_obj v (\<lambda>r. r\<lparr>status := PREEMPTED, num_computed_tokens := 0, spec_token_ids := [],
              num_preemptions := num_preemptions r + 1\<rparr>) (s\<lparr>kv_manager := km, encoder_manager := e\<rparr>)
           in s3\<lparr>waiting := q_prepend (objs s3 v) (waiting s3)\<rparr>)"
    by (rule preempt_request_result [OF assms])
  have "step_frame s (s\<lparr>kv_manager := km\<rparr>)" by (rule step_frame_kv [OF km_free_frame [OF km]])
  then have "step_frame s (s\<lparr>kv_manager := km, encoder_manager := e\<rparr>)" by simp
  from step_frame_trans [OF this step_frame_set_obj [of "\<lambda>r. r\<lparr>status := PREEMPTED, num_computed_tokens := 0, spec_token_ids := [],
              num_preemptions := num_preemptions r + 1\<rparr>" _ v]]
  show ?thesis unfolding s' Let_def by (auto intro: same_requestI)
qed

lemma unschedule_sch: "unschedule v st = Inr st' \<Longrightarrow> sch st' = sch st"
  by (erule unschedule_result)

lemma take_victim_frame: "take_victim st = Inr (v, st') \<Longrightarrow> step_frame (sch st) (sch st')"
  unfolding take_victim_def Let_def by (auto split: if_split_asm elim!: bindE_eq_InrE dest!: unschedule_sch simp: step_frame_refl)

lemma preempt_victim_frame:
  assumes "preempt_victim env st = Inr (v, st')" shows "step_frame (sch st) (sch st')"
proof -
  let ?k = "\<lambda>(v, st1). bindE (preempt_request env v (sch st1)) (\<lambda>s. Inr (v, st1\<lparr>sch := s, preempted_reqs := preempted_reqs st1 @ [v]\<rparr>))"
  have "bindE (take_victim st) ?k = Inr (v, st')" using assms by (simp add: preempt_victim_def)
  then obtain y where y: "take_victim st = Inr y" "?k y = Inr (v, st')" by (elim bindE_eq_InrE)
  obtain w st2 where yy: "y = (w, st2)" by force
  obtain s where s: "preempt_request env w (sch st2) = Inr s" "sch st' = s"
    using y(2) unfolding yy prod.case by (elim bindE_eq_InrE) auto
  show ?thesis using take_victim_frame [OF y(1) [unfolded yy]] preempt_request_frame [OF s(1)] unfolding s(2) by (rule step_frame_trans)
qed

lemma room_body_frame:
  assumes "room_body env i n x = Some (Inr (go, y))" shows "step_frame (sch (snd x)) (sch (snd y))"
proof -
  obtain nb0 st nb st' where xy: "x = (nb0, st)" "y = (nb, st')" by force
  have "room_body env i n (nb0, st) = Some (Inr (go, nb, st'))" using assms by (simp add: xy)
  then have "step_frame (sch st) (sch st')"
  proof (cases rule: room_body_result)
    case (fits b km)
    then show ?thesis using step_frame_kv [OF allocate_slots_frame [OF fits(1)]] by simp
  next
    case (full km v)
    have "step_frame (sch st) (sch (on_sch (set_kv km) st))" using step_frame_kv [OF allocate_slots_frame [OF full(1)]] by simp
    then show ?thesis using preempt_victim_frame [OF full(2)] by (rule step_frame_trans)
  qed
  then show ?thesis by (simp add: xy)
qed

interpretation room_frame: guarded_loop "\<lambda>_. True" "room_body env i n" "\<lambda>x. step_frame s (sch (snd x))" "\<lambda>x. step_frame s (sch (snd x))" for env i n s
  by unfold_locales (use room_body_frame step_frame_trans in blast)+

lemma find_room_frame: "find_room env i n st = Some (Inr (nb, st')) \<Longrightarrow> step_frame (sch st) (sch st')"
  using room_frame.loop_result [of env i n "(None, st)" "(nb, st')" "sch st"] by (simp add: find_room_def step_frame_refl)

lemma running_body_frame:
  assumes "running_body env st = Some (Inr (go, st'))" shows "step_frame (sch st) (sch st')"
  using assms
proof (cases rule: running_body_result)
  case skip
  then show ?thesis by (simp add: skip_running_def step_frame_refl)
next
  case (none i ins eb st1)
  then show ?thesis by (auto simp: skip_running_def step_frame_refl elim!: plan_running_frame)
next
  case (full i ins n eb st1)
  then show ?thesis using find_room_frame [OF full(4)] by (auto elim!: plan_running_frame simp: step_frame_def)
next
  case (runs i ins n eb st1 b st2)
  obtain e where st1: "st1 = on_sch (set_enc e) st" by (rule plan_running_frame [OF runs(2)])
  obtain s e' x bu sp where st': "sch st' = s\<lparr>encoder_manager := e'\<rparr>" "s = sch st2 \<or> s = set_obj i (\<lambda>r. r\<lparr>spec_token_ids := []\<rparr>) (sch st2)"
    by (rule commit_running_result [OF runs(5)]) simp
  have "step_frame (sch st) (sch st1)" by (simp add: st1 step_frame_refl)
  then have f: "step_frame (sch st) (sch st2)" using find_room_frame [OF runs(4)] by (rule step_frame_trans)
  have "step_frame (sch st2) s" using st'(2) step_frame_set_obj [of "\<lambda>r. r\<lparr>spec_token_ids := []\<rparr>"] by (auto simp: step_frame_refl)
  with f have "step_frame (sch st) s" by (rule step_frame_trans)
  then show ?thesis by (simp add: st'(1))
qed

interpretation running_frame: guarded_loop running_cond "running_body env" "\<lambda>st. step_frame s (sch st)" "\<lambda>st. step_frame s (sch st)" for env s
  by unfold_locales (use running_body_frame step_frame_trans in blast)+

lemma schedule_running_frame: "schedule_running env st = Some (Inr st') \<Longrightarrow> step_frame (sch st) (sch st')"
  using running_frame.loop_result [of env st st' "sch st"] by (simp add: schedule_running_def step_frame_refl)

section \<open>The waiting loop\<close>

lemma computed_prefix_frame:
  assumes "computed_prefix i st = Some (Inr (bs, loc, k, st'))" shows "step_frame (sch st) (sch st')"
  using assms
proof (cases rule: computed_prefix_result)
  case (1 km)
  then show ?thesis using step_frame_kv [OF 1(1)] by simp
next
  case (2 km ps)
  show ?thesis using step_frame_trans [OF step_frame_kv [OF 2(1)] step_frame_set_obj [of "\<lambda>r. r\<lparr>prefill_stats := ps\<rparr>" _ i]]
    by (auto simp: 2(2))
qed

lemma plan_waiting_frame:
  assumes "plan_waiting i loc k st = Inr (plan, st')" shows "\<exists>e. st' = on_sch (set_enc e) st"
proof (cases "\<not> enable_chunked_prefill (conf (sch st)) \<and> token_budget st < waiting_tokens (conf (sch st)) (objs (sch st) i) k")
  case True
  then have "st' = on_sch (set_enc (encoder_manager (sch st))) st" using assms by (simp add: plan_waiting_def Let_def)
  then show ?thesis by blast
next
  case False
  then show ?thesis using assms unfolding plan_waiting_def Let_def by (auto split: if_split_asm elim!: bindE_eq_InrE)
qed

lemma start_request_frame:
  assumes "start_request qn ins n eb k st = Inr st'" shows "step_frame (sch st) (sch st')"
proof -
  obtain r q e where "q_pop (get_queue qn (sch st)) = Inr (r, q)" and st': "sch st' = (set_obj (obj_id r) (\<lambda>r. r\<lparr>status := RUNNING, num_computed_tokens := k\<rparr>) (set_queue qn q (sch st)))
        \<lparr>running := running (sch st) @ [obj_id r], encoder_manager := e\<rparr>"
    using start_request_sch [OF assms] by blast
  have "step_frame (sch st) (set_queue qn q (sch st))" by (simp add: step_frame_refl)
  then have "step_frame (sch st) (set_obj (obj_id r) (\<lambda>r. r\<lparr>status := RUNNING, num_computed_tokens := k\<rparr>) (set_queue qn q (sch st)))"
    by (rule step_frame_trans [OF _ step_frame_set_obj]) (rule same_requestI)
  then show ?thesis by (simp add: st')
qed

lemma admit_frame:
  assumes "admit env qn i st = Some (Inr (go, st'))" shows "step_frame (sch st) (sch st')"
proof -
  obtain bs loc k st1 plan st2 where cp: "computed_prefix i st = Some (Inr (bs, loc, k, st1))" and pl: "plan_waiting i loc k st1 = Inr (plan, st2)"
    and fin: "plan = None \<and> \<not> go \<and> st' = st2
     \<or> (\<exists>ins n eb ok st3. plan = Some (ins, n, eb) \<and> allocate_waiting env i ins n bs loc st2 = Inr (ok, st3)
          \<and> (\<not> ok \<and> \<not> go \<and> st' = st3 \<or> ok \<and> go \<and> start_request qn ins n eb k st3 = Inr st'))"
    by (rule admit_cases [OF assms])
  have f2: "step_frame (sch st) (sch st2)" using computed_prefix_frame [OF cp] plan_waiting_frame [OF pl] by auto
  show ?thesis using fin
  proof (elim disjE conjE exE)
    fix ins n eb ok st3
    assume al: "allocate_waiting env i ins n bs loc st2 = Inr (ok, st3)"
    obtain km e' where km: "km_frame (kv_manager (sch st2)) km" and st3: "st3 = on_sch (\<lambda>s. s\<lparr>kv_manager := km, encoder_manager := e'\<rparr>) st2"
      by (rule allocate_waiting_result [OF al])
    have f3: "step_frame (sch st) (sch st3)" using step_frame_trans [OF f2 step_frame_kv [OF km]] by (simp add: st3)
    show ?thesis if "st' = st3" using f3 that by simp
    show ?thesis if "start_request qn ins n eb k st3 = Inr st'" using f3 start_request_frame [OF that] by (rule step_frame_trans)
  qed (use f2 in simp)
qed

lemma waiting_body_frame:
  assumes "waiting_body env st = Some (Inr (go, st'))" shows "step_frame (sch st) (sch st')"
  using assms
proof (cases rule: waiting_body_cases)
  case stop
  then show ?thesis by (simp add: step_frame_refl)
next
  case (round qn i s1)
  have f: "step_frame (sch st) s1" using round(3) step_frame_set_obj [of "\<lambda>r. r\<lparr>status := WAITING\<rparr>" "sch st" i] by (auto simp: step_frame_refl)
  show ?thesis using round(4)
  proof (elim disjE conjE)
    assume "skip_waiting qn i (st\<lparr>sch := s1\<rparr>) = Inr st'"
    then have "\<exists>q. sch st' = set_queue qn q s1" unfolding skip_waiting_def by (elim bindE_eq_InrE) auto
    then show ?thesis using f by auto
  next
    assume "admit env qn i (st\<lparr>sch := s1\<rparr>) = Some (Inr (go, st'))"
    from step_frame_trans [OF f] admit_frame [OF this] show ?thesis by simp
  qed
qed

interpretation waiting_frame: guarded_loop waiting_cond "waiting_body env" "\<lambda>st. step_frame s (sch st)" "\<lambda>st. step_frame s (sch st)" for env s
  by unfold_locales (use waiting_body_frame step_frame_trans in blast)+

section \<open>The waiting loop ends\<close>

definition live_tokens :: "scheduler \<Rightarrow> bool" where
  "live_tokens s \<longleftrightarrow> search_ok (kv_manager s) \<and> (\<forall>i \<in> snd ` set (requests_dict s). 0 < num_tokens (objs s i))"

lemma live_tokens_frame:
  assumes "step_frame s s'" shows "live_tokens s' = live_tokens s"
proof -
  have "num_tokens (objs s' i) = num_tokens (objs s i)" for i using assms same_request_toks by (simp add: step_frame_def)
  moreover have "search_ok (kv_manager s') = search_ok (kv_manager s)" "requests_dict s' = requests_dict s"
    using assms by (simp_all add: step_frame_def search_ok_frame)
  ultimately show ?thesis by (simp add: live_tokens_def)
qed

abbreviation queued :: "step_vars \<Rightarrow> nat" where
  "queued st \<equiv> length (queue_reqs (waiting (sch st))) + length (queue_reqs (skipped_waiting (sch st)))"

lemma pop_queued:
  "q_pop (get_queue qn s) = Inr (r, q) \<Longrightarrow>
   length (queue_reqs (waiting (set_queue qn q s))) + length (queue_reqs (skipped_waiting (set_queue qn q s)))
     < length (queue_reqs (waiting s)) + length (queue_reqs (skipped_waiting s))"
  using q_pop_length [of "get_queue qn s" r q] by (cases qn) simp_all

lemma admit_lowers:
  assumes "admit env qn i st = Some (Inr (True, st'))" shows "queued st' < queued st"
proof -
  obtain bs loc k st1 plan st2 where cp: "computed_prefix i st = Some (Inr (bs, loc, k, st1))" and pl: "plan_waiting i loc k st1 = Inr (plan, st2)"
    and fin: "plan = None \<and> \<not> True \<and> st' = st2
     \<or> (\<exists>ins n eb ok st3. plan = Some (ins, n, eb) \<and> allocate_waiting env i ins n bs loc st2 = Inr (ok, st3)
          \<and> (\<not> ok \<and> \<not> True \<and> st' = st3 \<or> ok \<and> True \<and> start_request qn ins n eb k st3 = Inr st'))"
    by (rule admit_cases [OF assms])
  have 1: "queued st1 = queued st" using cp by (cases rule: computed_prefix_result) simp_all
  have 2: "queued st2 = queued st1" using plan_waiting_frame [OF pl] by auto
  from fin obtain ins n eb ok st3 where al: "allocate_waiting env i ins n bs loc st2 = Inr (ok, st3)" and sr: "start_request qn ins n eb k st3 = Inr st'" by blast
  have 3: "queued st3 = queued st2" by (rule allocate_waiting_result [OF al]) simp
  obtain r q e where pop: "q_pop (get_queue qn (sch st3)) = Inr (r, q)"
    and st': "sch st' = (set_obj (obj_id r) (\<lambda>r. r\<lparr>status := RUNNING, num_computed_tokens := k\<rparr>) (set_queue qn q (sch st3)))
        \<lparr>running := running (sch st3) @ [obj_id r], encoder_manager := e\<rparr>"
    using start_request_sch [OF sr] by blast
  have "queued st' < queued st3" using pop_queued [OF pop] by (simp add: st')
  then show ?thesis using 1 2 3 by simp
qed

lemma waiting_body_lowers:
  assumes "waiting_body env st = Some (Inr (True, st'))" shows "queued st' < queued st"
  using assms
proof (cases rule: waiting_body_cases)
  case (round qn i s1)
  have l: "length (queue_reqs (waiting s1)) + length (queue_reqs (skipped_waiting s1)) = queued st" using round(3) by auto
  show ?thesis using round(4)
  proof (elim disjE conjE)
    assume "skip_waiting qn i (st\<lparr>sch := s1\<rparr>) = Inr st'"
    then obtain r q where "q_pop (get_queue qn s1) = Inr (r, q)" "sch st' = set_queue qn q s1"
      unfolding skip_waiting_def by (elim bindE_eq_InrE) auto
    then show ?thesis using pop_queued l by metis
  next
    assume "admit env qn i (st\<lparr>sch := s1\<rparr>) = Some (Inr (True, st'))"
    from admit_lowers [OF this] show ?thesis using l by simp
  qed
qed simp

lemma bindO_Some_exI: "(\<And>v. x = Inr v \<Longrightarrow> \<exists>r. f v = Some r) \<Longrightarrow> \<exists>r. bindO (Some x) f = Some r"
  by (rule bindO_exI) auto

lemma admit_returns:
  assumes "search_ok (kv_manager (sch st))" "0 < num_tokens (objs (sch st) i)" shows "\<exists>r. admit env qn i st = Some r"
proof -
  have "\<exists>r. computed_prefix i st = Some r"
    using get_computed_returns [OF assms] unfolding computed_prefix_def Let_def
    by (auto simp: retO_def intro!: bindO_exI bindO_Some_exI)
  then show ?thesis unfolding admit_def
    by (rule bindO_exI) (auto simp: retO_def split: option.split intro!: bindO_Some_exI)
qed

lemma waiting_body_returns:
  assumes "step_placed st" "live_tokens (sch st)" shows "\<exists>r. waiting_body env st = Some r"
proof -
  have p: "placed (ids_in (step_skipped st)) (sch st)" using assms(1) by (simp add: step_placed_def)
  have "\<exists>r. admit env qn i (st\<lparr>sch := s1\<rparr>) = Some r"
    if nw: "next_waiting (sch st) = Inr (qn, i)" and s1: "s1 = sch st \<or> s1 = set_obj i (\<lambda>r. r\<lparr>status := WAITING\<rparr>) (sch st)" for qn i s1
  proof (rule admit_returns)
    have "i \<in> snd ` set (requests_dict (sch st))"
      using at_front_in [OF next_waiting_front [OF nw]] by (intro placed_live(3) [OF p]) auto
    then show "search_ok (kv_manager (sch (st\<lparr>sch := s1\<rparr>)))" "0 < num_tokens (objs (sch (st\<lparr>sch := s1\<rparr>)) i)"
      using assms(2) s1 by (auto simp: live_tokens_def num_tokens_def)
  qed
  note adm = this
  have 1: "\<exists>r. admit env qn i st = Some r" if "next_waiting (sch st) = Inr (qn, i)" for qn i using adm [OF that, of "sch st"] by simp
  have 2: "\<exists>r. admit env qn i (st\<lparr>sch := set_obj i (\<lambda>r. r\<lparr>status := WAITING\<rparr>) (sch st)\<rparr>) = Some r" if "next_waiting (sch st) = Inr (qn, i)" for qn i
    using adm [OF that] by simp
  show ?thesis unfolding waiting_body_def
    by (auto simp: retO_def Let_def intro!: bindO_Some_exI 1 2 dest!: promote_result split: if_splits)
qed

interpretation waiting_ends: bounded_loop waiting_cond "waiting_body env" "\<lambda>st. wait_inv c B st \<and> live_tokens (sch st)" queued for env c B
proof unfold_locales
  fix st assume "wait_inv c B st \<and> live_tokens (sch st)"
  then show "\<exists>r. waiting_body env st = Some r" using waiting_body_returns by (simp add: wait_inv_def)
next
  fix st st' assume "wait_inv c B st \<and> live_tokens (sch st)" "waiting_body env st = Some (Inr (True, st'))"
  then show "(wait_inv c B st' \<and> live_tokens (sch st')) \<and> queued st' < queued st"
    using waiting_body_inv waiting_body_lowers live_tokens_frame [OF waiting_body_frame] by blast
qed

end
