(* ===== verification/Scheduler_Safety.thy ===== *)
theory Scheduler_Safety
  imports Scheduler_Frame
begin

text \<open>
  A whole step: it returns, it hands out no more than the limits, and it leaves every request in
  one place. Then the other operations of the scheduler and the engine's loop around them.
\<close>

section \<open>Both halves of a step\<close>

definition sched_ready :: "scheduler \<Rightarrow> bool" where
  "sched_ready s \<longleftrightarrow> placed {#} s \<and> config_ok (conf s) \<and> 0 \<le> max_num_scheduled_tokens (conf s)
     \<and> int (length (running s)) \<le> max_num_running_reqs (conf s) \<and> (\<forall>i \<in> set (running s). tokens_ok (conf s) (objs s i))"

abbreviation step_budget :: "scheduler \<Rightarrow> int" where
  "step_budget s \<equiv> (if pause_state s = PAUSED_ALL then 0 else max_num_scheduled_tokens (conf s))"

lemma create_queue_empty [simp]: "queue_reqs (create_request_queue p) = []"
  by (cases p) (simp_all add: create_request_queue_def)

lemma step_start_inv: "sched_ready s \<Longrightarrow> run_inv (conf s) (step_budget s) (step_start s)"
  by (simp add: run_inv_def sched_ready_def accounts_def step_start_def total_scheduled_def step_placed_def copies_ok_def running_phase_def)

lemma step_start_frame: "step_frame s (sch (step_start s))"
proof -
  have "sch (step_start s) = s\<lparr>kv_manager := km_new_step_starts (kv_manager s)\<rparr>" by (simp add: step_start_def)
  then show ?thesis using step_frame_kv [OF new_step_frame, of s] by (simp only:)
qed

lemma note_loras_result: "note_loras st = Inr st' \<Longrightarrow> \<exists>l. st' = st\<lparr>scheduled_loras := l\<rparr>"
proof -
  assume a: "note_loras st = Inr st'"
  then consider "st' = st" | l where "st' = st\<lparr>scheduled_loras := l\<rparr>" by (auto simp: note_loras_def Let_def split: option.splits elim!: bindE_eq_InrE)
  then show ?thesis by cases (auto intro: exI [of _ "scheduled_loras st"])
qed

lemma requeue_placed:
  assumes "requeue_skipped st = Inr st'" "step_placed st" "accounts B st"
  shows "placed {#} (sch st')" "accounts B st'" "running (sch st') = running (sch st)" "conf (sch st') = conf (sch st)"
    "step_frame (sch st) (sch st')"
proof -
  have p: "placed (ids_in (step_skipped st)) (sch st)" "copies_ok (objs (sch st)) (step_skipped st)"
    "\<And>r. r \<in> set (queue_reqs (step_skipped st)) \<Longrightarrow> waiting_status (status (objs (sch st) (obj_id r)))" using assms(2) by (auto simp: step_placed_def)
  have "placed {#} (sch st') \<and> accounts B st' \<and> running (sch st') = running (sch st) \<and> conf (sch st') = conf (sch st) \<and> step_frame (sch st) (sch st')"
  proof (cases "q_nonempty (step_skipped st)")
    case True
    then obtain rs where rs: "q_iter (step_skipped st) = Inr rs"
      and st': "st' = on_sch (\<lambda>s. s\<lparr>skipped_waiting := q_prepend_all rs (skipped_waiting s)\<rparr>) st"
      using assms(1) by (auto simp: requeue_skipped_def elim!: bindE_eq_InrE)
    note b = q_iter_bag [OF rs]
    have sb: "set rs = set (queue_reqs (step_skipped st))" using b by (metis set_mset_mset)
    have bag: "mset (running (sch st)) + ids_in (waiting (sch st)) + (image_mset obj_id (mset rs) + ids_in (skipped_waiting (sch st))) + {#}
        = mset (map snd (requests_dict (sch st)))"
      using placedD(2) [OF p(1)] unfolding b by (simp only: ac_simps empty_neutral)
    have "placed {#} (sch st')"
      unfolding placed_def st' using p(2,3) sb placedD [OF p(1)] bag by (auto simp: copies_ok_def simp del: mset_map)
    then show ?thesis using assms(3) by (simp add: st' accounts_def total_scheduled_def step_frame_refl)
  next
    case False
    then have "st' = st" using assms(1) by (simp add: requeue_skipped_def)
    then show ?thesis using p(1) False assms(3) by (simp add: q_nonempty_def step_frame_refl)
  qed
  then show "placed {#} (sch st')" "accounts B st'" "running (sch st') = running (sch st)" "conf (sch st') = conf (sch st)"
    "step_frame (sch st) (sch st')" by simp_all
qed

lemma schedule_waiting_done:
  assumes "schedule_waiting env st = Some (Inr st')" "wait_inv c B st" "queue_reqs (step_skipped st) = []"
  shows "placed {#} (sch st')" "accounts B st'" "conf (sch st') = c" "int (length (running (sch st'))) \<le> max_num_running_reqs c"
    "step_frame (sch st) (sch st')"
proof -
  have "placed {#} (sch st') \<and> accounts B st' \<and> conf (sch st') = c \<and> int (length (running (sch st'))) \<le> max_num_running_reqs c
    \<and> step_frame (sch st) (sch st')"
  proof (cases "preempted_reqs st = [] \<and> pause_state (sch st) = UNPAUSED")
    case True
    then obtain st1 where w: "py_while waiting_cond (waiting_body env) st = Some (Inr st1)" and q: "requeue_skipped st1 = Inr st'"
      using assms(1) by (auto simp: schedule_waiting_def bindO_eq_Inr)
    have w1: "wait_inv c B st1" by (rule waiting_loop.loop_result [OF w assms(2)])
    have "step_frame (sch st) (sch st1)" by (rule waiting_frame.loop_result [OF w]) (rule step_frame_refl)
    then show ?thesis using requeue_placed [OF q, of B] w1 by (auto simp: wait_inv_def intro: step_frame_trans)
  next
    case False
    then have "st' = st" using assms(1) by (auto simp: schedule_waiting_def retO_def)
    then show ?thesis using assms(2,3) by (auto simp: wait_inv_def step_placed_def step_frame_refl)
  qed
  then show "placed {#} (sch st')" "accounts B st'" "conf (sch st') = c" "int (length (running (sch st'))) \<le> max_num_running_reqs c"
    "step_frame (sch st) (sch st')" by simp_all
qed

lemma schedule_phases_parts:
  assumes "schedule_phases env s = Some (Inr st)" "sched_ready s"
  obtains st1 st2 l where "schedule_running env (step_start s) = Some (Inr st1)" "st2 = st1\<lparr>scheduled_loras := l\<rparr>"
    "schedule_waiting env st2 = Some (Inr st)" "wait_inv (conf s) (step_budget s) st2" "queue_reqs (step_skipped st2) = []"
proof -
  from assms(1) obtain st1 st2 where 1: "schedule_running env (step_start s) = Some (Inr st1)"
    and 2: "note_loras st1 = Inr st2" and 3: "schedule_waiting env st2 = Some (Inr st)"
    unfolding schedule_phases_def by (auto simp: bindO_eq_Inr)
  obtain l where l: "st2 = st1\<lparr>scheduled_loras := l\<rparr>" using note_loras_result [OF 2] by blast
  have r: "run_inv (conf s) (step_budget s) st1" by (rule schedule_running_done [OF 1 step_start_inv [OF assms(2)]])
  have "distinct (running (sch (step_start s)))" using assms(2) placed_disjoint(1) by (auto simp: sched_ready_def step_start_def)
  from schedule_running_sub(2) [OF 1 this] have "int (length (running (sch st1))) \<le> max_num_running_reqs (conf s)"
    using assms(2) by (simp add: step_start_def sched_ready_def)
  then have "wait_inv (conf s) (step_budget s) st2" using r by (simp add: run_inv_def running_phase_def wait_inv_def l)
  moreover have "queue_reqs (step_skipped st2) = []" using r by (simp add: run_inv_def l)
  ultimately show ?thesis by (rule that [OF 1 l 3])
qed

lemma schedule_phases_done:
  assumes "schedule_phases env s = Some (Inr st)" "sched_ready s"
  shows "placed {#} (sch st)" "accounts (step_budget s) st" "conf (sch st) = conf s"
    "int (length (running (sch st))) \<le> max_num_running_reqs (conf s)" "step_frame s (sch st)"
proof -
  obtain st1 st2 l where p: "schedule_running env (step_start s) = Some (Inr st1)" "st2 = st1\<lparr>scheduled_loras := l\<rparr>"
    "schedule_waiting env st2 = Some (Inr st)" "wait_inv (conf s) (step_budget s) st2" "queue_reqs (step_skipped st2) = []"
    by (rule schedule_phases_parts [OF assms])
  note w = schedule_waiting_done [OF p(3-5)]
  show "placed {#} (sch st)" "accounts (step_budget s) st" "conf (sch st) = conf s"
    "int (length (running (sch st))) \<le> max_num_running_reqs (conf s)" by (rule w)+
  have f1: "step_frame s (sch st1)" by (rule step_frame_trans [OF step_start_frame schedule_running_frame [OF p(1)]])
  have "step_frame (sch st1) (sch st)" using w(5) unfolding p(2) by simp
  with f1 show "step_frame s (sch st)" by (rule step_frame_trans)
qed

lemma check_limits_passes:
  assumes "schedule_phases env s = Some (Inr st)" "sched_ready s" shows "check_limits st = Inr ()"
proof -
  note d = schedule_phases_done [OF assms]
  note ac = accountsD [OF d(2)]
  have "total_scheduled st \<le> max_num_scheduled_tokens (conf s)"
    using ac(3,4) assms(2) by (auto simp: sched_ready_def split: if_splits)
  moreover have "length (scheduled_reqs st) \<le> length (running (sch st))"
    using ac(5,6) by (metis distinct_card card_mono finite_set placed_disjoint(1) [OF d(1)])
  ultimately show ?thesis using ac(4) d(3,4) by (simp add: check_limits_def Let_def)
qed

lemma schedule_phases_return:
  assumes "sched_ready s" "live_tokens s" shows "\<exists>r. schedule_phases env s = Some r"
proof -
  have d: "distinct (running (sch (step_start s)))" using assms(1) placed_disjoint(1) by (auto simp: sched_ready_def step_start_def)
  have "\<exists>r. schedule_waiting env st2 = Some r"
    if 1: "schedule_running env (step_start s) = Some (Inr st1)" and 2: "note_loras st1 = Inr st2" for st1 st2
  proof -
    obtain l where l: "st2 = st1\<lparr>scheduled_loras := l\<rparr>" using note_loras_result [OF 2] by blast
    have r: "run_inv (conf s) (step_budget s) st1" by (rule schedule_running_done [OF 1 step_start_inv [OF assms(1)]])
    from schedule_running_sub(2) [OF 1 d] have "int (length (running (sch st1))) \<le> max_num_running_reqs (conf s)"
      using assms(1) by (simp add: step_start_def sched_ready_def)
    then have w: "wait_inv (conf s) (step_budget s) st2" using r by (simp add: run_inv_def running_phase_def wait_inv_def l)
    have "step_frame s (sch st1)" by (rule step_frame_trans [OF step_start_frame schedule_running_frame [OF 1]])
    then have "live_tokens (sch st2)" using live_tokens_frame assms(2) by (simp add: l)
    then have "\<exists>r. py_while waiting_cond (waiting_body env) st2 = Some r" using w by (intro waiting_ends.loop_returns) simp
    then show ?thesis unfolding schedule_waiting_def by (auto simp: retO_def intro!: bindO_exI)
  qed
  then show ?thesis unfolding schedule_phases_def
    using schedule_running_returns [OF d] by (auto intro!: bindO_exI bindO_Some_exI)
qed

lemma schedule_returns_aux:
  assumes "sched_ready s" "live_tokens s" shows "\<exists>r. schedule env s = Some r"
  unfolding schedule_def using schedule_phases_return [OF assms] by (auto intro!: bindO_exI bindO_Some_exI)

end
