(* ===== verification/Output_Places.thy ===== *)
theory Output_Places
  imports Scheduler_Safety
begin

text \<open>
  Where requests are while \<open>update_from_output\<close> and the other operations run. A request whose
  output is taken is running, so no queue holds a copy of it (\<open>touches\<close>); when it stops it leaves
  the dict, or goes on as a session in one of the queues, and is taken off the running list at
  the end.
\<close>

section \<open>Changes of a running request\<close>

definition unqueued :: "nat \<Rightarrow> scheduler \<Rightarrow> bool" where
  "unqueued i s \<longleftrightarrow> i \<notin># ids_in (waiting s) + ids_in (skipped_waiting s)"

definition touches :: "nat \<Rightarrow> scheduler \<Rightarrow> scheduler \<Rightarrow> bool" where
  "touches i s s' \<longleftrightarrow> (\<exists>r km e. s' = s\<lparr>objs := (objs s)(i := r), kv_manager := km, encoder_manager := e\<rparr>
     \<and> obj_id r = obj_id (objs s i) \<and> request_id r = request_id (objs s i) \<and> search_ok km = search_ok (kv_manager s))"

lemma sync_queue_out: "i \<notin># ids_in q \<Longrightarrow> sync_queue i r q = q"
  by (cases q) (auto intro!: map_idI)

lemma set_obj_unqueued: "unqueued i s \<Longrightarrow> set_obj i f s = s\<lparr>objs := (objs s)(i := f (objs s i))\<rparr>"
  by (simp add: set_obj_def Let_def unqueued_def sync_queue_out)

lemma touches_refl: "touches i s s"
  unfolding touches_def by (rule exI [of _ "objs s i"], rule exI [of _ "kv_manager s"], rule exI [of _ "encoder_manager s"]) simp

lemma touches_trans:
  assumes "touches i s s1" "touches i s1 s2" shows "touches i s s2"
proof -
  obtain r km e where 1: "s1 = s\<lparr>objs := (objs s)(i := r), kv_manager := km, encoder_manager := e\<rparr>"
    "obj_id r = obj_id (objs s i)" "request_id r = request_id (objs s i)" "search_ok km = search_ok (kv_manager s)" using assms(1) by (auto simp: touches_def)
  obtain r' km' e' where 2: "s2 = s1\<lparr>objs := (objs s1)(i := r'), kv_manager := km', encoder_manager := e'\<rparr>"
    "obj_id r' = obj_id (objs s1 i)" "request_id r' = request_id (objs s1 i)" "search_ok km' = search_ok (kv_manager s1)" using assms(2) by (auto simp: touches_def)
  have "s2 = s\<lparr>objs := (objs s)(i := r'), kv_manager := km', encoder_manager := e'\<rparr>" by (simp add: 1(1) 2(1))
  then show ?thesis unfolding touches_def using 1 2(2-4) by (intro exI [of _ r'] exI [of _ km'] exI [of _ e']) simp
qed

lemma touches_set_obj:
  "unqueued i s \<Longrightarrow> obj_id (f (objs s i)) = obj_id (objs s i) \<Longrightarrow> request_id (f (objs s i)) = request_id (objs s i) \<Longrightarrow> touches i s (set_obj i f s)"
  unfolding touches_def set_obj_unqueued
  by (rule exI [of _ "f (objs s i)"], rule exI [of _ "kv_manager s"], rule exI [of _ "encoder_manager s"]) simp

lemma touches_kv: "km_frame (kv_manager s) km \<Longrightarrow> touches i s (s\<lparr>kv_manager := km\<rparr>)"
  unfolding touches_def
  by (rule exI [of _ "objs s i"], rule exI [of _ km], rule exI [of _ "encoder_manager s"]) (simp add: search_ok_frame)

lemma touches_enc: "touches i s (s\<lparr>encoder_manager := e\<rparr>)"
  unfolding touches_def by (rule exI [of _ "objs s i"], rule exI [of _ "kv_manager s"], rule exI [of _ e]) simp

lemma touchesD:
  assumes "touches i s s'"
  shows "running s' = running s" "requests_dict s' = requests_dict s" "conf s' = conf s" "waiting s' = waiting s" "skipped_waiting s' = skipped_waiting s"
    "unqueued i s' = unqueued i s" "obj_id (objs s' i) = obj_id (objs s i)" "request_id (objs s' i) = request_id (objs s i)"
    "\<And>j. j \<noteq> i \<Longrightarrow> objs s' j = objs s j" "search_ok (kv_manager s') = search_ok (kv_manager s)"
  using assms by (auto simp: touches_def unqueued_def)

lemma touches_placed:
  assumes "touches i s s'" "placed E (s\<lparr>running := X\<rparr>)" "unqueued i s" "i \<in> set X \<Longrightarrow> status (objs s' i) = RUNNING"
  shows "placed E (s'\<lparr>running := X\<rparr>)"
proof -
  obtain r km e where s': "s' = s\<lparr>objs := (objs s)(i := r), kv_manager := km, encoder_manager := e\<rparr>"
    and nm: "obj_id r = obj_id (objs s i)" "request_id r = request_id (objs s i)" using assms(1) by (auto simp: touches_def)
  have "placed E (set_obj i (\<lambda>_. r) (s\<lparr>running := X\<rparr>))"
    by (rule placed_set_obj [OF assms(2)]) (use nm assms(3,4) in \<open>simp_all add: s' unqueued_def\<close>)
  moreover have "set_obj i (\<lambda>_. r) (s\<lparr>running := X\<rparr>) = s\<lparr>running := X, objs := (objs s)(i := r)\<rparr>"
    using assms(3) by (subst set_obj_unqueued) (simp_all add: unqueued_def)
  moreover have "s'\<lparr>running := X\<rparr> = (s\<lparr>running := X, objs := (objs s)(i := r)\<rparr>)\<lparr>kv_manager := km, encoder_manager := e\<rparr>"
    by (simp add: s')
  ultimately show ?thesis by (simp only: placed_frame)
qed

section \<open>The parts of taking an output\<close>

text \<open>A block hasher may only note hashes of prompt embeddings in the request.\<close>

locale memo_hasher =
  fixes h :: block_hasher
  assumes memo_only: "h r = Some (Inr (new, r')) \<Longrightarrow> \<exists>d. r' = r\<lparr>prompt_embeds_hashes := d\<rparr>"
begin

lemma update_hashes_frame:
  "update_block_hashes (Some h) r = Some (Inr r') \<Longrightarrow> \<exists>d hs. r' = r\<lparr>prompt_embeds_hashes := d, block_hashes := hs\<rparr>"
  by (auto simp: update_block_hashes_def elim!: bindE_eq_InrE dest!: memo_only)

end

lemma extra_keys_memo:
  assumes "generate_block_hash_extra_keys sha r st e mi = Inr (keys, mi', r')" shows "\<exists>d. r' = r\<lparr>prompt_embeds_hashes := d\<rparr>"
proof (cases "r' = r")
  case True
  then show ?thesis by (intro exI [of _ "prompt_embeds_hashes r"]) simp
next
  case False
  then show ?thesis using assms
    by (auto simp: generate_block_hash_extra_keys_def gen_prompt_embeds_extra_hash_keys_def Let_def split: option.splits elim!: bindE_eq_InrE)
qed

lemma block_hasher_loop_memo:
  assumes "block_hasher_loop sha H nh bs st mi prev acc r = Some res" "res = Inr (new, r')"
  shows "\<exists>d. r' = r\<lparr>prompt_embeds_hashes := d\<rparr>"
proof -
  let ?P = "\<lambda>sha H nh bs st mi prev acc r res. \<forall>new r'. res = Inr (new, r') \<longrightarrow> (\<exists>d. r' = r\<lparr>prompt_embeds_hashes := d\<rparr>)"
  have "?P sha H nh bs st mi prev acc r res"
  proof (rule block_hasher_loop.raw_induct [where P = ?P, OF _ assms(1)], intro allI impI)
    fix w sha H nh bs st mi prev acc r res new r'
    assume IH: "\<And>sha H nh bs st mi prev acc r res. w sha H nh bs st mi prev acc r = Some res \<Longrightarrow> ?P sha H nh bs st mi prev acc r res"
      and eq: "(let end_idx = st + bs
      in if num_tokens r < end_idx then Some (Inr (acc, r))
         else case generate_block_hash_extra_keys sha r st end_idx mi of
                Inl e \<Rightarrow> Some (Inl e)
              | Inr (keys, mm_idx', r') \<Rightarrow>
                  let h = hash_block_tokens H nh prev (py_slice (all_token_ids r') st end_idx) keys
                  in w sha H nh bs (st + bs) mm_idx' (Some h) (acc @ [h]) r') = Some res"
      and res: "res = Inr (new, r')"
    show "\<exists>d. r' = r\<lparr>prompt_embeds_hashes := d\<rparr>"
    proof (cases "num_tokens r < st + bs")
      case True
      then have "r' = r\<lparr>prompt_embeds_hashes := prompt_embeds_hashes r\<rparr>" using eq res by (simp add: Let_def)
      then show ?thesis by blast
    next
      case False
      then obtain keys mi' r1 h where g: "generate_block_hash_extra_keys sha r st (st + bs) mi = Inr (keys, mi', r1)"
        and w: "w sha H nh bs (st + bs) mi' (Some h) (acc @ [h]) r1 = Some res"
        using eq res by (auto simp: Let_def split: sum.splits)
      obtain d d' where "r1 = r\<lparr>prompt_embeds_hashes := d\<rparr>" "r' = r1\<lparr>prompt_embeds_hashes := d'\<rparr>"
        using extra_keys_memo [OF g] IH [OF w] res by blast
      then have "r' = r\<lparr>prompt_embeds_hashes := d'\<rparr>" by simp
      then show ?thesis by blast
    qed
  qed
  then show ?thesis using assms(2) by blast
qed

interpretation code_hasher: memo_hasher "request_block_hasher sha H nh bs" for sha H nh bs
proof unfold_locales
  fix r new r' assume "request_block_hasher sha H nh bs r = Some (Inr (new, r'))"
  then consider "r' = r" | st mi prev where "block_hasher_loop sha H nh bs st mi prev [] r = Some (Inr (new, r'))"
    by (auto simp: request_block_hasher_def Let_def split: if_splits)
  then show "\<exists>d. r' = r\<lparr>prompt_embeds_hashes := d\<rparr>"
  proof cases
    case 1
    then show ?thesis by (intro exI [of _ "prompt_embeds_hashes r"]) simp
  qed (rule block_hasher_loop_memo [OF _ refl])
qed

definition hasher_ok :: "sched_env \<Rightarrow> bool" where
  "hasher_ok env \<longleftrightarrow> (case env_hasher env of None \<Rightarrow> True | Some h \<Rightarrow> memo_hasher h)"

lemma hasher_frame:
  assumes "update_block_hashes (env_hasher env) r = Some (Inr r')" "hasher_ok env"
  shows "\<exists>d hs. r' = r\<lparr>prompt_embeds_hashes := d, block_hashes := hs\<rparr>"
proof (cases "env_hasher env")
  case None
  then have "r' = r\<lparr>prompt_embeds_hashes := prompt_embeds_hashes r, block_hashes := block_hashes r\<rparr>"
    using assms(1) by (simp add: update_block_hashes_def)
  then show ?thesis by blast
next
  case (Some h)
  then show ?thesis using assms memo_hasher.update_hashes_frame [of h r r'] by (simp add: hasher_ok_def)
qed

lemma append_token_frame:
  assumes "append_output_token_ids (env_hasher env) ts r = Some (Inr r')" "hasher_ok env"
  shows "obj_id r' = obj_id r \<and> request_id r' = request_id r \<and> status r' = status r"
  using hasher_frame [OF assms(1) [unfolded append_output_token_ids_def] assms(2)] by auto

lemma check_stop_names:
  assumes "check_stop r mml = Inr (b, r')" shows "obj_id r' = obj_id r \<and> request_id r' = request_id r"
  using assms unfolding check_stop_def
  by (auto split: option.splits if_split_asm elim!: bindE_eq_InrE)

lemma append_until_stop_touches:
  assumes "append_until_stop env i out ts s = Some (Inr (out', stop, s'))" "hasher_ok env" "unqueued i s"
  shows "touches i s s'" "if stop then is_finished (status (objs s' i)) else status (objs s' i) = status (objs s i)"
proof -
  have "touches i s s' \<and> (if stop then is_finished (status (objs s' i)) else status (objs s' i) = status (objs s i))"
    using assms
  proof (induction ts arbitrary: out s)
    case Nil
    then show ?case by (simp add: retO_def touches_refl)
  next
    case (Cons t ts)
    from Cons.prems(1) obtain r b r1 where a: "append_output_token_ids (env_hasher env) [t] (objs s i) = Some (Inr r)"
      and c: "check_stop r (sc_max_model_len (conf s)) = Inr (b, r1)"
      and k: "(let s1 = set_obj i (\<lambda>_. r1) s in if b then retO (out @ [t], True, s1) else append_until_stop env i (out @ [t]) ts s1) = Some (Inr (out', stop, s'))"
      by (auto simp: bindO_eq_Inr)
    have nm: "obj_id r1 = obj_id (objs s i)" "request_id r1 = request_id (objs s i)"
      using append_token_frame [OF a Cons.prems(2)] check_stop_names [OF c] by simp_all
    have t1: "touches i s (set_obj i (\<lambda>_. r1) s)" by (rule touches_set_obj [OF Cons.prems(3)]) (rule nm)+
    note cs = check_stop_result [OF c]
    show ?case
    proof (cases b)
      case True
      then show ?thesis using k t1 cs by (auto simp add: retO_def Let_def)
    next
      case False
      then have e: "append_until_stop env i (out @ [t]) ts (set_obj i (\<lambda>_. r1) s) = Some (Inr (out', stop, s'))" using k by (simp add: Let_def)
      have "unqueued i (set_obj i (\<lambda>_. r1) s)" using touchesD(6) [OF t1] Cons.prems(3) by simp
      note IH = Cons.IH [OF e Cons.prems(2) this]
      have "status r1 = status (objs s i)" using cs False append_token_frame [OF a Cons.prems(2)] by simp
      then show ?thesis using IH touches_trans [OF t1] by auto
    qed
  qed
  then show "touches i s s'" "if stop then is_finished (status (objs s' i)) else status (objs s' i) = status (objs s i)" by simp_all
qed

lemma output_touches:
  assumes "update_request_with_output env i ts s = Some (Inr (out, stop, s'))" "hasher_ok env" "unqueued i s"
  shows "touches i s s' \<and> (if stop then is_finished (status (objs s' i)) else status (objs s' i) = status (objs s i))"
proof (cases "async_scheduling (conf s)")
  case False
  then show ?thesis using assms(1) append_until_stop_touches [OF _ assms(2,3)] by (simp add: update_request_with_output_def)
next
  case a: True
  show ?thesis
  proof (cases "discard_latest_async_tokens (objs s i)")
    case True
    then have "s' = set_obj i (\<lambda>r. r\<lparr>discard_latest_async_tokens := False\<rparr>) s" "\<not> stop"
      using assms(1) a by (simp_all add: update_request_with_output_def retO_def)
    then show ?thesis using touches_set_obj [OF assms(3), of "\<lambda>r. r\<lparr>discard_latest_async_tokens := False\<rparr>"] by simp
  next
    case False
    let ?f = "\<lambda>n r. r\<lparr>num_output_placeholders := num_output_placeholders r - n\<rparr>"
    from assms(1) a False obtain toks s1 where 1: "append_until_stop env i [] ts s = Some (Inr (toks, stop, s1))"
      and 2: "s' = set_obj i (?f (int (length toks))) s1 \<or> (\<exists>km. km_frame (kv_manager s1) km \<and> s' = (set_obj i (?f (int (length toks))) s1)\<lparr>kv_manager := km\<rparr>)"
    proof -
      let ?s2 = "\<lambda>toks s1. set_obj i (?f (int (length toks))) s1"
      from assms(1) a False obtain toks stop' s1 where 1: "append_until_stop env i [] ts s = Some (Inr (toks, stop', s1))"
        and 2: "(if status (objs s i) = RUNNING
           then bindO (Some (km_cache_blocks (env_sha env) (objs (?s2 toks s1) i)
                  (num_computed_tokens (objs (?s2 toks s1) i) - num_output_placeholders (objs (?s2 toks s1) i)) (kv_manager (?s2 toks s1))))
                (\<lambda>km. retO (toks, stop', (?s2 toks s1)\<lparr>kv_manager := km\<rparr>))
           else retO (toks, stop', ?s2 toks s1)) = Some (Inr (out, stop, s'))"
        by (auto simp: update_request_with_output_def bindO_eq_Inr Let_def)
      have "stop' = stop \<and> (s' = ?s2 toks s1 \<or> (\<exists>km. km_frame (kv_manager s1) km \<and> s' = (?s2 toks s1)\<lparr>kv_manager := km\<rparr>))"
        using 2 by (cases "status (objs s i) = RUNNING") (auto simp: bindO_eq_Inr retO_def dest!: km_cache_frame)
      then show thesis using 1 that by blast
    qed
    note t = append_until_stop_touches [OF 1 assms(2,3)]
    have u: "unqueued i s1" using touchesD(6) [OF t(1)] assms(3) by simp
    have t2: "touches i s (set_obj i (?f (int (length toks))) s1)"
      by (rule touches_trans [OF t(1) touches_set_obj [OF u]]) simp_all
    have "touches i s s'" using 2 t2 touches_trans [OF t2 touches_kv] by auto
    moreover have "status (objs s' i) = status (objs s1 i)" using 2 by auto
    ultimately show ?thesis using t(2) by simp
  qed
qed

lemma take_output_touches:
  assumes "take_output env i gen pooled s = Some (Inr (out, stop, s'))" "hasher_ok env" "unqueued i s"
  shows "touches i s s' \<and> (if stop then is_finished (status (objs s' i)) else status (objs s' i) = status (objs s i))"
proof (cases "gen = []")
  case False
  then show ?thesis using assms output_touches by (simp add: take_output_def)
next
  case g: True
  show ?thesis
  proof (cases "req_pooling_params (objs s i) \<noteq> None \<and> pooled \<noteq> None")
    case True
    then have "s' = set_obj i (\<lambda>r. r\<lparr>status := FINISHED_STOPPED\<rparr>) s" "stop" using assms(1) g by (auto simp: take_output_def retO_def)
    then show ?thesis using touches_set_obj [OF assms(3), of "\<lambda>r. r\<lparr>status := FINISHED_STOPPED\<rparr>"] by (simp add: is_finished_def)
  next
    case False
    then have "s' = s" "\<not> stop" using assms(1) g by (auto simp: take_output_def retO_def)
    then show ?thesis by (simp add: touches_refl)
  qed
qed

lemma should_advance_touches:
  assumes "should_advance env i s = (b, s')" "unqueued i s"
  shows "touches i s s' \<and> status (objs s' i) = status (objs s i)"
proof -
  have "s' = s \<or> s' = set_obj i (\<lambda>r. r\<lparr>reasoning_ended := Some True\<rparr>) s"
    using assms(1) by (auto simp: should_advance_def Let_def split: if_splits option.splits)
  then show ?thesis using touches_set_obj [OF assms(2), of "\<lambda>r. r\<lparr>reasoning_ended := Some True\<rparr>"] touches_refl by auto
qed

lemma advance_grammar_touches:
  assumes "advance_grammar env i toks stopped s = Inr (stop, s')" "unqueued i s"
  shows "touches i s s' \<and> (stop = stopped \<and> status (objs s' i) = status (objs s i) \<or> stop \<and> is_finished (status (objs s' i)))"
proof (cases "toks = []")
  case True
  then show ?thesis using assms(1) by (simp add: advance_grammar_def touches_refl)
next
  case ne: False
  obtain b s1 where a: "should_advance env i s = (b, s1)" by force
  note t = should_advance_touches [OF a assms(2)]
  have u: "unqueued i s1" using touchesD(6) t assms(2) by blast
  show ?thesis
  proof (cases "stop = stopped \<and> s' = s1")
    case True
    then show ?thesis using t by simp
  next
    case False
    then have "s' = set_obj i (\<lambda>r. r\<lparr>status := FINISHED_ERROR, resumable := False\<rparr>) s1" "stop"
      using assms(1) ne by (auto simp: advance_grammar_def a split: if_splits elim!: bindE_eq_InrE)
    then show ?thesis using t touches_trans touches_set_obj [OF u, of "\<lambda>r. r\<lparr>status := FINISHED_ERROR, resumable := False\<rparr>"]
      by (auto simp: is_finished_def)
  qed
qed

lemma free_encoder_inputs_touches:
  assumes "free_encoder_inputs env i s = Inr s'" shows "touches j s s' \<and> objs s' = objs s"
proof -
  have "\<exists>e. s' = s\<lparr>encoder_manager := e\<rparr>"
    using assms unfolding free_encoder_inputs_def
  proof (rule foldE_invariant [where P = "\<lambda>t. \<exists>e. t = s\<lparr>encoder_manager := e\<rparr>"])
    show "\<exists>e. s = s\<lparr>encoder_manager := e\<rparr>" by (rule exI [of _ "encoder_manager s"]) simp
    fix k t t' assume "\<exists>e. t = s\<lparr>encoder_manager := e\<rparr>" "free_input_step i k t = Inr t'"
    then show "\<exists>e. t' = s\<lparr>encoder_manager := e\<rparr>" unfolding free_input_step_def Let_def
      by (auto split: if_split_asm elim!: bindE_eq_InrE)
  qed
  then show ?thesis using touches_enc by auto
qed

section \<open>A request that stops\<close>

lemma set_obj_running: "(set_obj i f s)\<lparr>running := X\<rparr> = set_obj i f (s\<lparr>running := X\<rparr>)"
  by (simp add: set_obj_def Let_def)

text \<open>What stays when request \<open>i\<close> is dealt with.\<close>

definition others_same :: "nat \<Rightarrow> scheduler \<Rightarrow> scheduler \<Rightarrow> bool" where
  "others_same i s s' \<longleftrightarrow> running s' = running s \<and> conf s' = conf s \<and> set (requests_dict s') \<subseteq> set (requests_dict s)
     \<and> (\<forall>j. j \<noteq> i \<longrightarrow> objs s' j = objs s j) \<and> search_ok (kv_manager s') = search_ok (kv_manager s)"

lemma others_same_trans: "others_same i s s1 \<Longrightarrow> others_same i s1 s2 \<Longrightarrow> others_same i s s2"
  by (auto simp: others_same_def)

lemma others_same_set_obj: "others_same i s (set_obj i f s)"
  by (simp add: others_same_def)

lemma others_same_touches: "touches i s s' \<Longrightarrow> others_same i s s'"
  using touchesD by (auto simp: others_same_def)

lemma extend_session_names: "extend_session upd r = Inr r' \<Longrightarrow> obj_id r' = obj_id r \<and> request_id r' = request_id r"
  by (auto simp: extend_session_def Let_def split: option.splits)

lemma session_places:
  assumes run: "update_request_as_session env i upd s = Some (Inr s')" and ok: "hasher_ok env"
  shows "others_same i s s'" "status (objs s' i) = WAITING" "requests_dict s' = requests_dict s"
    "placed (add_mset i E) (s\<lparr>running := X\<rparr>) \<Longrightarrow> placed (add_mset i E) (s'\<lparr>running := X\<rparr>)"
    "placed E s \<Longrightarrow> i \<in># ids_in (waiting s) + ids_in (skipped_waiting s) \<Longrightarrow> placed E s'"
proof -
  from run obtain r r1 where r: "extend_session upd (objs s i) = Inr r" and r1: "update_block_hashes (env_hasher env) r = Some (Inr r1)"
    and s': "s' = set_obj i (\<lambda>_. r1\<lparr>num_prompt_tokens := (case prompt_token_ids r1 of None \<Rightarrow> 0 | Some ps \<Rightarrow> int (length ps)),
        arrival_time := su_arrival_time upd, req_sampling_params := su_sampling_params upd, status := WAITING\<rparr>)
        (if status r1 = WAITING_FOR_STREAMING_REQ then s\<lparr>num_waiting_for_streaming_input := num_waiting_for_streaming_input s - 1\<rparr> else s)"
    unfolding update_request_as_session_def Let_def by (auto simp: bindO_eq_Inr retO_def)
  define n where "n = (if status r1 = WAITING_FOR_STREAMING_REQ then num_waiting_for_streaming_input s - 1 else num_waiting_for_streaming_input s)"
  define f where "f = (\<lambda>_ :: request. r1\<lparr>num_prompt_tokens := (case prompt_token_ids r1 of None \<Rightarrow> 0 | Some ps \<Rightarrow> int (length ps)),
        arrival_time := su_arrival_time upd, req_sampling_params := su_sampling_params upd, status := WAITING\<rparr>)"
  have s'': "s' = set_obj i f (s\<lparr>num_waiting_for_streaming_input := n\<rparr>)" unfolding s' f_def n_def by simp
  have nm: "obj_id (f (objs s i)) = obj_id (objs s i)" "request_id (f (objs s i)) = request_id (objs s i)"
    using hasher_frame [OF r1 ok] extend_session_names [OF r] by (auto simp: f_def)
  have st: "status (f (objs s i)) = WAITING" by (simp add: f_def)
  show "others_same i s s'" "status (objs s' i) = WAITING" "requests_dict s' = requests_dict s"
    by (simp_all add: s'' others_same_def st)
  show "placed (add_mset i E) (s'\<lparr>running := X\<rparr>)" if "placed (add_mset i E) (s\<lparr>running := X\<rparr>)"
  proof -
    have "placed (add_mset i E) (set_obj i f ((s\<lparr>running := X\<rparr>)\<lparr>num_waiting_for_streaming_input := n\<rparr>))"
      by (rule placed_set_free) (use that nm in simp_all)
    moreover have "s'\<lparr>running := X\<rparr> = set_obj i f ((s\<lparr>running := X\<rparr>)\<lparr>num_waiting_for_streaming_input := n\<rparr>)"
      by (simp add: s'' set_obj_def Let_def)
    ultimately show ?thesis by simp
  qed
  show "placed E s'" if p: "placed E s" and q: "i \<in># ids_in (waiting s) + ids_in (skipped_waiting s)"
  proof -
    have "i \<notin> set (running s)" using placed_disjoint(2) [OF p, of i] q by auto
    then show ?thesis unfolding s'' using p nm st by (intro placed_set_obj) (auto simp: waiting_status_def)
  qed
qed

lemma enqueue_places:
  assumes "placed (add_mset i E) (s\<lparr>running := X\<rparr>)" "waiting_status (status (objs s i))"
  shows "placed E ((enqueue_waiting_request i s)\<lparr>running := X\<rparr>)" "others_same i s (enqueue_waiting_request i s)"
proof -
  have w: "waiting_status (status (objs (s\<lparr>running := X\<rparr>) i))" using assms(2) by simp
  note p = placed_put(2,3) [OF assms(1) w]
  have "(s\<lparr>running := X\<rparr>)\<lparr>waiting := q\<rparr> = s\<lparr>waiting := q\<rparr>\<lparr>running := X\<rparr>" "(s\<lparr>running := X\<rparr>)\<lparr>skipped_waiting := q\<rparr> = s\<lparr>skipped_waiting := q\<rparr>\<lparr>running := X\<rparr>" for q
    by simp_all
  with p show "placed E ((enqueue_waiting_request i s)\<lparr>running := X\<rparr>)"
    by (simp add: enqueue_waiting_request_def Let_def)
  show "others_same i s (enqueue_waiting_request i s)" by (simp add: enqueue_waiting_request_def Let_def others_same_def)
qed

lemma handle_stopped_places:
  assumes run: "handle_stopped_request env i s = Some (Inr (fin, s'))" and ok: "hasher_ok env"
    and p: "placed (add_mset i E) (s\<lparr>running := X\<rparr>)"
  shows "others_same i s s'" "fin \<Longrightarrow> placed (add_mset i E) (s'\<lparr>running := X\<rparr>) \<and> status (objs s' i) = status (objs s i)"
    "\<not> fin \<Longrightarrow> placed E (s'\<lparr>running := X\<rparr>)" "requests_dict s' = requests_dict s"
proof -
  have p': "placed (add_mset i E) ((set_obj i f s)\<lparr>running := X\<rparr>)"
    if "\<And>r. obj_id (f r) = obj_id r" "\<And>r. request_id (f r) = request_id r" for f
    unfolding set_obj_running using that by (intro placed_set_free [OF p]) simp_all
  have "others_same i s s' \<and> requests_dict s' = requests_dict s \<and>
    (if fin then placed (add_mset i E) (s'\<lparr>running := X\<rparr>) \<and> status (objs s' i) = status (objs s i) else placed E (s'\<lparr>running := X\<rparr>))"
  proof (cases "resumable (objs s i)")
    case False
    then have "s' = s" "fin" using run by (simp_all add: handle_stopped_request_def retO_def)
    then show ?thesis using p by (simp add: others_same_def)
  next
    case res: True
    show ?thesis
    proof (cases "streaming_queue (objs s i) = None \<or> streaming_queue (objs s i) = Some []")
      case True
      let ?s1 = "(set_obj i (\<lambda>r. r\<lparr>status := WAITING_FOR_STREAMING_REQ\<rparr>) s)\<lparr>num_waiting_for_streaming_input := num_waiting_for_streaming_input s + 1\<rparr>"
      have s': "s' = enqueue_waiting_request i ?s1" "\<not> fin"
        using run res True by (auto simp: handle_stopped_request_def retO_def Let_def)
      have "placed (add_mset i E) ((set_obj i (\<lambda>r. r\<lparr>status := WAITING_FOR_STREAMING_REQ\<rparr>) s)\<lparr>running := X\<rparr>)" by (rule p') simp_all
      then have "placed (add_mset i E) (?s1\<lparr>running := X\<rparr>)" by simp
      from enqueue_places [OF this] s' show ?thesis
        by (auto simp: waiting_status_def others_same_def enqueue_waiting_request_def Let_def)
    next
      case False
      then obtain x us where q: "streaming_queue (objs s i) = Some (x # us)" by (cases "streaming_queue (objs s i)") (auto simp: neq_Nil_conv)
      let ?s1 = "set_obj i (\<lambda>r. r\<lparr>streaming_queue := Some us\<rparr>) s"
      have p1: "placed (add_mset i E) (?s1\<lparr>running := X\<rparr>)" by (rule p') simp_all
      show ?thesis
      proof (cases x)
        case None
        then have "s' = ?s1" "fin" using run res q by (simp_all add: handle_stopped_request_def retO_def Let_def)
        then show ?thesis using p1 by (simp add: others_same_def)
      next
        case (Some upd)
        then obtain s2 where s2: "update_request_as_session env i upd ?s1 = Some (Inr s2)" and s': "s' = enqueue_waiting_request i s2" "\<not> fin"
          using run res q by (auto simp: handle_stopped_request_def retO_def Let_def bindO_eq_Inr)
        note u = session_places [OF s2 ok]
        have w: "waiting_status (status (objs s2 i))" using u(2) by (simp add: waiting_status_def)
        note e = enqueue_places [OF u(4) [OF p1] w]
        have "others_same i s s'" unfolding s' using others_same_trans [OF others_same_trans [OF others_same_set_obj u(1)] e(2)] .
        then show ?thesis using s' e(1) u(3) by (simp add: enqueue_waiting_request_def Let_def)
      qed
    qed
  qed
  then show "others_same i s s'" "fin \<Longrightarrow> placed (add_mset i E) (s'\<lparr>running := X\<rparr>) \<and> status (objs s' i) = status (objs s i)"
    "\<not> fin \<Longrightarrow> placed E (s'\<lparr>running := X\<rparr>)" "requests_dict s' = requests_dict s" by (auto split: if_splits)
qed

lemma free_request_places:
  assumes run: "free_request env i False s = Inr s'" and p: "placed (add_mset i E) (s\<lparr>running := X\<rparr>)"
  shows "others_same i s s'" "placed E (s'\<lparr>running := X\<rparr>)" "is_finished (status (objs s i))"
    "requests_dict s' = dict_pop (request_id (objs s i)) (requests_dict s)" "objs s' = objs s" "waiting s' = waiting s" "skipped_waiting s' = skipped_waiting s"
proof -
  let ?rid = "request_id (objs s i)"
  have "is_finished (status (objs s i)) \<and> (\<exists>e km fs fd. km_frame (kv_manager s) km \<and> s' = s\<lparr>encoder_manager := e, finished_req_ids := fs, finished_req_ids_dict := fd,
      kv_manager := km, requests_dict := dict_pop ?rid (requests_dict s)\<rparr>)"
    using run unfolding free_request_def sched_free_encoder_def sched_free_blocks_def sched_free_kv_def note_finished_def dict_popE_def Let_def
    by (auto elim!: bindE_eq_InrE split: option.splits dest!: km_free_frame) blast
  then obtain e km fs fd where fin: "is_finished (status (objs s i))" and fr: "km_frame (kv_manager s) km" and s': "s' = s\<lparr>encoder_manager := e, finished_req_ids := fs, finished_req_ids_dict := fd,
      kv_manager := km, requests_dict := dict_pop ?rid (requests_dict s)\<rparr>" by blast
  show "is_finished (status (objs s i))" by (rule fin)
  show "others_same i s s'" "requests_dict s' = dict_pop ?rid (requests_dict s)" "objs s' = objs s" "waiting s' = waiting s" "skipped_waiting s' = skipped_waiting s"
    by (auto simp: others_same_def s' set_dict_pop search_ok_frame [OF fr])
  have "placed E ((s\<lparr>running := X\<rparr>)\<lparr>requests_dict := dict_pop ?rid (requests_dict s)\<rparr>)" using placed_forget [OF p] by simp
  then have "placed E (s\<lparr>requests_dict := dict_pop ?rid (requests_dict s), running := X\<rparr>)" by (simp add: placed_def)
  then show "placed E (s'\<lparr>running := X\<rparr>)" unfolding s' placed_def by simp
qed

lemma finish_stopped_places:
  assumes run: "finish_stopped env i RUNNING u = Some (Inr (reason, u'))" and ok: "hasher_ok env"
    and p: "placed (add_mset i E) ((usch u)\<lparr>running := X\<rparr>)"
  shows "placed E ((usch u')\<lparr>running := X\<rparr>)" "others_same i (usch u) (usch u')" "stopped_running u' = stopped_running u @ [i]"
    "stopped_preempted u' = stopped_preempted u"
proof -
  from run obtain fin s1 s2 where h: "handle_stopped_request env i (usch u) = Some (Inr (fin, s1))"
    and f: "(if fin then free_request env i False s1 else Inr s1) = Inr s2"
    and u': "u' = u\<lparr>usch := s2, stopped_running := stopped_running u @ [i]\<rparr>"
    by (auto simp: finish_stopped_def bindO_eq_Inr retO_def Let_def)
  note hp = handle_stopped_places [OF h ok p]
  show "stopped_running u' = stopped_running u @ [i]" "stopped_preempted u' = stopped_preempted u" by (simp_all add: u')
  have "placed E (s2\<lparr>running := X\<rparr>) \<and> others_same i (usch u) s2"
  proof (cases fin)
    case True
    then have fr: "free_request env i False s1 = Inr s2" using f by simp
    have p1: "placed (add_mset i E) (s1\<lparr>running := X\<rparr>)" using hp(2) True by simp
    from free_request_places(1,2) [OF fr p1] show ?thesis using others_same_trans [OF hp(1)] by simp
  next
    case False
    then show ?thesis using f hp(1,3) by simp
  qed
  then show "placed E ((usch u')\<lparr>running := X\<rparr>)" "others_same i (usch u) (usch u')" by (simp_all add: u')
qed

section \<open>Taking the output of a step\<close>

definition still_running :: "update_vars \<Rightarrow> nat list" where
  "still_running u = filter (\<lambda>j. j \<notin> set (stopped_running u)) (running (usch u))"

definition update_ok :: "update_vars \<Rightarrow> bool" where
  "update_ok u \<longleftrightarrow> placed {#} ((usch u)\<lparr>running := still_running u\<rparr>) \<and> stopped_preempted u = [] \<and> distinct (running (usch u))"

lemma snd_take_prefill_stats: "snd (take_prefill_stats r) = r\<lparr>prefill_stats := None\<rparr>"
  by (cases r) (simp add: take_prefill_stats_def split: option.split)

lemma emit_output_result:
  assumes "emit_output i rid toks stop pooled lp reason u = Inr u'"
  shows "usch u' = usch u \<or> (\<exists>ps. usch u' = set_obj i (\<lambda>r. r\<lparr>prefill_stats := ps\<rparr>) (usch u))"
    "stopped_running u' = stopped_running u" "stopped_preempted u' = stopped_preempted u"
  using assms unfolding emit_output_def Let_def snd_take_prefill_stats
  by (auto split: if_splits elim!: bindE_eq_InrE)

lemma running_unqueued:
  assumes "placed E s" "dict_get (requests_dict s) rid = Some i" "status (objs s i) = RUNNING" "E = {#}"
  shows "unqueued i s" "i \<in> set (running s)" "obj_id (objs s i) = i" "request_id (objs s i) = rid"
proof -
  note p = placedD [OF assms(1)]
  have m: "(rid, i) \<in> set (requests_dict s)" by (rule dict_get_SomeD [OF assms(2)])
  show "obj_id (objs s i) = i" "request_id (objs s i) = rid" using p(1) m by (auto simp: named_def)
  have "i \<in># mset (map snd (requests_dict s))" using m by force
  then have w: "i \<in># mset (running s) + ids_in (waiting s) + ids_in (skipped_waiting s)" using p(2) assms(4) by simp
  have "waiting_status RUNNING" if mq: "i \<in># ids_in (waiting s) + ids_in (skipped_waiting s)"
  proof -
    obtain r where "r \<in> set (queue_reqs (waiting s)) \<union> set (queue_reqs (skipped_waiting s))" "obj_id r = i" using mq by auto
    then show ?thesis using p(6) [of r] assms(3) by simp
  qed
  then show q: "unqueued i s" by (auto simp: unqueued_def waiting_status_def)
  then show "i \<in> set (running s)" using w by (auto simp: unqueued_def)
qed

lemma update_one_parts:
  assumes "update_one env so mo rid i u = Some (Inr u')"
  obtains f gen s2 pooled toks stop0 s3 stop s4 reason u1 lp where
    "f = reject_drafts (dict_get (scheduled_spec_decode_tokens so) rid) gen"
    "(if has_encoder_inputs (objs (set_obj i f (usch u)) i) then free_encoder_inputs env i (set_obj i f (usch u)) else Inr (set_obj i f (usch u))) = Inr s2"
    "take_output env i gen pooled s2 = Some (Inr (toks, stop0, s3))" "advance_grammar env i toks stop0 s3 = Inr (stop, s4)"
    "(if stop then finish_stopped env i (status (objs s2 i)) (u\<lparr>usch := s4\<rparr>) else retO (None, u\<lparr>usch := s4\<rparr>)) = Some (Inr (reason, u1))"
    "emit_output i rid toks stop pooled lp reason u1 = Inr u'"
  using assms unfolding update_one_def Let_def
  by (elim bindO_InrE) (force simp: option.inject elim!: bindO_InrE)

lemma reject_drafts_names [simp]:
  "obj_id (reject_drafts d g r) = obj_id r" "request_id (reject_drafts d g r) = request_id r" "status (reject_drafts d g r) = status r"
  by (auto simp: reject_drafts_def Let_def split: option.splits list.splits)

lemma update_one_ok:
  assumes run: "update_one env so mo rid i u = Some (Inr u')" and ok: "hasher_ok env" and u: "update_ok u"
    and i: "dict_get (requests_dict (usch u)) rid = Some i" "status (objs (usch u) i) = RUNNING"
  shows "update_ok u'" "others_same i (usch u) (usch u')"
proof -
  let ?X = "still_running u" and ?s = "usch u"
  have p: "placed {#} (?s\<lparr>running := ?X\<rparr>)" and pre: "stopped_preempted u = []" "distinct (running ?s)" using u by (simp_all add: update_ok_def)
  have un: "unqueued i (?s\<lparr>running := ?X\<rparr>)" and iX: "i \<in> set ?X"
    using running_unqueued [OF p, of rid i] i by simp_all
  then have un0: "unqueued i ?s" by (simp add: unqueued_def)
  obtain f gen s2 pooled toks stop0 s3 stop s4 reason u1 lp where f: "f = reject_drafts (dict_get (scheduled_spec_decode_tokens so) rid) gen"
    and 2: "(if has_encoder_inputs (objs (set_obj i f ?s) i) then free_encoder_inputs env i (set_obj i f ?s) else Inr (set_obj i f ?s)) = Inr s2"
    and 3: "take_output env i gen pooled s2 = Some (Inr (toks, stop0, s3))" and 4: "advance_grammar env i toks stop0 s3 = Inr (stop, s4)"
    and 5: "(if stop then finish_stopped env i (status (objs s2 i)) (u\<lparr>usch := s4\<rparr>) else retO (None, u\<lparr>usch := s4\<rparr>)) = Some (Inr (reason, u1))"
    and 6: "emit_output i rid toks stop pooled lp reason u1 = Inr u'"
    by (rule update_one_parts [OF run])
  have t1: "touches i ?s (set_obj i f ?s)" by (rule touches_set_obj [OF un0]) (simp_all add: f)
  have t2: "touches i ?s s2 \<and> status (objs s2 i) = RUNNING"
    using 2 t1 free_encoder_inputs_touches touches_trans [OF t1] i(2) by (auto simp: f split: if_splits)
  have un2: "unqueued i s2" using touchesD(6) t2 un0 by blast
  note t3 = take_output_touches [OF 3 ok un2]
  have un3: "unqueued i s3" using touchesD(6) t3 un2 by blast
  note t4 = advance_grammar_touches [OF 4 un3]
  have t: "touches i ?s s4" using t2 t3 t4 touches_trans by blast
  have tp: "placed {#} (s4\<lparr>running := ?X\<rparr>)" if "status (objs s4 i) = RUNNING" using touches_placed [OF t p un0] that by simp
  have "update_ok u1 \<and> others_same i ?s (usch u1) \<and> still_running u1 = still_running u1"
  proof (cases stop)
    case True
    then have fs: "finish_stopped env i RUNNING (u\<lparr>usch := s4\<rparr>) = Some (Inr (reason, u1))" using 5 t2 by simp
    have "placed (add_mset i {#}) ((?s\<lparr>running := ?X\<rparr>)\<lparr>running := remove1 i ?X\<rparr>)" using placed_take_run [OF p, of i] iX by simp
    then have p1: "placed (add_mset i {#}) (?s\<lparr>running := remove1 i ?X\<rparr>)" by simp
    have "i \<notin> set (remove1 i ?X)" using placed_disjoint(1) [OF p] by simp
    then have p4: "placed (add_mset i {#}) ((usch (u\<lparr>usch := s4\<rparr>))\<lparr>running := remove1 i ?X\<rparr>)" using touches_placed [OF t p1 un0] by simp
    note r = finish_stopped_places [OF fs ok p4]
    have o: "others_same i ?s (usch u1)" using others_same_trans [OF others_same_touches [OF t]] r(2) by simp
    have "still_running u1 = remove1 i ?X"
    proof -
      have "running (usch u1) = running ?s" using o by (simp add: others_same_def)
      then show ?thesis using r(3) placed_disjoint(1) [OF p]
        by (simp add: still_running_def distinct_remove1_removeAll removeAll_filter_not_eq conj_commute) (metis (mono_tags, lifting))
    qed
    then show ?thesis using r pre o by (simp add: update_ok_def others_same_def)
  next
    case False
    then have u1: "u1 = u\<lparr>usch := s4\<rparr>" using 5 by (simp add: retO_def)
    have "status (objs s4 i) = RUNNING" using t2 t3 t4 False by (auto split: if_splits)
    from tp [OF this] show ?thesis using pre others_same_touches [OF t] touchesD(1) [OF t] by (simp add: u1 update_ok_def still_running_def)
  qed
  then have u1: "update_ok u1" "others_same i ?s (usch u1)" by simp_all
  note e = emit_output_result [OF 6]
  have "placed {#} ((usch u')\<lparr>running := still_running u1\<rparr>)"
  proof (cases "usch u' = usch u1")
    case True
    then show ?thesis using u1(1) by (simp add: update_ok_def)
  next
    case False
    then obtain ps where ps: "usch u' = set_obj i (\<lambda>r. r\<lparr>prefill_stats := ps\<rparr>) (usch u1)" using e(1) by blast
    show ?thesis unfolding ps set_obj_running using u1(1) by (intro placed_set_same) (simp_all add: update_ok_def)
  qed
  moreover have "running (usch u') = running (usch u1)" "others_same i (usch u1) (usch u')" using e(1) by (auto simp: others_same_def)
  ultimately show "update_ok u'" "others_same i ?s (usch u')"
    using u1 e(2,3) others_same_trans by (auto simp: update_ok_def still_running_def)
qed

definition named_running :: "string list \<Rightarrow> scheduler \<Rightarrow> bool" where
  "named_running rids s \<longleftrightarrow> (\<forall>rid \<in> set rids. \<forall>i. dict_get (requests_dict s) rid = Some i \<longrightarrow> status (objs s i) = RUNNING)"

lemma update_fold_ok:
  assumes "foldO (update_step env so mo) xs u = Some (Inr u')" "hasher_ok env" "update_ok u" "distinct (map fst xs)" "named_running (map fst xs) (usch u)"
  shows "update_ok u'"
  using assms
proof (induction xs arbitrary: u)
  case Nil
  then show ?case by (simp add: retO_def)
next
  case (Cons x xs)
  let ?rid = "fst x"
  from Cons.prems(1) obtain u1 where 1: "update_step env so mo x u = Some (Inr u1)" and 2: "foldO (update_step env so mo) xs u1 = Some (Inr u')"
    by (auto simp: bindO_eq_Inr)
  have d: "distinct (map fst xs)" "?rid \<notin> set (map fst xs)" and nr: "named_running (map fst xs) (usch u)"
    using Cons.prems(4,5) by (auto simp: named_running_def)
  show ?case
  proof (cases "u1 = u")
    case True
    then show ?thesis using Cons.IH [OF 2 Cons.prems(2)] Cons.prems(3) d nr by simp
  next
    case False
    with 1 obtain i where i: "dict_get (requests_dict (usch u)) ?rid = Some i" and o: "update_one env so mo ?rid i u = Some (Inr u1)"
      unfolding update_step_def by (auto simp: bindO_eq_Inr retO_def split: option.splits if_splits)
    have run: "status (objs (usch u) i) = RUNNING" using Cons.prems(5) i by (simp add: named_running_def)
    note r = update_one_ok [OF o Cons.prems(2,3) i run]
    have nm: "named (requests_dict (usch u)) (objs (usch u))" "named (requests_dict (usch u1)) (objs (usch u1))"
      using Cons.prems(3) r(1) placedD(1) by (fastforce simp: update_ok_def)+
    have "named_running (map fst xs) (usch u1)" unfolding named_running_def
    proof (intro ballI allI impI)
      fix y j assume y: "y \<in> set (map fst xs)" and g: "dict_get (requests_dict (usch u1)) y = Some j"
      have "(y, j) \<in> set (requests_dict (usch u))" using dict_get_SomeD [OF g] r(2) by (auto simp: others_same_def)
      then have gu: "dict_get (requests_dict (usch u)) y = Some j" "request_id (objs (usch u) j) = y"
        using nm(1) by (auto simp: named_def dict_get_wf)
      have "request_id (objs (usch u) i) = ?rid" using nm(1) dict_get_SomeD [OF i] by (auto simp: named_def)
      have "j \<noteq> i"
      proof
        assume "j = i"
        then have "y = ?rid" using gu(2) \<open>request_id (objs (usch u) i) = ?rid\<close> by simp
        then show False using y d(2) by simp
      qed
      then show "status (objs (usch u1) j) = RUNNING" using nr y gu(1) r(2) by (auto simp: named_running_def others_same_def)
    qed
    then show ?thesis by (rule Cons.IH [OF 2 Cons.prems(2) r(1) d(1)])
  qed
qed

lemma remove_all_filter: "distinct xs \<Longrightarrow> remove_all xs ys = filter (\<lambda>i. i \<notin> set ys) xs"
proof (cases "remdups ys")
  case Nil
  assume "distinct xs"
  then show ?thesis using Nil by (simp add: remove_all_def)
next
  case (Cons x zs)
  assume d: "distinct xs"
  have s: "set ys = set (x # zs)" using Cons by (metis set_remdups)
  show ?thesis
  proof (cases zs)
    case Nil
    then have "filter (\<lambda>i. i \<notin> set ys) xs = removeAll x xs" unfolding removeAll_filter_not_eq using s by (intro filter_cong) auto
    then show ?thesis using Cons Nil d by (simp add: remove_all_def distinct_remove1_removeAll)
  next
    case (Cons a as)
    then show ?thesis using \<open>remdups ys = _\<close> by (simp add: remove_all_def)
  qed
qed

lemma update_from_output_placed:
  assumes "update_from_output env so mo s = Some (Inr (outs, evs, s'))" "hasher_ok env" "placed {#} s"
    and "dict_wf (num_scheduled_tokens so)" "named_running (map fst (num_scheduled_tokens so)) s"
  shows "placed {#} s'"
proof -
  let ?u0 = "\<lparr>usch = s, stopped_running = [], stopped_preempted = [], eouts = []\<rparr>"
  from assms(1) obtain u where u: "foldO (update_step env so mo) (num_scheduled_tokens so) ?u0 = Some (Inr u)"
    and r: "(let s1 = remove_stopped u; (evs, km) = km_take_events (kv_manager s1);
           (os, s2) = collect_outputs (eouts u) (s1\<lparr>kv_manager := km\<rparr>) in retO (os, evs, s2)) = Some (Inr (outs, evs, s'))"
    unfolding update_from_output_def by (auto simp: bindO_eq_Inr)
  have "update_ok ?u0" using assms(3) placed_disjoint(1) [OF assms(3)] by (simp add: update_ok_def still_running_def)
  moreover have "distinct (map fst (num_scheduled_tokens so))" using assms(4) unfolding dict_wf_def .
  moreover have "named_running (map fst (num_scheduled_tokens so)) (usch ?u0)" using assms(5) by simp
  ultimately have ok: "update_ok u" by (rule update_fold_ok [OF u assms(2)])
  have "remove_stopped u = (usch u)\<lparr>running := still_running u\<rparr>"
    using ok by (auto simp: remove_stopped_def Let_def update_ok_def still_running_def remove_all_filter)
  then have p: "placed {#} (remove_stopped u)" using ok by (simp add: update_ok_def)
  obtain e km where ev: "km_take_events (kv_manager (remove_stopped u)) = (e, km)" by force
  obtain os s2 where co: "collect_outputs (eouts u) ((remove_stopped u)\<lparr>kv_manager := km\<rparr>) = (os, s2)" by force
  have "s' = s2" using r by (simp add: Let_def ev co retO_def)
  then show ?thesis using co p by (auto simp: collect_outputs_def Let_def split: option.splits)
qed

section \<open>Adding and finishing requests\<close>

text \<open>A request to add is a new object that waits; its id may be that of a live session.\<close>

definition addable :: "request \<Rightarrow> scheduler \<Rightarrow> bool" where
  "addable r s \<longleftrightarrow> obj_id r \<notin> snd ` set (requests_dict s) \<and> status r \<in> {WAITING, WAITING_FOR_STRUCTURED_OUTPUT_GRAMMAR}"

lemma dict_set_new: "dict_get d k = None \<Longrightarrow> dict_set k v d = d @ [(k, v)]"
  by (induction d) (auto simp: dict_set_def dict_get_def split: if_splits)

lemma add_new_placed:
  assumes p: "placed {#} s" and r: "addable r s" and new: "dict_get (requests_dict s) (request_id r) = None"
    and run: "add_request env r s = Some (Inr s')"
  shows "placed {#} s'"
proof -
  let ?i = "obj_id r"
  define r1 where "r1 = (if resumable r then r\<lparr>streaming_queue := Some []\<rparr> else r)"
  have r1: "obj_id r1 = ?i" "request_id r1 = request_id r" "status r1 = status r" by (simp_all add: r1_def)
  let ?s0 = "s\<lparr>objs := (objs s)(?i := r1), requests_dict := dict_set (request_id r) ?i (requests_dict s)\<rparr>"
  have s': "s' = enqueue_waiting_request ?i ?s0"
  proof -
    have "s' = (enqueue_waiting_request ?i (s\<lparr>objs := (objs s)(?i := r1)\<rparr>))\<lparr>requests_dict := dict_set (request_id r) ?i (requests_dict s)\<rparr>"
      using run new unfolding add_request_def Let_def r1_def [symmetric] by (simp add: retO_def enqueue_waiting_request_def Let_def split: if_splits)
    then show ?thesis by (cases "is_blocked_waiting_status (status r1)") (simp_all add: enqueue_waiting_request_def Let_def)
  qed
  note pd = placedD [OF p]
  have q: "obj_id x \<noteq> ?i" if "x \<in> set (queue_reqs (waiting s)) \<union> set (queue_reqs (skipped_waiting s))" for x
  proof -
    have "obj_id x \<in> snd ` set (requests_dict s)" using that by (intro placed_live(3) [OF p]) auto
    then show ?thesis using r unfolding addable_def by metis
  qed
  have rn: "j \<noteq> ?i" if "j \<in> set (running s)" for j
  proof -
    have "j \<in> snd ` set (requests_dict s)" using that by (intro placed_live(3) [OF p]) auto
    then show ?thesis using r unfolding addable_def by metis
  qed
  have dm: "j \<noteq> ?i" if "(k, j) \<in> set (requests_dict s)" for k j using that r by (force simp: addable_def)
  have "placed {#?i#} ?s0" unfolding placed_def
  proof (intro conjI)
    show "named (requests_dict ?s0) (objs ?s0)"
      using pd(1) new dm unfolding named_def by (auto simp: dict_set_new r1 dict_wf_def image_iff)
    show "mset (running ?s0) + ids_in (waiting ?s0) + ids_in (skipped_waiting ?s0) + {#?i#} = mset (map snd (requests_dict ?s0))"
      using pd(2) by (simp add: dict_set_new [OF new])
    show "copies_ok (objs ?s0) (waiting ?s0)" "copies_ok (objs ?s0) (skipped_waiting ?s0)" using pd(3,4) q by (auto simp: copies_ok_def)
    show "\<forall>i \<in> set (running ?s0). status (objs ?s0 i) = RUNNING" using pd(5) rn by auto
    show "\<forall>x \<in> set (queue_reqs (waiting ?s0)) \<union> set (queue_reqs (skipped_waiting ?s0)). waiting_status (status (objs ?s0 (obj_id x)))"
      using pd(6) q by auto
  qed
  then have "placed (add_mset ?i {#}) (?s0\<lparr>running := running ?s0\<rparr>)" by simp
  moreover have "waiting_status (status (objs ?s0 ?i))" using r r1(3) by (auto simp: addable_def waiting_status_def)
  ultimately have "placed {#} ((enqueue_waiting_request ?i ?s0)\<lparr>running := running ?s0\<rparr>)" by (rule enqueue_places(1))
  moreover have "(enqueue_waiting_request ?i ?s0)\<lparr>running := running ?s0\<rparr> = enqueue_waiting_request ?i ?s0"
    by (cases "is_blocked_waiting_status (status r1)") (simp_all add: enqueue_waiting_request_def Let_def)
  ultimately show ?thesis unfolding s' by simp
qed

lemma live_status:
  assumes "placed {#} s" "dict_get (requests_dict s) rid = Some i"
  shows "i \<in> set (running s) \<and> status (objs s i) = RUNNING \<or> i \<notin> set (running s) \<and> waiting_status (status (objs s i))"
    "\<not> is_finished (status (objs s i))" "status (objs s i) \<noteq> WAITING_FOR_REMOTE_KVS"
proof -
  note p = placedD [OF assms(1)]
  have "(rid, i) \<in> set (requests_dict s)" by (rule dict_get_SomeD [OF assms(2)])
  then have "i \<in># mset (map snd (requests_dict s))" by force
  then have "i \<in> set (running s) \<or> (\<exists>r \<in> set (queue_reqs (waiting s)) \<union> set (queue_reqs (skipped_waiting s)). obj_id r = i)"
    unfolding p(2) [symmetric] by auto
  then show st: "i \<in> set (running s) \<and> status (objs s i) = RUNNING \<or> i \<notin> set (running s) \<and> waiting_status (status (objs s i))"
  proof
    assume "i \<in> set (running s)"
    then show ?thesis using p(5) by blast
  next
    assume "\<exists>r \<in> set (queue_reqs (waiting s)) \<union> set (queue_reqs (skipped_waiting s)). obj_id r = i"
    then obtain r where "r \<in> set (queue_reqs (waiting s)) \<union> set (queue_reqs (skipped_waiting s))" "obj_id r = i" by blast
    then have w: "waiting_status (status (objs s i))" using p(6) by blast
    moreover have "i \<notin> set (running s)" using p(5) w by (auto simp: waiting_status_def)
    ultimately show ?thesis by simp
  qed
  then show "\<not> is_finished (status (objs s i))" "status (objs s i) \<noteq> WAITING_FOR_REMOTE_KVS"
    by (auto simp: waiting_status_def is_finished_def)
qed

text \<open>The first loop of \<open>finish_requests\<close> collects the live requests that are named.\<close>

abbreviation named_live :: "scheduler \<Rightarrow> string list \<Rightarrow> nat list" where
  "named_live s ids \<equiv> List.map_filter (dict_get (requests_dict s)) ids"

lemma collect_finish:
  assumes "placed {#} s"
  shows "fold (collect_finish_step s) ids f =
    f\<lparr>f_valid := f_valid f @ named_live s ids, f_running := f_running f @ filter (\<lambda>i. status (objs s i) = RUNNING) (named_live s ids),
      f_waiting := f_waiting f @ filter (\<lambda>i. status (objs s i) \<noteq> RUNNING) (named_live s ids),
      f_streaming := f_streaming f - int (length (filter (\<lambda>i. status (objs s i) = WAITING_FOR_STREAMING_REQ) (named_live s ids)))\<rparr>"
proof (induction ids arbitrary: f)
  case Nil
  then show ?case by (simp add: map_filter_simps)
next
  case (Cons rid ids)
  show ?case
  proof (cases "dict_get (requests_dict s) rid")
    case None
    then show ?thesis using Cons by (simp add: collect_finish_step_def map_filter_simps del: dict_get_eq_None)
  next
    case (Some i)
    then show ?thesis using Cons live_status(2) [OF assms Some] by (simp add: collect_finish_step_def map_filter_simps Let_def del: dict_get_eq_None)
  qed
qed

lemma named_live_distinct:
  assumes "placed {#} s" "distinct ids" shows "distinct (named_live s ids)" "set (named_live s ids) \<subseteq> snd ` set (requests_dict s)"
proof -
  have nm: "named (requests_dict s) (objs s)" by (rule placedD(1) [OF assms(1)])
  have rid: "request_id (objs s i) = rid" if "dict_get (requests_dict s) rid = Some i" for rid i
    using nm dict_get_SomeD [OF that] by (auto simp: named_def)
  have m: "i \<in> set (named_live s ids) \<longleftrightarrow> (\<exists>rid \<in> set ids. dict_get (requests_dict s) rid = Some i)" for ids i
    by (induction ids) (auto simp: map_filter_simps simp del: dict_get_eq_None split: option.splits)
  show "set (named_live s ids) \<subseteq> snd ` set (requests_dict s)" proof
    fix i assume "i \<in> set (named_live s ids)"
    then obtain rid where "dict_get (requests_dict s) rid = Some i" unfolding m by blast
    then show "i \<in> snd ` set (requests_dict s)" using dict_get_SomeD by (force simp: image_iff)
  qed
  show "distinct (named_live s ids)" using assms(2)
  proof (induction ids)
    case Nil
    then show ?case by (simp add: map_filter_simps)
  next
    case (Cons rid ids)
    show ?case
    proof (cases "dict_get (requests_dict s) rid")
      case None
      then show ?thesis using Cons by (simp add: map_filter_simps del: dict_get_eq_None)
    next
      case (Some i)
      have "i \<notin> set (named_live s ids)"
      proof
        assume "i \<in> set (named_live s ids)"
        then obtain y where "y \<in> set ids" "dict_get (requests_dict s) y = Some i" unfolding m by blast
        then have "y = rid" using rid Some by metis
        then show False using Cons.prems \<open>y \<in> set ids\<close> by simp
      qed
      then show ?thesis using Cons Some by (simp add: map_filter_simps del: dict_get_eq_None)
    qed
  qed
qed

lemma filter_bag: "distinct xs \<Longrightarrow> V \<subseteq> set xs \<Longrightarrow> distinct vs \<Longrightarrow> set vs = V \<Longrightarrow> filter_mset (\<lambda>i. i \<notin> V) (mset xs) + mset vs = mset xs"
proof -
  assume a: "distinct xs" "V \<subseteq> set xs" "distinct vs" "set vs = V"
  have "mset vs = filter_mset (\<lambda>i. i \<in> V) (mset xs)"
    using a by (intro set_eq_iff_mset_eq_distinct [THEN iffD1, of vs "filter (\<lambda>i. i \<in> V) xs", simplified]) auto
  then show ?thesis by (metis add.commute multiset_partition)
qed

lemma drop_finished_placed:
  assumes p: "placed {#} s" and d: "distinct vs" "set vs \<subseteq> snd ` set (requests_dict s)"
    and f: "f_valid f = vs" "f_running f = filter (\<lambda>i. status (objs s i) = RUNNING) vs" "f_waiting f = filter (\<lambda>i. status (objs s i) \<noteq> RUNNING) vs"
  shows "placed (mset vs) (drop_finished f s)" "objs (drop_finished f s) = objs s" "requests_dict (drop_finished f s) = requests_dict s"
proof -
  let ?s = "drop_finished f s"
  note pd = placedD [OF p]
  show fr: "objs ?s = objs s" "requests_dict ?s = requests_dict s" by (simp_all add: drop_finished_def Let_def)
  have live: "obj_id (objs s i) = i" if "i \<in> set vs" for i using namedD [OF pd(1)] d(2) that by blast
  have W: "obj_id ` set (map (objs s) (f_waiting f)) = set (f_waiting f)" using live by (force simp: f(3) image_image)
  have run: "running ?s = filter (\<lambda>i. i \<notin> set vs) (running s)"
  proof -
    have "running ?s = filter (\<lambda>i. i \<notin> set (f_running f)) (running s)"
      using remove_all_filter [OF placed_disjoint(1) [OF p]] by (simp add: drop_finished_def Let_def)
    also have "\<dots> = filter (\<lambda>i. i \<notin> set vs) (running s)" using pd(5) by (intro filter_cong) (auto simp: f(2))
    finally show ?thesis .
  qed
  have qs: "mset (queue_reqs q') = filter_mset (\<lambda>r. obj_id r \<notin> set vs) (mset (queue_reqs q))"
    if "q' = (if f_waiting f = [] then q else q_remove_all (map (objs s) (f_waiting f)) q)" "set (queue_reqs q) \<subseteq> set (queue_reqs (waiting s)) \<union> set (queue_reqs (skipped_waiting s))" for q q'
  proof -
    have "mset (queue_reqs q') = filter_mset (\<lambda>r. obj_id r \<notin> set (f_waiting f)) (mset (queue_reqs q))"
      using W by (simp add: that(1))
    also have "\<dots> = filter_mset (\<lambda>r. obj_id r \<notin> set vs) (mset (queue_reqs q))"
    proof (rule filter_mset_cong [OF refl])
      fix r assume "r \<in># mset (queue_reqs q)"
      then have "waiting_status (status (objs s (obj_id r)))" using that(2) pd(6) by (metis set_mset_mset subsetD)
      then have "status (objs s (obj_id r)) \<noteq> RUNNING" by (auto simp: waiting_status_def)
      then show "(obj_id r \<notin> set (f_waiting f)) = (obj_id r \<notin> set vs)" by (simp add: f(3))
    qed
    finally show ?thesis .
  qed
  have w: "mset (queue_reqs (waiting ?s)) = filter_mset (\<lambda>r. obj_id r \<notin> set vs) (mset (queue_reqs (waiting s)))"
    by (rule qs) (simp_all add: drop_finished_def Let_def)
  have k: "mset (queue_reqs (skipped_waiting ?s)) = filter_mset (\<lambda>r. obj_id r \<notin> set vs) (mset (queue_reqs (skipped_waiting s)))"
    by (rule qs) (simp_all add: drop_finished_def Let_def)
  have sw: "set (queue_reqs (waiting ?s)) \<subseteq> set (queue_reqs (waiting s))" "set (queue_reqs (skipped_waiting ?s)) \<subseteq> set (queue_reqs (skipped_waiting s))"
    using arg_cong [OF w, of set_mset] arg_cong [OF k, of set_mset] by auto
  have ids: "image_mset obj_id (filter_mset (\<lambda>r. obj_id r \<notin> V) M) = filter_mset (\<lambda>i. i \<notin> V) (image_mset obj_id M)" for V M
    by (induction M) auto
  have "mset (running ?s) + ids_in (waiting ?s) + ids_in (skipped_waiting ?s)
      = filter_mset (\<lambda>i. i \<notin> set vs) (mset (running s) + ids_in (waiting s) + ids_in (skipped_waiting s) + {#})"
    unfolding run w k ids by simp
  also have "\<dots> + mset vs = mset (map snd (requests_dict s))"
    unfolding pd(2) by (rule filter_bag [OF named_distinct [OF pd(1)] _ d(1) refl]) (use d(2) in simp)
  finally have bag: "mset (running ?s) + ids_in (waiting ?s) + ids_in (skipped_waiting ?s) + mset vs = mset (map snd (requests_dict s))" .
  show "placed (mset vs) ?s"
    unfolding placed_def fr using pd(1,3-6) bag sw run by (auto simp: copies_ok_def subset_iff)
qed

end
