(* ===== verification/Request_Places.thy ===== *)
theory Request_Places
  imports Output_Places
begin

text \<open>
  Where requests are after every other operation of the scheduler: a whole scheduling step, the
  end of requests, new requests and updates of sessions, draft tokens, and the preemption of all
  running requests before a reset.
\<close>

section \<open>Finishing requests\<close>

lemma run_same: "s\<lparr>running := running s\<rparr> = (s :: scheduler)"
  by simp

lemma finish_one_places:
  assumes run: "finish_one env st i s = Inr s'" and p: "placed (add_mset i E) s" and w: "status (objs s i) \<noteq> WAITING_FOR_REMOTE_KVS"
  shows "placed E s'" "others_same i s s'" "requests_dict s' = dict_pop (request_id (objs s i)) (requests_dict s)"
    "objs s' i = (objs s i)\<lparr>status := st\<rparr>"
proof -
  let ?s = "set_obj i (\<lambda>r. r\<lparr>status := st\<rparr>) s"
  have f: "free_request env i False ?s = Inr s'" using run w by (simp add: finish_one_def)
  have "placed (add_mset i E) ?s" by (rule placed_set_free [OF p]) simp_all
  then have p1: "placed (add_mset i E) (?s\<lparr>running := running ?s\<rparr>)" by (simp only: run_same)
  note fp = free_request_places [OF f p1]
  have "running s' = running ?s" using fp(1) by (simp add: others_same_def)
  then have "s'\<lparr>running := running ?s\<rparr> = s'" by simp
  then show "placed E s'" using fp(2) by simp
  show "others_same i s s'" using others_same_trans [OF others_same_set_obj fp(1)] .
  show "requests_dict s' = dict_pop (request_id (objs s i)) (requests_dict s)" "objs s' i = (objs s i)\<lparr>status := st\<rparr>"
    using fp(4,5) by simp_all
qed

lemma dict_pop_filter: "dict_wf d \<Longrightarrow> dict_pop k d = filter (\<lambda>x. fst x \<noteq> k) d"
proof (induction d)
  case (Cons x d)
  show ?case
  proof (cases "fst x = k")
    case True
    then have n: "k \<notin> dict_keys d" using Cons.prems by (auto simp: dict_wf_def)
    then have "filter (\<lambda>y. fst y \<noteq> k) d = d" unfolding filter_id_conv by (metis image_eqI)
    moreover have "dict_pop k d = d" by (rule dict_pop_absent) (use n in simp)
    ultimately show ?thesis using True by (simp add: dict_pop_def)
  next
    case False
    then show ?thesis using Cons by (simp add: dict_pop_def dict_wf_def)
  qed
qed (simp add: dict_pop_def)

lemma finish_fold_places:
  assumes "foldE (finish_one env st) vs s = Inr s'" "placed (mset vs) s" "\<forall>i \<in> set vs. status (objs s i) \<noteq> WAITING_FOR_REMOTE_KVS"
  shows "placed {#} s' \<and> running s' = running s \<and> conf s' = conf s \<and> search_ok (kv_manager s') = search_ok (kv_manager s) \<and> (\<forall>j. j \<notin> set vs \<longrightarrow> objs s' j = objs s j)
     \<and> (\<forall>j \<in> set vs. objs s' j = (objs s j)\<lparr>status := st\<rparr>)
     \<and> requests_dict s' = filter (\<lambda>x. snd x \<notin> set vs) (requests_dict s)"
  using assms
proof (induction vs arbitrary: s)
  case Nil
  then show ?case by simp
next
  case (Cons i vs)
  from Cons.prems(1) obtain s1 where 1: "finish_one env st i s = Inr s1" and 2: "foldE (finish_one env st) vs s1 = Inr s'"
    by (auto elim!: bindE_eq_InrE)
  have p: "placed (add_mset i (mset vs)) s" using Cons.prems(2) by simp
  note f = finish_one_places [OF 1 p]
  have wi: "status (objs s i) \<noteq> WAITING_FOR_REMOTE_KVS" using Cons.prems(3) by simp
  note f = f [OF wi]
  have iv: "i \<notin> set vs"
  proof
    assume "i \<in> set vs"
    then have "0 < count (mset vs) i" by simp
    then show False using placed_count [OF p, of i] by simp
  qed
  have o: "objs s1 j = objs s j" if "j \<noteq> i" for j using f(2) that by (simp add: others_same_def)
  have w: "\<forall>j \<in> set vs. status (objs s1 j) \<noteq> WAITING_FOR_REMOTE_KVS" using Cons.prems(3) iv o by (metis list.set_intros(2))
  note IH = Cons.IH [OF 2 f(1) w]
  have nm: "named (requests_dict s) (objs s)" by (rule placedD(1) [OF p])
  have li: "obj_id (objs s i) = i" using placed_live(1) [OF p, of i] by simp
  have "fst x = request_id (objs s i) \<longleftrightarrow> snd x = i" if "x \<in> set (requests_dict s)" for x
  proof -
    have "dict_get (requests_dict s) (request_id (objs s i)) = Some i" using placed_live(2) [OF p, of i] by simp
    moreover have "dict_get (requests_dict s) (fst x) = Some (snd x)" "request_id (objs s (snd x)) = fst x"
      using nm that by (auto simp: named_def dict_get_wf)
    ultimately show ?thesis by auto
  qed
  then have "requests_dict s1 = filter (\<lambda>x. snd x \<noteq> i) (requests_dict s)"
    using f(3) nm by (auto simp: named_def dict_pop_filter intro!: filter_cong)
  then have d: "requests_dict s' = filter (\<lambda>x. snd x \<notin> set (i # vs)) (requests_dict s)" using IH by (auto intro!: filter_cong)
  have k: "objs s' i = (objs s i)\<lparr>status := st\<rparr>" using IH iv f(4) by auto
  have e: "objs s' j = (objs s j)\<lparr>status := st\<rparr>" if "j \<in> set (i # vs)" for j
    using that IH iv k o by (cases "j = i") auto
  have "running s1 = running s \<and> conf s1 = conf s \<and> search_ok (kv_manager s1) = search_ok (kv_manager s)" using f(2) by (simp add: others_same_def)
  then show ?case using IH o d e by auto
qed

text \<open>The ids given to \<open>finish_requests\<close> are a set in some order of iteration.\<close>

definition request_ids_ok :: "request_ids \<Rightarrow> bool" where
  "request_ids_ok x \<longleftrightarrow> (case x of Id_set ids \<Rightarrow> distinct ids | _ \<Rightarrow> True)"

lemma ids_of_request_distinct: "request_ids_ok x \<Longrightarrow> named (requests_dict s) ob \<Longrightarrow> distinct (ids_of_request x s)"
  by (cases x) (auto simp: request_ids_ok_def ids_of_request_def named_def dict_wf_def)

lemma named_live_set: "i \<in> set (named_live s ids) \<longleftrightarrow> (\<exists>rid \<in> set ids. dict_get (requests_dict s) rid = Some i)"
  by (induction ids) (auto simp: map_filter_simps simp del: dict_get_eq_None split: option.splits)

text \<open>Exactly the live requests that are named end, with the status given; the others stay as they are.\<close>

lemma finish_requests_places:
  assumes run: "finish_requests env x st s = Inr (out, s')" and p: "placed {#} s" and x: "request_ids_ok x"
  shows "is_finished st" "placed {#} s'" "requests_dict s' = filter (\<lambda>y. fst y \<notin> set (ids_of_request x s)) (requests_dict s)"
    "\<And>j. j \<notin> set (named_live s (ids_of_request x s)) \<Longrightarrow> objs s' j = objs s j"
    "\<And>j. j \<in> set (named_live s (ids_of_request x s)) \<Longrightarrow> objs s' j = (objs s j)\<lparr>status := st\<rparr>"
    "out = map (\<lambda>i. (request_id (objs s i), client_index (objs s i))) (named_live s (ids_of_request x s))"
    "running s' = filter (\<lambda>i. i \<notin> set (named_live s (ids_of_request x s))) (running s)" "conf s' = conf s"
    "search_ok (kv_manager s') = search_ok (kv_manager s)"
proof -
  let ?ids = "ids_of_request x s" let ?vs = "named_live s ?ids"
  let ?f = "fold (collect_finish_step s) ?ids \<lparr>f_valid = [], f_running = [], f_waiting = [], f_streaming = num_waiting_for_streaming_input s\<rparr>"
  from run show fin: "is_finished st" unfolding finish_requests_def by (elim bindE_eq_InrE) simp
  from run obtain s1 where fo: "foldE (finish_one env st) (f_valid ?f) (drop_finished ?f s) = Inr s1"
    and r: "out = map (\<lambda>i. (request_id (objs s1 i), client_index (objs s1 i))) (f_valid ?f)" "s' = s1"
    unfolding finish_requests_def Let_def by (elim bindE_eq_InrE) (simp only: sum.inject prod.inject, blast)
  have d: "distinct ?ids" by (rule ids_of_request_distinct [OF x placedD(1) [OF p]])
  have fv: "f_valid ?f = ?vs" "f_running ?f = filter (\<lambda>i. status (objs s i) = RUNNING) ?vs" "f_waiting ?f = filter (\<lambda>i. status (objs s i) \<noteq> RUNNING) ?vs"
    by (simp_all add: collect_finish [OF p])
  note nd = named_live_distinct [OF p d]
  note dp = drop_finished_placed [OF p nd fv]
  have lv: "status (objs s i) \<noteq> WAITING_FOR_REMOTE_KVS" if "i \<in> set ?vs" for i
    using that live_status(3) [OF p] unfolding named_live_set by blast
  have all: "placed {#} s1 \<and> running s1 = running (drop_finished ?f s) \<and> conf s1 = conf (drop_finished ?f s)
     \<and> search_ok (kv_manager s1) = search_ok (kv_manager (drop_finished ?f s))
     \<and> (\<forall>j. j \<notin> set ?vs \<longrightarrow> objs s1 j = objs (drop_finished ?f s) j)
     \<and> (\<forall>j \<in> set ?vs. objs s1 j = (objs (drop_finished ?f s) j)\<lparr>status := st\<rparr>)
     \<and> requests_dict s1 = filter (\<lambda>x. snd x \<notin> set ?vs) (requests_dict (drop_finished ?f s))"
    by (rule finish_fold_places [OF fo [unfolded fv(1)] dp(1)]) (use lv dp(2) in simp)
  show "placed {#} s'" using all r(2) by simp
  show o: "objs s' j = objs s j" if "j \<notin> set ?vs" for j using all r(2) dp(2) that by simp
  show e: "objs s' j = (objs s j)\<lparr>status := st\<rparr>" if "j \<in> set ?vs" for j using all r(2) dp(2) that by simp
  show "out = map (\<lambda>i. (request_id (objs s i), client_index (objs s i))) ?vs" using r e fv(1) by simp
  have "snd y \<in> set ?vs \<longleftrightarrow> fst y \<in> set ?ids" if "y \<in> set (requests_dict s)" for y
  proof -
    have nm: "named (requests_dict s) (objs s)" by (rule placedD(1) [OF p])
    have g: "dict_get (requests_dict s) (fst y) = Some (snd y)" "request_id (objs s (snd y)) = fst y" using nm that by (auto simp: named_def dict_get_wf)
    have "rid = fst y" if "dict_get (requests_dict s) rid = Some (snd y)" for rid
      using nm dict_get_SomeD [OF that] g(2) by (auto simp: named_def)
    then show ?thesis unfolding named_live_set using g(1) by blast
  qed
  then show "requests_dict s' = filter (\<lambda>y. fst y \<notin> set ?ids) (requests_dict s)" using all r(2) dp(3) by (auto intro!: filter_cong)
  have "running (drop_finished ?f s) = filter (\<lambda>i. i \<notin> set (f_running ?f)) (running s)"
    using remove_all_filter [OF placed_disjoint(1) [OF p]] by (simp add: drop_finished_def Let_def)
  also have "\<dots> = filter (\<lambda>i. i \<notin> set ?vs) (running s)" using placedD(5) [OF p] by (intro filter_cong) (auto simp: fv(2))
  finally show "running s' = filter (\<lambda>i. i \<notin> set ?vs) (running s)" using all r(2) by simp
  have "conf (drop_finished ?f s) = conf s" "kv_manager (drop_finished ?f s) = kv_manager s" by (simp_all add: drop_finished_def Let_def)
  then show "conf s' = conf s" "search_ok (kv_manager s') = search_ok (kv_manager s)" using all r(2) by simp_all
qed

section \<open>A whole scheduling step\<close>

lemma common_prefix_frame: "km_num_common_prefix_blocks rid km = (ns, km') \<Longrightarrow> km_frame km km'"
  unfolding km_num_common_prefix_blocks_def coord_num_common_prefix_blocks_def
  by (auto simp: Let_def intro!: km_frame_coord coord_frame_managers split: prod.splits if_splits)

lemma take_ids_frame: "km_take_new_block_ids km = (ids, km') \<Longrightarrow> km_frame km km'"
  unfolding km_take_new_block_ids_def Let_def by (auto intro!: km_frame_coord coord_frame_managers)

lemma pool_frame: "km_frame km (set_km_pool p km)"
  unfolding set_km_pool_def by (intro km_frame_coord coord_frame_pool)

lemma take_events_frame: "km_take_events km = (evs, km') \<Longrightarrow> km_frame km km'"
  unfolding km_take_events_def by (auto simp: pool_frame split: prod.splits)

lemma reset_frame: "km_reset_prefix_cache km = Inr (ok, km') \<Longrightarrow> km_frame km km'"
  unfolding km_reset_prefix_cache_def
  by (auto simp: pool_frame intro: km_frame_trans [OF pool_frame km_frame_stats] split: prod.splits bool.splits if_splits option.splits)

lemma make_output_frame:
  assumes "make_output st = Inr (out, s')"
  obtains km e x where "s' = (sch st)\<lparr>kv_manager := km, prev_step_scheduled_req_ids := x, encoder_manager := e\<rparr>"
    "num_scheduled_tokens out = sched_toks st" "scheduled_spec_decode_tokens out = spec_sched st" "km_frame (kv_manager (sch st)) km"
proof -
  obtain ncp s1 where c: "common_prefix (sch st) = (ncp, s1)" by force
  obtain km1 where s1: "s1 = (sch st)\<lparr>kv_manager := km1\<rparr>" and f1: "km_frame (kv_manager (sch st)) km1"
  proof (cases "running (sch st)")
    case Nil
    then have "s1 = (sch st)\<lparr>kv_manager := kv_manager (sch st)\<rparr>" using c by (simp add: common_prefix_def)
    then show ?thesis by (rule that) simp
  next
    case (Cons i js)
    then show ?thesis using c that by (auto simp: common_prefix_def split: prod.splits dest!: common_prefix_frame)
  qed
  obtain zero s3 where z: "ids_to_zero (s1\<lparr>prev_step_scheduled_req_ids := dict_keys (sched_toks st)\<rparr>) = (zero, s3)" by force
  obtain km2 where s3: "s3 = s1\<lparr>prev_step_scheduled_req_ids := dict_keys (sched_toks st), kv_manager := km2\<rparr>"
    and f2: "km_frame km1 km2"
  proof (cases "sc_needs_kv_cache_zeroing (conf s1)")
    case True
    then show ?thesis using z that by (auto simp: ids_to_zero_def Let_def s1 split: prod.splits dest!: take_ids_frame)
  next
    case False
    then have "s3 = s1\<lparr>prev_step_scheduled_req_ids := dict_keys (sched_toks st), kv_manager := kv_manager s1\<rparr>" using z by (auto simp: ids_to_zero_def)
    then show ?thesis by (rule that) (simp add: s1)
  qed
  obtain freed e where f: "enc_freed_hashes (encoder_manager s3) = (freed, e)" by force
  have o: "s' = set_enc e s3" "num_scheduled_tokens out = sched_toks st" "scheduled_spec_decode_tokens out = spec_sched st"
    using assms unfolding make_output_def c Let_def by (auto simp: z f elim!: bindE_eq_InrE)
  then have "s' = (sch st)\<lparr>kv_manager := km2, prev_step_scheduled_req_ids := dict_keys (sched_toks st), encoder_manager := e\<rparr>"
    by (simp add: s3 s1)
  then show ?thesis using o(2,3) km_frame_trans [OF f1 f2] by (rule that)
qed

text \<open>What the end of a step changes of requests: the count of computed tokens and placeholders.\<close>

definition advanced :: "scheduler \<Rightarrow> scheduler \<Rightarrow> bool" where
  "advanced s s' \<longleftrightarrow> requests_dict s' = requests_dict s \<and> running s' = running s \<and> conf s' = conf s
     \<and> (placed {#} s \<longrightarrow> placed {#} s') \<and> (\<forall>i. status (objs s' i) = status (objs s i)) \<and> kv_manager s' = kv_manager s"

lemma advanced_set_obj:
  assumes "\<And>r. obj_id (f r) = obj_id r" "\<And>r. request_id (f r) = request_id r" "\<And>r. status (f r) = status r"
  shows "advanced s (set_obj i f s)"
  using placed_set_same [of "{#}" s f i] assms by (simp add: advanced_def)

lemma advanced_refl: "advanced s s"
  by (simp add: advanced_def)

lemma advanced_trans: "advanced s s1 \<Longrightarrow> advanced s1 s2 \<Longrightarrow> advanced s s2"
  by (auto simp: advanced_def)

lemma advance_step_advanced: "advance_step x bs = Inr bs' \<Longrightarrow> advanced (snd bs) (snd bs')"
  by (cases x; cases bs) (auto simp: advance_step_def Let_def elim!: bindE_eq_InrE intro!: advanced_set_obj)

lemma placeholder_step_advanced: "placeholder_step spec x bs = Inr bs' \<Longrightarrow> advanced (snd bs) (snd bs')"
  by (cases x; cases bs) (auto simp: placeholder_step_def Let_def advanced_refl split: if_split_asm elim!: bindE_eq_InrE intro!: advanced_set_obj)

lemma fold_advanced:
  assumes "foldE f xs bs = Inr bs'" "\<And>x b b'. f x b = Inr b' \<Longrightarrow> advanced (snd b) (snd b')" shows "advanced (snd bs) (snd bs')"
  by (rule foldE_invariant [OF assms(1), where P = "\<lambda>b. advanced (snd bs) (snd b)"]) (blast intro: advanced_refl advanced_trans assms(2))+

lemmas advance_fold = fold_advanced [where f = advance_step, OF _ advance_step_advanced]
  and placeholder_fold = fold_advanced [where f = "placeholder_step spec" for spec, OF _ placeholder_step_advanced]

lemma update_after_schedule_result:
  assumes "update_after_schedule out s = Inr (out', s')"
  shows "advanced s s'" "num_scheduled_tokens out' = num_scheduled_tokens out" "scheduled_spec_decode_tokens out' = scheduled_spec_decode_tokens out"
proof -
  have sm: "advanced (s1\<lparr>finished_req_ids := x\<rparr>) s2 = advanced s1 s2" "advanced s1 (s2\<lparr>finished_req_ids := x\<rparr>) = advanced s1 s2" for s1 s2 x
    by (simp_all add: advanced_def)
  from assms obtain flag s1 where 1: "foldE advance_step (num_scheduled_tokens out) (has_structured_output_requests out, s) = Inr (flag, s1)"
    and 2: "(let out1 = out\<lparr>has_structured_output_requests := flag\<rparr>; s2 = s1\<lparr>finished_req_ids := {}\<rparr>
       in if async_scheduling (conf s)
          then bindE (foldE (placeholder_step (scheduled_spec_decode_tokens out1)) (num_scheduled_tokens out1)
                        (pending_structured_output_tokens out1, s2)) (\<lambda>(pending, s3).
                 Inr (out1\<lparr>pending_structured_output_tokens := pending\<rparr>, s3))
          else Inr (out1, s2)) = Inr (out', s')"
    unfolding update_after_schedule_def by (elim bindE_eq_InrE) (auto split: prod.splits)
  have a: "advanced s s1" using advance_fold [OF 1] by simp
  show "num_scheduled_tokens out' = num_scheduled_tokens out" "scheduled_spec_decode_tokens out' = scheduled_spec_decode_tokens out"
    using 2 by (auto simp: Let_def split: if_splits elim!: bindE_eq_InrE)
  show "advanced s s'"
  proof (cases "async_scheduling (conf s)")
    case True
    then obtain p where "foldE (placeholder_step (scheduled_spec_decode_tokens out)) (num_scheduled_tokens out)
        (pending_structured_output_tokens out, s1\<lparr>finished_req_ids := {}\<rparr>) = Inr (p, s')"
      using 2 by (auto simp: Let_def elim!: bindE_eq_InrE)
    from placeholder_fold [OF this] show ?thesis using advanced_trans [OF a] by (simp add: sm)
  next
    case False
    then have "s' = s1\<lparr>finished_req_ids := {}\<rparr>" using 2 by (simp add: Let_def)
    then show ?thesis using a by (simp add: sm)
  qed
qed

lemma same_request_id: "same_request r r' \<Longrightarrow> request_id r' = request_id r"
  unfolding same_request_def by (elim exE) simp

lemma schedule_places:
  assumes "schedule env s = Some (Inr (out, s'))" "sched_ready s"
  shows "placed {#} s'" "dict_wf (num_scheduled_tokens out)" "named_running (map fst (num_scheduled_tokens out)) s'"
    "requests_dict s' = requests_dict s" "conf s' = conf s" "int (length (running s')) \<le> max_num_running_reqs (conf s)"
    "\<forall>x \<in> set (num_scheduled_tokens out). 0 < snd x" "(\<Sum>(_, n) \<leftarrow> num_scheduled_tokens out. n) \<le> max_num_scheduled_tokens (conf s)"
    "dict_keys (num_scheduled_tokens out) \<subseteq> (\<lambda>i. request_id (objs s i)) ` set (running s')"
    "search_ok (kv_manager s') = search_ok (kv_manager s)"
proof -
  from assms(1) obtain st o1 s1 where ph: "schedule_phases env s = Some (Inr st)" and mo: "make_output st = Inr (o1, s1)"
    and ua: "update_after_schedule o1 s1 = Inr (out, s')"
    unfolding schedule_def by (auto simp: bindO_eq_Inr)
  note d = schedule_phases_done [OF ph assms(2)]
  note ac = accountsD [OF d(2)]
  obtain km e x where s1: "s1 = (sch st)\<lparr>kv_manager := km, prev_step_scheduled_req_ids := x, encoder_manager := e\<rparr>"
    and t1: "num_scheduled_tokens o1 = sched_toks st" and fr: "km_frame (kv_manager (sch st)) km" by (rule make_output_frame [OF mo])
  note u = update_after_schedule_result [OF ua]
  have t: "num_scheduled_tokens out = sched_toks st" using t1 u(2) by simp
  have p1: "placed {#} s1" using d(1) s1 by simp
  then show p: "placed {#} s'" using u(1) by (simp add: advanced_def)
  show "dict_wf (num_scheduled_tokens out)" "\<forall>x \<in> set (num_scheduled_tokens out). 0 < snd x" using ac(1,2) t by simp_all
  have dict: "requests_dict s' = requests_dict s" and cf: "conf s' = conf s" and rn: "running s' = running (sch st)"
    using u(1) s1 d(3,5) by (simp_all add: advanced_def step_frame_def)
  show "requests_dict s' = requests_dict s" "conf s' = conf s" by (rule dict, rule cf)
  show "int (length (running s')) \<le> max_num_running_reqs (conf s)" using d(4) rn by simp
  have "search_ok (kv_manager (sch st)) = search_ok (kv_manager s)" using d(5) by (intro search_ok_frame) (simp add: step_frame_def)
  then show "search_ok (kv_manager s') = search_ok (kv_manager s)" using u(1) search_ok_frame [OF fr] by (simp add: advanced_def s1)
  show "(\<Sum>(_, n) \<leftarrow> num_scheduled_tokens out. n) \<le> max_num_scheduled_tokens (conf s)"
    using ac(3,4) assms(2) t by (auto simp: sched_ready_def total_scheduled_def split: if_splits)
  have rid: "request_id (objs (sch st) i) = request_id (objs s i)" for i using d(5) same_request_id by (simp add: step_frame_def)
  have sub: "dict_keys (num_scheduled_tokens out) \<subseteq> (\<lambda>i. request_id (objs (sch st) i)) ` set (running s')" using ac(6,7) t rn by auto
  then show "dict_keys (num_scheduled_tokens out) \<subseteq> (\<lambda>i. request_id (objs s i)) ` set (running s')" by (simp add: rid)
  show "named_running (map fst (num_scheduled_tokens out)) s'" unfolding named_running_def
  proof (intro ballI allI impI)
    fix r j assume r: "r \<in> set (map fst (num_scheduled_tokens out))" and j: "dict_get (requests_dict s') r = Some j"
    then obtain i where i: "i \<in> set (running s')" "r = request_id (objs (sch st) i)" using sub by auto
    have ps: "placed {#} (sch st)" by (rule d(1))
    have "dict_get (requests_dict (sch st)) (request_id (objs (sch st) i)) = Some i" by (rule placed_live(2) [OF ps]) (use i rn in simp)
    then have "j = i" using j i(2) dict d(5) by (simp add: step_frame_def)
    then show "status (objs s' j) = RUNNING" using placedD(5) [OF p] i(1) by simp
  qed
qed

section \<open>Draft tokens\<close>

lemma should_advance_advanced: "should_advance env i s = (b, s') \<Longrightarrow> advanced s s'"
  by (auto simp: should_advance_def Let_def advanced_refl split: if_split_asm option.splits intro!: advanced_set_obj)

lemma update_draft_advanced: "advanced s (update_draft_token_ids env ids drafts s)"
proof -
  have one: "advanced s (update_draft_step env x s)" for x s
  proof (cases "dict_get (requests_dict s) (fst x)")
    case None
    then show ?thesis by (simp add: update_draft_step_def advanced_refl del: dict_get_eq_None)
  next
    case (Some i)
    obtain b s1 where a: "should_advance env i s = (b, s1)" by force
    have "advanced s1 (set_obj i (\<lambda>r. r\<lparr>spec_token_ids := ts\<rparr>) s1)" for ts by (rule advanced_set_obj) simp_all
    moreover have "advanced s (set_obj i (\<lambda>r. r\<lparr>spec_token_ids := ts\<rparr>) s)" for ts by (rule advanced_set_obj) simp_all
    ultimately show ?thesis using advanced_trans [OF should_advance_advanced [OF a]] a Some
      by (simp add: update_draft_step_def Let_def advanced_refl)
  qed
  have "advanced s (fold (update_draft_step env) xs s)" for xs s
    by (induction xs arbitrary: s) (auto intro: advanced_refl advanced_trans one)
  then show ?thesis by (simp add: update_draft_token_ids_def)
qed

section \<open>Adding requests and updating sessions\<close>

lemma live_place:
  assumes "placed {#} s" "dict_get (requests_dict s) rid = Some i" "status (objs s i) \<noteq> RUNNING"
  shows "i \<in># ids_in (waiting s) + ids_in (skipped_waiting s)"
proof -
  have "i \<in># mset (map snd (requests_dict s))" using dict_get_SomeD [OF assms(2)] by force
  then have "i \<in># mset (running s) + ids_in (waiting s) + ids_in (skipped_waiting s)" using placedD(2) [OF assms(1)] by simp
  moreover have "i \<notin> set (running s)" using placedD(5) [OF assms(1)] assms(3) by blast
  ultimately show ?thesis by simp
qed

lemma add_request_places:
  assumes run: "add_request env r s = Some (Inr s')" and ok: "hasher_ok env" and p: "placed {#} s"
    and new: "dict_get (requests_dict s) (request_id r) = None \<Longrightarrow> addable r s"
  shows "placed {#} s'"
proof (cases "dict_get (requests_dict s) (request_id r)")
  case None
  show ?thesis by (rule add_new_placed [OF p new [OF None] None run])
next
  case i: (Some i)
  show ?thesis
  proof (cases "status (objs s i) = WAITING_FOR_STREAMING_REQ")
    case False
    then obtain q where "s' = set_obj i (\<lambda>r. r\<lparr>streaming_queue := q\<rparr>) s"
      using run i by (auto simp: add_request_def split: option.splits)
    then show ?thesis using placed_set_same [OF p, of "\<lambda>r. r\<lparr>streaming_queue := q\<rparr>" i] by simp
  next
    case w: True
    show ?thesis
    proof (cases "streaming_update_from_request r")
      case None
      then obtain out where "finish_requests env (One_id (request_id r)) FINISHED_ABORTED s = Inr (out, s')"
        using run i w by (auto simp: add_request_def elim!: bindE_eq_InrE)
      then show ?thesis by (rule finish_requests_places(2) [OF _ p]) (simp add: request_ids_ok_def)
    next
      case (Some u)
      then have u: "update_request_as_session env i u s = Some (Inr s')" using run i w by (simp add: add_request_def)
      show ?thesis by (rule session_places(5) [OF u ok p]) (rule live_place [OF p i], simp add: w)
    qed
  qed
qed

section \<open>Preempting every running request\<close>

lemma preempt_last_places:
  assumes "preempt_last_step env i s = Inr s'" "placed {#} s" "running s = xs @ [i]"
  shows "placed {#} s'" "running s' = xs" "requests_dict s' = requests_dict s" "conf s' = conf s" "search_ok (kv_manager s') = search_ok (kv_manager s)"
proof -
  from assms(1) obtain s1 where s1: "preempt_request env i (s\<lparr>running := butlast (running s)\<rparr>) = Inr s1"
    and s': "s' = set_obj i (\<lambda>r. r\<lparr>num_output_placeholders := 0, discard_latest_async_tokens := True\<rparr>) s1"
    by (auto simp: preempt_last_step_def elim!: bindE_eq_InrE)
  have d: "distinct (xs @ [i])" using placed_disjoint(1) [OF assms(2)] assms(3) by simp
  then have "remove1 i (running s) = butlast (running s)" by (simp add: assms(3) remove1_append)
  then have "placed (add_mset i {#}) (s\<lparr>running := butlast (running s)\<rparr>)" using placed_take_run [OF assms(2), of i] assms(3) by simp
  note pr = preempt_request_placed [OF s1 this]
  show "placed {#} s'" unfolding s' by (rule placed_set_same [OF pr(1)]) simp_all
  have "step_frame (s\<lparr>running := butlast (running s)\<rparr>) s1" by (rule preempt_request_frame [OF s1])
  then have "km_frame (kv_manager s) (kv_manager s1)" by (simp add: step_frame_def)
  then show "search_ok (kv_manager s') = search_ok (kv_manager s)" by (simp add: s' search_ok_frame)
  show "running s' = xs" "requests_dict s' = requests_dict s" "conf s' = conf s" using pr(2,3) assms(3) by (simp_all add: s' same_names_def)
qed

lemma preempt_all_places:
  assumes "preempt_all env s = Inr s'" "placed {#} s"
  shows "placed {#} s'" "running s' = []" "requests_dict s' = requests_dict s" "conf s' = conf s" "search_ok (kv_manager s') = search_ok (kv_manager s)"
proof -
  obtain s1 where f: "foldE (preempt_last_step env) (rev (running s)) s = Inr s1" and s': "s' = s1\<lparr>prev_step_scheduled_req_ids := {}\<rparr>"
    using assms(1) by (auto simp: preempt_all_def elim!: bindE_eq_InrE)
  have "placed {#} s1 \<and> running s1 = [] \<and> requests_dict s1 = requests_dict t \<and> conf s1 = conf t
      \<and> search_ok (kv_manager s1) = search_ok (kv_manager t)"
    if "foldE (preempt_last_step env) (rev xs) t = Inr s1" "placed {#} t" "running t = xs" for xs t
    using that
  proof (induction xs arbitrary: t rule: rev_induct)
    case (snoc i xs)
    from snoc.prems(1) obtain t1 where 1: "preempt_last_step env i t = Inr t1" and 2: "foldE (preempt_last_step env) (rev xs) t1 = Inr s1"
      by (auto elim!: bindE_eq_InrE)
    note pl = preempt_last_places [OF 1 snoc.prems(2,3)]
    show ?case using snoc.IH [OF 2 pl(1,2)] pl(3-5) by simp
  qed simp
  from this [OF f assms(2) refl] show "placed {#} s'" "running s' = []" "requests_dict s' = requests_dict s" "conf s' = conf s"
    "search_ok (kv_manager s') = search_ok (kv_manager s)"
    by (simp_all add: s')
qed

lemma reset_prefix_places:
  assumes "sched_reset_prefix_cache env rr rcn s = Inr (b, s')" "placed {#} s"
  shows "placed {#} s'" "requests_dict s' = requests_dict s" "rr \<Longrightarrow> running s' = []" "conf s' = conf s"
    "search_ok (kv_manager s') = search_ok (kv_manager s)"
proof -
  from assms(1) obtain s1 km where 1: "(if rr then preempt_all env s else Inr s) = Inr s1" and s': "s' = s1\<lparr>kv_manager := km\<rparr>"
    and fr: "km_frame (kv_manager s1) km"
  proof -
    from assms(1) obtain s1 y where y: "(if rr then preempt_all env s else Inr s) = Inr s1" "km_reset_prefix_cache (kv_manager s1) = Inr y"
      "(case y of (ok, km) \<Rightarrow> if rr \<and> \<not> ok then Inl RuntimeError else Inr (ok \<and> \<not> rcn, s1\<lparr>kv_manager := km\<rparr>)) = Inr (b, s')"
      unfolding sched_reset_prefix_cache_def by (elim bindE_eq_InrE) blast
    obtain ok km where yy: "y = (ok, km)" by force
    have "s' = s1\<lparr>kv_manager := km\<rparr>" using y(3) unfolding yy by (cases "rr \<and> \<not> ok") auto
    then show ?thesis using y(1) reset_frame [OF y(2) [unfolded yy]] that by blast
  qed
  have "placed {#} s1 \<and> requests_dict s1 = requests_dict s \<and> conf s1 = conf s \<and> (rr \<longrightarrow> running s1 = [])
    \<and> search_ok (kv_manager s1) = search_ok (kv_manager s)"
    using 1 assms(2) preempt_all_places [of env s s1] by (cases rr) auto
  then show "placed {#} s'" "requests_dict s' = requests_dict s" "rr \<Longrightarrow> running s' = []" "conf s' = conf s"
    "search_ok (kv_manager s') = search_ok (kv_manager s)" using search_ok_frame [OF fr] by (simp_all add: s')
qed

end
