(* ===== verification/Token_Pace.thy ===== *)
theory Token_Pace
  imports Request_Places
begin

text \<open>
  How many tokens a step gives to each request. Before a step a running request has computed no
  more than it has (\<open>idle_tokens\<close>). During the step, what is computed and what is scheduled is no more
  than the tokens of the request with the drafts scheduled for it.
\<close>

section \<open>Tokens scheduled fit\<close>

definition drafts_of :: "string \<Rightarrow> (string \<times> int list) list \<Rightarrow> int" where
  "drafts_of rid spec = (case dict_get spec rid of None \<Rightarrow> 0 | Some ts \<Rightarrow> int (length ts))"

definition tokens_fit :: "sched_config \<Rightarrow> int \<Rightarrow> int \<Rightarrow> request \<Rightarrow> bool" where
  "tokens_fit c k n r \<longleftrightarrow> num_computed_tokens r + n \<le> num_tokens r + k + num_output_placeholders r
     \<and> (num_computed_tokens r + n < sc_max_model_len c \<or> num_computed_tokens r + n \<le> num_tokens r)"

definition idle_tokens :: "sched_config \<Rightarrow> request \<Rightarrow> bool" where
  "idle_tokens c r \<longleftrightarrow> num_computed_tokens r \<le> num_tokens r \<and> num_computed_tokens r < sc_max_model_len c"

definition fits :: "sched_config \<Rightarrow> step_vars \<Rightarrow> nat \<Rightarrow> bool" where
  "fits c st j \<longleftrightarrow> (let r = objs (sch st) j in case dict_get (sched_toks st) (request_id r) of
     None \<Rightarrow> idle_tokens c r | Some n \<Rightarrow> tokens_fit c (drafts_of (request_id r) (spec_sched st)) n r)"

definition pace :: "sched_config \<Rightarrow> step_vars \<Rightarrow> bool" where
  "pace c st \<longleftrightarrow> (\<forall>j \<in> set (running (sch st)). fits c st j)"

lemma fits_cong:
  assumes "objs (sch st') j = objs (sch st) j" "dict_get (sched_toks st') (request_id (objs (sch st) j)) = dict_get (sched_toks st) (request_id (objs (sch st) j))"
    "dict_get (spec_sched st') (request_id (objs (sch st) j)) = dict_get (spec_sched st) (request_id (objs (sch st) j))"
  shows "fits c st' j = fits c st j"
  unfolding fits_def drafts_of_def Let_def assms ..

lemma pace_frame [simp]:
  "pace c (st\<lparr>sch := (sch st)\<lparr>kv_manager := km\<rparr>\<rparr>) = pace c st" "pace c (st\<lparr>sch := (sch st)\<lparr>encoder_manager := e\<rparr>\<rparr>) = pace c st"
  "pace c (st\<lparr>sch := (sch st)\<lparr>kv_manager := km, encoder_manager := e\<rparr>\<rparr>) = pace c st"
  "pace c (st\<lparr>scheduled_loras := l\<rparr>) = pace c st" "pace c (skip_running st) = pace c st"
  by (simp_all add: pace_def fits_def skip_running_def Let_def cong: option.case_cong)

lemma running_names:
  assumes "placed E s" "i \<in> set (running s)" "j \<in> set (running s)" "i \<noteq> j" shows "request_id (objs s i) \<noteq> request_id (objs s j)"
  using names_inj [OF assms(1), of i j] assms(2-4) by blast

section \<open>Running requests\<close>

lemma preempt_victim_pace:
  assumes run: "preempt_victim env st = Inr (v, st')" and p: "placed {#} (sch st)" and pc: "pace c st"
  shows "pace c st'" "\<And>j. j \<noteq> v \<Longrightarrow> objs (sch st') j = objs (sch st) j"
proof -
  note dist = placed_disjoint(1) [OF p]
  let ?k = "\<lambda>(v, st1). bindE (preempt_request env v (sch st1)) (\<lambda>s. Inr (v, st1\<lparr>sch := s, preempted_reqs := preempted_reqs st1 @ [v]\<rparr>))"
  have "bindE (take_victim st) ?k = Inr (v, st')" using run by (simp add: preempt_victim_def)
  then obtain y where y: "take_victim st = Inr y" "?k y = Inr (v, st')" by (elim bindE_eq_InrE)
  obtain w st2 where yy: "y = (w, st2)" by force
  obtain s where s: "preempt_request env w (sch st2) = Inr s" "w = v" and st': "st' = st2\<lparr>sch := s, preempted_reqs := preempted_reqs st2 @ [v]\<rparr>"
    using y(2) unfolding yy prod.case by (elim bindE_eq_InrE) auto
  obtain st1 where v: "v \<in> set (running (sch st))" and st1: "st1 = on_sch (\<lambda>s. s\<lparr>running := remove1 v (running s)\<rparr>) st"
    and st2: "if sched_policy (conf (sch st)) = PRIORITY \<and> v \<in> set (run_reqs st) then unschedule v st1 = Inr st2 else st2 = st1"
    using y(1) unfolding yy s(2) by (rule take_victim_result [OF _ dist])
  let ?rid = "request_id (objs (sch st) v)"
  have sch2: "sch st2 = (sch st)\<lparr>running := remove1 v (running (sch st))\<rparr>"
    and tk: "sched_toks st2 = sched_toks st \<and> spec_sched st2 = spec_sched st
      \<or> sched_toks st2 = dict_pop ?rid (sched_toks st) \<and> spec_sched st2 = dict_pop ?rid (spec_sched st)"
    using st2 st1 by (auto split: if_splits elim!: unschedule_result)
  have pl: "placed (add_mset v {#}) (sch st2)" unfolding sch2 using placed_take_run [OF p v] .
  note q = preempt_request_placed [OF s(1) [unfolded s(2)] pl]
  show ob: "objs (sch st') j = objs (sch st) j" if "j \<noteq> v" for j using q(4) [OF that] by (simp add: st' sch2)
  have "fits c st' j" if "j \<in> set (running (sch st'))" for j
  proof -
    have j: "j \<in> set (running (sch st))" "j \<noteq> v" using that q(3) dist by (auto simp: st' sch2 set_remove1_eq)
    have "request_id (objs (sch st) j) \<noteq> ?rid" by (rule running_names [OF p j(1) v j(2)])
    then have "fits c st' j = fits c st j" using tk by (intro fits_cong ob [OF j(2)]) (auto simp: st')
    then show ?thesis using pc j(1) by (simp add: pace_def)
  qed
  then show "pace c st'" by (simp add: pace_def)
qed

text \<open>While room is made for a request, the request itself does not change.\<close>

definition room_pace :: "sched_config \<Rightarrow> int \<Rightarrow> nat \<Rightarrow> int \<Rightarrow> request \<Rightarrow> kv_cache_blocks option \<times> step_vars \<Rightarrow> bool" where
  "room_pace c B i n r x \<longleftrightarrow> room_inv c B i n x \<and> pace c (snd x) \<and> objs (sch (snd x)) i = r"

definition room_paced :: "sched_config \<Rightarrow> int \<Rightarrow> nat \<Rightarrow> int \<Rightarrow> request \<Rightarrow> kv_cache_blocks option \<times> step_vars \<Rightarrow> bool" where
  "room_paced c B i n r x \<longleftrightarrow> room_done c B i n x \<and> pace c (snd x) \<and> (fst x \<noteq> None \<longrightarrow> objs (sch (snd x)) i = r)"

lemma run_inv_placed: "run_inv c B st \<Longrightarrow> placed {#} (sch st)"
  by (auto simp: run_inv_def step_placed_def)

lemma room_body_pace:
  assumes "room_body env i n (nb0, st) = Some (Inr (go, nb, st'))" "run_inv c B st" "pace c st"
  shows "pace c st'" "go \<or> nb \<noteq> None \<Longrightarrow> objs (sch st') i = objs (sch st) i"
proof -
  have "pace c st' \<and> (go \<or> nb \<noteq> None \<longrightarrow> objs (sch st') i = objs (sch st) i)" using assms(1)
  proof (cases rule: room_body_result)
    case (fits b km)
    then show ?thesis using assms(3) by simp
  next
    case (full km v)
    have "placed {#} (sch (on_sch (set_kv km) st))" using run_inv_placed [OF assms(2)] by simp
    from preempt_victim_pace [OF full(2) this, of c] assms(3) show ?thesis using full(3,4) by auto
  qed
  then show "pace c st'" "go \<or> nb \<noteq> None \<Longrightarrow> objs (sch st') i = objs (sch st) i" by simp_all
qed

interpretation room_paces: guarded_loop "\<lambda>_. True" "room_body env i n" "room_pace c B i n r" "room_paced c B i n r" for env i n c B r
proof unfold_locales
  fix x y :: "kv_cache_blocks option \<times> step_vars"
  obtain nb0 st nb st' where xy: "x = (nb0, st)" "y = (nb, st')" by force
  assume inv: "room_pace c B i n r x"
  then have a: "room_inv c B i n x" "run_inv c B st" "pace c st" "objs (sch st) i = r"
    by (simp_all add: room_pace_def room_inv_def xy(1) Let_def)
  {
    assume b: "room_body env i n x = Some (Inr (True, y))"
    have "room_inv c B i n y" by (rule room.body_next [OF a(1) TrueI b])
    then show "room_pace c B i n r y" using room_body_pace [OF b [unfolded xy] a(2,3)] a(4) by (simp add: room_pace_def xy)
  next
    assume b: "room_body env i n x = Some (Inr (False, y))"
    have "room_done c B i n y" by (rule room.body_break [OF a(1) TrueI b])
    then show "room_paced c B i n r y" using room_body_pace [OF b [unfolded xy] a(2,3)] a(4) by (simp add: room_paced_def xy)
  }
qed simp

lemma find_room_paced: "find_room env i n st = Some (Inr y) \<Longrightarrow> room_pace c B i n r (None, st) \<Longrightarrow> room_paced c B i n r y"
  unfolding find_room_def by (rule room_paces.loop_result)

lemma running_tokens_fit:
  assumes "n \<le> running_tokens c r b"
  shows "num_computed_tokens r + n \<le> num_tokens r + int (length (spec_token_ids r)) + num_output_placeholders r"
    "num_computed_tokens r + n < sc_max_model_len c"
  using assms by (auto simp: running_tokens_def Let_def num_tokens_with_spec_def num_tokens_def split: if_splits)

text \<open>The drafts that are scheduled reach exactly as far as the tokens scheduled.\<close>

lemma take_spec_tokens_fit:
  assumes "n \<le> running_tokens c (objs (sch st) i) b"
  shows "tokens_fit c (drafts_of (request_id (objs (sch st) i)) (spec_sched (take_spec_tokens i n st))) n (objs (sch (take_spec_tokens i n st)) i)"
    "rid \<noteq> request_id (objs (sch st) i) \<Longrightarrow> dict_get (spec_sched (take_spec_tokens i n st)) rid = dict_get (spec_sched st) rid"
proof -
  let ?r = "objs (sch st) i" let ?rid = "request_id ?r"
  note t = running_tokens_fit [OF assms]
  show "dict_get (spec_sched (take_spec_tokens i n st)) rid = dict_get (spec_sched st) rid" if "rid \<noteq> ?rid"
    using that by (simp add: take_spec_tokens_def Let_def)
  have pos: "0 \<le> drafts_of rid sp" for rid sp by (simp add: drafts_of_def split: option.splits)
  show "tokens_fit c (drafts_of ?rid (spec_sched (take_spec_tokens i n st))) n (objs (sch (take_spec_tokens i n st)) i)"
  proof (cases "spec_token_ids ?r = []")
    case True
    then show ?thesis using t pos [of ?rid "spec_sched st"] by (simp add: take_spec_tokens_def tokens_fit_def)
  next
    case False
    let ?k = "n + num_computed_tokens ?r - num_tokens ?r - num_output_placeholders ?r"
    have "num_tokens (?r\<lparr>spec_token_ids := []\<rparr>) = num_tokens ?r" by (simp add: num_tokens_def)
    moreover have "0 < ?k \<Longrightarrow> drafts_of ?rid (spec_sched (take_spec_tokens i n st)) = ?k"
      using False t(1) by (simp add: take_spec_tokens_def Let_def drafts_of_def)
    ultimately show ?thesis using False t pos [of ?rid "spec_sched (take_spec_tokens i n st)"]
      by (cases "0 < ?k") (auto simp add: tokens_fit_def take_spec_tokens_def Let_def)
  qed
qed

lemma commit_running_pace:
  assumes run: "commit_running i n ins eb b st = Inr st'" and p: "placed {#} (sch st)" and i: "i \<in> set (running (sch st))"
    and pc: "pace c st" and n: "n \<le> running_tokens c (objs (sch st) i) bud"
  shows "pace c st'"
proof -
  let ?rid = "request_id (objs (sch st) i)"
  let ?st1 = "st\<lparr>run_reqs := run_reqs st @ [i], blocks_of := dict_set ?rid b (blocks_of st),
                   sched_toks := dict_set ?rid n (sched_toks st), token_budget := token_budget st - n, req_index := req_index st + 1\<rparr>"
  let ?st2 = "take_spec_tokens i n ?st1"
  have "commit_inputs i ins eb ?st2 = Inr st'" using run unfolding commit_running_def Let_def .
  then obtain e x bu where st': "st' = on_sch (set_enc e) (?st2\<lparr>enc_sched := x, enc_budget := bu\<rparr>)" by (blast dest: commit_inputs_result)
  have toks: "sched_toks ?st2 = dict_set ?rid n (sched_toks st)" and rn: "running (sch ?st2) = running (sch st)"
    and ob: "\<And>j. j \<noteq> i \<Longrightarrow> objs (sch ?st2) j = objs (sch st) j" and nm: "request_id (objs (sch ?st2) i) = ?rid"
    by (simp_all add: take_spec_tokens_def Let_def)
  have n1: "n \<le> running_tokens c (objs (sch ?st1) i) bud" using n by simp
  have "fits c st' j" if j: "j \<in> set (running (sch st'))" for j
  proof (cases "j = i")
    case True
    have "fits c ?st2 i" using take_spec_tokens_fit(1) [OF n1] nm by (simp add: fits_def Let_def toks)
    then show ?thesis using True by (simp add: fits_def st' Let_def cong: option.case_cong)
  next
    case False
    have jr: "j \<in> set (running (sch st))" using j rn by (simp add: st')
    have ne: "request_id (objs (sch st) j) \<noteq> ?rid" by (rule running_names [OF p jr i False])
    have "dict_get (spec_sched ?st2) (request_id (objs (sch st) j)) = dict_get (spec_sched st) (request_id (objs (sch st) j))"
      using take_spec_tokens_fit(2) [OF n1, of "request_id (objs (sch st) j)"] ne by simp
    then have "fits c st' j = fits c st j" using ob [OF False] ne toks by (intro fits_cong) (simp_all add: st')
    then show ?thesis using pc jr by (simp add: pace_def)
  qed
  then show ?thesis by (simp add: pace_def)
qed

definition run_pace :: "sched_config \<Rightarrow> int \<Rightarrow> step_vars \<Rightarrow> bool" where
  "run_pace c B st \<longleftrightarrow> run_inv c B st \<and> pace c st"

lemma running_body_pace:
  assumes inv: "run_pace c B st" and run: "running_body env st = Some (Inr (go, st'))"
  shows "run_pace c B st'"
proof -
  have ri: "run_inv c B st" and pc: "pace c st" using inv by (simp_all add: run_pace_def)
  have c: "config_ok c" "conf (sch st) = c" and bud: "0 \<le> token_budget st"
    using ri accountsD(4) by (auto simp: run_inv_def running_phase_def)
  have room: "room_pace c B i n (objs (sch st) i) (None, st1)" and fit: "n \<le> running_tokens c (objs (sch st) i) (token_budget st)"
    if pi: "py_index (running (sch st)) (req_index st) = Inr i"
      and pr: "plan_running i st = Inr (ins, n, eb, st1)" and nz: "n \<noteq> 0" for i n ins eb st1
  proof -
    note f = running_index_free [OF ri pi]
    note ps = plan_running_spec [OF pr c(2,1) f(5) bud]
    then obtain e where "st1 = on_sch (set_enc e) st" by blast
    then show "room_pace c B i n (objs (sch st) i) (None, st1)" using ps ri f nz pc by (simp add: room_pace_def room_inv_def Let_def)
    show "n \<le> running_tokens c (objs (sch st) i) (token_budget st)" using ps by blast
  qed
  have "pace c st'" using run
  proof (cases rule: running_body_result)
    case skip
    then show ?thesis using pc by simp
  next
    case (none i ins eb st1)
    obtain e where "st1 = on_sch (set_enc e) st" by (rule plan_running_frame [OF none(1)])
    then show ?thesis using pc none(3) by simp
  next
    case (full i ins n eb st1)
    then show ?thesis using find_room_paced [OF full(4) room [OF full(1-3)]] by (simp add: room_paced_def)
  next
    case (runs i ins n eb st1 b st2)
    note rp = find_room_paced [OF runs(4) room [OF runs(1-3)]]
    then have a: "room_inv c B i n (Some b, st2)" "pace c st2" "objs (sch st2) i = objs (sch st) i"
      by (simp_all add: room_paced_def room_done_def)
    have "run_inv c B st2" "i \<in> set (running (sch st2))"
      using a(1) set_take_subset [of "Suc (nat (req_index st2))" "running (sch st2)"] by (auto simp: room_inv_def Let_def)
    then show ?thesis using commit_running_pace [OF runs(5) run_inv_placed _ a(2)] fit [OF runs(1-3)] a(3) by simp
  qed
  then show ?thesis using running_body_inv [OF ri run] by (simp add: run_pace_def)
qed

interpretation running_paces: guarded_loop running_cond "running_body env" "run_pace c B" "run_pace c B" for env c B
  by unfold_locales (auto intro: running_body_pace)

section \<open>Waiting requests\<close>

definition wait_pace :: "sched_config \<Rightarrow> int \<Rightarrow> step_vars \<Rightarrow> bool" where
  "wait_pace c B st \<longleftrightarrow> wait_inv c B st \<and> pace c st"

lemma pace_set_obj:
  assumes "pace c st" "i \<notin> set (running (sch st))" shows "pace c (st\<lparr>sch := set_obj i f (sch st)\<rparr>)"
  unfolding pace_def
proof
  fix j assume j: "j \<in> set (running (sch (st\<lparr>sch := set_obj i f (sch st)\<rparr>)))"
  then have "j \<noteq> i" using assms(2) by auto
  then have "fits c (st\<lparr>sch := set_obj i f (sch st)\<rparr>) j = fits c st j" by (intro fits_cong) simp_all
  then show "fits c (st\<lparr>sch := set_obj i f (sch st)\<rparr>) j" using assms(1) j by (simp add: pace_def)
qed

lemma start_request_spec:
  assumes "start_request qn ins n eb k st = Inr st'" shows "spec_sched st' = spec_sched st"
  using assms unfolding start_request_def
  by (auto simp: Let_def note_started_def note_lora_def commit_inputs_def split: request_status.splits if_splits option.splits elim!: bindE_eq_InrE)

lemma start_request_pace:
  assumes run: "start_request qn ins n eb k st = Inr st'" and inv: "wait_inv c B st" and fr: "at_front qn i (sch st)"
    and pc: "pace c st" and n: "k + n \<le> num_tokens (objs (sch st) i)" and ph: "0 \<le> num_output_placeholders (objs (sch st) i)"
  shows "pace c st'"
proof -
  let ?f = "\<lambda>r. r\<lparr>status := RUNNING, num_computed_tokens := k\<rparr>" and ?rid = "request_id (objs (sch st) i)"
  obtain r q s where pop: "q_pop (get_queue qn (sch st)) = Inr (r, q)"
    and s: "s = (set_obj (obj_id r) ?f (set_queue qn q (sch st)))\<lparr>running := running (sch st) @ [obj_id r]\<rparr>"
    and st': "\<exists>e. sch st' = s\<lparr>encoder_manager := e\<rparr>"
      "sched_toks st' = dict_set (request_id (objs (sch st) (obj_id r))) n (sched_toks st)"
    by (rule start_request_result [OF run])
  have r: "obj_id r = i" by (rule pop_front [OF fr pop])
  have sp: "spec_sched st' = spec_sched st" by (rule start_request_spec [OF run])
  have w: "step_placed st" using inv by (simp add: wait_inv_def)
  then have p: "placed (ids_in (step_skipped st)) (sch st)" by (simp add: step_placed_def)
  note f = front_status [OF w fr]
  have o1: "objs (set_queue qn q (sch st)) = objs (sch st)" by (cases qn) simp_all
  have o: "objs (sch st') = (objs (sch st))(i := ?f (objs (sch st) i))" "running (sch st') = running (sch st) @ [i]"
    using st'(1) by (auto simp: s r o1)
  have pos: "0 \<le> drafts_of rid spec" for rid spec by (simp add: drafts_of_def split: option.splits)
  have "fits c st' j" if j: "j \<in> set (running (sch st'))" for j
  proof (cases "j = i")
    case True
    have "num_tokens (?f (objs (sch st) i)) = num_tokens (objs (sch st) i)" by (simp add: num_tokens_def)
    then show ?thesis using True n ph pos [of ?rid "spec_sched st"] by (simp add: fits_def Let_def st'(2) r o(1) sp tokens_fit_def)
  next
    case False
    then have jr: "j \<in> set (running (sch st))" using j o(2) by simp
    have "request_id (objs (sch st) j) \<noteq> ?rid"
    proof
      assume e: "request_id (objs (sch st) j) = ?rid"
      have "j = i" by (rule names_inj [OF p _ _ e]) (use jr f(2) in auto)
      then show False using False by simp
    qed
    then have "fits c st' j = fits c st j" using False by (intro fits_cong) (simp_all add: o(1) st'(2) r sp)
    then show ?thesis using pc jr by (simp add: pace_def)
  qed
  then show ?thesis by (simp add: pace_def)
qed

definition placeholders_ok :: "scheduler \<Rightarrow> bool" where
  "placeholders_ok s \<longleftrightarrow> (\<forall>i \<in> snd ` set (requests_dict s). 0 \<le> num_output_placeholders (objs s i))"

lemma same_request_placeholders: "same_request r r' \<Longrightarrow> num_output_placeholders r' = num_output_placeholders r"
  unfolding same_request_def by (elim exE) simp

lemma placeholders_frame: "step_frame s s' \<Longrightarrow> placeholders_ok s' = placeholders_ok s"
  unfolding step_frame_def placeholders_ok_def by (metis same_request_placeholders)

lemma admit_pace:
  assumes run: "admit env qn i st = Some (Inr (go, st'))" and inv: "wait_inv c B st" and fr: "at_front qn i (sch st)"
    and pc: "pace c st" and ph: "0 \<le> num_output_placeholders (objs (sch st) i)"
  shows "pace c st'"
proof -
  obtain bs loc k st1 plan st2 where cp: "computed_prefix i st = Some (Inr (bs, loc, k, st1))" and pl: "plan_waiting i loc k st1 = Inr (plan, st2)"
    and fin: "plan = None \<and> \<not> go \<and> st' = st2
     \<or> (\<exists>ins n eb ok st3. plan = Some (ins, n, eb) \<and> allocate_waiting env i ins n bs loc st2 = Inr (ok, st3)
          \<and> (\<not> ok \<and> \<not> go \<and> st' = st3 \<or> ok \<and> go \<and> start_request qn ins n eb k st3 = Inr st'))"
    by (rule admit_cases [OF run])
  have w: "step_placed st" using inv by (simp add: wait_inv_def)
  note c1 = computed_prefix_inv [OF cp inv fr]
  have p1: "pace c st1 \<and> num_output_placeholders (objs (sch st1) i) = num_output_placeholders (objs (sch st) i)" using cp
  proof (cases rule: computed_prefix_result)
    case (2 km ps)
    have "pace c ((on_sch (set_kv km) st)\<lparr>sch := set_obj i (\<lambda>r. r\<lparr>prefill_stats := ps\<rparr>) (sch (on_sch (set_kv km) st))\<rparr>)"
      by (rule pace_set_obj) (use pc front_status(4) [OF w fr] in simp_all)
    then show ?thesis by (simp add: 2)
  qed (use pc in simp)
  have cc: "conf (sch st1) = c" "config_ok c" using c1(1) by (simp_all add: wait_inv_def)
  note ps = plan_waiting_spec [OF pl cc]
  then obtain e where st2: "st2 = on_sch (set_enc e) st1" by blast
  show ?thesis using fin
  proof (elim disjE conjE exE)
    fix ins n eb ok st3
    assume plan: "plan = Some (ins, n, eb)" and al: "allocate_waiting env i ins n bs loc st2 = Inr (ok, st3)"
    obtain km e' where st3: "st3 = on_sch (\<lambda>s. s\<lparr>kv_manager := km, encoder_manager := e'\<rparr>) st2" by (rule allocate_waiting_result [OF al])
    show ?thesis if "st' = st3" using p1 that by (simp add: st3 st2)
    assume sr: "start_request qn ins n eb k st3 = Inr st'"
    show ?thesis
      by (rule start_request_pace [OF sr, where c = c and B = B and i = i]) (use c1 p1 ps plan ph in \<open>simp_all add: st3 st2\<close>)
  qed (use p1 in \<open>simp add: st2\<close>)
qed

lemma waiting_body_pace:
  assumes inv: "wait_pace c B st" and ph: "placeholders_ok (sch st)" and run: "waiting_body env st = Some (Inr (go, st'))"
  shows "wait_pace c B st'"
proof -
  have wi: "wait_inv c B st" and pc: "pace c st" using inv by (simp_all add: wait_pace_def)
  have "pace c st'" using run
  proof (cases rule: waiting_body_cases)
    case stop
    then show ?thesis using pc by simp
  next
    case (round qn i s1)
    have w: "step_placed st" using wi by (simp add: wait_inv_def)
    then have p: "placed (ids_in (step_skipped st)) (sch st)" by (simp add: step_placed_def)
    have fr: "at_front qn i (sch st)" by (rule next_waiting_front [OF round(2)])
    note f = front_status [OF w fr]
    let ?f = "\<lambda>r. r\<lparr>status := WAITING\<rparr>"
    have "i \<in> snd ` set (requests_dict (sch st))" using f(2) by (intro placed_live(3) [OF p]) auto
    then have "0 \<le> num_output_placeholders (objs (sch st) i)" using ph unfolding placeholders_ok_def by blast
    then have ph1: "0 \<le> num_output_placeholders (objs s1 i)" using round(3) by auto
    have s1: "wait_inv c B (st\<lparr>sch := s1\<rparr>)" "at_front qn i s1"
      using round(3) wi fr wait_inv_set_obj [where f = ?f, OF wi f(2)] at_front_set_obj [where f = ?f, OF fr p] by (auto simp: waiting_status_def)
    have p1: "pace c (st\<lparr>sch := s1\<rparr>)" using round(3) pc pace_set_obj [where f = ?f, OF pc f(4)] by auto
    show ?thesis using round(4)
    proof (elim disjE conjE)
      assume "skip_waiting qn i (st\<lparr>sch := s1\<rparr>) = Inr st'"
      then obtain q where st': "st' = st\<lparr>sch := set_queue qn q s1, step_skipped := q_prepend (objs s1 i) (step_skipped st)\<rparr>"
        by (auto simp: skip_waiting_def elim!: bindE_eq_InrE)
      have "objs (set_queue qn q s1) = objs s1" "running (set_queue qn q s1) = running s1" by (cases qn; simp)+
      then have "fits c st' j = fits c (st\<lparr>sch := s1\<rparr>) j" for j by (intro fits_cong) (simp_all add: st')
      then show ?thesis using p1 \<open>running (set_queue qn q s1) = running s1\<close> by (simp add: pace_def st')
    next
      assume "admit env qn i (st\<lparr>sch := s1\<rparr>) = Some (Inr (go, st'))"
      from admit_pace [OF this s1(1)] s1(2) p1 ph1 show ?thesis by simp
    qed
  qed
  then show ?thesis using waiting_body_inv [OF wi run] by (simp add: wait_pace_def)
qed

interpretation waiting_paces: guarded_loop waiting_cond "waiting_body env" "\<lambda>st. wait_pace c B st \<and> placeholders_ok (sch st)" "wait_pace c B" for env c B
  by unfold_locales (use waiting_body_pace placeholders_frame [OF waiting_body_frame] in blast)+

section \<open>A whole step\<close>

lemma requeue_pace: "requeue_skipped st = Inr st' \<Longrightarrow> pace c st \<Longrightarrow> pace c st'"
  by (auto simp: requeue_skipped_def pace_def fits_def Let_def cong: option.case_cong split: if_splits elim!: bindE_eq_InrE)

definition idle_running :: "scheduler \<Rightarrow> bool" where
  "idle_running s \<longleftrightarrow> (\<forall>i \<in> set (running s). idle_tokens (conf s) (objs s i))"

lemma step_start_pace: "idle_running s \<Longrightarrow> pace (conf s) (step_start s)"
  by (simp add: pace_def fits_def step_start_def idle_running_def)

lemma schedule_phases_pace:
  assumes run: "schedule_phases env s = Some (Inr st)" and r: "sched_ready s" and ph: "placeholders_ok s" and idle: "idle_running s"
  shows "pace (conf s) st"
proof -
  obtain st1 st2 l where p: "schedule_running env (step_start s) = Some (Inr st1)" "st2 = st1\<lparr>scheduled_loras := l\<rparr>"
    "schedule_waiting env st2 = Some (Inr st)" "wait_inv (conf s) (step_budget s) st2" "queue_reqs (step_skipped st2) = []"
    by (rule schedule_phases_parts [OF run r])
  have "run_pace (conf s) (step_budget s) (step_start s)" using step_start_inv [OF r] step_start_pace [OF idle] by (simp add: run_pace_def)
  from running_paces.loop_result [OF p(1) [unfolded schedule_running_def] this] have p2: "pace (conf s) st2" by (simp add: run_pace_def p(2))
  have "step_frame s (sch st2)" using step_frame_trans [OF step_start_frame schedule_running_frame [OF p(1)]] by (simp add: p(2))
  then have w: "wait_pace (conf s) (step_budget s) st2 \<and> placeholders_ok (sch st2)"
    using p(4) p2 ph by (simp add: wait_pace_def placeholders_frame)
  show ?thesis
  proof (cases "preempted_reqs st2 = [] \<and> pause_state (sch st2) = UNPAUSED")
    case True
    then obtain st3 where 3: "py_while waiting_cond (waiting_body env) st2 = Some (Inr st3)" "requeue_skipped st3 = Inr st"
      using p(3) by (auto simp: schedule_waiting_def bindO_eq_Inr)
    then show ?thesis using waiting_paces.loop_result [OF 3(1) w] requeue_pace [OF 3(2)] by (simp add: wait_pace_def)
  next
    case False
    then have "st = st2" using p(3) by (auto simp: schedule_waiting_def retO_def)
    then show ?thesis using p2 by simp
  qed
qed

end
