(* ===== verification/Token_Update.thy ===== *)
theory Token_Update
  imports Token_Pace
begin

text \<open>
  Token counts between steps, for synchronous scheduling of requests without streaming. After a
  step, the tokens computed exceed those of the request by at most the drafts scheduled; taking the
  output gives back the rejected drafts and appends the accepted ones, so that the request has again
  computed no more than it has.
\<close>

section \<open>Calm states\<close>

text \<open>
  A request fits the model: it stops at the latest at the length limit, because the minimum of
  tokens it asks for is within the limit.
\<close>

definition steady :: "sched_config \<Rightarrow> request \<Rightarrow> bool" where
  "steady c r \<longleftrightarrow> \<not> resumable r \<and> num_output_placeholders r = 0 \<and> 0 < num_tokens r \<and> num_tokens r \<le> sc_max_model_len c
     \<and> (\<forall>sp. req_sampling_params r = Some sp \<longrightarrow> num_tokens r - num_output_tokens r + min_tokens sp \<le> sc_max_model_len c)"

definition settled :: "scheduler \<Rightarrow> bool" where
  "settled s \<longleftrightarrow> placed {#} s \<and> config_ok (conf s) \<and> 0 \<le> max_num_scheduled_tokens (conf s)
     \<and> int (length (running s)) \<le> max_num_running_reqs (conf s) \<and> \<not> async_scheduling (conf s) \<and> search_ok (kv_manager s)
     \<and> (\<forall>i \<in> snd ` set (requests_dict s). steady (conf s) (objs s i))"

definition calm :: "scheduler \<Rightarrow> bool" where
  "calm s \<longleftrightarrow> settled s \<and> idle_running s"

lemma settledD:
  assumes "settled s"
  shows "placed {#} s" "config_ok (conf s)" "0 \<le> max_num_scheduled_tokens (conf s)"
    "int (length (running s)) \<le> max_num_running_reqs (conf s)" "\<not> async_scheduling (conf s)" "search_ok (kv_manager s)"
    "i \<in> snd ` set (requests_dict s) \<Longrightarrow> steady (conf s) (objs s i)"
  using assms unfolding settled_def by blast+

lemma running_live: "placed {#} s \<Longrightarrow> i \<in> set (running s) \<Longrightarrow> i \<in> snd ` set (requests_dict s)"
  by (rule placed_live(3)) auto

lemma calm_ready:
  assumes "calm s" shows "sched_ready s" "live_tokens s" "placeholders_ok s"
proof -
  have s: "settled s" and idle: "idle_running s" using assms by (simp_all add: calm_def)
  note d = settledD [OF s]
  have "tokens_ok (conf s) (objs s i)" if "i \<in> set (running s)" for i
  proof -
    have "steady (conf s) (objs s i)" by (rule d(7) [OF running_live [OF d(1) that]])
    then show ?thesis using idle that by (auto simp: idle_running_def idle_tokens_def steady_def tokens_ok_def num_tokens_with_spec_def num_tokens_def)
  qed
  then show "sched_ready s" using d(1-4) by (simp add: sched_ready_def)
  show "live_tokens s" using d(6,7) unfolding live_tokens_def steady_def by blast
  show "placeholders_ok s" using d(7) unfolding placeholders_ok_def steady_def by fastforce
qed

text \<open>Changes that \<open>steady\<close> does not see.\<close>

lemma same_request_steady:
  assumes "same_request r r'" shows "steady c r' = steady c r"
  using assms unfolding same_request_def by (elim exE) (simp add: steady_def num_tokens_def num_output_tokens_def)

section \<open>After a step\<close>

definition stepped_tokens :: "sched_config \<Rightarrow> int \<Rightarrow> request \<Rightarrow> bool" where
  "stepped_tokens c k r \<longleftrightarrow> num_computed_tokens r \<le> num_tokens r + k
     \<and> (num_computed_tokens r < sc_max_model_len c \<or> num_computed_tokens r \<le> num_tokens r)"

text \<open>Requests with tokens scheduled, whose output is still to be taken, and all the others.\<close>

definition pending :: "scheduler_output \<Rightarrow> string list \<Rightarrow> scheduler \<Rightarrow> bool" where
  "pending so keys s \<longleftrightarrow> named_running keys s
     \<and> (\<forall>i \<in> set (running s). let r = objs s i in if request_id r \<in> set keys
           then stepped_tokens (conf s) (drafts_of (request_id r) (scheduled_spec_decode_tokens so)) r else idle_tokens (conf s) r)"

definition stepped :: "scheduler_output \<Rightarrow> scheduler \<Rightarrow> bool" where
  "stepped so s \<longleftrightarrow> settled s \<and> dict_wf (num_scheduled_tokens so) \<and> pending so (map fst (num_scheduled_tokens so)) s"

lemma same_computed: "\<exists>k p. r = r\<lparr>num_computed_tokens := k, is_prefill_chunk := p\<rparr>"
  by (rule exI [of _ "num_computed_tokens r"], rule exI [of _ "is_prefill_chunk r"]) simp

lemma advance_step_result:
  assumes "advance_step (rid, n) (b, s) = Inr y"
  shows "\<exists>i b1. dict_get (requests_dict s) rid = Some i \<and> y = (b1, set_obj i (\<lambda>r. let k = num_computed_tokens r + n
        in r\<lparr>num_computed_tokens := k, is_prefill_chunk := k < num_tokens r + num_output_placeholders r\<rparr>) s)"
  using assms by (auto simp: advance_step_def dict_getE_def Let_def split: option.splits elim!: bindE_eq_InrE)

lemma advance_fold_exact:
  assumes "foldE advance_step xs (b, s) = Inr (b', s')" "named (requests_dict s) (objs s)" "distinct (map fst xs)"
    and "j \<in> snd ` set (requests_dict s)"
  shows "num_computed_tokens (objs s' j) = num_computed_tokens (objs s j) + (case dict_get xs (request_id (objs s j)) of None \<Rightarrow> 0 | Some n \<Rightarrow> n)
     \<and> (\<exists>k p. objs s' j = (objs s j)\<lparr>num_computed_tokens := k, is_prefill_chunk := p\<rparr>)"
  using assms
proof (induction xs arbitrary: b s)
  case Nil
  then have "objs s' j = objs s j" by simp
  then show ?case by (simp only: list.map dict_get_Nil option.case add_0_right same_computed)
next
  case (Cons x xs)
  obtain rid n where x: "x = (rid, n)" by force
  from Cons.prems(1) obtain i b1 where i: "dict_get (requests_dict s) rid = Some i"
    and rest: "foldE advance_step xs (b1, set_obj i (\<lambda>r. let k = num_computed_tokens r + n
        in r\<lparr>num_computed_tokens := k, is_prefill_chunk := k < num_tokens r + num_output_placeholders r\<rparr>) s) = Inr (b', s')"
  proof -
    from Cons.prems(1) obtain y where y: "advance_step (rid, n) (b, s) = Inr y" "foldE advance_step xs y = Inr (b', s')"
      unfolding x by (auto elim!: bindE_eq_InrE)
    from advance_step_result [OF y(1)] y(2) that show thesis by blast
  qed
  let ?f = "\<lambda>r. let k = num_computed_tokens r + n in r\<lparr>num_computed_tokens := k, is_prefill_chunk := k < num_tokens r + num_output_placeholders r\<rparr>"
  let ?s = "set_obj i ?f s"
  have nm: "named (requests_dict ?s) (objs ?s)" using Cons.prems(2) by (auto simp: named_def Let_def)
  have ri: "request_id (objs s i) = rid" using Cons.prems(2) dict_get_SomeD [OF i] by (auto simp: named_def)
  have rj: "request_id (objs ?s j) = request_id (objs s j)" by (simp add: Let_def)
  have IH: "num_computed_tokens (objs s' j) = num_computed_tokens (objs ?s j) + (case dict_get xs (request_id (objs ?s j)) of None \<Rightarrow> 0 | Some n \<Rightarrow> n)
     \<and> (\<exists>k p. objs s' j = (objs ?s j)\<lparr>num_computed_tokens := k, is_prefill_chunk := p\<rparr>)"
    by (rule Cons.IH [OF rest nm]) (use Cons.prems(3,4) in simp_all)
  show ?case
  proof (cases "j = i")
    case True
    have "dict_get xs rid = None" using Cons.prems(3) by (auto simp: x)
    then show ?thesis using IH True ri by (auto simp: x Let_def dict_get_def)
  next
    case False
    have "request_id (objs s j) \<noteq> rid"
    proof
      assume "request_id (objs s j) = rid"
      then have "dict_get (requests_dict s) rid = Some j" using namedD [OF Cons.prems(2,4)] by simp
      then show False using i False by simp
    qed
    then show ?thesis using IH False by (simp add: x dict_get_def)
  qed
qed

lemma schedule_stepped:
  assumes run: "schedule env s = Some (Inr (so, s'))" and calm: "calm s"
  shows "stepped so s'"
proof -
  note rd = calm_ready [OF calm]
  have s: "settled s" and idle: "idle_running s" using calm by (simp_all add: calm_def)
  note d = settledD [OF s]
  note sp = schedule_places [OF run rd(1)]
  from run obtain st o1 s1 where ph: "schedule_phases env s = Some (Inr st)" and mo: "make_output st = Inr (o1, s1)"
    and ua: "update_after_schedule o1 s1 = Inr (so, s')"
    unfolding schedule_def by (auto simp: bindO_eq_Inr)
  note pd = schedule_phases_done [OF ph rd(1)]
  have pc: "pace (conf s) st" by (rule schedule_phases_pace [OF ph rd(1,3) idle])
  obtain km e x where s1: "s1 = (sch st)\<lparr>kv_manager := km, prev_step_scheduled_req_ids := x, encoder_manager := e\<rparr>"
    and t1: "num_scheduled_tokens o1 = sched_toks st" "scheduled_spec_decode_tokens o1 = spec_sched st" by (rule make_output_frame [OF mo])
  note u = update_after_schedule_result [OF ua]
  have c1: "conf s1 = conf s" using pd(3) by (simp add: s1)
  obtain b b' s2 where f: "foldE advance_step (sched_toks st) (b, s1) = Inr (b', s2)" "objs s' = objs s2"
    using ua d(5) c1 unfolding update_after_schedule_def t1(1)
    by (elim bindE_eq_InrE) (auto simp: Let_def split: prod.splits)
  have dw: "distinct (map fst (sched_toks st))" using accountsD(1) [OF pd(2)] by (simp add: dict_wf_def)
  have nm: "named (requests_dict s1) (objs s1)" using placedD(1) [OF pd(1)] by (simp add: s1)
  have dict: "requests_dict (sch st) = requests_dict s" using pd(5) by (simp add: step_frame_def)
  have ex: "num_computed_tokens (objs s' j) = num_computed_tokens (objs (sch st) j) + (case dict_get (sched_toks st) (request_id (objs (sch st) j)) of None \<Rightarrow> 0 | Some n \<Rightarrow> n)
     \<and> (\<exists>k p. objs s' j = (objs (sch st) j)\<lparr>num_computed_tokens := k, is_prefill_chunk := p\<rparr>)" if "j \<in> snd ` set (requests_dict s)" for j
    using advance_fold_exact [OF f(1) nm dw, of j] that by (simp add: f(2) s1 dict)
  have same: "same_request (objs s j) (objs (sch st) j)" for j using pd(5) by (simp add: step_frame_def)
  have steady: "steady (conf s') (objs s' j)" if "j \<in> snd ` set (requests_dict s')" for j
  proof -
    have j: "j \<in> snd ` set (requests_dict s)" using that sp(4) by simp
    have "steady (conf s) (objs (sch st) j)" using d(7) [OF j] same_request_steady [OF same] by simp
    then show ?thesis using ex [OF j] by (auto simp: sp(5) steady_def num_tokens_def num_output_tokens_def)
  qed
  have set': "settled s'" using sp d steady by (simp add: settled_def)
  have pend: "let r = objs s' i in if request_id r \<in> set (map fst (num_scheduled_tokens so))
           then stepped_tokens (conf s') (drafts_of (request_id r) (scheduled_spec_decode_tokens so)) r else idle_tokens (conf s') r"
    if i: "i \<in> set (running s')" for i
  proof -
    have il: "i \<in> snd ` set (requests_dict s)" using running_live [OF sp(1) i] sp(4) by simp
    have rn: "i \<in> set (running (sch st))" using i u(1) by (simp add: advanced_def s1)
    obtain k p where o: "objs s' i = (objs (sch st) i)\<lparr>num_computed_tokens := k, is_prefill_chunk := p\<rparr>" using ex [OF il] by blast
    let ?r = "objs (sch st) i"
    have k: "k = num_computed_tokens ?r + (case dict_get (sched_toks st) (request_id ?r) of None \<Rightarrow> 0 | Some n \<Rightarrow> n)" using ex [OF il] o by simp
    have toks: "num_scheduled_tokens so = sched_toks st" "scheduled_spec_decode_tokens so = spec_sched st" using u(2,3) t1 by simp_all
    have nt: "num_tokens (objs s' i) = num_tokens ?r" by (simp add: o num_tokens_def)
    have ph0: "num_output_placeholders ?r = 0" using steady [of i] il sp(4) by (simp add: o steady_def)
    have fit: "fits (conf s) st i" using pc rn by (simp add: pace_def)
    show ?thesis
    proof (cases "dict_get (sched_toks st) (request_id ?r)")
      case None
      then have "request_id ?r \<notin> set (map fst (sched_toks st))" by simp
      moreover have "idle_tokens (conf s) ?r" using fit None by (simp add: fits_def del: dict_get_eq_None)
      ultimately show ?thesis using k None nt by (simp add: toks o idle_tokens_def sp(5) num_tokens_def del: dict_get_eq_None)
    next
      case (Some n)
      then have "request_id ?r \<in> set (map fst (sched_toks st))" using dict_get_SomeD [OF Some] by force
      moreover have "tokens_fit (conf s) (drafts_of (request_id ?r) (spec_sched st)) n ?r" using fit Some by (simp add: fits_def Let_def)
      ultimately show ?thesis using k Some ph0 by (simp add: toks o tokens_fit_def stepped_tokens_def sp(5) num_tokens_def)
    qed
  qed
  then have "pending so (map fst (num_scheduled_tokens so)) s'" using sp(3) unfolding pending_def by blast
  then show ?thesis using set' sp(2) by (simp add: stepped_def)
qed

section \<open>Requests that end while a batch runs\<close>

lemma finish_requests_keeps:
  assumes run: "finish_requests env x st s = Inr (out, s')" and x: "request_ids_ok x" and s: "settled s"
  shows "settled s'" "\<And>i. i \<in> set (running s') \<Longrightarrow> i \<in> set (running s) \<and> objs s' i = objs s i"
    "\<And>rid i. dict_get (requests_dict s') rid = Some i \<Longrightarrow> dict_get (requests_dict s) rid = Some i \<and> objs s' i = objs s i"
proof -
  note d = settledD [OF s]
  note f = finish_requests_places [OF run d(1) x]
  have nm: "named (requests_dict s) (objs s)" by (rule placedD(1) [OF d(1)])
  have old: "(rid, i) \<in> set (requests_dict s) \<and> objs s' i = objs s i" if "(rid, i) \<in> set (requests_dict s')" for rid i
  proof -
    have m: "(rid, i) \<in> set (requests_dict s)" "rid \<notin> set (ids_of_request x s)" using that unfolding f(3) by auto
    have ri: "request_id (objs s i) = rid" using nm m(1) by (auto simp: named_def)
    have "i \<notin> set (named_live s (ids_of_request x s))" unfolding named_live_set
    proof
      assume "\<exists>rid \<in> set (ids_of_request x s). dict_get (requests_dict s) rid = Some i"
      then obtain r where r: "r \<in> set (ids_of_request x s)" "dict_get (requests_dict s) r = Some i" by blast
      then have "request_id (objs s i) = r" using nm dict_get_SomeD [OF r(2)] by (auto simp: named_def)
      then show False using ri r(1) m(2) by simp
    qed
    then show ?thesis using m(1) f(4) by simp
  qed
  have wf: "dict_wf (requests_dict s)" using nm by (simp add: named_def)
  show "dict_get (requests_dict s) rid = Some i \<and> objs s' i = objs s i" if "dict_get (requests_dict s') rid = Some i" for rid i
    using old [OF dict_get_SomeD [OF that]] wf by (simp add: dict_get_wf)
  show "i \<in> set (running s) \<and> objs s' i = objs s i" if "i \<in> set (running s')" for i using that f(4) [of i] by (simp add: f(7))
  have st: "steady (conf s') (objs s' i)" if i: "i \<in> snd ` set (requests_dict s')" for i
  proof -
    obtain rid where "(rid, i) \<in> set (requests_dict s')" using i by force
    from old [OF this] have "i \<in> snd ` set (requests_dict s)" "objs s' i = objs s i" by force+
    then show ?thesis using d(7) by (simp add: f(8))
  qed
  have "length (running s') \<le> length (running s)" by (simp add: f(7))
  then show "settled s'" using d f(2,8,9) st by (simp add: settled_def)
qed

lemma finish_requests_stepped:
  assumes "finish_requests env x st s = Inr (out, s')" "request_ids_ok x" "stepped so s" shows "stepped so s'"
proof -
  have s: "settled s" using assms(3) by (simp add: stepped_def)
  note k = finish_requests_keeps [OF assms(1,2) s]
  have cf: "conf s' = conf s" by (rule finish_requests_places(8) [OF assms(1) settledD(1) [OF s] assms(2)])
  have "pending so (map fst (num_scheduled_tokens so)) s'"
    using assms(3) k(2,3) unfolding stepped_def pending_def named_running_def cf by metis
  then show ?thesis using k(1) assms(3) by (simp add: stepped_def)
qed

lemma finish_requests_calm:
  assumes "finish_requests env x st s = Inr (out, s')" "request_ids_ok x" "calm s" shows "calm s'"
proof -
  have s: "settled s" using assms(3) by (simp add: calm_def)
  note k = finish_requests_keeps [OF assms(1,2) s]
  have cf: "conf s' = conf s" by (rule finish_requests_places(8) [OF assms(1) settledD(1) [OF s] assms(2)])
  have "idle_running s'" using assms(3) k(2) unfolding calm_def idle_running_def cf by metis
  then show ?thesis using k(1) by (simp add: calm_def)
qed

section \<open>Taking the output\<close>

definition gen_of :: "model_runner_output \<Rightarrow> int \<Rightarrow> int list result" where
  "gen_of mo k = (if sampled_token_ids mo = [] then Inr [] else py_index (sampled_token_ids mo) k)"

definition pooled_of :: "model_runner_output \<Rightarrow> int \<Rightarrow> bytes option result" where
  "pooled_of mo k = (if pooler_output mo = [] then Inr None else py_index (pooler_output mo) k)"

text \<open>
  What the model runner promises: a request whose prompt is not yet computed gives no token, any
  other at least one and at most one more than its drafts, or its pooled output.
\<close>

definition output_fits :: "scheduler_output \<Rightarrow> model_runner_output \<Rightarrow> scheduler \<Rightarrow> string \<Rightarrow> bool" where
  "output_fits so mo s rid \<longleftrightarrow> (\<forall>i k gen pooled. dict_get (requests_dict s) rid = Some i \<longrightarrow> dict_get (req_id_to_index mo) rid = Some k
     \<longrightarrow> gen_of mo k = Inr gen \<longrightarrow> pooled_of mo k = Inr pooled \<longrightarrow>
     (if gen = [] then num_computed_tokens (objs s i) < num_tokens (objs s i) \<or> req_pooling_params (objs s i) \<noteq> None \<and> pooled \<noteq> None
      else int (length gen) \<le> 1 + drafts_of rid (scheduled_spec_decode_tokens so)))"

lemma append_token_result:
  assumes "append_output_token_ids (env_hasher env) ts r = Some (Inr r')" "hasher_ok env"
  shows "\<exists>d hs. r' = r\<lparr>output_token_ids := output_token_ids r @ ts, all_token_ids := all_token_ids r @ ts,
    prompt_embeds_hashes := d, block_hashes := hs\<rparr>"
proof -
  have "\<exists>d hs. r' = (r\<lparr>output_token_ids := output_token_ids r @ ts, all_token_ids := all_token_ids r @ ts\<rparr>)
      \<lparr>prompt_embeds_hashes := d, block_hashes := hs\<rparr>"
    by (rule hasher_frame [OF assms(1) [unfolded append_output_token_ids_def] assms(2)])
  then show ?thesis by simp
qed

text \<open>A request that no output stops has taken all tokens and is within the limit.\<close>

lemma append_until_stop_tokens:
  assumes "append_until_stop env i out ts s = Some (Inr (out', False, s'))" "hasher_ok env" "steady (conf s) (objs s i)"
  shows "out' = out @ ts \<and> steady (conf s) (objs s' i) \<and> num_tokens (objs s' i) = num_tokens (objs s i) + int (length ts)
     \<and> num_computed_tokens (objs s' i) = num_computed_tokens (objs s i) \<and> (ts \<noteq> [] \<longrightarrow> num_tokens (objs s' i) < sc_max_model_len (conf s))"
  using assms
proof (induction ts arbitrary: out s)
  case Nil
  then show ?case by (simp add: retO_def)
next
  case (Cons t ts)
  from Cons.prems(1) obtain r b r1 where a: "append_output_token_ids (env_hasher env) [t] (objs s i) = Some (Inr r)"
    and c: "check_stop r (sc_max_model_len (conf s)) = Inr (b, r1)"
    and k: "(let s1 = set_obj i (\<lambda>_. r1) s in if b then retO (out @ [t], True, s1) else append_until_stop env i (out @ [t]) ts s1) = Some (Inr (out', False, s'))"
    by (auto simp: bindO_eq_Inr)
  have b: "\<not> b" using k by (auto simp: retO_def Let_def)
  then have r1: "r1 = r" using check_stop_result [OF c] by simp
  obtain d hs where r: "r = (objs s i)\<lparr>output_token_ids := output_token_ids (objs s i) @ [t], all_token_ids := all_token_ids (objs s i) @ [t],
    prompt_embeds_hashes := d, block_hashes := hs\<rparr>" using append_token_result [OF a Cons.prems(2)] by blast
  have nt: "num_tokens r = num_tokens (objs s i) + 1" "num_output_tokens r = num_output_tokens (objs s i) + 1"
    "num_computed_tokens r = num_computed_tokens (objs s i)" by (simp_all add: r num_tokens_def num_output_tokens_def)
  obtain sp where sp: "req_sampling_params r = Some sp" "num_output_tokens r < min_tokens sp \<or> num_tokens r < sc_max_model_len (conf s)"
    by (rule check_stop_continue [OF c [unfolded r1 iffD2 [OF eq_False b]]]) blast
  have spo: "req_sampling_params (objs s i) = Some sp" using sp(1) by (simp add: r)
  have lim: "num_tokens r < sc_max_model_len (conf s)"
    using sp(2) Cons.prems(3) spo nt unfolding steady_def by fastforce
  have st: "steady (conf s) r"
    using Cons.prems(3) lim nt spo unfolding steady_def by (auto simp: r)
  have e: "append_until_stop env i (out @ [t]) ts (set_obj i (\<lambda>_. r) s) = Some (Inr (out', False, s'))" using k b r1 by (simp add: Let_def)
  have "out' = (out @ [t]) @ ts \<and> steady (conf s) (objs s' i) \<and> num_tokens (objs s' i) = num_tokens r + int (length ts)
     \<and> num_computed_tokens (objs s' i) = num_computed_tokens r \<and> (ts \<noteq> [] \<longrightarrow> num_tokens (objs s' i) < sc_max_model_len (conf s))"
    using Cons.IH [OF e Cons.prems(2)] st by auto
  then show ?case using nt lim by (cases "ts = []") simp_all
qed

lemma update_one_inputs:
  assumes "update_one env so mo rid i u = Some (Inr u')" "unqueued i (usch u)"
  obtains k gen pooled s2 toks stop0 s3 stop s4 reason u1 lp where
    "dict_get (req_id_to_index mo) rid = Some k" "gen_of mo k = Inr gen" "pooled_of mo k = Inr pooled"
    "objs s2 = objs (set_obj i (reject_drafts (dict_get (scheduled_spec_decode_tokens so) rid) gen) (usch u))"
    "touches i (usch u) s2"
    "take_output env i gen pooled s2 = Some (Inr (toks, stop0, s3))" "advance_grammar env i toks stop0 s3 = Inr (stop, s4)"
    "(if stop then finish_stopped env i (status (objs s2 i)) (u\<lparr>usch := s4\<rparr>) else retO (None, u\<lparr>usch := s4\<rparr>)) = Some (Inr (reason, u1))"
    "emit_output i rid toks stop pooled lp reason u1 = Inr u'"
proof -
  from assms(1) obtain k gen s2 pooled toks stop0 s3 stop s4 reason u1 lp where
    a: "dict_getE (req_id_to_index mo) rid = Inr k" "gen_of mo k = Inr gen" "pooled_of mo k = Inr pooled"
    and f: "(if has_encoder_inputs (objs (set_obj i (reject_drafts (dict_get (scheduled_spec_decode_tokens so) rid) gen) (usch u)) i)
      then free_encoder_inputs env i (set_obj i (reject_drafts (dict_get (scheduled_spec_decode_tokens so) rid) gen) (usch u))
      else Inr (set_obj i (reject_drafts (dict_get (scheduled_spec_decode_tokens so) rid) gen) (usch u))) = Inr s2"
    and b: "take_output env i gen pooled s2 = Some (Inr (toks, stop0, s3))" "advance_grammar env i toks stop0 s3 = Inr (stop, s4)"
    "(if stop then finish_stopped env i (status (objs s2 i)) (u\<lparr>usch := s4\<rparr>) else retO (None, u\<lparr>usch := s4\<rparr>)) = Some (Inr (reason, u1))"
    "emit_output i rid toks stop pooled lp reason u1 = Inr u'"
    unfolding update_one_def Let_def gen_of_def pooled_of_def
    by (elim bindO_InrE) (force simp: option.inject elim!: bindO_InrE)
  have k: "dict_get (req_id_to_index mo) rid = Some k" using a(1) by (auto simp: dict_getE_def split: option.splits)
  let ?s1 = "set_obj i (reject_drafts (dict_get (scheduled_spec_decode_tokens so) rid) gen) (usch u)"
  have t1: "touches i (usch u) ?s1" by (rule touches_set_obj [OF assms(2)]) simp_all
  have "objs s2 = objs ?s1 \<and> touches i (usch u) s2"
  proof (cases "has_encoder_inputs (objs ?s1 i)")
    case True
    then have "free_encoder_inputs env i ?s1 = Inr s2" using f by simp
    from free_encoder_inputs_touches [OF this, of i] touches_trans [OF t1] show ?thesis by blast
  qed (use f t1 in simp)
  then show ?thesis by (intro that [OF k a(2,3) _ _ b]) simp_all
qed

lemma reject_drafts_result:
  assumes "num_output_placeholders r = 0" "num_computed_tokens r \<le> num_tokens r + drafts_of rid spec" "0 < num_tokens r"
  shows "\<exists>k. reject_drafts (dict_get spec rid) gen r = r\<lparr>num_computed_tokens := k\<rparr> \<and> (gen = [] \<longrightarrow> k = num_computed_tokens r)
    \<and> (gen \<noteq> [] \<longrightarrow> int (length gen) \<le> 1 + drafts_of rid spec \<longrightarrow> k < num_tokens r + int (length gen))"
proof (cases "gen = [] \<or> dict_get spec rid = None \<or> dict_get spec rid = Some []")
  case True
  then have "reject_drafts (dict_get spec rid) gen r = r\<lparr>num_computed_tokens := num_computed_tokens r\<rparr>"
    by (auto simp: reject_drafts_def simp del: dict_get_eq_None split: option.split list.split)
  moreover have "num_computed_tokens r < num_tokens r + int (length gen)" if "gen \<noteq> []"
  proof -
    have "drafts_of rid spec = 0" using True that by (auto simp: drafts_of_def simp del: dict_get_eq_None)
    moreover have "0 < int (length gen)" using that by simp
    ultimately show ?thesis using assms(2) by linarith
  qed
  ultimately show ?thesis by blast
next
  case False
  then obtain d ds where d: "dict_get spec rid = Some (d # ds)" by (metis neq_Nil_conv not_None_eq)
  let ?rej = "int (length (d # ds)) - (int (length gen) - 1)"
  let ?k = "if 0 < num_computed_tokens r then num_computed_tokens r - ?rej else num_computed_tokens r"
  have "reject_drafts (dict_get spec rid) gen r = r\<lparr>num_computed_tokens := ?k\<rparr>"
    using False by (simp add: reject_drafts_def d Let_def assms(1))
  moreover have "drafts_of rid spec = int (length (d # ds))" by (simp add: drafts_of_def d)
  then have "?k < num_tokens r + int (length gen)" using assms(2,3) False by auto
  ultimately show ?thesis using False by blast
qed

text \<open>A request that is not stopped has again computed no more tokens than it has.\<close>

lemma take_output_tokens:
  assumes run: "take_output env i gen pooled s = Some (Inr (toks, False, s'))" and ok: "hasher_ok env" and sync: "\<not> async_scheduling (conf s)"
    and st: "steady (conf s) (objs s i)"
    and n: "if gen = [] then num_computed_tokens (objs s i) < num_tokens (objs s i) \<or> req_pooling_params (objs s i) \<noteq> None \<and> pooled \<noteq> None
      else num_computed_tokens (objs s i) < num_tokens (objs s i) + int (length gen)"
  shows "steady (conf s) (objs s' i) \<and> idle_tokens (conf s) (objs s' i)"
proof (cases "gen = []")
  case True
  then have "s' = s" "\<not> (req_pooling_params (objs s i) \<noteq> None \<and> pooled \<noteq> None)" using run by (auto simp: take_output_def retO_def split: if_splits)
  then show ?thesis using n True st unfolding steady_def idle_tokens_def by auto
next
  case False
  then have "append_until_stop env i [] gen s = Some (Inr (toks, False, s'))" using run sync by (simp add: take_output_def update_request_with_output_def)
  from append_until_stop_tokens [OF this ok st] False n show ?thesis by (auto simp: idle_tokens_def)
qed

lemma steady_flags:
  "steady c (r\<lparr>reasoning_ended := b\<rparr>) = steady c r" "idle_tokens c (r\<lparr>reasoning_ended := b\<rparr>) = idle_tokens c r"
  "steady c (r\<lparr>prefill_stats := ps\<rparr>) = steady c r" "idle_tokens c (r\<lparr>prefill_stats := ps\<rparr>) = idle_tokens c r"
  "steady c (r\<lparr>spec_token_ids := sp\<rparr>) = steady c r" "idle_tokens c (r\<lparr>spec_token_ids := sp\<rparr>) = idle_tokens c r"
  "steady c (r\<lparr>num_computed_tokens := k\<rparr>) = steady c r"
  by (simp_all add: steady_def idle_tokens_def num_tokens_def num_output_tokens_def)

lemma should_advance_objs:
  assumes "should_advance env i s = (b, s')" shows "\<exists>x. objs s' i = (objs s i)\<lparr>reasoning_ended := x\<rparr>"
proof -
  have self: "\<exists>x. r = r\<lparr>reasoning_ended := x\<rparr>" for r by (rule exI [of _ "reasoning_ended r"]) simp
  have "s' = s \<or> s' = set_obj i (\<lambda>r. r\<lparr>reasoning_ended := Some True\<rparr>) s"
    using assms by (auto simp: should_advance_def Let_def split: if_splits option.splits)
  then show ?thesis
  proof
    assume "s' = s"
    then show ?thesis using self by simp
  next
    assume "s' = set_obj i (\<lambda>r. r\<lparr>reasoning_ended := Some True\<rparr>) s"
    then have "objs s' i = (objs s i)\<lparr>reasoning_ended := Some True\<rparr>" by simp
    then show ?thesis by blast
  qed
qed

lemma advance_grammar_objs:
  assumes "advance_grammar env i toks stopped s = Inr (stop, s')"
  shows "stop = stopped \<and> (\<exists>b. objs s' i = (objs s i)\<lparr>reasoning_ended := b\<rparr>) \<or> stop"
proof (cases "toks = []")
  case True
  then have "stop = stopped" "objs s' i = (objs s i)\<lparr>reasoning_ended := reasoning_ended (objs s i)\<rparr>" using assms by (simp_all add: advance_grammar_def)
  then show ?thesis by blast
next
  case False
  obtain b s1 where a: "should_advance env i s = (b, s1)" by force
  have "stop = stopped \<and> s' = s1 \<or> stop" using assms False by (auto simp: advance_grammar_def a split: if_splits elim!: bindE_eq_InrE)
  then show ?thesis using should_advance_objs [OF a] by blast
qed

lemma append_until_stop_resumable:
  assumes "append_until_stop env i out ts s = Some (Inr (out', stop, s'))" "hasher_ok env"
  shows "resumable (objs s' i) = resumable (objs s i)"
  using assms
proof (induction ts arbitrary: out s)
  case Nil
  then show ?case by (simp add: retO_def)
next
  case (Cons t ts)
  from Cons.prems(1) obtain r b r1 where a: "append_output_token_ids (env_hasher env) [t] (objs s i) = Some (Inr r)"
    and c: "check_stop r (sc_max_model_len (conf s)) = Inr (b, r1)"
    and k: "(let s1 = set_obj i (\<lambda>_. r1) s in if b then retO (out @ [t], True, s1) else append_until_stop env i (out @ [t]) ts s1) = Some (Inr (out', stop, s'))"
    by (auto simp: bindO_eq_Inr)
  have "resumable r = resumable (objs s i)" using append_token_result [OF a Cons.prems(2)] by auto
  moreover have "resumable r1 = resumable r" using c unfolding check_stop_def by (auto split: option.splits if_split_asm elim!: bindE_eq_InrE)
  ultimately have r1: "resumable (objs (set_obj i (\<lambda>_. r1) s) i) = resumable (objs s i)" by simp
  show ?case
  proof (cases b)
    case True
    then show ?thesis using k r1 by (auto simp: retO_def Let_def)
  next
    case False
    then show ?thesis using k Cons.IH [of "out @ [t]" "set_obj i (\<lambda>_. r1) s"] Cons.prems(2) r1 by (simp add: Let_def)
  qed
qed

lemma stop_not_resumable:
  assumes t: "take_output env i gen pooled s = Some (Inr (toks, stop0, s3))" and g: "advance_grammar env i toks stop0 s3 = Inr (stop, s4)"
    and ok: "hasher_ok env" and sync: "\<not> async_scheduling (conf s)" and r: "\<not> resumable (objs s i)"
  shows "\<not> resumable (objs s4 i)"
proof -
  have "\<not> resumable (objs s3 i)"
  proof (cases "gen = []")
    case True
    then show ?thesis using t r by (auto simp: take_output_def retO_def split: if_splits)
  next
    case False
    then have "append_until_stop env i [] gen s = Some (Inr (toks, stop0, s3))" using t sync by (simp add: take_output_def update_request_with_output_def)
    from append_until_stop_resumable [OF this ok] r show ?thesis by simp
  qed
  then show ?thesis using g by (auto simp: advance_grammar_def should_advance_def Let_def split: if_splits option.splits elim!: bindE_eq_InrE)
qed

lemma free_request_dict:
  assumes "free_request env i False s = Inr s'" shows "requests_dict s' = dict_pop (request_id (objs s i)) (requests_dict s)"
  using assms unfolding free_request_def sched_free_encoder_def sched_free_blocks_def sched_free_kv_def note_finished_def dict_popE_def Let_def
  by (auto elim!: bindE_eq_InrE split: option.splits)

lemma update_one_tokens:
  assumes run: "update_one env so mo rid i u = Some (Inr u')" and ok: "hasher_ok env" and sync: "\<not> async_scheduling (conf (usch u))"
    and i: "dict_get (requests_dict (usch u)) rid = Some i" and nm: "named (requests_dict (usch u)) (objs (usch u))" "unqueued i (usch u)"
    and st: "steady (conf (usch u)) (objs (usch u) i)"
    and sp: "stepped_tokens (conf (usch u)) (drafts_of rid (scheduled_spec_decode_tokens so)) (objs (usch u) i)"
    and fit: "output_fits so mo (usch u) rid"
  shows "dict_get (requests_dict (usch u')) rid = None \<or>
    (requests_dict (usch u') = requests_dict (usch u) \<and> steady (conf (usch u)) (objs (usch u') i) \<and> idle_tokens (conf (usch u)) (objs (usch u') i))"
proof -
  let ?c = "conf (usch u)" and ?r = "objs (usch u) i"
  obtain k gen pooled s2 toks stop0 s3 stop s4 reason u1 lp where
    k: "dict_get (req_id_to_index mo) rid = Some k" "gen_of mo k = Inr gen" "pooled_of mo k = Inr pooled"
    and s2: "objs s2 = objs (set_obj i (reject_drafts (dict_get (scheduled_spec_decode_tokens so) rid) gen) (usch u))"
      "touches i (usch u) s2"
    and 3: "take_output env i gen pooled s2 = Some (Inr (toks, stop0, s3))" and 4: "advance_grammar env i toks stop0 s3 = Inr (stop, s4)"
    and 5: "(if stop then finish_stopped env i (status (objs s2 i)) (u\<lparr>usch := s4\<rparr>) else retO (None, u\<lparr>usch := s4\<rparr>)) = Some (Inr (reason, u1))"
    and 6: "emit_output i rid toks stop pooled lp reason u1 = Inr u'"
    by (rule update_one_inputs [OF run nm(2)])
  note s2 = s2 touchesD(3) [OF s2(2)]
  have un2: "unqueued i s2" using touchesD(6) [OF s2(2)] nm(2) by simp
  have t3: "touches i s2 s3" using take_output_touches [OF 3 ok un2] by simp
  have un3: "unqueued i s3" using touchesD(6) [OF t3] un2 by simp
  have "touches i s3 s4" using advance_grammar_touches [OF 4 un3] by simp
  then have t4: "touches i (usch u) s4" using s2(2) t3 touches_trans by blast
  have rej: "num_output_placeholders ?r = 0" "num_computed_tokens ?r \<le> num_tokens ?r + drafts_of rid (scheduled_spec_decode_tokens so)" "0 < num_tokens ?r"
    using st sp unfolding steady_def stepped_tokens_def by blast+
  obtain kk where o2: "objs s2 i = ?r\<lparr>num_computed_tokens := kk\<rparr>" and g0: "gen = [] \<longrightarrow> kk = num_computed_tokens ?r"
    and g1: "gen \<noteq> [] \<longrightarrow> int (length gen) \<le> 1 + drafts_of rid (scheduled_spec_decode_tokens so) \<longrightarrow> kk < num_tokens ?r + int (length gen)"
    using reject_drafts_result [OF rej, where gen = gen] s2(1) by auto
  have st2: "steady ?c (objs s2 i)" using st by (simp add: o2 steady_flags)
  have nt: "num_tokens (objs s2 i) = num_tokens ?r" by (simp add: o2 num_tokens_def)
  have f: "if gen = [] then num_computed_tokens ?r < num_tokens ?r \<or> req_pooling_params ?r \<noteq> None \<and> pooled \<noteq> None
      else int (length gen) \<le> 1 + drafts_of rid (scheduled_spec_decode_tokens so)" using fit i k unfolding output_fits_def by blast
  have n2: "if gen = [] then num_computed_tokens (objs s2 i) < num_tokens (objs s2 i) \<or> req_pooling_params (objs s2 i) \<noteq> None \<and> pooled \<noteq> None
      else num_computed_tokens (objs s2 i) < num_tokens (objs s2 i) + int (length gen)"
    using f g0 g1 unfolding nt by (simp add: o2 split: if_splits)
  have ri: "request_id ?r = rid" using nm(1) dict_get_SomeD [OF i] by (auto simp: named_def)
  have e: "requests_dict (usch u') = requests_dict (usch u1)" "\<exists>ps. objs (usch u') i = (objs (usch u1) i)\<lparr>prefill_stats := ps\<rparr>"
  proof -
    from emit_output_result(1) [OF 6] have "requests_dict (usch u') = requests_dict (usch u1) \<and> (\<exists>ps. objs (usch u') i = (objs (usch u1) i)\<lparr>prefill_stats := ps\<rparr>)"
    proof (elim disjE exE)
      assume "usch u' = usch u1"
      then show ?thesis by (intro conjI exI [of _ "prefill_stats (objs (usch u1) i)"]) simp_all
    next
      fix ps assume "usch u' = set_obj i (\<lambda>r. r\<lparr>prefill_stats := ps\<rparr>) (usch u1)"
      then show ?thesis by (intro conjI exI [of _ ps]) simp_all
    qed
    then show "requests_dict (usch u') = requests_dict (usch u1)" "\<exists>ps. objs (usch u') i = (objs (usch u1) i)\<lparr>prefill_stats := ps\<rparr>" by blast+
  qed
  show ?thesis
  proof (cases stop)
    case True
    have sync2: "\<not> async_scheduling (conf s2)" using sync s2(3) by simp
    have nr: "\<not> resumable (objs s4 i)" by (rule stop_not_resumable [OF 3 4 ok sync2]) (use st2 in \<open>simp add: steady_def\<close>)
    obtain s5 where h: "handle_stopped_request env i s4 = Some (Inr (True, s4))" and fr: "free_request env i False s4 = Inr s5" and u1: "usch u1 = s5"
      using 5 True nr by (auto simp: finish_stopped_def handle_stopped_request_def bindO_eq_Inr retO_def Let_def split: if_splits)
    have "requests_dict s5 = dict_pop (request_id (objs s4 i)) (requests_dict s4)" by (rule free_request_dict [OF fr])
    then have "requests_dict (usch u') = dict_pop rid (requests_dict (usch u))" using e(1) u1 touchesD(2,8) [OF t4] ri by simp
    then show ?thesis by (simp del: dict_get_eq_None)
  next
    case False
    then have u1: "u1 = u\<lparr>usch := s4\<rparr>" using 5 by (simp add: retO_def)
    have s0: "\<not> stop0" "\<exists>b. objs s4 i = (objs s3 i)\<lparr>reasoning_ended := b\<rparr>" using advance_grammar_objs [OF 4] False by auto
    have "steady (conf s2) (objs s3 i) \<and> idle_tokens (conf s2) (objs s3 i)"
      by (rule take_output_tokens [OF _ ok]) (use 3 s0(1) sync s2(3) st2 n2 in simp_all)
    then have "steady ?c (objs (usch u') i) \<and> idle_tokens ?c (objs (usch u') i)" using e(2) s0(2) s2(3) by (auto simp: u1 steady_flags)
    moreover have "requests_dict s4 = requests_dict (usch u)" by (rule touchesD(2) [OF t4])
    ultimately show ?thesis using e(1) by (simp add: u1)
  qed
qed

text \<open>
  While outputs are taken: requests whose output is still to be taken are pending, the others are
  idle again or are gone.
\<close>

definition taking :: "scheduler_output \<Rightarrow> model_runner_output \<Rightarrow> string list \<Rightarrow> update_vars \<Rightarrow> bool" where
  "taking so mo keys u \<longleftrightarrow> update_ok u \<and> \<not> async_scheduling (conf (usch u)) \<and> named_running keys (usch u)
     \<and> (\<forall>i \<in> snd ` set (requests_dict (usch u)). steady (conf (usch u)) (objs (usch u) i))
     \<and> (\<forall>i \<in> set (still_running u). let r = objs (usch u) i in if request_id r \<in> set keys
          then stepped_tokens (conf (usch u)) (drafts_of (request_id r) (scheduled_spec_decode_tokens so)) r
          else idle_tokens (conf (usch u)) r)
     \<and> (\<forall>rid \<in> set keys. output_fits so mo (usch u) rid)"

lemma takingD:
  assumes "taking so mo keys u"
  shows "update_ok u" "\<not> async_scheduling (conf (usch u))" "named_running keys (usch u)"
    "i \<in> snd ` set (requests_dict (usch u)) \<Longrightarrow> steady (conf (usch u)) (objs (usch u) i)"
    "i \<in> set (still_running u) \<Longrightarrow> request_id (objs (usch u) i) \<in> set keys \<Longrightarrow>
       stepped_tokens (conf (usch u)) (drafts_of (request_id (objs (usch u) i)) (scheduled_spec_decode_tokens so)) (objs (usch u) i)"
    "i \<in> set (still_running u) \<Longrightarrow> request_id (objs (usch u) i) \<notin> set keys \<Longrightarrow> idle_tokens (conf (usch u)) (objs (usch u) i)"
    "rid \<in> set keys \<Longrightarrow> output_fits so mo (usch u) rid"
  using assms unfolding taking_def Let_def by (auto split: if_splits)

lemma update_ok_live:
  assumes "update_ok u"
  shows "named (requests_dict (usch u)) (objs (usch u))" "i \<in> set (still_running u) \<Longrightarrow> i \<in> snd ` set (requests_dict (usch u))"
    "dict_get (requests_dict (usch u)) rid = Some i \<Longrightarrow> status (objs (usch u) i) = RUNNING \<Longrightarrow> i \<in> set (still_running u) \<and> unqueued i (usch u)"
proof -
  have p: "placed {#} ((usch u)\<lparr>running := still_running u\<rparr>)" using assms by (simp add: update_ok_def)
  show "named (requests_dict (usch u)) (objs (usch u))" using placedD(1) [OF p] by simp
  show "i \<in> snd ` set (requests_dict (usch u))" if "i \<in> set (still_running u)" using running_live [OF p, of i] that by simp
  show "i \<in> set (still_running u) \<and> unqueued i (usch u)"
    if "dict_get (requests_dict (usch u)) rid = Some i" "status (objs (usch u) i) = RUNNING"
    using running_unqueued [OF p, of rid i] that by (simp add: unqueued_def)
qed

lemma taking_step:
  assumes run: "update_one env so mo rid i u = Some (Inr u')" and ok: "hasher_ok env" and t: "taking so mo (rid # keys) u"
    and i: "dict_get (requests_dict (usch u)) rid = Some i" and fresh: "rid \<notin> set keys"
  shows "taking so mo keys u'"
proof -
  note d = takingD [OF t]
  have st: "status (objs (usch u) i) = RUNNING" using d(3) i by (auto simp: named_running_def)
  note lv = update_ok_live [OF d(1)]
  have iR: "i \<in> set (still_running u)" "unqueued i (usch u)" using lv(3) [OF i st] by simp_all
  have ri: "request_id (objs (usch u) i) = rid" using lv(1) dict_get_SomeD [OF i] by (auto simp: named_def)
  note up = update_one_ok [OF run ok d(1) i st]
  have sp: "stepped_tokens (conf (usch u)) (drafts_of rid (scheduled_spec_decode_tokens so)) (objs (usch u) i)" using d(5) [OF iR(1)] ri by simp
  note tk = update_one_tokens [OF run ok d(2) i lv(1) iR(2) d(4) [OF lv(2) [OF iR(1)]] sp d(7)]
  note lv' = update_ok_live [OF up(1)]
  have o: "conf (usch u') = conf (usch u)" "set (requests_dict (usch u')) \<subseteq> set (requests_dict (usch u))"
    "\<And>j. j \<noteq> i \<Longrightarrow> objs (usch u') j = objs (usch u) j" using up(2) by (auto simp: others_same_def)
  have gone: "j \<noteq> i" if j: "j \<in> snd ` set (requests_dict (usch u'))" and n: "dict_get (requests_dict (usch u')) rid = None" for j
  proof
    assume "j = i"
    then obtain r where r: "(r, i) \<in> set (requests_dict (usch u'))" using j by force
    then have "r = rid" using o(2) lv(1) ri by (auto simp: named_def)
    then show False using r n by force
  qed
  have live: "j \<noteq> i \<or> steady (conf (usch u)) (objs (usch u') i) \<and> idle_tokens (conf (usch u)) (objs (usch u') i)"
    if "j \<in> snd ` set (requests_dict (usch u'))" for j using tk gone [OF that] by auto
  have old: "dict_get (requests_dict (usch u)) r = Some j" if "dict_get (requests_dict (usch u')) r = Some j" for r j
  proof -
    have "(r, j) \<in> set (requests_dict (usch u))" using dict_get_SomeD [OF that] o(2) by blast
    then show ?thesis using lv(1) by (simp add: named_def dict_get_wf)
  qed
  have ne: "j \<noteq> i" if "r \<in> set keys" "dict_get (requests_dict (usch u')) r = Some j" for r j
  proof
    assume "j = i"
    then have "(r, i) \<in> set (requests_dict (usch u))" using dict_get_SomeD [OF that(2)] o(2) by blast
    then have "r = rid" using lv(1) ri by (auto simp: named_def)
    then show False using that(1) fresh by simp
  qed
  show ?thesis unfolding taking_def
  proof (intro conjI ballI)
    show "update_ok u'" "\<not> async_scheduling (conf (usch u'))" using up(1) d(2) o(1) by simp_all
    show "named_running keys (usch u')" using d(3) old ne o(3) unfolding named_running_def by (metis list.set_intros(2))
    show "steady (conf (usch u')) (objs (usch u') j)" if "j \<in> snd ` set (requests_dict (usch u'))" for j
    proof (cases "j = i")
      case True
      then show ?thesis using live [OF that] o(1) by simp
    next
      case False
      have "j \<in> snd ` set (requests_dict (usch u))" using that o(2) by blast
      then show ?thesis using d(4) False o by simp
    qed
    show "let r = objs (usch u') j in if request_id r \<in> set keys
          then stepped_tokens (conf (usch u')) (drafts_of (request_id r) (scheduled_spec_decode_tokens so)) r
          else idle_tokens (conf (usch u')) r" if j: "j \<in> set (still_running u')" for j
    proof (cases "j = i")
      case True
      have "i \<in> snd ` set (requests_dict (usch u'))" using lv'(2) j True by blast
      then have "idle_tokens (conf (usch u)) (objs (usch u') i)" "request_id (objs (usch u') i) = rid"
        using live lv'(1) o(2) lv(1) ri by (blast, force simp: named_def)
      then show ?thesis using True fresh o(1) by simp
    next
      case False
      have p: "placed {#} ((usch u)\<lparr>running := still_running u\<rparr>)" using d(1) by (simp add: update_ok_def)
      have p': "placed {#} ((usch u')\<lparr>running := still_running u'\<rparr>)" using up(1) by (simp add: update_ok_def)
      have jl: "j \<in> snd ` set (requests_dict (usch u))" using lv'(2) [OF j] o(2) by blast
      have "status (objs (usch u) j) = RUNNING" using placedD(5) [OF p', of j] j o(3) [OF False] by simp
      then have js: "j \<in> set (still_running u)" using lv(3) [of _ j] namedD [OF lv(1) jl] by blast
      have "request_id (objs (usch u) j) \<noteq> rid"
      proof
        assume "request_id (objs (usch u) j) = rid"
        then show False using namedD [OF lv(1) jl] i False by simp
      qed
      then show ?thesis using d(5,6) [OF js] o False by (simp add: Let_def)
    qed
    show "output_fits so mo (usch u') r" if "r \<in> set keys" for r
    proof -
      have "output_fits so mo (usch u) r" by (rule d(7)) (use that in simp)
      then show ?thesis using old ne [OF that] o(3) unfolding output_fits_def by metis
    qed
  qed
qed

lemma taking_skip: "taking so mo (rid # keys) u \<Longrightarrow> dict_get (requests_dict (usch u)) rid = None \<Longrightarrow> taking so mo keys u"
proof -
  assume t: "taking so mo (rid # keys) u" and n: "dict_get (requests_dict (usch u)) rid = None"
  note d = takingD [OF t]
  note lv = update_ok_live [OF d(1)]
  have "request_id (objs (usch u) i) \<noteq> rid" if "i \<in> set (still_running u)" for i
    using namedD [OF lv(1) lv(2) [OF that]] n by (auto simp del: dict_get_eq_None)
  then have "let r = objs (usch u) i in if request_id r \<in> set keys
          then stepped_tokens (conf (usch u)) (drafts_of (request_id r) (scheduled_spec_decode_tokens so)) r
          else idle_tokens (conf (usch u)) r" if "i \<in> set (still_running u)" for i
    using d(5,6) [OF that] that by (simp add: Let_def)
  then show ?thesis using d(1-4,7) unfolding taking_def by (simp add: named_running_def)
qed

lemma taking_fold:
  assumes "foldO (update_step env so mo) xs u = Some (Inr u')" "hasher_ok env" "taking so mo (map fst xs) u" "distinct (map fst xs)"
  shows "taking so mo [] u' \<and> running (usch u') = running (usch u) \<and> conf (usch u') = conf (usch u)
     \<and> search_ok (kv_manager (usch u')) = search_ok (kv_manager (usch u))"
  using assms
proof (induction xs arbitrary: u)
  case Nil
  then show ?case by (simp add: retO_def)
next
  case (Cons x xs)
  let ?rid = "fst x"
  from Cons.prems(1) obtain u1 where 1: "update_step env so mo x u = Some (Inr u1)" and 2: "foldO (update_step env so mo) xs u1 = Some (Inr u')"
    by (auto simp: bindO_eq_Inr)
  have d: "distinct (map fst xs)" "?rid \<notin> set (map fst xs)" and t: "taking so mo (?rid # map fst xs) u"
    using Cons.prems(3,4) by auto
  have "taking so mo (map fst xs) u1 \<and> running (usch u1) = running (usch u) \<and> conf (usch u1) = conf (usch u)
     \<and> search_ok (kv_manager (usch u1)) = search_ok (kv_manager (usch u))"
  proof (cases "dict_get (requests_dict (usch u)) ?rid")
    case None
    then have "u1 = u" using 1 unfolding update_step_def by (auto simp: bindO_eq_Inr retO_def simp del: dict_get_eq_None)
    then show ?thesis using taking_skip [OF t None] by simp
  next
    case (Some i)
    have st: "status (objs (usch u) i) = RUNNING" using takingD(3) [OF t] Some by (simp add: named_running_def)
    then have o: "update_one env so mo ?rid i u = Some (Inr u1)"
      using 1 Some unfolding update_step_def by (simp add: bindO_eq_Inr is_finished_def)
    show ?thesis using taking_step [OF o Cons.prems(2) t Some d(2)] update_one_ok(2) [OF o Cons.prems(2) takingD(1) [OF t] Some st]
      by (simp add: others_same_def)
  qed
  then show ?case using Cons.IH [OF 2 Cons.prems(2) _ d(1)] by simp
qed

text \<open>When the whole output is taken, every request is idle again.\<close>

lemma update_from_output_calm:
  assumes run: "update_from_output env so mo s = Some (Inr (outs, evs, s'))" and ok: "hasher_ok env" and st: "stepped so s"
    and fit: "\<And>rid. rid \<in> set (map fst (num_scheduled_tokens so)) \<Longrightarrow> output_fits so mo s rid"
  shows "calm s'" "conf s' = conf s" "set (running s') \<subseteq> set (running s)"
proof -
  let ?u0 = "\<lparr>usch = s, stopped_running = [], stopped_preempted = [], eouts = []\<rparr>" and ?keys = "map fst (num_scheduled_tokens so)"
  from run obtain u where u: "foldO (update_step env so mo) (num_scheduled_tokens so) ?u0 = Some (Inr u)"
    and r: "(let s1 = remove_stopped u; (evs, km) = km_take_events (kv_manager s1);
           (os, s2) = collect_outputs (eouts u) (s1\<lparr>kv_manager := km\<rparr>) in retO (os, evs, s2)) = Some (Inr (outs, evs, s'))"
    unfolding update_from_output_def by (auto simp: bindO_eq_Inr)
  have se: "settled s" and dw: "distinct ?keys" and pe: "pending so ?keys s" using st by (simp_all add: stepped_def dict_wf_def)
  note d = settledD [OF se]
  have "update_ok ?u0" using d(1) placed_disjoint(1) [OF d(1)] by (simp add: update_ok_def still_running_def)
  then have "taking so mo ?keys ?u0" using d(5,7) pe fit unfolding taking_def pending_def by (simp add: still_running_def cong: if_cong)
  from taking_fold [OF u ok this dw] have t: "taking so mo [] u" and same: "running (usch u) = running s" "conf (usch u) = conf s"
    "search_ok (kv_manager (usch u)) = search_ok (kv_manager s)" by simp_all
  note td = takingD [OF t]
  have rs: "remove_stopped u = (usch u)\<lparr>running := still_running u\<rparr>"
    using td(1) by (auto simp: remove_stopped_def Let_def update_ok_def still_running_def remove_all_filter)
  obtain e km where ev: "km_take_events (kv_manager (usch u)) = (e, km)" by force
  have km: "search_ok km" using search_ok_frame [OF take_events_frame [OF ev]] same(3) d(6) by simp
  obtain fr where s': "s' = (usch u)\<lparr>running := still_running u, kv_manager := km, finished_req_ids_dict := fr\<rparr>"
  proof -
    obtain os s2 where co: "collect_outputs (eouts u) ((usch u)\<lparr>running := still_running u, kv_manager := km\<rparr>) = (os, s2)" by force
    have "s' = s2" using r by (simp add: rs Let_def ev co retO_def)
    moreover have "\<exists>fr. s2 = (usch u)\<lparr>running := still_running u, kv_manager := km, finished_req_ids_dict := fr\<rparr>"
    proof (cases "finished_req_ids_dict (usch u)")
      case None
      then have "s2 = (usch u)\<lparr>running := still_running u, kv_manager := km, finished_req_ids_dict := None\<rparr>"
        using co by (auto simp: collect_outputs_def)
      then show ?thesis by blast
    next
      case (Some x)
      then have "s2 = (usch u)\<lparr>running := still_running u, kv_manager := km, finished_req_ids_dict := Some []\<rparr>"
        using co by (simp add: collect_outputs_def Let_def)
      then show ?thesis by blast
    qed
    ultimately show thesis using that by blast
  qed
  have p: "placed {#} s'" using td(1) by (simp add: s' update_ok_def)
  have sub: "set (still_running u) \<subseteq> set (running s)" and len: "length (still_running u) \<le> length (running s)"
    using same(1) by (auto simp: still_running_def)
  have "settled s'" using d(2-5) p same(2) km td(4) len by (simp add: s' settled_def)
  moreover have "idle_running s'" using td(6) same(2) by (simp add: s' idle_running_def)
  ultimately show "calm s'" by (simp add: calm_def)
  show "conf s' = conf s" "set (running s') \<subseteq> set (running s)" using same(2) sub by (simp_all add: s')
qed

end
