(* ===== verification/Engine_Core.thy ===== *)
theory Engine_Core
  imports Scheduler_Update
begin

text \<open>
  The engine's inner loop around the scheduler (\<open>vllm/v1/engine/core.py\<close>): one step schedules a
  batch, runs the model and takes the model's output; with a batch queue several batches are in
  flight. Then adding and aborting requests, pausing and resetting.

  The model executor is a parameter: \<open>ex_run\<close> gives the output of the model for a batch and the
  requests of the grammar bitmask, or an exception. What else comes from outside while a step runs is
  an argument of it: aborts from the input thread, whether the oldest batch is done, and draft
  tokens. Logging, statistics, profiling and the physical caches of the workers are left out.
\<close>

section \<open>State\<close>

record executor =
  ex_run :: "scheduler_output \<Rightarrow> string list option \<Rightarrow> model_runner_output result"
  ex_tasks :: "string list"

text \<open>
  A batch in flight is what was scheduled with its grammar rows; the newest is first. The futures of
  the code stand for the output of the executor on it.
\<close>

type_synonym batch = "scheduler_output \<times> string list option"
type_synonym client_outputs = "(int \<times> engine_core_outputs) list"

type_synonym drafts = "(string list \<times> int list list) option"

record step_events =
  late_aborts :: "string list list"
  oldest_done :: bool
  deferred_drafts :: drafts
  proposed_drafts :: drafts

record engine =
  eng_sched :: scheduler
  aborts_queue :: "string list list"
  batch_queue :: "batch list option"
  batch_queue_size :: int
  use_spec_decode :: bool
  eng_async_scheduling :: bool
  is_ec_consumer :: bool
  is_pooling_model :: bool
  published_events :: "kv_event list"

text \<open>\<open>id_order\<close> is the order in which a set of request ids is iterated.\<close>

record engine_env =
  senv :: sched_env
  exec :: executor
  id_order :: "string set \<Rightarrow> string list"

definition engine_init :: "scheduler \<Rightarrow> int \<Rightarrow> bool \<Rightarrow> bool \<Rightarrow> bool \<Rightarrow> bool \<Rightarrow> engine" where
  "engine_init s max_batches spec async consumer pooling =
     \<lparr>eng_sched = s, aborts_queue = [], batch_queue = (if 1 < max_batches then Some [] else None),
      batch_queue_size = max_batches, use_spec_decode = spec, eng_async_scheduling = async,
      is_ec_consumer = consumer, is_pooling_model = pooling, published_events = []\<rparr>"

section \<open>Adding and aborting requests\<close>

definition POOLING_TASKS :: "string list" where
  "POOLING_TASKS = [''embed'', ''classify'', ''token_embed'', ''token_classify'', ''plugin'', ''embed&token_classify'']"

definition eng_add_request :: "engine_env \<Rightarrow> request \<Rightarrow> 'a engine_scheme \<Rightarrow> 'a engine_scheme io" where
  "eng_add_request env r e =
     bindO (Some (case req_pooling_params r of
              None \<Rightarrow> Inr ()
            | Some pp \<Rightarrow> guardE (\<exists>t \<in> set (filter (\<lambda>t. t \<in> set POOLING_TASKS) (ex_tasks (exec env))). pp_task pp = Some t) ValueError)) (\<lambda>_.
     bindO (add_request (senv env) r (eng_sched e)) (\<lambda>s. retO (e\<lparr>eng_sched := s\<rparr>)))"

definition abort_requests :: "engine_env \<Rightarrow> string list \<Rightarrow> 'a engine_scheme \<Rightarrow> 'a engine_scheme result" where
  "abort_requests env ids e =
     bindE (finish_requests (senv env) (Id_set (id_order env (set ids))) FINISHED_ABORTED (eng_sched e)) (\<lambda>(_, s).
       Inr (e\<lparr>eng_sched := s\<rparr>))"

definition process_aborts_queue :: "engine_env \<Rightarrow> 'a engine_scheme \<Rightarrow> 'a engine_scheme result" where
  "process_aborts_queue env e =
     (if aborts_queue e = [] then Inr e
      else abort_requests env (concat (aborts_queue e)) (e\<lparr>aborts_queue := []\<rparr>))"

section \<open>A step\<close>

text \<open>The part that both kinds of step share: the model's output, late aborts, and the update.\<close>

definition take_model_output ::
  "engine_env \<Rightarrow> batch \<Rightarrow> string list list \<Rightarrow> 'a engine_scheme \<Rightarrow> (client_outputs \<times> 'a engine_scheme) io" where
  "take_model_output env b late e =
     bindO (Some (ex_run (exec env) (fst b) (snd b))) (\<lambda>mo.
     bindO (Some (process_aborts_queue env (e\<lparr>aborts_queue := aborts_queue e @ late\<rparr>))) (\<lambda>e1.
     bindO (update_from_output (senv env) (fst b) mo (eng_sched e1)) (\<lambda>(outs, evs, s).
       retO (outs, e1\<lparr>eng_sched := s, published_events := published_events e1 @ evs\<rparr>))))"

definition eng_step ::
  "engine_env \<Rightarrow> step_events \<Rightarrow> 'a engine_scheme \<Rightarrow> (client_outputs \<times> bool \<times> 'a engine_scheme) io" where
  "eng_step env ev e =
     (if \<not> has_requests (eng_sched e) then retO ([], False, e)
      else bindO (schedule (senv env) (eng_sched e)) (\<lambda>(so, s).
           bindO (take_model_output env (so, get_grammar_bitmask_ids so s) (late_aborts ev) (e\<lparr>eng_sched := s\<rparr>)) (\<lambda>(outs, e1).
             retO (outs, 0 < total_num_scheduled_tokens so, e1))))"

definition post_step :: "engine_env \<Rightarrow> step_events \<Rightarrow> bool \<Rightarrow> 'a engine_scheme \<Rightarrow> 'a engine_scheme" where
  "post_step env ev model_executed e =
     (if \<not> eng_async_scheduling e \<and> use_spec_decode e \<and> model_executed
      then case proposed_drafts ev of
             None \<Rightarrow> e
           | Some (ids, drafts) \<Rightarrow> e\<lparr>eng_sched := update_draft_token_ids (senv env) ids drafts (eng_sched e)\<rparr>
      else e)"

section \<open>A step with a batch queue\<close>

text \<open>
  What follows after scheduling: return at once, as the queue has room, or wait for the oldest
  batch, with sampling of the new one deferred or not.
\<close>

record batch_plan =
  plan_executed :: bool
  plan_deferred :: "scheduler_output option"
  plan_returns :: bool

definition schedule_batch ::
  "engine_env \<Rightarrow> step_events \<Rightarrow> batch list \<Rightarrow> 'a engine_scheme \<Rightarrow> (batch_plan \<times> batch list \<times> 'a engine_scheme) io" where
  "schedule_batch env ev q e =
     bindO (schedule (senv env) (eng_sched e)) (\<lambda>(so, s).
       let executed = is_ec_consumer e \<and> 0 < total_num_scheduled_tokens so;
           plain = is_pooling_model e \<or> \<not> executed;
           deferred = \<not> plain \<and> pending_structured_output_tokens so;
           mask = (if plain then None else get_grammar_bitmask_ids so s);
           q1 = (if deferred then q else (so, mask) # q)
       in retO (\<lparr>plan_executed = executed, plan_deferred = (if deferred then Some so else None),
                 plan_returns = \<not> deferred \<and> executed \<and> int (length q1) < batch_queue_size e \<and> \<not> oldest_done ev\<rparr>,
                q1, e\<lparr>eng_sched := s, batch_queue := Some q1\<rparr>))"

definition queue_deferred ::
  "engine_env \<Rightarrow> step_events \<Rightarrow> scheduler_output \<Rightarrow> batch list \<Rightarrow> 'a engine_scheme \<Rightarrow> 'a engine_scheme result" where
  "queue_deferred env ev so q e =
     bindE (if use_spec_decode e
            then case deferred_drafts ev of
                   None \<Rightarrow> Inl AssertionError
                 | Some (ids, drafts) \<Rightarrow> Inr (update_draft_token_ids_in_output (senv env) ids drafts so (eng_sched e))
            else Inr (so, eng_sched e)) (\<lambda>(so1, s).
       Inr (e\<lparr>eng_sched := s, batch_queue := Some ((so1, get_grammar_bitmask_ids so1 s) # q)\<rparr>))"

definition finish_batch ::
  "engine_env \<Rightarrow> batch_plan \<Rightarrow> step_events \<Rightarrow> batch list \<Rightarrow> 'a engine_scheme
     \<Rightarrow> (client_outputs option \<times> bool \<times> 'a engine_scheme) io" where
  "finish_batch env plan ev q e =
     bindO (Some (if q = [] then Inl IndexError else Inr (last q))) (\<lambda>b.
     bindO (take_model_output env b (late_aborts ev) (e\<lparr>batch_queue := Some (butlast q)\<rparr>)) (\<lambda>(outs, e1).
     bindO (Some (case plan_deferred plan of
              None \<Rightarrow> Inr e1
            | Some so \<Rightarrow> queue_deferred env ev so (butlast q) e1)) (\<lambda>e2.
       retO (Some outs, plan_executed plan, e2))))"

definition eng_step_with_batch_queue ::
  "engine_env \<Rightarrow> step_events \<Rightarrow> 'a engine_scheme \<Rightarrow> (client_outputs option \<times> bool \<times> 'a engine_scheme) io" where
  "eng_step_with_batch_queue env ev e =
     (case batch_queue e of
        None \<Rightarrow> Some (Inl AssertionError)
      | Some q \<Rightarrow>
          bindO (Some (guardE (int (length q) < batch_queue_size e) AssertionError)) (\<lambda>_.
            if has_requests (eng_sched e)
            then bindO (schedule_batch env ev q e) (\<lambda>(plan, q1, e1).
                   if plan_returns plan then retO (None, True, e1) else finish_batch env plan ev q1 e1)
            else if q = [] then retO (None, False, e)
            else finish_batch env \<lparr>plan_executed = False, plan_deferred = None, plan_returns = False\<rparr> ev q e))"

section \<open>Resets and pausing\<close>

definition eng_reset_prefix_cache :: "engine_env \<Rightarrow> bool \<Rightarrow> bool \<Rightarrow> 'a engine_scheme \<Rightarrow> (bool \<times> 'a engine_scheme) result" where
  "eng_reset_prefix_cache env reset_running reset_connector e =
     bindE (sched_reset_prefix_cache (senv env) reset_running reset_connector (eng_sched e)) (\<lambda>(ok, s).
       Inr (ok, e\<lparr>eng_sched := s\<rparr>))"

definition eng_reset_encoder_cache :: "'a engine_scheme \<Rightarrow> 'a engine_scheme" where
  "eng_reset_encoder_cache e = e\<lparr>eng_sched := reset_encoder_cache (eng_sched e)\<rparr>"

definition reset_caches :: "engine_env \<Rightarrow> 'a engine_scheme \<Rightarrow> 'a engine_scheme result" where
  "reset_caches env e =
     bindE (eng_reset_prefix_cache env True False e) (\<lambda>(_, e1). Inr (eng_reset_encoder_cache e1))"

text \<open>Pausing in the same process cannot wait for the requests that run.\<close>

definition pause_of_mode :: "string \<Rightarrow> pause_state" where
  "pause_of_mode mode = (if mode = ''keep'' then PAUSED_ALL else PAUSED_NEW)"

definition abort_all :: "engine_env \<Rightarrow> 'a engine_scheme \<Rightarrow> ((string \<times> int) list \<times> 'a engine_scheme) result" where
  "abort_all env e =
     bindE (finish_requests (senv env) Every_id FINISHED_ABORTED (eng_sched e)) (\<lambda>(out, s). Inr (out, e\<lparr>eng_sched := s\<rparr>))"

definition eng_pause_scheduler :: "engine_env \<Rightarrow> string \<Rightarrow> bool \<Rightarrow> 'a engine_scheme \<Rightarrow> 'a engine_scheme result" where
  "eng_pause_scheduler env mode clear_cache e =
     bindE (guardE (mode \<in> {''keep'', ''abort'', ''wait''}) ValueError) (\<lambda>_.
     bindE (guardE (mode \<noteq> ''wait'') ValueError) (\<lambda>_.
     bindE (if mode = ''abort'' then bindE (abort_all env e) (\<lambda>(_, e1). Inr e1) else Inr e) (\<lambda>e1.
       let e2 = e1\<lparr>eng_sched := set_pause_state (pause_of_mode mode) (eng_sched e1)\<rparr>
       in if clear_cache then reset_caches env e2 else Inr e2)))"

definition eng_resume_scheduler :: "'a engine_scheme \<Rightarrow> 'a engine_scheme" where
  "eng_resume_scheduler e = e\<lparr>eng_sched := set_pause_state UNPAUSED (eng_sched e)\<rparr>"

definition is_scheduler_paused :: "'a engine_scheme \<Rightarrow> bool" where
  "is_scheduler_paused e \<longleftrightarrow> pause_state (eng_sched e) \<noteq> UNPAUSED"

end
