(* ===== verification/Engine_Safety.thy ===== *)
theory Engine_Safety
  imports Token_Update Engine_Core
begin

text \<open>
  The synchronous engine as a state machine: what its callers and its own loop may do, and what then
  holds in every state it reaches. Requests are not streaming sessions, the batch queue is not used,
  and the model runner returns what it promises for the batch.
\<close>

section \<open>The other operations keep a calm state\<close>

text \<open>Operations that leave requests, places and token counts as they are.\<close>

definition counts_same :: "scheduler \<Rightarrow> scheduler \<Rightarrow> bool" where
  "counts_same s s' \<longleftrightarrow> (\<forall>c i. steady c (objs s' i) = steady c (objs s i) \<and> idle_tokens c (objs s' i) = idle_tokens c (objs s i))"

lemma counts_same_refl: "counts_same s s"
  by (simp add: counts_same_def)

lemma counts_same_trans: "counts_same s s1 \<Longrightarrow> counts_same s1 s2 \<Longrightarrow> counts_same s s2"
  by (simp add: counts_same_def)

lemma counts_same_set_obj:
  "(\<And>c. steady c (f (objs s i)) = steady c (objs s i) \<and> idle_tokens c (f (objs s i)) = idle_tokens c (objs s i)) \<Longrightarrow> counts_same s (set_obj i f s)"
  by (simp add: counts_same_def)

lemma spec_counts [simp]:
  "steady c (r\<lparr>spec_token_ids := ts\<rparr>) = steady c r" "idle_tokens c (r\<lparr>spec_token_ids := ts\<rparr>) = idle_tokens c r"
  "steady c (r\<lparr>reasoning_ended := b\<rparr>) = steady c r" "idle_tokens c (r\<lparr>reasoning_ended := b\<rparr>) = idle_tokens c r"
  by (simp_all add: steady_def idle_tokens_def num_tokens_def num_output_tokens_def)

lemma should_advance_counts: "should_advance env i s = (b, s') \<Longrightarrow> counts_same s s'"
  by (auto simp: should_advance_def Let_def counts_same_refl split: if_split_asm option.splits intro!: counts_same_set_obj)

lemma update_draft_counts: "counts_same s (update_draft_token_ids env ids drafts s)"
proof -
  have one: "counts_same s (update_draft_step env x s)" for x s
  proof (cases "dict_get (requests_dict s) (fst x)")
    case None
    then show ?thesis by (simp add: update_draft_step_def counts_same_refl del: dict_get_eq_None)
  next
    case (Some i)
    obtain b s1 where a: "should_advance env i s = (b, s1)" by force
    have set: "counts_same t (set_obj i (\<lambda>r. r\<lparr>spec_token_ids := ts\<rparr>) t)" for ts t by (rule counts_same_set_obj) simp
    then show ?thesis using counts_same_trans [OF should_advance_counts [OF a]] a Some
      by (simp add: update_draft_step_def Let_def counts_same_refl)
  qed
  have "counts_same s (fold (update_draft_step env) xs s)" for xs s
    by (induction xs arbitrary: s) (auto intro: counts_same_refl counts_same_trans one)
  then show ?thesis by (simp add: update_draft_token_ids_def)
qed

lemma advanced_calm:
  assumes "advanced s s'" "counts_same s s'" "calm s" shows "calm s'"
  using assms unfolding calm_def settled_def idle_running_def counts_same_def advanced_def by (auto; fail)

text \<open>Preempting keeps what is steady, and no request is left running.\<close>

lemma preempt_steady:
  assumes "preempt_last_step env i s = Inr s'" "steady c (objs s j)" shows "steady c (objs s' j)"
proof -
  from assms(1) obtain s1 where s1: "preempt_request env i (s\<lparr>running := butlast (running s)\<rparr>) = Inr s1"
    and s': "s' = set_obj i (\<lambda>r. r\<lparr>num_output_placeholders := 0, discard_latest_async_tokens := True\<rparr>) s1"
    by (auto simp: preempt_last_step_def elim!: bindE_eq_InrE)
  have "same_request (objs s j) (objs s1 j)" using preempt_request_frame [OF s1] by (simp add: step_frame_def)
  then have "steady c (objs s1 j)" using same_request_steady assms(2) by blast
  then show ?thesis by (cases "j = i") (simp_all add: s' steady_def num_tokens_def num_output_tokens_def)
qed

lemma preempt_all_steady:
  assumes run: "preempt_all env s = Inr s'" and st: "steady c (objs s j)" shows "steady c (objs s' j)"
proof -
  obtain s1 where f: "foldE (preempt_last_step env) (rev (running s)) s = Inr s1" and s': "s' = s1\<lparr>prev_step_scheduled_req_ids := {}\<rparr>"
    using run by (auto simp: preempt_all_def elim!: bindE_eq_InrE)
  have "steady c (objs s1 j)"
    by (rule foldE_invariant [OF f, where P = "\<lambda>s. steady c (objs s j)"]) (use st preempt_steady in blast)+
  then show ?thesis by (simp add: s')
qed

lemma reset_prefix_objs:
  assumes "sched_reset_prefix_cache env rr rcn s = Inr (b, s')"
  obtains s1 where "(if rr then preempt_all env s else Inr s) = Inr s1" "objs s' = objs s1" "running s' = running s1"
proof -
  from assms obtain s1 y where y: "(if rr then preempt_all env s else Inr s) = Inr s1"
    "(case y of (ok, km) \<Rightarrow> if rr \<and> \<not> ok then Inl RuntimeError else Inr (ok \<and> \<not> rcn, s1\<lparr>kv_manager := km\<rparr>)) = Inr (b, s')"
    unfolding sched_reset_prefix_cache_def by (elim bindE_eq_InrE) blast
  obtain ok km where yy: "y = (ok, km)" by force
  have "s' = s1\<lparr>kv_manager := km\<rparr>" using y(2) unfolding yy by (cases "rr \<and> \<not> ok") auto
  then show thesis using y(1) that by simp
qed

lemma reset_prefix_calm:
  assumes run: "sched_reset_prefix_cache env rr rcn s = Inr (b, s')" and c: "calm s" shows "calm s'"
proof -
  have se: "settled s" and idle: "idle_running s" using c by (simp_all add: calm_def)
  note d = settledD [OF se]
  note p = reset_prefix_places [OF run d(1)]
  obtain s1 where s1: "(if rr then preempt_all env s else Inr s) = Inr s1" "objs s' = objs s1" "running s' = running s1"
    by (rule reset_prefix_objs [OF run])
  have "steady (conf s) (objs s' i)" if "i \<in> snd ` set (requests_dict s)" for i
    using d(7) [OF that] s1 preempt_all_steady by (cases rr) auto
  moreover have "running s' = (if rr then [] else running s)" "rr \<or> objs s' = objs s" using p(3) s1 by auto
  ultimately show ?thesis using d p idle by (auto simp: calm_def settled_def idle_running_def)
qed

text \<open>A new request waits, with its counts in order.\<close>

definition fresh_request :: "request \<Rightarrow> scheduler \<Rightarrow> bool" where
  "fresh_request r s \<longleftrightarrow> addable r s \<and> dict_get (requests_dict s) (request_id r) = None \<and> steady (conf s) r"

lemma add_request_calm:
  assumes run: "add_request env r s = Some (Inr s')" and new: "fresh_request r s" and c: "calm s" shows "calm s'"
proof -
  have ad: "addable r s" and no: "dict_get (requests_dict s) (request_id r) = None" and st: "steady (conf s) r"
    using new by (simp_all add: fresh_request_def)
  have se: "settled s" and idle: "idle_running s" using c by (simp_all add: calm_def)
  note d = settledD [OF se]
  have nr: "\<not> resumable r" using st by (simp add: steady_def)
  let ?s1 = "s\<lparr>objs := (objs s)(obj_id r := r)\<rparr>"
  have s': "s' = (enqueue_waiting_request (obj_id r) ?s1)\<lparr>requests_dict := dict_set (request_id r) (obj_id r) (requests_dict s)\<rparr>"
    using run no nr by (simp add: add_request_def retO_def enqueue_waiting_request_def Let_def split: if_splits)
  have f: "conf s' = conf s" "running s' = running s" "kv_manager s' = kv_manager s" "objs s' = (objs s)(obj_id r := r)"
    "requests_dict s' = requests_dict s @ [(request_id r, obj_id r)]"
    by (simp_all add: s' enqueue_waiting_request_def Let_def dict_set_new [OF no])
  have "placed {#} s'" by (rule add_new_placed [OF d(1) ad no run])
  moreover have "steady (conf s') (objs s' i)" if "i \<in> snd ` set (requests_dict s')" for i using that d(7) st by (auto simp: f)
  moreover have "i \<noteq> obj_id r" if "i \<in> set (running s)" for i using running_live [OF d(1) that] ad unfolding addable_def by blast
  then have "idle_running s'" using idle by (auto simp: idle_running_def f)
  ultimately show ?thesis using d by (simp add: calm_def settled_def f)
qed

lemma set_pause_calm: "calm s \<Longrightarrow> calm (set_pause_state p s)"
  by (simp add: calm_def settled_def idle_running_def set_pause_state_def placed_def)

lemma reset_encoder_calm: "calm s \<Longrightarrow> calm (reset_encoder_cache s)"
  by (simp add: calm_def settled_def idle_running_def reset_encoder_cache_def placed_def)

lemma init_calm:
  assumes "config_ok c" "0 \<le> max_num_scheduled_tokens c" "0 \<le> max_num_running_reqs c" "\<not> async_scheduling c" "search_ok km"
  shows "calm (scheduler_init ob c km n fs)"
  using assms by (cases "sched_policy c")
    (simp_all add: calm_def settled_def idle_running_def scheduler_init_def placed_def named_def dict_wf_def copies_ok_def create_request_queue_def)

section \<open>Taking the model's output in a step\<close>

text \<open>What the model runner promises for the batch it is given.\<close>

definition runner_fits :: "engine_env \<Rightarrow> scheduler \<Rightarrow> bool" where
  "runner_fits env s \<longleftrightarrow> (\<forall>so s1 mo. schedule (senv env) s = Some (Inr (so, s1))
     \<longrightarrow> ex_run (exec env) so (get_grammar_bitmask_ids so s1) = Inr mo
     \<longrightarrow> (\<forall>rid \<in> set (map fst (num_scheduled_tokens so)). output_fits so mo s1 rid))"

definition order_ok :: "engine_env \<Rightarrow> bool" where
  "order_ok env \<longleftrightarrow> (\<forall>A. distinct (id_order env A) \<and> (finite A \<longrightarrow> set (id_order env A) = A))"

lemma process_aborts_stepped:
  assumes run: "process_aborts_queue env e = Inr e'" and o: "order_ok env" and st: "stepped so (eng_sched e)"
  shows "stepped so (eng_sched e') \<and> (\<forall>rid. output_fits so mo (eng_sched e) rid \<longrightarrow> output_fits so mo (eng_sched e') rid)
    \<and> batch_queue e' = batch_queue e"
proof (cases "aborts_queue e = []")
  case True
  then show ?thesis using run st by (simp add: process_aborts_queue_def)
next
  case False
  let ?x = "Id_set (id_order env (set (concat (aborts_queue e))))"
  from run False obtain out s' where f: "finish_requests (senv env) ?x FINISHED_ABORTED (eng_sched e) = Inr (out, s')"
    and e': "eng_sched e' = s'" "batch_queue e' = batch_queue e"
    by (auto simp: process_aborts_queue_def abort_requests_def elim!: bindE_eq_InrE)
  have x: "request_ids_ok ?x" using o by (simp add: request_ids_ok_def order_ok_def)
  have se: "settled (eng_sched e)" using st by (simp add: stepped_def)
  note k = finish_requests_keeps(3) [OF f x se]
  have "output_fits so mo s' rid" if "output_fits so mo (eng_sched e) rid" for rid
    using that k unfolding output_fits_def by metis
  then show ?thesis using finish_requests_stepped [OF f x st] e' by simp
qed

lemma abort_requests_calm:
  assumes "abort_requests env ids e = Inr e'" "order_ok env" "calm (eng_sched e)" shows "calm (eng_sched e')"
  using assms finish_requests_calm [where x = "Id_set (id_order env (set ids))"]
  by (auto simp: abort_requests_def request_ids_ok_def order_ok_def elim!: bindE_eq_InrE)

lemma eng_step_calm:
  assumes run: "eng_step env ev e = Some (Inr (outs, ex, e'))" and h: "hasher_ok (senv env)" and o: "order_ok env"
    and fit: "runner_fits env (eng_sched e)" and c: "calm (eng_sched e)"
  shows "calm (eng_sched e') \<and> conf (eng_sched e') = conf (eng_sched e)"
proof (cases "has_requests (eng_sched e)")
  case False
  then show ?thesis using run c by (simp add: eng_step_def retO_def)
next
  case True
  with run obtain so s1 where sc: "schedule (senv env) (eng_sched e) = Some (Inr (so, s1))"
    and t: "take_model_output env (so, get_grammar_bitmask_ids so s1) (late_aborts ev) (e\<lparr>eng_sched := s1\<rparr>) = Some (Inr (outs, e'))"
    by (auto simp: eng_step_def bindO_eq_Inr retO_def)
  let ?e = "(e\<lparr>eng_sched := s1\<rparr>)\<lparr>aborts_queue := aborts_queue e @ late_aborts ev\<rparr>"
  from t obtain mo e1 evs s2 where mo: "ex_run (exec env) so (get_grammar_bitmask_ids so s1) = Inr mo"
    and ab: "process_aborts_queue env ?e = Inr e1"
    and u: "update_from_output (senv env) so mo (eng_sched e1) = Some (Inr (outs, evs, s2))" and e': "eng_sched e' = s2"
    by (auto simp: take_model_output_def bindO_eq_Inr retO_def)
  have st: "stepped so (eng_sched ?e)" using schedule_stepped [OF sc c] by simp
  note pa = process_aborts_stepped [OF ab o st, where mo = mo]
  have "output_fits so mo (eng_sched e1) rid" if "rid \<in> set (map fst (num_scheduled_tokens so))" for rid
  proof -
    have "output_fits so mo s1 rid" using fit sc mo that unfolding runner_fits_def by blast
    then show ?thesis using pa by simp
  qed
  note up = update_from_output_calm [OF u h conjunct1 [OF pa] this]
  have "conf (eng_sched e1) = conf s1"
  proof (cases "aborts_queue ?e = []")
    case True
    then show ?thesis using ab by (auto simp: process_aborts_queue_def)
  next
    case False
    let ?x = "Id_set (id_order env (set (concat (aborts_queue ?e))))"
    from ab False obtain out where f: "finish_requests (senv env) ?x FINISHED_ABORTED s1 = Inr (out, eng_sched e1)"
      by (auto simp: process_aborts_queue_def abort_requests_def elim!: bindE_eq_InrE)
    show ?thesis by (rule finish_requests_places(8) [OF f])
      (use st o in \<open>simp_all add: stepped_def settled_def request_ids_ok_def order_ok_def\<close>)
  qed
  moreover have "conf s1 = conf (eng_sched e)" by (rule schedule_places(5) [OF sc calm_ready(1) [OF c]])
  ultimately show ?thesis using up e' by simp
qed

lemma post_step_calm: "calm (eng_sched e) \<Longrightarrow> calm (eng_sched (post_step env ev b e)) \<and> conf (eng_sched (post_step env ev b e)) = conf (eng_sched e)"
  using advanced_calm [OF update_draft_advanced update_draft_counts] update_draft_advanced
  by (auto simp: post_step_def advanced_def split: option.split)

section \<open>A step always ends\<close>

text \<open>The block hasher given to the engine returns for every request; the code's does.\<close>

definition hasher_returns :: "sched_env \<Rightarrow> bool" where
  "hasher_returns env \<longleftrightarrow> (\<forall>h r. env_hasher env = Some h \<longrightarrow> h r \<noteq> None)"

lemma extra_keys_tokens:
  "generate_block_hash_extra_keys sha r st e mi = Inr (keys, mi', r') \<Longrightarrow> num_tokens r' = num_tokens r"
  by (drule extra_keys_memo) (auto simp: num_tokens_def)

lemma block_hasher_loop_returns:
  assumes "0 < bs" shows "\<exists>x. block_hasher_loop sha H nh bs st mi prev acc r = Some x"
proof (induction "nat (num_tokens r - st)" arbitrary: st mi prev acc r rule: less_induct)
  case less
  show ?case
  proof (cases "num_tokens r < st + bs")
    case True
    then show ?thesis by (subst block_hasher_loop.simps) (simp add: Let_def)
  next
    case False
    show ?thesis
    proof (cases "generate_block_hash_extra_keys sha r st (st + bs) mi")
      case (Inl e)
      then show ?thesis using False by (subst block_hasher_loop.simps) (simp add: Let_def)
    next
      case (Inr x)
      obtain keys mi' r' where x: "x = (keys, mi', r')" by (cases x)
      have "nat (num_tokens r' - (st + bs)) < nat (num_tokens r - st)"
        using extra_keys_tokens [OF Inr [unfolded x]] assms False by simp
      note IH = less [OF this]
      show ?thesis using False Inr IH unfolding x by (subst block_hasher_loop.simps) (simp add: Let_def)
    qed
  qed
qed

lemma request_block_hasher_returns: "0 < bs \<Longrightarrow> request_block_hasher sha H nh bs r \<noteq> None"
  using block_hasher_loop_returns by (auto simp: request_block_hasher_def Let_def)

definition returns :: "'a option \<Rightarrow> bool" where
  "returns m \<longleftrightarrow> (\<exists>x. m = Some x)"

lemma bindO_returns: "returns m \<Longrightarrow> (\<And>x. m = Some (Inr x) \<Longrightarrow> returns (f x)) \<Longrightarrow> returns (bindO m f)"
  by (auto simp: returns_def bindO_def split: sum.splits)

lemma retO_returns [simp]: "returns (retO x)" "returns (Some y)"
  by (simp_all add: returns_def retO_def)

lemma hashes_return: "hasher_returns env \<Longrightarrow> returns (update_block_hashes (env_hasher env) r)"
  unfolding update_block_hashes_def hasher_returns_def by (auto split: option.splits simp: returns_def)

lemma append_token_returns: "hasher_returns env \<Longrightarrow> returns (append_output_token_ids (env_hasher env) ts r)"
  by (simp add: append_output_token_ids_def hashes_return)

lemma append_until_stop_returns: "hasher_returns env \<Longrightarrow> returns (append_until_stop env i out ts s)"
  by (induction ts arbitrary: out s)
    (auto simp: Let_def append_token_returns intro!: bindO_returns split: prod.splits)

lemma take_output_returns: "hasher_returns env \<Longrightarrow> returns (take_output env i gen pooled s)"
  unfolding take_output_def update_request_with_output_def
  by (auto simp: Let_def append_until_stop_returns intro!: bindO_returns split: prod.splits)

lemma session_returns: "hasher_returns env \<Longrightarrow> returns (update_request_as_session env i u s)"
  unfolding update_request_as_session_def by (auto simp: Let_def hashes_return intro!: bindO_returns)

lemma handle_stopped_returns: "hasher_returns env \<Longrightarrow> returns (handle_stopped_request env i s)"
  unfolding handle_stopped_request_def
  by (auto simp: Let_def session_returns intro!: bindO_returns split: option.splits list.splits)

lemma update_step_returns: "hasher_returns env \<Longrightarrow> returns (update_step env so mo x u)"
  unfolding update_step_def update_one_def finish_stopped_def
  by (auto simp: Let_def take_output_returns handle_stopped_returns intro!: bindO_returns split: option.splits prod.splits)

lemma foldO_returns: "(\<And>x s. returns (f x s)) \<Longrightarrow> returns (foldO f xs s)"
  by (induction xs arbitrary: s) (auto intro!: bindO_returns)

lemma update_from_output_returns: "hasher_returns env \<Longrightarrow> returns (update_from_output env so mo s)"
  unfolding update_from_output_def
  by (auto simp: Let_def update_step_returns intro!: bindO_returns foldO_returns split: prod.splits)

lemma take_model_output_returns: "hasher_returns (senv env) \<Longrightarrow> returns (take_model_output env b late e)"
  unfolding take_model_output_def
  by (auto simp: update_from_output_returns intro!: bindO_returns split: prod.splits)

lemma eng_step_returns: "calm (eng_sched e) \<Longrightarrow> hasher_returns (senv env) \<Longrightarrow> returns (eng_step env ev e)"
  unfolding eng_step_def using schedule_returns_aux [OF calm_ready(1,2), of "eng_sched e" "senv env"]
  by (auto simp: take_model_output_returns returns_def [of "schedule _ _"] intro!: bindO_returns split: prod.splits)

section \<open>The synchronous engine as a state machine\<close>

text \<open>
  A move of the engine: a new request, a step with what follows it, aborts, a pause, the end of one,
  and the resets. The executor may answer differently at every step.
\<close>

inductive sync_move :: "engine_env \<Rightarrow> engine \<Rightarrow> engine \<Rightarrow> bool" for env :: engine_env where
  add_move: "fresh_request r (eng_sched e) \<Longrightarrow> eng_add_request env r e = Some (Inr e') \<Longrightarrow> sync_move env e e'"
| step_move: "runner_fits (env\<lparr>exec := x\<rparr>) (eng_sched e) \<Longrightarrow> eng_step (env\<lparr>exec := x\<rparr>) ev e = Some (Inr (outs, ex, e1))
    \<Longrightarrow> sync_move env e (post_step env ev ex e1)"
| abort_move: "abort_requests env ids e = Inr e' \<Longrightarrow> sync_move env e e'"
| pause_move: "eng_pause_scheduler env mode clear e = Inr e' \<Longrightarrow> sync_move env e e'"
| resume_move: "sync_move env e (eng_resume_scheduler e)"
| reset_prefix_move: "eng_reset_prefix_cache env rr rcn e = Inr (b, e') \<Longrightarrow> sync_move env e e'"
| reset_encoder_move: "sync_move env e (eng_reset_encoder_cache e)"

inductive sync_reach :: "engine_env \<Rightarrow> engine \<Rightarrow> engine \<Rightarrow> bool" for env :: engine_env and e0 :: engine where
  reach_start: "sync_reach env e0 e0"
| reach_move: "sync_reach env e0 e \<Longrightarrow> sync_move env e e' \<Longrightarrow> sync_reach env e0 e'"

inductive_cases sync_moveE: "sync_move env e e'"

definition keeps_calm :: "scheduler \<Rightarrow> scheduler \<Rightarrow> bool" where
  "keeps_calm s s' \<longleftrightarrow> (calm s \<longrightarrow> calm s' \<and> conf s' = conf s)"

lemma finish_keeps_calm: "finish_requests env x st s = Inr (out, s') \<Longrightarrow> request_ids_ok x \<Longrightarrow> keeps_calm s s'"
  unfolding keeps_calm_def
  by (metis finish_requests_calm finish_requests_places(8) calm_def settledD(1))

lemma reset_keeps_calm: "sched_reset_prefix_cache env rr rcn s = Inr (b, s') \<Longrightarrow> keeps_calm s s'"
  unfolding keeps_calm_def by (metis reset_prefix_calm reset_prefix_places(4) calm_def settledD(1))

lemma simple_keeps_calm: "keeps_calm s (set_pause_state p s)" "keeps_calm s (reset_encoder_cache s)" "keeps_calm s s"
  using set_pause_calm reset_encoder_calm by (auto simp: keeps_calm_def set_pause_state_def reset_encoder_cache_def)

lemma keeps_calm_trans: "keeps_calm s s1 \<Longrightarrow> keeps_calm s1 s2 \<Longrightarrow> keeps_calm s s2"
  by (simp add: keeps_calm_def)

lemma abort_keeps_calm: "abort_requests env ids e = Inr e' \<Longrightarrow> order_ok env \<Longrightarrow> keeps_calm (eng_sched e) (eng_sched e')"
  by (auto simp: abort_requests_def request_ids_ok_def order_ok_def elim!: bindE_eq_InrE intro!: finish_keeps_calm)

lemma reset_caches_keeps_calm: "reset_caches env e = Inr e' \<Longrightarrow> keeps_calm (eng_sched e) (eng_sched e')"
  by (auto simp: reset_caches_def eng_reset_prefix_cache_def eng_reset_encoder_cache_def elim!: bindE_eq_InrE
      intro!: keeps_calm_trans [OF reset_keeps_calm simple_keeps_calm(2)])

lemma pause_keeps_calm:
  assumes "eng_pause_scheduler env mode clear e = Inr e'" shows "keeps_calm (eng_sched e) (eng_sched e')"
proof -
  from assms obtain e1 where 1: "(if mode = ''abort'' then bindE (abort_all env e) (\<lambda>(_, e1). Inr e1) else Inr e) = Inr e1"
    and 2: "(let e2 = e1\<lparr>eng_sched := set_pause_state (pause_of_mode mode) (eng_sched e1)\<rparr>
       in if clear then reset_caches env e2 else Inr e2) = Inr e'"
    unfolding eng_pause_scheduler_def by (auto elim!: bindE_eq_InrE)
  have "keeps_calm (eng_sched e) (eng_sched e1)"
    using 1 by (auto simp: abort_all_def request_ids_ok_def simple_keeps_calm split: if_splits elim!: bindE_eq_InrE intro!: finish_keeps_calm)
  moreover have "keeps_calm (eng_sched e1) (eng_sched e')"
    using 2 reset_caches_keeps_calm keeps_calm_trans simple_keeps_calm(1)
    by (fastforce simp: Let_def simple_keeps_calm split: if_splits)
  ultimately show ?thesis by (rule keeps_calm_trans)
qed

lemma add_keeps_calm:
  assumes "eng_add_request env r e = Some (Inr e')" "fresh_request r (eng_sched e)" shows "keeps_calm (eng_sched e) (eng_sched e')"
proof -
  obtain s' where a: "add_request (senv env) r (eng_sched e) = Some (Inr s')" and e': "eng_sched e' = s'"
    using assms(1) by (auto simp: eng_add_request_def bindO_eq_Inr retO_def)
  have "conf s' = conf (eng_sched e)" using a assms(2)
    by (auto simp: fresh_request_def add_request_def enqueue_waiting_request_def retO_def Let_def simp del: dict_get_eq_None)
  then show ?thesis using add_request_calm [OF a assms(2)] by (simp add: keeps_calm_def e')
qed

lemma move_keeps_calm:
  assumes "sync_move env e e'" "hasher_ok (senv env)" "order_ok env" shows "keeps_calm (eng_sched e) (eng_sched e')"
  using assms(1)
proof cases
  case (step_move x ev outs ex e1)
  have "order_ok (env\<lparr>exec := x\<rparr>)" "hasher_ok (senv (env\<lparr>exec := x\<rparr>))" using assms(2,3) by (simp_all add: order_ok_def)
  from eng_step_calm [OF step_move(3) this(2,1) step_move(2)]
  show ?thesis using post_step_calm [of e1 env ev ex] step_move(1) by (auto simp: keeps_calm_def)
qed (auto simp: add_keeps_calm abort_keeps_calm assms(3) pause_keeps_calm eng_resume_scheduler_def simple_keeps_calm
    eng_reset_prefix_cache_def eng_reset_encoder_cache_def elim!: bindE_eq_InrE dest!: reset_keeps_calm)

lemma reach_calm:
  assumes "sync_reach env e0 e" "hasher_ok (senv env)" "order_ok env" "calm (eng_sched e0)"
  shows "calm (eng_sched e) \<and> conf (eng_sched e) = conf (eng_sched e0)"
  using assms
proof induction
  case (reach_move e e')
  then show ?case using move_keeps_calm [OF reach_move.hyps(2) reach_move.prems(1,2)] by (simp add: keeps_calm_def)
qed simp

end
