(* ===== verification/Demo_Step.thy ===== *)
theory Demo_Step
  imports Engine_Safety "HOL-Library.List_Lexorder" "HOL-Library.Char_ord"
begin

text \<open>A request of six prompt tokens that asks for two more.\<close>

definition demo_ask :: request where
  "demo_ask = demo_six\<lparr>max_tokens := 2, req_sampling_params := Some \<lparr>sp_max_tokens = Some 2, min_tokens = 0, eos_token_id = None,
     stop_token_ids = [], repetition_detection = None, sp_skip_reading_prefix_cache = None, structured_outputs = False\<rparr>\<rparr>"

definition demo_sched_config :: sched_config where
  "demo_sched_config = \<lparr>max_num_running_reqs = 2, max_num_scheduled_tokens = 8, sc_max_model_len = 100,
     long_prefill_token_threshold = 0, enable_chunked_prefill = True, sc_disable_chunked_mm_input = False,
     scheduler_reserve_full_isl = False, sc_use_eagle = False, num_spec_tokens = 0, num_lookahead_tokens = 0,
     sc_is_encoder_decoder = False, need_mamba_block_aligned_split = False, sc_block_size = 4, max_loras = None,
     sched_policy = FCFS, sc_max_num_encoder_input_tokens = 0, use_pp = False, async_scheduling = False,
     use_v2_model_runner = False, sc_needs_kv_cache_zeroing = False\<rparr>"

definition demo_sched_env :: sched_env where
  "demo_sched_env = \<lparr>env_sha = concat, env_hasher = None, set_order = sorted_list_of_set, grammar_ready = \<lambda>_. True,
     accept_tokens = \<lambda>_ _. True, validate_tokens = \<lambda>_ ts. ts, env_reasoner = None, enable_in_reasoning = False\<rparr>"

definition demo_scheduler :: "kv_cache_manager \<Rightarrow> scheduler" where
  "demo_scheduler km = scheduler_init (\<lambda>_. demo_ask) demo_sched_config km 0 False"

definition demo_waiting :: "kv_cache_manager \<Rightarrow> scheduler" where
  "demo_waiting km = (demo_scheduler km)\<lparr>objs := (\<lambda>_. demo_ask)(0 := demo_ask), waiting := FCFSRequestQueue [demo_ask],
     requests_dict := [(''a'', 0)]\<rparr>"

lemma demo_added: "add_request env demo_ask (demo_scheduler km) = Some (Inr (demo_waiting km))"
  by (simp add: add_request_def demo_scheduler_def demo_waiting_def scheduler_init_def demo_sched_config_def demo_ask_def demo_six_def demo_request_def
      enqueue_waiting_request_def is_blocked_waiting_status_def create_request_queue_def retO_def Let_def fcfs_add_request_def dict_get_def dict_set_def)

lemma demo_plain_km:
  obtains km m where "kv_cache_manager_init demo_one 100 4 (Some 8) False False False False False 1 1 = Inr km" "km_reach km" "search_ok km"
    "single_type_managers (coordinator km) = [m]" "mgr_class m = FullAttentionManager" "max_admission_blocks m = None" "block_size m = 4"
    "\<And>rid. rtb_get rid m = []" "\<And>rid. \<not> is_running rid m" "\<not> km_enable_caching km" "km_max_model_len km = 100"
    "get_num_free_blocks (km_pool km) = 7" "num_kv_cache_groups km = 1" "\<not> km_log_stats km"
proof -
  obtain p where p: "block_pool_init 8 False 4 False False = Inr p" "pool_inv p (map Blk [1..<8])" "num_gpu_blocks p = 8"
    using block_pool_init_spec [of 8 False 4 False False] by auto
  define m where "m = base_manager FullAttentionManager (demo_spec FullAttentionSpec) p False 0 1 1 None"
  obtain km where km: "kv_cache_manager_init demo_one 100 4 (Some 8) False False False False False 1 1 = Inr km"
    "single_type_managers (coordinator km) = [m]" "km_pool km = p" "km_max_model_len km = 100" "num_kv_cache_groups km = 1"
    "\<not> km_enable_caching km" "\<not> km_log_stats km" "coord_kind (coordinator km) \<noteq> Hybrid"
    by (simp add: kv_cache_manager_init_def get_kv_cache_coordinator_def coordinator_base_init_def demo_one_def p(1)
        get_manager_for_kv_cache_spec_def spec_manager_map_def has_class_def py_index_def Let_def m_def)
  have "km_reach km" by (rule km_reach.init [OF km(1) _ _ demo_one_fine]) simp_all
  moreover have "get_num_free_blocks p = 7" using pool_invD(8) [OF p(2)] by (simp add: get_num_free_blocks_def)
  ultimately show ?thesis using that [OF km(1) _ _ km(2)] km(3-8) p(3)
    by (simp add: m_def base_manager_def rtb_get_def is_running_def search_ok_def)
qed

definition demo_noted :: request where
  "demo_noted = demo_ask\<lparr>prefill_stats := (case prefill_set 6 0 0 of Inl _ \<Rightarrow> None | Inr ps \<Rightarrow> Some ps)\<rparr>"

text \<open>The manager gives two blocks to the six tokens.\<close>

lemma demo_allocated:
  obtains km b km' where "kv_cache_manager_init demo_one 100 4 (Some 8) False False False False False 1 1 = Inr km" "km_reach km" "search_ok km"
    "km_new_step_starts km = km" "\<not> km_enable_caching km"
    "allocate_slots concat demo_noted 6 0 (Some (empty_kv_cache_blocks km)) 0 0 False 0 km = Inr (Some b, km')"
proof -
  obtain km m where km: "kv_cache_manager_init demo_one 100 4 (Some 8) False False False False False 1 1 = Inr km" "km_reach km" "search_ok km"
    "single_type_managers (coordinator km) = [m]" "mgr_class m = FullAttentionManager" "max_admission_blocks m = None" "block_size m = 4"
    "\<And>rid. rtb_get rid m = []" "\<not> km_enable_caching km" "km_max_model_len km = 100" "get_num_free_blocks (km_pool km) = 7"
    by (rule demo_plain_km) blast
  have z: "num_computed_tokens demo_noted = 0" "request_id demo_noted = ''a''" by (simp_all add: demo_noted_def demo_ask_def demo_six_def demo_request_def)
  have c: "cdiv (min (min 0 100 + 6 + 0) 100) 4 - int (length []) = 2" by (simp add: cdiv_def)
  from slots_plain(2) [OF km_reach_inv [OF km(2)] km(4-6), of 6 demo_noted 0 concat False 0, unfolded km(7,8,10,11) z c]
  obtain bs m' p' where a: "allocate_slots concat demo_noted 6 0 None 0 0 False 0 km
      = commit_slots concat demo_noted (min 0 100 + 6) False km [bs] ((coordinator km)\<lparr>single_type_managers := [m'], coord_pool := p'\<rparr>)" by auto
  have "allocate_slots concat demo_noted 6 0 (Some (empty_kv_cache_blocks km)) 0 0 False 0 km = allocate_slots concat demo_noted 6 0 None 0 0 False 0 km"
    by (simp add: allocate_slots_def given_blocks_def)
  then have "allocate_slots concat demo_noted 6 0 (Some (empty_kv_cache_blocks km)) 0 0 False 0 km
      = Inr (Some (create_kv_cache_blocks km [bs]), km\<lparr>coordinator := (coordinator km)\<lparr>single_type_managers := [m'], coord_pool := p'\<rparr>\<rparr>)"
    unfolding a by (simp add: commit_slots_def km(9))
  moreover have "km_new_step_starts km = km"
    using km(4,5) by (simp add: km_new_step_starts_def coord_new_step_starts_def new_step_starts_def)
  ultimately show ?thesis using that km(1-3,9) by blast
qed

lemmas demo_eval = demo_waiting_def demo_scheduler_def scheduler_init_def demo_sched_config_def demo_ask_def demo_six_def demo_request_def
  create_request_queue_def retO_def Let_def

definition demo_step0 :: "kv_cache_manager \<Rightarrow> step_vars" where
  "demo_step0 km = \<lparr>sch = demo_waiting km, new_reqs = [], resumed_reqs = [], run_reqs = [],
      preempted_reqs = [], blocks_of = [], sched_toks = [], token_budget = 8,
      enc_sched = [], enc_budget = 0, spec_sched = [],
      scheduled_loras = {}, req_index = 0, step_skipped = FCFSRequestQueue []\<rparr>"

lemma demo_start: "km_new_step_starts km = km \<Longrightarrow> step_start (demo_waiting km) = demo_step0 km"
  by (simp add: step_start_def demo_eval demo_step0_def)

definition demo_step1 :: "kv_cache_manager \<Rightarrow> step_vars" where
  "demo_step1 km = (demo_step0 km)\<lparr>sch := (demo_waiting km)\<lparr>objs := (objs (demo_waiting km))(0 := demo_noted),
     waiting := FCFSRequestQueue [demo_noted]\<rparr>\<rparr>"

lemma demo_next: "next_waiting (demo_waiting km) = Inr (Waiting_queue, 0)"
  by (simp add: next_waiting_def select_waiting_queue_for_scheduling_def q_nonempty_def demo_eval fcfs_peek_request_def)

lemma demo_body:
  "waiting_body demo_sched_env (demo_step0 km) = admit demo_sched_env Waiting_queue 0 (demo_step0 km)"
  unfolding waiting_body_def by (simp add: demo_step0_def demo_next is_blocked_waiting_status_def lora_full_def)
    (simp add: demo_eval is_blocked_waiting_status_def)

lemma demo_prefix:
  assumes "\<not> km_enable_caching km"
  shows "computed_prefix 0 (demo_step0 km) = Some (Inr (empty_kv_cache_blocks km, 0, 0, demo_step1 km))"
  using assms by (simp add: computed_prefix_def demo_step0_def demo_step1_def get_computed_blocks_def note_prefill_def
      demo_noted_def prefill_set_def num_tokens_def set_obj_def demo_eval)

lemma demo_plan: "plan_waiting 0 0 0 (demo_step1 km) = Inr (Some ([], 6, 0), demo_step1 km)"
  by (simp add: plan_waiting_def demo_step1_def demo_step0_def waiting_tokens_def num_tokens_def plan_inputs_def has_encoder_inputs_def
      num_encoder_inputs_def demo_noted_def demo_eval)

lemma demo_slots:
  assumes "allocate_slots concat demo_noted 6 0 (Some (empty_kv_cache_blocks km)) 0 0 False 0 km = Inr (Some b, km')"
  shows "allocate_waiting demo_sched_env 0 [] 6 (empty_kv_cache_blocks km) 0 (demo_step1 km)
    = Inr (True, (demo_step1 km)\<lparr>sch := (sch (demo_step1 km))\<lparr>kv_manager := km'\<rparr>\<rparr>)"
proof -
  have "objs (sch (demo_step1 km)) 0 = demo_noted" "conf (sch (demo_step1 km)) = demo_sched_config" "kv_manager (sch (demo_step1 km)) = km"
    "num_computed_tokens demo_noted = 0"
    by (simp_all add: demo_step1_def demo_step0_def demo_eval demo_noted_def)
  then show ?thesis using assms by (simp add: allocate_waiting_def demo_sched_env_def) (simp add: demo_sched_config_def)
qed

definition demo_running :: "kv_cache_manager \<Rightarrow> kv_cache_manager \<Rightarrow> scheduler" where
  "demo_running km km' = (demo_waiting km)\<lparr>objs := (objs (demo_waiting km))(0 := demo_noted\<lparr>status := RUNNING\<rparr>),
     waiting := FCFSRequestQueue [], running := [0], kv_manager := km'\<rparr>"

definition demo_step2 :: "kv_cache_manager \<Rightarrow> kv_cache_manager \<Rightarrow> step_vars" where
  "demo_step2 km km' = (demo_step0 km)\<lparr>sch := demo_running km km', new_reqs := [0], blocks_of := [(''a'', km_get_blocks ''a'' km')],
     sched_toks := [(''a'', 6)], token_budget := 2\<rparr>"

lemma demo_begin:
  "start_request Waiting_queue [] 6 0 0 ((demo_step1 km)\<lparr>sch := (sch (demo_step1 km))\<lparr>kv_manager := km'\<rparr>\<rparr>) = Inr (demo_step2 km km')"
  by (simp add: start_request_def demo_step1_def demo_step2_def demo_step0_def demo_running_def fcfs_pop_request_def note_started_def
      note_lora_def commit_inputs_def set_obj_def demo_noted_def dict_set_def demo_eval)

lemma demo_phases:
  assumes "km_new_step_starts km = km" "\<not> km_enable_caching km"
    and slots: "allocate_slots concat demo_noted 6 0 (Some (empty_kv_cache_blocks km)) 0 0 False 0 km = Inr (Some b, km')"
  shows "schedule_phases demo_sched_env (demo_waiting km) = Some (Inr (demo_step2 km km'))"
proof -
  have "running_cond (demo_step0 km) = False" by (simp add: running_cond_def demo_step0_def demo_eval)
  then have r: "schedule_running demo_sched_env (demo_step0 km) = Some (Inr (demo_step0 km))"
    unfolding schedule_running_def by (subst py_while.simps) (simp add: retO_def)
  have l: "note_loras (demo_step0 km) = Inr (demo_step0 km)" by (simp add: note_loras_def demo_step0_def demo_eval)
  have b: "waiting_body demo_sched_env (demo_step0 km) = Some (Inr (True, demo_step2 km km'))"
    unfolding demo_body admit_def by (simp add: demo_prefix [OF assms(2)] demo_plan demo_slots [OF slots] demo_begin retO_def)
  have c: "waiting_cond (demo_step0 km)" "\<not> waiting_cond (demo_step2 km km')"
    by (simp_all add: waiting_cond_def q_nonempty_def demo_step0_def demo_step2_def demo_running_def demo_eval)
  have "py_while waiting_cond (waiting_body demo_sched_env) (demo_step2 km km') = Some (Inr (demo_step2 km km'))"
    using c(2) by (subst py_while.simps) (simp add: retO_def)
  then have w: "py_while waiting_cond (waiting_body demo_sched_env) (demo_step0 km) = Some (Inr (demo_step2 km km'))"
    using c(1) b by (subst py_while.simps) simp
  have "preempted_reqs (demo_step0 km) = [] \<and> pause_state (sch (demo_step0 km)) = UNPAUSED" "step_skipped (demo_step2 km km') = FCFSRequestQueue []"
    by (simp_all add: demo_step0_def demo_step2_def demo_eval)
  then show ?thesis
    unfolding schedule_phases_def demo_start [OF assms(1)] using r l w by (simp add: schedule_waiting_def requeue_skipped_def q_nonempty_def)
qed

lemma demo_output:
  obtains so s' where "make_output (demo_step2 km km') = Inr (so, s')" "num_scheduled_tokens so = [(''a'', 6)]" "scheduled_spec_decode_tokens so = []"
    "total_num_scheduled_tokens so = 6" "has_structured_output_requests so = False"
    "objs s' = objs (demo_running km km')" "requests_dict s' = [(''a'', 0)]" "conf s' = demo_sched_config" "running s' = [0]"
    "waiting s' = FCFSRequestQueue []" "skipped_waiting s' = FCFSRequestQueue []"
proof -
  let ?s = "demo_running km km'"
  obtain ncp km2 where c: "common_prefix ?s = (ncp, ?s\<lparr>kv_manager := km2\<rparr>)"
    using that by (cases "km_num_common_prefix_blocks ''a'' km'") (simp add: common_prefix_def demo_running_def demo_noted_def demo_eval)
  obtain hs m where f: "get_freed_mm_hashes (encoder_cache_init 0) = (hs, m)" by force
  have "sch (demo_step2 km km') = ?s" by (simp add: demo_step2_def)
  then show ?thesis
    using that c f by (simp add: make_output_def make_new_request_data_def block_ids_of_def make_cached_request_data_def dict_getE_def dict_get_def
        ids_to_zero_def demo_step2_def demo_running_def demo_step0_def demo_noted_def total_scheduled_def demo_eval split: prod.splits)
qed

definition demo_computed :: request where
  "demo_computed = demo_noted\<lparr>status := RUNNING, num_computed_tokens := 6, is_prefill_chunk := False\<rparr>"

lemma demo_after:
  assumes "num_scheduled_tokens so = [(''a'', 6)]" "objs s = objs (demo_running km km')" "requests_dict s = [(''a'', 0)]"
    "conf s = demo_sched_config" "running s = [0]" "waiting s = FCFSRequestQueue []" "skipped_waiting s = FCFSRequestQueue []"
  obtains so' s' where "update_after_schedule so s = Inr (so', s')" "num_scheduled_tokens so' = num_scheduled_tokens so"
    "scheduled_spec_decode_tokens so' = scheduled_spec_decode_tokens so" "total_num_scheduled_tokens so' = total_num_scheduled_tokens so"
    "objs s' 0 = demo_computed" "requests_dict s' = [(''a'', 0)]" "conf s' = demo_sched_config" "running s' = [0]"
    "waiting s' = FCFSRequestQueue []" "skipped_waiting s' = FCFSRequestQueue []"
  using assms that by (simp add: update_after_schedule_def advance_step_def dict_getE_def dict_get_def set_obj_def demo_running_def
      demo_computed_def demo_noted_def num_tokens_def demo_eval)

lemma demo_limits: "check_limits (demo_step2 km km') = Inr ()"
  by (simp add: check_limits_def demo_step2_def demo_step0_def demo_running_def total_scheduled_def demo_eval)

lemma demo_schedule:
  obtains km so s' where "kv_cache_manager_init demo_one 100 4 (Some 8) False False False False False 1 1 = Inr km" "km_reach km" "search_ok km"
    "schedule demo_sched_env (demo_waiting km) = Some (Inr (so, s'))" "num_scheduled_tokens so = [(''a'', 6)]"
    "scheduled_spec_decode_tokens so = []" "total_num_scheduled_tokens so = 6"
    "objs s' 0 = demo_computed" "requests_dict s' = [(''a'', 0)]" "conf s' = demo_sched_config" "running s' = [0]"
    "waiting s' = FCFSRequestQueue []" "skipped_waiting s' = FCFSRequestQueue []"
proof -
  obtain km b km' where km: "kv_cache_manager_init demo_one 100 4 (Some 8) False False False False False 1 1 = Inr km" "km_reach km" "search_ok km"
    "km_new_step_starts km = km" "\<not> km_enable_caching km"
    "allocate_slots concat demo_noted 6 0 (Some (empty_kv_cache_blocks km)) 0 0 False 0 km = Inr (Some b, km')"
    by (rule demo_allocated)
  obtain so s where o: "make_output (demo_step2 km km') = Inr (so, s)" "num_scheduled_tokens so = [(''a'', 6)]" "scheduled_spec_decode_tokens so = []"
    "total_num_scheduled_tokens so = 6" "objs s = objs (demo_running km km')" "requests_dict s = [(''a'', 0)]" "conf s = demo_sched_config"
    "running s = [0]" "waiting s = FCFSRequestQueue []" "skipped_waiting s = FCFSRequestQueue []"
    by (rule demo_output) blast
  obtain so' s' where u: "update_after_schedule so s = Inr (so', s')" "num_scheduled_tokens so' = num_scheduled_tokens so"
    "scheduled_spec_decode_tokens so' = scheduled_spec_decode_tokens so" "total_num_scheduled_tokens so' = total_num_scheduled_tokens so"
    "objs s' 0 = demo_computed" "requests_dict s' = [(''a'', 0)]" "conf s' = demo_sched_config" "running s' = [0]"
    "waiting s' = FCFSRequestQueue []" "skipped_waiting s' = FCFSRequestQueue []"
    by (rule demo_after [OF o(2,5-10)]) blast
  have "schedule demo_sched_env (demo_waiting km) = Some (Inr (so', s'))"
    by (simp add: schedule_def demo_phases [OF km(4-6)] demo_limits o(1) u(1))
  then show thesis using that km(1-3) u o by simp
qed

text \<open>The model answers with one token; the request goes on.\<close>

definition demo_answer :: model_runner_output where
  "demo_answer = \<lparr>req_id_to_index = [(''a'', 0)], sampled_token_ids = [[7]], pooler_output = [], prompt_logprobs_dict = []\<rparr>"

definition demo_engine_env :: engine_env where
  "demo_engine_env = \<lparr>senv = demo_sched_env, exec = \<lparr>ex_run = \<lambda>_ _. Inr demo_answer, ex_tasks = [''generate'']\<rparr>,
     id_order = sorted_list_of_set\<rparr>"

lemma demo_update:
  assumes "num_scheduled_tokens so = [(''a'', 6)]" "scheduled_spec_decode_tokens so = []"
    "objs s 0 = demo_computed" "requests_dict s = [(''a'', 0)]" "conf s = demo_sched_config" "running s = [0]"
    "waiting s = FCFSRequestQueue []" "skipped_waiting s = FCFSRequestQueue []"
  obtains outs evs s' where "update_from_output demo_sched_env so demo_answer s = Some (Inr (outs, evs, s'))"
    "all_token_ids (objs s' 0) = [1, 2, 3, 4, 5, 6, 7]" "running s' = [0]" "requests_dict s' = [(''a'', 0)]"
proof -
  obtain u where u: "update_step demo_sched_env so demo_answer (''a'', 6) \<lparr>usch = s, stopped_running = [], stopped_preempted = [], eouts = []\<rparr>
      = Some (Inr u)" "stopped_running u = []" "stopped_preempted u = []" "all_token_ids (objs (usch u) 0) = [1, 2, 3, 4, 5, 6, 7]"
    "running (usch u) = [0]" "requests_dict (usch u) = [(''a'', 0)]"
    using assms that by (simp add: update_step_def update_one_def dict_getE_def dict_get_def demo_answer_def py_index_def demo_computed_def demo_noted_def
      demo_eval is_finished_def has_encoder_inputs_def num_encoder_inputs_def reject_drafts_def set_obj_def
      take_output_def update_request_with_output_def append_output_token_ids_def update_block_hashes_def demo_sched_env_def check_stop_def
      num_output_tokens_def num_tokens_def advance_grammar_def should_advance_def emit_output_def take_prefill_stats_def prefill_set_def)
  obtain e km where e: "km_take_events (kv_manager (usch u)) = (e, km)" by force
  obtain os s2 where c: "collect_outputs (eouts u) ((usch u)\<lparr>kv_manager := km\<rparr>) = (os, s2)" by force
  have s2: "objs s2 = objs (usch u)" "running s2 = running (usch u)" "requests_dict s2 = requests_dict (usch u)"
    using c by (auto simp: collect_outputs_def Let_def split: option.splits)
  have "update_from_output demo_sched_env so demo_answer s = Some (Inr (os, e, s2))"
    using u(1-3) e c by (simp add: update_from_output_def assms(1) remove_stopped_def retO_def)
  then show thesis using that s2 u(4-6) by simp
qed

lemma demo_whole_step:
  obtains km outs e' where "km_reach km" "search_ok km"
    "eng_step demo_engine_env \<lparr>late_aborts = [], oldest_done = True, deferred_drafts = None, proposed_drafts = None\<rparr>
       (engine_init (demo_waiting km) 1 False False False False) = Some (Inr (outs, True, e'))"
    "all_token_ids (objs (eng_sched e') 0) = [1, 2, 3, 4, 5, 6, 7]" "running (eng_sched e') = [0]"
    "runner_fits demo_engine_env (demo_waiting km)"
proof -
  obtain km so s' where s: "km_reach km" "search_ok km"
    "schedule demo_sched_env (demo_waiting km) = Some (Inr (so, s'))" "num_scheduled_tokens so = [(''a'', 6)]"
    "scheduled_spec_decode_tokens so = []" "total_num_scheduled_tokens so = 6"
    "objs s' 0 = demo_computed" "requests_dict s' = [(''a'', 0)]" "conf s' = demo_sched_config" "running s' = [0]"
    "waiting s' = FCFSRequestQueue []" "skipped_waiting s' = FCFSRequestQueue []"
    by (rule demo_schedule) blast
  obtain outs evs s2 where u: "update_from_output demo_sched_env so demo_answer s' = Some (Inr (outs, evs, s2))"
    "all_token_ids (objs s2 0) = [1, 2, 3, 4, 5, 6, 7]" "running s2 = [0]"
    by (rule demo_update [OF s(4,5,7-12)]) blast
  let ?e = "engine_init (demo_waiting km) 1 False False False False"
  have h: "has_requests (demo_waiting km)"
    by (simp add: demo_eval has_requests_def has_unfinished_requests_def get_num_unfinished_requests_def q_len_def)
  have "eng_step demo_engine_env \<lparr>late_aborts = [], oldest_done = True, deferred_drafts = None, proposed_drafts = None\<rparr> ?e
      = Some (Inr (outs, True, ?e\<lparr>eng_sched := s2, published_events := evs\<rparr>))"
    using h s(3,6) u(1) by (simp add: eng_step_def engine_init_def demo_engine_env_def take_model_output_def process_aborts_queue_def retO_def)
  moreover have "runner_fits demo_engine_env (demo_waiting km)"
    using s(3-5,8) by (auto simp: runner_fits_def output_fits_def demo_engine_env_def demo_answer_def dict_get_def gen_of_def py_index_def drafts_of_def)
  ultimately show thesis using that s(1,2) u(2,3) by simp
qed

end
