(* ===== verification/Engine_Correct.thy ===== *)
theory Engine_Correct
  imports Demo_Step
begin

text \<open>
  What the synchronous engine guarantees in every state it reaches, what taking an output keeps, and two
  requests that it never finishes.
\<close>

section \<open>Reachable states\<close>

definition limits_ok :: "sched_config \<Rightarrow> bool" where
  "limits_ok c \<longleftrightarrow> config_ok c \<and> 0 \<le> max_num_scheduled_tokens c \<and> 0 \<le> max_num_running_reqs c \<and> \<not> async_scheduling c"

text \<open>The engine starts with an empty scheduler and no batch queue.\<close>

definition sync_engine :: "engine_env \<Rightarrow> sched_config \<Rightarrow> engine \<Rightarrow> bool" where
  "sync_engine env c e \<longleftrightarrow> limits_ok c \<and> hasher_ok (senv env) \<and> order_ok env
     \<and> (\<exists>ob km n fs spec consumer pooling. search_ok km
          \<and> sync_reach env (engine_init (scheduler_init ob c km n fs) 1 spec False consumer pooling) e)"

lemma sync_engine_calm:
  assumes "sync_engine env c e" shows "calm (eng_sched e)" "conf (eng_sched e) = c"
proof -
  from assms obtain ob km n fs spec consumer pooling where l: "limits_ok c" "hasher_ok (senv env)" "order_ok env" "search_ok km"
    and r: "sync_reach env (engine_init (scheduler_init ob c km n fs) 1 spec False consumer pooling) e"
    unfolding sync_engine_def by blast
  have "calm (scheduler_init ob c km n fs)" using l by (intro init_calm) (simp_all add: limits_ok_def)
  then have "calm (eng_sched (engine_init (scheduler_init ob c km n fs) 1 spec False consumer pooling))" by (simp add: engine_init_def)
  from reach_calm [OF r l(2,3) this] show "calm (eng_sched e)" "conf (eng_sched e) = c"
    by (simp_all add: engine_init_def scheduler_init_def)
qed

lemma sync_engine_settled:
  assumes "sync_engine env c e"
  shows "placed {#} (eng_sched e)" "int (length (running (eng_sched e))) \<le> max_num_running_reqs c"
    "i \<in> snd ` set (requests_dict (eng_sched e)) \<Longrightarrow> steady c (objs (eng_sched e) i)"
    "i \<in> set (running (eng_sched e)) \<Longrightarrow> idle_tokens c (objs (eng_sched e) i)" "sched_ready (eng_sched e)"
proof -
  have "settled (eng_sched e)" "idle_running (eng_sched e)" using sync_engine_calm(1) [OF assms] by (simp_all add: calm_def)
  then show "placed {#} (eng_sched e)" "int (length (running (eng_sched e))) \<le> max_num_running_reqs c"
    "i \<in> snd ` set (requests_dict (eng_sched e)) \<Longrightarrow> steady c (objs (eng_sched e) i)"
    "i \<in> set (running (eng_sched e)) \<Longrightarrow> idle_tokens c (objs (eng_sched e) i)"
    using sync_engine_calm(2) [OF assms] settledD(1,4,7) [of "eng_sched e"] by (simp_all add: idle_running_def)
  show "sched_ready (eng_sched e)" by (rule calm_ready(1) [OF sync_engine_calm(1) [OF assms]])
qed

text \<open>What a step changes of a live request.\<close>

definition step_fields :: "request \<Rightarrow> request \<Rightarrow> bool" where
  "step_fields r r' \<longleftrightarrow> (\<exists>st k sp np ps pf. r' = r\<lparr>status := st, num_computed_tokens := k, spec_token_ids := sp,
     num_preemptions := np, prefill_stats := ps, is_prefill_chunk := pf\<rparr>)"

lemma schedule_effect:
  assumes run: "schedule env s = Some (Inr (so, s'))" and calm: "calm s" and j: "j \<in> snd ` set (requests_dict s)"
  shows "step_fields (objs s j) (objs s' j)"
proof -
  note rd = calm_ready [OF calm]
  have d5: "\<not> async_scheduling (conf s)" using calm settledD(5) by (simp add: calm_def)
  from run obtain st o1 s1 where ph: "schedule_phases env s = Some (Inr st)" and mo: "make_output st = Inr (o1, s1)"
    and ua: "update_after_schedule o1 s1 = Inr (so, s')"
    unfolding schedule_def by (auto simp: bindO_eq_Inr)
  note pd = schedule_phases_done [OF ph rd(1)]
  obtain km e x where s1: "s1 = (sch st)\<lparr>kv_manager := km, prev_step_scheduled_req_ids := x, encoder_manager := e\<rparr>"
    and t1: "num_scheduled_tokens o1 = sched_toks st" by (rule make_output_frame [OF mo])
  have c1: "conf s1 = conf s" using pd(3) by (simp add: s1)
  obtain b b' s2 where f: "foldE advance_step (sched_toks st) (b, s1) = Inr (b', s2)" "objs s' = objs s2"
    using ua d5 c1 unfolding update_after_schedule_def t1 by (elim bindE_eq_InrE) (auto simp: Let_def split: prod.splits)
  have dw: "distinct (map fst (sched_toks st))" using accountsD(1) [OF pd(2)] by (simp add: dict_wf_def)
  have nm: "named (requests_dict s1) (objs s1)" using placedD(1) [OF pd(1)] by (simp add: s1)
  have fr: "requests_dict (sch st) = requests_dict s" "same_request (objs s j) (objs (sch st) j)" using pd(5) by (simp_all add: step_frame_def)
  obtain k p where o: "objs s' j = (objs (sch st) j)\<lparr>num_computed_tokens := k, is_prefill_chunk := p\<rparr>"
    using advance_fold_exact [OF f(1) nm dw, of j] j by (auto simp: f(2) s1 fr(1))
  obtain st' k' sp np ps where "objs (sch st) j = (objs s j)\<lparr>status := st', num_computed_tokens := k', spec_token_ids := sp,
     num_preemptions := np, prefill_stats := ps\<rparr>" using fr(2) unfolding same_request_def by blast
  then have "objs s' j = (objs s j)\<lparr>status := st', num_computed_tokens := k, spec_token_ids := sp,
     num_preemptions := np, prefill_stats := ps, is_prefill_chunk := p\<rparr>" by (simp add: o)
  then show ?thesis unfolding step_fields_def by blast
qed

section \<open>Tokens up to the first stop\<close>

text \<open>Whether a request with these tokens stops.\<close>

definition stops :: "request \<Rightarrow> int \<Rightarrow> bool" where
  "stops r limit \<longleftrightarrow> (case check_stop r limit of Inl _ \<Rightarrow> False | Inr (b, _) \<Rightarrow> b)"

definition with_output :: "int list \<Rightarrow> request \<Rightarrow> request" where
  "with_output ts r = r\<lparr>output_token_ids := output_token_ids r @ ts, all_token_ids := all_token_ids r @ ts\<rparr>"

lemma with_output_simps [simp]:
  "with_output xs (r\<lparr>prompt_embeds_hashes := d, block_hashes := hs\<rparr>) = (with_output xs r)\<lparr>prompt_embeds_hashes := d, block_hashes := hs\<rparr>"
  "with_output xs (with_output ys r) = with_output (ys @ xs) r"
  by (simp_all add: with_output_def)

lemma check_stop_tokens:
  assumes "check_stop r limit = Inr (b, r1)" shows "all_token_ids r1 = all_token_ids r \<and> output_token_ids r1 = output_token_ids r"
  using assms unfolding check_stop_def by (auto split: option.splits if_split_asm elim!: bindE_eq_InrE)

lemma stops_hashes [simp]: "stops (r\<lparr>prompt_embeds_hashes := d, block_hashes := hs\<rparr>) limit = stops r limit"
proof -
  have n: "num_tokens (r\<lparr>prompt_embeds_hashes := d, block_hashes := hs\<rparr>) = num_tokens r"
    "num_output_tokens (r\<lparr>prompt_embeds_hashes := d, block_hashes := hs\<rparr>) = num_output_tokens r" by (simp_all add: num_tokens_def num_output_tokens_def)
  have e: "(case bindE m f of Inl e \<Rightarrow> False | Inr (b, _) \<Rightarrow> b) = (case m of Inl e \<Rightarrow> False | Inr x \<Rightarrow> case f x of Inl e \<Rightarrow> False | Inr (b, _) \<Rightarrow> b)"
    for m :: "'x result" and f :: "'x \<Rightarrow> (bool \<times> request) result" by (cases m) simp_all
  show ?thesis unfolding stops_def check_stop_def n e
    by (cases "req_pooling_params r"; cases "req_sampling_params r"; cases "py_index (output_token_ids r) (-1)") (simp_all add: e split: option.split sum.split)
qed

text \<open>
  The tokens kept are those up to the first that stops the request, and all of them when none does.
\<close>

lemma append_until_stop_prefix:
  assumes "append_until_stop env i out ts s = Some (Inr (out', stop, s'))" "hasher_ok env"
  shows "\<exists>k \<le> length ts. out' = out @ take k ts \<and> all_token_ids (objs s' i) = all_token_ids (objs s i) @ take k ts
    \<and> output_token_ids (objs s' i) = output_token_ids (objs s i) @ take k ts
    \<and> stop = (0 < k \<and> stops (with_output (take k ts) (objs s i)) (sc_max_model_len (conf s)))
    \<and> (\<forall>m. 0 < m \<and> m < k \<longrightarrow> \<not> stops (with_output (take m ts) (objs s i)) (sc_max_model_len (conf s)))
    \<and> (\<not> stop \<longrightarrow> k = length ts) \<and> (stop \<longrightarrow> is_finished (status (objs s' i))) \<and> (\<forall>j. j \<noteq> i \<longrightarrow> objs s' j = objs s j)"
  using assms
proof (induction ts arbitrary: out s)
  case Nil
  then show ?case by (simp add: retO_def)
next
  case (Cons t ts)
  from Cons.prems(1) obtain r b r1 where a: "append_output_token_ids (env_hasher env) [t] (objs s i) = Some (Inr r)"
    and c: "check_stop r (sc_max_model_len (conf s)) = Inr (b, r1)"
    and k: "(let s1 = set_obj i (\<lambda>_. r1) s in if b then retO (out @ [t], True, s1) else append_until_stop env i (out @ [t]) ts s1) = Some (Inr (out', stop, s'))"
    by (auto simp: bindO_eq_Inr)
  obtain d hs where r: "r = (with_output [t] (objs s i))\<lparr>prompt_embeds_hashes := d, block_hashes := hs\<rparr>"
    using append_token_result [OF a Cons.prems(2)] by (auto simp: with_output_def)
  have b: "stops (with_output [t] (objs s i)) (sc_max_model_len (conf s)) = b"
  proof -
    have "stops r (sc_max_model_len (conf s)) = b" using c by (simp add: stops_def)
    then show ?thesis by (simp add: r)
  qed
  show ?case
  proof (cases b)
    case True
    then have o: "out' = out @ [t]" "stop" "s' = set_obj i (\<lambda>_. r1) s" using k by (simp_all add: retO_def Let_def)
    show ?thesis
    proof (intro exI [of _ 1] conjI)
      show "all_token_ids (objs s' i) = all_token_ids (objs s i) @ take 1 (t # ts)"
        "output_token_ids (objs s' i) = output_token_ids (objs s i) @ take 1 (t # ts)"
        using check_stop_tokens [OF c] by (simp_all add: o(3) r with_output_def)
      show "stop \<longrightarrow> is_finished (status (objs s' i))" using check_stop_result [OF c] True by (simp add: o(3))
    qed (use o b True in simp_all)
  next
    case False
    then have r1: "r1 = r" using check_stop_result [OF c] by simp
    let ?s = "set_obj i (\<lambda>_. r) s"
    have e: "append_until_stop env i (out @ [t]) ts ?s = Some (Inr (out', stop, s'))" using k False r1 by (simp add: Let_def)
    have w: "stops (with_output xs r) l = stops (with_output (t # xs) (objs s i)) l" for xs l by (simp add: r)
    obtain k where k: "k \<le> length ts" "out' = (out @ [t]) @ take k ts" "all_token_ids (objs s' i) = all_token_ids r @ take k ts"
      "output_token_ids (objs s' i) = output_token_ids r @ take k ts"
      "stop = (0 < k \<and> stops (with_output (t # take k ts) (objs s i)) (sc_max_model_len (conf s)))"
      "\<forall>m. 0 < m \<and> m < k \<longrightarrow> \<not> stops (with_output (t # take m ts) (objs s i)) (sc_max_model_len (conf s))"
      "\<not> stop \<longrightarrow> k = length ts" "stop \<longrightarrow> is_finished (status (objs s' i))" "\<forall>j. j \<noteq> i \<longrightarrow> objs s' j = objs ?s j"
    proof -
      have s: "objs ?s i = r" "conf ?s = conf s" by simp_all
      from Cons.IH [OF e Cons.prems(2)] show thesis unfolding s w by (elim exE conjE) (rule that)
    qed
    have no: "\<not> stops (with_output (take m (t # ts)) (objs s i)) (sc_max_model_len (conf s))" if "0 < m" "m < Suc k" for m
    proof (cases m)
      case (Suc n)
      have "\<not> stops (with_output (t # take n ts) (objs s i)) (sc_max_model_len (conf s))"
      proof (cases "n = 0")
        case True
        then show ?thesis using b False by simp
      next
        case False
        then show ?thesis using that Suc k(6) by simp
      qed
      then show ?thesis by (simp add: Suc)
    qed (use that in simp)
    show ?thesis
    proof (intro exI [of _ "Suc k"] conjI)
      show "stop = (0 < Suc k \<and> stops (with_output (take (Suc k) (t # ts)) (objs s i)) (sc_max_model_len (conf s)))"
        using k(5) b False by (cases "k = 0") simp_all
      show "\<forall>m. 0 < m \<and> m < Suc k \<longrightarrow> \<not> stops (with_output (take m (t # ts)) (objs s i)) (sc_max_model_len (conf s))" using no by blast
      show "all_token_ids (objs s' i) = all_token_ids (objs s i) @ take (Suc k) (t # ts)"
        "output_token_ids (objs s' i) = output_token_ids (objs s i) @ take (Suc k) (t # ts)"
        unfolding k(3,4) by (simp_all add: r with_output_def)
      show "\<forall>j. j \<noteq> i \<longrightarrow> objs s' j = objs s j" using k(9) by simp
      show "\<not> stop \<longrightarrow> Suc k = length (t # ts)" using k(7) by simp
      show "stop \<longrightarrow> is_finished (status (objs s' i))" by (rule k(8))
    qed (use k(1,2) in simp_all)
  qed
qed

section \<open>A reachable state with a request\<close>

definition demo_events :: step_events where
  "demo_events = \<lparr>late_aborts = [], oldest_done = True, deferred_drafts = None, proposed_drafts = None\<rparr>"

definition demo_engine :: "kv_cache_manager \<Rightarrow> engine" where
  "demo_engine km = engine_init (demo_waiting km) 1 False False False False"

lemma demo_env_ok: "limits_ok demo_sched_config" "hasher_ok demo_sched_env" "order_ok demo_engine_env" "hasher_returns demo_sched_env"
  by (simp_all add: limits_ok_def config_ok_def demo_sched_config_def hasher_ok_def demo_sched_env_def order_ok_def demo_engine_env_def hasher_returns_def)

lemma demo_fresh: "fresh_request demo_ask (demo_scheduler km)"
  by (simp add: fresh_request_def addable_def steady_def demo_scheduler_def scheduler_init_def demo_ask_def demo_six_def demo_request_def
      dict_get_def num_tokens_def num_output_tokens_def demo_sched_config_def)

lemma demo_reach:
  assumes "search_ok km" shows "sync_engine demo_engine_env demo_sched_config (demo_engine km)"
proof -
  let ?e0 = "engine_init (demo_scheduler km) 1 False False False False"
  have "eng_add_request demo_engine_env demo_ask ?e0 = Some (Inr (demo_engine km))"
    using demo_added [of demo_sched_env km] by (simp add: eng_add_request_def engine_init_def demo_engine_def demo_engine_env_def retO_def)
      (simp add: demo_ask_def demo_six_def demo_request_def)
  moreover have "fresh_request demo_ask (eng_sched ?e0)" using demo_fresh by (simp add: engine_init_def)
  ultimately have r: "sync_reach demo_engine_env ?e0 (demo_engine km)" by (intro reach_move [OF reach_start] add_move)
  have "senv demo_engine_env = demo_sched_env" by (simp add: demo_engine_env_def)
  then have "limits_ok demo_sched_config \<and> hasher_ok (senv demo_engine_env) \<and> order_ok demo_engine_env" using demo_env_ok by simp
  then show ?thesis using assms r unfolding sync_engine_def demo_scheduler_def by blast
qed

lemma demo_engine_steps:
  obtains km outs e' where "search_ok km" "eng_step demo_engine_env demo_events (demo_engine km) = Some (Inr (outs, True, e'))"
    "all_token_ids (objs (eng_sched e') 0) = [1, 2, 3, 4, 5, 6, 7]" "running (eng_sched e') = [0]"
    "sync_engine demo_engine_env demo_sched_config (post_step demo_engine_env demo_events True e')"
proof -
  obtain km outs e' where e: "search_ok km" "eng_step demo_engine_env demo_events (demo_engine km) = Some (Inr (outs, True, e'))"
    "all_token_ids (objs (eng_sched e') 0) = [1, 2, 3, 4, 5, 6, 7]" "running (eng_sched e') = [0]" "runner_fits demo_engine_env (demo_waiting km)"
    unfolding demo_events_def demo_engine_def by (rule demo_whole_step) blast
  have x: "demo_engine_env\<lparr>exec := exec demo_engine_env\<rparr> = demo_engine_env" by simp
  have "sync_move demo_engine_env (demo_engine km) (post_step demo_engine_env demo_events True e')"
    by (rule step_move [where x = "exec demo_engine_env" and outs = outs]) (use e(2,5) in \<open>simp_all add: x demo_engine_def engine_init_def\<close>)
  then have "sync_engine demo_engine_env demo_sched_config (post_step demo_engine_env demo_events True e')"
    using demo_reach [OF e(1)] unfolding sync_engine_def by (blast intro: reach_move)
  then show thesis using that e(1-4) by blast
qed

lemma demo_abort:
  assumes "km_reach km"
  obtains s' where "finish_requests demo_sched_env (One_id ''a'') FINISHED_ABORTED (demo_waiting km) = Inr ([(''a'', 0)], s')"
proof -
  obtain fl where c: "coord_inv (\<lambda>_. 0) (coordinator km) fl" using km_reach_inv [OF assms] by (rule km_invE)
  obtain co where co: "coord_free ''a'' (coordinator km) = Inr co" using coord_free_keeps [OF c] by blast
  show thesis
    using that co by (simp add: finish_requests_def is_finished_def ids_of_request_def collect_finish_step_def dict_get_def drop_finished_def
        fcfs_remove_requests_def finish_one_def free_request_def sched_free_encoder_def ec_free_def get_cached_input_ids_def demo_sched_env_def
        note_finished_def sched_free_blocks_def sched_free_kv_def km_free_def on_coordinator_def dict_popE_def set_obj_def demo_eval)
qed

section \<open>Requests at the end of the model's length\<close>


text \<open>A state with one running request.\<close>

definition demo_solo :: "request \<Rightarrow> kv_cache_manager \<Rightarrow> step_vars" where
  "demo_solo r km = (demo_step0 km)\<lparr>sch := (demo_waiting km)\<lparr>objs := (\<lambda>_. r), waiting := FCFSRequestQueue [], running := [0]\<rparr>\<rparr>"

lemma demo_solo_simps [simp]:
  "py_index (running (sch (demo_solo r km))) (req_index (demo_solo r km)) = Inr 0" "objs (sch (demo_solo r km)) = (\<lambda>_. r)"
  "conf (sch (demo_solo r km)) = demo_sched_config" "token_budget (demo_solo r km) = 8"
  by (simp_all add: demo_solo_def demo_step0_def py_index_def demo_waiting_def demo_scheduler_def scheduler_init_def)

section \<open>Properties\<close>

text \<open>
  C1. In every state the synchronous engine reaches, each live request is in exactly one place, once:
  the running list or one of the two queues, as its status says; no request that has ended is left
  in any of them, and no more requests run than are allowed.
\<close>

theorem engine_requests_placed:
  assumes "sync_engine env c e"
  shows "mset (running (eng_sched e)) + ids_in (waiting (eng_sched e)) + ids_in (skipped_waiting (eng_sched e))
      = mset (map snd (requests_dict (eng_sched e)))
    \<and> distinct (map snd (requests_dict (eng_sched e)))
    \<and> (\<forall>(rid, i) \<in> set (requests_dict (eng_sched e)). request_id (objs (eng_sched e) i) = rid)
    \<and> (\<forall>i \<in> set (running (eng_sched e)). status (objs (eng_sched e) i) = RUNNING)
    \<and> (\<forall>r \<in> set (queue_reqs (waiting (eng_sched e))) \<union> set (queue_reqs (skipped_waiting (eng_sched e))).
         r = objs (eng_sched e) (obj_id r) \<and> waiting_status (status r))
    \<and> int (length (running (eng_sched e))) \<le> max_num_running_reqs c"
proof -
  note p = sync_engine_settled(1) [OF assms]
  have "mset (map snd (requests_dict (eng_sched e))) = mset (running (eng_sched e)) + ids_in (waiting (eng_sched e)) + ids_in (skipped_waiting (eng_sched e))"
    using placedD(2) [OF p] by simp
  moreover have "distinct (map snd (requests_dict (eng_sched e)))" using placedD(1) [OF p] by (rule named_distinct)
  moreover have "r = objs (eng_sched e) (obj_id r) \<and> waiting_status (status r)"
    if "r \<in> set (queue_reqs (waiting (eng_sched e))) \<union> set (queue_reqs (skipped_waiting (eng_sched e)))" for r
  proof -
    have "r = objs (eng_sched e) (obj_id r)" using placedD(3,4) [OF p] that unfolding copies_ok_def by blast
    moreover have "waiting_status (status (objs (eng_sched e) (obj_id r)))" using placedD(6) [OF p] that by blast
    ultimately show ?thesis by metis
  qed
  moreover have "\<forall>(rid, i) \<in> set (requests_dict (eng_sched e)). request_id (objs (eng_sched e) i) = rid"
    using placedD(1) [OF p] by (auto simp: named_def)
  ultimately show ?thesis using placedD(5) [OF p] sync_engine_settled(2) [OF assms] by metis
qed

theorem engine_requests_placed_witness:
  "\<exists>e. sync_engine demo_engine_env demo_sched_config e \<and> running (eng_sched e) = [0]
    \<and> mset (running (eng_sched e)) + ids_in (waiting (eng_sched e)) + ids_in (skipped_waiting (eng_sched e)) = mset (map snd (requests_dict (eng_sched e)))"
proof -
  obtain km outs e' where e: "running (eng_sched e') = [0]"
    "sync_engine demo_engine_env demo_sched_config (post_step demo_engine_env demo_events True e')" by (rule demo_engine_steps) blast
  have "post_step demo_engine_env demo_events True e' = e'" by (simp add: post_step_def demo_events_def)
  then show ?thesis using e engine_requests_placed [OF e(2)] by metis
qed

text \<open>
  C6. Token counts in every state the synchronous engine reaches: a live request has at least one token
  and no more than the model's length, and what a running request has computed is no more than what it
  has and leaves a position free below the model's length.
\<close>

theorem engine_tokens_bounded:
  assumes "sync_engine env c e"
  shows "(\<forall>i \<in> snd ` set (requests_dict (eng_sched e)). 0 < num_tokens (objs (eng_sched e) i) \<and> num_tokens (objs (eng_sched e) i) \<le> sc_max_model_len c
        \<and> num_output_placeholders (objs (eng_sched e) i) = 0)
    \<and> (\<forall>i \<in> set (running (eng_sched e)). num_computed_tokens (objs (eng_sched e) i) \<le> num_tokens (objs (eng_sched e) i)
        \<and> num_computed_tokens (objs (eng_sched e) i) < sc_max_model_len c)"
  using sync_engine_settled(3,4) [OF assms] unfolding steady_def idle_tokens_def by blast

theorem engine_tokens_bounded_witness:
  "\<exists>e. sync_engine demo_engine_env demo_sched_config e \<and> all_token_ids (objs (eng_sched e) 0) = [1, 2, 3, 4, 5, 6, 7]
    \<and> num_computed_tokens (objs (eng_sched e) 0) \<le> 7"
proof -
  obtain km outs e' where e: "all_token_ids (objs (eng_sched e') 0) = [1, 2, 3, 4, 5, 6, 7]" "running (eng_sched e') = [0]"
    "sync_engine demo_engine_env demo_sched_config (post_step demo_engine_env demo_events True e')" by (rule demo_engine_steps) blast
  have "post_step demo_engine_env demo_events True e' = e'" by (simp add: post_step_def demo_events_def)
  then have s: "sync_engine demo_engine_env demo_sched_config e'" using e(3) by simp
  have "num_computed_tokens (objs (eng_sched e') 0) \<le> num_tokens (objs (eng_sched e') 0)"
    using engine_tokens_bounded [OF s] e(2) by simp
  then show ?thesis using e(1) s by (auto simp: num_tokens_def)
qed

text \<open>
  C2. A step of the synchronous engine always ends, with outputs or an exception, whatever the model
  answers and whatever is aborted meanwhile: neither the loop over running requests, which makes room by
  preempting, nor that over waiting requests, nor the search for a cached prefix runs forever. The block
  hasher has to return, as that of the code does for every block size above 0.
\<close>

theorem engine_step_ends:
  assumes "sync_engine env c e" "hasher_returns (senv env)"
  shows "\<exists>x. eng_step (env\<lparr>exec := ex\<rparr>) ev e = Some x"
  using eng_step_returns [OF sync_engine_calm(1) [OF assms(1)], of "env\<lparr>exec := ex\<rparr>" ev] assms(2) by (simp add: returns_def)

theorem engine_step_ends_witness:
  "\<exists>km. search_ok km \<and> (\<forall>ex ev. \<exists>x. eng_step (demo_engine_env\<lparr>exec := ex\<rparr>) ev (demo_engine km) = Some x)"
proof -
  obtain km outs e' where km: "search_ok km" by (rule demo_engine_steps) blast
  have "hasher_returns (senv demo_engine_env)" using demo_env_ok(4) by (simp add: demo_engine_env_def)
  from engine_step_ends [OF demo_reach [OF km] this] km show ?thesis by blast
qed

text \<open>
  C4. The limits of a step, from every state the engine reaches: what is scheduled names running requests,
  each once and with at least one token, in total no more than the token budget; no more requests run
  than allowed; and no request computes past its tokens and the drafts that go with them.
\<close>

theorem engine_schedule_limits:
  assumes "sync_engine env c e" "schedule (senv env) (eng_sched e) = Some (Inr (so, s'))"
  shows "(\<Sum>(_, n) \<leftarrow> num_scheduled_tokens so. n) \<le> max_num_scheduled_tokens c \<and> int (length (running s')) \<le> max_num_running_reqs c
    \<and> distinct (map fst (num_scheduled_tokens so))
    \<and> (\<forall>(rid, n) \<in> set (num_scheduled_tokens so). 0 < n \<and> (\<exists>i \<in> set (running s'). dict_get (requests_dict s') rid = Some i
         \<and> num_computed_tokens (objs s' i) \<le> num_tokens (objs s' i) + drafts_of rid (scheduled_spec_decode_tokens so)))"
proof -
  note calm = sync_engine_calm [OF assms(1)]
  note sp = schedule_places [OF assms(2) calm_ready(1) [OF calm(1)], unfolded calm(2)]
  have st: "settled s'" "pending so (map fst (num_scheduled_tokens so)) s'" using schedule_stepped [OF assms(2) calm(1)] by (simp_all add: stepped_def)
  have ids: "request_id (objs s' i) = request_id (objs (eng_sched e) i)" if "i \<in> set (running s')" for i
  proof -
    have "i \<in> snd ` set (requests_dict (eng_sched e))" using running_live [OF sp(1) that] sp(4) by simp
    from schedule_effect [OF assms(2) calm(1) this] show ?thesis unfolding step_fields_def by (elim exE) simp
  qed
  have one: "\<exists>i \<in> set (running s'). dict_get (requests_dict s') rid = Some i
         \<and> num_computed_tokens (objs s' i) \<le> num_tokens (objs s' i) + drafts_of rid (scheduled_spec_decode_tokens so)"
    if "(rid, n) \<in> set (num_scheduled_tokens so)" for rid n
  proof -
    have rid: "rid \<in> set (map fst (num_scheduled_tokens so))" using that by force
    then obtain i where i: "i \<in> set (running s')" "request_id (objs s' i) = rid" using sp(9) ids by auto
    have "dict_get (requests_dict s') rid = Some i" using namedD [OF placedD(1) [OF sp(1)] running_live [OF sp(1) i(1)]] i(2) by simp
    moreover have "stepped_tokens (conf s') (drafts_of rid (scheduled_spec_decode_tokens so)) (objs s' i)"
      using st(2) i rid unfolding pending_def Let_def by metis
    ultimately show ?thesis using i(1) by (auto simp: stepped_tokens_def)
  qed
  show ?thesis using sp(2,6,7,8) one by (auto simp: dict_wf_def)
qed

theorem engine_schedule_limits_witness:
  "\<exists>km so s'. search_ok km \<and> schedule demo_sched_env (eng_sched (demo_engine km)) = Some (Inr (so, s'))
    \<and> num_scheduled_tokens so = [(''a'', 6)] \<and> (\<Sum>(_, n) \<leftarrow> num_scheduled_tokens so. n) \<le> max_num_scheduled_tokens demo_sched_config"
proof -
  obtain km so s' where s: "search_ok km" "schedule demo_sched_env (demo_waiting km) = Some (Inr (so, s'))" "num_scheduled_tokens so = [(''a'', 6)]"
    by (rule demo_schedule) blast
  have r: "schedule (senv demo_engine_env) (eng_sched (demo_engine km)) = Some (Inr (so, s'))"
    using s(2) by (simp add: demo_engine_env_def demo_engine_def engine_init_def)
  have "schedule demo_sched_env (eng_sched (demo_engine km)) = Some (Inr (so, s'))" using r by (simp add: demo_engine_env_def)
  then show ?thesis using s(1,3) engine_schedule_limits [OF demo_reach [OF s(1)] r] by blast
qed

text \<open>
  C13. A scheduling step changes of a live request only its status, its computed tokens, drafts and
  preemptions, its prefill statistics and whether it is a prefill chunk: its tokens, its parameters
  and its block hashes stay, and no request appears or disappears.
\<close>

theorem engine_schedule_type:
  assumes "sync_engine env c e" "schedule (senv env) (eng_sched e) = Some (Inr (so, s'))"
  shows "requests_dict s' = requests_dict (eng_sched e) \<and> conf s' = c
    \<and> (\<forall>i \<in> snd ` set (requests_dict s'). step_fields (objs (eng_sched e) i) (objs s' i))"
proof -
  note calm = sync_engine_calm [OF assms(1)]
  note sp = schedule_places(4,5) [OF assms(2) calm_ready(1) [OF calm(1)], unfolded calm(2)]
  show ?thesis using sp schedule_effect [OF assms(2) calm(1)] by metis
qed

theorem engine_schedule_type_witness:
  "\<exists>km so s'. search_ok km \<and> schedule demo_sched_env (eng_sched (demo_engine km)) = Some (Inr (so, s')) \<and> objs s' 0 = demo_computed
    \<and> step_fields demo_ask (objs s' 0)"
proof -
  obtain km so s' where s: "search_ok km" "schedule demo_sched_env (demo_waiting km) = Some (Inr (so, s'))" "objs s' 0 = demo_computed"
    "requests_dict s' = [(''a'', 0)]" by (rule demo_schedule) blast
  have d: "eng_sched (demo_engine km) = demo_waiting km" "senv demo_engine_env = demo_sched_env" "objs (demo_waiting km) 0 = demo_ask"
    by (simp_all add: demo_engine_env_def demo_engine_def engine_init_def demo_waiting_def)
  have r: "schedule (senv demo_engine_env) (eng_sched (demo_engine km)) = Some (Inr (so, s'))" using s(2) d by simp
  have "step_fields demo_ask (objs s' 0)" using engine_schedule_type [OF demo_reach [OF s(1)] r] s(4) d by simp
  then show ?thesis using s(1-3) d(1) by auto
qed

text \<open>
  C12. Finishing requests from outside, as an abort does: exactly the live requests that are named end,
  with the status given and nothing else changed; they leave the dict and the running list, the others
  stay as they are and where they are, and the ids and clients returned are those of the requests ended.
\<close>

theorem finish_requests_exact:
  assumes "sync_engine env c e" "finish_requests (senv env) x st (eng_sched e) = Inr (out, s')" "request_ids_ok x"
  shows "requests_dict s' = filter (\<lambda>y. fst y \<notin> set (ids_of_request x (eng_sched e))) (requests_dict (eng_sched e))
    \<and> (\<forall>(rid, i) \<in> set (requests_dict (eng_sched e)). objs s' i = (if rid \<in> set (ids_of_request x (eng_sched e))
         then (objs (eng_sched e) i)\<lparr>status := st\<rparr> else objs (eng_sched e) i))
    \<and> running s' = filter (\<lambda>i. request_id (objs (eng_sched e) i) \<notin> set (ids_of_request x (eng_sched e))) (running (eng_sched e))
    \<and> mset (running s') + ids_in (waiting s') + ids_in (skipped_waiting s') = mset (map snd (requests_dict s'))
    \<and> set out = (\<lambda>(rid, i). (rid, client_index (objs (eng_sched e) i))) ` {y \<in> set (requests_dict (eng_sched e)). fst y \<in> set (ids_of_request x (eng_sched e))}"
proof -
  let ?s = "eng_sched e" let ?ids = "ids_of_request x ?s"
  note p = sync_engine_settled(1) [OF assms(1)]
  note f = finish_requests_places [OF assms(2) p assms(3)]
  have nm: "named (requests_dict ?s) (objs ?s)" by (rule placedD(1) [OF p])
  have get: "dict_get (requests_dict ?s) rid = Some i \<longleftrightarrow> (rid, i) \<in> set (requests_dict ?s)" for rid i
    using nm dict_get_SomeD [of "requests_dict ?s" rid i] by (auto simp: named_def dict_get_wf)
  have live: "i \<in> set (named_live ?s ?ids) \<longleftrightarrow> rid \<in> set ?ids" if "(rid, i) \<in> set (requests_dict ?s)" for rid i
  proof -
    have "request_id (objs ?s i) = r" if "(r, i) \<in> set (requests_dict ?s)" for r using nm that by (auto simp: named_def)
    then have "r = rid" if "(r, i) \<in> set (requests_dict ?s)" for r using that \<open>(rid, i) \<in> _\<close> by metis
    then show ?thesis using that unfolding named_live_set get by blast
  qed
  have name: "(request_id (objs ?s i), i) \<in> set (requests_dict ?s)" if "i \<in> snd ` set (requests_dict ?s)" for i
    using that nm by (force simp: named_def)
  have rn: "running s' = filter (\<lambda>i. request_id (objs ?s i) \<notin> set ?ids) (running ?s)"
    unfolding f(7) using live name running_live [OF p] by (intro filter_cong) blast+
  have out: "set out = (\<lambda>(rid, i). (rid, client_index (objs ?s i))) ` {y \<in> set (requests_dict ?s). fst y \<in> set ?ids}"
  proof -
    have "set (named_live ?s ?ids) = snd ` {y \<in> set (requests_dict ?s). fst y \<in> set ?ids}"
      by (force simp: named_live_set get)
    then have "set out = (\<lambda>i. (request_id (objs ?s i), client_index (objs ?s i))) ` snd ` {y \<in> set (requests_dict ?s). fst y \<in> set ?ids}"
      by (simp add: f(6))
    also have "\<dots> = (\<lambda>(rid, i). (rid, client_index (objs ?s i))) ` {y \<in> set (requests_dict ?s). fst y \<in> set ?ids}"
      unfolding image_image using nm by (intro image_cong) (auto simp: named_def)
    finally show ?thesis .
  qed
  have ob: "\<forall>(rid, i) \<in> set (requests_dict ?s). objs s' i = (if rid \<in> set ?ids then (objs ?s i)\<lparr>status := st\<rparr> else objs ?s i)"
    using live f(4,5) by auto
  show ?thesis using f(3) ob rn out placedD(2) [OF f(2)] by simp
qed

theorem finish_requests_exact_witness:
  "\<exists>km s'. search_ok km \<and> finish_requests demo_sched_env (One_id ''a'') FINISHED_ABORTED (eng_sched (demo_engine km)) = Inr ([(''a'', 0)], s')
    \<and> requests_dict s' = [] \<and> objs s' 0 = demo_ask\<lparr>status := FINISHED_ABORTED\<rparr>"
proof -
  obtain km where km: "search_ok km" "km_reach km" by (rule demo_plain_km) blast
  obtain s' where s: "finish_requests demo_sched_env (One_id ''a'') FINISHED_ABORTED (demo_waiting km) = Inr ([(''a'', 0)], s')"
    by (rule demo_abort [OF km(2)])
  have d: "eng_sched (demo_engine km) = demo_waiting km" "senv demo_engine_env = demo_sched_env" "objs (demo_waiting km) 0 = demo_ask"
    "requests_dict (demo_waiting km) = [(''a'', 0)]"
    by (simp_all add: demo_engine_env_def demo_engine_def engine_init_def demo_waiting_def)
  from finish_requests_exact [OF demo_reach [OF km(1)], of "One_id ''a''", unfolded d, OF s]
  show ?thesis using s km(1) d by (auto simp: request_ids_ok_def ids_of_request_def)
qed

text \<open>
  C14. Taking generated tokens keeps them up to and with the first after which the request stops, and all
  of them when it does not stop; the tokens kept are appended to the request, and no other request
  changes.
\<close>

theorem output_kept_until_stop:
  assumes "append_until_stop env i [] ts s = Some (Inr (out, stop, s'))" "hasher_ok env"
  shows "\<exists>k \<le> length ts. out = take k ts \<and> all_token_ids (objs s' i) = all_token_ids (objs s i) @ out
    \<and> output_token_ids (objs s' i) = output_token_ids (objs s i) @ out
    \<and> stop = (0 < k \<and> stops (with_output out (objs s i)) (sc_max_model_len (conf s)))
    \<and> (\<forall>m. 0 < m \<and> m < k \<longrightarrow> \<not> stops (with_output (take m ts) (objs s i)) (sc_max_model_len (conf s)))
    \<and> (\<not> stop \<longrightarrow> k = length ts) \<and> (stop \<longrightarrow> is_finished (status (objs s' i))) \<and> (\<forall>j. j \<noteq> i \<longrightarrow> objs s' j = objs s j)"
  using append_until_stop_prefix [OF assms] by (metis append_Nil)

theorem output_kept_until_stop_witness:
  "\<exists>km s'. append_until_stop demo_sched_env 0 [] [7, 8, 9] (demo_waiting km) = Some (Inr ([7, 8], True, s'))
    \<and> all_token_ids (objs s' 0) = [1, 2, 3, 4, 5, 6, 7, 8] \<and> is_finished (status (objs s' 0))"
proof -
  fix km
  obtain s' where s: "append_until_stop demo_sched_env 0 [] [7, 8, 9] (demo_waiting km) = Some (Inr ([7, 8], True, s'))"
    by (simp add: append_output_token_ids_def update_block_hashes_def demo_sched_env_def check_stop_def py_index_def num_output_tokens_def
        num_tokens_def set_obj_def demo_eval)
  have "objs (demo_waiting km) 0 = demo_ask" "all_token_ids demo_ask = [1, 2, 3, 4, 5, 6]"
    by (simp_all add: demo_waiting_def demo_ask_def demo_six_def demo_request_def)
  then have "all_token_ids (objs s' 0) = [1, 2, 3, 4, 5, 6, 7, 8]" "is_finished (status (objs s' 0))"
    using output_kept_until_stop [OF s demo_env_ok(2)] by auto
  then show ?thesis using s by blast
qed







end
