(* ===== verification/Engine_Proc.thy ===== *)
theory Engine_Proc
  imports Engine_Core
begin

text \<open>
  The engine process (\<open>EngineCoreProc\<close>) and its data-parallel form (\<open>DPEngineCoreProc\<close>): requests
  of clients, the input loop, pausing, shutdown, and the waves that keep data-parallel ranks in step.

  The records extend the engine's, as the classes extend \<open>EngineCore\<close>; a method that a subclass
  overrides is an argument of the methods that call it. A utility call is the method it names, with
  its exceptions already caught: it says whether it failed, or \<open>None\<close> for a future, and what it left.
  Sockets, handshakes and elastic scaling are left out.
\<close>

section \<open>The engine process\<close>

datatype shutdown_state = SHUTDOWN_NONE | SHUTDOWN_REQUESTED | SHUTTING_DOWN

text \<open>\<open>EngineCoreOutputs\<close> with the fields that only the process sets.\<close>

record core_outputs = engine_core_outputs +
  utility_output :: "(int \<times> bool) option"
  wave_complete :: "int option"
  start_wave :: "int option"
  request_counts :: "((int \<times> int) \<times> int \<times> int) option"

definition core_outputs_of :: "engine_core_outputs \<Rightarrow> core_outputs" where
  "core_outputs_of o1 = engine_core_outputs.extend o1
     \<lparr>utility_output = None, wave_complete = None, start_wave = None, request_counts = None\<rparr>"

definition no_outputs :: core_outputs where
  "no_outputs = core_outputs_of \<lparr>eco_outputs = [], eco_finished_requests = None\<rparr>"

text \<open>
  A callback of the idle engine says whether to clear the caches, and the client and call to answer
  when the future of the pause is done.
\<close>

type_synonym idle_callback = "bool \<times> (int \<times> int) option"

record engine_proc = engine +
  output_queue :: "(int \<times> core_outputs) list"
  proc_shutdown :: shutdown_state
  shutdown_timeout :: int
  engines_running :: bool
  idle_callbacks :: "idle_callback list"
  process_input_queue_block :: bool
  has_coordinator :: bool
  engine_index :: int

datatype 'p client_request =
    WAKEUP
  | ADD request int
  | ABORT "string list"
  | UTILITY int int "'p \<Rightarrow> bool option \<times> 'p"
  | EXECUTOR_FAILED
  | START_DP_WAVE int int

definition put_output :: "int \<Rightarrow> core_outputs \<Rightarrow> 'a engine_proc_scheme \<Rightarrow> 'a engine_proc_scheme" where
  "put_output client out p = p\<lparr>output_queue := output_queue p @ [(client, out)]\<rparr>"

definition has_work :: "'a engine_proc_scheme \<Rightarrow> bool" where
  "has_work p \<longleftrightarrow> engines_running p \<or> has_requests (eng_sched p) \<or> (batch_queue p \<noteq> None \<and> batch_queue p \<noteq> Some [])"

definition is_running :: "'a engine_proc_scheme \<Rightarrow> bool" where
  "is_running p \<longleftrightarrow> proc_shutdown p = SHUTDOWN_NONE"

section \<open>Outputs for requests that end early\<close>

definition finish_output :: "finish_reason \<Rightarrow> string \<Rightarrow> engine_core_output" where
  "finish_output reason rid = \<lparr>eo_request_id = rid, eo_new_token_ids = [], eo_prompt_logprobs = None, eo_pooling_output = None,
     eo_finish_reason = Some reason, eo_stop_reason = None, eo_prefill_stats = None\<rparr>"

definition send_finish_outputs_to_client :: "string list \<Rightarrow> int \<Rightarrow> finish_reason \<Rightarrow> 'a engine_proc_scheme \<Rightarrow> 'a engine_proc_scheme" where
  "send_finish_outputs_to_client ids client reason p =
     put_output client (no_outputs\<lparr>eco_outputs := map (finish_output reason) ids, eco_finished_requests := Some (set ids)\<rparr>) p"

definition group_by_client :: "(string \<times> int) list \<Rightarrow> (int \<times> string set) list" where
  "group_by_client aborted =
     fold (\<lambda>(rid, c) d. dict_set c (insert rid (case dict_get d c of None \<Rightarrow> {} | Some ids \<Rightarrow> ids)) d) aborted []"

definition send_abort_outputs :: "engine_env \<Rightarrow> (string \<times> int) list \<Rightarrow> 'a engine_proc_scheme \<Rightarrow> 'a engine_proc_scheme" where
  "send_abort_outputs env aborted p =
     fold (\<lambda>(c, ids). send_finish_outputs_to_client (id_order env ids) c FR_ABORT) (group_by_client aborted) p"

definition handle_request_preproc_error :: "string \<Rightarrow> int \<Rightarrow> 'a engine_proc_scheme \<Rightarrow> 'a engine_proc_scheme" where
  "handle_request_preproc_error rid client p = send_finish_outputs_to_client [rid] client FR_ERROR p"

section \<open>Requests of clients\<close>

definition reject_add_in_shutdown :: "request \<Rightarrow> 'a engine_proc_scheme \<Rightarrow> bool \<times> 'a engine_proc_scheme" where
  "reject_add_in_shutdown r p =
     (if is_running p then (False, p)
      else (True, send_finish_outputs_to_client [request_id r] (client_index r) FR_ABORT p))"

definition reject_utility_in_shutdown :: "int \<Rightarrow> int \<Rightarrow> 'a engine_proc_scheme \<Rightarrow> bool \<times> 'a engine_proc_scheme" where
  "reject_utility_in_shutdown client call_id p =
     (if is_running p then (False, p)
      else (True, put_output client (no_outputs\<lparr>utility_output := Some (call_id, True)\<rparr>) p))"

text \<open>\<open>_invoke_utility_method\<close>: the output is sent at once, or when the future is done.\<close>

definition answer_utility :: "int \<Rightarrow> int \<Rightarrow> bool \<Rightarrow> 'a engine_proc_scheme \<Rightarrow> 'a engine_proc_scheme" where
  "answer_utility client call_id failed p = put_output client (no_outputs\<lparr>utility_output := Some (call_id, failed)\<rparr>) p"

definition invoke_utility_method :: "int \<Rightarrow> int \<Rightarrow> bool option \<times> 'a engine_proc_scheme \<Rightarrow> 'a engine_proc_scheme" where
  "invoke_utility_method client call_id res =
     (let (outcome, p) = res
      in case outcome of
           Some failed \<Rightarrow> answer_utility client call_id failed p
         | None \<Rightarrow> if idle_callbacks p = [] then p
                   else p\<lparr>idle_callbacks := butlast (idle_callbacks p) @ [(fst (last (idle_callbacks p)), Some (client, call_id))]\<rparr>)"

definition proc_handle_client_request ::
  "(request \<Rightarrow> int \<Rightarrow> 'a engine_proc_scheme \<Rightarrow> 'a engine_proc_scheme io) \<Rightarrow> engine_env
     \<Rightarrow> 'a engine_proc_scheme client_request \<Rightarrow> 'a engine_proc_scheme \<Rightarrow> 'a engine_proc_scheme io" where
  "proc_handle_client_request add env req p =
     (case req of
        WAKEUP \<Rightarrow> retO p
      | ADD r wave \<Rightarrow> (let (rejected, p1) = reject_add_in_shutdown r p in if rejected then retO p1 else add r wave p1)
      | ABORT ids \<Rightarrow> Some (abort_requests env ids p)
      | UTILITY client call_id call \<Rightarrow>
          (let (rejected, p1) = reject_utility_in_shutdown client call_id p
           in if rejected then retO p1 else retO (invoke_utility_method client call_id (call p1)))
      | EXECUTOR_FAILED \<Rightarrow> Some (Inl RuntimeError)
      | START_DP_WAVE _ _ \<Rightarrow> retO p)"

definition proc_add_request :: "engine_env \<Rightarrow> request \<Rightarrow> int \<Rightarrow> 'a engine_proc_scheme \<Rightarrow> 'a engine_proc_scheme io" where
  "proc_add_request env r wave p = eng_add_request env r p"

section \<open>Pausing and the callbacks of an idle engine\<close>

text \<open>A pause either is complete, or its future completes when the engine is idle.\<close>

definition proc_pause_scheduler ::
  "engine_env \<Rightarrow> string \<Rightarrow> bool \<Rightarrow> 'a engine_proc_scheme \<Rightarrow> (bool \<times> 'a engine_proc_scheme) result" where
  "proc_pause_scheduler env mode clear_cache p =
     bindE (guardE (mode \<in> {''keep'', ''abort'', ''wait''}) ValueError) (\<lambda>_.
     bindE (if mode = ''abort'' then bindE (abort_all env p) (\<lambda>(out, p1). Inr (send_abort_outputs env out p1)) else Inr p) (\<lambda>p1.
       let p2 = p1\<lparr>eng_sched := set_pause_state (pause_of_mode mode) (eng_sched p1)\<rparr>
       in if \<not> has_work p2
          then bindE (if clear_cache then reset_caches env p2 else Inr p2) (\<lambda>p3. Inr (True, p3))
          else Inr (False, p2\<lparr>idle_callbacks := idle_callbacks p2 @ [(clear_cache, None)]\<rparr>)))"

definition engine_idle_callback :: "engine_env \<Rightarrow> idle_callback \<Rightarrow> 'a engine_proc_scheme \<Rightarrow> 'a engine_proc_scheme result" where
  "engine_idle_callback env cb p =
     bindE (if fst cb then reset_caches env p else Inr p) (\<lambda>p1.
       Inr (case snd cb of None \<Rightarrow> p1 | Some (client, call_id) \<Rightarrow> answer_utility client call_id False p1))"

definition notify_idle_state_callbacks :: "engine_env \<Rightarrow> 'a engine_proc_scheme \<Rightarrow> 'a engine_proc_scheme result" where
  "notify_idle_state_callbacks env p = foldE (engine_idle_callback env) (rev (idle_callbacks p)) (p\<lparr>idle_callbacks := []\<rparr>)"

section \<open>The busy loop\<close>

text \<open>
  The input queue is an argument: the requests that wait when the method is called. With an empty
  queue a blocking \<open>get\<close> does not return, which is \<open>None\<close>.
\<close>

fun wait_for_work ::
  "('p client_request \<Rightarrow> 'a engine_proc_scheme \<Rightarrow> 'a engine_proc_scheme io) \<Rightarrow> engine_env \<Rightarrow> 'p client_request list
     \<Rightarrow> 'a engine_proc_scheme \<Rightarrow> ('p client_request list \<times> 'a engine_proc_scheme) io" where
  "wait_for_work handle env [] p =
     (if has_work p \<or> \<not> is_running p then retO ([], p)
      else bindO (Some (notify_idle_state_callbacks env p)) (\<lambda>p1.
             let p2 = p1\<lparr>aborts_queue := []\<rparr>
             in if process_input_queue_block p2 then None else retO ([], p2)))"
| "wait_for_work handle env (r # rs) p =
     (if has_work p \<or> \<not> is_running p then retO (r # rs, p)
      else bindO (Some (notify_idle_state_callbacks env p)) (\<lambda>p1.
             bindO (handle r p1) (\<lambda>p2. if process_input_queue_block p1 then wait_for_work handle env rs p2 else retO (rs, p2))))"

definition process_input_queue ::
  "('p client_request \<Rightarrow> 'a engine_proc_scheme \<Rightarrow> 'a engine_proc_scheme io) \<Rightarrow> engine_env \<Rightarrow> 'p client_request list
     \<Rightarrow> 'a engine_proc_scheme \<Rightarrow> 'a engine_proc_scheme io" where
  "process_input_queue handle env reqs p =
     bindO (wait_for_work handle env reqs p) (\<lambda>(rest, p1). foldO handle rest p1)"

definition step_fn ::
  "engine_env \<Rightarrow> step_events \<Rightarrow> 'a engine_scheme \<Rightarrow> (client_outputs \<times> bool \<times> 'a engine_scheme) io" where
  "step_fn env ev e =
     (if batch_queue e = None then eng_step env ev e
      else bindO (eng_step_with_batch_queue env ev e) (\<lambda>(outs, executed, e1).
             retO (case outs of None \<Rightarrow> [] | Some os \<Rightarrow> os, executed, e1)))"

definition process_engine_step :: "engine_env \<Rightarrow> step_events \<Rightarrow> 'a engine_proc_scheme \<Rightarrow> (bool \<times> 'a engine_proc_scheme) io" where
  "process_engine_step env ev p =
     bindO (step_fn env ev p) (\<lambda>(outs, executed, p1).
       retO (executed, post_step env ev executed (fold (\<lambda>(c, o1). put_output c (core_outputs_of o1)) outs p1)))"

definition handle_shutdown :: "engine_env \<Rightarrow> 'a engine_proc_scheme \<Rightarrow> (bool \<times> 'a engine_proc_scheme) result" where
  "handle_shutdown env p =
     (if proc_shutdown p = SHUTDOWN_NONE then Inr (True, p)
      else bindE (if proc_shutdown p = SHUTDOWN_REQUESTED
                  then bindE (if shutdown_timeout p = 0
                              then bindE (abort_all env p) (\<lambda>(out, p1). Inr (send_abort_outputs env out p1))
                              else Inr p) (\<lambda>p1. Inr (p1\<lparr>proc_shutdown := SHUTTING_DOWN\<rparr>))
                  else Inr p) (\<lambda>p2. Inr (has_work p2, p2)))"

text \<open>One round of the busy loop: \<open>False\<close> when the loop ends.\<close>

definition busy_round ::
  "('p client_request \<Rightarrow> 'a engine_proc_scheme \<Rightarrow> 'a engine_proc_scheme io) \<Rightarrow> engine_env \<Rightarrow> 'p client_request list \<Rightarrow> step_events
     \<Rightarrow> 'a engine_proc_scheme \<Rightarrow> (bool \<times> 'a engine_proc_scheme) io" where
  "busy_round handle env reqs ev p =
     bindO (Some (handle_shutdown env p)) (\<lambda>(go, p1).
       if \<not> go then retO (False, p1)
       else bindO (process_input_queue handle env reqs p1) (\<lambda>p2.
            bindO (process_engine_step env ev p2) (\<lambda>(_, p3). retO (True, p3))))"

end
