(* ===== verification/DP_Engine.thy ===== *)
theory DP_Engine
  imports Engine_Proc
begin

text \<open>
  The data-parallel engine process (\<open>DPEngineCoreProc\<close> in \<open>vllm/v1/engine/core.py\<close>): the ranks run
  forward passes together in waves. Every 32 steps all ranks reduce whether any has unfinished
  requests; when none has, the wave ends on all of them.
\<close>

section \<open>One rank\<close>

record dp_engine = engine_proc +
  step_counter :: int
  current_wave :: int
  last_counts :: "int \<times> int"
  dp_rank :: int
  publish_dp_lb_stats :: bool

definition dp_add_request :: "engine_env \<Rightarrow> request \<Rightarrow> int \<Rightarrow> 'a dp_engine_scheme \<Rightarrow> 'a dp_engine_scheme io" where
  "dp_add_request env r wave p =
     bindO (proc_add_request env r wave p) (\<lambda>p1.
       retO (if has_coordinator p1 \<and> wave \<noteq> current_wave p1
             then if current_wave p1 < wave then p1\<lparr>current_wave := wave\<rparr>
                  else if \<not> engines_running p1 \<and> pause_state (eng_sched p1) = UNPAUSED
                  then put_output (-1) (no_outputs\<lparr>start_wave := Some (current_wave p1)\<rparr>) (p1\<lparr>engines_running := True\<rparr>)
                  else p1
             else p1))"

definition dp_resume_scheduler :: "'a dp_engine_scheme \<Rightarrow> 'a dp_engine_scheme" where
  "dp_resume_scheduler p =
     (let p1 = eng_resume_scheduler p
      in if has_coordinator p1 \<and> \<not> engines_running p1 \<and> has_unfinished_requests (eng_sched p1)
         then put_output (-1) (no_outputs\<lparr>start_wave := Some (current_wave p1)\<rparr>) p1 else p1)"

definition dp_handle_client_request ::
  "engine_env \<Rightarrow> 'a dp_engine_scheme client_request \<Rightarrow> 'a dp_engine_scheme \<Rightarrow> 'a dp_engine_scheme io" where
  "dp_handle_client_request env req p =
     (case req of
        START_DP_WAVE new_wave exclude \<Rightarrow>
          retO (if exclude \<noteq> engine_index p \<and> current_wave p \<le> new_wave
                then p\<lparr>current_wave := new_wave, engines_running := True\<rparr> else p)
      | _ \<Rightarrow> proc_handle_client_request (dp_add_request env) env req p)"

definition maybe_publish_request_counts :: "'a dp_engine_scheme \<Rightarrow> 'a dp_engine_scheme" where
  "maybe_publish_request_counts p =
     (let counts = get_request_counts (eng_sched p)
      in if publish_dp_lb_stats p \<and> counts \<noteq> last_counts p
         then put_output (-1) (no_outputs\<lparr>request_counts := Some (counts, step_counter p, current_wave p)\<rparr>) (p\<lparr>last_counts := counts\<rparr>)
         else p)"

text \<open>\<open>reduce\<close> is the all-reduce over the ranks; it runs on every 32nd step only.\<close>

definition has_global_unfinished_reqs :: "(bool \<Rightarrow> bool) \<Rightarrow> bool \<Rightarrow> 'a dp_engine_scheme \<Rightarrow> bool \<times> 'a dp_engine_scheme" where
  "has_global_unfinished_reqs reduce local_unfinished p =
     (let p1 = p\<lparr>step_counter := step_counter p + 1\<rparr>
      in (if step_counter p1 mod 32 \<noteq> 0 then True else reduce local_unfinished, p1))"

definition finish_wave :: "'a dp_engine_scheme \<Rightarrow> 'a dp_engine_scheme" where
  "finish_wave p =
     (let p1 = (if dp_rank p = 0 \<or> \<not> has_coordinator p
                then put_output (if has_coordinator p then -1 else 0) (no_outputs\<lparr>wave_complete := Some (current_wave p)\<rparr>) p else p)
      in p1\<lparr>current_wave := current_wave p1 + 1, step_counter := 0\<rparr>)"

text \<open>The rest of a round of \<open>run_busy_loop\<close>, after the step; a rank that has nothing to do skips it.\<close>

definition dp_after_step :: "(bool \<Rightarrow> bool) \<Rightarrow> bool \<Rightarrow> 'a dp_engine_scheme \<Rightarrow> 'a dp_engine_scheme" where
  "dp_after_step reduce executed p =
     (let p1 = maybe_publish_request_counts p; local_unfinished = has_unfinished_requests (eng_sched p1)
      in if \<not> executed \<and> \<not> local_unfinished \<and> \<not> engines_running p1 then p1
         else let (run, p2) = has_global_unfinished_reqs reduce local_unfinished p1; p3 = p2\<lparr>engines_running := run\<rparr>
              in if run then p3 else finish_wave p3)"

definition dp_round ::
  "engine_env \<Rightarrow> (bool \<Rightarrow> bool) \<Rightarrow> 'a dp_engine_scheme client_request list \<Rightarrow> step_events \<Rightarrow> 'a dp_engine_scheme
     \<Rightarrow> (bool \<times> 'a dp_engine_scheme) io" where
  "dp_round env reduce reqs ev p =
     bindO (Some (handle_shutdown env p)) (\<lambda>(go, p1).
       if \<not> go then retO (False, p1)
       else bindO (process_input_queue (dp_handle_client_request env) env reqs p1) (\<lambda>p2.
            bindO (process_engine_step env ev p2) (\<lambda>(executed, p3). retO (True, dp_after_step reduce executed p3))))"

section \<open>A group of ranks\<close>

text \<open>\<open>ParallelConfig.has_unfinished_dp\<close>: the maximum over what the ranks contribute.\<close>

definition has_unfinished_dp :: "bool list \<Rightarrow> bool" where
  "has_unfinished_dp locals \<longleftrightarrow> (\<exists>b \<in> set locals. b)"

text \<open>The end of one round on every rank of a group, given which of them executed the model.\<close>

definition group_after_step :: "(bool \<times> 'a dp_engine_scheme) list \<Rightarrow> 'a dp_engine_scheme list" where
  "group_after_step ps =
     map (\<lambda>(executed, p). dp_after_step (\<lambda>_. has_unfinished_dp (map (\<lambda>(_, q). has_unfinished_requests (eng_sched q)) ps)) executed p) ps"

end
