(* ===== verification/Proc_Correct.thy ===== *)
theory Proc_Correct
  imports Engine_Correct DP_Engine
begin

text \<open>
  Properties of the engine around the scheduler: the queue of batches in flight, the shutdown of the
  engine process, and the waves that keep data-parallel ranks in step.
\<close>

section \<open>Batches in flight\<close>







section \<open>Outputs of aborted requests\<close>

text \<open>Operations that only add outputs.\<close>

definition adds_outputs :: "'a engine_proc_scheme \<Rightarrow> 'a engine_proc_scheme \<Rightarrow> bool" where
  "adds_outputs p p' \<longleftrightarrow> (\<exists>os. p' = p\<lparr>output_queue := output_queue p @ os\<rparr>)"

lemma adds_outputs_refl: "adds_outputs p p"
  unfolding adds_outputs_def by (rule exI [of _ "[]"]) simp

lemma adds_outputs_trans: "adds_outputs p p1 \<Longrightarrow> adds_outputs p1 p2 \<Longrightarrow> adds_outputs p p2"
  unfolding adds_outputs_def by (elim exE, rule_tac x = "os @ osa" in exI) simp

lemma put_output_adds: "adds_outputs p (put_output c out p)"
  unfolding adds_outputs_def put_output_def by blast

lemma adds_outputsD:
  assumes "adds_outputs p p'"
  shows "eng_sched p' = eng_sched p" "proc_shutdown p' = proc_shutdown p" "engines_running p' = engines_running p" "batch_queue p' = batch_queue p"
    "shutdown_timeout p' = shutdown_timeout p" "set (output_queue p) \<subseteq> set (output_queue p')"
  using assms by (auto simp: adds_outputs_def)

lemma send_fold_adds: "adds_outputs p (fold (\<lambda>(c, ids). send_finish_outputs_to_client (id_order env ids) c FR_ABORT) xs p)"
proof (induction xs arbitrary: p)
  case (Cons x xs)
  obtain c ids where x: "x = (c, ids)" by force
  have "adds_outputs p (send_finish_outputs_to_client (id_order env ids) c FR_ABORT p)"
    unfolding send_finish_outputs_to_client_def by (rule put_output_adds)
  then show ?case using Cons [of "send_finish_outputs_to_client (id_order env ids) c FR_ABORT p"] adds_outputs_trans by (simp add: x) blast
qed (simp add: adds_outputs_refl)

lemma send_abort_adds: "adds_outputs p (send_abort_outputs env aborted p)"
  unfolding send_abort_outputs_def by (rule send_fold_adds)

lemma group_by_client_get:
  "dict_get (group_by_client xs) c = (if \<exists>rid. (rid, c) \<in> set xs then Some {rid. (rid, c) \<in> set xs} else None)"
proof -
  let ?f = "\<lambda>(rid, c) d. dict_set c (insert rid (case dict_get d c of None \<Rightarrow> {} | Some ids \<Rightarrow> ids)) d"
  have "dict_get (fold ?f xs d) c = (if (\<exists>rid. (rid, c) \<in> set xs) \<or> dict_get d c \<noteq> None
      then Some ({rid. (rid, c) \<in> set xs} \<union> (case dict_get d c of None \<Rightarrow> {} | Some ids \<Rightarrow> ids)) else None)" for d
  proof (induction xs arbitrary: d)
    case (Cons x xs)
    obtain rid c' where x: "x = (rid, c')" by force
    show ?case unfolding x by (simp add: Cons.IH del: dict_get_eq_None) (cases "c' = c"; auto simp del: dict_get_eq_None split: option.splits)
  qed (simp del: dict_get_eq_None split: option.split)
  from this [of "[]"] show ?thesis by (simp add: group_by_client_def)
qed

text \<open>Every aborted request is named in an output to its client.\<close>

definition abort_sent :: "string \<Rightarrow> int \<Rightarrow> 'a engine_proc_scheme \<Rightarrow> bool" where
  "abort_sent rid client p \<longleftrightarrow> (\<exists>out. (client, out) \<in> set (output_queue p) \<and> finish_output FR_ABORT rid \<in> set (eco_outputs out)
     \<and> (\<exists>ids. eco_finished_requests out = Some ids \<and> rid \<in> ids))"

lemma send_abort_sent:
  assumes "(rid, client) \<in> set aborted" "order_ok env" shows "abort_sent rid client (send_abort_outputs env aborted p)"
proof -
  let ?g = "group_by_client aborted"
  have g: "dict_get ?g client = Some {rid. (rid, client) \<in> set aborted}" using assms(1) by (auto simp: group_by_client_get simp del: dict_get_eq_None)
  have fin: "finite {rid. (rid, client) \<in> set aborted}" by (rule finite_subset [of _ "fst ` set aborted"]) force+
  have more: "abort_sent rid client p' \<Longrightarrow> abort_sent rid client (fold (\<lambda>(c, ids). send_finish_outputs_to_client (id_order env ids) c FR_ABORT) xs p')" for xs p'
    using adds_outputsD(6) [OF send_fold_adds [of p' env xs]] unfolding abort_sent_def by blast
  have one: "abort_sent rid client (send_finish_outputs_to_client (id_order env {rid. (rid, client) \<in> set aborted}) client FR_ABORT p')" for p'
  proof -
    let ?A = "{rid. (rid, client) \<in> set aborted}"
    have A: "set (id_order env ?A) = ?A" using assms(2) fin by (simp add: order_ok_def)
    show ?thesis unfolding abort_sent_def send_finish_outputs_to_client_def put_output_def
      by (rule exI [of _ "no_outputs\<lparr>eco_outputs := map (finish_output FR_ABORT) (id_order env ?A), eco_finished_requests := Some (set (id_order env ?A))\<rparr>"])
        (use assms(1) in \<open>simp add: A\<close>)
  qed
  have "abort_sent rid client (fold (\<lambda>(c, ids). send_finish_outputs_to_client (id_order env ids) c FR_ABORT) xs p)"
    if "(client, {rid. (rid, client) \<in> set aborted}) \<in> set xs" for xs
    using that
  proof (induction xs arbitrary: p)
    case (Cons x xs)
    show ?case
    proof (cases "x = (client, {rid. (rid, client) \<in> set aborted})")
      case True
      then show ?thesis using more [OF one] by simp
    next
      case False
      then show ?thesis using Cons by auto
    qed
  qed simp
  then show ?thesis using dict_get_SomeD [OF g] by (simp add: send_abort_outputs_def)
qed

section \<open>The ranks of a group\<close>

text \<open>Ranks that run in the same wave, at the same step of it.\<close>

definition lockstep :: "bool \<Rightarrow> int \<Rightarrow> int \<Rightarrow> 'a dp_engine_scheme \<Rightarrow> bool" where
  "lockstep go step wave p \<longleftrightarrow> engines_running p = go \<and> step_counter p = step \<and> current_wave p = wave"

lemma publish_frame:
  "engines_running (maybe_publish_request_counts p) = engines_running p" "step_counter (maybe_publish_request_counts p) = step_counter p"
  "current_wave (maybe_publish_request_counts p) = current_wave p" "eng_sched (maybe_publish_request_counts p) = eng_sched p"
  "dp_rank (maybe_publish_request_counts p) = dp_rank p" "has_coordinator (maybe_publish_request_counts p) = has_coordinator p"
  by (simp_all add: maybe_publish_request_counts_def put_output_def Let_def)

lemma running_after_step:
  assumes "lockstep True k w p"
  shows "dp_after_step (\<lambda>_. b) executed p = (let p2 = (maybe_publish_request_counts p)\<lparr>step_counter := k + 1, engines_running := (k + 1) mod 32 \<noteq> 0 \<or> b\<rparr>
    in if (k + 1) mod 32 \<noteq> 0 \<or> b then p2 else finish_wave p2)"
  using assms by (auto simp: dp_after_step_def Let_def publish_frame has_global_unfinished_reqs_def lockstep_def)

lemma finish_wave_frame: "current_wave (finish_wave p) = current_wave p + 1" "step_counter (finish_wave p) = 0" "engines_running (finish_wave p) = engines_running p"
  by (simp_all add: finish_wave_def put_output_def Let_def)

lemma after_step_lockstep:
  assumes "lockstep True k w p"
  shows "lockstep ((k + 1) mod 32 \<noteq> 0 \<or> b) (if (k + 1) mod 32 \<noteq> 0 \<or> b then k + 1 else 0) (if (k + 1) mod 32 \<noteq> 0 \<or> b then w else w + 1)
    (dp_after_step (\<lambda>_. b) executed p)"
  using assms unfolding running_after_step [OF assms] by (auto simp: lockstep_def Let_def publish_frame finish_wave_frame)

section \<open>Properties\<close>




text \<open>
  C16. Shutdown without a timeout: the next round aborts every request, whatever state it is in. No request
  is left in the scheduler, each one's client gets an output that names it as aborted, the process is
  then shutting down, and the loop goes on only while work is left.
\<close>

theorem shutdown_aborts_everything:
  assumes "placed {#} (eng_sched p)" "proc_shutdown p = SHUTDOWN_REQUESTED" "shutdown_timeout p = 0" "order_ok env"
    and "handle_shutdown env p = Inr (go, p')"
  shows "requests_dict (eng_sched p') = [] \<and> running (eng_sched p') = [] \<and> queue_reqs (waiting (eng_sched p')) = []
    \<and> queue_reqs (skipped_waiting (eng_sched p')) = [] \<and> proc_shutdown p' = SHUTTING_DOWN \<and> go = has_work p'
    \<and> (\<forall>(rid, i) \<in> set (requests_dict (eng_sched p)). status (objs (eng_sched p') i) = FINISHED_ABORTED
         \<and> abort_sent rid (client_index (objs (eng_sched p) i)) p')"
proof -
  from assms(2,3,5) obtain out s1 where f: "finish_requests (senv env) Every_id FINISHED_ABORTED (eng_sched p) = Inr (out, s1)"
    and p': "p' = (send_abort_outputs env out (p\<lparr>eng_sched := s1\<rparr>))\<lparr>proc_shutdown := SHUTTING_DOWN\<rparr>" and go: "go = has_work p'"
    by (auto simp: handle_shutdown_def abort_all_def elim!: bindE_eq_InrE)
  let ?s = "eng_sched p"
  note fp = finish_requests_places [OF f assms(1)]
  have x: "request_ids_ok Every_id" by (simp add: request_ids_ok_def)
  note fp = fp [OF x]
  have s: "eng_sched p' = s1" using adds_outputsD(1) [OF send_abort_adds [of "p\<lparr>eng_sched := s1\<rparr>" env out]] by (simp add: p')
  have d: "requests_dict s1 = []" using fp(3) by (auto simp: ids_of_request_def filter_empty_conv)
  have pl: "mset (running s1) + ids_in (waiting s1) + ids_in (skipped_waiting s1) = {#}" using placedD(2) [OF fp(2)] d by simp
  have nm: "named (requests_dict ?s) (objs ?s)" by (rule placedD(1) [OF assms(1)])
  have "status (objs s1 i) = FINISHED_ABORTED \<and> abort_sent rid (client_index (objs ?s i)) p'" if "(rid, i) \<in> set (requests_dict ?s)" for rid i
  proof -
    have r: "request_id (objs ?s i) = rid" "dict_get (requests_dict ?s) rid = Some i" using nm that by (auto simp: named_def dict_get_wf)
    have "rid \<in> set (ids_of_request Every_id ?s)" using that by (force simp: ids_of_request_def)
    then have i: "i \<in> set (named_live ?s (ids_of_request Every_id ?s))" using r(2) unfolding named_live_set by blast
    then have "(rid, client_index (objs ?s i)) \<in> set out" using fp(6) r(1) by force
    from send_abort_sent [OF this assms(4), of "p\<lparr>eng_sched := s1\<rparr>"] have "abort_sent rid (client_index (objs ?s i)) p'"
      by (simp add: p' abort_sent_def)
    then show ?thesis using fp(5) [OF i] by simp
  qed
  moreover have "proc_shutdown p' = SHUTTING_DOWN" by (simp add: p')
  ultimately show ?thesis using d pl go by (auto simp: s)
qed

definition demo_proc :: "kv_cache_manager \<Rightarrow> engine_proc" where
  "demo_proc km = \<lparr>eng_sched = demo_waiting km, aborts_queue = [], batch_queue = None, batch_queue_size = 1, use_spec_decode = False,
     eng_async_scheduling = False, is_ec_consumer = False, is_pooling_model = False, published_events = [], output_queue = [],
     proc_shutdown = SHUTDOWN_REQUESTED, shutdown_timeout = 0, engines_running = False, idle_callbacks = [], process_input_queue_block = True,
     has_coordinator = False, engine_index = 0\<rparr>"

theorem shutdown_aborts_everything_witness:
  "\<exists>km go p'. search_ok km \<and> handle_shutdown demo_engine_env (demo_proc km) = Inr (go, p') \<and> requests_dict (eng_sched p') = []
    \<and> abort_sent ''a'' 0 p'"
proof -
  obtain km where km: "search_ok km" "km_reach km" by (rule demo_plain_km) blast
  obtain s' where s: "finish_requests demo_sched_env (One_id ''a'') FINISHED_ABORTED (demo_waiting km) = Inr ([(''a'', 0)], s')"
    by (rule demo_abort [OF km(2)])
  have "finish_requests demo_sched_env Every_id FINISHED_ABORTED (demo_waiting km) = finish_requests demo_sched_env (One_id ''a'') FINISHED_ABORTED (demo_waiting km)"
    by (simp add: finish_requests_def ids_of_request_def demo_waiting_def)
  then obtain go p' where h: "handle_shutdown demo_engine_env (demo_proc km) = Inr (go, p')"
    using s by (simp add: handle_shutdown_def abort_all_def demo_proc_def demo_engine_env_def)
  have "placed {#} (demo_waiting km)"
    using sync_engine_settled(1) [OF demo_reach [OF km(1)]] by (simp add: demo_engine_def engine_init_def)
  then have "requests_dict (eng_sched p') = [] \<and> (\<forall>(rid, i) \<in> set (requests_dict (demo_waiting km)). abort_sent rid (client_index (objs (demo_waiting km) i)) p')"
    using shutdown_aborts_everything [OF _ _ _ demo_env_ok(3) h] by (auto simp: demo_proc_def)
  moreover have "requests_dict (demo_waiting km) = [(''a'', 0)]" "client_index (objs (demo_waiting km) 0) = 0"
    by (simp_all add: demo_eval)
  ultimately show ?thesis using km(1) h by auto
qed

text \<open>
  Once shutdown has been requested, a new request or a utility call changes nothing: the client gets
  one output, that the request is aborted or that the call has failed, and the method named by the call
  does not run.
\<close>

theorem shutdown_rejects:
  assumes "proc_shutdown p \<noteq> SHUTDOWN_NONE"
  shows "(\<exists>out. dp_handle_client_request env (ADD r wave) p = retO (p\<lparr>output_queue := output_queue p @ [(client_index r, out)]\<rparr>)
      \<and> eco_outputs out = [finish_output FR_ABORT (request_id r)] \<and> eco_finished_requests out = Some {request_id r})
    \<and> (\<exists>out. dp_handle_client_request env (UTILITY client call_id call) p = retO (p\<lparr>output_queue := output_queue p @ [(client, out)]\<rparr>)
      \<and> eco_outputs out = [] \<and> utility_output out = Some (call_id, True))"
proof (rule conjI)
  let ?a = "no_outputs\<lparr>eco_outputs := [finish_output FR_ABORT (request_id r)], eco_finished_requests := Some {request_id r}\<rparr>"
  have "dp_handle_client_request env (ADD r wave) p = retO (p\<lparr>output_queue := output_queue p @ [(client_index r, ?a)]\<rparr>)"
    using assms by (simp add: dp_handle_client_request_def proc_handle_client_request_def reject_add_in_shutdown_def is_running_def
        send_finish_outputs_to_client_def put_output_def)
  then show "\<exists>out. dp_handle_client_request env (ADD r wave) p = retO (p\<lparr>output_queue := output_queue p @ [(client_index r, out)]\<rparr>)
      \<and> eco_outputs out = [finish_output FR_ABORT (request_id r)] \<and> eco_finished_requests out = Some {request_id r}"
    by (intro exI [of _ ?a]) simp
  let ?u = "no_outputs\<lparr>utility_output := Some (call_id, True)\<rparr>"
  have "dp_handle_client_request env (UTILITY client call_id call) p = retO (p\<lparr>output_queue := output_queue p @ [(client, ?u)]\<rparr>)"
    using assms by (simp add: dp_handle_client_request_def proc_handle_client_request_def reject_utility_in_shutdown_def is_running_def put_output_def)
  moreover have "eco_outputs ?u = []" by (simp add: no_outputs_def core_outputs_of_def engine_core_outputs.defs)
  ultimately show "\<exists>out. dp_handle_client_request env (UTILITY client call_id call) p = retO (p\<lparr>output_queue := output_queue p @ [(client, out)]\<rparr>)
      \<and> eco_outputs out = [] \<and> utility_output out = Some (call_id, True)"
    by (intro exI [of _ ?u]) simp
qed

definition demo_rank :: "int \<Rightarrow> shutdown_state \<Rightarrow> kv_cache_manager \<Rightarrow> dp_engine" where
  "demo_rank rank sd km = \<lparr>eng_sched = (if rank = 0 then demo_waiting km else demo_scheduler km), aborts_queue = [], batch_queue = None,
     batch_queue_size = 1, use_spec_decode = False, eng_async_scheduling = False, is_ec_consumer = False, is_pooling_model = False,
     published_events = [], output_queue = [], proc_shutdown = sd, shutdown_timeout = 0, engines_running = True,
     idle_callbacks = [], process_input_queue_block = True, has_coordinator = True, engine_index = rank, step_counter = 31,
     current_wave = 4, last_counts = (0, 0), dp_rank = rank, publish_dp_lb_stats = True\<rparr>"

theorem shutdown_rejects_witness:
  "\<exists>km out. search_ok km \<and> dp_handle_client_request demo_engine_env (ADD demo_ask 4) (demo_rank 0 SHUTTING_DOWN km)
     = retO ((demo_rank 0 SHUTTING_DOWN km)\<lparr>output_queue := [(0, out)]\<rparr>) \<and> eco_outputs out = [finish_output FR_ABORT ''a'']"
proof -
  obtain km where km: "search_ok km" by (rule demo_plain_km) blast
  have a: "client_index demo_ask = 0" "request_id demo_ask = ''a''" by (simp_all add: demo_ask_def demo_six_def demo_request_def)
  have d: "proc_shutdown (demo_rank 0 SHUTTING_DOWN km) \<noteq> SHUTDOWN_NONE" "output_queue (demo_rank 0 SHUTTING_DOWN km) = []" by (simp_all add: demo_rank_def)
  from conjunct1 [OF shutdown_rejects [OF d(1), of demo_engine_env demo_ask 4]]
  have "\<exists>out. dp_handle_client_request demo_engine_env (ADD demo_ask 4) (demo_rank 0 SHUTTING_DOWN km)
     = retO ((demo_rank 0 SHUTTING_DOWN km)\<lparr>output_queue := [(0, out)]\<rparr>) \<and> eco_outputs out = [finish_output FR_ABORT ''a'']"
    unfolding a d(2) append_Nil by blast
  then show ?thesis using km by blast
qed

text \<open>
  C17. Data-parallel ranks stay in step: when all ranks of a group run in the same wave at the same step,
  then after the round they again all run, one step further, or the wave has ended on all of them and
  the next has the same number everywhere. The wave ends exactly at a multiple of 32 steps at which no
  rank has unfinished requests, also for the ranks that had nothing to execute.
\<close>

theorem ranks_in_lockstep:
  assumes "\<forall>(executed, p) \<in> set ps. lockstep True k w p"
  shows "\<exists>go. (go \<longleftrightarrow> (k + 1) mod 32 \<noteq> 0 \<or> (\<exists>(executed, p) \<in> set ps. has_unfinished_requests (eng_sched p)))
    \<and> (\<forall>p' \<in> set (group_after_step ps). lockstep go (if go then k + 1 else 0) (if go then w else w + 1) p')"
proof -
  let ?b = "has_unfinished_dp (map (\<lambda>(_, q). has_unfinished_requests (eng_sched q)) ps)"
  have b: "?b \<longleftrightarrow> (\<exists>(executed, p) \<in> set ps. has_unfinished_requests (eng_sched p))" by (auto simp: has_unfinished_dp_def)
  have step: "lockstep ((k + 1) mod 32 \<noteq> 0 \<or> ?b) (if (k + 1) mod 32 \<noteq> 0 \<or> ?b then k + 1 else 0) (if (k + 1) mod 32 \<noteq> 0 \<or> ?b then w else w + 1) p'"
    if p': "p' \<in> set (group_after_step ps)" for p'
  proof -
    obtain executed p where p: "(executed, p) \<in> set ps" "p' = dp_after_step (\<lambda>_. ?b) executed p" using p' by (auto simp: group_after_step_def)
    have "lockstep True k w p" using assms p(1) by blast
    then show ?thesis unfolding p(2) by (rule after_step_lockstep)
  qed
  show ?thesis
  proof (intro exI [of _ "(k + 1) mod 32 \<noteq> 0 \<or> ?b"] conjI ballI)
    show "((k + 1) mod 32 \<noteq> 0 \<or> ?b) \<longleftrightarrow> ((k + 1) mod 32 \<noteq> 0 \<or> (\<exists>(executed, p) \<in> set ps. has_unfinished_requests (eng_sched p)))"
      by (simp only: b)
  qed (rule step)
qed

theorem ranks_in_lockstep_witness:
  "\<exists>km. search_ok km \<and> (\<forall>p' \<in> set (group_after_step [(True, demo_rank 0 SHUTDOWN_NONE km), (False, demo_rank 1 SHUTDOWN_NONE km)]). lockstep True 32 4 p')"
proof -
  obtain km where km: "search_ok km" by (rule demo_plain_km) blast
  let ?ps = "[(True, demo_rank 0 SHUTDOWN_NONE km), (False, demo_rank 1 SHUTDOWN_NONE km)]"
  have "\<forall>(executed, p) \<in> set ?ps. lockstep True 31 4 p" by (simp add: lockstep_def demo_rank_def)
  from ranks_in_lockstep [OF this] obtain go where
    go: "go \<longleftrightarrow> (31 + 1) mod 32 \<noteq> (0::int) \<or> (\<exists>(executed, p) \<in> set ?ps. has_unfinished_requests (eng_sched p))"
      "\<forall>p' \<in> set (group_after_step ?ps). lockstep go (if go then 31 + 1 else 0) (if go then 4 else 4 + 1) p'" by blast
  have "has_unfinished_requests (demo_waiting km)"
    by (simp add: demo_eval has_unfinished_requests_def get_num_unfinished_requests_def q_len_def)
  then have go by (simp add: go(1) demo_rank_def)
  then show ?thesis using go(2) km by auto
qed

end
