(* ===== verification/KV_Config.thy ===== *)
theory KV_Config
  imports KV_Spec "HOL-Library.Multiset"
begin

text \<open>
  \<open>vllm/v1/core/kv_cache_utils.py\<close>, the configuration of the KV cache at start-up: the layers of the
  model are put into groups that share a block table (\<open>get_kv_cache_groups\<close>), the memory a longest
  request needs is checked against what the device has, and the groups are laid out in tensors with
  the same number of blocks on every worker (\<open>get_kv_cache_configs\<close>).

  The layers come as a dict from names to specs. What the code changes in place (the dict of merged
  specs, the page size of a padded layer, the model length found by the search) is a result here.
  Log messages are left out; what they compute is kept where it may raise.
\<close>

section \<open>The configuration the code reads\<close>

record kv_vllm_config =
  limits :: vllm_limits
  original_max_model_len :: int
  cache_block_size :: int
  cfg_hash_block_size :: "int option"
  cfg_prefix_caching :: bool
  connector_enabled :: bool
  num_gpu_blocks_override :: "int option"
  disable_hybrid_kv_cache_manager :: bool
  spec_config_eagle :: bool

definition floordiv :: "int \<Rightarrow> int \<Rightarrow> int result" where
  "floordiv a b = bindE (guardE (b \<noteq> 0) ZeroDivisionError) (\<lambda>_. Inr (a div b))"

definition cdivE :: "int \<Rightarrow> int \<Rightarrow> int result" where
  "cdivE a b = bindE (guardE (b \<noteq> 0) ZeroDivisionError) (\<lambda>_. Inr (cdiv a b))"

definition max_of :: "int list \<Rightarrow> int result" where
  "max_of xs = (if xs = [] then Inl ValueError else Inr (Max (set xs)))"

definition min_of :: "int list \<Rightarrow> int result" where
  "min_of xs = (if xs = [] then Inl ValueError else Inr (Min (set xs)))"

definition sum_result :: "('a \<Rightarrow> int result) \<Rightarrow> 'a list \<Rightarrow> int result" where
  "sum_result f xs = bindE (map_result f xs) (\<lambda>ys. Inr (sum_list ys))"

definition dict_at :: "('k \<times> 'v) list \<Rightarrow> 'k \<Rightarrow> 'v result" where
  "dict_at d k = (case dict_get d k of None \<Rightarrow> Inl KeyError | Some v \<Rightarrow> Inr v)"

text \<open>A \<open>defaultdict(list)\<close> filled by a loop, and the slice \<open>xs[i::n]\<close>.\<close>

definition group_add :: "('a \<Rightarrow> 'k) \<Rightarrow> 'a \<Rightarrow> ('k \<times> 'a list) list \<Rightarrow> ('k \<times> 'a list) list" where
  "group_add f x d = dict_set (f x) ((case dict_get d (f x) of None \<Rightarrow> [] | Some xs \<Rightarrow> xs) @ [x]) d"

definition group_by :: "('a \<Rightarrow> 'k) \<Rightarrow> 'a list \<Rightarrow> ('k \<times> 'a list) list" where
  "group_by f xs = fold (group_add f) xs []"

definition stride :: "nat \<Rightarrow> nat \<Rightarrow> 'a list \<Rightarrow> 'a list" where
  "stride i n xs = map snd (filter (\<lambda>(j, x). i \<le> j \<and> (j - i) mod n = 0) (enumerate 0 xs))"

definition strides :: "nat \<Rightarrow> 'a list \<Rightarrow> 'a list list" where
  "strides n xs = map (\<lambda>i. stride i n xs) [0..<n]"

section \<open>Block sizes\<close>

definition resolve_kv_cache_block_sizes :: "kv_vllm_config \<Rightarrow> kv_cache_config \<Rightarrow> (int \<times> int) result" where
  "resolve_kv_cache_block_sizes v cfg =
     (let dcp = decode_context_parallel_size (limits v); pcp = prefill_context_parallel_size (limits v);
          groups = kv_cache_groups cfg;
          sizes = map (\<lambda>g. group_block_size (group_spec g)) groups;
          lcm_size = fold lcm sizes 1
      in if length groups \<le> 1 then Inr (cache_block_size v * dcp * pcp, cache_block_size v * dcp * pcp)
         else if dcp \<noteq> 1 \<or> pcp \<noteq> 1 then Inl ValueError
         else if \<not> (cfg_prefix_caching v \<or> connector_enabled v) then Inr (lcm_size, lcm_size)
         else if list_ex (\<lambda>g. case group_spec g of One_spec s \<Rightarrow> has_class MambaSpec s \<and> spec_block_size s \<noteq> cache_block_size v
                                | Uniform_specs _ \<Rightarrow> False) groups
         then Inr (lcm_size, lcm_size)
         else let h = (case cfg_hash_block_size v of Some b \<Rightarrow> b | None \<Rightarrow> fold gcd sizes 0)
              in bindE (guardE (h \<noteq> 0) ZeroDivisionError) (\<lambda>_.
                 bindE (guardE (list_all (\<lambda>bs. bs mod h = 0) sizes) ValueError) (\<lambda>_. Inr (lcm_size, h))))"

section \<open>Searching the longest model length\<close>

function bsearch :: "(int \<Rightarrow> bool result) \<Rightarrow> int \<Rightarrow> int \<Rightarrow> int \<Rightarrow> int result" where
  "bsearch fits left right found =
     (if left \<le> right then
        let mid = (left + right) div 2
        in case fits mid of
             Inl e \<Rightarrow> Inl e
           | Inr b \<Rightarrow> if b then bsearch fits (mid + 1) right mid else bsearch fits left (mid - 1) found
      else Inr found)"
  by pat_completeness auto
termination by (relation "measure (\<lambda>(_, left, right, _). nat (right - left + 1))") auto

declare bsearch.simps [simp del]

definition search_max_len :: "(int \<Rightarrow> int result) \<Rightarrow> int \<Rightarrow> int \<Rightarrow> int result" where
  "search_max_len need original available =
     (let fits = (\<lambda>len. bindE (need len) (\<lambda>n. Inr (n \<le> available)))
      in bindE (fits 1) (\<lambda>b. if \<not> b then Inr 0 else bsearch fits 1 original 1))"

definition with_len :: "vllm_limits \<Rightarrow> int \<Rightarrow> vllm_limits" where
  "with_len c len = c\<lparr>max_model_len := len\<rparr>"

definition specs_max_memory :: "vllm_limits \<Rightarrow> kv_spec list \<Rightarrow> int result" where
  "specs_max_memory c ss = sum_result (max_memory_usage_bytes c) ss"

definition estimate_max_model_len :: "vllm_limits \<Rightarrow> spec_dict \<Rightarrow> int \<Rightarrow> int result" where
  "estimate_max_model_len c d available =
     search_max_len (\<lambda>len. specs_max_memory (with_len c len) (map snd d)) (max_model_len c) available"

definition check_memory :: "int \<Rightarrow> int result \<Rightarrow> (int \<Rightarrow> int result) \<Rightarrow> unit result" where
  "check_memory available needed estimate =
     bindE (guardE (0 < available) ValueError) (\<lambda>_.
     bindE needed (\<lambda>n.
       if available < n then bindE (estimate available) (\<lambda>_. Inl ValueError) else Inr ()))"

definition check_enough_kv_cache_memory :: "vllm_limits \<Rightarrow> spec_dict \<Rightarrow> int \<Rightarrow> unit result" where
  "check_enough_kv_cache_memory c d available =
     (if d = [] then Inr ()
      else check_memory available (specs_max_memory c (map snd d)) (estimate_max_model_len c d))"

section \<open>Groups of layers\<close>

definition plain_group :: "string list \<Rightarrow> group_spec \<Rightarrow> kv_cache_group_spec" where
  "plain_group names s = \<lparr>layer_names = names, group_spec = s, is_eagle_group = False\<rparr>"

definition create_kv_cache_group_specs :: "spec_dict \<Rightarrow> string list list \<Rightarrow> kv_cache_group_spec list result" where
  "create_kv_cache_group_specs d grouped =
     map_result (\<lambda>names. bindE (map_result (dict_at d) names) (\<lambda>specs.
       bindE (merge_specs specs) (\<lambda>m. Inr (plain_group names (One_spec m))))) grouped"

definition is_kv_cache_spec_uniform :: "spec_dict \<Rightarrow> bool result" where
  "is_kv_cache_spec_uniform d =
     (if d = [] then Inr True
      else case merge_specs (map snd d) of
             Inr _ \<Rightarrow> Inr True
           | Inl e \<Rightarrow> if e = AssertionError then Inr False else Inl e)"

definition may_override_num_blocks :: "kv_vllm_config \<Rightarrow> int \<Rightarrow> int" where
  "may_override_num_blocks v n = (case num_gpu_blocks_override v of None \<Rightarrow> n | Some k \<Rightarrow> k)"

definition get_num_blocks :: "kv_vllm_config \<Rightarrow> int \<Rightarrow> int \<Rightarrow> int \<Rightarrow> int result" where
  "get_num_blocks v num_layers available page_size =
     bindE (floordiv available page_size) (\<lambda>q.
     bindE (floordiv q num_layers) (\<lambda>n. Inr (may_override_num_blocks v (max n 0))))"

definition get_uniform_page_size :: "group_spec list \<Rightarrow> int result" where
  "get_uniform_page_size specs =
     bindE (map_result group_page_size_bytes specs) (\<lambda>ps.
     bindE (guardE (one_value ps) AssertionError) (\<lambda>_. Inr (hd ps)))"

definition groups_uniform_spec :: "spec_dict \<Rightarrow> kv_cache_group_spec list result" where
  "groups_uniform_spec d = create_kv_cache_group_specs d [map fst d]"

definition groups_uniform_type :: "uniform_specs \<Rightarrow> kv_cache_group_spec list" where
  "groups_uniform_type u = [plain_group (map fst (kv_cache_specs u)) (Uniform_specs u)]"

definition is_kv_cache_page_size_uniform :: "spec_dict \<Rightarrow> bool result" where
  "is_kv_cache_page_size_uniform d = bindE (map_result page_size_bytes (map snd d)) (\<lambda>ps. Inr (one_value ps))"

definition unify_page_step :: "int \<Rightarrow> string \<times> kv_spec \<Rightarrow> (string \<times> kv_spec) result" where
  "unify_page_step max_page = (\<lambda>(name, s).
     bindE (page_size_bytes s) (\<lambda>p.
       if p = max_page then Inr (name, s)
       else bindE (guardE (p \<noteq> 0) ZeroDivisionError) (\<lambda>_.
            bindE (guardE (max_page mod p = 0) NotImplementedError) (\<lambda>_.
            bindE (copy_with_new_block_size (spec_block_size s * (max_page div p)) s) (\<lambda>s'.
            bindE (page_size_bytes s') (\<lambda>p'.
            bindE (guardE (p' = max_page) AssertionError) (\<lambda>_. Inr (name, s'))))))))"

definition unify_kv_cache_spec_page_size :: "spec_dict \<Rightarrow> spec_dict result" where
  "unify_kv_cache_spec_page_size d =
     bindE (map_result page_size_bytes (map snd d)) (\<lambda>ps.
       if length (remdups ps) \<le> 1 then Inr d else map_result (unify_page_step (Max (set ps))) d)"

definition is_kv_cache_type_attention_free :: "spec_dict \<Rightarrow> bool" where
  "is_kv_cache_type_attention_free d \<longleftrightarrow> d = []"

definition groups_uniform_page_size :: "spec_dict \<Rightarrow> kv_cache_group_spec list result" where
  "groups_uniform_page_size d =
     (let same = map (\<lambda>(_, ls). map fst ls) (group_by snd d); lens = map (\<lambda>ls. int (length ls)) same
      in bindE (min_of lens) (\<lambda>mn. bindE (max_of lens) (\<lambda>mx.
         let size = (if 2 * mx < 3 * mn then mx else mn)
         in create_kv_cache_group_specs d
              (concat (map (\<lambda>ls. strides (nat (cdiv (int (length ls)) size)) ls) same)))))"

section \<open>Without the hybrid manager\<close>

definition hybrid_to_full :: "int option \<Rightarrow> string \<times> kv_spec \<Rightarrow> (string \<times> kv_spec) result" where
  "hybrid_to_full uniform_block_size = (\<lambda>(name, s).
     if has_class SlidingWindowMLASpec s then
       bindE (post_init ((empty_spec MLAAttentionSpec)\<lparr>
           spec_block_size := (case uniform_block_size of Some b \<Rightarrow> b | None \<Rightarrow> spec_block_size s),
           num_kv_heads := num_kv_heads s, head_size := head_size s, dtype := dtype s,
           page_size_padded := page_size_padded s, cache_dtype_str := cache_dtype_str s,
           alignment := alignment s, compress_ratio := compress_ratio s, model_version := model_version s\<rparr>))
         (\<lambda>s'. Inr (name, s'))
     else if is_sliding_window s then
       bindE (post_init ((empty_spec FullAttentionSpec)\<lparr>spec_block_size := spec_block_size s,
           num_kv_heads := num_kv_heads s, head_size := head_size s, head_size_v := head_size_v s,
           dtype := dtype s, kv_quant_mode := kv_quant_mode s, sliding_window := sliding_window s,
           page_size_padded := page_size_padded s\<rparr>)) (\<lambda>s'. Inr (name, s'))
     else if has_class ChunkedLocalAttentionSpec s then
       bindE (post_init ((empty_spec FullAttentionSpec)\<lparr>spec_block_size := spec_block_size s,
           num_kv_heads := num_kv_heads s, head_size := head_size s, dtype := dtype s,
           attention_chunk_size := attention_chunk_size s, page_size_padded := page_size_padded s\<rparr>))
         (\<lambda>s'. Inr (name, s'))
     else Inr (name, s))"

definition one_type :: "spec_dict \<Rightarrow> bool result" where
  "one_type d = bindE (is_kv_cache_spec_uniform d) (\<lambda>b. if b then Inr True else is_uniform_type d)"

definition unify_hybrid_kv_cache_specs :: "spec_dict \<Rightarrow> spec_dict result" where
  "unify_hybrid_kv_cache_specs d =
     bindE (one_type d) (\<lambda>uniform.
       if uniform then Inr d
       else let ss = map snd d; full = list_ex is_full_attention ss
       in bindE (if list_ex (has_class SlidingWindowMLASpec) ss
                 then bindE (guardE full AssertionError) (\<lambda>_.
                        Inr (Some (spec_block_size (hd (filter is_full_attention ss)))))
                 else Inr None) (\<lambda>block.
          bindE (if full \<and> (list_ex is_sliding_window ss \<or> list_ex (has_class ChunkedLocalAttentionSpec) ss)
                 then map_result (hybrid_to_full block) d else Inr d) (\<lambda>d'.
          bindE (one_type d') (\<lambda>b. bindE (guardE b ValueError) (\<lambda>_. Inr d')))))"

section \<open>Groups of several page sizes\<close>

definition group_and_unify_kv_cache_specs :: "spec_dict \<Rightarrow> uniform_specs list option result" where
  "group_and_unify_kv_cache_specs d =
     (if \<not> list_ex (has_class SlidingWindowMLASpec) (map snd d) then Inr None
      else let mla = filter (\<lambda>(_, s). has_class MLAAttentionSpec s) d;
               swa = map snd (group_by (\<lambda>(_, s). (spec_block_size s, sliding_window s))
                                (filter (\<lambda>(_, s). has_class SlidingWindowMLASpec s) d));
               the_uniform = (\<lambda>x. bindE (from_specs x) (\<lambda>u. case u of None \<Rightarrow> Inl AssertionError | Some w \<Rightarrow> Inr w))
           in bindE (guardE (mla \<noteq> []) AssertionError) (\<lambda>_.
              bindE (the_uniform mla) (\<lambda>m.
              bindE (map_result the_uniform swa) (\<lambda>us. Inr (Some (m # us))))))"

definition padding :: "int list \<Rightarrow> int \<Rightarrow> int" where
  "padding xs d = (\<Sum>x \<leftarrow> xs. (d - x mod d) mod d)"

definition better_chunk :: "int list \<Rightarrow> int \<Rightarrow> int \<times> int option \<Rightarrow> int \<times> int option" where
  "better_chunk xs d = (\<lambda>(best_d, best_pad).
     let pad = padding xs d
     in case best_pad of
          None \<Rightarrow> (d, Some pad)
        | Some p \<Rightarrow> if pad < p \<or> pad = p \<and> best_d < d then (d, Some pad) else (best_d, best_pad))"

definition approximate_gcd :: "int list \<Rightarrow> int option \<Rightarrow> int result" where
  "approximate_gcd xs lower_bound =
     (if xs = [] \<or> list_ex (\<lambda>x. x \<le> 0) xs then Inl ValueError
      else let min_d = max 1 (case lower_bound of None \<Rightarrow> 1 | Some l \<Rightarrow> l); max_d = Max (set xs)
           in if max_d < min_d then Inr min_d
              else Inr (fst (fold (better_chunk xs) [min_d..max_d] (min_d, None))))"

text \<open>
  The padding of one layer to the nearest page size of the full-MLA layers, and the layers by their
  new page size.
\<close>

definition pad_layer :: "int set \<Rightarrow> string \<times> kv_spec \<Rightarrow> (int \<times> string \<times> kv_spec) result" where
  "pad_layer sizes = (\<lambda>(name, s).
     bindE (page_size_bytes s) (\<lambda>p.
       let candidate = Min (Set.filter (\<lambda>x. p \<le> x) sizes)
       in Inr (candidate, name, if p < candidate then s\<lparr>page_size_padded := Some candidate\<rparr> else s)))"

definition sub_group :: "spec_dict \<Rightarrow> string list \<Rightarrow> kv_cache_group_spec result" where
  "sub_group d names =
     bindE (map_result (\<lambda>n. bindE (dict_at d n) (\<lambda>s. Inr (n, s))) names) (\<lambda>specs.
     bindE (from_specs specs) (\<lambda>u.
       case u of None \<Rightarrow> Inl AssertionError | Some w \<Rightarrow> Inr (plain_group names (Uniform_specs w))))"

definition split_window_group :: "int set \<Rightarrow> int \<Rightarrow> uniform_specs \<Rightarrow> kv_cache_group_spec list result" where
  "split_window_group sizes num_tuples u =
     bindE (get_page_sizes u) (\<lambda>own.
     bindE (guardE (own \<noteq> {} \<and> sizes \<noteq> {}) ValueError) (\<lambda>_.
     bindE (guardE (Max own \<le> Max sizes) AssertionError) (\<lambda>_.
     bindE (map_result (pad_layer sizes) (kv_cache_specs u)) (\<lambda>padded.
       let columns = map (\<lambda>(_, ls). map (fst \<circ> snd) ls) (group_by fst padded)
       in bindE (guardE (one_value (map length columns)) AssertionError) (\<lambda>_.
          bindE (cdivE (int (length (hd columns))) num_tuples) (\<lambda>n.
            map_result (\<lambda>tuples. sub_group (map snd padded) (concat tuples)) (strides (nat n) (transpose columns))))))))"

definition groups_uniform_groups :: "uniform_specs list \<Rightarrow> kv_cache_group_spec list result" where
  "groups_uniform_groups us =
     (case us of [] \<Rightarrow> Inl AssertionError | full # windows \<Rightarrow>
      bindE (guardE (list_all (\<lambda>(_, s). has_class MLAAttentionSpec s) (kv_cache_specs full)) AssertionError) (\<lambda>_.
      bindE (map_result get_num_layer_tuples us) (\<lambda>counts.
      bindE (approximate_gcd counts (Some (hd counts))) (\<lambda>num_tuples.
      bindE (guardE (list_all (\<lambda>u. list_all (\<lambda>(_, s). has_class SlidingWindowMLASpec s) (kv_cache_specs u)) windows) AssertionError) (\<lambda>_.
      bindE (get_page_sizes full) (\<lambda>sizes.
      bindE (map_result (split_window_group sizes num_tuples) windows) (\<lambda>gs.
        Inr (plain_group (map fst (kv_cache_specs full)) (Uniform_specs full) # concat gs))))))))"

fun flag_group :: "string \<Rightarrow> kv_cache_group_spec list \<Rightarrow> kv_cache_group_spec list" where
  "flag_group name [] = []"
| "flag_group name (g # gs) =
     (if name \<in> set (layer_names g) then g\<lparr>is_eagle_group := True\<rparr> # gs else g # flag_group name gs)"

definition annotate_eagle_groups :: "kv_vllm_config \<Rightarrow> spec_dict \<Rightarrow> kv_cache_group_spec list \<Rightarrow> kv_cache_group_spec list" where
  "annotate_eagle_groups v d gs =
     (if spec_config_eagle v \<and> list_ex (\<lambda>(_, s). model_version s = Some ''deepseek_v4'') d
      then flag_group (fst (last d)) gs else gs)"

definition get_kv_cache_groups :: "kv_vllm_config \<Rightarrow> spec_dict \<Rightarrow> kv_cache_group_spec list result" where
  "get_kv_cache_groups v d0 =
     bindE (if disable_hybrid_kv_cache_manager v then unify_hybrid_kv_cache_specs d0 else Inr d0) (\<lambda>d.
       if is_kv_cache_type_attention_free d then Inr []
       else bindE (is_kv_cache_spec_uniform d) (\<lambda>uniform.
         if uniform then groups_uniform_spec d
         else bindE (from_specs d) (\<lambda>u. case u of
             Some w \<Rightarrow> Inr (groups_uniform_type w)
           | None \<Rightarrow> bindE (group_and_unify_kv_cache_specs d) (\<lambda>grouped. case grouped of
               Some us \<Rightarrow> bindE (groups_uniform_groups us) (\<lambda>gs. Inr (annotate_eagle_groups v d gs))
             | None \<Rightarrow> bindE (unify_kv_cache_spec_page_size d) groups_uniform_page_size))))"

section \<open>The tensors of a worker\<close>

fun the_uniform_specs :: "group_spec \<Rightarrow> uniform_specs result" where
  "the_uniform_specs (Uniform_specs u) = Inr u"
| "the_uniform_specs (One_spec _) = Inl AssertionError"

fun is_uniform_group :: "group_spec \<Rightarrow> bool" where
  "is_uniform_group (Uniform_specs _) \<longleftrightarrow> True"
| "is_uniform_group (One_spec _) \<longleftrightarrow> False"

text \<open>One group's layers by page size.\<close>

definition bucket_group :: "kv_cache_group_spec \<Rightarrow> (int \<times> string list) list result" where
  "bucket_group g =
     bindE (the_uniform_specs (group_spec g)) (\<lambda>u.
     bindE (map_result (\<lambda>n. bindE (dict_at (kv_cache_specs u) n) (\<lambda>s.
                            bindE (page_size_bytes s) (\<lambda>p. Inr (p, n)))) (layer_names g)) (\<lambda>sized.
       Inr (map (\<lambda>(p, ls). (p, map snd ls)) (group_by fst sized))))"

definition slot_layers :: "(int \<times> string list) list list \<Rightarrow> nat \<Rightarrow> int \<Rightarrow> string list" where
  "slot_layers buckets i ps =
     concat (map (\<lambda>b. case dict_get b ps of None \<Rightarrow> [] | Some ls \<Rightarrow> if i < length ls then [ls ! i] else []) buckets)"

definition config_deepseek_v4 :: "kv_vllm_config \<Rightarrow> kv_cache_group_spec list \<Rightarrow> int \<Rightarrow> (int \<times> kv_cache_tensor list) result" where
  "config_deepseek_v4 v groups available =
     (case groups of [] \<Rightarrow> Inl IndexError | g0 # _ \<Rightarrow>
      bindE (the_uniform_specs (group_spec g0)) (\<lambda>u.
      bindE (get_page_sizes u) (\<lambda>size_set.
      bindE (map_result bucket_group groups) (\<lambda>buckets.
        let sizes = sorted_list_of_set size_set
        in bindE (max_of (concat (map (map (\<lambda>(_, ls). int (length ls))) buckets))) (\<lambda>num_tuples.
           bindE (floordiv available (sum_list sizes * num_tuples)) (\<lambda>n.
             let blocks = may_override_num_blocks v n
             in Inr (blocks, concat (map (\<lambda>i. map (\<lambda>ps.
                    \<lparr>tensor_size = ps * blocks, shared_by = slot_layers buckets i ps\<rparr>) sizes) [0..<nat num_tuples]))))))))"

definition pool_layers :: "kv_cache_group_spec list \<Rightarrow> nat \<Rightarrow> string list" where
  "pool_layers groups i =
     concat (map (\<lambda>g. if i < length (layer_names g) then [layer_names g ! i] else []) groups)"

definition per_layer_tensors :: "uniform_specs \<Rightarrow> int \<Rightarrow> string list \<Rightarrow> kv_cache_tensor list result" where
  "per_layer_tensors u n names =
     map_result (\<lambda>name. bindE (dict_at (kv_cache_specs u) name) (\<lambda>s.
       bindE (page_size_bytes s) (\<lambda>p. Inr \<lparr>tensor_size = p * n, shared_by = [name]\<rparr>))) names"

definition get_kv_cache_config_from_groups :: "kv_vllm_config \<Rightarrow> kv_cache_group_spec list \<Rightarrow> int \<Rightarrow> kv_cache_config result" where
  "get_kv_cache_config_from_groups v groups available =
     (case groups of [] \<Rightarrow> Inr \<lparr>num_blocks = 1, kv_cache_tensors = [], kv_cache_groups = []\<rparr> | g0 # rest \<Rightarrow>
      bindE (case (rest, group_spec g0) of
          ([], Uniform_specs u) \<Rightarrow>
            bindE (uniform_page_size_bytes u) (\<lambda>page.
            bindE (floordiv available page) (\<lambda>q.
              let n = may_override_num_blocks v q
              in bindE (per_layer_tensors u n (layer_names g0)) (\<lambda>ts. Inr (n, ts))))
        | _ \<Rightarrow>
            if list_all (\<lambda>g. is_uniform_group (group_spec g)) groups then config_deepseek_v4 v groups available
            else bindE (max_of (map (\<lambda>g. int (length (layer_names g))) groups)) (\<lambda>size.
                 bindE (get_uniform_page_size (map group_spec groups)) (\<lambda>page.
                 bindE (guardE (0 < size) AssertionError) (\<lambda>_.
                 bindE (get_num_blocks v size available page) (\<lambda>n.
                   Inr (n, map (\<lambda>i. \<lparr>tensor_size = page * n, shared_by = pool_layers groups i\<rparr>) [0..<nat size]))))))
        (\<lambda>(n, ts). Inr \<lparr>num_blocks = n, kv_cache_tensors = ts, kv_cache_groups = groups\<rparr>))"

section \<open>The memory of a longest request\<close>

definition max_memory_from_groups :: "vllm_limits \<Rightarrow> kv_cache_group_spec list \<Rightarrow> int result" where
  "max_memory_from_groups c groups =
     (case groups of [] \<Rightarrow> Inr 0 | g0 # rest \<Rightarrow>
      case (rest, group_spec g0) of
        ([], Uniform_specs u) \<Rightarrow> sum_result (max_memory_usage_bytes c) (map snd (kv_cache_specs u))
      | _ \<Rightarrow>
          if list_all (\<lambda>g. is_uniform_group (group_spec g)) groups then
            bindE (map_result the_uniform_specs (map group_spec groups)) (\<lambda>us.
            bindE (get_page_sizes (hd us)) (\<lambda>sizes.
            bindE (bindE (map_result get_num_layer_tuples us) max_of) (\<lambda>num_tuples.
              sum_result (\<lambda>u. bindE (max_memory_usage_pages c u) (\<lambda>pages. Inr (num_tuples * pages * \<Sum>sizes))) us)))
          else bindE (max_of (map (\<lambda>g. int (length (layer_names g))) groups)) (\<lambda>size.
               bindE (get_uniform_page_size (map group_spec groups)) (\<lambda>page.
               bindE (sum_result (\<lambda>g. bindE (group_max_memory_usage_bytes c (group_spec g)) (\<lambda>m. cdivE m page)) groups) (\<lambda>blocks.
                 Inr (size * page * blocks)))))"

definition estimate_max_model_len_from_groups :: "vllm_limits \<Rightarrow> kv_cache_group_spec list \<Rightarrow> int \<Rightarrow> int result" where
  "estimate_max_model_len_from_groups c groups available =
     search_max_len (\<lambda>len. max_memory_from_groups (with_len c len) groups) (max_model_len c) available"

definition auto_fit_step :: "vllm_limits \<Rightarrow> kv_cache_group_spec list \<times> int \<Rightarrow> int \<Rightarrow> int result" where
  "auto_fit_step c = (\<lambda>(groups, available) best.
     if groups = [] then Inr best
     else bindE (estimate_max_model_len_from_groups c groups available) (\<lambda>w. Inr (if w < best then w else best)))"

definition auto_fit_max_model_len :: "vllm_limits \<Rightarrow> kv_cache_group_spec list list \<Rightarrow> int list \<Rightarrow> vllm_limits result" where
  "auto_fit_max_model_len c projected available =
     (if list_all (\<lambda>gs. gs = []) projected then Inr c
      else bindE (guardE (available \<noteq> []) IndexError) (\<lambda>_.
           bindE (foldE (auto_fit_step c) (zip projected available) (max_model_len c)) (\<lambda>best.
           bindE (guardE (0 < best) ValueError) (\<lambda>_.
             Inr (if max_model_len c \<le> best then c else with_len c best)))))"

section \<open>The configurations of the workers\<close>

definition project_group :: "spec_dict \<Rightarrow> kv_cache_group_spec \<Rightarrow> kv_cache_group_spec result" where
  "project_group worker g =
     (let names = filter (\<lambda>n. n \<in> dict_keys worker) (layer_names g)
      in bindE (case group_spec g of
            One_spec s \<Rightarrow> Inr (One_spec s)
          | Uniform_specs u \<Rightarrow>
              if names = [] then Inr (Uniform_specs u)
              else bindE (map_result (\<lambda>n. bindE (dict_at (kv_cache_specs u) n) (\<lambda>s. Inr (n, s))) names) (\<lambda>d.
                     Inr (Uniform_specs \<lparr>us_block_size = us_block_size u, kv_cache_specs = d\<rparr>))) (\<lambda>s.
         Inr \<lparr>layer_names = names, group_spec = s, is_eagle_group = is_eagle_group g \<and> names \<noteq> []\<rparr>))"

definition project_kv_cache_groups_to_worker :: "kv_cache_group_spec list \<Rightarrow> spec_dict \<Rightarrow> kv_cache_group_spec list result" where
  "project_kv_cache_groups_to_worker groups worker = map_result (project_group worker) groups"

definition merge_layer :: "string \<times> kv_spec \<Rightarrow> spec_dict \<Rightarrow> spec_dict result" where
  "merge_layer = (\<lambda>(name, s) d. case dict_get d name of
      None \<Rightarrow> Inr (dict_set name s d)
    | Some s' \<Rightarrow> bindE (guardE (s' = s) AssertionError) (\<lambda>_. Inr d))"

definition merge_workers :: "spec_dict list \<Rightarrow> spec_dict result" where
  "merge_workers specs = foldE merge_layer (concat specs) []"

text \<open>The number of blocks over the blocks a longest request needs: the operands of the reported float.\<close>

definition max_concurrency :: "vllm_limits \<Rightarrow> kv_cache_config \<Rightarrow> (int \<times> int) result" where
  "max_concurrency c cfg =
     bindE (max_of (map (\<lambda>g. int (length (layer_names g))) (kv_cache_groups cfg))) (\<lambda>layers.
     bindE (sum_result (\<lambda>g. group_max_memory_usage_bytes c (group_spec g)) (kv_cache_groups cfg)) (\<lambda>m.
     bindE (group_page_size_bytes (group_spec (hd (kv_cache_groups cfg)))) (\<lambda>page.
     bindE (cdivE (layers * m) (page * layers)) (\<lambda>n.
     bindE (guardE (n \<noteq> 0) ZeroDivisionError) (\<lambda>_. Inr (num_blocks cfg, n))))))"

definition report_kv_cache_config :: "vllm_limits \<Rightarrow> kv_cache_config \<Rightarrow> (int \<times> int \<times> int) result" where
  "report_kv_cache_config c cfg =
     bindE (min_of (map (\<lambda>g. group_block_size (group_spec g)) (kv_cache_groups cfg))) (\<lambda>bs.
     bindE (floordiv (num_blocks cfg) (int (length (kv_cache_groups cfg)))) (\<lambda>n.
       let cp = prefill_context_parallel_size c * decode_context_parallel_size c;
           toks = (if 1 < cp then n * bs * cp else n * bs)
       in bindE (max_concurrency c cfg) (\<lambda>conc. Inr (toks, conc))))"

definition shrink_tensor :: "int \<Rightarrow> int \<Rightarrow> kv_cache_tensor \<Rightarrow> kv_cache_tensor result" where
  "shrink_tensor old new t =
     bindE (guardE (old \<noteq> 0) ZeroDivisionError) (\<lambda>_.
     bindE (guardE (tensor_size t mod old = 0) AssertionError) (\<lambda>_.
       Inr (t\<lparr>tensor_size := tensor_size t div old * new\<rparr>)))"

definition shrink_config :: "vllm_limits \<Rightarrow> int \<Rightarrow> kv_cache_config \<Rightarrow> kv_cache_config result" where
  "shrink_config c new cfg =
     bindE (map_result (shrink_tensor (num_blocks cfg) new) (kv_cache_tensors cfg)) (\<lambda>ts.
       let cfg' = cfg\<lparr>num_blocks := new, kv_cache_tensors := ts\<rparr>
       in if kv_cache_groups cfg = [] then Inr cfg'
          else bindE (report_kv_cache_config c cfg') (\<lambda>_. Inr cfg'))"

definition check_worker :: "vllm_limits \<Rightarrow> kv_cache_group_spec list \<times> int \<Rightarrow> unit result" where
  "check_worker c = (\<lambda>(groups, available).
     if groups = [] then Inr ()
     else check_memory available (max_memory_from_groups c groups) (estimate_max_model_len_from_groups c groups))"

definition worker_config :: "kv_vllm_config \<Rightarrow> kv_cache_group_spec list \<times> spec_dict \<times> int \<Rightarrow> kv_cache_config result" where
  "worker_config v = (\<lambda>(groups, worker, available).
     bindE (guardE ((\<Sum>g \<leftarrow> groups. length (layer_names g)) = length worker) AssertionError) (\<lambda>_.
       get_kv_cache_config_from_groups v groups available))"

definition get_kv_cache_configs :: "kv_vllm_config \<Rightarrow> spec_dict list \<Rightarrow> int list \<Rightarrow> (kv_vllm_config \<times> kv_cache_config list) result" where
  "get_kv_cache_configs v specs available =
     bindE (merge_workers specs) (\<lambda>merged.
     bindE (get_kv_cache_groups v merged) (\<lambda>groups.
     bindE (map_result (project_kv_cache_groups_to_worker groups) specs) (\<lambda>projected.
     bindE (if original_max_model_len v = -1 then auto_fit_max_model_len (limits v) projected available else Inr (limits v)) (\<lambda>c.
     bindE (map_result (check_worker c) (zip projected available)) (\<lambda>_.
     bindE (map_result (worker_config (v\<lparr>limits := c\<rparr>)) (zip projected (zip specs available))) (\<lambda>cfgs.
     bindE (min_of (map num_blocks cfgs)) (\<lambda>n.
     bindE (map_result (shrink_config c n) cfgs) (\<lambda>out. Inr (v\<lparr>limits := c\<rparr>, out)))))))))"

definition scheduler_group :: "kv_cache_group_spec \<Rightarrow> kv_cache_group_spec result" where
  "scheduler_group g = (case group_spec g of
      One_spec _ \<Rightarrow> Inr g
    | Uniform_specs u \<Rightarrow> (case kv_cache_specs u of
        [] \<Rightarrow> Inl StopIteration
      | (_, s) # _ \<Rightarrow> Inr (g\<lparr>group_spec := One_spec s\<rparr>)))"

definition generate_scheduler_kv_cache_config :: "kv_cache_config list \<Rightarrow> kv_cache_config result" where
  "generate_scheduler_kv_cache_config cfgs =
     (case cfgs of [] \<Rightarrow> Inl IndexError | cfg # _ \<Rightarrow>
      bindE (guardE (list_all (\<lambda>x. num_blocks x = num_blocks cfg) cfgs) AssertionError) (\<lambda>_.
      bindE (map_result scheduler_group (kv_cache_groups cfg)) (\<lambda>gs. Inr (cfg\<lparr>kv_cache_groups := gs\<rparr>))))"

end
