(* ===== verification/KV_Layout.thy ===== *)
theory KV_Layout
  imports KV_Config
begin

text \<open>
  What the start-up configuration of the KV cache (\<open>KV_Config\<close>) guarantees: every layer of a worker is in
  exactly one group and, outside the DeepseekV4 layout, in exactly one tensor; all workers have the
  same number of blocks and their tensors fit the memory; the search for the model length finds the
  longest one that fits.
\<close>

section \<open>Lists of results\<close>

lemma map_result_length: "map_result f xs = Inr ys \<Longrightarrow> length ys = length xs"
  by (auto simp: map_result_Inr dest: list_all2_lengthD)

lemma map_result_nth: "map_result f xs = Inr ys \<Longrightarrow> i < length xs \<Longrightarrow> f (xs ! i) = Inr (ys ! i)"
  by (auto simp: map_result_Inr list_all2_conv_all_nth)

lemma map_result_img:
  assumes "map_result f xs = Inr ys" "\<And>x y. x \<in> set xs \<Longrightarrow> f x = Inr y \<Longrightarrow> h y = g x"
  shows "map h ys = map g xs"
  using assms by (intro nth_equalityI) (auto simp: map_result_length map_result_nth)

lemma map_result_all:
  assumes "map_result f xs = Inr ys" "\<And>x y. x \<in> set xs \<Longrightarrow> f x = Inr y \<Longrightarrow> P y" "y \<in> set ys"
  shows "P y"
proof -
  obtain i where "i < length ys" "y = ys ! i" using assms(3) by (auto simp: in_set_conv_nth)
  then show ?thesis using assms(2) [of "xs ! i"] map_result_nth [OF assms(1), of i] map_result_length [OF assms(1)] by simp
qed

section \<open>Grouping, slicing and transposing keep every element\<close>

lemma group_add_wf: "dict_wf d \<Longrightarrow> dict_wf (group_add f x d)"
  by (simp add: group_add_def)

lemma mset_dict_set_new: "dict_get d k = None \<Longrightarrow> mset (concat (map snd (dict_set k v d))) = mset (concat (map snd d)) + mset v"
  by (induction d) (auto simp: dict_set_def dict_get_def split: if_splits)

lemma mset_dict_set_old:
  "dict_get d k = Some y \<Longrightarrow> mset (concat (map snd (dict_set k (y @ z) d))) = mset (concat (map snd d)) + mset z"
  by (induction d) (auto simp: dict_set_def dict_get_def split: if_splits)

lemma group_add_mset: "mset (concat (map snd (group_add f x d))) = add_mset x (mset (concat (map snd d)))"
  by (cases "dict_get d (f x)") (simp_all add: group_add_def mset_dict_set_new mset_dict_set_old del: dict_get_eq_None)

definition grouped :: "('a \<Rightarrow> 'k) \<Rightarrow> ('k \<times> 'a list) list \<Rightarrow> bool" where
  "grouped f d \<longleftrightarrow> dict_wf d \<and> (\<forall>(k, ls) \<in> set d. ls \<noteq> [] \<and> (\<forall>x \<in> set ls. f x = k))"

lemma group_add_grouped:
  assumes "grouped f d" shows "grouped f (group_add f x d)"
proof -
  have wf: "dict_wf d" using assms by (simp add: grouped_def)
  define prev where "prev = (case dict_get d (f x) of None \<Rightarrow> [] | Some xs \<Rightarrow> xs)"
  have prev: "f y = f x" if "y \<in> set prev" for y
    using assms that dict_get_wf [OF wf] by (cases "dict_get d (f x)") (auto simp: prev_def grouped_def simp del: dict_get_eq_None)
  have add: "group_add f x d = dict_set (f x) (prev @ [x]) d" by (simp add: group_add_def prev_def)
  have "ls \<noteq> [] \<and> (\<forall>y \<in> set ls. f y = k)" if "(k, ls) \<in> set (group_add f x d)" for k ls
  proof (cases "(k, ls) \<in> set d")
    case True
    then show ?thesis using assms by (auto simp: grouped_def)
  next
    case False
    then have "k = f x" "ls = prev @ [x]" using that by (auto simp: add set_dict_set [OF wf])
    then show ?thesis using prev by auto
  qed
  then show ?thesis using group_add_wf [OF wf] by (auto simp: grouped_def)
qed

lemma group_by_mset: "mset (concat (map snd (group_by f xs))) = mset xs"
proof -
  have "mset (concat (map snd (fold (group_add f) xs d))) = mset (concat (map snd d)) + mset xs" for d
    by (induction xs arbitrary: d) (simp_all add: group_add_mset)
  from this [of "[]"] show ?thesis by (simp add: group_by_def)
qed

lemma group_by_grouped: "grouped f (group_by f xs)"
proof -
  have "grouped f (fold (group_add f) xs d)" if "grouped f d" for d
    using that by (induction xs arbitrary: d) (simp_all add: group_add_grouped)
  from this [of "[]"] show ?thesis by (simp add: group_by_def grouped_def)
qed

lemma stride_mod:
  assumes "i < n" shows "stride i n xs = map snd (filter (\<lambda>(j, x). j mod n = i) (enumerate 0 xs))"
proof -
  have "i \<le> j \<and> (j - i) mod n = 0 \<longleftrightarrow> j mod n = i" for j :: nat
  proof
    assume *: "i \<le> j \<and> (j - i) mod n = 0"
    then obtain q where "j - i = n * q" by fastforce
    then have "j = i + n * q" using * by simp
    then show "j mod n = i" using assms by simp
  next
    assume "j mod n = i"
    then show "i \<le> j \<and> (j - i) mod n = 0" by (metis minus_mod_eq_mult_div mod_less_eq_dividend mod_mult_self1_is_0)
  qed
  then show ?thesis by (simp add: stride_def)
qed

lemma mset_strides_aux:
  assumes "\<forall>x \<in> set xs. g x < n"
  shows "mset (concat (map (\<lambda>i. map h (filter (\<lambda>x. g x = i) xs)) [0..<n])) = mset (map h xs)"
  using assms
proof (induction xs)
  case Nil
  show ?case by (induction n) simp_all
next
  case (Cons x xs)
  have s: "mset (concat (map (\<lambda>i. if g x = i then h x # a i else a i) js)) = (if g x \<in> set js then {#h x#} else {#}) + mset (concat (map a js))"
    if "distinct js" for a js
    using that by (induction js) auto
  have "concat (map (\<lambda>i. map h (filter (\<lambda>x. g x = i) (x # xs))) [0..<n])
      = concat (map (\<lambda>i. if g x = i then h x # map h (filter (\<lambda>x. g x = i) xs) else map h (filter (\<lambda>x. g x = i) xs)) [0..<n])"
    by (intro arg_cong [where f = concat] map_cong) simp_all
  then show ?case using Cons s [of "[0..<n]" "\<lambda>i. map h (filter (\<lambda>x. g x = i) xs)"] by simp
qed

lemma strides_mset: assumes "0 < n" shows "mset (concat (strides n xs)) = mset xs"
proof -
  have "strides n xs = map (\<lambda>i. map snd (filter (\<lambda>p. fst p mod n = i) (enumerate 0 xs))) [0..<n]"
    by (simp add: strides_def stride_mod case_prod_unfold)
  then show ?thesis using mset_strides_aux [of "enumerate 0 xs" "\<lambda>p. fst p mod n" n snd] assms by simp
qed

lemma transpose_mset: "mset (concat (transpose xss)) = mset (concat xss)"
proof (induction xss rule: transpose.induct)
  case (3 x xs xss)
  have "mset (concat xss) = mset (concat (map (case_list [] (\<lambda>h t. [h])) xss)) + mset (concat (map (case_list [] (\<lambda>h t. t)) xss))"
    by (induction xss) (auto split: list.splits)
  moreover have "concat (concat (map (case_list [] (\<lambda>h t. [t])) xss)) = concat (map (case_list [] (\<lambda>h t. t)) xss)"
    by (induction xss) (auto split: list.splits)
  ultimately show ?case using 3 by (simp add: ac_simps)
qed simp_all

section \<open>The layers of the groups\<close>

definition group_layers :: "kv_cache_group_spec list \<Rightarrow> string list" where
  "group_layers gs = concat (map layer_names gs)"

lemma group_layers_simps [simp]:
  "group_layers [] = []" "group_layers (g # gs) = layer_names g @ group_layers gs"
  "group_layers (gs @ hs) = group_layers gs @ group_layers hs"
  by (simp_all add: group_layers_def)

lemma plain_group_layers [simp]: "layer_names (plain_group names s) = names" "group_spec (plain_group names s) = s"
  by (simp_all add: plain_group_def)

lemma mset_concat_subset: "list_all2 (\<lambda>x y. mset (f x) \<subseteq># mset (g y)) xs ys \<Longrightarrow> mset (concat (map f xs)) \<subseteq># mset (concat (map g ys))"
  by (induction xs ys rule: list_all2_induct) (simp_all add: subset_mset.add_mono)

lemma create_group_specs_layers:
  assumes "create_kv_cache_group_specs d ns = Inr gs"
  shows "map layer_names gs = ns" "list_all (\<lambda>g. \<not> is_uniform_group (group_spec g)) gs"
proof -
  note m = assms [unfolded create_kv_cache_group_specs_def]
  have "map layer_names gs = map (\<lambda>x. x) ns" by (rule map_result_img [OF m]) (auto simp: bindE_eq_Inr)
  then show "map layer_names gs = ns" by simp
  show "list_all (\<lambda>g. \<not> is_uniform_group (group_spec g)) gs"
    unfolding list_all_iff by (rule ballI, rule map_result_all [OF m]) (auto simp: bindE_eq_Inr)
qed

lemma groups_uniform_spec_layers: "groups_uniform_spec d = Inr gs \<Longrightarrow> group_layers gs = map fst d"
  unfolding groups_uniform_spec_def by (drule create_group_specs_layers(1)) (simp add: group_layers_def)

lemma strides_mset_le: "mset (concat (strides n xs)) \<subseteq># mset xs"
  using strides_mset [of n xs] by (cases "n = 0") (simp_all add: strides_def)

lemma groups_uniform_page_size_layers:
  assumes "groups_uniform_page_size d = Inr gs"
  shows "mset (group_layers gs) = mset (map fst d)" "list_all (\<lambda>g. \<not> is_uniform_group (group_spec g)) gs"
proof -
  define same where "same = map (\<lambda>(_, ls). map fst ls) (group_by snd d)"
  obtain size where size: "0 < size" and gs: "create_kv_cache_group_specs d (concat (map (\<lambda>ls. strides (nat (cdiv (int (length ls)) size)) ls) same)) = Inr gs"
  proof -
    let ?lens = "map (\<lambda>ls. int (length ls)) same"
    let ?size = "if 2 * Max (set ?lens) < 3 * Min (set ?lens) then Max (set ?lens) else Min (set ?lens)"
    have r: "same \<noteq> []" "create_kv_cache_group_specs d (concat (map (\<lambda>ls. strides (nat (cdiv (int (length ls)) ?size)) ls) same)) = Inr gs"
      using assms unfolding groups_uniform_page_size_def same_def [symmetric]
      by (auto simp: Let_def min_of_def max_of_def bindE_eq_Inr split: if_splits)
    have pos: "0 < l" if "l \<in> set ?lens" for l
      using that group_by_grouped [of snd d] by (auto simp: grouped_def same_def)
    have "Max (set ?lens) \<in> set ?lens" "Min (set ?lens) \<in> set ?lens" using r(1) by (intro Max_in Min_in; simp)+
    then have "0 < ?size" using pos by (simp split: if_split)
    then show thesis using r(2) by (rule that)
  qed
  have pos: "0 < nat (cdiv (int (length ls)) size)" if "ls \<in> set same" for ls
    using that group_by_grouped [of snd d] size less_cdiv_iff [OF size, of 0 "int (length ls)"] by (auto simp: grouped_def same_def)
  have "mset (concat (concat (map (\<lambda>ls. strides (nat (cdiv (int (length ls)) size)) ls) xs))) = mset (concat xs)" if "set xs \<subseteq> set same" for xs
    using that by (induction xs) (simp_all add: strides_mset [OF pos])
  from this [of same] have "mset (group_layers gs) = mset (concat same)"
    using create_group_specs_layers(1) [OF gs] by (simp add: group_layers_def)
  also have "concat same = map fst (concat (map snd (group_by snd d)))"
    unfolding same_def by (induction "group_by snd d") (auto simp: map_concat comp_def case_prod_unfold)
  also have "mset \<dots> = mset (map fst d)" using group_by_mset [of snd d] by simp
  finally show "mset (group_layers gs) = mset (map fst d)" .
  show "list_all (\<lambda>g. \<not> is_uniform_group (group_spec g)) gs" by (rule create_group_specs_layers(2) [OF gs])
qed

lemma hybrid_to_full_fst: "hybrid_to_full b x = Inr y \<Longrightarrow> fst y = fst x"
  by (cases x) (auto simp: hybrid_to_full_def bindE_eq_Inr split: if_splits)

lemma unify_page_step_fst: "unify_page_step m x = Inr y \<Longrightarrow> fst y = fst x"
  by (cases x) (auto simp: unify_page_step_def bindE_eq_Inr split: if_splits)

lemma unify_hybrid_names: "unify_hybrid_kv_cache_specs d = Inr d' \<Longrightarrow> map fst d' = map fst d"
  using map_result_img [of "hybrid_to_full _" d d' fst fst]
  by (auto simp: unify_hybrid_kv_cache_specs_def bindE_eq_Inr Let_def dest: hybrid_to_full_fst split: if_splits)

lemma unify_page_names: "unify_kv_cache_spec_page_size d = Inr d' \<Longrightarrow> map fst d' = map fst d"
  using map_result_img [of "unify_page_step _" d d' fst fst]
  by (auto simp: unify_kv_cache_spec_page_size_def bindE_eq_Inr dest: unify_page_step_fst split: if_splits)

lemma sub_group_layers: "sub_group d ns = Inr g \<Longrightarrow> layer_names g = ns"
  by (auto simp: sub_group_def bindE_eq_Inr split: option.splits)

lemma map_fst_groups: "concat (map (\<lambda>(_, ls). map (fst \<circ> snd) ls) gr) = map (fst \<circ> snd) (concat (map snd gr))"
  by (induction gr) auto

lemma mset_concat_mono:
  assumes "mset xss \<subseteq># mset yss" shows "mset (concat xss) \<subseteq># mset (concat yss)"
proof -
  have "image_mset mset (mset xss) \<subseteq># image_mset mset (mset yss)" using assms by (rule image_mset_subseteq_mono)
  then obtain M where "image_mset mset (mset yss) = image_mset mset (mset xss) + M" by (auto simp: subset_mset.le_iff_add)
  then show ?thesis by (simp add: mset_concat flip: sum_mset_sum_list)
qed

lemma concat_map_concat: "concat (map concat xsss) = concat (concat xsss)"
  by (induction xsss) simp_all

lemma split_window_group_layers:
  assumes "split_window_group sizes n u = Inr gs"
  shows "mset (group_layers gs) \<subseteq># mset (map fst (kv_cache_specs u))"
proof -
  obtain padded k where p: "map_result (pad_layer sizes) (kv_cache_specs u) = Inr padded"
    and gs: "map_result (\<lambda>tuples. sub_group (map snd padded) (concat tuples))
        (strides k (transpose (map (\<lambda>(_, ls). map (fst \<circ> snd) ls) (group_by fst padded)))) = Inr gs"
    using assms by (auto simp: split_window_group_def bindE_eq_Inr Let_def)
  let ?cols = "map (\<lambda>(_, ls). map (fst \<circ> snd) ls) (group_by fst padded)"
  have names: "map (fst \<circ> snd) padded = map fst (kv_cache_specs u)"
    by (rule map_result_img [OF p]) (auto simp: pad_layer_def bindE_eq_Inr Let_def)
  have "map layer_names gs = map concat (strides k (transpose ?cols))"
    by (rule map_result_img [OF gs]) (simp add: sub_group_layers)
  then have "group_layers gs = concat (concat (strides k (transpose ?cols)))" by (simp add: group_layers_def concat_map_concat)
  also have "mset \<dots> \<subseteq># mset (concat (transpose ?cols))"
    by (rule mset_concat_mono [OF strides_mset_le])
  also have "mset (concat (transpose ?cols)) = mset (map (fst \<circ> snd) (concat (map snd (group_by fst padded))))"
    unfolding transpose_mset map_fst_groups ..
  also have "\<dots> = mset (map fst (kv_cache_specs u))"
    unfolding names [symmetric] using group_by_mset [of fst padded] by (simp only: mset_map)
  finally show ?thesis .
qed

lemma map_result_concat_le:
  assumes "map_result f xs = Inr ys" "\<And>x y. x \<in> set xs \<Longrightarrow> f x = Inr y \<Longrightarrow> mset (g y) \<subseteq># mset (h x)"
  shows "mset (concat (map g ys)) \<subseteq># mset (concat (map h xs))"
  using assms
proof (induction xs arbitrary: ys)
  case (Cons x xs)
  from Cons.prems(1) obtain y zs where y: "f x = Inr y" "map_result f xs = Inr zs" "ys = y # zs" by (auto simp: bindE_eq_Inr)
  show ?case using Cons.IH [OF y(2)] Cons.prems(2) [OF _ y(1)] Cons.prems(2) unfolding y(3)
    by (simp add: subset_mset.add_mono)
qed simp

definition spec_names :: "uniform_specs \<Rightarrow> string list" where
  "spec_names u = map fst (kv_cache_specs u)"

lemma group_layers_concat: "group_layers (concat gss) = concat (map group_layers gss)"
  by (induction gss) simp_all

lemma groups_uniform_groups_layers:
  assumes "groups_uniform_groups us = Inr gs" shows "mset (group_layers gs) \<subseteq># mset (concat (map spec_names us))"
proof -
  obtain full windows where us: "us = full # windows" using assms by (cases us) (auto simp: groups_uniform_groups_def)
  obtain sizes n hs where hs: "map_result (split_window_group sizes n) windows = Inr hs"
    and gs: "gs = plain_group (map fst (kv_cache_specs full)) (Uniform_specs full) # concat hs"
    using assms unfolding us groups_uniform_groups_def by (auto simp: bindE_eq_Inr)
  have "mset (concat (map group_layers hs)) \<subseteq># mset (concat (map spec_names windows))"
    by (rule map_result_concat_le [OF hs]) (unfold spec_names_def, rule split_window_group_layers)
  then show ?thesis unfolding gs us by (simp add: group_layers_concat spec_names_def)
qed

lemma from_specs_eq: "from_specs d = Inr (Some w) \<Longrightarrow> kv_cache_specs w = d"
  by (auto simp: from_specs_def bindE_eq_Inr split: if_splits)

lemma mset_subset_eq_add_mset_self: "M \<subseteq># add_mset x M"
  by (simp add: subset_mset.le_iff_add)

lemma mset_filter_disjoint:
  "(\<And>x. \<not> (P x \<and> Q x)) \<Longrightarrow> mset (filter P xs) + mset (filter Q xs) \<subseteq># mset xs"
  by (induction xs) (auto intro: subset_mset.order_trans [OF _ mset_subset_eq_add_mset_self])

lemma group_and_unify_layers:
  assumes "group_and_unify_kv_cache_specs d = Inr (Some us)"
  shows "mset (concat (map spec_names us)) \<subseteq># mset (map fst d)"
proof -
  let ?mla = "filter (\<lambda>(_, s). has_class MLAAttentionSpec s) d"
  let ?swa = "filter (\<lambda>(_, s). has_class SlidingWindowMLASpec s) d"
  let ?gr = "group_by (\<lambda>(_, s). (spec_block_size s, sliding_window s)) ?swa"
  let ?the = "\<lambda>x. bindE (from_specs x) (\<lambda>u. case u of None \<Rightarrow> Inl AssertionError | Some w \<Rightarrow> Inr w)"
  obtain m ws where m: "?the ?mla = Inr m" and ws: "map_result ?the (map snd ?gr) = Inr ws" and us: "us = m # ws"
    using assms by (auto simp: group_and_unify_kv_cache_specs_def bindE_eq_Inr Let_def split: if_splits)
  have names: "spec_names w = map fst x" if "?the x = Inr w" for x w
    using that by (auto simp: spec_names_def bindE_eq_Inr dest: from_specs_eq split: option.splits)
  have nm: "spec_names m = map fst ?mla" by (rule names [OF m])
  have "map spec_names ws = map (map fst) (map snd ?gr)" by (rule map_result_img [OF ws names])
  then have "mset (concat (map spec_names ws)) = mset (map fst (concat (map snd ?gr)))" by (simp add: map_concat)
  also have "\<dots> = mset (map fst ?swa)" unfolding mset_map group_by_mset ..
  finally have "mset (concat (map spec_names us)) = image_mset fst (mset ?mla + mset ?swa)" by (simp add: us nm)
  also have "\<dots> \<subseteq># image_mset fst (mset d)"
    by (intro image_mset_subseteq_mono mset_filter_disjoint) (auto simp: has_class_def)
  finally show ?thesis by simp
qed

lemma annotate_eagle_layers: "group_layers (annotate_eagle_groups v d gs) = group_layers gs"
proof -
  have "group_layers (flag_group n gs) = group_layers gs" for n by (induction gs) auto
  then show ?thesis by (simp add: annotate_eagle_groups_def)
qed

text \<open>The ways \<open>get_kv_cache_groups\<close> makes its groups.\<close>

lemma get_kv_cache_groups_cases:
  assumes "get_kv_cache_groups v d0 = Inr gs"
  obtains (free) "gs = []"
    | (spec) d where "map fst d = map fst d0" "groups_uniform_spec d = Inr gs"
    | (type) d w where "map fst d = map fst d0" "from_specs d = Inr (Some w)" "gs = groups_uniform_type w"
    | (several) d us hs where "map fst d = map fst d0" "group_and_unify_kv_cache_specs d = Inr (Some us)"
        "groups_uniform_groups us = Inr hs" "gs = annotate_eagle_groups v d hs"
    | (page) d d' where "map fst d = map fst d0" "unify_kv_cache_spec_page_size d = Inr d'" "groups_uniform_page_size d' = Inr gs"
proof -
  obtain d where d: "map fst d = map fst d0"
    and r: "(if is_kv_cache_type_attention_free d then Inr []
       else bindE (is_kv_cache_spec_uniform d) (\<lambda>uniform.
         if uniform then groups_uniform_spec d
         else bindE (from_specs d) (\<lambda>u. case u of
             Some w \<Rightarrow> Inr (groups_uniform_type w)
           | None \<Rightarrow> bindE (group_and_unify_kv_cache_specs d) (\<lambda>grouped. case grouped of
               Some us \<Rightarrow> bindE (groups_uniform_groups us) (\<lambda>gs. Inr (annotate_eagle_groups v d gs))
             | None \<Rightarrow> bindE (unify_kv_cache_spec_page_size d) groups_uniform_page_size)))) = Inr gs"
    using assms unfolding get_kv_cache_groups_def by (auto simp: bindE_eq_Inr dest: unify_hybrid_names split: if_splits)
  show thesis
  proof (cases "is_kv_cache_type_attention_free d")
    case True
    then show thesis using r free by simp
  next
    case False
    then obtain uniform where u: "is_kv_cache_spec_uniform d = Inr uniform" using r by (auto simp: bindE_eq_Inr)
    show thesis
    proof (cases uniform)
      case True
      then show thesis using r False u spec [OF d] by simp
    next
      case nu: False
      then obtain w where w: "from_specs d = Inr w" using r False u by (auto simp: bindE_eq_Inr)
      show thesis
      proof (cases w)
        case None
        then obtain grouped where g: "group_and_unify_kv_cache_specs d = Inr grouped" using r False u nu w by (auto simp: bindE_eq_Inr)
        show thesis
        proof (cases grouped)
          case None': None
          then obtain d' where "unify_kv_cache_spec_page_size d = Inr d'" "groups_uniform_page_size d' = Inr gs"
            using r False u nu w None g by (auto simp: bindE_eq_Inr)
          then show thesis by (rule page [OF d])
        next
          case (Some us)
          then obtain hs where "groups_uniform_groups us = Inr hs" "gs = annotate_eagle_groups v d hs"
            using r False u nu w None g by (auto simp: bindE_eq_Inr)
          then show thesis by (rule several [OF d g [unfolded Some]])
        qed
      next
        case (Some us)
        then show thesis using r False u nu w type [OF d] by simp
      qed
    qed
  qed
qed

lemma get_kv_cache_groups_layers:
  assumes "get_kv_cache_groups v d0 = Inr gs"
  shows "mset (group_layers gs) \<subseteq># mset (map fst d0)"
  using assms
proof (cases rule: get_kv_cache_groups_cases)
  case free
  then show ?thesis by simp
next
  case (spec d)
  show ?thesis unfolding groups_uniform_spec_layers [OF spec(2)] spec(1) by (rule subset_mset.order_refl)
next
  case (type d w)
  show ?thesis unfolding type(1) [symmetric] type(3) by (simp add: groups_uniform_type_def from_specs_eq [OF type(2)])
next
  case (several d us hs)
  have "group_layers gs = group_layers hs" unfolding several(4) by (rule annotate_eagle_layers)
  then show ?thesis using subset_mset.order_trans [OF groups_uniform_groups_layers [OF several(3)] group_and_unify_layers [OF several(2)]]
    by (simp only: several(1))
next
  case (page d d')
  show ?thesis unfolding groups_uniform_page_size_layers(1) [OF page(3)] unify_page_names [OF page(2)] page(1) by (rule subset_mset.order_refl)
qed

text \<open>A group with the specs of several layers has exactly the layers of its specs.\<close>

definition group_names_ok :: "kv_cache_group_spec \<Rightarrow> bool" where
  "group_names_ok g \<longleftrightarrow> (\<forall>u. group_spec g = Uniform_specs u \<and> layer_names g \<noteq> [] \<longrightarrow> layer_names g = spec_names u)"

lemma group_names_ok_One: "\<not> is_uniform_group (group_spec g) \<Longrightarrow> group_names_ok g"
  by (auto simp: group_names_ok_def)

lemma named_specs: "map_result (\<lambda>n. bindE (dict_at d n) (\<lambda>s. Inr (n, s))) ns = Inr xs \<Longrightarrow> map fst xs = ns"
  using map_result_img [of "\<lambda>n. bindE (dict_at d n) (\<lambda>s. Inr (n, s))" ns xs fst "\<lambda>x. x"] by (auto simp: bindE_eq_Inr)

lemma sub_group_ok:
  assumes "sub_group d ns = Inr g" shows "group_names_ok g"
proof -
  obtain xs w where "map_result (\<lambda>n. bindE (dict_at d n) (\<lambda>s. Inr (n, s))) ns = Inr xs" "from_specs xs = Inr (Some w)"
    "g = plain_group ns (Uniform_specs w)"
    using assms by (auto simp: sub_group_def bindE_eq_Inr split: option.splits)
  then show ?thesis by (simp add: group_names_ok_def spec_names_def from_specs_eq named_specs)
qed

lemma split_window_group_ok:
  assumes "split_window_group sizes n u = Inr gs" "g \<in> set gs" shows "group_names_ok g"
proof -
  obtain padded cols where "map_result (\<lambda>tuples. sub_group padded (concat tuples)) cols = Inr gs"
    using assms(1) by (auto simp: split_window_group_def bindE_eq_Inr Let_def)
  then show ?thesis by (rule map_result_all) (auto intro: sub_group_ok assms(2))
qed

lemma flag_group_ok: "\<forall>g \<in> set gs. group_names_ok g \<Longrightarrow> \<forall>g \<in> set (flag_group n gs). group_names_ok g"
  by (induction gs) (auto simp: group_names_ok_def)

lemma get_kv_cache_groups_names_ok:
  assumes "get_kv_cache_groups v d0 = Inr gs" shows "\<forall>g \<in> set gs. group_names_ok g"
  using assms
proof (cases rule: get_kv_cache_groups_cases)
  case free
  then show ?thesis by simp
next
  case (spec d)
  then show ?thesis using create_group_specs_layers(2) by (auto simp: groups_uniform_spec_def list_all_iff intro: group_names_ok_One)
next
  case (type d w)
  then show ?thesis by (simp add: groups_uniform_type_def group_names_ok_def spec_names_def)
next
  case (several d us hs)
  then obtain full windows sizes n gss where "us = full # windows" "map_result (split_window_group sizes n) windows = Inr gss"
    "hs = plain_group (map fst (kv_cache_specs full)) (Uniform_specs full) # concat gss"
    unfolding groups_uniform_groups_def by (auto simp: bindE_eq_Inr split: list.splits)
  then have "\<forall>g \<in> set hs. group_names_ok g"
    using map_result_all [of "split_window_group sizes n" windows gss "\<lambda>gs. \<forall>g \<in> set gs. group_names_ok g"]
    by (auto simp: group_names_ok_def [of "plain_group _ _"] spec_names_def dest: split_window_group_ok)
  then show ?thesis unfolding several(4) annotate_eagle_groups_def by (simp add: flag_group_ok)
next
  case (page d d')
  then show ?thesis using groups_uniform_page_size_layers(2) by (auto simp: list_all_iff intro: group_names_ok_One)
qed

lemma project_group_ok: "project_group w g = Inr g' \<Longrightarrow> group_names_ok g'"
  by (auto simp: project_group_def bindE_eq_Inr Let_def group_names_ok_def spec_names_def dest!: named_specs [THEN sym] split: group_spec.splits if_splits)

section \<open>The layers of a worker\<close>

lemma project_layers:
  assumes "project_kv_cache_groups_to_worker gs w = Inr ps"
  shows "group_layers ps = filter (\<lambda>n. n \<in> dict_keys w) (group_layers gs)"
proof -
  have "map layer_names ps = map (\<lambda>g. filter (\<lambda>n. n \<in> dict_keys w) (layer_names g)) gs"
    by (rule map_result_img [OF assms [unfolded project_kv_cache_groups_to_worker_def]])
      (auto simp: project_group_def bindE_eq_Inr Let_def)
  then show ?thesis by (simp add: group_layers_def filter_concat comp_def)
qed

lemma merge_workers_wf: assumes "merge_workers specs = Inr d" shows "dict_wf d"
proof (rule foldE_invariant [where P = dict_wf, OF assms [unfolded merge_workers_def]])
  show "dict_wf t" if "dict_wf s" "merge_layer x s = Inr t" for x s t
    using that by (auto simp: merge_layer_def bindE_eq_Inr split: prod.splits option.splits)
qed simp

lemma config_groups: "get_kv_cache_config_from_groups v gs a = Inr cfg \<Longrightarrow> kv_cache_groups cfg = gs"
  unfolding get_kv_cache_config_from_groups_def by (cases gs) (auto simp: bindE_eq_Inr)

lemma worker_layers_exact:
  assumes "worker_config v (ps, w, a) = Inr cfg" "project_kv_cache_groups_to_worker gs w = Inr ps"
    "distinct (group_layers gs)" "dict_wf w"
  shows "mset (group_layers (kv_cache_groups cfg)) = mset (map fst w)"
proof -
  have cfg: "kv_cache_groups cfg = ps" and len: "length (group_layers ps) = length w"
    using assms(1) config_groups by (auto simp: worker_config_def bindE_eq_Inr group_layers_def length_concat comp_def)
  have d: "distinct (group_layers ps)" "set (group_layers ps) \<subseteq> set (map fst w)"
    using assms(3) unfolding project_layers [OF assms(2)] by auto
  have "card (set (group_layers ps)) = card (set (map fst w))"
    using d(1) len assms(4) by (simp add: distinct_card dict_wf_def del: set_map)
  then have "set (group_layers ps) = set (map fst w)" using d(2) by (intro card_subset_eq) simp_all
  then have "mset (group_layers ps) = mset (map fst w)"
    using d(1) assms(4) unfolding dict_wf_def by (intro set_eq_iff_mset_eq_distinct [THEN iffD1])
  then show ?thesis by (simp only: cfg)
qed

lemma shrink_config_fields:
  assumes "shrink_config c n cfg = Inr out"
  shows "num_blocks out = n" "kv_cache_groups out = kv_cache_groups cfg"
    "map_result (shrink_tensor (num_blocks cfg) n) (kv_cache_tensors cfg) = Inr (kv_cache_tensors out)"
  using assms by (auto simp: shrink_config_def bindE_eq_Inr Let_def split: if_splits)

section \<open>The tensors\<close>

text \<open>Every layer of a group gets a place in a pool, and only there.\<close>

lemma pool_row: "concat (map (\<lambda>i. if i < length xs then [xs ! i] else []) [0..<n]) = take n xs"
  by (induction n) (auto simp: take_Suc_conv_app_nth)

lemma mset_concat_rows: "mset (concat (map (\<lambda>i. f i @ g i) is')) = mset (concat (map f is')) + mset (concat (map g is'))"
  by (induction is') simp_all

lemma pool_layers_mset:
  assumes "\<forall>g \<in> set gs. length (layer_names g) \<le> n"
  shows "mset (concat (map (pool_layers gs) [0..<n])) = mset (group_layers gs)"
  using assms
proof (induction gs)
  case Nil
  show ?case by (simp add: pool_layers_def)
next
  case (Cons g gs)
  have "pool_layers (g # gs) = (\<lambda>i. (if i < length (layer_names g) then [layer_names g ! i] else []) @ pool_layers gs i)"
    by (rule ext) (simp add: pool_layers_def)
  then show ?case using Cons by (simp only: mset_concat_rows pool_row) simp
qed

lemma per_layer_tensors_fields:
  assumes "per_layer_tensors u n names = Inr ts"
  shows "concat (map shared_by ts) = names"
    "\<exists>ps. map_result (\<lambda>k. bindE (dict_at (kv_cache_specs u) k) page_size_bytes) names = Inr ps \<and> map tensor_size ts = map (\<lambda>p. p * n) ps"
  using assms unfolding per_layer_tensors_def
  by (induction names arbitrary: ts) (auto simp: bindE_eq_Inr)

lemma dict_at_keys:
  assumes "dict_wf d" shows "map_result (\<lambda>k. bindE (dict_at d k) f) (map fst d) = map_result f (map snd d)"
proof -
  have "map_result (\<lambda>k. bindE (dict_at d k) f) (map fst e) = map_result f (map snd e)" if "set e \<subseteq> set d" for e
    using that
  proof (induction e)
    case (Cons x e)
    then have "dict_get d (fst x) = Some (snd x)" using dict_get_wf [OF assms, of "fst x" "snd x"] by simp
    then show ?case using Cons by (simp add: dict_at_def)
  qed simp
  from this [of d] show ?thesis by simp
qed

lemma map_result_comp: "map_result f (map g xs) = map_result (\<lambda>x. f (g x)) xs"
  by (induction xs) simp_all

text \<open>The product of the number of blocks and the bytes of a block in all tensors.\<close>

lemma div_mult_fits: "(0::int) \<le> a \<Longrightarrow> d \<noteq> 0 \<Longrightarrow> 0 \<le> a div d \<Longrightarrow> d * (a div d) \<le> a"
proof (cases "0 < d")
  case True
  then show ?thesis using minus_mod_eq_mult_div [of a d] pos_mod_sign [of d a] by linarith
next
  case False
  assume "0 \<le> a" "d \<noteq> 0" "0 \<le> a div d"
  moreover have "a div d \<le> 0" using False \<open>0 \<le> a\<close> \<open>d \<noteq> 0\<close> by (simp add: div_nonneg_neg_le0)
  ultimately show ?thesis by simp
qed

definition tensors_fit :: "int \<Rightarrow> int \<Rightarrow> kv_cache_tensor list \<Rightarrow> bool" where
  "tensors_fit a n ts \<longleftrightarrow> (\<exists>ps. map tensor_size ts = map (\<lambda>p. p * n) ps \<and> sum_list ps * n \<le> a)"

lemma sum_list_const_rows: "sum_list (concat (map (\<lambda>i. xs) is')) = int (length is') * (sum_list xs :: int)"
  by (induction is') (simp_all add: algebra_simps)

lemma map_rows_same: "map f (concat (map (\<lambda>i. map (g i) xs) is')) = concat (map (\<lambda>i. map (\<lambda>x. f (g i x)) xs) is')"
  by (induction is') simp_all

lemma deepseek_fits:
  assumes "config_deepseek_v4 v gs a = Inr (n, ts)" "num_gpu_blocks_override v = None" "0 \<le> a" "0 \<le> n"
  shows "tensors_fit a n ts"
proof -
  obtain u sizes m buckets where m: "max_of (concat (map (map (\<lambda>(_, ls). int (length ls))) buckets)) = Inr m"
    and n: "sum_list (sorted_list_of_set sizes) * m \<noteq> 0" "n = a div (sum_list (sorted_list_of_set sizes) * m)"
    and ts: "ts = concat (map (\<lambda>i. map (\<lambda>ps. \<lparr>tensor_size = ps * n, shared_by = slot_layers buckets i ps\<rparr>) (sorted_list_of_set sizes)) [0..<nat m])"
    using assms(1,2) unfolding config_deepseek_v4_def
    by (cases gs) (auto simp: bindE_eq_Inr Let_def floordiv_def may_override_num_blocks_def)
  let ?s = "sorted_list_of_set sizes"
  let ?ps = "concat (map (\<lambda>i. ?s) [0..<nat m])"
  have "set (concat (map (map (\<lambda>(_, ls). int (length ls))) buckets)) \<noteq> {}"
    and "m = Max (set (concat (map (map (\<lambda>(_, ls). int (length ls))) buckets)))"
    using m by (auto simp: max_of_def split: if_splits)
  then have "m \<in> set (concat (map (map (\<lambda>(_, ls). int (length ls))) buckets))" using Max_in by (metis List.finite_set)
  then have "0 \<le> m" by auto
  then have "sum_list ?ps = sum_list ?s * m" by (simp add: sum_list_const_rows mult.commute)
  moreover have "map tensor_size ts = map (\<lambda>p. p * n) ?ps" unfolding ts by (simp add: map_rows_same map_concat comp_def)
  moreover have "sum_list ?s * m * n \<le> a" unfolding n(2) by (rule div_mult_fits) (use assms(3,4) n in auto)
  ultimately show ?thesis by (auto simp: tensors_fit_def)
qed

lemma pools_fit:
  assumes "get_num_blocks v m a page = Inr n" "num_gpu_blocks_override v = None" "0 \<le> a" "0 < m"
  shows "page * m * n \<le> a"
proof -
  have n: "n = max (a div page div m) 0" "page \<noteq> 0"
    using assms(1,2) by (auto simp: get_num_blocks_def bindE_eq_Inr floordiv_def may_override_num_blocks_def)
  have e: "a div page div m = a div (page * m)" using assms(4) by (simp add: zdiv_zmult2_eq)
  show ?thesis
  proof (cases "0 \<le> a div (page * m)")
    case True
    then show ?thesis using div_mult_fits [OF assms(3) _ True] n assms(4) by (simp add: e)
  next
    case False
    then show ?thesis using n assms(3) by (simp add: e)
  qed
qed

lemma config_fits:
  assumes "get_kv_cache_config_from_groups v gs a = Inr cfg" "num_gpu_blocks_override v = None" "0 \<le> a" "0 \<le> num_blocks cfg"
    "\<forall>g \<in> set gs. group_names_ok g" "distinct (group_layers gs)"
  shows "tensors_fit a (num_blocks cfg) (kv_cache_tensors cfg)"
proof (cases gs)
  case Nil
  then show ?thesis using assms(1,3) by (auto simp: get_kv_cache_config_from_groups_def tensors_fit_def intro: exI [of _ "[]"])
next
  case (Cons g0 rest)
  show ?thesis
  proof (cases "rest = [] \<and> is_uniform_group (group_spec g0)")
    case True
    then obtain u where u: "group_spec g0 = Uniform_specs u" by (cases "group_spec g0") auto
    then obtain page ts where p: "uniform_page_size_bytes u = Inr page" "page \<noteq> 0"
      and ts: "per_layer_tensors u (a div page) (layer_names g0) = Inr ts"
      and cfg: "num_blocks cfg = a div page" "kv_cache_tensors cfg = ts"
      using assms(1,2) Cons True by (auto simp: get_kv_cache_config_from_groups_def bindE_eq_Inr floordiv_def may_override_num_blocks_def)
    obtain ps where ps: "map_result (\<lambda>k. bindE (dict_at (kv_cache_specs u) k) page_size_bytes) (layer_names g0) = Inr ps"
      "map tensor_size ts = map (\<lambda>p. p * (a div page)) ps"
      using per_layer_tensors_fields(2) [OF ts] by blast
    have "sum_list ps * (a div page) \<le> a"
    proof (cases "layer_names g0 = []")
      case True
      then show ?thesis using ps assms(3) by simp
    next
      case False
      then have names: "layer_names g0 = map fst (kv_cache_specs u)"
        using assms(5) Cons u by (simp add: group_names_ok_def spec_names_def)
      then have "dict_wf (kv_cache_specs u)" using assms(6) Cons by (simp add: dict_wf_def)
      then have "map_result page_size_bytes (map snd (kv_cache_specs u)) = Inr ps" using ps(1) unfolding names by (simp add: dict_at_keys)
      then have "sum_list ps = page" using p(1) by (simp add: uniform_page_size_bytes_def map_result_comp case_prod_unfold)
      then show ?thesis using div_mult_fits [OF assms(3) p(2)] assms(4) cfg(1) by simp
    qed
    then show ?thesis using ps(2) cfg by (auto simp: tensors_fit_def)
  next
    case False
    then have general: "bindE (if list_all (\<lambda>g. is_uniform_group (group_spec g)) gs then config_deepseek_v4 v gs a
            else bindE (max_of (map (\<lambda>g. int (length (layer_names g))) gs)) (\<lambda>size.
                 bindE (get_uniform_page_size (map group_spec gs)) (\<lambda>page.
                 bindE (guardE (0 < size) AssertionError) (\<lambda>_.
                 bindE (get_num_blocks v size a page) (\<lambda>n.
                   Inr (n, map (\<lambda>i. \<lparr>tensor_size = page * n, shared_by = pool_layers gs i\<rparr>) [0..<nat size]))))))
        (\<lambda>(n, ts). Inr \<lparr>num_blocks = n, kv_cache_tensors = ts, kv_cache_groups = gs\<rparr>) = Inr cfg"
      using assms(1) Cons by (cases "group_spec g0") (auto simp: get_kv_cache_config_from_groups_def split: list.splits)
    show ?thesis
    proof (cases "list_all (\<lambda>g. is_uniform_group (group_spec g)) gs")
      case True
      then show ?thesis using general deepseek_fits [OF _ assms(2,3)] assms(4) by (auto simp: bindE_eq_Inr)
    next
      case False
      then obtain m page n where n: "get_num_blocks v m a page = Inr n" "0 < m"
        and cfg: "num_blocks cfg = n" "kv_cache_tensors cfg = map (\<lambda>i. \<lparr>tensor_size = page * n, shared_by = pool_layers gs i\<rparr>) [0..<nat m]"
        using general by (auto simp: bindE_eq_Inr)
      have "map tensor_size (kv_cache_tensors cfg) = map (\<lambda>p. p * n) (replicate (nat m) page)"
        unfolding cfg by (simp add: map_replicate_const comp_def)
      moreover have "sum_list (replicate (nat m) page) * n \<le> a" using pools_fit [OF n(1) assms(2,3) n(2)] n(2) by (simp add: sum_list_replicate mult.commute)
      ultimately show ?thesis unfolding tensors_fit_def cfg(1) by blast
    qed
  qed
qed

lemma shrink_fits:
  assumes "tensors_fit a old ts" "map_result (shrink_tensor old new) ts = Inr ts'" "0 \<le> new" "new \<le> old" "0 \<le> a"
  shows "(\<Sum>t \<leftarrow> ts'. tensor_size t) \<le> a"
proof (cases "ts = []")
  case True
  then show ?thesis using assms(2,5) by simp
next
  case False
  then have old: "old \<noteq> 0" using assms(2) by (cases ts) (auto simp: bindE_eq_Inr shrink_tensor_def)
  obtain ps where ps: "map tensor_size ts = map (\<lambda>p. p * old) ps" "sum_list ps * old \<le> a" using assms(1) by (auto simp: tensors_fit_def)
  have "map tensor_size ts' = map (\<lambda>t. tensor_size t div old * new) ts"
    by (rule map_result_img [OF assms(2)]) (auto simp: shrink_tensor_def bindE_eq_Inr)
  also have "\<dots> = map (\<lambda>s. s div old * new) (map tensor_size ts)" by simp
  also have "\<dots> = map (\<lambda>p. p * new) ps" unfolding ps(1) using old by simp
  finally have "(\<Sum>t \<leftarrow> ts'. tensor_size t) = sum_list ps * new" by (simp add: sum_list_mult_const)
  also have "\<dots> \<le> a"
  proof (cases "0 \<le> sum_list ps")
    case True
    then show ?thesis using mult_left_mono [OF assms(4) True] ps(2) by linarith
  next
    case False
    then have "sum_list ps * new \<le> 0" using assms(3) by (simp add: mult_nonpos_nonneg)
    then show ?thesis using assms(5) by linarith
  qed
  finally show ?thesis .
qed

section \<open>The configurations of all workers\<close>

definition one_tensor_each :: "kv_cache_group_spec list \<Rightarrow> bool" where
  "one_tensor_each gs \<longleftrightarrow> length gs \<le> 1 \<or> \<not> list_all (\<lambda>g. is_uniform_group (group_spec g)) gs"

lemma config_shares:
  assumes "get_kv_cache_config_from_groups v gs a = Inr cfg" "one_tensor_each gs"
  shows "mset (concat (map shared_by (kv_cache_tensors cfg))) = mset (group_layers gs)"
proof (cases gs)
  case Nil
  then show ?thesis using assms(1) by (auto simp: get_kv_cache_config_from_groups_def)
next
  case (Cons g0 rest)
  show ?thesis
  proof (cases "rest = [] \<and> is_uniform_group (group_spec g0)")
    case True
    then obtain u where u: "group_spec g0 = Uniform_specs u" by (cases "group_spec g0") auto
    then obtain n ts where "per_layer_tensors u n (layer_names g0) = Inr ts" "kv_cache_tensors cfg = ts"
      using assms(1) Cons True by (auto simp: get_kv_cache_config_from_groups_def bindE_eq_Inr Let_def)
    then show ?thesis using per_layer_tensors_fields(1) True Cons by simp
  next
    case False
    then have no: "\<not> list_all (\<lambda>g. is_uniform_group (group_spec g)) gs" using assms(2) Cons by (auto simp: one_tensor_each_def)
    let ?lens = "map (\<lambda>g. int (length (layer_names g))) gs"
    obtain m page n where m: "max_of ?lens = Inr m"
        and ts: "kv_cache_tensors cfg = map (\<lambda>i. \<lparr>tensor_size = page * n, shared_by = pool_layers gs i\<rparr>) [0..<nat m]"
    proof -
      have "bindE (max_of ?lens) (\<lambda>size.
                 bindE (get_uniform_page_size (map group_spec gs)) (\<lambda>page.
                 bindE (guardE (0 < size) AssertionError) (\<lambda>_.
                 bindE (get_num_blocks v size a page) (\<lambda>n.
                   Inr \<lparr>num_blocks = n, kv_cache_tensors = map (\<lambda>i. \<lparr>tensor_size = page * n, shared_by = pool_layers gs i\<rparr>) [0..<nat size], kv_cache_groups = gs\<rparr>)))) = Inr cfg"
        using assms(1) Cons False no by (cases "group_spec g0") (auto simp: get_kv_cache_config_from_groups_def bindE_assoc split: list.splits)
      then show thesis
      proof (elim bindE_eq_InrE)
        fix x page u n
        assume "max_of ?lens = Inr x" "Inr \<lparr>num_blocks = n, kv_cache_tensors = map (\<lambda>i. \<lparr>tensor_size = page * n, shared_by = pool_layers gs i\<rparr>) [0..<nat x], kv_cache_groups = gs\<rparr> = Inr cfg"
        then show thesis by (intro that [of x page n]) auto
      qed
    qed
    have "\<forall>g \<in> set gs. length (layer_names g) \<le> nat m"
    proof
      fix g assume g: "g \<in> set gs"
      then have "int (length (layer_names g)) \<le> m" using m by (auto simp: max_of_def split: if_splits)
      then show "length (layer_names g) \<le> nat m" by simp
    qed
    then show ?thesis using pool_layers_mset [of gs "nat m"] by (simp add: ts comp_def)
  qed
qed

lemma mset_le_distinct:
  assumes "mset xs \<subseteq># mset ys" "distinct ys" shows "distinct xs"
proof -
  obtain M where "mset ys = mset xs + M" using assms(1) by (auto simp: subset_mset.le_iff_add)
  moreover obtain zs where "M = mset zs" by (metis ex_mset)
  ultimately have "mset ys = mset (xs @ zs)" by simp
  then show ?thesis using assms(2) mset_eq_imp_distinct_iff [of ys "xs @ zs"] by simp
qed

text \<open>What a successful start-up went through, worker by worker.\<close>

lemma get_kv_cache_configs_steps:
  assumes "get_kv_cache_configs v specs available = Inr (v', cfgs)" "length available = length specs"
  obtains gs projected olds n where "\<forall>g \<in> set gs. group_names_ok g" "distinct (group_layers gs)"
    "length projected = length specs" "length olds = length specs" "length cfgs = length specs"
    "\<And>i. i < length specs \<Longrightarrow> project_kv_cache_groups_to_worker gs (specs ! i) = Inr (projected ! i)"
    "\<And>i. i < length specs \<Longrightarrow> check_worker (limits v') (projected ! i, available ! i) = Inr ()"
    "\<And>i. i < length specs \<Longrightarrow> worker_config v' (projected ! i, specs ! i, available ! i) = Inr (olds ! i)"
    "\<And>i. i < length specs \<Longrightarrow> shrink_config (limits v') n (olds ! i) = Inr (cfgs ! i)"
    "\<And>i. i < length specs \<Longrightarrow> n \<le> num_blocks (olds ! i)" "v' = v\<lparr>limits := limits v'\<rparr>"
    "\<exists>j < length specs. num_blocks (olds ! j) = n"
proof -
  obtain merged gs projected c us olds n where m: "merge_workers specs = Inr merged" "get_kv_cache_groups v merged = Inr gs"
    and p: "map_result (project_kv_cache_groups_to_worker gs) specs = Inr projected"
    and ck: "map_result (check_worker c) (zip projected available) = Inr us"
    and w: "map_result (worker_config (v\<lparr>limits := c\<rparr>)) (zip projected (zip specs available)) = Inr olds"
    and n: "min_of (map num_blocks olds) = Inr n" and out: "map_result (shrink_config c n) olds = Inr cfgs" and v': "v' = v\<lparr>limits := c\<rparr>"
    using assms(1) unfolding get_kv_cache_configs_def by (elim bindE_eq_InrE) auto
  note len = map_result_length [OF p] map_result_length [OF w] map_result_length [OF out] assms(2)
  have wf: "dict_wf merged" by (rule merge_workers_wf [OF m(1)])
  have distinct: "distinct (group_layers gs)"
    by (rule mset_le_distinct [OF get_kv_cache_groups_layers [OF m(2)]]) (use wf in \<open>simp add: dict_wf_def\<close>)
  have "n \<in> set (map num_blocks olds)" using n Min_in [of "set (map num_blocks olds)"] by (auto simp: min_of_def split: if_splits)
  then obtain j where j: "j < length specs" "num_blocks (olds ! j) = n" by (auto simp: in_set_conv_nth len)
  show thesis
  proof (rule that [of gs projected olds n])
    fix i assume i: "i < length specs"
    then have z: "zip projected available ! i = (projected ! i, available ! i)"
      "zip projected (zip specs available) ! i = (projected ! i, specs ! i, available ! i)" by (simp_all add: len)
    show "project_kv_cache_groups_to_worker gs (specs ! i) = Inr (projected ! i)" by (rule map_result_nth [OF p i])
    show "check_worker (limits v') (projected ! i, available ! i) = Inr ()"
      using map_result_nth [OF ck, of i] i by (simp add: len z v')
    show "worker_config v' (projected ! i, specs ! i, available ! i) = Inr (olds ! i)"
      using map_result_nth [OF w, of i] i by (simp add: len z v')
    show "shrink_config (limits v') n (olds ! i) = Inr (cfgs ! i)" using map_result_nth [OF out, of i] i by (simp add: len v')
    show "n \<le> num_blocks (olds ! i)" using n i by (auto simp: min_of_def len split: if_splits)
  qed (use distinct len get_kv_cache_groups_names_ok [OF m(2)] v' j in auto)
qed

end
