(* ===== verification/KV_Fit.thy ===== *)
theory KV_Fit
  imports KV_Layout
begin

text \<open>
  The memory side of the start-up configuration: the memory of a longest request grows with its
  length, so the binary search of the code finds the greatest length that fits, and what the check
  admits has room for the blocks of a longest request.
\<close>

section \<open>More tokens need no less memory\<close>

definition result_le :: "int result \<Rightarrow> int result \<Rightarrow> bool" where
  "result_le r r' \<longleftrightarrow> (case (r, r') of (Inr m, Inr n) \<Rightarrow> m \<le> n | (Inl e, Inl e') \<Rightarrow> e = e' | _ \<Rightarrow> False)"

lemma result_le_simps [simp]:
  "result_le (Inr m) (Inr n) \<longleftrightarrow> m \<le> n" "result_le (Inl e) (Inl e') \<longleftrightarrow> e = e'"
  "\<not> result_le (Inr m) (Inl e)" "\<not> result_le (Inl e) (Inr m)" "result_le r r"
  by (auto simp: result_le_def split: sum.splits)

lemma result_le_bind:
  assumes "result_le r r'" "\<And>m n. r = Inr m \<Longrightarrow> r' = Inr n \<Longrightarrow> m \<le> n \<Longrightarrow> result_le (f m) (g n)"
  shows "result_le (bindE r f) (bindE r' g)"
  using assms by (cases r; cases r') auto

lemma result_le_bind_same:
  assumes "\<And>x. r = Inr x \<Longrightarrow> result_le (f x) (g x)" shows "result_le (bindE r f) (bindE r g)"
  using assms by (cases r) auto

lemma result_le_trans: "result_le r s \<Longrightarrow> result_le s t \<Longrightarrow> result_le r t"
  by (cases r; cases s; cases t) auto

text \<open>Pointwise along a list: the first exception is the same, and the values grow.\<close>

lemma map_result_le:
  assumes "\<And>x. x \<in> set xs \<Longrightarrow> result_le (f x) (g x)"
  shows "(\<exists>e. map_result f xs = Inl e \<and> map_result g xs = Inl e)
       \<or> (\<exists>ms ns. map_result f xs = Inr ms \<and> map_result g xs = Inr ns \<and> list_all2 (\<le>) ms ns)"
  using assms
proof (induction xs)
  case (Cons x xs)
  have "result_le (f x) (g x)" using Cons.prems by simp
  then show ?case using Cons by (cases "f x"; cases "g x") auto
qed simp

lemma sum_result_le:
  assumes "\<And>x. x \<in> set xs \<Longrightarrow> result_le (f x) (g x)" shows "result_le (sum_result f xs) (sum_result g xs)"
proof -
  have "sum_list ms \<le> sum_list ns" if "list_all2 (\<le>) ms ns" for ms ns :: "int list"
    using that by (induction rule: list_all2_induct) simp_all
  moreover have "(\<exists>e. map_result f xs = Inl e \<and> map_result g xs = Inl e)
       \<or> (\<exists>ms ns. map_result f xs = Inr ms \<and> map_result g xs = Inr ns \<and> list_all2 (\<le>) ms ns)" by (rule map_result_le [OF assms])
  ultimately show ?thesis by (auto simp: sum_result_def)
qed

lemma Max_list_le:
  assumes "list_all2 (\<le>) ms ns" "ms \<noteq> []" shows "Max (set ms) \<le> Max (set (ns :: int list))"
proof (rule Max.boundedI)
  fix m assume "m \<in> set ms"
  then obtain n where "n \<in> set ns" "m \<le> n" using list_all2_memE [OF assms(1)] by blast
  then show "m \<le> Max (set ns)" by (meson List.finite_set Max_ge order_trans)
qed (use assms in auto)

text \<open>Layers with a positive block size and a positive page size.\<close>

definition spec_sized :: "kv_spec \<Rightarrow> bool" where
  "spec_sized s \<longleftrightarrow> 0 < spec_block_size s \<and> (case page_size_bytes s of Inl _ \<Rightarrow> True | Inr p \<Rightarrow> 0 < p)"

definition group_sized :: "kv_cache_group_spec \<Rightarrow> bool" where
  "group_sized g \<longleftrightarrow> (case group_spec g of One_spec s \<Rightarrow> spec_sized s | Uniform_specs u \<Rightarrow> \<forall>(_, s) \<in> set (kv_cache_specs u). spec_sized s)"

lemma with_len_fields [simp]:
  "max_model_len (with_len c l) = l" "decode_context_parallel_size (with_len c l) = decode_context_parallel_size c"
  "prefill_context_parallel_size (with_len c l) = prefill_context_parallel_size c"
  "max_num_batched_toks (with_len c l) = max_num_batched_toks c" "max_encoder_input_toks (with_len c l) = max_encoder_input_toks c"
  "cfg_mamba_cache_mode (with_len c l) = cfg_mamba_cache_mode c"
  by (simp_all add: with_len_def)

lemma max_memory_usage_le:
  assumes "spec_sized s" "l \<le> l'"
  shows "result_le (max_memory_usage_bytes (with_len c l) s) (max_memory_usage_bytes (with_len c l') s)"
proof (cases "spec_class s = EncoderOnlyAttentionSpec")
  case True
  then show ?thesis by (simp add: max_memory_usage_bytes_def)
next
  case False
  have bs: "0 < spec_block_size s" using assms(1) by (simp add: spec_sized_def)
  show ?thesis
  proof (cases "page_size_bytes s")
    case (Inl e)
    then show ?thesis using False by (simp add: max_memory_usage_bytes_def)
  next
    case (Inr p)
    then have p: "0 < p" using assms(1) by (simp add: spec_sized_def)
    have blocks: "cdiv a (spec_block_size s) * p \<le> cdiv b (spec_block_size s) * p" if "a \<le> b" for a b
      using cdiv_mono [OF bs that] p by simp
    have shared: "cdiv l w \<le> cdiv l' w" if "1 < w" for w using cdiv_mono [of w l l'] that assms(2) by simp
    have window: "sliding_max_admission w (spec_block_size s) b l * p \<le> sliding_max_admission w (spec_block_size s) b l' * p" for w b
      using cdiv_mono [OF bs, of "min (w - 1 + b) l" "min (w - 1 + b) l'"] assms(2) p by (simp add: sliding_max_admission_def)
    have chunk: "chunked_max_admission w (spec_block_size s) b l * p \<le> chunked_max_admission w (spec_block_size s) b l' * p" for w b
      using cdiv_mono [OF bs, of "min (w + b) l" "min (w + b) l'"] assms(2) p by (simp add: chunked_max_admission_def)
    show ?thesis
    proof (cases "is_full_attention s")
      case True
      then show ?thesis using False Inr blocks shared assms(2) by (simp add: max_memory_usage_bytes_def Let_def)
    next
      case nf: False
      show ?thesis using False Inr nf blocks [OF assms(2)] chunk window
        by (cases "spec_class s"; cases "attention_chunk_size s"; cases "sliding_window s"; cases "decode_context_parallel_size c = 1")
           (simp_all add: max_memory_usage_bytes_def)
    qed
  qed
qed

lemma spec_pages_le:
  assumes "spec_sized s" "l \<le> l'" shows "result_le (spec_pages (with_len c l) s) (spec_pages (with_len c l') s)"
  unfolding spec_pages_def
proof (rule result_le_bind [OF max_memory_usage_le [OF assms]], rule result_le_bind_same)
  fix m n p :: int assume "m \<le> n" "page_size_bytes s = Inr p"
  then show "result_le (Inr (cdiv m p)) (Inr (cdiv n p))" using assms(1) by (auto simp: spec_sized_def intro: cdiv_mono)
qed

lemma max_pages_le:
  assumes "\<forall>(_, s) \<in> set (kv_cache_specs u). spec_sized s" "l \<le> l'"
  shows "result_le (max_memory_usage_pages (with_len c l) u) (max_memory_usage_pages (with_len c l') u)"
proof -
  have "(\<exists>e. map_result (\<lambda>(_, s). spec_pages (with_len c l) s) (kv_cache_specs u) = Inl e \<and> map_result (\<lambda>(_, s). spec_pages (with_len c l') s) (kv_cache_specs u) = Inl e)
    \<or> (\<exists>ms ns. map_result (\<lambda>(_, s). spec_pages (with_len c l) s) (kv_cache_specs u) = Inr ms \<and> map_result (\<lambda>(_, s). spec_pages (with_len c l') s) (kv_cache_specs u) = Inr ns \<and> list_all2 (\<le>) ms ns)"
    by (rule map_result_le) (use assms in \<open>auto intro: spec_pages_le\<close>)
  moreover have "ns \<noteq> [] \<and> Max (set ms) \<le> Max (set ns)" if "list_all2 (\<le>) ms ns" "ms \<noteq> []" for ms ns :: "int list"
    using that Max_list_le [OF that] by auto
  ultimately show ?thesis by (fastforce simp: max_memory_usage_pages_def simp del: Max_le_iff)
qed

lemma page_sum_pos:
  assumes "\<forall>(_, s) \<in> set xs. spec_sized s" "map_result (\<lambda>(_, s). page_size_bytes s) xs = Inr ps"
  shows "\<forall>p \<in> set ps. 0 < p"
proof (rule ballI, rule map_result_all [OF assms(2)])
  fix x p assume "x \<in> set xs" "(case x of (_, s) \<Rightarrow> page_size_bytes s) = Inr p"
  then show "0 < p" using assms(1) by (cases x) (auto simp: spec_sized_def)
qed

lemma group_page_nonneg:
  assumes "group_sized g" "group_page_size_bytes (group_spec g) = Inr p" shows "0 \<le> p"
proof (cases "group_spec g")
  case (One_spec s)
  then show ?thesis using assms by (auto simp: group_sized_def spec_sized_def)
next
  case (Uniform_specs u)
  then obtain ps where ps: "map_result (\<lambda>(_, s). page_size_bytes s) (kv_cache_specs u) = Inr ps" "p = sum_list ps"
    using assms(2) by (auto simp: uniform_page_size_bytes_def bindE_eq_Inr)
  have "\<forall>x \<in> set ps. 0 < x" using page_sum_pos [OF _ ps(1)] assms(1) Uniform_specs by (simp add: group_sized_def)
  then show ?thesis unfolding ps(2) by (intro sum_list_nonneg) (simp add: order_less_imp_le)
qed

lemma group_memory_le:
  assumes "group_sized g" "l \<le> l'"
  shows "result_le (group_max_memory_usage_bytes (with_len c l) (group_spec g)) (group_max_memory_usage_bytes (with_len c l') (group_spec g))"
proof (cases "group_spec g")
  case (One_spec s)
  then show ?thesis using assms by (simp add: group_sized_def max_memory_usage_le)
next
  case (Uniform_specs u)
  have sized: "\<forall>(_, s) \<in> set (kv_cache_specs u). spec_sized s" using assms(1) Uniform_specs by (simp add: group_sized_def)
  show ?thesis unfolding Uniform_specs group_max_memory_usage_bytes.simps uniform_max_memory_usage_bytes_def
  proof (rule result_le_bind [OF max_pages_le [OF sized assms(2)]], rule result_le_bind_same)
    fix m n p :: int assume "m \<le> n" "uniform_page_size_bytes u = Inr p"
    moreover have "0 \<le> p" using group_page_nonneg [OF assms(1), of p] Uniform_specs \<open>uniform_page_size_bytes u = Inr p\<close> by simp
    ultimately show "result_le (Inr (m * p)) (Inr (n * p))" by (simp add: mult_right_mono)
  qed
qed

lemma max_of_nonneg: "max_of xs = Inr m \<Longrightarrow> \<forall>x \<in> set xs. 0 \<le> x \<Longrightarrow> 0 \<le> m"
  using Max_in [of "set xs"] by (auto simp: max_of_def split: if_splits)

lemma one_value_hd: "one_value xs \<Longrightarrow> x \<in> set xs \<Longrightarrow> x = hd xs"
proof -
  assume "one_value xs" "x \<in> set xs"
  then obtain y where "remdups xs = [y]" by (auto simp: one_value_def length_Suc_conv)
  then have "set xs = {y}" using set_remdups [of xs] by simp
  then show ?thesis using \<open>x \<in> set xs\<close> by (cases xs) auto
qed

lemma uniform_page:
  assumes "get_uniform_page_size ss = Inr page"
  shows "ss \<noteq> []" "s \<in> set ss \<Longrightarrow> group_page_size_bytes s = Inr page"
proof -
  obtain ps where ps: "map_result group_page_size_bytes ss = Inr ps" "one_value ps" "page = hd ps"
    using assms by (auto simp: get_uniform_page_size_def bindE_eq_Inr)
  show "ss \<noteq> []" using map_result_length [OF ps(1)] ps(2) by (auto simp: one_value_def)
  show "group_page_size_bytes s = Inr page" if "s \<in> set ss"
  proof -
    from in_set_conv_nth [THEN iffD1, OF that] obtain i where i: "i < length ss" "ss ! i = s" by (elim exE conjE)
    have "i < length ps" using i(1) unfolding map_result_length [OF ps(1)] .
    then have p: "ps ! i = page" unfolding ps(3) by (intro one_value_hd [OF ps(2)] nth_mem)
    show ?thesis using map_result_nth [OF ps(1) i(1)] unfolding i(2) p .
  qed
qed

lemma groups_memory_le:
  assumes "\<forall>g \<in> set gs. group_sized g" "l \<le> l'"
  shows "result_le (max_memory_from_groups (with_len c l) gs) (max_memory_from_groups (with_len c l') gs)"
proof (cases gs)
  case Nil
  then show ?thesis by (simp add: max_memory_from_groups_def)
next
  case (Cons g0 rest)
  show ?thesis
  proof (cases "rest = [] \<and> is_uniform_group (group_spec g0)")
    case True
    then obtain u where u: "group_spec g0 = Uniform_specs u" by (cases "group_spec g0") auto
    have "result_le (sum_result (max_memory_usage_bytes (with_len c l)) (map snd (kv_cache_specs u)))
        (sum_result (max_memory_usage_bytes (with_len c l')) (map snd (kv_cache_specs u)))"
      by (rule sum_result_le, rule max_memory_usage_le [OF _ assms(2)]) (use assms(1) Cons u in \<open>auto simp: group_sized_def\<close>)
    then show ?thesis using True Cons u by (simp add: max_memory_from_groups_def)
  next
    case False
    let ?all = "list_all (\<lambda>g. is_uniform_group (group_spec g)) gs"
    let ?deep = "\<lambda>c. bindE (map_result the_uniform_specs (map group_spec gs)) (\<lambda>us.
            bindE (get_page_sizes (hd us)) (\<lambda>sizes.
            bindE (bindE (map_result get_num_layer_tuples us) max_of) (\<lambda>num_tuples.
              sum_result (\<lambda>u. bindE (max_memory_usage_pages c u) (\<lambda>pages. Inr (num_tuples * pages * \<Sum>sizes))) us)))"
    let ?gen = "\<lambda>c. bindE (max_of (map (\<lambda>g. int (length (layer_names g))) gs)) (\<lambda>size.
               bindE (get_uniform_page_size (map group_spec gs)) (\<lambda>page.
               bindE (sum_result (\<lambda>g. bindE (group_max_memory_usage_bytes c (group_spec g)) (\<lambda>m. cdivE m page)) gs) (\<lambda>blocks.
                 Inr (size * page * blocks))))"
    have unfold: "max_memory_from_groups c gs = (if ?all then ?deep c else ?gen c)" for c
      using False Cons by (cases "group_spec g0") (auto simp: max_memory_from_groups_def split: list.splits)
    have deep: "result_le (?deep (with_len c l)) (?deep (with_len c l'))"
    proof (intro result_le_bind_same sum_result_le)
      fix us sizes m u
      assume us: "map_result the_uniform_specs (map group_spec gs) = Inr us" and sz: "get_page_sizes (hd us) = Inr sizes"
        and m: "bindE (map_result get_num_layer_tuples us) max_of = Inr m" and u: "u \<in> set us"
      have sized: "\<forall>(_, s) \<in> set (kv_cache_specs w). spec_sized s" if "w \<in> set us" for w
      proof (rule map_result_all [OF us _ that])
        fix x y assume x: "x \<in> set (map group_spec gs)" "the_uniform_specs x = Inr y"
        then obtain g where "g \<in> set gs" "x = group_spec g" by auto
        moreover have "x = Uniform_specs y" using x(2) by (cases x) auto
        ultimately have "g \<in> set gs" "group_spec g = Uniform_specs y" by simp_all
        then show "\<forall>(_, s) \<in> set (kv_cache_specs y). spec_sized s" using bspec [OF assms(1), of g] by (simp add: group_sized_def)
      qed
      have "hd us \<in> set us" using u by (cases us) auto
      then obtain ps where "map_result (\<lambda>(_, s). page_size_bytes s) (kv_cache_specs (hd us)) = Inr ps" "sizes = set ps" "\<forall>p \<in> set ps. 0 < p"
        using sz page_sum_pos [OF sized] by (auto simp: get_page_sizes_def bindE_eq_Inr)
      then have "0 \<le> \<Sum>sizes" by (auto intro: sum_nonneg order_less_imp_le)
      moreover obtain ts where ts: "map_result get_num_layer_tuples us = Inr ts" "max_of ts = Inr m" using m by (auto simp: bindE_eq_Inr)
      have "\<forall>t \<in> set ts. 0 \<le> t"
        by (rule ballI, rule map_result_all [OF ts(1)]) (auto simp: get_num_layer_tuples_def bindE_eq_Inr split: if_splits)
      then have "0 \<le> m" by (rule max_of_nonneg [OF ts(2)])
      ultimately show "result_le (bindE (max_memory_usage_pages (with_len c l) u) (\<lambda>pages. Inr (m * pages * \<Sum>sizes)))
           (bindE (max_memory_usage_pages (with_len c l') u) (\<lambda>pages. Inr (m * pages * \<Sum>sizes)))"
        by (intro result_le_bind [OF max_pages_le [OF sized [OF u] assms(2)]]) (simp add: mult_left_mono mult_right_mono)
    qed
    have gen: "result_le (?gen (with_len c l)) (?gen (with_len c l'))"
    proof (intro result_le_bind_same)
      fix m page
      assume m: "max_of (map (\<lambda>g. int (length (layer_names g))) gs) = Inr m" and page: "get_uniform_page_size (map group_spec gs) = Inr page"
      have "0 \<le> m" by (rule max_of_nonneg [OF m]) auto
      moreover have p: "0 \<le> page" using group_page_nonneg [of g0 page] assms(1) Cons uniform_page(2) [OF page, of "group_spec g0"] by simp
      have "result_le (sum_result (\<lambda>g. bindE (group_max_memory_usage_bytes (with_len c l) (group_spec g)) (\<lambda>m. cdivE m page)) gs)
         (sum_result (\<lambda>g. bindE (group_max_memory_usage_bytes (with_len c l') (group_spec g)) (\<lambda>m. cdivE m page)) gs)"
      proof (rule sum_result_le)
        fix g assume "g \<in> set gs"
        then show "result_le (bindE (group_max_memory_usage_bytes (with_len c l) (group_spec g)) (\<lambda>m. cdivE m page))
            (bindE (group_max_memory_usage_bytes (with_len c l') (group_spec g)) (\<lambda>m. cdivE m page))"
          using p assms by (intro result_le_bind [OF group_memory_le]) (auto simp: cdivE_def guardE_def intro: cdiv_mono)
      qed
      ultimately show "result_le (bindE (sum_result (\<lambda>g. bindE (group_max_memory_usage_bytes (with_len c l) (group_spec g)) (\<lambda>m. cdivE m page)) gs) (\<lambda>blocks. Inr (m * page * blocks)))
          (bindE (sum_result (\<lambda>g. bindE (group_max_memory_usage_bytes (with_len c l') (group_spec g)) (\<lambda>m. cdivE m page)) gs) (\<lambda>blocks. Inr (m * page * blocks)))"
        using p by (auto intro!: result_le_bind simp: mult_left_mono)
    qed
    show ?thesis using deep gen by (simp add: unfold)
  qed
qed

section \<open>The search\<close>

text \<open>
  On a range where fitting is a downward closed property the search ends at the last length that
  fits, and at its start value when none does.
\<close>

lemma bsearch_exact:
  assumes "bsearch fits left right found = Inr w"
    and "\<And>l. left \<le> l \<Longrightarrow> l \<le> right \<Longrightarrow> fits l = Inr (P l)"
    and "\<And>l l'. left \<le> l \<Longrightarrow> l \<le> l' \<Longrightarrow> l' \<le> right \<Longrightarrow> P l' \<Longrightarrow> P l"
  shows "if left \<le> right \<and> P left then left \<le> w \<and> w \<le> right \<and> (\<forall>l. left \<le> l \<and> l \<le> right \<longrightarrow> (P l \<longleftrightarrow> l \<le> w)) else w = found"
  using assms
proof (induction fits left right found rule: bsearch.induct)
  case (1 fits left right found)
  show ?case
  proof (cases "left \<le> right")
    case False
    then show ?thesis using "1.prems"(1) by (simp add: bsearch.simps)
  next
    case True
    define mid where "mid = (left + right) div 2"
    have mid: "left \<le> mid" "mid \<le> right" using True by (auto simp: mid_def)
    note step = bsearch.simps [of fits left right found, unfolded mid_def [symmetric] Let_def]
    have fm: "fits mid = Inr (P mid)" by (rule "1.prems"(2) [OF mid])
    show ?thesis
    proof (cases "P mid")
      case True': True
      have r: "bsearch fits (mid + 1) right mid = Inr w"
        using "1.prems"(1) True fm True' by (simp add: step)
      have ih: "if mid + 1 \<le> right \<and> P (mid + 1) then mid + 1 \<le> w \<and> w \<le> right \<and> (\<forall>l. mid + 1 \<le> l \<and> l \<le> right \<longrightarrow> (P l \<longleftrightarrow> l \<le> w)) else w = mid"
        by (rule "1.IH"(1) [OF True mid_def fm True' r]) (use "1.prems"(2,3) mid in auto)
      have low: "P l" if "left \<le> l" "l \<le> mid" for l using "1.prems"(3) [OF that mid(2) True'] .
      show ?thesis
      proof (cases "mid + 1 \<le> right \<and> P (mid + 1)")
        case T: True
        have "P l \<longleftrightarrow> l \<le> w" if "left \<le> l" "l \<le> right" for l
          using low [OF that(1)] ih T that(2) by (cases "l \<le> mid") auto
        then show ?thesis using ih T low mid by auto
      next
        case F: False
        have "\<not> P l" if "mid < l" "l \<le> right" for l using "1.prems"(3) [of "mid + 1" l] F that mid by auto
        then show ?thesis using ih F low mid True by (auto simp: not_le) (meson not_le)+
      qed
    next
      case False
      have r: "bsearch fits left (mid - 1) found = Inr w"
        using "1.prems"(1) True fm False by (simp add: step)
      have ih: "if left \<le> mid - 1 \<and> P left then left \<le> w \<and> w \<le> mid - 1 \<and> (\<forall>l. left \<le> l \<and> l \<le> mid - 1 \<longrightarrow> (P l \<longleftrightarrow> l \<le> w)) else w = found"
        by (rule "1.IH"(2) [OF True mid_def fm False r]) (use "1.prems"(2,3) mid in auto)
      have high: "\<not> P l" if "mid \<le> l" "l \<le> right" for l using "1.prems"(3) [OF mid(1) that] False by blast
      show ?thesis
      proof (cases "left \<le> mid - 1 \<and> P left")
        case T: True
        have "P l \<longleftrightarrow> l \<le> w" if "left \<le> l" "l \<le> right" for l
          using high [OF _ that(2)] ih T that(1) by (cases "mid \<le> l") auto
        then show ?thesis using ih T mid by auto
      next
        case F: False
        then have "\<not> P left" using False mid by (cases "left = mid") auto
        then show ?thesis using ih F by simp
      qed
    qed
  qed
qed

lemma search_exact:
  assumes "search_max_len need original available = Inr w" "\<And>l l'. l \<le> l' \<Longrightarrow> result_le (need l) (need l')"
    "1 \<le> l" "l \<le> original"
  shows "(\<exists>n. need l = Inr n \<and> n \<le> available) \<longleftrightarrow> l \<le> w"
proof -
  define fits where "fits = (\<lambda>len. bindE (need len) (\<lambda>n. Inr (n \<le> available)))"
  define P where "P = (\<lambda>l. \<exists>n. need l = Inr n \<and> n \<le> available)"
  have s: "bindE (fits 1) (\<lambda>b. if \<not> b then Inr 0 else bsearch fits 1 original 1) = Inr w"
    using assms(1) unfolding search_max_len_def Let_def fits_def .
  then obtain m where m: "need 1 = Inr m" by (auto simp: fits_def bindE_eq_Inr)
  have fits: "fits l = Inr (P l)" if l: "1 \<le> l" for l
    using assms(2) [OF l] m by (cases "need l") (auto simp: fits_def P_def)
  have mono: "P l" if "1 \<le> l" "l \<le> l'" "P l'" for l l'
    using that assms(2) [OF that(2)] by (cases "need l") (auto simp: P_def)
  have "P l \<longleftrightarrow> l \<le> w"
  proof (cases "P 1")
    case False
    then have "w = 0" using s fits [of 1] by simp
    then show "P l \<longleftrightarrow> l \<le> w" using mono [of 1 l] False assms(3) by auto
  next
    case True
    then have "bsearch fits 1 original 1 = Inr w" using s fits [of 1] by simp
    then show "P l \<longleftrightarrow> l \<le> w" using bsearch_exact [of fits 1 original 1 w P] fits mono True assms(3,4) by auto
  qed
  then show ?thesis by (simp add: P_def)
qed

lemma estimate_exact:
  assumes "estimate_max_model_len_from_groups c gs a = Inr w" "\<forall>g \<in> set gs. group_sized g" "1 \<le> l" "l \<le> max_model_len c"
  shows "(\<exists>n. max_memory_from_groups (with_len c l) gs = Inr n \<and> n \<le> a) \<longleftrightarrow> l \<le> w"
  using search_exact [OF assms(1) [unfolded estimate_max_model_len_from_groups_def] groups_memory_le [OF assms(2)] assms(3,4)] .

lemma auto_fit_fold:
  assumes "foldE (auto_fit_step c) xs b = Inr best" "\<forall>(gs, _) \<in> set xs. \<forall>g \<in> set gs. group_sized g" "1 \<le> l" "l \<le> max_model_len c" "b \<le> max_model_len c"
  shows "best \<le> max_model_len c
    \<and> (l \<le> best \<longleftrightarrow> l \<le> b \<and> (\<forall>(gs, a) \<in> set xs. gs \<noteq> [] \<longrightarrow> (\<exists>n. max_memory_from_groups (with_len c l) gs = Inr n \<and> n \<le> a)))"
  using assms
proof (induction xs arbitrary: b)
  case (Cons x xs)
  obtain gs a where x: "x = (gs, a)" by (cases x) auto
  show ?case
  proof (cases "gs = []")
    case True
    then show ?thesis using Cons x by (simp add: auto_fit_step_def)
  next
    case False
    obtain w where w: "estimate_max_model_len_from_groups c gs a = Inr w"
      and r: "foldE (auto_fit_step c) xs (if w < b then w else b) = Inr best"
      using Cons.prems(1) x False by (auto simp: auto_fit_step_def bindE_eq_Inr)
    have e: "(\<exists>n. max_memory_from_groups (with_len c l) gs = Inr n \<and> n \<le> a) \<longleftrightarrow> l \<le> w"
      by (rule estimate_exact [OF w _ Cons.prems(3,4)]) (use Cons.prems(2) x in simp)
    have b: "(if w < b then w else b) \<le> max_model_len c" using Cons.prems(5) by simp
    have s: "\<forall>(gs, _) \<in> set xs. \<forall>g \<in> set gs. group_sized g" using Cons.prems(2) by simp
    from Cons.IH [OF r s Cons.prems(3,4) b] show ?thesis using e False unfolding x by auto
  qed
qed auto

section \<open>Room for a longest request\<close>

text \<open>The blocks a longest request may need in all groups together.\<close>

definition blocks_needed :: "vllm_limits \<Rightarrow> kv_cache_group_spec list \<Rightarrow> int result" where
  "blocks_needed c gs =
     sum_result (\<lambda>g. bindE (group_max_memory_usage_bytes c (group_spec g)) (\<lambda>m.
                     bindE (group_page_size_bytes (group_spec g)) (\<lambda>p. cdivE m p))) gs"

lemma sum_result_cong: "(\<And>x. x \<in> set xs \<Longrightarrow> f x = g x) \<Longrightarrow> sum_result f xs = sum_result g xs"
proof -
  assume a: "\<And>x. x \<in> set xs \<Longrightarrow> f x = g x"
  have "map_result f xs = map_result g xs" using a by (induction xs) simp_all
  then show ?thesis by (simp add: sum_result_def)
qed

lemma checked_worker_blocks:
  assumes "check_worker c (ps, a) = Inr ()" "get_kv_cache_config_from_groups v ps a = Inr cfg" "num_gpu_blocks_override v = None"
    "\<forall>g \<in> set ps. \<not> is_uniform_group (group_spec g)" "\<forall>g \<in> set ps. group_sized g" "ps \<noteq> []"
  shows "\<exists>b. blocks_needed c ps = Inr b \<and> b \<le> num_blocks cfg"
proof -
  obtain g0 rest where ps: "ps = g0 # rest" using assms(6) by (cases ps) auto
  have g0: "\<not> is_uniform_group (group_spec g0)" using assms(4) ps by simp
  have na: "\<not> list_all (\<lambda>g. is_uniform_group (group_spec g)) ps" using g0 ps by simp
  let ?max = "max_of (map (\<lambda>g. int (length (layer_names g))) ps)"
  have cfg: "bindE ?max (\<lambda>size. bindE (get_uniform_page_size (map group_spec ps)) (\<lambda>page.
      bindE (guardE (0 < size) AssertionError) (\<lambda>_. bindE (get_num_blocks v size a page) (\<lambda>n.
        Inr \<lparr>num_blocks = n, kv_cache_tensors = map (\<lambda>i. \<lparr>tensor_size = page * n, shared_by = pool_layers ps i\<rparr>) [0..<nat size], kv_cache_groups = ps\<rparr>)))) = Inr cfg"
    using assms(2) g0 na ps by (cases "group_spec g0") (auto simp: get_kv_cache_config_from_groups_def bindE_assoc split: list.splits)
  have mem: "max_memory_from_groups c ps = bindE ?max (\<lambda>size.
               bindE (get_uniform_page_size (map group_spec ps)) (\<lambda>page.
               bindE (sum_result (\<lambda>g. bindE (group_max_memory_usage_bytes c (group_spec g)) (\<lambda>m. cdivE m page)) ps) (\<lambda>blocks.
                 Inr (size * page * blocks))))"
    using g0 na ps by (cases "group_spec g0") (auto simp: max_memory_from_groups_def split: list.splits)
  obtain size page n where size: "?max = Inr size" "0 < size" and page: "get_uniform_page_size (map group_spec ps) = Inr page"
    and n: "get_num_blocks v size a page = Inr n" "num_blocks cfg = n"
    using cfg by (elim bindE_eq_InrE) auto
  obtain m where m: "max_memory_from_groups c ps = Inr m" "m \<le> a" "0 < a"
    using assms(1,6) by (auto simp: check_worker_def check_memory_def bindE_eq_Inr split: if_splits)
  then obtain b where b: "sum_result (\<lambda>g. bindE (group_max_memory_usage_bytes c (group_spec g)) (\<lambda>m. cdivE m page)) ps = Inr b"
    and mb: "m = size * page * b" using size page unfolding mem by (auto simp: bindE_eq_Inr)
  have needed: "blocks_needed c ps = Inr b"
    unfolding blocks_needed_def b [symmetric]
    by (rule sum_result_cong) (use uniform_page(2) [OF page] in simp)
  have p0: "page \<noteq> 0" using n(1) by (auto simp: get_num_blocks_def floordiv_def bindE_eq_Inr)
  have "0 \<le> page" using group_page_nonneg [of g0 page] assms(5) ps uniform_page(2) [OF page, of "group_spec g0"] by simp
  then have sp: "0 < page * size" using p0 size(2) by simp
  have "n = max (a div page div size) 0"
    using n(1) assms(3) by (auto simp: get_num_blocks_def floordiv_def bindE_eq_Inr may_override_num_blocks_def)
  moreover have "a div page div size = a div (page * size)" using size(2) by (simp add: zdiv_zmult2_eq)
  moreover have "b \<le> a div (page * size)" using m(2) mb sp by (simp add: int_le_div_iff mult.assoc mult.commute mult.left_commute)
  ultimately show ?thesis using needed n(2) by simp
qed

lemma blocks_needed_specs: "map group_spec gs = map group_spec hs \<Longrightarrow> blocks_needed c gs = blocks_needed c hs"
proof -
  have "blocks_needed c xs = sum_result (\<lambda>s. bindE (group_max_memory_usage_bytes c s) (\<lambda>m. bindE (group_page_size_bytes s) (\<lambda>p. cdivE m p))) (map group_spec xs)" for xs
    by (simp add: blocks_needed_def sum_result_def map_result_comp)
  then show "map group_spec gs = map group_spec hs \<Longrightarrow> blocks_needed c gs = blocks_needed c hs" by simp
qed

lemma project_one_specs:
  assumes "project_kv_cache_groups_to_worker gs w = Inr ps"
  shows "map is_uniform_group (map group_spec ps) = map is_uniform_group (map group_spec gs)"
    "\<forall>g \<in> set gs. \<not> is_uniform_group (group_spec g) \<Longrightarrow> map group_spec ps = map group_spec gs"
proof -
  note p = assms [unfolded project_kv_cache_groups_to_worker_def]
  show "map is_uniform_group (map group_spec ps) = map is_uniform_group (map group_spec gs)"
    unfolding map_map
    by (rule map_result_img [OF p]) (auto simp: project_group_def bindE_eq_Inr Let_def split: group_spec.splits if_splits)
  show "map group_spec ps = map group_spec gs" if a: "\<forall>g \<in> set gs. \<not> is_uniform_group (group_spec g)"
  proof (rule map_result_img [OF p])
    fix g h assume "g \<in> set gs" "project_group w g = Inr h"
    then show "group_spec h = group_spec g" using a by (cases "group_spec g") (auto simp: project_group_def bindE_eq_Inr Let_def)
  qed
qed

end
