(* ===== verification/KV_Startup.thy ===== *)
theory KV_Startup
  imports KV_Fit Cache_Manager
begin

text \<open>
  The start-up configuration on concrete models, and its two gaps: a start-up may leave a layer
  without a tensor (DeepseekV4 over pipeline stages), and a memory that holds a longest request
  exactly is one block too small for it, as the block pool keeps a block for itself.
\<close>

section \<open>Concrete models\<close>

definition demo_vllm_limits :: "int \<Rightarrow> vllm_limits" where
  "demo_vllm_limits len = \<lparr>max_model_len = len, decode_context_parallel_size = 1, prefill_context_parallel_size = 1,
     max_num_batched_toks = 32, max_encoder_input_toks = 0, cfg_mamba_cache_mode = ''none''\<rparr>"

definition demo_vllm :: "int \<Rightarrow> kv_vllm_config" where
  "demo_vllm original = \<lparr>limits = demo_vllm_limits 64, original_max_model_len = original, cache_block_size = 16,
     cfg_hash_block_size = None, cfg_prefix_caching = True, connector_enabled = False, num_gpu_blocks_override = None,
     disable_hybrid_kv_cache_manager = False, spec_config_eagle = False\<rparr>"

definition demo_full :: kv_spec where
  "demo_full = (empty_spec FullAttentionSpec)\<lparr>spec_block_size := 16, num_kv_heads := 1, head_size := 2, head_size_v := Some 2,
     dtype := (''bf16'', 2)\<rparr>"

definition demo_sliding :: kv_spec where
  "demo_sliding = (empty_spec SlidingWindowSpec)\<lparr>spec_block_size := 16, num_kv_heads := 1, head_size := 2, head_size_v := Some 2,
     dtype := (''bf16'', 2), sliding_window := Some 20\<rparr>"

text \<open>One full-attention and two sliding-window layers over two pipeline stages.\<close>

definition demo_stages :: "spec_dict list" where
  "demo_stages = [[(''f0'', demo_full), (''s0'', demo_sliding)], [(''s1'', demo_sliding)]]"




lemma demo_stages_run:
  "case get_kv_cache_configs (demo_vllm 64) demo_stages [3000, 2500] of
     Inl _ \<Rightarrow> False
   | Inr (v', cfgs) \<Rightarrow> map num_blocks cfgs = [19, 19] \<and> map (map shared_by \<circ> kv_cache_tensors) cfgs = [[[''f0'', ''s0'']], [[''s1'']]]
       \<and> list_all (\<lambda>cfg. kv_cache_groups cfg \<noteq> [] \<and> list_all (\<lambda>g. \<not> is_uniform_group (group_spec g) \<and> group_sized g) (kv_cache_groups cfg)) cfgs"
  by code_simp

lemma demo_single_run:
  "case get_kv_cache_configs (demo_vllm 64) [[(''f0'', demo_full)]] [512] of
     Inl _ \<Rightarrow> False
   | Inr (v', cfgs) \<Rightarrow> limits v' = demo_vllm_limits 64 \<and> map num_blocks cfgs = [4]
       \<and> map kv_cache_groups cfgs = [[plain_group [''f0''] (One_spec demo_full)]]
       \<and> blocks_needed (limits v') [plain_group [''f0''] (One_spec demo_full)] = Inr 4"
  by code_simp

lemma demo_fit_run:
  "auto_fit_max_model_len (demo_vllm_limits 64) [[plain_group [''f0''] (One_spec demo_full)]] [300] = Inr (demo_vllm_limits 32)"
  by code_simp

section \<open>A fresh manager of one full-attention group\<close>

lemma full_manager_build:
  assumes "group_spec g = One_spec s" "spec_class s = FullAttentionSpec"
  shows "build_managers batched mml caching 1 1 0 [g] p = Inr ([base_manager FullAttentionManager s p caching 0 1 1 None], p)"
  using assms by (simp add: get_manager_for_kv_cache_spec_def spec_manager_map_def is_sliding_window_def has_class_def Let_def)

lemma full_init:
  assumes "kv_cache_groups cfg = [g]" "group_spec g = One_spec s" "spec_class s = FullAttentionSpec"
  shows "(\<exists>km. kv_cache_manager_init cfg mml hbs batched caching False log_stats events use_int 1 1 = Inr km)
      \<longleftrightarrow> 0 < num_blocks cfg \<and> (caching \<longrightarrow> hbs = spec_block_size s)"
    and "kv_cache_manager_init cfg mml hbs batched caching False log_stats events use_int 1 1 = Inr km \<Longrightarrow>
      \<exists>p. block_pool_init (num_blocks cfg) caching hbs events use_int = Inr p \<and> km_pool km = p \<and> km_max_model_len km = mml
        \<and> single_type_managers (coordinator km) = [base_manager FullAttentionManager s p caching 0 1 1 None]"
proof -
  have base: "coordinator_base_init cfg mml b False caching events use_int 1 1 hbs = bindE (block_pool_init (num_blocks cfg) caching hbs events use_int) (\<lambda>p.
     Inr \<lparr>coord_kind = NoPrefixCache, coord_config = cfg, coord_max_model_len = mml, coord_enable_caching = caching, coord_pool = p,
       eagle_group_ids = set (filter (\<lambda>i. is_eagle_group ([g] ! i)) [0..<length [g]]),
       single_type_managers = [base_manager FullAttentionManager s p caching 0 1 1 None], coord_block_size = 0, coord_dcp = 1, coord_pcp = 1,
       coord_hash_block_size = hbs, attention_groups = [], lcm_block_size = 1, eagle_attn_group_indices = {}\<rparr>)" for b caching
    by (simp only: coordinator_base_init_def Let_def assms(1) full_manager_build [OF assms(2,3)] bindE_Inr prod.case simp_thms if_False)
  have pool: "(\<exists>p. block_pool_init (num_blocks cfg) caching hbs events use_int = Inr p) \<longleftrightarrow> 0 < num_blocks cfg"
    using block_pool_init_spec [of "num_blocks cfg" caching hbs events use_int] by (cases "0 < num_blocks cfg") (blast, simp add: block_pool_init_def)
  note unf = kv_cache_manager_init_def get_kv_cache_coordinator_def unitary_init_def base assms(1,2) py_index_def Let_def
  show "(\<exists>km. kv_cache_manager_init cfg mml hbs batched caching False log_stats events use_int 1 1 = Inr km)
      \<longleftrightarrow> 0 < num_blocks cfg \<and> (caching \<longrightarrow> hbs = spec_block_size s)"
    using pool by (cases caching) (auto simp: unf bindE_eq_Inr)
  show "\<exists>p. block_pool_init (num_blocks cfg) caching hbs events use_int = Inr p \<and> km_pool km = p \<and> km_max_model_len km = mml
        \<and> single_type_managers (coordinator km) = [base_manager FullAttentionManager s p caching 0 1 1 None]"
    if "kv_cache_manager_init cfg mml hbs batched caching False log_stats events use_int 1 1 = Inr km"
    using that by (cases caching) (auto simp: unf bindE_eq_Inr)
qed

lemma fresh_full_manager_exists:
  assumes "kv_cache_groups cfg = [g]" "group_spec g = One_spec s" "spec_class s = FullAttentionSpec" "0 < num_blocks cfg" "caching \<longrightarrow> hbs = spec_block_size s"
  shows "\<exists>km. kv_cache_manager_init cfg mml hbs batched caching False log_stats events use_int 1 1 = Inr km"
  using full_init(1) [OF assms(1-3)] assms(4,5) by blast

lemma fresh_full_manager:
  assumes "kv_cache_manager_init cfg mml hbs batched caching False log_stats events use_int 1 1 = Inr km"
    "kv_cache_groups cfg = [g]" "group_spec g = One_spec s" "spec_class s = FullAttentionSpec" "spec_fine s"
  obtains m where "km_reach km" "single_type_managers (coordinator km) = [m]" "mgr_class m = FullAttentionManager" "max_admission_blocks m = None"
    "block_size m = spec_block_size s" "\<And>rid. rtb_get rid m = []" "km_max_model_len km = mml" "get_num_free_blocks (km_pool km) = num_blocks cfg - 1"
proof -
  obtain p where p: "block_pool_init (num_blocks cfg) caching hbs events use_int = Inr p" "km_pool km = p" "km_max_model_len km = mml"
    "single_type_managers (coordinator km) = [base_manager FullAttentionManager s p caching 0 1 1 None]"
    using full_init(2) [OF assms(2-4,1)] by blast
  have n: "0 < num_blocks cfg" using full_init(1) [OF assms(2-4)] assms(1) by blast
  have "pool_inv p (map Blk [1..<nat (num_blocks cfg)])" using block_pool_init_spec [OF n, of caching hbs events use_int] p(1) by auto
  then have "get_num_free_blocks p = num_blocks cfg - 1" using pool_invD(8) n by (fastforce simp: get_num_free_blocks_def)
  moreover have "km_reach km" by (rule km_reach.init [OF assms(1)]) (use assms(2,3,5) in auto)
  ultimately show thesis by (intro that [of "base_manager FullAttentionManager s p caching 0 1 1 None"])
    (simp_all add: p(2-4) base_manager_def rtb_get_def)
qed

lemma one_full_group_blocks:
  assumes "group_spec g = One_spec s" "spec_class s = FullAttentionSpec" "group_sized g"
    "decode_context_parallel_size c * prefill_context_parallel_size c = 1"
    "bindE (group_max_memory_usage_bytes c (group_spec g)) (\<lambda>m. bindE (group_page_size_bytes (group_spec g)) (\<lambda>p. cdivE m p)) = Inr b"
  shows "b = cdiv (max_model_len c) (spec_block_size s)"
proof -
  obtain p where p: "page_size_bytes s = Inr p" using assms(1,5) by (auto simp: bindE_eq_Inr)
  then have pos: "0 < p" using assms(1,3) by (simp add: group_sized_def spec_sized_def)
  have "max_memory_usage_bytes c s = Inr (cdiv (max_model_len c) (spec_block_size s) * p)"
    using assms(2,4) p by (simp add: max_memory_usage_bytes_def is_full_attention_def)
  moreover have "cdiv (k * p) p = k" for k using cdiv_add_mult [OF pos, of 0 k] by (simp add: cdiv_def)
  ultimately show ?thesis using assms(1,5) p pos by (simp add: cdivE_def)
qed

section \<open>Properties\<close>

text \<open>
  C20. A successful start-up places every layer: each worker's groups contain each of its layers exactly
  once, its tensors give each layer exactly one place (unless several groups of per-layer specs are
  laid out by the DeepseekV4 scheme), and all workers have the same number of blocks.
\<close>

theorem worker_layers_placed:
  assumes "get_kv_cache_configs v specs available = Inr (v', cfgs)" "length available = length specs" "\<forall>d \<in> set specs. dict_wf d"
  shows "length cfgs = length specs \<and> (\<exists>n. \<forall>cfg \<in> set cfgs. num_blocks cfg = n)
    \<and> (\<forall>i < length specs. mset (group_layers (kv_cache_groups (cfgs ! i))) = mset (map fst (specs ! i))
         \<and> (one_tensor_each (kv_cache_groups (cfgs ! i))
              \<longrightarrow> mset (concat (map shared_by (kv_cache_tensors (cfgs ! i)))) = mset (map fst (specs ! i))))"
  using get_kv_cache_configs_steps [OF assms(1,2)]
proof cases
  case (1 gs projected olds n)
  note s = 1
  have "num_blocks (cfgs ! i) = n" if "i < length specs" for i using shrink_config_fields(1) [OF s(9) [OF that]] .
  moreover have "mset (group_layers (kv_cache_groups (cfgs ! i))) = mset (map fst (specs ! i))
         \<and> (one_tensor_each (kv_cache_groups (cfgs ! i))
              \<longrightarrow> mset (concat (map shared_by (kv_cache_tensors (cfgs ! i)))) = mset (map fst (specs ! i)))"
    if i: "i < length specs" for i
  proof -
    note f = shrink_config_fields [OF s(9) [OF i]]
    have w: "get_kv_cache_config_from_groups v' (projected ! i) (available ! i) = Inr (olds ! i)"
      using s(8) [OF i] by (auto simp: worker_config_def bindE_eq_Inr)
    have layers: "mset (group_layers (kv_cache_groups (olds ! i))) = mset (map fst (specs ! i))"
      by (rule worker_layers_exact [OF s(8) [OF i] s(6) [OF i] s(2)]) (use i assms(3) in simp)
    have "map shared_by (kv_cache_tensors (cfgs ! i)) = map shared_by (kv_cache_tensors (olds ! i))"
      by (rule map_result_img [OF f(3)]) (auto simp: shrink_tensor_def bindE_eq_Inr)
    then show ?thesis using layers config_shares [OF w] config_groups [OF w] by (simp add: f(2))
  qed
  ultimately show ?thesis using s(5) by (intro conjI exI [of _ n]) (auto simp: in_set_conv_nth)
qed

theorem worker_layers_placed_witness:
  "\<exists>v' cfgs. get_kv_cache_configs (demo_vllm 64) demo_stages [3000, 2500] = Inr (v', cfgs) \<and> length cfgs = 2
     \<and> mset (group_layers (kv_cache_groups (cfgs ! 0))) = {#''f0'', ''s0''#}
     \<and> mset (concat (map shared_by (kv_cache_tensors (cfgs ! 1)))) = {#''s1''#}"
proof -
  obtain v' cfgs where r: "get_kv_cache_configs (demo_vllm 64) demo_stages [3000, 2500] = Inr (v', cfgs)"
    and ok: "list_all (\<lambda>cfg. kv_cache_groups cfg \<noteq> [] \<and> list_all (\<lambda>g. \<not> is_uniform_group (group_spec g) \<and> group_sized g) (kv_cache_groups cfg)) cfgs"
    using demo_stages_run by (auto split: sum.splits)
  have wf: "\<forall>d \<in> set demo_stages. dict_wf d" by (simp add: demo_stages_def dict_wf_def)
  have l: "length demo_stages = 2" "demo_stages ! 0 = [(''f0'', demo_full), (''s0'', demo_sliding)]" "demo_stages ! 1 = [(''s1'', demo_sliding)]"
    by (simp_all add: demo_stages_def)
  from worker_layers_placed [OF r _ wf] have p: "length cfgs = 2"
    "\<forall>i < 2. mset (group_layers (kv_cache_groups (cfgs ! i))) = mset (map fst (demo_stages ! i))
       \<and> (one_tensor_each (kv_cache_groups (cfgs ! i)) \<longrightarrow> mset (concat (map shared_by (kv_cache_tensors (cfgs ! i)))) = mset (map fst (demo_stages ! i)))"
    by (simp_all add: l)
  have "cfgs ! 1 \<in> set cfgs" using p(1) by simp
  then have "one_tensor_each (kv_cache_groups (cfgs ! 1))" using ok by (cases "kv_cache_groups (cfgs ! 1)") (auto simp: one_tensor_each_def list_all_iff)
  then show ?thesis using r p(1) spec [OF p(2), of 0] spec [OF p(2), of 1] by (intro exI [of _ v'] exI [of _ cfgs]) (simp add: l l(3) [simplified])
qed

text \<open>
  C21. The tensors of every worker fit its memory: without an override of the number of blocks, their
  sizes, after shrinking to the smallest number of blocks of all workers, sum to no more than the
  memory the worker reported.
\<close>

theorem tensors_fit_memory:
  assumes "get_kv_cache_configs v specs available = Inr (v', cfgs)" "length available = length specs"
    "num_gpu_blocks_override v = None" "\<forall>a \<in> set available. 0 \<le> a" "\<forall>cfg \<in> set cfgs. 0 \<le> num_blocks cfg"
  shows "\<forall>i < length cfgs. (\<Sum>t \<leftarrow> kv_cache_tensors (cfgs ! i). tensor_size t) \<le> available ! i"
  using get_kv_cache_configs_steps [OF assms(1,2)]
proof cases
  case (1 gs projected olds n)
  note s = 1
  have "(\<Sum>t \<leftarrow> kv_cache_tensors (cfgs ! i). tensor_size t) \<le> available ! i" if i: "i < length specs" for i
  proof -
    note f = shrink_config_fields [OF s(9) [OF i]]
    have n: "0 \<le> n" using assms(5) f(1) i s(5) by (metis nth_mem)
    have a: "0 \<le> available ! i" using assms(2,4) i by simp
    have w: "get_kv_cache_config_from_groups v' (projected ! i) (available ! i) = Inr (olds ! i)"
      using s(8) [OF i] by (auto simp: worker_config_def bindE_eq_Inr)
    have ok: "\<forall>g \<in> set (projected ! i). group_names_ok g"
      using map_result_all [OF s(6) [OF i, unfolded project_kv_cache_groups_to_worker_def]] project_group_ok by blast
    have "distinct (group_layers (projected ! i))" unfolding project_layers [OF s(6) [OF i]] using s(2) by simp
    then have "tensors_fit (available ! i) (num_blocks (olds ! i)) (kv_cache_tensors (olds ! i))"
      using config_fits [OF w _ a _ ok] s(10) [OF i] n assms(3) s(11) by (metis kv_vllm_config.select_convs(7) kv_vllm_config.surjective kv_vllm_config.update_convs(1) order_trans)
    then show ?thesis using shrink_fits [OF _ f(3) n s(10) [OF i] a] by blast
  qed
  then show ?thesis by (simp add: s(5))
qed

theorem tensors_fit_memory_witness:
  "\<exists>v' cfgs. get_kv_cache_configs (demo_vllm 64) demo_stages [3000, 2500] = Inr (v', cfgs) \<and> map num_blocks cfgs = [19, 19]
     \<and> (\<Sum>t \<leftarrow> kv_cache_tensors (cfgs ! 1). tensor_size t) \<le> 2500"
proof -
  obtain v' cfgs where r: "get_kv_cache_configs (demo_vllm 64) demo_stages [3000, 2500] = Inr (v', cfgs)" and n: "map num_blocks cfgs = [19, 19]"
    using demo_stages_run by (auto split: sum.splits)
  have len: "length cfgs = 2" using arg_cong [OF n, of length] by simp
  have "num_blocks cfg = 19" if "cfg \<in> set cfgs" for cfg using imageI [OF that, of num_blocks] arg_cong [OF n, of set] by simp
  then have "\<forall>cfg \<in> set cfgs. 0 \<le> num_blocks cfg" by simp
  from tensors_fit_memory [OF r _ _ _ this] have "\<forall>i < length cfgs. (\<Sum>t \<leftarrow> kv_cache_tensors (cfgs ! i). tensor_size t) \<le> [3000, 2500] ! i"
    by (simp add: demo_stages_def demo_vllm_def)
  then show ?thesis using r n len by (intro exI [of _ v'] exI [of _ cfgs]) (auto dest: spec [of _ 1])
qed

text \<open>
  C23. Fitting the model length to the memory is exact: a length up to the configured maximum fits the
  memory of every worker that has layers if and only if it is at most the fitted length.
\<close>

theorem auto_fit_exact:
  assumes "auto_fit_max_model_len c projected available = Inr c'" "\<forall>gs \<in> set projected. \<forall>g \<in> set gs. group_sized g"
    "1 \<le> l" "l \<le> max_model_len c"
  shows "l \<le> max_model_len c' \<longleftrightarrow> (\<forall>(gs, a) \<in> set (zip projected available). gs \<noteq> []
           \<longrightarrow> (\<exists>n. max_memory_from_groups (with_len c l) gs = Inr n \<and> n \<le> a))"
proof (cases "list_all (\<lambda>gs. gs = []) projected")
  case True
  then have "c' = c" "\<forall>(gs, a) \<in> set (zip projected available). gs = []"
    using assms(1) by (auto simp: auto_fit_max_model_len_def list_all_iff dest: set_zip_leftD)
  then show ?thesis using assms(4) by auto
next
  case False
  then obtain best where f: "foldE (auto_fit_step c) (zip projected available) (max_model_len c) = Inr best"
    and c': "c' = (if max_model_len c \<le> best then c else with_len c best)"
    using assms(1) by (auto simp: auto_fit_max_model_len_def bindE_eq_Inr)
  have "\<forall>(gs, _) \<in> set (zip projected available). \<forall>g \<in> set gs. group_sized g" using assms(2) by (auto dest: set_zip_leftD)
  from auto_fit_fold [OF f this assms(3,4)] have "best \<le> max_model_len c" "l \<le> best \<longleftrightarrow> (\<forall>(gs, a) \<in> set (zip projected available). gs \<noteq> []
           \<longrightarrow> (\<exists>n. max_memory_from_groups (with_len c l) gs = Inr n \<and> n \<le> a))" using assms(4) by auto
  then show ?thesis using c' assms(4) by auto
qed

theorem auto_fit_exact_witness:
  "(\<exists>n. max_memory_from_groups (with_len (demo_vllm_limits 64) 32) [plain_group [''f0''] (One_spec demo_full)] = Inr n \<and> n \<le> 300)
   \<and> \<not> (\<exists>n. max_memory_from_groups (with_len (demo_vllm_limits 64) 33) [plain_group [''f0''] (One_spec demo_full)] = Inr n \<and> n \<le> 300)"
proof -
  have sized: "\<forall>gs \<in> set [[plain_group [''f0''] (One_spec demo_full)]]. \<forall>g \<in> set gs. group_sized g" by code_simp
  have len: "max_model_len (demo_vllm_limits n) = n" for n by (simp add: demo_vllm_limits_def)
  from auto_fit_exact [OF demo_fit_run sized, of 32] auto_fit_exact [OF demo_fit_run sized, of 33] show ?thesis by (simp add: len)
qed




text \<open>
  C24. A memory that holds a longest request exactly is one block too small for it: on a full-attention
  model whose number of blocks is just what the start-up check asks for, the manager refuses every
  request that needs the maximal length, though no other request holds a block.
\<close>

theorem exact_fit_refused:
  assumes "kv_cache_manager_init cfg (max_model_len c) hbs batched caching False log_stats events use_int 1 1 = Inr km"
    "kv_cache_groups cfg = [g]" "group_spec g = One_spec s" "spec_class s = FullAttentionSpec" "spec_fine s" "group_sized g"
    "decode_context_parallel_size c * prefill_context_parallel_size c = 1" "0 < max_model_len c"
    "blocks_needed c (kv_cache_groups cfg) = Inr (num_blocks cfg)" "num_computed_tokens r = 0" "0 \<le> lookahead"
  shows "allocate_slots sha r (max_model_len c) 0 None lookahead 0 delay enc km = Inr (None, km)"
proof -
  obtain m where m: "km_reach km" "single_type_managers (coordinator km) = [m]" "mgr_class m = FullAttentionManager" "max_admission_blocks m = None"
    "block_size m = spec_block_size s" "\<And>rid. rtb_get rid m = []" "km_max_model_len km = max_model_len c" "get_num_free_blocks (km_pool km) = num_blocks cfg - 1"
    by (rule fresh_full_manager [OF assms(1-5)]) blast
  have need: "num_blocks cfg = cdiv (max_model_len c) (spec_block_size s)"
    using one_full_group_blocks [OF assms(3,4,6,7)] assms(2,9) by (auto simp: blocks_needed_def sum_result_def bindE_eq_Inr)
  have "min (min (num_computed_tokens r) (max_model_len c) + max_model_len c + lookahead) (max_model_len c) = max_model_len c"
    using assms(8,10,11) by simp
  then show ?thesis
    by (intro slots_plain(1) [OF km_reach_inv [OF m(1)] m(2-4) assms(8)]) (simp add: m(5-8) need)
qed

theorem exact_fit_refused_witness:
  "\<exists>v' cfg km. get_kv_cache_configs (demo_vllm 64) [[(''f0'', demo_full)]] [512] = Inr (v', [cfg]) \<and> max_model_len (limits v') = 64
     \<and> kv_cache_manager_init cfg 64 16 None True False False False False 1 1 = Inr km
     \<and> allocate_slots concat demo_six 64 0 None 0 0 True 0 km = Inr (None, km)"
proof -
  obtain v' cfg where r: "get_kv_cache_configs (demo_vllm 64) [[(''f0'', demo_full)]] [512] = Inr (v', [cfg])" "limits v' = demo_vllm_limits 64"
    "num_blocks cfg = 4" "kv_cache_groups cfg = [plain_group [''f0''] (One_spec demo_full)]"
    "blocks_needed (demo_vllm_limits 64) [plain_group [''f0''] (One_spec demo_full)] = Inr 4"
    using demo_single_run by (auto split: sum.splits)
  have fine: "spec_fine demo_full" "spec_class demo_full = FullAttentionSpec" "group_sized (plain_group [''f0''] (One_spec demo_full))" by code_simp+
  have "spec_block_size demo_full = 16" by (simp add: demo_full_def)
  then have "\<exists>km. kv_cache_manager_init cfg 64 16 None True False False False False 1 1 = Inr km"
    by (intro fresh_full_manager_exists [OF r(4) _ fine(2)]) (simp_all add: r(3))
  then obtain km where km: "kv_cache_manager_init cfg 64 16 None True False False False False 1 1 = Inr km" by (elim exE)
  have l: "max_model_len (demo_vllm_limits 64) = 64" by (simp add: demo_vllm_limits_def)
  have cp: "decode_context_parallel_size (demo_vllm_limits 64) * prefill_context_parallel_size (demo_vllm_limits 64) = 1"
    by (simp add: demo_vllm_limits_def)
  have "allocate_slots concat demo_six 64 0 None 0 0 True 0 km = Inr (None, km)"
    by (rule exact_fit_refused [of cfg "demo_vllm_limits 64", unfolded l, OF km r(4) _ fine(2,1,3)])
      (simp_all add: r cp demo_six_def demo_request_def)
  then show ?thesis using r(1,2) km l by (intro exI [of _ v'] exI [of _ cfg] exI [of _ km]) simp
qed

end
