(* ===== verification/Spec2Isabelle.thy ===== *)
theory Spec2Isabelle
  imports Proc_Correct KV_Startup
begin

text \<open>
  A verification development of the KV-cache management, the scheduler and the engine loop of vLLM
  (\<open>src/work/vllm/vllm/v1\<close>).

  \<^bold>\<open>The program.\<close> vLLM serves language models. The keys and values of a request's tokens live
  in fixed-size blocks of accelerator memory. The core of the engine decides, step by step,
  which request gets which blocks: a pool hands out, shares, frees and evicts blocks; full
  blocks are cached under a hash of their token prefix, so that a later request with the same
  prefix takes them over; every kind of attention layer has a manager with its own rules for
  the blocks it needs; a coordinator keeps the managers of a hybrid model consistent; the
  KV cache manager is what the scheduler calls. Encoder outputs of multimodal inputs have
  their own cache, and waiting requests their queues. The scheduler runs in steps: it gives tokens of
  a budget to running and then to waiting requests, preempts requests to make room, and takes the
  model's output. The engine loop calls it, runs the model, and deals with the requests of clients,
  pauses and shutdown; data-parallel engines run their steps together.

  \<^bold>\<open>Theories and the files they model.\<close>

  \<^item> \<open>Prelude\<close>: Python's lists, dicts, slices and exceptions as HOL functions; \<open>cdiv\<close> and its
    relatives of \<open>utils/math_utils.py\<close>. A call that may raise is an \<open>'a result\<close>, \<open>Inl\<close> the
    exception.
  \<^item> \<open>Free_Queue\<close>: \<open>KVCacheBlock\<close> and \<open>FreeKVCacheBlockQueue\<close> of \<open>core/kv_cache_utils.py\<close>, the
    doubly linked list of free blocks, on an explicit heap of block objects.
  \<^item> \<open>Request_Model\<close>: \<open>request.py\<close> and \<open>core/sched/utils.py\<close>, the state of a request, its order,
    its block hashes, and the checks that stop it.
  \<^item> \<open>Block_Hash\<close>: the extra keys, the hashes and the regrouped hash lists of
    \<open>core/kv_cache_utils.py\<close>. The hash functions are parameters.
  \<^item> \<open>Block_Pool\<close>: \<open>core/block_pool.py\<close>, with the events it publishes.
  \<^item> \<open>KV_Spec\<close>: \<open>kv_cache_interface.py\<close>, the specifications of layers, their page sizes,
    memory bounds, admission caps and merging.
  \<^item> \<open>KV_Config\<close>: the configuration part of \<open>core/kv_cache_utils.py\<close>: groups of layers, the memory
    check, the search for the model length, the tensors. \<open>KV_Layout\<close> shows that no layer is lost and that
    tensors fit, \<open>KV_Fit\<close> that memory grows with the length and the search is exact; \<open>KV_Startup\<close> has
    the properties.
  \<^item> \<open>Single_Type\<close>: \<open>core/single_type_kv_cache_manager.py\<close>, one manager per KV cache group.
  \<^item> \<open>Prefix_Lookup\<close>: what the coordinator relies on when it asks a manager class for the
    longest cached prefix.
  \<^item> \<open>Coordinator\<close>: \<open>core/kv_cache_coordinator.py\<close>, the three coordinators.
  \<^item> \<open>Ownership\<close>: who holds which block, over all managers of a coordinator.
  \<^item> \<open>Cache_Manager\<close>: \<open>core/kv_cache_manager.py\<close> and the statistics of \<open>metrics/stats.py\<close>.
  \<^item> \<open>Request_Queue\<close>: \<open>core/sched/request_queue.py\<close>, with the algorithm of \<open>heapq\<close>.
  \<^item> \<open>Encoder_Cache\<close>: \<open>core/encoder_cache_manager.py\<close>.
  \<^item> \<open>Scheduler_State\<close>: the attributes of \<open>Scheduler\<close> (\<open>core/sched/scheduler.py\<close>), operations that
    may raise or not return, Python's \<open>while\<close>, encoder inputs, and preemption.
  \<^item> \<open>Scheduler_Step\<close>: \<open>schedule\<close> with the output classes of \<open>core/sched/output.py\<close> and the
    asynchronous scheduler. \<open>Scheduler_Update\<close>: \<open>update_from_output\<close> and every other operation:
    adding, finishing and preempting requests, streaming sessions, drafts, resets, pausing.
  \<^item> \<open>Placement\<close>: where a request is (dict, running list, queues), and what moves keep of it.
  \<^item> \<open>Scheduler_Loops\<close>, \<open>KV_Frame\<close>, \<open>Scheduler_Waiting\<close>, \<open>Scheduler_Frame\<close>, \<open>Scheduler_Safety\<close>: the
    loops over running and waiting requests, what a step leaves alone, its invariant and its end.
  \<^item> \<open>Output_Places\<close>, \<open>Request_Places\<close>: placement while outputs are taken and in the other operations.
  \<^item> \<open>Token_Pace\<close>, \<open>Token_Update\<close>: the token counts during a step and when its output is taken.
  \<^item> \<open>Engine_Core\<close>, \<open>Engine_Proc\<close>, \<open>DP_Engine\<close>: \<open>EngineCore\<close>, \<open>EngineCoreProc\<close> and
    \<open>DPEngineCoreProc\<close> of \<open>engine/core.py\<close>.
  \<^item> \<open>Engine_Safety\<close>: the synchronous engine as a state machine. \<open>Demo_Step\<close>: one request and one
    step worked out. \<open>Engine_Correct\<close>, \<open>Proc_Correct\<close>: the properties of the engine.

  \<^bold>\<open>How state and operations correspond.\<close> A class is a record; a class hierarchy is one record
  with a class tag, and a method dispatches on the tag where a subclass overrides it. A method
  that changes its object takes it and returns it. Blocks are objects that many lists share, so
  they are references into a heap, and identity is equality of references. The managers of a
  coordinator share one pool, which is threaded through their calls in the order of the code.
  The scheduler keeps request objects in a store from object ids to requests; queues hold copies, which
  \<open>set_obj\<close> keeps equal to the store, so that a change of a request is seen wherever the code holds a
  reference to it. The local variables of \<open>schedule\<close> and of \<open>update_from_output\<close> are records, and each
  loop body is a function on them. Subclasses of the engine extend its record. The model executor is a
  parameter that answers each batch.
  Python integers are \<open>int\<close>, bytes are lists of 8-bit words. A dict is an association list in
  insertion order, because eviction orders depend on it. Reading a missing key of a
  \<open>defaultdict\<close> inserts it.

  \<^bold>\<open>What is shown.\<close>

  \<^item> Ownership: in every state the pool, a manager or the whole KV cache manager can reach, the
    reference count of a block is the number of its holders, and the free queue holds exactly
    the blocks without holder. Requests do not disturb each other.
  \<^item> Allocation: the pool raises exactly when it has too few blocks; \<open>allocate_slots\<close> on a
    full-attention model refuses exactly when blocks are missing and raises nothing otherwise.
  \<^item> Prefix caching: equal block hashes imply equal prefixes for a collision-free hash; cached
    blocks are found again; lookups return the longest prefix (full attention), cover the
    window (sliding windows), and the search of the hybrid coordinator returns and gives every
    group blocks for exactly the tokens it reports.
  \<^item> Blocks that are given up hold no token that any later step attends to.
  \<^item> The free queue refines a queue; the priority queue yields a sorted permutation; the
    encoder cache never exceeds its capacity; stop checks decide as documented.
  \<^item> The scheduler: in every state that the synchronous engine reaches, by new requests, steps, aborts,
    pauses and resets, each live request is in exactly one place, token counts are within the limits of
    the model, and the next step ends; a step stays within its budget and names only running requests;
    it changes only scheduling fields of requests; an abort ends exactly the requests it names.
  \<^item> The engine: the batch queue never overflows and is served in order; a shutdown leaves no request
    and tells every client; data-parallel ranks start and end a wave together.
  \<^item> The start-up: each layer of a worker is in one group and one tensor, the tensors fit the memory, the
    fitted model length is the greatest that fits, and there are blocks for a longest request.
  \<^item> Where the code does not do what it means to do, a theorem states what it does: the
    multimodal key of late blocks, the capped admission check, the EAGLE drop with
    state-space layers, the truncation of a second full-attention group, the cap of chunked
    attention, merged specifications that ignore the value head size, a layer without tensor, a memory check
    that forgets the null block, and two kinds of requests that
    never end: \<open>min_tokens\<close> beyond the length of the model, and a pooling prompt of exactly that length.

  \<^bold>\<open>Loops and bounds.\<close> Loops over data are structural recursion. The walk over the linked free
  list, the fixed-point search of the hybrid coordinator, the block hasher and the three \<open>while\<close> loops
  of \<open>schedule\<close> may fail to return in general; they are \<open>partial_function (option)\<close>, and theorems show
  that they return. No fuel is used.

  \<^bold>\<open>Interfaces.\<close> The locales \<open>free_block_queue\<close>, \<open>block_index\<close>, \<open>heap_order\<close>, \<open>request_queue_ops\<close>,
  \<open>attention_window\<close>, \<open>prefix_lookup\<close>, \<open>eagle_lookup\<close>, \<open>manager_op\<close> and \<open>total_manager_op\<close> state what a
  client relies on, \<open>guarded_loop\<close> and \<open>bounded_loop\<close> what a loop body keeps and why the loop ends, and
  \<open>memo_hasher\<close> what a block hasher may change; each is interpreted on the code's own operations.

  \<^bold>\<open>What the engine properties assume.\<close> The engine is synchronous, without batch queue, and its requests
  are no streaming sessions. A new request has a new id and at least one token, fits the length of the
  model, and asks for no more \<open>min_tokens\<close> than fit. The model runner gives no token to a request whose
  prompt is not yet computed, and otherwise at least one and at most one more than its drafts, or its
  pooled output. A block hasher changes only the memo of embedding hashes.

  \<^bold>\<open>Not modelled.\<close> The metrics collector, logging, statistics and log probabilities; KV transfer and
  encoder connectors with their failure handling (their effect on the core is the number of external
  tokens they report, which is an argument); the bodies of structured-output grammars, which are
  parameters; sockets, handshakes, elastic scaling, sleeping and the calls that the engine only forwards
  to its executor. The eviction policies of \<open>kv_offload\<close> are not modelled yet. Workers, model code, kernels, entry points and
  process management are tensor programs or glue without state logic of this kind.
\<close>

end
